(* ===== verification/Gots_Prelude.thy ===== *)
theory Gots_Prelude
  imports Main "HOL-Library.Word"
begin

text \<open>
  Shared ground of the development: the widths of the Go integers, the errors of
  \<^verbatim>\<open>gots/errors.go\<close>, the result type of a Go call (a value, an error, or a run-time panic),
  Go's slice and \<^verbatim>\<open>copy\<close> operations on byte lists, and the rewrite rules on bytes, words and
  lists that the component theories use.

  A Go slice is a list; its capacity is taken to be its length, so that a slice expression beyond
  the length panics.  A Go array \<^verbatim>\<open>[188]byte\<close> is a list of length 188 (predicate \<open>wf_packet\<close> of
  the packet theories).  Reads at an index that is not a constant of the source go through
  \<open>rd\<close> and \<open>slice\<close>, which panic out of range as Go does.
\<close>

unbundle bit_operations_syntax

named_theorems byte_simps
named_theorems pkt_simps

type_synonym byte = "8 word"
type_synonym u16 = "16 word"
type_synonym u32 = "32 word"
type_synonym u64 = "64 word"

section \<open>The errors of the library\<close>

text \<open>
  The constructors up to \<open>ErrAccumulatorInvalidState\<close> are the variables of
  \<^verbatim>\<open>errors.go\<close>, in its order.  The rest are the values of package \<^verbatim>\<open>io\<close> and the errors made
  in place with \<^verbatim>\<open>errors.New\<close>.
\<close>

datatype gots_error =
    ErrBadSyncByte
  | ErrUnrecognizedEbpType
  | ErrNoEBP
  | ErrNoEBPData
  | ErrInvalidEBPLength
  | ErrInvalidPacketLength
  | ErrInvalidTSCFlag
  | ErrInvalidAFCFlag
  | ErrNoPayload
  | ErrNoAdaptationField
  | ErrAdaptationFieldTooLarge
  | ErrAdaptationFieldCannotGrow
  | ErrAdaptationFieldZeroLength
  | ErrNoPrivateTransportData
  | ErrNoSplicePoint
  | ErrNoPCR
  | ErrNoOPCR
  | ErrNoAdaptationFieldExtension
  | ErrPATNotFound
  | ErrPMTNotFound
  | ErrPMTParse
  | ErrParsePMTDescriptor
  | ErrInvalidPATLength
  | ErrNoPayloadUnitStartIndicator
  | ErrUnknownTableID
  | ErrShortPayload
  | ErrInvalidSCTE35Length
  | ErrSCTE35EncryptionUnsupported
  | ErrSCTE35UnsupportedSpliceCommand
  | ErrSCTE35InvalidDescriptorID
  | ErrSCTE35DuplicateDescriptor
  | ErrSCTE35InvalidDescriptor
  | ErrSCTE35MissingOut
  | ErrSCTE35DescriptorNotFound
  | ErrNilPAT
  | ErrSyncByteNotFound
  | ErrVSSSignalIdNotFound
  | ErrPIDNotInPMT "int list"
  | ErrAccumulatorDone
  | ErrAccumulatorInvalidState
  | IoEOF
  | IoErrUnexpectedEOF
  | IoErrShortWrite
  | ErrorsNew string

section \<open>Results of Go calls\<close>

datatype 'a res = Ok 'a | Err gots_error | Panic

fun res_bind :: "'a res \<Rightarrow> ('a \<Rightarrow> 'b res) \<Rightarrow> 'b res" where
  "res_bind (Ok x) f = f x"
| "res_bind (Err e) f = Err e"
| "res_bind Panic f = Panic"

lemma res_bind_Ok_iff [simp]:
  "res_bind m f = Ok y \<longleftrightarrow> (\<exists>x. m = Ok x \<and> f x = Ok y)"
  by (cases m) auto

lemma res_bind_cong [fundef_cong]:
  "m = m' \<Longrightarrow> (\<And>x. m' = Ok x \<Longrightarrow> f x = f' x) \<Longrightarrow> res_bind m f = res_bind m' f'"
  by (cases m') auto

lemma res_bind_not_Panic:
  "m \<noteq> Panic \<Longrightarrow> (\<And>x. m = Ok x \<Longrightarrow> f x \<noteq> Panic) \<Longrightarrow> res_bind m f \<noteq> Panic"
  by (cases m) auto

section \<open>Slices\<close>

definition rd :: "'a list \<Rightarrow> nat \<Rightarrow> 'a res" where
  "rd xs i = (if i < length xs then Ok (xs ! i) else Panic)"

definition slice :: "'a list \<Rightarrow> nat \<Rightarrow> nat \<Rightarrow> 'a list res" where
  "slice xs i j = (if i \<le> j \<and> j \<le> length xs then Ok (take (j - i) (drop i xs)) else Panic)"

abbreviation slice_from :: "'a list \<Rightarrow> nat \<Rightarrow> 'a list res" where
  "slice_from xs i \<equiv> slice xs i (length xs)"

text \<open>
  \<open>go_copy dst off src\<close> is the array after \<^verbatim>\<open>copy(dst[off:], src)\<close>: as many elements as fit.
\<close>

definition go_copy :: "'a list \<Rightarrow> nat \<Rightarrow> 'a list \<Rightarrow> 'a list" where
  "go_copy dst off src =
     take off dst @ take (length dst - off) src @ drop (off + length src) dst"

text \<open>The array after \<^verbatim>\<open>copy(xs[i:j], src)\<close>, and after \<^verbatim>\<open>xs[i] = v\<close>.\<close>

definition copy_slice :: "'a list \<Rightarrow> nat \<Rightarrow> nat \<Rightarrow> 'a list \<Rightarrow> 'a list res" where
  "copy_slice xs i j src =
     (if i \<le> j \<and> j \<le> length xs then Ok (go_copy xs i (take (j - i) src)) else Panic)"

definition wr :: "'a list \<Rightarrow> nat \<Rightarrow> 'a \<Rightarrow> 'a list res" where
  "wr xs i v = (if i < length xs then Ok (xs[i := v]) else Panic)"

text \<open>The loop \<^verbatim>\<open>for i := a; i < b; i++ { xs[i] = v }\<close>.\<close>

function fill :: "'a \<Rightarrow> nat \<Rightarrow> nat \<Rightarrow> 'a list \<Rightarrow> 'a list" where
  "fill v a b xs = (if a < b then fill v (Suc a) b (xs[a := v]) else xs)"
  by pat_completeness auto
termination
  by (relation "measure (\<lambda>(v, a, b, xs). b - a)") auto

declare fill.simps [simp del]

lemma rd_Ok [simp]: "i < length xs \<Longrightarrow> rd xs i = Ok (xs ! i)"
  by (simp add: rd_def)

lemma rd_Ok_iff: "rd xs i = Ok x \<longleftrightarrow> i < length xs \<and> x = xs ! i"
  by (auto simp: rd_def)

lemma rd_not_Err [simp]: "rd xs i \<noteq> Err e"
  by (simp add: rd_def)

lemma rd_Panic_iff: "rd xs i = Panic \<longleftrightarrow> length xs \<le> i"
  by (auto simp: rd_def)

lemma slice_Ok_iff:
  "slice xs i j = Ok ys \<longleftrightarrow> i \<le> j \<and> j \<le> length xs \<and> ys = take (j - i) (drop i xs)"
  by (auto simp: slice_def)

lemma slice_Ok [simp]:
  "i \<le> j \<Longrightarrow> j \<le> length xs \<Longrightarrow> slice xs i j = Ok (take (j - i) (drop i xs))"
  by (simp add: slice_def)

lemma slice_not_Err [simp]: "slice xs i j \<noteq> Err e"
  by (simp add: slice_def)

lemma slice_Panic_iff: "slice xs i j = Panic \<longleftrightarrow> \<not> (i \<le> j \<and> j \<le> length xs)"
  by (auto simp: slice_def)

lemma length_slice: "slice xs i j = Ok ys \<Longrightarrow> length ys = j - i"
  by (auto simp: slice_Ok_iff)

lemma length_go_copy [simp]: "off \<le> length dst \<Longrightarrow> length (go_copy dst off src) = length dst"
  by (simp add: go_copy_def)

lemma nth_go_copy:
  assumes "i < length dst" "off \<le> length dst"
  shows "go_copy dst off src ! i =
    (if off \<le> i \<and> i < off + length src then src ! (i - off) else dst ! i)"
proof (cases "i < off")
  case True
  with assms show ?thesis by (simp add: go_copy_def nth_append)
next
  case False
  show ?thesis
  proof (cases "i < off + length src")
    case True
    with False assms show ?thesis by (auto simp: go_copy_def nth_append min_def)
  next
    case nsrc: False
    with False assms have "length dst - off \<ge> length src" by linarith
    with False nsrc assms show ?thesis by (auto simp: go_copy_def nth_append min_def)
  qed
qed

lemma drop_go_copy:
  "off + length src = length dst \<Longrightarrow> drop off (go_copy dst off src) = src"
  by (simp add: go_copy_def)

lemma wr_Ok [simp]: "i < length xs \<Longrightarrow> wr xs i v = Ok (xs[i := v])"
  by (simp add: wr_def)

lemma wr_not_Err [simp]: "wr xs i v \<noteq> Err e"
  by (simp add: wr_def)

lemma copy_slice_Ok [simp]:
  "i \<le> j \<Longrightarrow> j \<le> length xs \<Longrightarrow> copy_slice xs i j src = Ok (go_copy xs i (take (j - i) src))"
  by (simp add: copy_slice_def)

lemma copy_slice_not_Err [simp]: "copy_slice xs i j src \<noteq> Err e"
  by (simp add: copy_slice_def)

lemma length_fill [simp]: "length (fill v a b xs) = length xs"
proof (induction v a b xs rule: fill.induct)
  case (1 v a b xs)
  then show ?case by (subst fill.simps) simp
qed

lemma nth_fill:
  "i < length xs \<Longrightarrow> fill v a b xs ! i = (if a \<le> i \<and> i < b then v else xs ! i)"
proof (induction v a b xs rule: fill.induct)
  case (1 v a b xs)
  show ?case
  proof (cases "a < b")
    case True
    with "1.IH" "1.prems" have "fill v (Suc a) b (xs[a := v]) ! i =
        (if Suc a \<le> i \<and> i < b then v else xs[a := v] ! i)" by simp
    moreover have "fill v a b xs = fill v (Suc a) b (xs[a := v])"
      using True by (subst fill.simps) simp
    ultimately show ?thesis using True "1.prems" by (auto simp: nth_list_update)
  next
    case False
    then have "fill v a b xs = xs" by (subst fill.simps) simp
    with False show ?thesis by auto
  qed
qed

lemma take_fill: "k \<le> a \<Longrightarrow> take k (fill v a b xs) = take k xs"
  by (rule nth_equalityI) (auto simp: nth_fill)

lemma drop_fill: "b \<le> k \<Longrightarrow> drop k (fill v a b xs) = drop k xs"
  by (rule nth_equalityI) (auto simp: nth_fill)

section \<open>Bytes and words\<close>

lemma byte_eqI:
  fixes x y :: byte
  assumes "bit x 0 = bit y 0" "bit x 1 = bit y 1" "bit x 2 = bit y 2" "bit x 3 = bit y 3"
    and "bit x 4 = bit y 4" "bit x 5 = bit y 5" "bit x 6 = bit y 6" "bit x 7 = bit y 7"
  shows "x = y"
proof (rule bit_word_eqI)
  fix n assume "n < LENGTH(8)"
  then have "n \<in> {0, 1, 2, 3, 4, 5, 6, 7}" by auto
  with assms show "bit x n = bit y n" by auto
qed

lemma bit_byte_high [simp]: "8 \<le> n \<Longrightarrow> \<not> bit (w :: byte) n"
  using bit_imp_le_length [of w n] by auto

text \<open>Masks of the source as \<open>take_bit\<close>, and the bits of its constants.\<close>

lemma and_numeral_mask:
  fixes w :: "'a::len word"
  shows "w AND 1 = take_bit 1 w" "w AND 3 = take_bit 2 w" "w AND 7 = take_bit 3 w" "w AND 15 = take_bit 4 w"
    "w AND 31 = take_bit 5 w" "w AND 63 = take_bit 6 w" "w AND 127 = take_bit 7 w"
    "w AND 255 = take_bit 8 w" "w AND 511 = take_bit 9 w" "w AND 0x1FFFFFFFF = take_bit 33 w"
  by (simp_all add: take_bit_eq_mask mask_eq_exp_minus_1)

lemma nat_less_8: "n < 8 \<longleftrightarrow> n \<in> {0,1,2,3,4,5,6,7::nat}"
  by auto

lemma bit_byte_const:
  "bit (0x21 :: byte) n \<longleftrightarrow> n = 0 \<or> n = 5"
  "bit (0x01 :: byte) n \<longleftrightarrow> n = 0"
  "bit (0x7e :: byte) n \<longleftrightarrow> 0 < n \<and> n < 7"
  by (cases "n < 8"; force simp: nat_less_8 dest: bit_imp_le_length)+

lemma bit_double_word [simp]:
  fixes x :: "'a::len word"
  shows "bit (x * 2) n \<longleftrightarrow> n \<noteq> 0 \<and> n < LENGTH('a) \<and> bit x (n - 1)"
  using bit_double_iff [of x n] by (auto simp: mult.commute)

lemma even_ucast_word [simp]:
  fixes w :: "'a::len word"
  shows "even (ucast w :: 'b::len word) \<longleftrightarrow> even w"
  by (metis bit_0 bit_unsigned_iff possible_bit_word len_gt_0)

lemma take_bit_word_small:
  fixes w :: "'a::len word"
  assumes "unat w < 2 ^ n"
  shows "take_bit n w = w"
  by (rule word_unat_eq_iff [THEN iffD2]) (simp add: assms unsigned_take_bit_eq take_bit_nat_eq_self)

end
