(* ===== verification/Gots_Time.thy ===== *)
theory Gots_Time
  imports Gots_Prelude
begin

text \<open>
  The clocks of the transport stream: \<^verbatim>\<open>gots/pts.go\<close> (the 33-bit presentation timestamp, its
  order with rollover, its five-byte coding) and \<^verbatim>\<open>gots/pcr.go\<close> (the program clock reference and
  its six-byte coding).  Both are \<^verbatim>\<open>uint64\<close> in the source and 64-bit words here, so every sum
  and shift wraps as in Go.
\<close>

section \<open>PTS: constants and order\<close>

type_synonym PTS = u64

definition PTS_DTS_INDICATOR_BOTH :: byte where "PTS_DTS_INDICATOR_BOTH = 3"
definition PTS_DTS_INDICATOR_ONLY_PTS :: byte where "PTS_DTS_INDICATOR_ONLY_PTS = 2"
definition PTS_DTS_INDICATOR_NONE :: byte where "PTS_DTS_INDICATOR_NONE = 0"

definition MaxPtsValue :: PTS where "MaxPtsValue = 0x1FFFFFFFF"
definition MaxPtsTicks :: PTS where "MaxPtsTicks = 0x200000000"
definition PtsNegativeInfinity :: PTS where "PtsNegativeInfinity = 18446744073709551614"
definition PtsPositiveInfinity :: PTS where "PtsPositiveInfinity = 18446744073709551615"
definition UpperPtsRolloverThreshold :: PTS where "UpperPtsRolloverThreshold = 8427934591"
definition LowerPtsRolloverThreshold :: PTS where "LowerPtsRolloverThreshold = 162000000"

lemmas pts_consts = MaxPtsValue_def MaxPtsTicks_def PtsNegativeInfinity_def
  PtsPositiveInfinity_def UpperPtsRolloverThreshold_def LowerPtsRolloverThreshold_def

definition RolledOver :: "PTS \<Rightarrow> PTS \<Rightarrow> bool" where
  "RolledOver p other =
     (if other = PtsNegativeInfinity \<or> other = PtsPositiveInfinity then False
      else if p < LowerPtsRolloverThreshold \<and> other > UpperPtsRolloverThreshold then True
      else False)"

definition After :: "PTS \<Rightarrow> PTS \<Rightarrow> bool" where
  "After p other =
     (if other = PtsPositiveInfinity then False
      else if other = PtsNegativeInfinity then True
      else if RolledOver p other then True
      else if RolledOver other p then False
      else p > other)"

definition GreaterOrEqual :: "PTS \<Rightarrow> PTS \<Rightarrow> bool" where
  "GreaterOrEqual p other = (if p = other then True else After p other)"

definition DurationFrom :: "PTS \<Rightarrow> PTS \<Rightarrow> u64" where
  "DurationFrom p from =
     (if RolledOver p from then (MaxPtsTicks - from) + p
      else if RolledOver from p then (MaxPtsTicks - p) + from
      else if p < from then from - p
      else p - from)"

definition PTS_Add :: "PTS \<Rightarrow> PTS \<Rightarrow> PTS" where
  "PTS_Add p x = (p + x) AND MaxPtsValue"

section \<open>PTS: the five-byte coding\<close>

definition ExtractTime :: "byte list \<Rightarrow> u64 res" where
  "ExtractTime bytes =
     (if length bytes < 5 then Panic
      else let a = ucast (drop_bit 1 (bytes ! 0) AND 0x07);
               b = ucast (bytes ! 1);
               c = ucast (drop_bit 1 (bytes ! 2) AND 0x7f);
               d = ucast (bytes ! 3);
               e = ucast (drop_bit 1 (bytes ! 4) AND 0x7f)
           in Ok (push_bit 30 a OR push_bit 22 b OR push_bit 15 c OR push_bit 7 d OR e))"

definition InsertPTS :: "byte list \<Rightarrow> u64 \<Rightarrow> byte list res" where
  "InsertPTS b pts =
     (if length b < 5 then Panic
      else let b0 = ucast (drop_bit 29 pts AND 0x0f);
               b1 = ucast (drop_bit 22 pts AND 0xff);
               b2 = ucast (drop_bit 14 pts AND 0xff);
               b3 = ucast (drop_bit 7 pts AND 0xff);
               b4 = push_bit 1 (ucast (pts AND 0xff))
           in Ok (b[0 := b0 OR 0x21, 1 := b1, 2 := b2 OR 0x01, 3 := b3, 4 := b4 OR 0x01]))"

section \<open>PCR: the six-byte coding\<close>

definition ExtractPCR :: "byte list \<Rightarrow> u64 res" where
  "ExtractPCR bytes =
     (if length bytes < 6 then Panic
      else let a = ucast (bytes ! 0); b = ucast (bytes ! 1); c = ucast (bytes ! 2);
               d = ucast (bytes ! 3); e = ucast (bytes ! 4); f = ucast (bytes ! 5);
               pcrBase = push_bit 25 a OR push_bit 17 b OR push_bit 9 c OR push_bit 1 d
                         OR drop_bit 7 e;
               pcrExt = push_bit 8 (e AND 0x1) OR f
           in Ok (pcrBase * 300 + pcrExt))"

definition InsertPCR :: "byte list \<Rightarrow> u64 \<Rightarrow> byte list res" where
  "InsertPCR b pcr =
     (if length b < 6 then Panic
      else let pcrBase = pcr div 300;
               pcrExt = (pcr - pcrBase * 300) AND 0x1ff
           in Ok (b[0 := ucast (drop_bit 25 pcrBase),
                    1 := ucast (drop_bit 17 pcrBase),
                    2 := ucast (drop_bit 9 pcrBase),
                    3 := ucast (drop_bit 1 pcrBase),
                    4 := ucast (push_bit 7 pcrBase OR drop_bit 8 pcrExt OR 0x7e),
                    5 := ucast (pcrExt AND 0xff)]))"

section \<open>Lemmas\<close>

lemma cases_pts:
  fixes n :: nat
  obtains (a) k where "n = k" "k < 7" | (b) k where "n = 7 + k" "k < 8" | (c) k where "n = 15 + k" "k < 7"
  | (d) k where "n = 22 + k" "k < 8" | (e) k where "n = 30 + k" "k < 3" | (f) "33 \<le> n"
proof -
  consider "n < 7" | "7 \<le> n \<and> n < 15" | "15 \<le> n \<and> n < 22" | "22 \<le> n \<and> n < 30" | "30 \<le> n \<and> n < 33" | "33 \<le> n"
    by linarith
  then show ?thesis
    by cases (use that in \<open>force simp: le_iff_add\<close>)+
qed

lemma pts_code_word:
  fixes pts :: u64
  shows "push_bit 30 (ucast (drop_bit 1 (ucast (drop_bit 29 pts AND 0x0f) OR 0x21 :: byte) AND 0x07))
    OR push_bit 22 (ucast (ucast (drop_bit 22 pts AND 0xff) :: byte))
    OR push_bit 15 (ucast (drop_bit 1 (ucast (drop_bit 14 pts AND 0xff) OR 0x01 :: byte) AND 0x7f))
    OR push_bit 7 (ucast (ucast (drop_bit 7 pts AND 0xff) :: byte))
    OR ucast (drop_bit 1 (push_bit 1 (ucast (pts AND 0xff)) OR 0x01 :: byte) AND 0x7f)
    = pts AND MaxPtsValue" (is "?l = ?r")
proof (rule bit_word_eqI)
  fix n assume "n < LENGTH(64)"
  then show "bit ?l n = bit ?r n"
    unfolding MaxPtsValue_def and_numeral_mask
    by (cases rule: cases_pts [of n]) (auto simp: bit_simps bit_byte_const)
qed

lemma ExtractTime_InsertPTS:
  assumes "5 \<le> length b"
  obtains b' where "InsertPTS b pts = Ok b'" "length b' = length b"
    "ExtractTime b' = Ok (pts AND MaxPtsValue)"
proof -
  let ?b' = "b[0 := ucast (drop_bit 29 pts AND 0x0f) OR 0x21,
      1 := ucast (drop_bit 22 pts AND 0xff), 2 := ucast (drop_bit 14 pts AND 0xff) OR 0x01,
      3 := ucast (drop_bit 7 pts AND 0xff), 4 := push_bit 1 (ucast (pts AND 0xff)) OR 0x01]"
  from assms have "b \<noteq> []" by auto
  then have nths: "?b' ! 0 = ucast (drop_bit 29 pts AND 0x0f) OR 0x21"
      "?b' ! 1 = ucast (drop_bit 22 pts AND 0xff)"
      "?b' ! 2 = ucast (drop_bit 14 pts AND 0xff) OR 0x01"
      "?b' ! 3 = ucast (drop_bit 7 pts AND 0xff)"
      "?b' ! 4 = push_bit 1 (ucast (pts AND 0xff)) OR 0x01"
    using assms by simp_all
  have "ExtractTime ?b' = Ok (pts AND MaxPtsValue)"
    unfolding ExtractTime_def Let_def nths pts_code_word using assms by simp
  moreover have "InsertPTS b pts = Ok ?b'"
    using assms by (simp add: InsertPTS_def Let_def)
  ultimately show ?thesis using that by simp
qed

lemma cases_pcr:
  fixes n :: nat
  obtains (a) "n = 0" | (b) k where "n = 1 + k" "k < 8" | (c) k where "n = 9 + k" "k < 8"
  | (d) k where "n = 17 + k" "k < 8" | (e) k where "n = 25 + k" "k < 8" | (f) "33 \<le> n"
proof -
  consider "n = 0" | "1 \<le> n \<and> n < 9" | "9 \<le> n \<and> n < 17" | "17 \<le> n \<and> n < 25"
    | "25 \<le> n \<and> n < 33" | "33 \<le> n"
    by linarith
  then show ?thesis
    by cases (use that in \<open>force simp: le_iff_add\<close>)+
qed

lemma pcr_base_word:
  fixes base ext :: u64
  shows "push_bit 25 (ucast (ucast (drop_bit 25 base) :: byte))
    OR push_bit 17 (ucast (ucast (drop_bit 17 base) :: byte))
    OR push_bit 9 (ucast (ucast (drop_bit 9 base) :: byte))
    OR push_bit 1 (ucast (ucast (drop_bit 1 base) :: byte))
    OR drop_bit 7 (ucast (ucast (push_bit 7 base OR drop_bit 8 (ext AND 0x1ff) OR 0x7e) :: byte))
    = take_bit 33 base" (is "?l = ?r")
proof (rule bit_word_eqI)
  fix n assume "n < LENGTH(64)"
  then show "bit ?l n = bit ?r n"
    unfolding and_numeral_mask
    by (cases rule: cases_pcr [of n]) (auto simp: bit_simps bit_byte_const)
qed


lemma pcr_ext_word:
  fixes base ext :: u64
  shows "push_bit 8 (ucast (ucast (push_bit 7 base OR drop_bit 8 (ext AND 0x1ff) OR 0x7e) :: byte) AND 0x1)
    OR ucast (ucast ((ext AND 0x1ff) AND 0xff) :: byte) = ext AND 0x1ff" (is "?l = ?r")
proof (rule bit_word_eqI)
  fix n assume "n < LENGTH(64)"
  consider k where "n = k" "k < 8" | "n = 8" | k where "n = 9 + k"
    by (metis less_iff_Suc_add linorder_cases add_Suc numeral_eq_Suc eval_nat_numeral(3) Suc_numeral)
  then show "bit ?l n = bit ?r n"
    unfolding and_numeral_mask
    by cases (auto simp: bit_simps bit_byte_const simp flip: bit_0)
qed

lemma ExtractPCR_InsertPCR:
  assumes "6 \<le> length b"
  obtains b' where "InsertPCR b pcr = Ok b'" "length b' = length b"
    "ExtractPCR b' = Ok (take_bit 33 (pcr div 300) * 300 + pcr mod 300)"
proof -
  let ?base = "pcr div 300" and ?ext = "(pcr - pcr div 300 * 300)"
  let ?b' = "b[0 := ucast (drop_bit 25 ?base), 1 := ucast (drop_bit 17 ?base),
      2 := ucast (drop_bit 9 ?base), 3 := ucast (drop_bit 1 ?base),
      4 := ucast (push_bit 7 ?base OR drop_bit 8 (?ext AND 0x1ff) OR 0x7e),
      5 := ucast ((?ext AND 0x1ff) AND 0xff)]"
  from assms have "b \<noteq> []" by auto
  then have nths: "?b' ! 0 = ucast (drop_bit 25 ?base)" "?b' ! 1 = ucast (drop_bit 17 ?base)"
      "?b' ! 2 = ucast (drop_bit 9 ?base)" "?b' ! 3 = ucast (drop_bit 1 ?base)"
      "?b' ! 4 = ucast (push_bit 7 ?base OR drop_bit 8 (?ext AND 0x1ff) OR 0x7e)"
      "?b' ! 5 = ucast ((?ext AND 0x1ff) AND 0xff)"
    using assms by simp_all
  have e: "?ext = pcr mod 300" by (simp add: minus_div_mult_eq_mod)
  have "?ext AND 0x1ff = pcr mod 300"
  proof -
    have "unat (pcr mod 300) < 2 ^ 9" by (simp add: unat_mod)
    then have "take_bit 9 (pcr mod 300) = pcr mod 300" by (rule take_bit_word_small)
    then show ?thesis unfolding e and_numeral_mask .
  qed
  then have "ExtractPCR ?b' = Ok (take_bit 33 ?base * 300 + pcr mod 300)"
    unfolding ExtractPCR_def Let_def nths pcr_base_word pcr_ext_word using assms by simp
  moreover have "InsertPCR b pcr = Ok ?b'"
    using assms by (simp add: InsertPCR_def Let_def)
  ultimately show ?thesis using that by simp
qed


section \<open>The codings as an interface\<close>

text \<open>
  What the packet and PES layers rely on when they store a clock value in a field of fixed width:
  writing into a slice that is wide enough succeeds, keeps its length, and reading the field back
  gives the value's residue in the code's range.
\<close>

locale clock_codec =
  fixes insert_clock :: "byte list \<Rightarrow> u64 \<Rightarrow> byte list res"
    and extract_clock :: "byte list \<Rightarrow> u64 res"
    and width :: nat
    and norm :: "u64 \<Rightarrow> u64"
    and in_range :: "u64 \<Rightarrow> bool"
  assumes insert_extract: "width \<le> length b \<Longrightarrow>
      \<exists>b'. insert_clock b v = Ok b' \<and> length b' = length b \<and> extract_clock b' = Ok (norm v)"
    and insert_short: "length b < width \<Longrightarrow> insert_clock b v = Panic"
    and norm_in_range: "in_range v \<Longrightarrow> norm v = v"
begin

lemma roundtrip:
  assumes "width \<le> length b" "in_range v"
  obtains b' where "insert_clock b v = Ok b'" "length b' = length b" "extract_clock b' = Ok v"
  using insert_extract [OF assms(1), of v] norm_in_range [OF assms(2)] that by auto

lemma insert_total: "insert_clock b v \<noteq> Panic \<longleftrightarrow> width \<le> length b"
proof
  assume "insert_clock b v \<noteq> Panic"
  then show "width \<le> length b" using insert_short [of b v] by (cases "width \<le> length b") auto
next
  assume "width \<le> length b"
  from insert_extract [OF this, of v] show "insert_clock b v \<noteq> Panic" by auto
qed

lemma last_write_wins:
  assumes "width \<le> length b" "insert_clock b v = Ok b1"
  shows "\<exists>b2. insert_clock b1 w = Ok b2 \<and> extract_clock b2 = Ok (norm w)"
  using insert_extract [OF assms(1), of v] insert_extract [of b1 w] assms by fastforce

end

lemma PTS_and_small: "v < MaxPtsTicks \<Longrightarrow> v AND MaxPtsValue = v"
  unfolding MaxPtsValue_def and_numeral_mask
  by (rule take_bit_word_small) (simp add: MaxPtsTicks_def word_less_nat_alt)

interpretation pts_codec: clock_codec InsertPTS ExtractTime 5
  "\<lambda>v. v AND MaxPtsValue" "\<lambda>v. v < MaxPtsTicks"
proof unfold_locales
  fix b :: "byte list" and v :: u64
  assume "5 \<le> length b"
  then show "\<exists>b'. InsertPTS b v = Ok b' \<and> length b' = length b \<and>
      ExtractTime b' = Ok (v AND MaxPtsValue)"
    by (rule ExtractTime_InsertPTS [of b v]) blast
qed (auto simp: InsertPTS_def PTS_and_small)

interpretation pcr_codec: clock_codec InsertPCR ExtractPCR 6
  "\<lambda>v. take_bit 33 (v div 300) * 300 + v mod 300" "\<lambda>v. v < MaxPtsTicks * 300"
proof unfold_locales
  fix b :: "byte list" and v :: u64
  assume "6 \<le> length b"
  then show "\<exists>b'. InsertPCR b v = Ok b' \<and> length b' = length b \<and>
      ExtractPCR b' = Ok (take_bit 33 (v div 300) * 300 + v mod 300)"
    by (rule ExtractPCR_InsertPCR [of b v]) blast
next
  fix v :: u64
  assume "v < MaxPtsTicks * 300"
  then have "unat v < 2 ^ 33 * 300" by (simp add: MaxPtsTicks_def word_less_nat_alt)
  then have "unat (v div 300) < 2 ^ 33" by (simp add: unat_div less_mult_imp_div_less)
  then have "take_bit 33 (v div 300) = v div 300" by (rule take_bit_word_small)
  then show "take_bit 33 (v div 300) * 300 + v mod 300 = v"
    by (metis div_mult_mod_eq)
qed (auto simp: InsertPCR_def)

section \<open>Properties\<close>

text \<open>A timestamp below 2^33 written by \<open>InsertPTS\<close> into at least five bytes is read back
  unchanged by \<open>ExtractTime\<close>, and the length of the slice is kept.\<close>

theorem pts_roundtrip:
  assumes "5 \<le> length b" "pts < MaxPtsTicks"
  shows "\<exists>b'. InsertPTS b pts = Ok b' \<and> length b' = length b \<and> ExtractTime b' = Ok pts"
  using pts_codec.roundtrip [OF assms] by blast

theorem pts_roundtrip_witness:
  "\<exists>b'. InsertPTS (replicate 5 0) 0x1ABCDEF12 = Ok b' \<and> length b' = 5 \<and>
    ExtractTime b' = Ok 0x1ABCDEF12"
  using pts_roundtrip [of "replicate 5 0" "0x1ABCDEF12"] by (simp add: MaxPtsTicks_def)

text \<open>A clock reference below 300 * 2^33 written by \<open>InsertPCR\<close> into at least six bytes is
  read back unchanged by \<open>ExtractPCR\<close>.\<close>

theorem pcr_roundtrip:
  assumes "6 \<le> length b" "pcr < MaxPtsTicks * 300"
  shows "\<exists>b'. InsertPCR b pcr = Ok b' \<and> length b' = length b \<and> ExtractPCR b' = Ok pcr"
  using pcr_codec.roundtrip [OF assms] by blast

theorem pcr_roundtrip_witness:
  "\<exists>b'. InsertPCR (replicate 6 0) 1234567890123 = Ok b' \<and> length b' = 6 \<and>
    ExtractPCR b' = Ok 1234567890123"
  using pcr_roundtrip [of "replicate 6 0" 1234567890123] by (simp add: MaxPtsTicks_def)

lemma unat_PTS_Add:
  assumes "unat p < 2 ^ 33" "unat d < 2 ^ 33"
  shows "unat (PTS_Add p d) = (unat p + unat d) mod 2 ^ 33"
proof -
  have "unat (p + d) = unat p + unat d"
    using assms by (simp add: unat_plus_if')
  then show ?thesis
    unfolding PTS_Add_def MaxPtsValue_def and_numeral_mask
    by (simp only: unsigned_take_bit_eq) (simp add: take_bit_eq_mod)
qed

text \<open>Adding at most 30 minutes (162000000 ticks) to a valid timestamp gives one that is
  \<open>After\<close> it and that it is not \<open>After\<close>, across the rollover too, and \<open>DurationFrom\<close> of
  the two, in either order, is the time added.\<close>

theorem pts_add_after:
  assumes "p < MaxPtsTicks" "0 < d" "d \<le> LowerPtsRolloverThreshold"
  shows "After (PTS_Add p d) p \<and> \<not> After p (PTS_Add p d) \<and>
    DurationFrom (PTS_Add p d) p = d \<and> DurationFrom p (PTS_Add p d) = d"
proof -
  let ?q = "PTS_Add p d"
  have p: "unat p < 2 ^ 33" and d: "0 < unat d" "unat d \<le> 162000000"
    using assms by (simp_all add: MaxPtsTicks_def LowerPtsRolloverThreshold_def
        word_less_nat_alt word_le_nat_alt)
  have q: "unat ?q = (if unat p + unat d < 2 ^ 33 then unat p + unat d else unat p + unat d - 2 ^ 33)"
    using unat_PTS_Add [of p d] p d by (auto simp: mod_if)
  have ne: "?q \<noteq> PtsPositiveInfinity" "?q \<noteq> PtsNegativeInfinity"
      "p \<noteq> PtsPositiveInfinity" "p \<noteq> PtsNegativeInfinity"
    using p d q by (auto simp: pts_consts word_unat_eq_iff split: if_splits)
  have ro: "RolledOver ?q p \<longleftrightarrow> 2 ^ 33 \<le> unat p + unat d" "\<not> RolledOver p ?q"
    using p d q ne by (auto simp: RolledOver_def pts_consts word_less_nat_alt split: if_splits)
  have dur: "DurationFrom ?q p = d \<and> DurationFrom p ?q = d"
  proof (cases "unat p + unat d < 2 ^ 33")
    case True
    then have "?q - p = d" "\<not> ?q < p" "p < ?q"
      using q d by (simp_all add: word_unat_eq_iff unat_sub_if' word_less_nat_alt)
    with True ro show ?thesis by (simp add: DurationFrom_def)
  next
    case False
    have "unat (MaxPtsTicks - p) = 2 ^ 33 - unat p"
      using p by (simp add: MaxPtsTicks_def unat_sub_if')
    with False have "(MaxPtsTicks - p) + ?q = d"
      using q p d by (simp add: word_unat_eq_iff unat_plus_if')
    with False ro show ?thesis by (simp add: DurationFrom_def)
  qed
  show ?thesis
    using ro ne q p d dur by (auto simp: After_def word_less_nat_alt)
qed

theorem pts_add_after_witness:
  "After (PTS_Add 8589934000 90000) 8589934000 \<and> \<not> After 8589934000 (PTS_Add 8589934000 90000) \<and>
    DurationFrom (PTS_Add 8589934000 90000) 8589934000 = 90000 \<and>
    DurationFrom 8589934000 (PTS_Add 8589934000 90000) = 90000"
  by (rule pts_add_after) (simp_all add: MaxPtsTicks_def LowerPtsRolloverThreshold_def)

text \<open>On valid timestamps \<open>After\<close> is a strict total comparison: of two different ones
  exactly one is after the other, and none is after itself.\<close>

theorem after_trichotomy:
  assumes "p < MaxPtsTicks" "q < MaxPtsTicks"
  shows "(After p q \<and> \<not> After q p \<and> p \<noteq> q) \<or> (After q p \<and> \<not> After p q \<and> p \<noteq> q) \<or>
    (p = q \<and> \<not> After p q \<and> GreaterOrEqual p q)"
proof -
  have "p \<noteq> PtsPositiveInfinity" "p \<noteq> PtsNegativeInfinity" "q \<noteq> PtsPositiveInfinity"
      "q \<noteq> PtsNegativeInfinity"
    using assms by (auto simp: pts_consts)
  then show ?thesis
    using assms by (auto simp: After_def RolledOver_def GreaterOrEqual_def pts_consts
        word_less_nat_alt word_unat_eq_iff)
qed

theorem after_trichotomy_witness:
  "(After 5 8589934000 \<and> \<not> After 8589934000 5 \<and> (5 :: PTS) \<noteq> 8589934000) \<or>
   (After 8589934000 5 \<and> \<not> After 5 8589934000 \<and> (5 :: PTS) \<noteq> 8589934000) \<or>
   ((5 :: PTS) = 8589934000 \<and> \<not> After 5 8589934000 \<and> GreaterOrEqual 5 8589934000)"
  by (rule after_trichotomy) (simp_all add: MaxPtsTicks_def)

text \<open>The comparison is circular, not transitive: three valid timestamps can each be after the
  next.\<close>

theorem after_cyclic:
  "\<exists>p q r. p < MaxPtsTicks \<and> q < MaxPtsTicks \<and> r < MaxPtsTicks \<and>
     After p q \<and> After q r \<and> After r p"
  by (rule exI [of _ 100], rule exI [of _ 8500000000], rule exI [of _ 1000000000])
    (simp add: After_def RolledOver_def pts_consts)

end
