(* ===== verification/Gots_Binary.thy ===== *)
theory Gots_Binary
  imports Gots_Prelude
begin

text \<open>
  What the library uses of package \<^verbatim>\<open>encoding/binary\<close>: 32-bit numbers in big-endian order.
\<close>

definition PutUint32 :: "u32 \<Rightarrow> byte list" where
  "PutUint32 v = [ucast (drop_bit 24 v), ucast (drop_bit 16 v), ucast (drop_bit 8 v), ucast v]"

definition be_uint32 :: "byte list \<Rightarrow> u32 res" where
  "be_uint32 d = res_bind (rd d 0) (\<lambda>b0. res_bind (rd d 1) (\<lambda>b1. res_bind (rd d 2) (\<lambda>b2.
     res_bind (rd d 3) (\<lambda>b3.
       Ok (push_bit 24 (ucast b0) OR push_bit 16 (ucast b1) OR push_bit 8 (ucast b2) OR ucast b3)))))"

lemma length_PutUint32 [simp]: "length (PutUint32 v) = 4"
  by (simp add: PutUint32_def)

lemma be_uint32_Put [simp]: "be_uint32 (PutUint32 v) = Ok v"
proof -
  have "push_bit 24 (ucast (ucast (drop_bit 24 v) :: byte)) OR push_bit 16 (ucast (ucast (drop_bit 16 v) :: byte)) OR
      push_bit 8 (ucast (ucast (drop_bit 8 v) :: byte)) OR ucast (ucast v :: byte) = v"
  proof (rule bit_word_eqI)
    fix n assume "n < LENGTH(32)"
    then consider "n < 8" | "8 \<le> n" "n < 16" | "16 \<le> n" "n < 24" | "24 \<le> n" "n < 32" by fastforce
    then show "bit (push_bit 24 (ucast (ucast (drop_bit 24 v) :: byte)) OR push_bit 16 (ucast (ucast (drop_bit 16 v) :: byte)) OR
      push_bit 8 (ucast (ucast (drop_bit 8 v) :: byte)) OR ucast (ucast v :: byte) :: u32) n = bit v n"
      by cases (auto simp: bit_simps)
  qed
  then show ?thesis by (simp add: PutUint32_def be_uint32_def)
qed

lemma be_uint32_total: "length d = 4 \<Longrightarrow> \<exists>v. be_uint32 d = Ok v"
  by (auto simp: be_uint32_def)

end
