(* ===== verification/Gots_CRC.thy ===== *)
theory Gots_CRC
  imports Gots_Binary
begin

text \<open>
  \<^verbatim>\<open>gots/tsutils.go\<close>: the checksum of PSI and SCTE-35 sections, computed one bit at a time in the
  augmented form (the message bit enters at the bottom of the register, and 32 zero bits are
  pushed through at the end).  It is compared with the textbook CRC-32/MPEG-2, where the message
  bit is compared with the top of the register and the initial value is all ones.
\<close>

section \<open>The code\<close>

definition crc_msb :: u32 where "crc_msb = 0x80000000"
definition crc_mask :: u32 where "crc_mask = 0xffffffff"
definition crc_poly :: u32 where "crc_poly = 0x04c11db7"
definition crc_start :: u32 where "crc_start = 0x46af6449"

definition crc_inner :: "u32 \<Rightarrow> nat \<Rightarrow> u32 \<Rightarrow> u32" where
  "crc_inner item j crc =
     (let top = crc AND crc_msb;
          crc' = (push_bit 1 crc AND crc_mask) OR (drop_bit (7 - j) item AND 1)
      in if top \<noteq> 0 then crc' XOR crc_poly else crc')"

definition crc_outer :: "byte \<Rightarrow> u32 \<Rightarrow> u32" where
  "crc_outer b crc = fold (crc_inner (ucast b)) [0..<8] crc"

definition crc_flush :: "u32 \<Rightarrow> u32" where
  "crc_flush crc =
     (let top = crc AND crc_msb; crc' = push_bit 1 crc AND crc_mask
      in if top \<noteq> 0 then crc' XOR crc_poly else crc')"

definition ComputeCRC :: "byte list \<Rightarrow> byte list" where
  "ComputeCRC input = PutUint32 ((crc_flush ^^ 32) (fold crc_outer input crc_start))"

section \<open>The textbook CRC-32/MPEG-2\<close>

definition byte_bits :: "byte \<Rightarrow> bool list" where
  "byte_bits b = map (bit b) [7, 6, 5, 4, 3, 2, 1, 0]"

definition mpeg_step :: "bool \<Rightarrow> u32 \<Rightarrow> u32" where
  "mpeg_step b c = (if bit c 31 \<noteq> b then push_bit 1 c XOR 0x04c11db7 else push_bit 1 c)"

definition crc32_mpeg2 :: "byte list \<Rightarrow> u32" where
  "crc32_mpeg2 m = fold mpeg_step (concat (map byte_bits m)) 0xffffffff"

section \<open>The register as a linear map\<close>

definition dbl :: "u32 \<Rightarrow> u32" where "dbl = push_bit 1"

definition shl :: "u32 \<Rightarrow> u32" where
  "shl c = (if bit c 31 then dbl c XOR 0x04c11db7 else dbl c)"

lemma bit_dbl: "bit (dbl c) n \<longleftrightarrow> n \<noteq> 0 \<and> n < 32 \<and> bit c (n - 1)"
  by (auto simp: dbl_def bit_push_bit_iff bit_imp_le_length)

lemma dbl_xor: "dbl (x XOR y) = dbl x XOR dbl y"
  by (simp only: dbl_def push_bit_xor)

lemma bit_msb_const: "bit (0x80000000 :: u32) n \<longleftrightarrow> n = 31"
proof -
  have "(0x80000000 :: u32) = push_bit 31 1" by simp
  then show ?thesis by (simp only: bit_push_bit_iff) (auto simp: bit_1_iff)
qed

lemma bit_msb_int: "bit (0x80000000 :: int) n \<longleftrightarrow> n = 31"
proof -
  have "(0x80000000 :: int) = push_bit 31 1" by simp
  then show ?thesis by (simp only: bit_push_bit_iff) (auto simp: bit_1_iff)
qed

lemma top_bit: "c AND crc_msb \<noteq> 0 \<longleftrightarrow> bit c 31"
proof -
  have "c AND crc_msb = (if bit c 31 then crc_msb else 0)"
    unfolding crc_msb_def by (auto intro!: bit_word_eqI simp: bit_and_iff bit_msb_int)
  then show ?thesis by (simp add: crc_msb_def)
qed

lemma crc_mask_id [simp]: "w AND crc_mask = w"
proof -
  have h: "crc_mask = - 1" by (simp add: crc_mask_def)
  show ?thesis by (simp add: h)
qed

lemma shl_0 [simp]: "shl 0 = 0"
  by (simp add: shl_def dbl_def)

lemma shl_xor: "shl (x XOR y) = shl x XOR shl y"
  by (auto simp: shl_def bit_xor_iff dbl_xor ac_simps)

lemma shl_pow_xor: "(shl ^^ k) (x XOR y) = (shl ^^ k) x XOR (shl ^^ k) y"
  by (induction k) (simp_all add: shl_xor)

lemma shl_pow_0 [simp]: "(shl ^^ k) 0 = 0"
  by (induction k) simp_all

lemma shl_eq_0:
  assumes z: "shl z = 0"
  shows "z = 0"
proof -
  have nb: "\<not> bit z 31"
  proof
    assume b: "bit z 31"
    have "dbl z XOR 0x04c11db7 = 0" using z unfolding shl_def if_P [OF b] .
    then have "bit (dbl z XOR 0x04c11db7) 0 = bit (0 :: u32) 0" by (rule arg_cong)
    then show False unfolding bit_xor_iff bit_dbl by simp
  qed
  have p: "dbl z = 0" using z unfolding shl_def if_not_P [OF nb] .
  have s: "\<not> bit z n" if "n < 31" for n
    using arg_cong [OF p, of "\<lambda>w. bit w (Suc n)"] that unfolding bit_dbl by simp
  show "z = 0"
  proof (rule bit_word_eqI)
    fix n assume "n < LENGTH(32)"
    then consider "n < 31" | "n = 31" by fastforce
    then show "bit z n = bit 0 n" using s nb by cases auto
  qed
qed

lemma xor_eq_0: "x XOR y = (0 :: u32) \<Longrightarrow> x = y"
  by (metis xor.assoc xor.right_neutral xor_self_eq xor.left_neutral)

lemma inj_shl: "shl x = shl y \<Longrightarrow> x = y"
  by (rule xor_eq_0, rule shl_eq_0) (simp add: shl_xor)

lemma inj_shl_pow: "(shl ^^ k) x = (shl ^^ k) y \<Longrightarrow> x = y"
  by (induction k) (auto dest: inj_shl)

lemma crc_flush_eq: "crc_flush = shl"
  by (rule ext) (simp add: crc_flush_def shl_def Let_def top_bit crc_poly_def dbl_def)

lemma crc_inner_eq: "crc_inner w j c = shl c XOR (if bit w (7 - j) then 1 else 0)"
proof -
  have one: "drop_bit (7 - j) w AND 1 = (if bit w (7 - j) then 1 else 0)"
    by (simp add: and_one_eq bit_iff_odd_drop_bit odd_iff_mod_2_eq_one)
  have o: "dbl c OR 1 = dbl c XOR 1"
    by (rule bit_word_eqI) (auto simp: bit_simps bit_dbl)
  show ?thesis
    unfolding crc_inner_def Let_def top_bit crc_mask_id one dbl_def [symmetric] crc_poly_def
    by (cases "bit w (7 - j)"; cases "bit c 31")
      (simp_all only: shl_def o if_True if_False simp_thms xor.assoc or.right_neutral
        xor.right_neutral xor.commute [of 1 "0x04c11db7"])
qed

lemma mpeg_step_eq: "mpeg_step b c = shl (c XOR (if b then 0x80000000 else 0))"
proof -
  have "dbl 0x80000000 = 0" by (simp add: dbl_def)
  moreover have "bit (0x80000000 :: u32) 31" by (simp only: bit_msb_const)
  ultimately have "shl 0x80000000 = 0x04c11db7" by (simp add: shl_def)
  then show ?thesis
    by (auto simp: mpeg_step_def shl_xor) (auto simp: shl_def dbl_def ac_simps)
qed

section \<open>The augmented form computes the textbook CRC\<close>

lemma shl_pow_one: "k < 32 \<Longrightarrow> (shl ^^ k) 1 = push_bit k 1"
proof (induction k)
  case (Suc k)
  have "\<not> bit (push_bit k 1 :: u32) 31" using Suc.prems by (auto simp: bit_simps)
  with Suc show ?case by (simp add: shl_def dbl_def push_bit_push_bit)
qed simp

lemma shl_32_one: "(shl ^^ 32) 1 = 0x04c11db7"
proof -
  have "(shl ^^ 32) 1 = shl ((shl ^^ 31) 1)" by (simp add: numeral_eq_Suc)
  also have "(shl ^^ 31) 1 = 0x80000000" by (subst shl_pow_one) simp_all
  also have "shl 0x80000000 = 0x04c11db7" by (simp only: shl_def bit_msb_const) (simp add: dbl_def)
  finally show ?thesis .
qed

lemma shl_pow_bit: "(shl ^^ k) (if b then 1 else 0) = (if b then (shl ^^ k) 1 else 0)"
  by simp

lemma flush_step:
  "(shl ^^ 32) (crc_inner w j c) = mpeg_step (bit w (7 - j)) ((shl ^^ 32) c)"
proof -
  have "(shl ^^ 32) (shl c) = shl ((shl ^^ 32) c)" by (simp only: funpow_swap1)
  moreover have "shl 0x80000000 = 0x04c11db7" by (simp only: shl_def bit_msb_const) (simp add: dbl_def)
  ultimately show ?thesis
    unfolding crc_inner_eq mpeg_step_eq shl_pow_xor shl_xor shl_pow_bit shl_32_one by simp
qed

lemma flush_inner:
  "(shl ^^ 32) (fold (crc_inner w) js c) =
     fold mpeg_step (map (\<lambda>j. bit w (7 - j)) js) ((shl ^^ 32) c)"
  by (induction js arbitrary: c) (simp_all only: fold.simps list.map comp_apply id_apply flush_step)

lemma byte_bits_ucast: "map (\<lambda>j. bit (ucast b :: u32) (7 - j)) [0..<8] = byte_bits b"
  by (simp add: byte_bits_def upt_conv_Cons bit_simps)

lemma flush_outer:
  "(shl ^^ 32) (fold crc_outer m c) = fold mpeg_step (concat (map byte_bits m)) ((shl ^^ 32) c)"
proof (induction m arbitrary: c)
  case (Cons b m)
  have "(shl ^^ 32) (crc_outer b c) = fold mpeg_step (byte_bits b) ((shl ^^ 32) c)"
    unfolding crc_outer_def flush_inner byte_bits_ucast ..
  then show ?case by (simp only: fold.simps comp_apply Cons.IH list.map concat.simps fold_append)
qed simp

text \<open>The code's initial register is the textbook one, moved back by 32 steps: evaluated on the
  naturals.\<close>

definition shln :: "nat \<Rightarrow> nat" where
  "shln n = (if n < 0x80000000 then 2 * n else (2 * n - 0x100000000) XOR 0x04c11db7)"

lemma shl_of_nat:
  assumes "n < 2 ^ 32"
  shows "shl (of_nat n) = of_nat (shln n)" "shln n < 2 ^ 32"
proof -
  have b: "bit (of_nat n :: u32) 31 \<longleftrightarrow> 0x80000000 \<le> n"
  proof -
    have "bit (of_nat n :: u32) 31 = bit n 31" by (simp add: bit_of_nat_iff)
    also have "\<dots> = odd (n div 2 ^ 31)" by (simp only: bit_iff_odd)
    also have "n div 2 ^ 31 = (if 0x80000000 \<le> n then 1 else 0)"
      using assms by (auto simp: div_nat_eqI)
    finally show ?thesis by simp
  qed
  have d: "dbl (of_nat n) = of_nat (2 * n)"
    by (simp add: dbl_def push_bit_eq_mult)
  have m: "of_nat (2 * n) = (of_nat (2 * n - 0x100000000) :: u32)" if "0x80000000 \<le> n"
  proof -
    have "2 * n = (2 * n - 0x100000000) + 2 ^ 32" using that by simp
    then have "(of_nat (2 * n) :: u32) = of_nat (2 * n - 0x100000000) + of_nat (2 ^ 32)"
      by (metis of_nat_add)
    then show ?thesis by simp
  qed
  show "shl (of_nat n) = of_nat (shln n)"
  proof (cases "n < 0x80000000")
    case True
    then show ?thesis by (simp add: shl_def b d shln_def)
  next
    case False
    then have le: "0x80000000 \<le> n" by simp
    show ?thesis
      using False le by (simp only: shl_def b d m [OF le] shln_def of_nat_xor_eq if_True if_False
          simp_thms of_nat_numeral)
  qed
  show "shln n < 2 ^ 32"
  proof (cases "n < 0x80000000")
    case True
    then show ?thesis by (simp add: shln_def)
  next
    case False
    have "take_bit 32 ((2 * n - 0x100000000) XOR 0x04c11db7) = ((2 * n - 0x100000000) XOR 0x04c11db7 :: nat)"
      using assms by (simp add: take_bit_xor take_bit_nat_eq_self)
    then have "((2 * n - 0x100000000) XOR 0x04c11db7 :: nat) < 2 ^ 32"
      by (metis take_bit_nat_less_exp)
    with False show ?thesis by (simp add: shln_def)
  qed
qed

lemma shln_pow: "n < 2 ^ 32 \<Longrightarrow> (shl ^^ k) (of_nat n) = of_nat ((shln ^^ k) n)"
proof (induction k arbitrary: n)
  case (Suc k)
  then show ?case using shl_of_nat [of n] by (simp only: funpow_Suc_right comp_apply)
qed simp

lemma shln_pow_start: "(shln ^^ 32) 0x46af6449 = 0xffffffff"
proof -
  have "(f ^^ 32) x = f(f(f(f(f(f(f(f(f(f(f(f(f(f(f(f(f(f(f(f(f(f(f(f(f(f(f(f(f(f(f(f x)))))))))))))))))))))))))))))))" for f :: "nat \<Rightarrow> nat" and x
    by (simp add: numeral_eq_Suc)
  then show ?thesis by (simp add: shln_def)
qed

lemma crc_start_flush: "(shl ^^ 32) crc_start = 0xffffffff"
proof -
  have "(shl ^^ 32) (of_nat 0x46af6449) = of_nat ((shln ^^ 32) 0x46af6449)"
    by (rule shln_pow) simp
  then show ?thesis unfolding crc_start_def shln_pow_start of_nat_numeral .
qed

lemma ComputeCRC_mpeg2: "ComputeCRC m = PutUint32 (crc32_mpeg2 m)"
  unfolding ComputeCRC_def crc_flush_eq flush_outer crc_start_flush crc32_mpeg2_def ..

section \<open>Residue and error detection\<close>

lemma dbl_pow: "bit ((dbl ^^ k) c) n \<longleftrightarrow> k \<le> n \<and> n < 32 \<and> bit c (n - k)"
proof (induction k arbitrary: n)
  case 0
  have "bit c n \<Longrightarrow> n < 32" using bit_imp_le_length [of c n] by simp
  then show ?case by simp blast
next
  case (Suc k)
  have "bit ((dbl ^^ Suc k) c) n \<longleftrightarrow> n \<noteq> 0 \<and> n < 32 \<and> k \<le> n - 1 \<and> n - 1 < 32 \<and> bit c (n - 1 - k)"
    by (simp only: funpow.simps comp_apply bit_dbl Suc.IH)
  moreover have "n - 1 - k = n - Suc k" by simp
  moreover have "n \<noteq> 0 \<and> n < 32 \<and> k \<le> n - 1 \<and> n - 1 < 32 \<longleftrightarrow> Suc k \<le> n \<and> n < 32" by arith
  ultimately show ?case by metis
qed

lemma mpeg_run_self:
  "k \<le> 32 \<Longrightarrow> fold mpeg_step (map (\<lambda>i. bit c (31 - i)) [0..<k]) c = (dbl ^^ k) c"
proof (induction k)
  case (Suc k)
  then have "bit ((dbl ^^ k) c) 31 = bit c (31 - k)" by (simp add: dbl_pow)
  then have "mpeg_step (bit c (31 - k)) ((dbl ^^ k) c) = dbl ((dbl ^^ k) c)"
    by (simp only: mpeg_step_def dbl_def) simp
  with Suc show ?case by simp
qed simp

lemma upt_32: "[0..<32] = [0, 1, 2, 3, 4, 5, 6, 7, 8, 9, 10, 11, 12, 13, 14, 15,
    16, 17, 18, 19, 20, 21, 22, 23, 24, 25, 26, 27, 28, 29, 30, 31]"
  by (simp add: upt_rec)

lemma bits_PutUint32: "concat (map byte_bits (PutUint32 v)) = map (\<lambda>i. bit v (31 - i)) [0..<32]"
  unfolding upt_32 by (simp add: PutUint32_def byte_bits_def bit_simps)

lemma crc32_append: "crc32_mpeg2 (m @ n) = fold mpeg_step (concat (map byte_bits n)) (crc32_mpeg2 m)"
  by (simp add: crc32_mpeg2_def)

lemma crc32_residue: "crc32_mpeg2 (m @ PutUint32 (crc32_mpeg2 m)) = 0"
proof -
  have "(dbl ^^ 32) c = 0" for c
    by (rule bit_word_eqI) (simp add: dbl_pow)
  then show ?thesis unfolding crc32_append bits_PutUint32
    by (subst mpeg_run_self) simp_all
qed

lemma msb_pow: "k < 32 \<Longrightarrow> (shl ^^ k) (push_bit (31 - k) 1) = 0x80000000"
proof -
  assume "k < 32"
  then have "(shl ^^ k) ((shl ^^ (31 - k)) 1) = push_bit 31 1"
    using shl_pow_one [of 31] by (simp only: funpow_add [THEN fun_cong, unfolded comp_apply, symmetric]) simp
  then show ?thesis using \<open>k < 32\<close> by (subst (asm) shl_pow_one) simp_all
qed

lemma run_as_xor:
  "length d \<le> 32 \<Longrightarrow> \<exists>w. (\<forall>i < length d. bit w (31 - i) = d ! i) \<and> (\<forall>j < 32 - length d. \<not> bit w j) \<and>
     (\<forall>c. fold mpeg_step d c = (shl ^^ length d) (c XOR w))"
proof (induction d rule: rev_induct)
  case Nil
  show ?case by (rule exI [of _ 0]) simp
next
  case (snoc b d)
  then obtain w where w: "\<forall>i < length d. bit w (31 - i) = d ! i" "\<forall>j < 32 - length d. \<not> bit w j"
    "\<And>c. fold mpeg_step d c = (shl ^^ length d) (c XOR w)" by auto
  let ?p = "if b then push_bit (31 - length d) 1 else (0 :: u32)"
  from snoc.prems have k: "length d < 32" by simp
  have p: "(shl ^^ length d) ?p = (if b then 0x80000000 else 0)"
    using msb_pow [OF k] by (cases b) (simp_all only: if_True if_False shl_pow_0)
  have bp: "bit ?p j \<longleftrightarrow> b \<and> j = 31 - length d" for j
    using k by (auto simp: bit_simps)
  have "fold mpeg_step (d @ [b]) c = (shl ^^ length (d @ [b])) (c XOR (w XOR ?p))" for c
    by (simp only: fold_append fold.simps comp_apply id_apply w(3) mpeg_step_eq length_append
        list.size funpow.simps add_Suc_right add_0_right p [symmetric] shl_pow_xor [symmetric] xor.assoc)
  moreover have "\<forall>i < length (d @ [b]). bit (w XOR ?p) (31 - i) = (d @ [b]) ! i"
  proof (intro allI impI)
    fix i assume "i < length (d @ [b])"
    then consider "i < length d" | "i = length d" by fastforce
    then show "bit (w XOR ?p) (31 - i) = (d @ [b]) ! i"
      using w(1,2) k by cases (auto simp: bit_xor_iff bp nth_append)
  qed
  moreover have "\<forall>j < 32 - length (d @ [b]). \<not> bit (w XOR ?p) j"
    using w(2) k by (auto simp: bit_xor_iff bp)
  ultimately show ?case by blast
qed

lemma xor_cancel: "x XOR z = y XOR z \<Longrightarrow> x = (y :: u32)"
proof -
  assume "x XOR z = y XOR z"
  then have "(x XOR z) XOR z = (y XOR z) XOR z" by simp
  then show ?thesis by (simp only: xor.assoc xor_self_eq xor.right_neutral)
qed

lemma run_inj:
  assumes "length d \<le> 32" "length e = length d" "fold mpeg_step d c = fold mpeg_step e c"
  shows "d = e"
proof -
  obtain w where w: "\<forall>i < length d. bit w (31 - i) = d ! i" "\<forall>j < 32 - length d. \<not> bit w j"
    "\<And>c. fold mpeg_step d c = (shl ^^ length d) (c XOR w)" using run_as_xor [OF assms(1)] by auto
  obtain v where v: "\<forall>i < length e. bit v (31 - i) = e ! i"
    "\<And>c. fold mpeg_step e c = (shl ^^ length e) (c XOR v)" using run_as_xor [of e] assms by auto
  have "c XOR w = c XOR v"
    by (rule inj_shl_pow [of "length d"]) (metis w(3) v(2) assms(2,3))
  then have "w = v" by (intro xor_cancel [of w c v]) (simp only: xor.commute)
  with w(1) v(1) assms(2) show ?thesis by (auto intro: nth_equalityI)
qed

lemma run_state_inj: "fold mpeg_step d x = fold mpeg_step d y \<Longrightarrow> x = y"
proof (induction d arbitrary: x y)
  case (Cons b d)
  from Cons.IH [of "mpeg_step b x" "mpeg_step b y"] Cons.prems have "mpeg_step b x = mpeg_step b y"
    by simp
  then have "x XOR (if b then 0x80000000 else 0) = y XOR (if b then 0x80000000 else 0)"
    unfolding mpeg_step_eq by (rule inj_shl)
  then show ?case by (rule xor_cancel)
qed simp

lemma byte_bits_inj: "byte_bits a = byte_bits b \<Longrightarrow> a = b"
  by (rule byte_eqI) (simp_all add: byte_bits_def)

lemma length_byte_bits: "length (byte_bits b) = 8"
  by (simp add: byte_bits_def)

lemma concat_byte_bits_inj:
  "length xs = length ys \<Longrightarrow> concat (map byte_bits xs) = concat (map byte_bits ys) \<Longrightarrow> xs = ys"
proof (induction xs ys rule: list_induct2)
  case (Cons x xs y ys)
  have "byte_bits x = byte_bits y \<and> concat (map byte_bits xs) = concat (map byte_bits ys)"
    using Cons.prems by (simp add: length_byte_bits)
  then show ?case using Cons.IH byte_bits_inj by blast
qed simp

lemma PutUint32_inj: "PutUint32 v = PutUint32 w \<longleftrightarrow> v = w"
proof
  assume "PutUint32 v = PutUint32 w"
  then have "map (\<lambda>i. bit v (31 - i)) [0..<32] = map (\<lambda>i. bit w (31 - i)) [0..<32]"
    by (metis bits_PutUint32)
  then have "\<forall>i < 32. bit v (31 - i) = bit w (31 - i)" by (simp add: list_eq_iff_nth_eq)
  then have h: "bit v (31 - (31 - i)) = bit w (31 - (31 - i))" for i
    by (drule_tac x = "31 - i" in spec) simp
  show "v = w"
  proof (rule bit_word_eqI)
    fix i assume "i < LENGTH(32)"
    with h [of i] show "bit v i = bit w i" by simp
  qed
qed simp

lemma length_concat_byte_bits: "length (concat (map byte_bits xs)) = 8 * length xs"
  by (induction xs) (simp_all add: byte_bits_def)

section \<open>Properties\<close>

text \<open>C23: \<open>ComputeCRC\<close> of the code, with its unusual initial register and its flush of 32 zero bits,
  is the big-endian CRC-32/MPEG-2 of the standard.\<close>

theorem ComputeCRC_is_mpeg2: "ComputeCRC m = PutUint32 (crc32_mpeg2 m)"
  by (rule ComputeCRC_mpeg2)

text \<open>The checksum of a section followed by its own checksum is zero: what a receiver checks.\<close>

theorem ComputeCRC_residue: "ComputeCRC (m @ ComputeCRC m) = [0, 0, 0, 0]"
  by (simp add: ComputeCRC_mpeg2 crc32_residue) (simp add: PutUint32_def)

text \<open>Replacing up to four consecutive bytes of a section, anywhere, by different ones always
  changes its checksum.\<close>

theorem ComputeCRC_burst:
  assumes "length x \<le> 4" "length y = length x"
  shows "ComputeCRC (pre @ x @ post) = ComputeCRC (pre @ y @ post) \<longleftrightarrow> x = y"
proof
  assume "ComputeCRC (pre @ x @ post) = ComputeCRC (pre @ y @ post)"
  then have "fold mpeg_step (concat (map byte_bits x)) (crc32_mpeg2 pre) =
      fold mpeg_step (concat (map byte_bits y)) (crc32_mpeg2 pre)"
    by (simp only: ComputeCRC_mpeg2 PutUint32_inj crc32_append map_append concat_append
        fold_append comp_apply) (rule run_state_inj)
  with assms show "x = y"
    by (intro concat_byte_bits_inj run_inj) (auto simp only: length_concat_byte_bits)
qed simp

theorem ComputeCRC_burst_witness:
  "ComputeCRC ([0x00, 0xb0] @ [0x0d, 0x01] @ [0xc1]) = ComputeCRC ([0x00, 0xb0] @ [0x0d, 0x03] @ [0xc1])
    \<longleftrightarrow> [0x0d, 0x01] = [0x0d, 0x03 :: byte]"
  by (rule ComputeCRC_burst) simp_all

end
