(* ===== verification/Packet_Core.thy ===== *)
theory Packet_Core
  imports Gots_Prelude
begin

text \<open>
  The transport stream packet and its four header bytes: \<^verbatim>\<open>gots/packet/packet.go\<close> (the
  functions on \<^verbatim>\<open>*Packet\<close>) and the header accessors of \<^verbatim>\<open>gots/packet/modify.go\<close> (the methods,
  here with the prefix \<open>Packet_\<close>, the functions keep their names).  A packet is the list of its 188
  bytes; a method with a pointer receiver returns the changed packet.

  The header is refined to a record of its fields (\<open>header_of\<close>): every setter is an update
  of one field of that record and leaves the other 184 bytes alone.
\<close>

section \<open>Data\<close>

type_synonym packet = "byte list"

definition PacketSize :: nat where "PacketSize = 188"
definition SyncByte :: byte where "SyncByte = 71"
definition NullPacketPid :: int where "NullPacketPid = 8191"

type_synonym TransportScramblingControlOptions = byte
type_synonym AdaptationFieldControlOptions = byte

definition NoScrambleFlag :: TransportScramblingControlOptions where "NoScrambleFlag = 0"
definition ScrambleEvenKeyFlag :: TransportScramblingControlOptions where "ScrambleEvenKeyFlag = 2"
definition ScrambleOddKeyFlag :: TransportScramblingControlOptions where "ScrambleOddKeyFlag = 3"
definition invalidTransportScramblingControlFlag :: TransportScramblingControlOptions where
  "invalidTransportScramblingControlFlag = 1"

definition invalidAdaptationFieldControlFlag :: AdaptationFieldControlOptions where
  "invalidAdaptationFieldControlFlag = 0"
definition PayloadFlag :: AdaptationFieldControlOptions where "PayloadFlag = 1"
definition AdaptationFieldFlag :: AdaptationFieldControlOptions where "AdaptationFieldFlag = 2"
definition PayloadAndAdaptationFieldFlag :: AdaptationFieldControlOptions where
  "PayloadAndAdaptationFieldFlag = 3"

lemmas packet_consts = PacketSize_def SyncByte_def NullPacketPid_def NoScrambleFlag_def
  ScrambleEvenKeyFlag_def ScrambleOddKeyFlag_def invalidTransportScramblingControlFlag_def
  invalidAdaptationFieldControlFlag_def PayloadFlag_def AdaptationFieldFlag_def
  PayloadAndAdaptationFieldFlag_def

definition wf_packet :: "packet \<Rightarrow> bool" where
  "wf_packet p \<longleftrightarrow> length p = PacketSize"

section \<open>packet.go\<close>

definition PayloadUnitStartIndicator :: "packet \<Rightarrow> bool" where
  "PayloadUnitStartIndicator p = (p ! 1 AND 0x40 \<noteq> 0)"

definition Pid :: "packet \<Rightarrow> int" where
  "Pid p = push_bit 8 (uint (p ! 1 AND 0x1f)) OR uint (p ! 2)"

definition ContainsPayload :: "packet \<Rightarrow> bool" where
  "ContainsPayload p = (p ! 3 AND 0x10 \<noteq> 0)"

definition ContainsAdaptationField :: "packet \<Rightarrow> bool" where
  "ContainsAdaptationField p = (p ! 3 AND 0x20 \<noteq> 0)"

definition ContinuityCounter :: "packet \<Rightarrow> byte" where
  "ContinuityCounter p = p ! 3 AND 0x0f"

definition IsNull :: "packet \<Rightarrow> bool" where "IsNull p = (Pid p = NullPacketPid)"

definition IsPat :: "packet \<Rightarrow> bool" where "IsPat p = (Pid p = 0)"

definition payloadStart :: "packet \<Rightarrow> nat" where
  "payloadStart p = (if ContainsAdaptationField p then 4 + (1 + unat (p ! 4)) else 4)"

definition Payload :: "packet \<Rightarrow> byte list res" where
  "Payload p =
     (if \<not> ContainsPayload p then Err ErrNoPayload
      else let start = payloadStart p in
        if start > length p then Err ErrInvalidPacketLength else slice_from p start)"

definition increment4BitInt :: "byte \<Rightarrow> byte" where
  "increment4BitInt cc = (cc + 1) AND 0x0f"

definition IncrementCC :: "packet \<Rightarrow> packet" where
  "IncrementCC p =
     (let ccByte = p ! 3; newCC = increment4BitInt ccByte; newCCByte = (ccByte AND 0xf0) OR newCC
      in p[3 := newCCByte])"

definition ZeroCC :: "packet \<Rightarrow> packet" where
  "ZeroCC p = (let ccByte = p ! 3 in p[3 := ccByte AND 0xf0])"

definition SetCC :: "packet \<Rightarrow> byte \<Rightarrow> packet" where
  "SetCC p newCC = (let ccByte = p ! 3 in p[3 := (ccByte AND 0xf0) OR newCC])"

definition PESHeader :: "packet \<Rightarrow> byte list res" where
  "PESHeader p =
     (if PayloadUnitStartIndicator p then
        res_bind (Payload p) (\<lambda>pay.
          if length pay > 3 \<and> pay ! 0 = 0 \<and> pay ! 1 = 0 \<and> pay ! 2 = 1 then Ok pay
          else Err ErrNoPayload)
      else Err ErrNoPayload)"

definition Header :: "packet \<Rightarrow> byte list res" where
  "Header p = slice p 0 (payloadStart p)"

text \<open>Two pointers: \<open>None\<close> is \<^verbatim>\<open>nil\<close>; equal pointers have equal contents.\<close>

definition Equal :: "packet option \<Rightarrow> packet option \<Rightarrow> bool" where
  "Equal a b =
     (case (a, b) of
        (None, None) \<Rightarrow> True
      | (Some x, Some y) \<Rightarrow> x = y
      | _ \<Rightarrow> False)"

primrec CopyPackets :: "packet list \<Rightarrow> packet list" where
  "CopyPackets [] = []"
| "CopyPackets (p # ps) = go_copy (replicate PacketSize 0) 0 p # CopyPackets ps"

section \<open>modify.go: the header\<close>

definition Packet_setBit :: "packet \<Rightarrow> nat \<Rightarrow> byte \<Rightarrow> bool \<Rightarrow> packet" where
  "Packet_setBit p index msk value =
     (if value then p[index := p ! index OR msk] else p[index := p ! index AND NOT msk])"

definition Packet_getBit :: "packet \<Rightarrow> nat \<Rightarrow> byte \<Rightarrow> bool" where
  "Packet_getBit p index msk = (p ! index AND msk \<noteq> 0)"

definition New :: packet where
  "New = (replicate PacketSize 0)[0 := 0x47, 1 := 0x1f, 2 := 0xff, 3 := 0x10]"

definition SetTransportErrorIndicator :: "packet \<Rightarrow> bool \<Rightarrow> packet" where
  "SetTransportErrorIndicator p value = Packet_setBit p 1 0x80 value"

definition TransportErrorIndicator :: "packet \<Rightarrow> bool" where
  "TransportErrorIndicator p = Packet_getBit p 1 0x80"

definition SetPayloadUnitStartIndicator :: "packet \<Rightarrow> bool \<Rightarrow> packet" where
  "SetPayloadUnitStartIndicator p value = Packet_setBit p 1 0x40 value"

definition Packet_PayloadUnitStartIndicator :: "packet \<Rightarrow> bool" where
  "Packet_PayloadUnitStartIndicator p = Packet_getBit p 1 0x40"

definition SetTransportPriority :: "packet \<Rightarrow> bool \<Rightarrow> packet" where
  "SetTransportPriority p value = Packet_setBit p 1 0x20 value"

definition TransportPriority :: "packet \<Rightarrow> bool" where
  "TransportPriority p = Packet_getBit p 1 0x20"

definition SetPID :: "packet \<Rightarrow> int \<Rightarrow> packet" where
  "SetPID p pid =
     (let p1 = p[1 := (p ! 1 AND NOT 0x1f) OR (word_of_int (drop_bit 8 pid) AND 0x1f)]
      in p1[2 := word_of_int pid])"

definition PID :: "packet \<Rightarrow> int" where
  "PID p = push_bit 8 (uint (p ! 1 AND 0x1f)) OR uint (p ! 2)"

definition SetTransportScramblingControl ::
  "packet \<Rightarrow> TransportScramblingControlOptions \<Rightarrow> packet" where
  "SetTransportScramblingControl p value = p[3 := (p ! 3 AND NOT 0xC0) OR push_bit 6 value]"

definition TransportScramblingControl :: "packet \<Rightarrow> TransportScramblingControlOptions" where
  "TransportScramblingControl p = drop_bit 6 (p ! 3 AND 0xC0)"

definition AdaptationFieldControl :: "packet \<Rightarrow> AdaptationFieldControlOptions" where
  "AdaptationFieldControl p = drop_bit 4 (p ! 3 AND 0x30)"

definition HasPayload :: "packet \<Rightarrow> bool" where
  "HasPayload p = Packet_getBit p 3 0x10"

definition HasAdaptationField :: "packet \<Rightarrow> bool" where
  "HasAdaptationField p = Packet_getBit p 3 0x20"

definition SetContinuityCounter :: "packet \<Rightarrow> int \<Rightarrow> packet" where
  "SetContinuityCounter p value = p[3 := (p ! 3 AND NOT 0x0F) OR word_of_int (value AND 0x0F)]"

definition Packet_ContinuityCounter :: "packet \<Rightarrow> int" where
  "Packet_ContinuityCounter p = uint (p ! 3 AND 0x0F)"

definition ZeroContinuityCounter :: "packet \<Rightarrow> packet" where
  "ZeroContinuityCounter p = SetContinuityCounter p 0"

definition IncContinuityCounter :: "packet \<Rightarrow> packet" where
  "IncContinuityCounter p =
     (let cc = Packet_ContinuityCounter p; cc = cc + 1 in SetContinuityCounter p cc)"

definition Packet_IsNull :: "packet \<Rightarrow> bool" where
  "Packet_IsNull p = (PID p = NullPacketPid)"

definition Packet_IsPAT :: "packet \<Rightarrow> bool" where
  "Packet_IsPAT p = (PID p = 0)"

definition Packet_Equals :: "packet \<Rightarrow> packet option \<Rightarrow> bool" where
  "Packet_Equals p r = Equal (Some p) r"

definition syncByte :: "packet \<Rightarrow> byte" where "syncByte p = p ! 0"

definition CheckErrors :: "packet \<Rightarrow> gots_error option" where
  "CheckErrors p =
     (if syncByte p \<noteq> SyncByte then Some ErrBadSyncByte
      else if TransportScramblingControl p = invalidTransportScramblingControlFlag
        then Some ErrInvalidTSCFlag
      else if AdaptationFieldControl p = invalidAdaptationFieldControlFlag
        then Some ErrInvalidAFCFlag
      else None)"

text \<open>The source returns the packet together with the error of \<open>CheckErrors\<close>.\<close>

definition FromBytes :: "byte list \<Rightarrow> packet option \<times> gots_error option" where
  "FromBytes bytes =
     (if length bytes \<noteq> PacketSize then (None, Some ErrInvalidPacketLength)
      else let pkt = go_copy (replicate PacketSize 0) 0 bytes; err = CheckErrors pkt
           in (Some pkt, err))"

section \<open>The header as a record\<close>

record header =
  h_tei :: bool
  h_pusi :: bool
  h_prio :: bool
  h_pid :: int
  h_tsc :: byte
  h_afc :: byte
  h_cc :: int

definition header_of :: "packet \<Rightarrow> header" where
  "header_of p = \<lparr>h_tei = TransportErrorIndicator p, h_pusi = Packet_PayloadUnitStartIndicator p,
     h_prio = TransportPriority p, h_pid = PID p, h_tsc = TransportScramblingControl p,
     h_afc = AdaptationFieldControl p, h_cc = Packet_ContinuityCounter p\<rparr>"

lemma and_single_bit:
  fixes w :: byte
  shows "w AND 0x80 \<noteq> 0 \<longleftrightarrow> bit w 7" "w AND 0x40 \<noteq> 0 \<longleftrightarrow> bit w 6" "w AND 0x20 \<noteq> 0 \<longleftrightarrow> bit w 5"
    "w AND 0x10 \<noteq> 0 \<longleftrightarrow> bit w 4" "w AND 0x08 \<noteq> 0 \<longleftrightarrow> bit w 3" "w AND 0x04 \<noteq> 0 \<longleftrightarrow> bit w 2"
    "w AND 0x02 \<noteq> 0 \<longleftrightarrow> bit w 1" "w AND 0x01 \<noteq> 0 \<longleftrightarrow> bit w 0"
proof -
  have *: "w AND push_bit k 1 \<noteq> 0 \<longleftrightarrow> bit w k" for k
    by (simp add: push_bit_eq_mult and_exp_eq_0_iff_not_bit)
  show "w AND 0x80 \<noteq> 0 \<longleftrightarrow> bit w 7" "w AND 0x40 \<noteq> 0 \<longleftrightarrow> bit w 6" "w AND 0x20 \<noteq> 0 \<longleftrightarrow> bit w 5"
    "w AND 0x10 \<noteq> 0 \<longleftrightarrow> bit w 4" "w AND 0x08 \<noteq> 0 \<longleftrightarrow> bit w 3" "w AND 0x04 \<noteq> 0 \<longleftrightarrow> bit w 2"
    "w AND 0x02 \<noteq> 0 \<longleftrightarrow> bit w 1" "w AND 0x01 \<noteq> 0 \<longleftrightarrow> bit w 0"
    using *[of 7] *[of 6] *[of 5] *[of 4] *[of 3] *[of 2] *[of 1] *[of 0] by simp_all
qed

lemmas flag_bits = Packet_getBit_def Packet_setBit_def and_single_bit

text \<open>The getters as bits.\<close>

lemma header_getters:
  "TransportErrorIndicator p \<longleftrightarrow> bit (p ! 1) 7"
  "Packet_PayloadUnitStartIndicator p \<longleftrightarrow> bit (p ! 1) 6"
  "PayloadUnitStartIndicator p \<longleftrightarrow> bit (p ! 1) 6"
  "TransportPriority p \<longleftrightarrow> bit (p ! 1) 5"
  "HasPayload p \<longleftrightarrow> bit (p ! 3) 4"
  "ContainsPayload p \<longleftrightarrow> bit (p ! 3) 4"
  "HasAdaptationField p \<longleftrightarrow> bit (p ! 3) 5"
  "ContainsAdaptationField p \<longleftrightarrow> bit (p ! 3) 5"
  by (simp_all only: TransportErrorIndicator_def Packet_PayloadUnitStartIndicator_def
      PayloadUnitStartIndicator_def TransportPriority_def HasPayload_def ContainsPayload_def
      HasAdaptationField_def ContainsAdaptationField_def flag_bits)

lemma PID_code_word:
  fixes a :: byte
  shows "push_bit 8 (uint (((a AND NOT 0x1f) OR (word_of_int (drop_bit 8 pid) AND 0x1f)) AND 0x1f))
    OR uint (word_of_int pid :: byte) = pid mod 8192" (is "?l = ?r")
proof -
  have r: "?r = take_bit 13 pid" by (simp add: take_bit_eq_mod)
  have "((a AND NOT 0x1f) OR (word_of_int (drop_bit 8 pid) AND 0x1f)) AND 0x1f
      = take_bit 5 (word_of_int (drop_bit 8 pid))"
    unfolding and_numeral_mask by (rule bit_word_eqI) (auto simp: bit_simps)
  then have l: "?l = push_bit 8 (uint (take_bit 5 (word_of_int (drop_bit 8 pid) :: byte))) OR
      uint (word_of_int pid :: byte)" by simp
  show ?thesis unfolding l r
  proof (rule bit_eqI)
    fix n
    show "bit (push_bit 8 (uint (take_bit 5 (word_of_int (drop_bit 8 pid) :: byte))) OR
      uint (word_of_int pid :: byte)) n = bit (take_bit 13 pid) n"
      by (cases "n < 8") (auto simp: bit_simps)
  qed
qed

lemma PID_alt: "PID p = push_bit 8 (uint (take_bit 5 (p ! 1))) OR uint (p ! 2)"
  unfolding PID_def and_numeral_mask ..

lemma TSC_alt: "TransportScramblingControl p = drop_bit 6 (p ! 3)"
  unfolding TransportScramblingControl_def by (rule byte_eqI) (simp_all add: bit_simps)

lemma AFC_alt: "AdaptationFieldControl p = take_bit 2 (drop_bit 4 (p ! 3))"
  unfolding AdaptationFieldControl_def by (rule byte_eqI) (simp_all add: bit_simps)

lemma CC_alt: "Packet_ContinuityCounter p = uint (take_bit 4 (p ! 3))"
  unfolding Packet_ContinuityCounter_def and_numeral_mask ..

lemma hdr_byte1:
  fixes a :: byte
  shows "take_bit 5 (a OR 0x80) = take_bit 5 a" "take_bit 5 (a AND NOT 0x80) = take_bit 5 a"
    "take_bit 5 (a OR 0x40) = take_bit 5 a" "take_bit 5 (a AND NOT 0x40) = take_bit 5 a"
    "take_bit 5 (a OR 0x20) = take_bit 5 a" "take_bit 5 (a AND NOT 0x20) = take_bit 5 a"
  by (rule byte_eqI; simp add: bit_simps)+

lemma hdr_byte3_tsc:
  fixes a v :: byte
  shows "drop_bit 6 ((a AND NOT 0xC0) OR push_bit 6 v) = take_bit 2 v"
    "take_bit 2 (drop_bit 4 ((a AND NOT 0xC0) OR push_bit 6 v)) = take_bit 2 (drop_bit 4 a)"
    "take_bit 4 ((a AND NOT 0xC0) OR push_bit 6 v) = take_bit 4 a"
  by (rule byte_eqI; simp add: bit_simps)+

lemma hdr_byte3_cc:
  fixes a v :: byte
  shows "drop_bit 6 ((a AND NOT 0x0F) OR take_bit 4 v) = drop_bit 6 a"
    "take_bit 2 (drop_bit 4 ((a AND NOT 0x0F) OR take_bit 4 v)) = take_bit 2 (drop_bit 4 a)"
    "take_bit 4 ((a AND NOT 0x0F) OR take_bit 4 v) = take_bit 4 v"
  by (rule byte_eqI; simp add: bit_simps)+

lemma hdr_byte3_afc:
  fixes a v :: byte
  assumes "v < 4"
  shows "drop_bit 6 ((a AND NOT 0x30) OR push_bit 4 v) = drop_bit 6 a"
    "take_bit 2 (drop_bit 4 ((a AND NOT 0x30) OR push_bit 4 v)) = v"
    "take_bit 4 ((a AND NOT 0x30) OR push_bit 4 v) = take_bit 4 a"
    "bit ((a AND NOT 0x30) OR push_bit 4 v) 5 \<longleftrightarrow> bit v 1"
    "bit ((a AND NOT 0x30) OR push_bit 4 v) 4 \<longleftrightarrow> bit v 0"
proof -
  have "take_bit 2 v = v" using assms by (intro take_bit_word_small) (simp add: word_less_nat_alt)
  then have h: "\<not> bit v n" if "2 \<le> n" for n
    by (metis bit_take_bit_iff leD that)
  show "drop_bit 6 ((a AND NOT 0x30) OR push_bit 4 v) = drop_bit 6 a"
    "take_bit 2 (drop_bit 4 ((a AND NOT 0x30) OR push_bit 4 v)) = v"
    "take_bit 4 ((a AND NOT 0x30) OR push_bit 4 v) = take_bit 4 a"
    "bit ((a AND NOT 0x30) OR push_bit 4 v) 5 \<longleftrightarrow> bit v 1"
    "bit ((a AND NOT 0x30) OR push_bit 4 v) 4 \<longleftrightarrow> bit v 0"
    using h by (auto intro!: byte_eqI simp: bit_simps)
qed

lemma cc_mod: "word_of_int (value AND 0x0F) = (take_bit 4 (word_of_int value) :: byte)"
proof -
  have "value AND 0x0F = take_bit 4 value" by (simp add: take_bit_eq_mask mask_eq_exp_minus_1)
  then show ?thesis by (simp add: bit_eq_iff bit_simps)
qed

lemma uint_cc: "uint (take_bit 4 (word_of_int value :: byte)) = value mod 16"
proof -
  have "uint (take_bit 4 (word_of_int value :: byte)) = take_bit 4 value"
    by (rule bit_eqI) (auto simp: bit_simps)
  then show ?thesis by (simp add: take_bit_eq_mod)
qed

lemma same_cc [simp]: "take_bit 4 (a :: byte) mod 16 = take_bit 4 a"
  by (rule word_unat_eq_iff [THEN iffD2]) (simp add: unat_mod unsigned_take_bit_eq take_bit_eq_mod)

lemma length_setBit [simp]: "length (Packet_setBit p i m v) = length p"
  by (simp add: Packet_setBit_def)

lemma nth_setBit:
  "i < length p \<Longrightarrow> Packet_setBit p i m v ! j =
    (if j = i then (if v then p ! i OR m else p ! i AND NOT m) else p ! j)"
  by (simp add: Packet_setBit_def)

lemma bit_flag:
  fixes a :: byte
  shows "bit (a OR 0x80) n \<longleftrightarrow> bit a n \<or> n = 7" "bit (a AND NOT 0x80) n \<longleftrightarrow> bit a n \<and> n \<noteq> 7"
    "bit (a OR 0x40) n \<longleftrightarrow> bit a n \<or> n = 6" "bit (a AND NOT 0x40) n \<longleftrightarrow> bit a n \<and> n \<noteq> 6"
    "bit (a OR 0x20) n \<longleftrightarrow> bit a n \<or> n = 5" "bit (a AND NOT 0x20) n \<longleftrightarrow> bit a n \<and> n \<noteq> 5"
    "bit (a OR 0x10) n \<longleftrightarrow> bit a n \<or> n = 4" "bit (a AND NOT 0x10) n \<longleftrightarrow> bit a n \<and> n \<noteq> 4"
    "bit (a OR 0x08) n \<longleftrightarrow> bit a n \<or> n = 3" "bit (a AND NOT 0x08) n \<longleftrightarrow> bit a n \<and> n \<noteq> 3"
    "bit (a OR 0x04) n \<longleftrightarrow> bit a n \<or> n = 2" "bit (a AND NOT 0x04) n \<longleftrightarrow> bit a n \<and> n \<noteq> 2"
    "bit (a OR 0x02) n \<longleftrightarrow> bit a n \<or> n = 1" "bit (a AND NOT 0x02) n \<longleftrightarrow> bit a n \<and> n \<noteq> 1"
    "bit (a OR 0x01) n \<longleftrightarrow> bit a n \<or> n = 0" "bit (a AND NOT 0x01) n \<longleftrightarrow> bit a n \<and> n \<noteq> 0"
proof -
  have k: "bit (a OR push_bit k 1) n \<longleftrightarrow> bit a n \<or> n = k" "bit (a AND NOT (push_bit k 1)) n \<longleftrightarrow> bit a n \<and> n \<noteq> k"
    if "k < 8" for k
    using that bit_imp_le_length [of a n] by (auto simp: bit_simps)
  show "bit (a OR 0x80) n \<longleftrightarrow> bit a n \<or> n = 7" "bit (a AND NOT 0x80) n \<longleftrightarrow> bit a n \<and> n \<noteq> 7"
    "bit (a OR 0x40) n \<longleftrightarrow> bit a n \<or> n = 6" "bit (a AND NOT 0x40) n \<longleftrightarrow> bit a n \<and> n \<noteq> 6"
    "bit (a OR 0x20) n \<longleftrightarrow> bit a n \<or> n = 5" "bit (a AND NOT 0x20) n \<longleftrightarrow> bit a n \<and> n \<noteq> 5"
    "bit (a OR 0x10) n \<longleftrightarrow> bit a n \<or> n = 4" "bit (a AND NOT 0x10) n \<longleftrightarrow> bit a n \<and> n \<noteq> 4"
    using k[of 7] k[of 6] k[of 5] k[of 4] by (simp_all only: push_bit_of_1 power_numeral) simp_all
  show "bit (a OR 0x08) n \<longleftrightarrow> bit a n \<or> n = 3" "bit (a AND NOT 0x08) n \<longleftrightarrow> bit a n \<and> n \<noteq> 3"
    "bit (a OR 0x04) n \<longleftrightarrow> bit a n \<or> n = 2" "bit (a AND NOT 0x04) n \<longleftrightarrow> bit a n \<and> n \<noteq> 2"
    "bit (a OR 0x02) n \<longleftrightarrow> bit a n \<or> n = 1" "bit (a AND NOT 0x02) n \<longleftrightarrow> bit a n \<and> n \<noteq> 1"
    "bit (a OR 0x01) n \<longleftrightarrow> bit a n \<or> n = 0" "bit (a AND NOT 0x01) n \<longleftrightarrow> bit a n \<and> n \<noteq> 0"
    using k[of 3] k[of 2] k[of 1] k[of 0] by (simp_all only: push_bit_of_1 power_numeral) simp_all
qed

section \<open>The header and the body determine the packet\<close>

definition same_body :: "packet \<Rightarrow> packet \<Rightarrow> bool" where
  "same_body p q \<longleftrightarrow> p ! 0 = q ! 0 \<and> drop 4 p = drop 4 q"

lemma wf_length [simp]: "wf_packet p \<Longrightarrow> length p = 188"
  by (simp add: wf_packet_def PacketSize_def)

lemma wf_list_update [simp]: "wf_packet (p[i := b]) = wf_packet p"
  by (simp add: wf_packet_def)

lemma wf_setBit [simp]: "wf_packet (Packet_setBit p i m v) = wf_packet p"
  by (simp add: wf_packet_def)

lemma pid_parts:
  fixes a b :: byte
  assumes "a < 32"
  shows "drop_bit 8 (push_bit 8 (uint a) OR uint b) = uint a"
    "take_bit 8 (push_bit 8 (uint a) OR uint b) = uint b"
  by (rule bit_eqI; auto simp: bit_simps)+

lemma PID_eq_iff:
  "PID p = PID q \<longleftrightarrow> take_bit 5 (p ! 1) = take_bit 5 (q ! 1) \<and> p ! 2 = q ! 2"
proof
  assume h: "PID p = PID q"
  have l: "take_bit 5 (a :: byte) < 32" for a
    by (simp add: word_less_nat_alt unsigned_take_bit_eq) (simp add: take_bit_eq_mod)
  from h have "uint (take_bit 5 (p ! 1)) = uint (take_bit 5 (q ! 1))"
    unfolding PID_alt by (metis pid_parts(1) l)
  moreover from h have "uint (p ! 2) = uint (q ! 2)"
    unfolding PID_alt by (metis pid_parts(2) l)
  ultimately show "take_bit 5 (p ! 1) = take_bit 5 (q ! 1) \<and> p ! 2 = q ! 2"
    by (auto simp: unsigned_word_eqI)
qed (simp add: PID_alt)

lemma byte1_parts:
  fixes a b :: byte
  assumes "bit a 7 = bit b 7" "bit a 6 = bit b 6" "bit a 5 = bit b 5" "take_bit 5 a = take_bit 5 b"
  shows "a = b"
proof -
  have "bit a n = bit b n" if "n < 5" for n
    using arg_cong [OF assms(4), of "\<lambda>w. bit w n"] that by (simp add: bit_take_bit_iff)
  with assms show ?thesis by (intro byte_eqI) simp_all
qed

lemma byte3_parts:
  fixes a b :: byte
  assumes "drop_bit 6 a = drop_bit 6 b" "take_bit 2 (drop_bit 4 a) = take_bit 2 (drop_bit 4 b)"
    "take_bit 4 a = take_bit 4 b"
  shows "a = b"
proof -
  have 1: "bit a (6 + n) = bit b (6 + n)" for n
    using arg_cong [OF assms(1), of "\<lambda>w. bit w n"] by (simp add: bit_drop_bit_eq)
  have 2: "bit a (4 + n) = bit b (4 + n)" if "n < 2" for n
    using arg_cong [OF assms(2), of "\<lambda>w. bit w n"] that by (simp add: bit_simps)
  have 3: "bit a n = bit b n" if "n < 4" for n
    using arg_cong [OF assms(3), of "\<lambda>w. bit w n"] that by (simp add: bit_simps)
  show ?thesis
    using 1[of 0] 1[of 1] 2[of 0] 2[of 1] 3 by (intro byte_eqI) simp_all
qed

lemma packet_ext:
  assumes wf: "wf_packet p" "wf_packet q" and h: "header_of p = header_of q" and b: "same_body p q"
  shows "p = q"
proof (rule nth_equalityI)
  show "length p = length q" using wf by simp
  fix i assume i: "i < length p"
  from h have f: "bit (p ! 1) 7 = bit (q ! 1) 7" "bit (p ! 1) 6 = bit (q ! 1) 6"
      "bit (p ! 1) 5 = bit (q ! 1) 5" "PID p = PID q"
      "drop_bit 6 (p ! 3) = drop_bit 6 (q ! 3)"
      "take_bit 2 (drop_bit 4 (p ! 3)) = take_bit 2 (drop_bit 4 (q ! 3))"
      "uint (take_bit 4 (p ! 3)) = uint (take_bit 4 (q ! 3))"
    by (simp_all add: header_of_def header_getters TSC_alt AFC_alt CC_alt)
  from f have e: "p ! 1 = q ! 1" "p ! 2 = q ! 2" "p ! 3 = q ! 3"
    by (auto simp: PID_eq_iff intro: byte1_parts byte3_parts dest: unsigned_word_eqI)
  consider "i = 0" | "i = 1" | "i = 2" | "i = 3" | "4 \<le> i" by linarith
  then show "p ! i = q ! i"
  proof cases
    case 5
    with i wf have "p ! i = drop 4 p ! (i - 4)" "q ! i = drop 4 q ! (i - 4)" by simp_all
    with b show ?thesis by (simp add: same_body_def)
  qed (use b e in \<open>simp_all add: same_body_def\<close>)
qed

section \<open>Header fields as an interface\<close>

text \<open>
  A setter of the header implements the update of one field of the abstract header record.  The
  laws of get and set follow for all fields at once, because header and body determine the packet.
\<close>

locale header_field =
  fixes getf :: "packet \<Rightarrow> 'v" and setf :: "packet \<Rightarrow> 'w \<Rightarrow> packet"
    and norm :: "'w \<Rightarrow> 'v" and sel :: "header \<Rightarrow> 'v" and upd :: "'v \<Rightarrow> header \<Rightarrow> header"
  assumes getf_sel: "getf p = sel (header_of p)"
    and setf_upd: "wf_packet p \<Longrightarrow> header_of (setf p w) = upd (norm w) (header_of p)"
    and setf_wf: "wf_packet p \<Longrightarrow> wf_packet (setf p w)"
    and setf_body: "wf_packet p \<Longrightarrow> same_body (setf p w) p"
    and sel_upd: "sel (upd v h) = v"
    and upd_upd: "upd v (upd v' h) = upd v h"
    and upd_sel: "upd (sel h) h = h"
begin

lemma get_set: "wf_packet p \<Longrightarrow> getf (setf p w) = norm w"
  by (simp add: getf_sel setf_upd sel_upd)

lemma set_set: "wf_packet p \<Longrightarrow> setf (setf p w) w' = setf p w'"
  by (rule packet_ext) (use setf_body setf_wf in \<open>auto simp: setf_upd upd_upd same_body_def\<close>)

lemma set_get: "wf_packet p \<Longrightarrow> norm w = getf p \<Longrightarrow> setf p w = p"
  by (rule packet_ext) (use setf_body setf_wf in \<open>auto simp: setf_upd getf_sel upd_sel\<close>)

end

locale two_fields = a: header_field get1 set1 norm1 sel1 upd1 + b: header_field get2 set2 norm2 sel2 upd2
  for get1 :: "packet \<Rightarrow> 'v" and set1 :: "packet \<Rightarrow> 'w \<Rightarrow> packet" and norm1 sel1 upd1
    and get2 :: "packet \<Rightarrow> 'x" and set2 :: "packet \<Rightarrow> 'y \<Rightarrow> packet" and norm2 sel2 upd2 +
  assumes upd_commute: "upd1 v (upd2 x h) = upd2 x (upd1 v h)"
    and sel_other: "sel1 (upd2 x h) = sel1 h" "sel2 (upd1 v h) = sel2 h"
begin

lemma set_commute: "wf_packet p \<Longrightarrow> set1 (set2 p y) w = set2 (set1 p w) y"
  by (rule packet_ext)
    (use a.setf_body b.setf_body in \<open>auto simp: a.setf_upd b.setf_upd a.setf_wf b.setf_wf upd_commute same_body_def\<close>)

lemma get_other: "wf_packet p \<Longrightarrow> get1 (set2 p y) = get1 p" "wf_packet p \<Longrightarrow> get2 (set1 p w) = get2 p"
  by (simp_all add: a.getf_sel b.getf_sel a.setf_upd b.setf_upd sel_other)

end

lemma drop_setBit [simp]: "i < k \<Longrightarrow> drop k (Packet_setBit p i m v) = drop k p"
  by (simp add: Packet_setBit_def)

lemma bit_setBit:
  assumes "i < length p"
  shows "bit (Packet_setBit p i 0x80 v ! j) n \<longleftrightarrow> (if j = i \<and> n = 7 then v else bit (p ! j) n)"
    "bit (Packet_setBit p i 0x40 v ! j) n \<longleftrightarrow> (if j = i \<and> n = 6 then v else bit (p ! j) n)"
    "bit (Packet_setBit p i 0x20 v ! j) n \<longleftrightarrow> (if j = i \<and> n = 5 then v else bit (p ! j) n)"
    "bit (Packet_setBit p i 0x10 v ! j) n \<longleftrightarrow> (if j = i \<and> n = 4 then v else bit (p ! j) n)"
    "bit (Packet_setBit p i 0x08 v ! j) n \<longleftrightarrow> (if j = i \<and> n = 3 then v else bit (p ! j) n)"
    "bit (Packet_setBit p i 0x04 v ! j) n \<longleftrightarrow> (if j = i \<and> n = 2 then v else bit (p ! j) n)"
    "bit (Packet_setBit p i 0x02 v ! j) n \<longleftrightarrow> (if j = i \<and> n = 1 then v else bit (p ! j) n)"
    "bit (Packet_setBit p i 0x01 v ! j) n \<longleftrightarrow> (if j = i \<and> n = 0 then v else bit (p ! j) n)"
  unfolding nth_setBit [OF assms] by (auto simp only: bit_flag simp_thms split: if_split)

lemma take_bit_setBit:
  assumes "i < length p" "k \<le> 5"
  shows "take_bit k (Packet_setBit p i 0x80 v ! j) = take_bit k (p ! j)"
    "take_bit k (Packet_setBit p i 0x40 v ! j) = take_bit k (p ! j)"
    "take_bit k (Packet_setBit p i 0x20 v ! j) = take_bit k (p ! j)"
  using assms(2) by (auto intro!: bit_word_eqI simp: bit_take_bit_iff bit_setBit [OF assms(1)])

lemma nth_setBit_other: "j \<noteq> i \<Longrightarrow> Packet_setBit p i m v ! j = p ! j"
  by (simp add: Packet_setBit_def)

lemmas header_defs = header_of_def header_getters PID_alt TSC_alt AFC_alt CC_alt same_body_def
  SetTransportErrorIndicator_def SetPayloadUnitStartIndicator_def SetTransportPriority_def
  bit_setBit take_bit_setBit nth_setBit_other

lemma SetPID_header:
  "wf_packet p \<Longrightarrow> header_of (SetPID p pid) = (header_of p)\<lparr>h_pid := pid mod 8192\<rparr>"
  "wf_packet p \<Longrightarrow> same_body (SetPID p pid) p"
proof -
  assume wf: "wf_packet p"
  then have b: "SetPID p pid ! 1 = (p ! 1 AND NOT 0x1f) OR (word_of_int (drop_bit 8 pid) AND 0x1f)"
      "SetPID p pid ! 2 = word_of_int pid" "SetPID p pid ! 3 = p ! 3"
    by (simp_all add: SetPID_def)
  have "bit (SetPID p pid ! 1) n = bit (p ! 1) n" if "n \<in> {5, 6, 7}" for n
    unfolding b(1) and_numeral_mask using that by (auto simp: bit_simps)
  moreover have "PID (SetPID p pid) = pid mod 8192"
    unfolding PID_def b by (rule PID_code_word)
  ultimately show "header_of (SetPID p pid) = (header_of p)\<lparr>h_pid := pid mod 8192\<rparr>"
    by (simp add: header_of_def header_getters TSC_alt AFC_alt CC_alt b(3))
  show "same_body (SetPID p pid) p" by (simp add: same_body_def SetPID_def)
qed

lemma SetTSC_header:
  "wf_packet p \<Longrightarrow> header_of (SetTransportScramblingControl p v) = (header_of p)\<lparr>h_tsc := take_bit 2 v\<rparr>"
proof -
  assume "wf_packet p"
  then have n: "SetTransportScramblingControl p v ! 3 = (p ! 3 AND NOT 0xC0) OR push_bit 6 v"
      "SetTransportScramblingControl p v ! 1 = p ! 1" "SetTransportScramblingControl p v ! 2 = p ! 2"
    by (simp_all add: SetTransportScramblingControl_def)
  show ?thesis
    unfolding header_of_def header_getters PID_alt TSC_alt AFC_alt CC_alt n hdr_byte3_tsc by simp
qed

lemma SetCC_header:
  "wf_packet p \<Longrightarrow> header_of (SetContinuityCounter p v) = (header_of p)\<lparr>h_cc := v mod 16\<rparr>"
proof -
  assume "wf_packet p"
  then have n: "SetContinuityCounter p v ! 3 = (p ! 3 AND NOT 0x0F) OR take_bit 4 (word_of_int v)"
      "SetContinuityCounter p v ! 1 = p ! 1" "SetContinuityCounter p v ! 2 = p ! 2"
    by (simp_all add: SetContinuityCounter_def cc_mod)
  show ?thesis
    unfolding header_of_def header_getters PID_alt TSC_alt AFC_alt CC_alt n hdr_byte3_cc uint_cc by simp
qed

lemma wf_setters [simp]:
  "wf_packet (SetPID p i) = wf_packet p"
  "wf_packet (SetTransportScramblingControl p v) = wf_packet p"
  "wf_packet (SetContinuityCounter p i) = wf_packet p"
  "wf_packet (SetTransportErrorIndicator p b) = wf_packet p"
  "wf_packet (SetPayloadUnitStartIndicator p b) = wf_packet p"
  "wf_packet (SetTransportPriority p b) = wf_packet p"
  by (simp_all add: SetPID_def SetTransportScramblingControl_def SetContinuityCounter_def
      SetTransportErrorIndicator_def SetPayloadUnitStartIndicator_def SetTransportPriority_def)

interpretation tei: header_field TransportErrorIndicator SetTransportErrorIndicator id h_tei
  "\<lambda>v. h_tei_update (\<lambda>_. v)"
  by unfold_locales (simp_all add: header_defs)

interpretation pusi: header_field Packet_PayloadUnitStartIndicator SetPayloadUnitStartIndicator id h_pusi
  "\<lambda>v. h_pusi_update (\<lambda>_. v)"
  by unfold_locales (simp_all add: header_defs)

interpretation prio: header_field TransportPriority SetTransportPriority id h_prio
  "\<lambda>v. h_prio_update (\<lambda>_. v)"
  by unfold_locales (simp_all add: header_defs)

interpretation pid: header_field PID SetPID "\<lambda>i. i mod 8192" h_pid "\<lambda>v. h_pid_update (\<lambda>_. v)"
  by unfold_locales (simp_all add: SetPID_header, simp_all add: header_of_def)

interpretation tsc: header_field TransportScramblingControl SetTransportScramblingControl "take_bit 2"
  h_tsc "\<lambda>v. h_tsc_update (\<lambda>_. v)"
  by unfold_locales (simp_all add: SetTSC_header, simp_all add: header_of_def same_body_def
      SetTransportScramblingControl_def)

interpretation cc: header_field Packet_ContinuityCounter SetContinuityCounter "\<lambda>i. i mod 16"
  h_cc "\<lambda>v. h_cc_update (\<lambda>_. v)"
  by unfold_locales (simp_all add: SetCC_header, simp_all add: header_of_def same_body_def
      SetContinuityCounter_def)

interpretation pid_cc: two_fields PID SetPID "\<lambda>i. i mod 8192" h_pid "\<lambda>v. h_pid_update (\<lambda>_. v)"
  Packet_ContinuityCounter SetContinuityCounter "\<lambda>i. i mod 16" h_cc "\<lambda>v. h_cc_update (\<lambda>_. v)"
  by unfold_locales simp_all

interpretation pid_pusi: two_fields PID SetPID "\<lambda>i. i mod 8192" h_pid "\<lambda>v. h_pid_update (\<lambda>_. v)"
  Packet_PayloadUnitStartIndicator SetPayloadUnitStartIndicator id h_pusi
  "\<lambda>v. h_pusi_update (\<lambda>_. v)"
  by unfold_locales simp_all

interpretation tsc_cc: two_fields TransportScramblingControl SetTransportScramblingControl "take_bit 2"
  h_tsc "\<lambda>v. h_tsc_update (\<lambda>_. v)"
  Packet_ContinuityCounter SetContinuityCounter "\<lambda>i. i mod 16" h_cc "\<lambda>v. h_cc_update (\<lambda>_. v)"
  by unfold_locales simp_all

section \<open>Copies of the functions of packet.go\<close>

text \<open>\<^verbatim>\<open>packet.go\<close> and \<^verbatim>\<open>modify.go\<close> hold two versions of the same accessors: they agree.\<close>

lemma accessors_agree:
  "PayloadUnitStartIndicator p = Packet_PayloadUnitStartIndicator p"
  "Pid p = PID p" "ContainsPayload p = HasPayload p"
  "ContainsAdaptationField p = HasAdaptationField p" "IsNull p = Packet_IsNull p"
  "IsPat p = Packet_IsPAT p"
  by (simp_all add: header_getters Pid_def PID_def IsNull_def IsPat_def Packet_IsNull_def
      Packet_IsPAT_def)

lemma IncCC_byte:
  fixes a :: byte
  shows "(a AND 0xf0) OR increment4BitInt a =
    (a AND NOT 0x0F) OR take_bit 4 (word_of_int (uint (take_bit 4 a) + 1))"
proof -
  have m: "a AND 0xf0 = a AND NOT 0x0F" by (rule byte_eqI) (simp_all add: bit_simps)
  have "word_of_int (uint (take_bit 4 a) + 1) = (take_bit 4 a + 1 :: byte)"
    by (simp only: wi_hom_syms word_of_int_uint word_1_wi)
  moreover have "take_bit 4 (take_bit 4 a + 1) = take_bit 4 (a + 1)"
  proof (rule word_unat_eq_iff [THEN iffD2])
    have "(unat a mod 16 + 1) mod 256 mod 16 = (unat a + 1) mod 256 mod 16"
      by (simp add: mod_mod_cancel mod_simps)
    then show "unat (take_bit 4 (take_bit 4 a + 1)) = unat (take_bit 4 (a + 1))"
      by (simp add: unsigned_take_bit_eq unat_word_ariths take_bit_eq_mod)
  qed
  ultimately show ?thesis
    unfolding increment4BitInt_def and_numeral_mask m by simp
qed

lemma IncrementCC_eq: "IncrementCC p = IncContinuityCounter p"
  unfolding IncrementCC_def IncContinuityCounter_def Let_def SetContinuityCounter_def cc_mod CC_alt
  unfolding IncCC_byte ..

lemma CopyPackets_id: "(\<forall>p \<in> set ps. wf_packet p) \<Longrightarrow> CopyPackets ps = ps"
proof (induction ps)
  case (Cons p ps)
  then show ?case by (auto simp: go_copy_def wf_packet_def PacketSize_def)
qed simp

section \<open>Properties\<close>

lemma field_setters:
  assumes "wf_packet p"
  shows "header_of (SetPID p i) = (header_of p)\<lparr>h_pid := i mod 8192\<rparr> \<and>
    header_of (SetContinuityCounter p c) = (header_of p)\<lparr>h_cc := c mod 16\<rparr> \<and>
    header_of (SetTransportScramblingControl p t) = (header_of p)\<lparr>h_tsc := take_bit 2 t\<rparr> \<and>
    header_of (SetTransportErrorIndicator p b) = (header_of p)\<lparr>h_tei := b\<rparr> \<and>
    header_of (SetPayloadUnitStartIndicator p b) = (header_of p)\<lparr>h_pusi := b\<rparr> \<and>
    header_of (SetTransportPriority p b) = (header_of p)\<lparr>h_prio := b\<rparr> \<and>
    same_body (SetPID p i) p \<and> same_body (SetContinuityCounter p c) p \<and>
    same_body (SetTransportScramblingControl p t) p \<and> same_body (SetTransportErrorIndicator p b) p \<and>
    same_body (SetPayloadUnitStartIndicator p b) p \<and> same_body (SetTransportPriority p b) p"
  using assms by (simp add: pid.setf_upd cc.setf_upd tsc.setf_upd tei.setf_upd pusi.setf_upd
      prio.setf_upd pid.setf_body cc.setf_body tsc.setf_body tei.setf_body pusi.setf_body prio.setf_body)

lemma wf_New [simp]: "wf_packet New"
  by (simp add: New_def wf_packet_def)

lemma IncrementCC_header:
  "wf_packet p \<Longrightarrow> header_of (IncrementCC p) = (header_of p)\<lparr>h_cc := (h_cc (header_of p) + 1) mod 16\<rparr>"
  by (simp add: IncrementCC_eq IncContinuityCounter_def cc.setf_upd) (simp add: header_of_def)

lemma wf_IncrementCC: "wf_packet p \<Longrightarrow> wf_packet ((IncrementCC ^^ k) p)"
  by (induction k) (simp_all add: IncrementCC_eq IncContinuityCounter_def)

lemma cc_range: "h_cc (header_of p) mod 16 = h_cc (header_of p)"
proof -
  have "uint (take_bit 4 b) = uint b mod 16" for b :: byte
    by (simp only: unsigned_take_bit_eq) (simp add: take_bit_eq_mod)
  then show ?thesis by (simp add: header_of_def CC_alt)
qed

lemma IncrementCC_pow:
  assumes "wf_packet p"
  shows "header_of ((IncrementCC ^^ k) p) = (header_of p)\<lparr>h_cc := (h_cc (header_of p) + int k) mod 16\<rparr>
    \<and> same_body ((IncrementCC ^^ k) p) p"
proof (induction k)
  case 0
  show ?case by (simp add: cc_range same_body_def)
next
  case (Suc k)
  have "same_body (IncrementCC q) q" if "wf_packet q" for q
    using that by (simp add: IncrementCC_eq IncContinuityCounter_def cc.setf_body)
  from this [OF wf_IncrementCC [OF assms, of k]] Suc show ?case
    by (simp add: IncrementCC_header wf_IncrementCC assms same_body_def mod_simps ac_simps)
qed

text \<open>\<open>IncrementCC\<close> is a counter modulo 16 and changes nothing else: sixteen increments give the
  packet back, and no fewer do.\<close>

theorem IncrementCC_cycle:
  assumes "wf_packet p"
  shows "(IncrementCC ^^ k) p = p \<longleftrightarrow> 16 dvd k"
proof -
  let ?q = "(IncrementCC ^^ k) p" and ?c = "h_cc (header_of p)"
  have "?q = p \<longleftrightarrow> (?c + int k) mod 16 = ?c mod 16"
  proof
    assume "?q = p"
    with IncrementCC_pow [OF assms, of k] show "(?c + int k) mod 16 = ?c mod 16"
      by (metis cc_range header.select_convs(7) header.surjective header.update_convs(7))
  next
    assume "(?c + int k) mod 16 = ?c mod 16"
    with IncrementCC_pow [OF assms, of k] show "?q = p"
      by (intro packet_ext) (simp_all add: wf_IncrementCC assms cc_range)
  qed
  also have "\<dots> \<longleftrightarrow> 16 dvd k"
    by (simp add: mod_eq_dvd_iff flip: int_dvd_int_iff)
  finally show ?thesis .
qed

theorem IncrementCC_cycle_witness: "(IncrementCC ^^ 16) New = New \<and> (IncrementCC ^^ 15) New \<noteq> New"
  using IncrementCC_cycle [OF wf_New, of 16] IncrementCC_cycle [OF wf_New, of 15] by simp

text \<open>On a packet \<open>Payload\<close> never panics: it is \<open>ErrNoPayload\<close> exactly when the payload flag is
  off, \<open>ErrInvalidPacketLength\<close> exactly when the adaptation field length leads past the packet, and
  otherwise the bytes that complete \<open>Header\<close> to the packet.\<close>

theorem Payload_Header_split:
  assumes "wf_packet p"
  shows "(case Payload p of
      Ok pay \<Rightarrow> HasPayload p \<and> (\<exists>hdr. Header p = Ok hdr \<and> hdr @ pay = p \<and> length hdr = payloadStart p)
    | Err e \<Rightarrow> (e = ErrNoPayload \<and> \<not> HasPayload p) \<or>
        (e = ErrInvalidPacketLength \<and> HasPayload p \<and> Header p = Panic)
    | Panic \<Rightarrow> False)"
  using assms by (auto simp: Payload_def Header_def Let_def slice_def accessors_agree)

theorem Payload_Header_split_witness:
  "case Payload New of
      Ok pay \<Rightarrow> HasPayload New \<and> (\<exists>hdr. Header New = Ok hdr \<and> hdr @ pay = New \<and> length hdr = payloadStart New)
    | Err e \<Rightarrow> (e = ErrNoPayload \<and> \<not> HasPayload New) \<or>
        (e = ErrInvalidPacketLength \<and> HasPayload New \<and> Header New = Panic)
    | Panic \<Rightarrow> False"
  using Payload_Header_split [OF wf_New] .

end
