(* ===== verification/Packet_AF.thy ===== *)
theory Packet_AF
  imports Packet_Core Gots_Time
begin

text \<open>
  The adaptation field: \<^verbatim>\<open>gots/packet/adaptationfield.go\<close>.  The source views the packet itself as
  the adaptation field (\<^verbatim>\<open>type AdaptationField Packet\<close>): byte 4 is its length, byte 5 its flags,
  and the optional fields follow in a fixed order, each present when its flag is set.  A setter
  that fails leaves the packet as it was, so its model is the changed packet or the error.

  The field is refined to a record of its optional parts (\<open>af_view\<close>).
\<close>

section \<open>Flags\<close>

type_synonym AdaptationField = packet

definition AF_setBit :: "AdaptationField \<Rightarrow> nat \<Rightarrow> byte \<Rightarrow> bool \<Rightarrow> AdaptationField" where
  "AF_setBit af index msk value =
     (if value then af[index := af ! index OR msk] else af[index := af ! index AND NOT msk])"

definition AF_getBit :: "AdaptationField \<Rightarrow> nat \<Rightarrow> byte \<Rightarrow> bool" where
  "AF_getBit af index msk = (af ! index AND msk \<noteq> 0)"

definition AF_bitDelta :: "AdaptationField \<Rightarrow> nat \<Rightarrow> byte \<Rightarrow> bool \<Rightarrow> int" where
  "AF_bitDelta af index msk value =
     (if value = AF_getBit af index msk then 0 else if value then 1 else -1)"

definition AF_valid :: "AdaptationField \<Rightarrow> gots_error option" where
  "AF_valid af =
     (if \<not> AF_getBit af 3 0x20 then Some ErrNoAdaptationField
      else if af ! 4 = 0 then Some ErrAdaptationFieldZeroLength
      else None)"

text \<open>\<^verbatim>\<open>if err := af.valid(); err != nil { return err }\<close>\<close>

definition AF_checked :: "AdaptationField \<Rightarrow> 'a res \<Rightarrow> 'a res" where
  "AF_checked af k = (case AF_valid af of Some e \<Rightarrow> Err e | None \<Rightarrow> k)"

definition initAdaptationField :: "packet \<Rightarrow> packet" where
  "initAdaptationField p = fill 0xFF 6 (length p) (p[4 := 183, 5 := 0x00])"

definition AF_hasPCR :: "AdaptationField \<Rightarrow> bool" where
  "AF_hasPCR af = AF_getBit af 5 0x10"
definition AF_hasOPCR :: "AdaptationField \<Rightarrow> bool" where
  "AF_hasOPCR af = AF_getBit af 5 0x08"
definition AF_hasSplicingPoint :: "AdaptationField \<Rightarrow> bool" where
  "AF_hasSplicingPoint af = AF_getBit af 5 0x04"
definition AF_hasTransportPrivateData :: "AdaptationField \<Rightarrow> bool" where
  "AF_hasTransportPrivateData af = AF_getBit af 5 0x02"
definition AF_hasAdaptationFieldExtension :: "AdaptationField \<Rightarrow> bool" where
  "AF_hasAdaptationFieldExtension af = AF_getBit af 5 0x01"

section \<open>Layout\<close>

definition pcrStart :: nat where "pcrStart = 6"

definition AF_pcrLength :: "AdaptationField \<Rightarrow> nat" where
  "AF_pcrLength af = (if AF_hasPCR af then 6 else 0)"

definition AF_opcrLength :: "AdaptationField \<Rightarrow> nat" where
  "AF_opcrLength af = (if AF_hasOPCR af then 6 else 0)"

definition AF_opcrStart :: "AdaptationField \<Rightarrow> nat" where
  "AF_opcrStart af = pcrStart + AF_pcrLength af"

definition AF_spliceCountdownLength :: "AdaptationField \<Rightarrow> nat" where
  "AF_spliceCountdownLength af = (if AF_hasSplicingPoint af then 1 else 0)"

definition AF_spliceCountdownStart :: "AdaptationField \<Rightarrow> nat" where
  "AF_spliceCountdownStart af = pcrStart + AF_pcrLength af + AF_opcrLength af"

definition AF_transportPrivateDataStart :: "AdaptationField \<Rightarrow> nat" where
  "AF_transportPrivateDataStart af =
     pcrStart + AF_pcrLength af + AF_opcrLength af + AF_spliceCountdownLength af"

definition AF_transportPrivateDataLength :: "AdaptationField \<Rightarrow> nat" where
  "AF_transportPrivateDataLength af =
     (if \<not> AF_hasTransportPrivateData af then 0
      else if AF_transportPrivateDataStart af \<ge> PacketSize then 0
      else 1 + unat (af ! AF_transportPrivateDataStart af))"

definition AF_adaptationExtensionStart :: "AdaptationField \<Rightarrow> nat" where
  "AF_adaptationExtensionStart af =
     pcrStart + AF_pcrLength af + AF_opcrLength af + AF_spliceCountdownLength af
     + AF_transportPrivateDataLength af"

definition AF_adaptationExtensionLength :: "AdaptationField \<Rightarrow> nat" where
  "AF_adaptationExtensionLength af =
     (if \<not> AF_hasAdaptationFieldExtension af then 0
      else if AF_adaptationExtensionStart af \<ge> PacketSize then 0
      else 1 + unat (af ! AF_adaptationExtensionStart af))"

definition AF_stuffingStart :: "AdaptationField \<Rightarrow> nat" where
  "AF_stuffingStart af =
     pcrStart + AF_pcrLength af + AF_opcrLength af + AF_spliceCountdownLength af
     + AF_transportPrivateDataLength af + AF_adaptationExtensionLength af"

definition AF_stuffingEnd :: "AdaptationField \<Rightarrow> nat" where
  "AF_stuffingEnd af =
     (let stuffingEnd = unat (af ! 4) + 5
      in if stuffingEnd \<ge> PacketSize then PacketSize - 1 else stuffingEnd)"

definition AF_setLength :: "AdaptationField \<Rightarrow> int \<Rightarrow> AdaptationField" where
  "AF_setLength af len = af[4 := word_of_int len]"

definition AF_stuffAF :: "AdaptationField \<Rightarrow> AdaptationField" where
  "AF_stuffAF af = fill 0xFF (AF_stuffingStart af) (AF_stuffingEnd af) af"

text \<open>A copy between overlapping parts of the packet moves the old contents, as \<^verbatim>\<open>copy\<close> does.\<close>

definition AF_resizeAF :: "AdaptationField \<Rightarrow> nat \<Rightarrow> int \<Rightarrow> AdaptationField res" where
  "AF_resizeAF af start delta =
     (if delta > 0 then
        let end' = AF_stuffingStart af;
            startRight = start + nat delta;
            endRight = AF_stuffingStart af + nat delta
        in if AF_stuffingEnd af < endRight then Err ErrAdaptationFieldCannotGrow
           else res_bind (slice af start end') (\<lambda>src. copy_slice af startRight endRight src)
      else if delta < 0 then
        let startRight = start + nat (- delta);
            endRight = AF_stuffingStart af;
            end' = nat (int endRight + delta)
        in res_bind (slice af startRight endRight) (\<lambda>src.
           res_bind (copy_slice af start end' src) (\<lambda>af'. Ok (fill 0xFF end' endRight af')))
      else Ok af)"

definition AF_Length :: "AdaptationField \<Rightarrow> nat" where
  "AF_Length af = unat (af ! 4)"

section \<open>Flag accessors\<close>

definition AF_SetDiscontinuity :: "AdaptationField \<Rightarrow> bool \<Rightarrow> AdaptationField res" where
  "AF_SetDiscontinuity af value = AF_checked af (Ok (AF_setBit af 5 0x80 value))"
definition AF_Discontinuity :: "AdaptationField \<Rightarrow> bool res" where
  "AF_Discontinuity af = AF_checked af (Ok (AF_getBit af 5 0x80))"

definition AF_SetRandomAccess :: "AdaptationField \<Rightarrow> bool \<Rightarrow> AdaptationField res" where
  "AF_SetRandomAccess af value = AF_checked af (Ok (AF_setBit af 5 0x40 value))"
definition AF_RandomAccess :: "AdaptationField \<Rightarrow> bool res" where
  "AF_RandomAccess af = AF_checked af (Ok (AF_getBit af 5 0x40))"

definition AF_SetElementaryStreamPriority :: "AdaptationField \<Rightarrow> bool \<Rightarrow> AdaptationField res" where
  "AF_SetElementaryStreamPriority af value = AF_checked af (Ok (AF_setBit af 5 0x20 value))"
definition AF_ElementaryStreamPriority :: "AdaptationField \<Rightarrow> bool res" where
  "AF_ElementaryStreamPriority af = AF_checked af (Ok (AF_getBit af 5 0x20))"

section \<open>PCR and OPCR\<close>

definition AF_SetHasPCR :: "AdaptationField \<Rightarrow> bool \<Rightarrow> AdaptationField res" where
  "AF_SetHasPCR af value = AF_checked af
     (let delta = 6 * AF_bitDelta af 5 0x10 value
      in res_bind (AF_resizeAF af pcrStart delta) (\<lambda>af'. Ok (AF_setBit af' 5 0x10 value)))"

definition AF_HasPCR :: "AdaptationField \<Rightarrow> bool res" where
  "AF_HasPCR af = AF_checked af (Ok (AF_hasPCR af))"

definition AF_SetPCR :: "AdaptationField \<Rightarrow> u64 \<Rightarrow> AdaptationField res" where
  "AF_SetPCR af pcr = AF_checked af
     (if \<not> AF_hasPCR af then Err ErrNoPCR
      else res_bind (slice af pcrStart (AF_opcrStart af)) (\<lambda>b.
           res_bind (InsertPCR b pcr) (\<lambda>b'. copy_slice af pcrStart (AF_opcrStart af) b')))"

definition AF_PCR :: "AdaptationField \<Rightarrow> u64 res" where
  "AF_PCR af = AF_checked af
     (if \<not> AF_hasPCR af then Err ErrNoPCR
      else res_bind (slice af pcrStart (AF_opcrStart af)) ExtractPCR)"

definition AF_SetHasOPCR :: "AdaptationField \<Rightarrow> bool \<Rightarrow> AdaptationField res" where
  "AF_SetHasOPCR af value = AF_checked af
     (let delta = 6 * AF_bitDelta af 5 0x08 value
      in res_bind (AF_resizeAF af (AF_opcrStart af) delta) (\<lambda>af'. Ok (AF_setBit af' 5 0x08 value)))"

definition AF_HasOPCR :: "AdaptationField \<Rightarrow> bool res" where
  "AF_HasOPCR af = AF_checked af (Ok (AF_hasOPCR af))"

definition AF_SetOPCR :: "AdaptationField \<Rightarrow> u64 \<Rightarrow> AdaptationField res" where
  "AF_SetOPCR af pcr = AF_checked af
     (if \<not> AF_hasOPCR af then Err ErrNoOPCR
      else res_bind (slice af (AF_opcrStart af) (AF_spliceCountdownStart af)) (\<lambda>b.
           res_bind (InsertPCR b pcr) (\<lambda>b'.
             copy_slice af (AF_opcrStart af) (AF_spliceCountdownStart af) b')))"

definition AF_OPCR :: "AdaptationField \<Rightarrow> u64 res" where
  "AF_OPCR af = AF_checked af
     (if \<not> AF_hasOPCR af then Err ErrNoOPCR
      else res_bind (slice af (AF_opcrStart af) (AF_spliceCountdownStart af)) ExtractPCR)"

section \<open>Splice countdown\<close>

definition AF_SetHasSplicingPoint :: "AdaptationField \<Rightarrow> bool \<Rightarrow> AdaptationField res" where
  "AF_SetHasSplicingPoint af value = AF_checked af
     (let delta = 1 * AF_bitDelta af 5 0x04 value
      in res_bind (AF_resizeAF af (AF_spliceCountdownStart af) delta)
           (\<lambda>af'. Ok (AF_setBit af' 5 0x04 value)))"

definition AF_HasSplicingPoint :: "AdaptationField \<Rightarrow> bool res" where
  "AF_HasSplicingPoint af = AF_checked af (Ok (AF_hasSplicingPoint af))"

definition AF_SetSpliceCountdown :: "AdaptationField \<Rightarrow> byte \<Rightarrow> AdaptationField res" where
  "AF_SetSpliceCountdown af value = AF_checked af
     (if \<not> AF_hasSplicingPoint af then Err ErrNoSplicePoint
      else wr af (AF_spliceCountdownStart af) value)"

definition AF_SpliceCountdown :: "AdaptationField \<Rightarrow> int res" where
  "AF_SpliceCountdown af = AF_checked af
     (if \<not> AF_hasSplicingPoint af then Err ErrNoSplicePoint
      else res_bind (rd af (AF_spliceCountdownStart af)) (\<lambda>b. Ok (sint b)))"

section \<open>Transport private data\<close>

definition AF_SetHasTransportPrivateData :: "AdaptationField \<Rightarrow> bool \<Rightarrow> AdaptationField res" where
  "AF_SetHasTransportPrivateData af value = AF_checked af
     (let delta = 1 * AF_bitDelta af 5 0x02 value
      in res_bind (AF_resizeAF af (AF_transportPrivateDataStart af) delta) (\<lambda>af'.
         res_bind (wr af' (AF_transportPrivateDataStart af') 0) (\<lambda>af''.
           Ok (AF_setBit af'' 5 0x02 value))))"

definition AF_HasTransportPrivateData :: "AdaptationField \<Rightarrow> bool res" where
  "AF_HasTransportPrivateData af = AF_checked af (Ok (AF_hasTransportPrivateData af))"

definition AF_SetTransportPrivateData :: "AdaptationField \<Rightarrow> byte list \<Rightarrow> AdaptationField res" where
  "AF_SetTransportPrivateData af data = AF_checked af
     (if \<not> AF_hasTransportPrivateData af then Err ErrNoPrivateTransportData
      else let delta = int (length data) - (int (AF_transportPrivateDataLength af) - 1);
               start = AF_transportPrivateDataStart af + 1;
               end' = start + length data
           in res_bind (AF_resizeAF af start delta) (\<lambda>af'.
              res_bind (copy_slice af' start end' data) (\<lambda>af''.
                wr af'' (start - 1) (of_nat (length data)))))"

definition AF_TransportPrivateData :: "AdaptationField \<Rightarrow> byte list res" where
  "AF_TransportPrivateData af = res_bind (AF_HasTransportPrivateData af) (\<lambda>hasTPD.
     if \<not> hasTPD then Err ErrNoPrivateTransportData
     else slice af (AF_transportPrivateDataStart af) (AF_adaptationExtensionStart af))"

section \<open>Adaptation field extension\<close>

definition AF_SetHasAdaptationFieldExtension :: "AdaptationField \<Rightarrow> bool \<Rightarrow> AdaptationField res" where
  "AF_SetHasAdaptationFieldExtension af value = AF_checked af
     (let delta = 1 * AF_bitDelta af 5 0x01 value
      in res_bind (AF_resizeAF af (AF_adaptationExtensionStart af) delta) (\<lambda>af'.
         res_bind (wr af' (AF_adaptationExtensionStart af') 0) (\<lambda>af''.
           Ok (AF_setBit af'' 5 0x01 value))))"

definition AF_HasAdaptationFieldExtension :: "AdaptationField \<Rightarrow> bool res" where
  "AF_HasAdaptationFieldExtension af = AF_checked af (Ok (AF_hasAdaptationFieldExtension af))"

definition AF_SetAdaptationFieldExtension :: "AdaptationField \<Rightarrow> byte list \<Rightarrow> AdaptationField res" where
  "AF_SetAdaptationFieldExtension af data = AF_checked af
     (if \<not> AF_hasAdaptationFieldExtension af then Err ErrNoAdaptationFieldExtension
      else let delta = int (length data) - (int (AF_adaptationExtensionLength af) - 1);
               start = AF_adaptationExtensionStart af + 1;
               end' = start + length data
           in res_bind (AF_resizeAF af start delta) (\<lambda>af'.
              res_bind (copy_slice af' start end' data) (\<lambda>af''.
                wr af'' (start - 1) (of_nat (length data)))))"

definition AF_AdaptationFieldExtension :: "AdaptationField \<Rightarrow> byte list res" where
  "AF_AdaptationFieldExtension af = res_bind (AF_HasAdaptationFieldExtension af) (\<lambda>hasAFC.
     if \<not> hasAFC then Err ErrNoAdaptationFieldExtension
     else slice af (AF_adaptationExtensionStart af) (AF_stuffingStart af))"

section \<open>The field as a record\<close>

record af_view =
  v_pcr :: "byte list option"
  v_opcr :: "byte list option"
  v_splice :: "byte option"
  v_tpd :: "byte list option"
  v_ext :: "byte list option"

definition af_view :: "AdaptationField \<Rightarrow> af_view" where
  "af_view p = \<lparr>
     v_pcr = (if AF_hasPCR p then Some (take 6 (drop pcrStart p)) else None),
     v_opcr = (if AF_hasOPCR p then Some (take 6 (drop (AF_opcrStart p) p)) else None),
     v_splice = (if AF_hasSplicingPoint p then Some (p ! AF_spliceCountdownStart p) else None),
     v_tpd = (if AF_hasTransportPrivateData p
       then Some (take (AF_transportPrivateDataLength p - 1) (drop (AF_transportPrivateDataStart p + 1) p))
       else None),
     v_ext = (if AF_hasAdaptationFieldExtension p
       then Some (take (AF_adaptationExtensionLength p - 1) (drop (AF_adaptationExtensionStart p + 1) p))
       else None)\<rparr>"

text \<open>The field flag is on, the length is between 1 and 183, and the optional fields end within it.\<close>

definition af_ok :: "AdaptationField \<Rightarrow> bool" where
  "af_ok p \<longleftrightarrow> wf_packet p \<and> AF_valid p = None \<and> unat (p ! 4) \<le> 183 \<and>
     AF_stuffingStart p \<le> 5 + unat (p ! 4) \<and>
     (AF_hasAdaptationFieldExtension p \<longrightarrow> AF_adaptationExtensionStart p < 5 + unat (p ! 4))"

fun opt_bytes :: "byte list option \<Rightarrow> byte list" where
  "opt_bytes None = []"
| "opt_bytes (Some x) = x"

fun opt_byte :: "byte option \<Rightarrow> byte list" where
  "opt_byte None = []"
| "opt_byte (Some x) = [x]"

fun len_bytes :: "byte list option \<Rightarrow> byte list" where
  "len_bytes None = []"
| "len_bytes (Some d) = of_nat (length d) # d"

definition af_bytes :: "af_view \<Rightarrow> byte list" where
  "af_bytes v = opt_bytes (v_pcr v) @ opt_bytes (v_opcr v) @ opt_byte (v_splice v)
     @ len_bytes (v_tpd v) @ len_bytes (v_ext v)"

definition view_ok :: "af_view \<Rightarrow> bool" where
  "view_ok v \<longleftrightarrow> (\<forall>x. v_pcr v = Some x \<longrightarrow> length x = 6) \<and> (\<forall>x. v_opcr v = Some x \<longrightarrow> length x = 6) \<and>
     (\<forall>x. v_tpd v = Some x \<longrightarrow> length x < 256) \<and> (\<forall>x. v_ext v = Some x \<longrightarrow> length x < 256)"

definition flags_match :: "byte \<Rightarrow> af_view \<Rightarrow> bool" where
  "flags_match fl v \<longleftrightarrow> bit fl 4 = (v_pcr v \<noteq> None) \<and> bit fl 3 = (v_opcr v \<noteq> None) \<and>
     bit fl 2 = (v_splice v \<noteq> None) \<and> bit fl 1 = (v_tpd v \<noteq> None) \<and> bit fl 0 = (v_ext v \<noteq> None)"

definition af_repr :: "AdaptationField \<Rightarrow> byte list \<Rightarrow> byte \<Rightarrow> af_view \<Rightarrow> byte list \<Rightarrow> bool" where
  "af_repr p hb fl v rest \<longleftrightarrow> p = hb @ fl # af_bytes v @ rest \<and> length hb = 5 \<and> length p = 188 \<and>
     view_ok v \<and> flags_match fl v"

lemma af_flag_bits:
  "AF_hasPCR p \<longleftrightarrow> bit (p ! 5) 4" "AF_hasOPCR p \<longleftrightarrow> bit (p ! 5) 3"
  "AF_hasSplicingPoint p \<longleftrightarrow> bit (p ! 5) 2" "AF_hasTransportPrivateData p \<longleftrightarrow> bit (p ! 5) 1"
  "AF_hasAdaptationFieldExtension p \<longleftrightarrow> bit (p ! 5) 0"
  by (simp_all only: AF_hasPCR_def AF_hasOPCR_def AF_hasSplicingPoint_def
      AF_hasTransportPrivateData_def AF_hasAdaptationFieldExtension_def AF_getBit_def and_single_bit)

lemma length_len_bytes: "length (len_bytes x) = (case x of None \<Rightarrow> 0 | Some d \<Rightarrow> 1 + length d)"
  by (cases x) simp_all

lemma unat_byte_of_nat: "n < 256 \<Longrightarrow> unat (of_nat n :: byte) = n"
  by (simp add: unat_of_nat)

lemma tpd_start_le: "AF_transportPrivateDataStart p \<le> 19"
  by (simp add: AF_transportPrivateDataStart_def pcrStart_def AF_pcrLength_def AF_opcrLength_def
      AF_spliceCountdownLength_def)

lemma af_repr_layout:
  assumes "af_repr p hb fl v rest"
  shows "AF_pcrLength p = length (opt_bytes (v_pcr v))"
    "AF_opcrLength p = length (opt_bytes (v_opcr v))"
    "AF_spliceCountdownLength p = length (opt_byte (v_splice v))"
    "AF_transportPrivateDataLength p = length (len_bytes (v_tpd v))"
    "AF_adaptationExtensionLength p = length (len_bytes (v_ext v))"
    "AF_stuffingStart p = 6 + length (af_bytes v)"
proof -
  from assms have p: "p = hb @ fl # af_bytes v @ rest" "length hb = 5" "length p = 188"
    "view_ok v" "flags_match fl v" by (auto simp: af_repr_def)
  from p(1,2) have fl: "p ! 5 = fl" by (simp add: nth_append)
  show 1: "AF_pcrLength p = length (opt_bytes (v_pcr v))"
    "AF_opcrLength p = length (opt_bytes (v_opcr v))"
    "AF_spliceCountdownLength p = length (opt_byte (v_splice v))"
    using p(4,5) by (auto simp: AF_pcrLength_def AF_opcrLength_def AF_spliceCountdownLength_def
        af_flag_bits fl flags_match_def view_ok_def)
  let ?A = "hb @ fl # opt_bytes (v_pcr v) @ opt_bytes (v_opcr v) @ opt_byte (v_splice v)"
  have sA: "AF_transportPrivateDataStart p = length ?A"
    using p(2) 1 by (simp add: AF_transportPrivateDataStart_def pcrStart_def)
  have pA: "p = ?A @ len_bytes (v_tpd v) @ len_bytes (v_ext v) @ rest"
    using p(1) by (simp add: af_bytes_def)
  have l19: "AF_transportPrivateDataStart p < PacketSize"
    using tpd_start_le [of p] by (simp add: PacketSize_def)
  show 2: "AF_transportPrivateDataLength p = length (len_bytes (v_tpd v))"
  proof (cases "v_tpd v")
    case None
    with p(5) show ?thesis by (simp add: AF_transportPrivateDataLength_def af_flag_bits fl flags_match_def)
  next
    case (Some d)
    have "p ! AF_transportPrivateDataStart p = of_nat (length d)"
      unfolding sA by (subst pA) (simp only: Some len_bytes.simps append_Cons nth_append_length)
    moreover have "length d < 256" using p(4) Some by (simp add: view_ok_def)
    ultimately show ?thesis
      using l19 p(5) Some by (simp add: AF_transportPrivateDataLength_def af_flag_bits fl flags_match_def
          unat_byte_of_nat)
  qed
  let ?B = "?A @ len_bytes (v_tpd v)"
  have sB: "AF_adaptationExtensionStart p = length ?B"
    using p(2) 1 2 by (simp add: AF_adaptationExtensionStart_def pcrStart_def)
  have pB: "p = ?B @ len_bytes (v_ext v) @ rest" using pA by simp
  show 3: "AF_adaptationExtensionLength p = length (len_bytes (v_ext v))"
  proof (cases "v_ext v")
    case None
    with p(5) show ?thesis by (simp add: AF_adaptationExtensionLength_def af_flag_bits fl flags_match_def)
  next
    case (Some d)
    have "p ! AF_adaptationExtensionStart p = of_nat (length d)"
      unfolding sB by (subst pB) (simp only: Some len_bytes.simps append_Cons nth_append_length)
    moreover have "length d < 256" using p(4) Some by (simp add: view_ok_def)
    moreover have "AF_adaptationExtensionStart p < PacketSize"
    proof -
      have "length p = length ?B + length (len_bytes (v_ext v)) + length rest" by (subst pB) simp
      with p(3) Some show ?thesis by (simp add: sB PacketSize_def)
    qed
    ultimately show ?thesis
      using p(5) Some by (simp add: AF_adaptationExtensionLength_def af_flag_bits fl flags_match_def
          unat_byte_of_nat)
  qed
  show "AF_stuffingStart p = 6 + length (af_bytes v)"
    using 1 2 3 by (simp add: AF_stuffingStart_def pcrStart_def af_bytes_def)
qed

lemma af_repr_view:
  assumes "af_repr p hb fl v rest"
  shows "af_view p = v"
proof -
  note lay = af_repr_layout [OF assms]
  from assms have p: "p = hb @ fl # af_bytes v @ rest" "length hb = 5"
    "view_ok v" "flags_match fl v" by (auto simp: af_repr_def)
  from p(1,2) have fl: "p ! 5 = fl" by (simp add: nth_append)
  have d6: "drop 6 p = af_bytes v @ rest" using p(1,2) by simp
  have dn: "drop (6 + n) p = drop n (af_bytes v @ rest)" for n
    by (metis d6 drop_drop add.commute)
  have "v_pcr (af_view p) = v_pcr v"
    using p(3,4) d6 by (auto simp: af_view_def af_flag_bits fl flags_match_def pcrStart_def af_bytes_def view_ok_def)
  moreover have "v_opcr (af_view p) = v_opcr v"
    using p(3,4) by (auto simp: af_view_def af_flag_bits fl flags_match_def AF_opcrStart_def pcrStart_def
        lay dn af_bytes_def view_ok_def)
  moreover have "v_splice (af_view p) = v_splice v"
  proof (cases "v_splice v")
    case (Some b)
    let ?A = "hb @ fl # opt_bytes (v_pcr v) @ opt_bytes (v_opcr v)"
    have "p = ?A @ b # len_bytes (v_tpd v) @ len_bytes (v_ext v) @ rest"
      using p(1) Some by (simp add: af_bytes_def)
    moreover have "AF_spliceCountdownStart p = length ?A"
      using p(2) lay by (simp add: AF_spliceCountdownStart_def pcrStart_def)
    ultimately have "p ! AF_spliceCountdownStart p = b" by (metis nth_append_length)
    with p(4) Some show ?thesis by (simp add: af_view_def af_flag_bits fl flags_match_def)
  qed (use p(4) in \<open>simp add: af_view_def af_flag_bits fl flags_match_def\<close>)
  moreover have "v_tpd (af_view p) = v_tpd v"
  proof (cases "v_tpd v")
    case (Some d)
    have "AF_transportPrivateDataStart p + 1 = 6 + (length (opt_bytes (v_pcr v)) +
        length (opt_bytes (v_opcr v)) + length (opt_byte (v_splice v)) + 1)"
      using lay by (simp add: AF_transportPrivateDataStart_def pcrStart_def)
    then have "drop (AF_transportPrivateDataStart p + 1) p = d @ len_bytes (v_ext v) @ rest"
      unfolding dn by (simp only: dn) (simp add: af_bytes_def Some)
    with p(4) Some show ?thesis by (simp add: af_view_def af_flag_bits fl flags_match_def lay)
  qed (use p(4) in \<open>simp add: af_view_def af_flag_bits fl flags_match_def\<close>)
  moreover have "v_ext (af_view p) = v_ext v"
  proof (cases "v_ext v")
    case (Some d)
    have "AF_adaptationExtensionStart p + 1 = 6 + (length (opt_bytes (v_pcr v)) +
        length (opt_bytes (v_opcr v)) + length (opt_byte (v_splice v)) + length (len_bytes (v_tpd v)) + 1)"
      using lay by (simp add: AF_adaptationExtensionStart_def pcrStart_def)
    then have "drop (AF_adaptationExtensionStart p + 1) p = d @ rest"
      unfolding dn by (simp only: dn) (simp add: af_bytes_def Some)
    with p(4) Some show ?thesis by (simp add: af_view_def af_flag_bits fl flags_match_def lay)
  qed (use p(4) in \<open>simp add: af_view_def af_flag_bits fl flags_match_def\<close>)
  ultimately show ?thesis by simp
qed

lemma take_drop_chunk: "drop i xs = take n (drop i xs) @ drop (i + n) xs"
  by (metis append_take_drop_id drop_drop add.commute)

lemma len_chunk:
  assumes "i + 1 + unat (xs ! i) \<le> length (xs :: byte list)"
  shows "drop i xs = len_bytes (Some (take (unat (xs ! i)) (drop (i + 1) xs))) @ drop (i + (1 + unat (xs ! i))) xs"
proof -
  have "drop i xs = xs ! i # drop (i + 1) xs" using assms by (simp add: Cons_nth_drop_Suc)
  moreover have "length (take (unat (xs ! i)) (drop (i + 1) xs)) = unat (xs ! i)" using assms by simp
  moreover have "drop (i + 1) xs = take (unat (xs ! i)) (drop (i + 1) xs) @ drop (i + (1 + unat (xs ! i))) xs"
    using take_drop_chunk [of "i + 1" xs "unat (xs ! i)"] by (simp add: add.assoc)
  ultimately show ?thesis by simp
qed

lemma byte_unat_less: "unat (b :: byte) < 256"
  using unsigned_less [of b] by simp

lemma af_repr_exists:
  assumes "length p = 188" "AF_stuffingStart p \<le> 188"
    and "AF_hasAdaptationFieldExtension p \<Longrightarrow> AF_adaptationExtensionStart p < 188"
  shows "af_repr p (take 5 p) (p ! 5) (af_view p) (drop (AF_stuffingStart p) p)"
proof -
  let ?v = "af_view p"
  have m: "flags_match (p ! 5) ?v" by (simp add: flags_match_def af_view_def af_flag_bits)
  have ok: "view_ok ?v"
    using assms(1) byte_unat_less
    by (auto simp: view_ok_def af_view_def pcrStart_def AF_opcrStart_def AF_pcrLength_def min_def
        AF_transportPrivateDataLength_def AF_adaptationExtensionLength_def)
  have lt: "AF_transportPrivateDataStart p < PacketSize"
    using tpd_start_le [of p] by (simp add: PacketSize_def)
  have c1: "drop pcrStart p = opt_bytes (v_pcr ?v) @ drop (AF_opcrStart p) p"
    using take_drop_chunk [of pcrStart p 6] by (simp add: af_view_def AF_opcrStart_def AF_pcrLength_def)
  have c2: "drop (AF_opcrStart p) p = opt_bytes (v_opcr ?v) @ drop (AF_spliceCountdownStart p) p"
    using take_drop_chunk [of "AF_opcrStart p" p 6]
    by (simp add: af_view_def AF_opcrStart_def AF_spliceCountdownStart_def AF_opcrLength_def)
  have ts: "AF_transportPrivateDataStart p = AF_spliceCountdownStart p + AF_spliceCountdownLength p"
    by (simp add: AF_transportPrivateDataStart_def AF_spliceCountdownStart_def)
  have c3: "drop (AF_spliceCountdownStart p) p = opt_byte (v_splice ?v) @ drop (AF_transportPrivateDataStart p) p"
    using tpd_start_le [of p] assms(1)
    by (simp add: ts af_view_def AF_spliceCountdownLength_def Cons_nth_drop_Suc)
  have es: "AF_adaptationExtensionStart p = AF_transportPrivateDataStart p + AF_transportPrivateDataLength p"
    by (simp add: AF_transportPrivateDataStart_def AF_adaptationExtensionStart_def)
  have ss: "AF_stuffingStart p = AF_adaptationExtensionStart p + AF_adaptationExtensionLength p"
    by (simp add: AF_stuffingStart_def AF_adaptationExtensionStart_def)
  have c4: "drop (AF_transportPrivateDataStart p) p = len_bytes (v_tpd ?v) @ drop (AF_adaptationExtensionStart p) p"
    using len_chunk [of "AF_transportPrivateDataStart p" p] assms lt
    by (cases "AF_hasTransportPrivateData p")
      (simp_all add: es ss af_view_def AF_transportPrivateDataLength_def del: len_bytes.simps(2))
  have c5: "drop (AF_adaptationExtensionStart p) p = len_bytes (v_ext ?v) @ drop (AF_stuffingStart p) p"
  proof (cases "AF_hasAdaptationFieldExtension p \<and> AF_adaptationExtensionStart p < PacketSize")
    case True
    with len_chunk [of "AF_adaptationExtensionStart p" p] assms show ?thesis
      by (simp add: ss af_view_def AF_adaptationExtensionLength_def del: len_bytes.simps(2))
  next
    case False
    with assms(3) show ?thesis
      by (auto simp add: ss af_view_def AF_adaptationExtensionLength_def PacketSize_def)
  qed
  have "drop 6 p = af_bytes ?v @ drop (AF_stuffingStart p) p"
    using c1 c2 c3 c4 c5 by (simp add: af_bytes_def pcrStart_def)
  moreover have "p = take 5 p @ p ! 5 # drop 6 p"
    using assms(1) id_take_nth_drop [of 5 p] by simp
  ultimately show ?thesis using m ok assms(1) by (simp add: af_repr_def)
qed

section \<open>Moving the fields\<close>

lemma resize_grow:
  assumes p: "p = P @ B @ R" and st: "AF_stuffingStart p = length (P @ B)"
    and d: "0 < d" "AF_stuffingStart p + d \<le> AF_stuffingEnd p" "AF_stuffingEnd p \<le> length p"
  shows "AF_resizeAF p (length P) (int d) = Ok (P @ take d (B @ R) @ B @ drop d R)"
proof -
  have dr: "d \<le> length R" using p st d by simp
  have src: "slice p (length P) (AF_stuffingStart p) = Ok B"
    using p st by (simp add: slice_def)
  have "copy_slice p (length P + d) (AF_stuffingStart p + d) B = Ok (go_copy p (length P + d) B)"
    using p st d by (simp add: copy_slice_def)
  moreover have "go_copy p (length P + d) B = P @ take d (B @ R) @ B @ drop d R"
  proof -
    have "take (length P + d) p = P @ take d (B @ R)" unfolding p by simp
    moreover have "drop (length P + d + length B) p = drop d R" unfolding p by (simp add: add.commute add.left_commute)
    moreover have "length B \<le> length p - (length P + d)" using p dr by simp
    ultimately show ?thesis by (simp add: go_copy_def)
  qed
  ultimately show ?thesis
    using d src by (simp add: AF_resizeAF_def Let_def)
qed

lemma resize_full:
  "0 < d \<Longrightarrow> AF_stuffingEnd p < AF_stuffingStart p + d \<Longrightarrow>
     AF_resizeAF p start (int d) = Err ErrAdaptationFieldCannotGrow"
  by (simp add: AF_resizeAF_def Let_def)

lemma fill_replicate:
  assumes "xs = A @ X @ B" "a = length A" "b = length A + length X"
  shows "fill v a b xs = A @ replicate (length X) v @ B"
  by (rule nth_equalityI) (use assms in \<open>auto simp: nth_fill nth_append\<close>)

lemma resize_shrink:
  assumes p: "p = P @ X @ B @ R" and st: "AF_stuffingStart p = length (P @ X @ B)" and d: "X \<noteq> []"
  shows "AF_resizeAF p (length P) (- int (length X)) = Ok (P @ B @ replicate (length X) 0xFF @ R)"
proof -
  let ?d = "length X"
  have src: "slice p (length P + ?d) (AF_stuffingStart p) = Ok B"
    using p st by (simp add: slice_def)
  have e: "nat (int (AF_stuffingStart p) + - int ?d) = length P + length B" using st by simp
  have "copy_slice p (length P) (length P + length B) B = Ok (go_copy p (length P) B)"
    using p by (simp add: copy_slice_def)
  moreover have "go_copy p (length P) B = P @ B @ drop (length B) (X @ B) @ R"
    unfolding p by (simp add: go_copy_def)
  moreover have "fill 0xFF (length P + length B) (AF_stuffingStart p) (P @ B @ drop (length B) (X @ B) @ R)
      = (P @ B) @ replicate (length (drop (length B) (X @ B))) 0xFF @ R"
    by (rule fill_replicate) (use st in simp_all)
  ultimately show ?thesis
    using d src e by (simp add: AF_resizeAF_def Let_def del: append_assoc drop_append)
qed

lemma resize_zero: "AF_resizeAF p start 0 = Ok p"
  by (simp add: AF_resizeAF_def)

text \<open>The parts of the packet that no operation on an optional field may change: the header and
  length, the three other flags, and the payload.\<close>

definition same_outside :: "packet \<Rightarrow> packet \<Rightarrow> bool" where
  "same_outside p q \<longleftrightarrow> take 5 q = take 5 p \<and> drop (5 + unat (p ! 4)) q = drop (5 + unat (p ! 4)) p \<and>
     drop_bit 5 (q ! 5) = drop_bit 5 (p ! 5)"

lemma af_okD:
  assumes "af_ok p"
  shows "length p = 188" "p ! 4 \<noteq> 0" "bit (p ! 3) 5" "unat (p ! 4) \<le> 183" "AF_valid p = None"
    "AF_stuffingStart p \<le> 5 + unat (p ! 4)" "AF_checked p k = k"
    "AF_stuffingEnd p \<le> length p" "AF_stuffingEnd p \<le> 5 + unat (p ! 4)"
    "af_repr p (take 5 p) (p ! 5) (af_view p) (drop (AF_stuffingStart p) p)"
proof -
  from assms show l: "length p = 188" "AF_valid p = None" "unat (p ! 4) \<le> 183"
    "AF_stuffingStart p \<le> 5 + unat (p ! 4)"
    by (auto simp: af_ok_def)
  from l(2) show "p ! 4 \<noteq> 0" "bit (p ! 3) 5" "AF_checked p k = k"
    by (simp_all add: AF_valid_def AF_checked_def AF_getBit_def and_single_bit split: if_splits)
  from l show "AF_stuffingEnd p \<le> length p" "AF_stuffingEnd p \<le> 5 + unat (p ! 4)"
    by (simp_all add: AF_stuffingEnd_def PacketSize_def Let_def)
  from assms l show "af_repr p (take 5 p) (p ! 5) (af_view p) (drop (AF_stuffingStart p) p)"
    by (intro af_repr_exists) (auto simp: af_ok_def)
qed

lemma af_rebuild_ok:
  assumes ok: "af_ok p" and q: "q = take 5 p @ fl # af_bytes v @ rest" "length q = 188"
    and v: "view_ok v" "flags_match fl v" "6 + length (af_bytes v) \<le> 5 + unat (p ! 4)"
  shows "af_ok q" "af_view q = v" "AF_stuffingStart q = 6 + length (af_bytes v)"
proof -
  note o = af_okD [OF ok]
  have r: "af_repr q (take 5 p) fl v rest" using q v o(1) by (simp add: af_repr_def)
  note lay = af_repr_layout [OF r]
  show "AF_stuffingStart q = 6 + length (af_bytes v)" by (rule lay(6))
  have n: "q ! 4 = p ! 4" "q ! 3 = p ! 3" "q ! 5 = fl" using q(1) o(1) by (simp_all add: nth_append)
  have "AF_valid q = None"
    using o(2,3) n by (simp add: AF_valid_def AF_getBit_def and_single_bit)
  moreover have "AF_adaptationExtensionStart q < 5 + unat (q ! 4)" if "AF_hasAdaptationFieldExtension q"
  proof -
    from that v(2) n have "v_ext v \<noteq> None" by (simp add: af_flag_bits flags_match_def)
    then have "0 < AF_adaptationExtensionLength q" by (auto simp: lay)
    moreover have "AF_stuffingStart q = AF_adaptationExtensionStart q + AF_adaptationExtensionLength q"
      by (simp add: AF_stuffingStart_def AF_adaptationExtensionStart_def)
    ultimately show ?thesis using lay(6) v(3) n by simp
  qed
  ultimately show "af_ok q"
    using q(2) o n lay v(3) by (auto simp: af_ok_def wf_packet_def PacketSize_def)
  show "af_view q = v" by (rule af_repr_view [OF r])
qed

lemma af_rebuild:
  assumes ok: "af_ok p" and q: "q = take 5 p @ fl # af_bytes v @ rest" "length q = 188"
    and v: "view_ok v" "flags_match fl v" "6 + length (af_bytes v) \<le> 5 + unat (p ! 4)"
    and fr: "drop (5 + unat (p ! 4)) q = drop (5 + unat (p ! 4)) p" "drop_bit 5 fl = drop_bit 5 (p ! 5)"
  shows "af_ok q \<and> af_view q = v \<and> same_outside p q"
proof -
  have "q ! 5 = fl" using q(1) af_okD(1) [OF ok] by (simp add: nth_append)
  then have "same_outside p q"
    using q(1) af_okD(1) [OF ok] fr by (simp add: same_outside_def)
  then show ?thesis using af_rebuild_ok(1,2) [OF ok q v] by simp
qed

lemma af_grow:
  assumes ok: "af_ok p" and ab: "af_bytes (af_view p) = A @ B"
    and d: "0 < d" "AF_stuffingStart p + d \<le> AF_stuffingEnd p"
  obtains X R where "AF_resizeAF p (6 + length A) (int d) = Ok (take 5 p @ p ! 5 # A @ X @ B @ R)"
    "length X = d"
    "\<And>fl X' v. length X' = d \<Longrightarrow> af_bytes v = A @ X' @ B \<Longrightarrow> view_ok v \<Longrightarrow> flags_match fl v \<Longrightarrow>
      drop_bit 5 fl = drop_bit 5 (p ! 5) \<Longrightarrow>
      af_ok (take 5 p @ fl # A @ X' @ B @ R) \<and> af_view (take 5 p @ fl # A @ X' @ B @ R) = v \<and>
      same_outside p (take 5 p @ fl # A @ X' @ B @ R)"
proof -
  note o = af_okD [OF ok]
  let ?rest = "drop (AF_stuffingStart p) p"
  let ?P = "take 5 p @ p ! 5 # A"
  have p: "p = ?P @ B @ ?rest" using o(10) by (simp add: af_repr_def ab)
  have st: "AF_stuffingStart p = length (?P @ B)"
    using af_repr_layout(6) [OF o(10)] o(1) ab by simp
  have "AF_resizeAF p (length ?P) (int d) = Ok (?P @ take d (B @ ?rest) @ B @ drop d ?rest)"
    by (rule resize_grow [OF p st]) (use d o in simp_all)
  moreover have "length ?P = 6 + length A" using o(1) by simp
  ultimately have 1: "AF_resizeAF p (6 + length A) (int d) =
      Ok (take 5 p @ p ! 5 # A @ take d (B @ ?rest) @ B @ drop d ?rest)" by simp
  have 2: "length (take d (B @ ?rest)) = d" using d o by simp
  have 3: "af_ok (take 5 p @ fl # A @ X' @ B @ drop d ?rest) \<and>
      af_view (take 5 p @ fl # A @ X' @ B @ drop d ?rest) = v \<and>
      same_outside p (take 5 p @ fl # A @ X' @ B @ drop d ?rest)"
    if h: "length X' = d" "af_bytes v = A @ X' @ B" "view_ok v" "flags_match fl v"
      "drop_bit 5 fl = drop_bit 5 (p ! 5)" for fl X' v
  proof (rule af_rebuild [OF ok])
    show "take 5 p @ fl # A @ X' @ B @ drop d ?rest = take 5 p @ fl # af_bytes v @ drop d ?rest"
      using h(2) by simp
    have le: "length (take 5 p @ fl # A @ X' @ B) = AF_stuffingStart p + d"
      using st h(1) o(1) by simp
    show "length (take 5 p @ fl # A @ X' @ B @ drop d ?rest) = 188"
      using le st d o by simp
    show "6 + length (af_bytes v) \<le> 5 + unat (p ! 4)" using le h(2) o d by simp
    have "drop (5 + unat (p ! 4)) ((take 5 p @ fl # A @ X' @ B) @ drop d ?rest) =
        drop (5 + unat (p ! 4) - (AF_stuffingStart p + d)) (drop d ?rest)"
      using le d o by (simp only: drop_append) simp
    also have "\<dots> = drop (5 + unat (p ! 4)) p"
      using d o by simp
    finally show "drop (5 + unat (p ! 4)) (take 5 p @ fl # A @ X' @ B @ drop d ?rest) =
        drop (5 + unat (p ! 4)) p" by simp
  qed (use h in simp_all)
  from that [OF 1 2 3] show ?thesis .
qed

lemma af_shrink:
  assumes ok: "af_ok p" and ab: "af_bytes (af_view p) = A @ X @ B" and X: "X \<noteq> []"
  shows "\<exists>R. AF_resizeAF p (6 + length A) (- int (length X)) = Ok (take 5 p @ p ! 5 # A @ B @ R) \<and>
    (\<forall>fl v. af_bytes v = A @ B \<longrightarrow> view_ok v \<longrightarrow> flags_match fl v \<longrightarrow>
      drop_bit 5 fl = drop_bit 5 (p ! 5) \<longrightarrow>
      af_ok (take 5 p @ fl # A @ B @ R) \<and> af_view (take 5 p @ fl # A @ B @ R) = v \<and>
      same_outside p (take 5 p @ fl # A @ B @ R))"
proof -
  note o = af_okD [OF ok]
  let ?rest = "drop (AF_stuffingStart p) p"
  let ?P = "take 5 p @ p ! 5 # A"
  let ?R = "replicate (length X) 0xFF @ ?rest"
  have p: "p = ?P @ X @ B @ ?rest" using o(10) by (simp add: af_repr_def ab)
  have st: "AF_stuffingStart p = length (?P @ X @ B)"
    using af_repr_layout(6) [OF o(10)] o(1) ab by simp
  have "length ?P = 6 + length A" using o(1) by simp
  with resize_shrink [OF p st X] have 1: "AF_resizeAF p (6 + length A) (- int (length X)) =
      Ok (take 5 p @ p ! 5 # A @ B @ ?R)" by simp
  have 3: "af_ok (take 5 p @ fl # A @ B @ ?R) \<and> af_view (take 5 p @ fl # A @ B @ ?R) = v \<and>
      same_outside p (take 5 p @ fl # A @ B @ ?R)"
    if h: "af_bytes v = A @ B" "view_ok v" "flags_match fl v" "drop_bit 5 fl = drop_bit 5 (p ! 5)" for fl v
  proof (rule af_rebuild [OF ok])
    show "take 5 p @ fl # A @ B @ ?R = take 5 p @ fl # af_bytes v @ ?R" using h by simp
    show "length (take 5 p @ fl # A @ B @ ?R) = 188" using st o by simp
    show "6 + length (af_bytes v) \<le> 5 + unat (p ! 4)" using st h o by simp
    have le: "length (take 5 p @ fl # A @ B @ replicate (length X) 0xFF) = AF_stuffingStart p"
      using st o(1) by simp
    have "drop (5 + unat (p ! 4)) ((take 5 p @ fl # A @ B @ replicate (length X) 0xFF) @ ?rest) =
        drop (5 + unat (p ! 4) - AF_stuffingStart p) ?rest"
      using le o by (simp only: drop_append) simp
    also have "\<dots> = drop (5 + unat (p ! 4)) p" using o by simp
    finally show "drop (5 + unat (p ! 4)) (take 5 p @ fl # A @ B @ ?R) = drop (5 + unat (p ! 4)) p" by simp
  qed (use h in simp_all)
  from 1 3 show ?thesis by blast
qed

section \<open>The flag byte\<close>

definition flag_byte :: "byte \<Rightarrow> byte \<Rightarrow> bool \<Rightarrow> byte" where
  "flag_byte fl m b = (if b then fl OR m else fl AND NOT m)"

lemma setBit_repr: "length hb = 5 \<Longrightarrow> AF_setBit (hb @ fl # xs) 5 m b = hb @ flag_byte fl m b # xs"
  by (simp add: AF_setBit_def flag_byte_def nth_append list_update_append)

lemma bit_flag_byte:
  "bit (flag_byte fl 0x10 b) n \<longleftrightarrow> (if n = 4 then b else bit fl n)"
  "bit (flag_byte fl 0x08 b) n \<longleftrightarrow> (if n = 3 then b else bit fl n)"
  "bit (flag_byte fl 0x04 b) n \<longleftrightarrow> (if n = 2 then b else bit fl n)"
  "bit (flag_byte fl 0x02 b) n \<longleftrightarrow> (if n = 1 then b else bit fl n)"
  "bit (flag_byte fl 0x01 b) n \<longleftrightarrow> (if n = 0 then b else bit fl n)"
  unfolding flag_byte_def by (auto simp only: bit_flag simp_thms split: if_split)

lemma high_flag_byte:
  "drop_bit 5 (flag_byte fl 0x10 b) = drop_bit 5 fl" "drop_bit 5 (flag_byte fl 0x08 b) = drop_bit 5 fl"
  "drop_bit 5 (flag_byte fl 0x04 b) = drop_bit 5 fl" "drop_bit 5 (flag_byte fl 0x02 b) = drop_bit 5 fl"
  "drop_bit 5 (flag_byte fl 0x01 b) = drop_bit 5 fl"
  by (rule bit_word_eqI; simp add: bit_drop_bit_eq bit_flag_byte)+

lemma bitDelta_bits:
  "AF_bitDelta p 5 0x10 b = (if b = AF_hasPCR p then 0 else if b then 1 else -1)"
  "AF_bitDelta p 5 0x08 b = (if b = AF_hasOPCR p then 0 else if b then 1 else -1)"
  "AF_bitDelta p 5 0x04 b = (if b = AF_hasSplicingPoint p then 0 else if b then 1 else -1)"
  "AF_bitDelta p 5 0x02 b = (if b = AF_hasTransportPrivateData p then 0 else if b then 1 else -1)"
  "AF_bitDelta p 5 0x01 b = (if b = AF_hasAdaptationFieldExtension p then 0 else if b then 1 else -1)"
  by (simp_all add: AF_bitDelta_def AF_hasPCR_def AF_hasOPCR_def AF_hasSplicingPoint_def
      AF_hasTransportPrivateData_def AF_hasAdaptationFieldExtension_def)

lemma view_has:
  "v_pcr (af_view p) \<noteq> None \<longleftrightarrow> AF_hasPCR p" "v_opcr (af_view p) \<noteq> None \<longleftrightarrow> AF_hasOPCR p"
  "v_splice (af_view p) \<noteq> None \<longleftrightarrow> AF_hasSplicingPoint p"
  "v_tpd (af_view p) \<noteq> None \<longleftrightarrow> AF_hasTransportPrivateData p"
  "v_ext (af_view p) \<noteq> None \<longleftrightarrow> AF_hasAdaptationFieldExtension p"
  by (simp_all add: af_view_def)

lemma setBit_same: "AF_getBit p i m = b \<Longrightarrow> m \<in> {0x10, 0x08, 0x04, 0x02, 0x01} \<Longrightarrow> AF_setBit p i m b = p"
proof -
  assume g: "AF_getBit p i m = b" and m: "m \<in> {0x10, 0x08, 0x04, 0x02, 0x01}"
  have "flag_byte (p ! i) m b = p ! i"
  proof (rule bit_word_eqI)
    fix n assume "n < LENGTH(8)"
    from m g show "bit (flag_byte (p ! i) m b) n = bit (p ! i) n"
      by (elim insertE emptyE) (auto simp: bit_flag_byte AF_getBit_def and_single_bit)
  qed
  then show ?thesis by (cases b) (auto simp: AF_setBit_def flag_byte_def list_update_id)
qed

lemma af_starts:
  assumes "af_ok p"
  shows "pcrStart = 6 + length []"
    "AF_opcrStart p = 6 + length (opt_bytes (v_pcr (af_view p)))"
    "AF_spliceCountdownStart p = 6 + length (opt_bytes (v_pcr (af_view p)) @ opt_bytes (v_opcr (af_view p)))"
    "AF_transportPrivateDataStart p = 6 + length (opt_bytes (v_pcr (af_view p)) @ opt_bytes (v_opcr (af_view p))
      @ opt_byte (v_splice (af_view p)))"
    "AF_adaptationExtensionStart p = 6 + length (opt_bytes (v_pcr (af_view p)) @ opt_bytes (v_opcr (af_view p))
      @ opt_byte (v_splice (af_view p)) @ len_bytes (v_tpd (af_view p)))"
  using af_repr_layout [OF af_okD(10) [OF assms]]
  by (simp_all add: pcrStart_def AF_opcrStart_def AF_spliceCountdownStart_def
      AF_transportPrivateDataStart_def AF_adaptationExtensionStart_def)

lemma af_view_ok: "af_ok p \<Longrightarrow> view_ok (af_view p) \<and> flags_match (p ! 5) (af_view p)"
  using af_okD(10) [of p] by (simp add: af_repr_def)

lemma af_switch_on:
  assumes ok: "af_ok p" and ab: "af_bytes (af_view p) = A @ B"
    and d: "0 < d" "AF_stuffingStart p + d \<le> AF_stuffingEnd p"
    and v: "\<And>X. length X = d \<Longrightarrow> af_bytes (v X) = A @ X @ B \<and> view_ok (v X) \<and>
      flags_match (flag_byte (p ! 5) m True) (v X)"
    and hi: "drop_bit 5 (flag_byte (p ! 5) m True) = drop_bit 5 (p ! 5)"
  shows "\<exists>X q. length X = d \<and> res_bind (AF_resizeAF p (6 + length A) (int d))
      (\<lambda>q. Ok (AF_setBit q 5 m True)) = Ok q \<and> af_ok q \<and> af_view q = v X \<and> same_outside p q"
proof (rule af_grow [OF ok ab d])
  fix X R
  let ?q = "\<lambda>fl. take 5 p @ fl # A @ X @ B @ R"
  assume g: "AF_resizeAF p (6 + length A) (int d) = Ok (?q (p ! 5))" "length X = d"
    and k: "\<And>fl X' v. length X' = d \<Longrightarrow> af_bytes v = A @ X' @ B \<Longrightarrow> view_ok v \<Longrightarrow> flags_match fl v \<Longrightarrow>
      drop_bit 5 fl = drop_bit 5 (p ! 5) \<Longrightarrow>
      af_ok (take 5 p @ fl # A @ X' @ B @ R) \<and> af_view (take 5 p @ fl # A @ X' @ B @ R) = v \<and>
      same_outside p (take 5 p @ fl # A @ X' @ B @ R)"
  have "res_bind (AF_resizeAF p (6 + length A) (int d)) (\<lambda>q. Ok (AF_setBit q 5 m True)) =
      Ok (?q (flag_byte (p ! 5) m True))"
    unfolding g using af_okD(1) [OF ok] by (simp add: setBit_repr)
  with k [OF g(2), of "v X" "flag_byte (p ! 5) m True"] v [OF g(2)] hi g(2) show ?thesis by blast
qed

lemma af_switch_off:
  assumes ok: "af_ok p" and ab: "af_bytes (af_view p) = A @ X @ B" and X: "X \<noteq> []"
    and v: "af_bytes v = A @ B" "view_ok v" "flags_match (flag_byte (p ! 5) m False) v"
    and hi: "drop_bit 5 (flag_byte (p ! 5) m False) = drop_bit 5 (p ! 5)"
  shows "\<exists>q. res_bind (AF_resizeAF p (6 + length A) (- int (length X)))
      (\<lambda>q. Ok (AF_setBit q 5 m False)) = Ok q \<and> af_ok q \<and> af_view q = v \<and> same_outside p q"
proof -
  from af_shrink [OF ok ab X] obtain R where
    g: "AF_resizeAF p (6 + length A) (- int (length X)) = Ok (take 5 p @ p ! 5 # A @ B @ R)" and
    k: "\<forall>fl v. af_bytes v = A @ B \<longrightarrow> view_ok v \<longrightarrow> flags_match fl v \<longrightarrow>
      drop_bit 5 fl = drop_bit 5 (p ! 5) \<longrightarrow> af_ok (take 5 p @ fl # A @ B @ R) \<and>
      af_view (take 5 p @ fl # A @ B @ R) = v \<and> same_outside p (take 5 p @ fl # A @ B @ R)"
    by blast
  have "res_bind (AF_resizeAF p (6 + length A) (- int (length X))) (\<lambda>q. Ok (AF_setBit q 5 m False)) =
      Ok (take 5 p @ flag_byte (p ! 5) m False # A @ B @ R)"
    unfolding g using af_okD(1) [OF ok] by (simp add: setBit_repr)
  with k v hi show ?thesis by blast
qed

lemmas view_update_simps = af_bytes_def view_ok_def flags_match_def bit_flag_byte high_flag_byte

section \<open>Optional parts as an interface\<close>

text \<open>
  What a caller relies on when it switches an optional part on and off: switching on fails only for
  lack of stuffing, and inserts the part without touching the others, the other flags or the
  payload; switching off removes the part; setting the flag to its value changes nothing.
\<close>

locale af_insertable =
  fixes setHas :: "AdaptationField \<Rightarrow> bool \<Rightarrow> AdaptationField res"
    and present :: "af_view \<Rightarrow> bool" and put :: "'v \<Rightarrow> af_view \<Rightarrow> af_view"
    and fresh :: "'v \<Rightarrow> bool" and size_of :: nat
  assumes switch_on: "af_ok p \<Longrightarrow> \<not> present (af_view p) \<Longrightarrow>
      AF_stuffingStart p + size_of \<le> AF_stuffingEnd p \<Longrightarrow>
      \<exists>q x. setHas p True = Ok q \<and> fresh x \<and> af_ok q \<and> af_view q = put x (af_view p) \<and> same_outside p q"
    and no_room: "af_ok p \<Longrightarrow> \<not> present (af_view p) \<Longrightarrow>
      AF_stuffingEnd p < AF_stuffingStart p + size_of \<Longrightarrow>
      setHas p True = Err ErrAdaptationFieldCannotGrow"
begin

lemma on_cases:
  assumes "af_ok p" "\<not> present (af_view p)"
  shows "(case setHas p True of
      Ok q \<Rightarrow> AF_stuffingStart p + size_of \<le> AF_stuffingEnd p \<and> af_ok q \<and> same_outside p q \<and>
        (\<exists>x. fresh x \<and> af_view q = put x (af_view p))
    | Err e \<Rightarrow> e = ErrAdaptationFieldCannotGrow \<and> AF_stuffingEnd p < AF_stuffingStart p + size_of
    | Panic \<Rightarrow> False)"
  using switch_on [OF assms] no_room [OF assms]
  by (cases "AF_stuffingStart p + size_of \<le> AF_stuffingEnd p") auto

end

locale af_option = af_insertable +
  fixes remove :: "af_view \<Rightarrow> af_view"
  assumes switch_off: "af_ok p \<Longrightarrow> present (af_view p) \<Longrightarrow>
      \<exists>q. setHas p False = Ok q \<and> af_ok q \<and> af_view q = remove (af_view p) \<and> same_outside p q"
    and keep: "af_ok p \<Longrightarrow> present (af_view p) = b \<Longrightarrow> setHas p b = Ok p"
    and present_put: "present (put x v)"
    and remove_put: "remove (put x v) = remove v"
    and remove_absent: "\<not> present v \<Longrightarrow> remove v = v"
    and absent_remove: "\<not> present (remove v)"
begin

lemma switch:
  assumes "af_ok p"
  shows "(case setHas p b of
      Ok q \<Rightarrow> af_ok q \<and> same_outside p q \<and> present (af_view q) = b \<and> remove (af_view q) = remove (af_view p)
    | Err e \<Rightarrow> e = ErrAdaptationFieldCannotGrow \<and> b \<and> \<not> present (af_view p) \<and>
        AF_stuffingEnd p < AF_stuffingStart p + size_of
    | Panic \<Rightarrow> False)"
proof (cases "present (af_view p) = b")
  case True
  with keep [OF assms] assms show ?thesis by (auto simp: same_outside_def)
next
  case False
  then show ?thesis
    using on_cases [OF assms] switch_off [OF assms]
    by (cases b) (auto split: res.splits simp: present_put remove_put absent_remove remove_absent)
qed

lemma switch_exact:
  assumes "af_ok p"
  shows "if b \<and> \<not> present (af_view p) \<and> AF_stuffingEnd p < AF_stuffingStart p + size_of
    then setHas p b = Err ErrAdaptationFieldCannotGrow
    else \<exists>q. setHas p b = Ok q \<and> af_ok q \<and> same_outside p q \<and> present (af_view q) = b \<and> remove (af_view q) = remove (af_view p)"
proof (cases "b \<and> \<not> present (af_view p) \<and> AF_stuffingEnd p < AF_stuffingStart p + size_of")
  case True
  with no_room [OF assms] show ?thesis by auto
next
  case False
  with switch [OF assms, of b] show ?thesis by (cases "setHas p b") auto
qed

lemma never_panics: "af_ok p \<Longrightarrow> setHas p b \<noteq> Panic"
  using on_cases [of p] switch_off [of p] keep [of p b]
  by (cases b; cases "present (af_view p)") (auto split: res.splits)

lemma keeps_ok: "af_ok p \<Longrightarrow> setHas p b = Ok q \<Longrightarrow> af_ok q \<and> same_outside p q"
  using on_cases [of p] switch_off [of p] keep [of p b]
  by (cases b; cases "present (af_view p)") (auto split: res.splits simp: same_outside_def)

lemma on_off:
  assumes "af_ok p" "\<not> present (af_view p)" "setHas p True = Ok q"
  shows "\<exists>r. setHas q False = Ok r \<and> af_ok r \<and> af_view r = af_view p \<and> same_outside q r"
proof -
  from on_cases [OF assms(1,2)] assms(3) obtain x where "af_ok q" "af_view q = put x (af_view p)"
    by auto
  with switch_off [of q] present_put remove_put remove_absent assms(2) show ?thesis by auto
qed

end


interpretation pcr_opt: af_option AF_SetHasPCR "\<lambda>v. v_pcr v \<noteq> None"
  "\<lambda>x. v_pcr_update (\<lambda>_. Some x)" "\<lambda>x. length x = 6" 6 "v_pcr_update (\<lambda>_. None)"
proof unfold_locales
  fix p assume ok: "af_ok p" and no: "\<not> v_pcr (af_view p) \<noteq> None"
  let ?A = "[] :: byte list" and ?B = "opt_bytes (v_opcr (af_view p)) @ opt_byte (v_splice (af_view p)) @ len_bytes (v_tpd (af_view p)) @ len_bytes (v_ext (af_view p))"
  have ab: "af_bytes (af_view p) = ?A @ ?B" using no by (simp add: af_bytes_def)
  have dl: "AF_SetHasPCR p True = res_bind (AF_resizeAF p (6 + length ?A) (int 6))
      (\<lambda>q. Ok (AF_setBit q 5 0x10 True))"
    using no view_has(1) [of p] unfolding AF_SetHasPCR_def af_okD(7) [OF ok] af_starts(2-) [OF ok] bitDelta_bits
    by (simp add: pcrStart_def)
  show "AF_stuffingEnd p < AF_stuffingStart p + 6 \<Longrightarrow> AF_SetHasPCR p True = Err ErrAdaptationFieldCannotGrow"
    unfolding dl by (subst resize_full) simp_all
  assume room: "AF_stuffingStart p + 6 \<le> AF_stuffingEnd p"
  show "\<exists>q x. AF_SetHasPCR p True = Ok q \<and> length x = 6 \<and> af_ok q \<and>
      af_view q = (af_view p)\<lparr>v_pcr := Some x\<rparr> \<and> same_outside p q"
  proof -
    have "\<exists>X q. length X = 6 \<and> res_bind (AF_resizeAF p (6 + length ?A) (int 6))
      (\<lambda>q. Ok (AF_setBit q 5 0x10 True)) = Ok q \<and> af_ok q \<and>
      af_view q = (af_view p)\<lparr>v_pcr := Some X\<rparr> \<and> same_outside p q"
    proof (rule af_switch_on [OF ok ab _ room])
      fix X :: "byte list" assume "length X = 6"
      then show "af_bytes ((af_view p)\<lparr>v_pcr := Some X\<rparr>) = ?A @ X @ ?B \<and>
        view_ok ((af_view p)\<lparr>v_pcr := Some X\<rparr>) \<and>
        flags_match (flag_byte (p ! 5) 0x10 True) ((af_view p)\<lparr>v_pcr := Some X\<rparr>)"
        using af_view_ok [OF ok] by (auto simp: view_update_simps length_Suc_conv)
    qed (simp_all add: high_flag_byte)
    then show ?thesis unfolding dl by blast
  qed
next
  fix p assume ok: "af_ok p" and has: "v_pcr (af_view p) \<noteq> None"
  let ?A = "[] :: byte list" and ?B = "opt_bytes (v_opcr (af_view p)) @ opt_byte (v_splice (af_view p)) @ len_bytes (v_tpd (af_view p)) @ len_bytes (v_ext (af_view p))"
  from has obtain x where x: "v_pcr (af_view p) = Some x" by auto
  have ab: "af_bytes (af_view p) = ?A @ x @ ?B" using x by (simp add: af_bytes_def)
  have lx: "length x = 6" using af_view_ok [OF ok] x by (simp add: view_ok_def)
  have dl: "AF_SetHasPCR p False = res_bind (AF_resizeAF p (6 + length ?A) (- int (length x)))
      (\<lambda>q. Ok (AF_setBit q 5 0x10 False))"
    using has view_has(1) [of p] lx unfolding AF_SetHasPCR_def af_okD(7) [OF ok] af_starts(2-) [OF ok] bitDelta_bits
    by (simp add: pcrStart_def)
  from lx have "x \<noteq> []" by auto
  then show "\<exists>q. AF_SetHasPCR p False = Ok q \<and> af_ok q \<and>
      af_view q = (af_view p)\<lparr>v_pcr := None\<rparr> \<and> same_outside p q"
    unfolding dl using af_view_ok [OF ok]
    by (intro af_switch_off [OF ok ab]) (simp_all add: view_update_simps)
next
  fix p b assume ok: "af_ok p" and b: "(v_pcr (af_view p) \<noteq> None) = b"
  then have "AF_getBit p 5 0x10 = b" using view_has(1) [of p] by (simp add: AF_hasPCR_def)
  with b view_has(1) [of p] show "AF_SetHasPCR p b = Ok p"
    by (auto simp: AF_SetHasPCR_def af_okD(7) [OF ok] bitDelta_bits resize_zero setBit_same)
qed simp_all

interpretation opcr_opt: af_option AF_SetHasOPCR "\<lambda>v. v_opcr v \<noteq> None"
  "\<lambda>x. v_opcr_update (\<lambda>_. Some x)" "\<lambda>x. length x = 6" 6 "v_opcr_update (\<lambda>_. None)"
proof unfold_locales
  fix p assume ok: "af_ok p" and no: "\<not> v_opcr (af_view p) \<noteq> None"
  let ?A = "opt_bytes (v_pcr (af_view p))" and ?B = "opt_byte (v_splice (af_view p)) @ len_bytes (v_tpd (af_view p)) @ len_bytes (v_ext (af_view p))"
  have ab: "af_bytes (af_view p) = ?A @ ?B" using no by (simp add: af_bytes_def)
  have dl: "AF_SetHasOPCR p True = res_bind (AF_resizeAF p (6 + length ?A) (int 6))
      (\<lambda>q. Ok (AF_setBit q 5 0x08 True))"
    using no view_has(2) [of p] unfolding AF_SetHasOPCR_def af_okD(7) [OF ok] af_starts(2-) [OF ok] bitDelta_bits
    by (simp add: pcrStart_def)
  show "AF_stuffingEnd p < AF_stuffingStart p + 6 \<Longrightarrow> AF_SetHasOPCR p True = Err ErrAdaptationFieldCannotGrow"
    unfolding dl by (subst resize_full) simp_all
  assume room: "AF_stuffingStart p + 6 \<le> AF_stuffingEnd p"
  show "\<exists>q x. AF_SetHasOPCR p True = Ok q \<and> length x = 6 \<and> af_ok q \<and>
      af_view q = (af_view p)\<lparr>v_opcr := Some x\<rparr> \<and> same_outside p q"
  proof -
    have "\<exists>X q. length X = 6 \<and> res_bind (AF_resizeAF p (6 + length ?A) (int 6))
      (\<lambda>q. Ok (AF_setBit q 5 0x08 True)) = Ok q \<and> af_ok q \<and>
      af_view q = (af_view p)\<lparr>v_opcr := Some X\<rparr> \<and> same_outside p q"
    proof (rule af_switch_on [OF ok ab _ room])
      fix X :: "byte list" assume "length X = 6"
      then show "af_bytes ((af_view p)\<lparr>v_opcr := Some X\<rparr>) = ?A @ X @ ?B \<and>
        view_ok ((af_view p)\<lparr>v_opcr := Some X\<rparr>) \<and>
        flags_match (flag_byte (p ! 5) 0x08 True) ((af_view p)\<lparr>v_opcr := Some X\<rparr>)"
        using af_view_ok [OF ok] by (auto simp: view_update_simps length_Suc_conv)
    qed (simp_all add: high_flag_byte)
    then show ?thesis unfolding dl by blast
  qed
next
  fix p assume ok: "af_ok p" and has: "v_opcr (af_view p) \<noteq> None"
  let ?A = "opt_bytes (v_pcr (af_view p))" and ?B = "opt_byte (v_splice (af_view p)) @ len_bytes (v_tpd (af_view p)) @ len_bytes (v_ext (af_view p))"
  from has obtain x where x: "v_opcr (af_view p) = Some x" by auto
  have ab: "af_bytes (af_view p) = ?A @ x @ ?B" using x by (simp add: af_bytes_def)
  have lx: "length x = 6" using af_view_ok [OF ok] x by (simp add: view_ok_def)
  have dl: "AF_SetHasOPCR p False = res_bind (AF_resizeAF p (6 + length ?A) (- int (length x)))
      (\<lambda>q. Ok (AF_setBit q 5 0x08 False))"
    using has view_has(2) [of p] lx unfolding AF_SetHasOPCR_def af_okD(7) [OF ok] af_starts(2-) [OF ok] bitDelta_bits
    by (simp add: pcrStart_def)
  from lx have "x \<noteq> []" by auto
  then show "\<exists>q. AF_SetHasOPCR p False = Ok q \<and> af_ok q \<and>
      af_view q = (af_view p)\<lparr>v_opcr := None\<rparr> \<and> same_outside p q"
    unfolding dl using af_view_ok [OF ok]
    by (intro af_switch_off [OF ok ab]) (simp_all add: view_update_simps)
next
  fix p b assume ok: "af_ok p" and b: "(v_opcr (af_view p) \<noteq> None) = b"
  then have "AF_getBit p 5 0x08 = b" using view_has(2) [of p] by (simp add: AF_hasOPCR_def)
  with b view_has(2) [of p] show "AF_SetHasOPCR p b = Ok p"
    by (auto simp: AF_SetHasOPCR_def af_okD(7) [OF ok] bitDelta_bits resize_zero setBit_same)
qed simp_all

interpretation splice_opt: af_option AF_SetHasSplicingPoint "\<lambda>v. v_splice v \<noteq> None"
  "\<lambda>x. v_splice_update (\<lambda>_. Some x)" "\<lambda>_. True" 1 "v_splice_update (\<lambda>_. None)"
proof unfold_locales
  fix p assume ok: "af_ok p" and no: "\<not> v_splice (af_view p) \<noteq> None"
  let ?A = "opt_bytes (v_pcr (af_view p)) @ opt_bytes (v_opcr (af_view p))" and ?B = "len_bytes (v_tpd (af_view p)) @ len_bytes (v_ext (af_view p))"
  have ab: "af_bytes (af_view p) = ?A @ ?B" using no by (simp add: af_bytes_def)
  have dl: "AF_SetHasSplicingPoint p True = res_bind (AF_resizeAF p (6 + length ?A) (int 1))
      (\<lambda>q. Ok (AF_setBit q 5 0x04 True))"
    using no view_has(3) [of p] unfolding AF_SetHasSplicingPoint_def af_okD(7) [OF ok] af_starts(2-) [OF ok] bitDelta_bits
    by (simp add: pcrStart_def)
  show "AF_stuffingEnd p < AF_stuffingStart p + 1 \<Longrightarrow> AF_SetHasSplicingPoint p True = Err ErrAdaptationFieldCannotGrow"
    unfolding dl by (subst resize_full) simp_all
  assume room: "AF_stuffingStart p + 1 \<le> AF_stuffingEnd p"
  show "\<exists>q x. AF_SetHasSplicingPoint p True = Ok q \<and> True \<and> af_ok q \<and>
      af_view q = (af_view p)\<lparr>v_splice := Some x\<rparr> \<and> same_outside p q"
  proof -
    have "\<exists>X q. length X = 1 \<and> res_bind (AF_resizeAF p (6 + length ?A) (int 1))
      (\<lambda>q. Ok (AF_setBit q 5 0x04 True)) = Ok q \<and> af_ok q \<and>
      af_view q = (af_view p)\<lparr>v_splice := Some (X ! 0)\<rparr> \<and> same_outside p q"
    proof (rule af_switch_on [OF ok ab _ room])
      fix X :: "byte list" assume "length X = 1"
      then show "af_bytes ((af_view p)\<lparr>v_splice := Some (X ! 0)\<rparr>) = ?A @ X @ ?B \<and>
        view_ok ((af_view p)\<lparr>v_splice := Some (X ! 0)\<rparr>) \<and>
        flags_match (flag_byte (p ! 5) 0x04 True) ((af_view p)\<lparr>v_splice := Some (X ! 0)\<rparr>)"
        using af_view_ok [OF ok] by (auto simp: view_update_simps length_Suc_conv)
    qed (simp_all add: high_flag_byte)
    then show ?thesis unfolding dl by blast
  qed
next
  fix p assume ok: "af_ok p" and has: "v_splice (af_view p) \<noteq> None"
  let ?A = "opt_bytes (v_pcr (af_view p)) @ opt_bytes (v_opcr (af_view p))" and ?B = "len_bytes (v_tpd (af_view p)) @ len_bytes (v_ext (af_view p))"
  from has obtain x where x: "v_splice (af_view p) = Some x" by auto
  have ab: "af_bytes (af_view p) = ?A @ [x] @ ?B" using x by (simp add: af_bytes_def)
  have lx: "length [x] = 1" using af_view_ok [OF ok] x by (simp add: view_ok_def)
  have dl: "AF_SetHasSplicingPoint p False = res_bind (AF_resizeAF p (6 + length ?A) (- int (length [x])))
      (\<lambda>q. Ok (AF_setBit q 5 0x04 False))"
    using has view_has(3) [of p] lx unfolding AF_SetHasSplicingPoint_def af_okD(7) [OF ok] af_starts(2-) [OF ok] bitDelta_bits
    by (simp add: pcrStart_def)
  from lx have "[x] \<noteq> []" by auto
  then show "\<exists>q. AF_SetHasSplicingPoint p False = Ok q \<and> af_ok q \<and>
      af_view q = (af_view p)\<lparr>v_splice := None\<rparr> \<and> same_outside p q"
    unfolding dl using af_view_ok [OF ok]
    by (intro af_switch_off [OF ok ab]) (simp_all add: view_update_simps)
next
  fix p b assume ok: "af_ok p" and b: "(v_splice (af_view p) \<noteq> None) = b"
  then have "AF_getBit p 5 0x04 = b" using view_has(3) [of p] by (simp add: AF_hasSplicingPoint_def)
  with b view_has(3) [of p] show "AF_SetHasSplicingPoint p b = Ok p"
    by (auto simp: AF_SetHasSplicingPoint_def af_okD(7) [OF ok] bitDelta_bits resize_zero setBit_same)
qed simp_all


section \<open>Writing the parts\<close>

lemma af_part:
  assumes ok: "af_ok p" and ab: "af_bytes (af_view p) = A @ X @ B"
  shows "p = take 5 p @ p ! 5 # A @ X @ B @ drop (AF_stuffingStart p) p"
    "AF_stuffingStart p = 6 + length (A @ X @ B)"
    "slice p (6 + length A) (6 + length A + length X) = Ok X"
proof -
  note o = af_okD [OF ok]
  show p: "p = take 5 p @ p ! 5 # A @ X @ B @ drop (AF_stuffingStart p) p"
    using o(10) by (simp add: af_repr_def ab)
  show st: "AF_stuffingStart p = 6 + length (A @ X @ B)"
    using af_repr_layout(6) [OF o(10)] ab by simp
  have "drop (6 + length A) p = X @ B @ drop (AF_stuffingStart p) p"
    by (subst p) (use o(1) in simp)
  then show "slice p (6 + length A) (6 + length A + length X) = Ok X"
    using st o by (simp add: slice_def)
qed

lemma af_replace:
  assumes ok: "af_ok p" and ab: "af_bytes (af_view p) = A @ X @ B" and l: "length Y = length X"
    and v: "af_bytes v = A @ Y @ B" "view_ok v" "flags_match (p ! 5) v"
  shows "\<exists>q. copy_slice p (6 + length A) (6 + length A + length X) Y = Ok q \<and> af_ok q \<and> af_view q = v \<and>
    same_outside p q"
proof -
  note o = af_okD [OF ok] and a = af_part [OF ok ab]
  let ?q = "take 5 p @ p ! 5 # A @ Y @ B @ drop (AF_stuffingStart p) p"
  have h: "length (take 5 p @ p ! 5 # A) = 6 + length A" using o(1) by simp
  have "go_copy p (6 + length A) Y = ?q"
  proof -
    have t: "take (6 + length A) p = take 5 p @ p ! 5 # A" by (subst a(1)) (use h in simp)
    have d: "drop (6 + length A + length X) p = B @ drop (AF_stuffingStart p) p"
      by (subst a(1)) (use o(1) in simp)
    show ?thesis using l o a(2) by (simp add: go_copy_def t d)
  qed
  then have "copy_slice p (6 + length A) (6 + length A + length X) Y = Ok ?q"
    using l a(2) o by (simp add: copy_slice_def)
  moreover have "af_ok ?q \<and> af_view ?q = v \<and> same_outside p ?q"
  proof (rule af_rebuild [OF ok])
    show "?q = take 5 p @ p ! 5 # af_bytes v @ drop (AF_stuffingStart p) p" using v by simp
    show "length ?q = 188" using a(2) l o by simp
    show "6 + length (af_bytes v) \<le> 5 + unat (p ! 4)" using a(2) l v o by simp
    have le: "length (take 5 p @ p ! 5 # A @ Y @ B) = AF_stuffingStart p" using a(2) l o(1) by simp
    have "drop (5 + unat (p ! 4)) ((take 5 p @ p ! 5 # A @ Y @ B) @ drop (AF_stuffingStart p) p) =
        drop (5 + unat (p ! 4) - AF_stuffingStart p) (drop (AF_stuffingStart p) p)"
      using le o by (simp only: drop_append) simp
    also have "\<dots> = drop (5 + unat (p ! 4)) p" using o by simp
    finally show "drop (5 + unat (p ! 4)) ?q = drop (5 + unat (p ! 4)) p" by simp
  qed (use v in simp_all)
  ultimately show ?thesis by blast
qed

text \<open>The getters read the record.\<close>

lemma AF_PCR_view:
  "af_ok p \<Longrightarrow> AF_PCR p = (case v_pcr (af_view p) of None \<Rightarrow> Err ErrNoPCR | Some b \<Rightarrow> ExtractPCR b)"
proof -
  assume ok: "af_ok p"
  show ?thesis
  proof (cases "v_pcr (af_view p)")
    case None
    then show ?thesis using view_has(1) [of p] by (simp add: AF_PCR_def af_okD(7) [OF ok])
  next
    case (Some b)
    have "length b = 6" using af_view_ok [OF ok] Some by (simp add: view_ok_def)
    with Some af_part(3) [OF ok, of "[]" b] view_has(1) [of p] show ?thesis
      by (simp add: AF_PCR_def af_okD(7) [OF ok] pcrStart_def AF_opcrStart_def AF_pcrLength_def af_bytes_def)
  qed
qed

lemma AF_OPCR_view:
  "af_ok p \<Longrightarrow> AF_OPCR p = (case v_opcr (af_view p) of None \<Rightarrow> Err ErrNoOPCR | Some b \<Rightarrow> ExtractPCR b)"
proof -
  assume ok: "af_ok p"
  show ?thesis
  proof (cases "v_opcr (af_view p)")
    case None
    then show ?thesis using view_has(2) [of p] by (simp add: AF_OPCR_def af_okD(7) [OF ok])
  next
    case (Some b)
    have "length b = 6" using af_view_ok [OF ok] Some by (simp add: view_ok_def)
    with Some af_part(3) [OF ok, of "opt_bytes (v_pcr (af_view p))" b] view_has(2) [of p] show ?thesis
      by (simp add: AF_OPCR_def af_okD(7) [OF ok] af_starts(2,3) [OF ok] af_bytes_def add.assoc)
  qed
qed

lemma AF_SpliceCountdown_view:
  "af_ok p \<Longrightarrow> AF_SpliceCountdown p =
    (case v_splice (af_view p) of None \<Rightarrow> Err ErrNoSplicePoint | Some b \<Rightarrow> Ok (sint b))"
proof -
  assume ok: "af_ok p"
  have "AF_spliceCountdownStart p < length p"
    using af_okD(1) [OF ok] tpd_start_le [of p]
    by (simp add: AF_transportPrivateDataStart_def AF_spliceCountdownStart_def)
  then show ?thesis by (simp add: AF_SpliceCountdown_def af_okD(7) [OF ok] af_view_def)
qed

lemma AF_SetPCR_view:
  assumes ok: "af_ok p" and has: "v_pcr (af_view p) \<noteq> None"
  shows "\<exists>q b. AF_SetPCR p v = Ok q \<and> af_ok q \<and> af_view q = (af_view p)\<lparr>v_pcr := Some b\<rparr> \<and>
    ExtractPCR b = Ok (take_bit 33 (v div 300) * 300 + v mod 300) \<and> same_outside p q"
proof -
  from has obtain x where x: "v_pcr (af_view p) = Some x" by auto
  have l: "length x = 6" using af_view_ok [OF ok] x by (simp add: view_ok_def)
  let ?B = "opt_bytes (v_opcr (af_view p)) @ opt_byte (v_splice (af_view p)) @ len_bytes (v_tpd (af_view p)) @ len_bytes (v_ext (af_view p))"
  have ab: "af_bytes (af_view p) = [] @ x @ ?B" using x by (simp add: af_bytes_def)
  from pcr_codec.insert_extract [of x v] l obtain b where b: "InsertPCR x v = Ok b" "length b = 6"
    "ExtractPCR b = Ok (take_bit 33 (v div 300) * 300 + v mod 300)" by auto
  from af_replace [OF ok ab, of b "(af_view p)\<lparr>v_pcr := Some b\<rparr>"] b(2) l af_view_ok [OF ok] x
  obtain q where q: "copy_slice p 6 12 b = Ok q" "af_ok q" "af_view q = (af_view p)\<lparr>v_pcr := Some b\<rparr>"
    "same_outside p q" by (auto simp: view_update_simps)
  have "AF_SetPCR p v = Ok q"
    using view_has(1) [of p] has af_part(3) [OF ok ab] l b(1) q(1)
    by (simp add: AF_SetPCR_def af_okD(7) [OF ok] pcrStart_def AF_opcrStart_def AF_pcrLength_def)
  with q b show ?thesis by blast
qed

lemma AF_SetOPCR_view:
  assumes ok: "af_ok p" and has: "v_opcr (af_view p) \<noteq> None"
  shows "\<exists>q b. AF_SetOPCR p v = Ok q \<and> af_ok q \<and> af_view q = (af_view p)\<lparr>v_opcr := Some b\<rparr> \<and>
    ExtractPCR b = Ok (take_bit 33 (v div 300) * 300 + v mod 300) \<and> same_outside p q"
proof -
  from has obtain x where x: "v_opcr (af_view p) = Some x" by auto
  have l: "length x = 6" using af_view_ok [OF ok] x by (simp add: view_ok_def)
  let ?A = "opt_bytes (v_pcr (af_view p))" and ?B = "opt_byte (v_splice (af_view p)) @ len_bytes (v_tpd (af_view p)) @ len_bytes (v_ext (af_view p))"
  have ab: "af_bytes (af_view p) = ?A @ x @ ?B" using x by (simp add: af_bytes_def)
  from pcr_codec.insert_extract [of x v] l obtain b where b: "InsertPCR x v = Ok b" "length b = 6"
    "ExtractPCR b = Ok (take_bit 33 (v div 300) * 300 + v mod 300)" by auto
  from af_replace [OF ok ab, of b "(af_view p)\<lparr>v_opcr := Some b\<rparr>"] b(2) l af_view_ok [OF ok] x
  obtain q where q: "copy_slice p (6 + length ?A) (6 + length ?A + length x) b = Ok q" "af_ok q"
    "af_view q = (af_view p)\<lparr>v_opcr := Some b\<rparr>" "same_outside p q" by (auto simp: view_update_simps)
  have "AF_spliceCountdownStart p = 6 + length ?A + length x"
    using af_starts(3) [OF ok] x by simp
  then have "AF_SetOPCR p v = Ok q"
    using view_has(2) [of p] has af_part(3) [OF ok ab] b(1) q(1)
    by (simp add: AF_SetOPCR_def af_okD(7) [OF ok] af_starts(2) [OF ok])
  with q b show ?thesis by blast
qed

lemma AF_SetSpliceCountdown_view:
  assumes ok: "af_ok p" and has: "v_splice (af_view p) \<noteq> None"
  shows "\<exists>q. AF_SetSpliceCountdown p b = Ok q \<and> af_ok q \<and> af_view q = (af_view p)\<lparr>v_splice := Some b\<rparr> \<and>
    same_outside p q"
proof -
  from has obtain x where x: "v_splice (af_view p) = Some x" by auto
  let ?A = "opt_bytes (v_pcr (af_view p)) @ opt_bytes (v_opcr (af_view p))" and ?B = "len_bytes (v_tpd (af_view p)) @ len_bytes (v_ext (af_view p))"
  have ab: "af_bytes (af_view p) = ?A @ [x] @ ?B" using x by (simp add: af_bytes_def)
  from af_replace [OF ok ab, of "[b]" "(af_view p)\<lparr>v_splice := Some b\<rparr>"] af_view_ok [OF ok] x
  obtain q where q: "copy_slice p (6 + length ?A) (6 + length ?A + 1) [b] = Ok q" "af_ok q"
    "af_view q = (af_view p)\<lparr>v_splice := Some b\<rparr>" "same_outside p q" by (auto simp: view_update_simps)
  from q(1) have "q = p[6 + length ?A := b]" "6 + length ?A < length p"
    by (auto simp: copy_slice_def go_copy_def upd_conv_take_nth_drop split: if_splits)
  then have "AF_SetSpliceCountdown p b = Ok q"
    using view_has(3) [of p] has
    by (simp add: AF_SetSpliceCountdown_def af_okD(7) [OF ok] af_starts(3) [OF ok])
  with q show ?thesis by blast
qed


section \<open>Parts with a length byte\<close>

lemma wr_repr: "length A = i \<Longrightarrow> wr (A @ x # B) i y = Ok (A @ y # B)"
  by (simp add: wr_def list_update_append)

lemma copy_slice_repr:
  "length A = i \<Longrightarrow> length X = length Y \<Longrightarrow> j = i + length X \<Longrightarrow> copy_slice (A @ X @ B) i j Y = Ok (A @ Y @ B)"
  by (simp add: copy_slice_def go_copy_def)

lemma af_set_data:
  assumes p: "p = P @ lb # old @ B @ R" and st: "AF_stuffingStart p = length (P @ lb # old @ B)"
    and e: "AF_stuffingEnd p \<le> length p"
  shows "res_bind (AF_resizeAF p (length P + 1) (int (length data) - int (length old))) (\<lambda>af'.
      res_bind (copy_slice af' (length P + 1) (length P + 1 + length data) data) (\<lambda>af''.
        wr af'' (length P) (of_nat (length data)))) =
    (if length data \<le> length old
     then Ok (P @ of_nat (length data) # data @ B @ replicate (length old - length data) 0xFF @ R)
     else if AF_stuffingEnd p < AF_stuffingStart p + (length data - length old)
     then Err ErrAdaptationFieldCannotGrow
     else Ok (P @ of_nat (length data) # data @ B @ drop (length data - length old) R))"
proof -
  have lP: "length (P @ [lb]) = length P + 1" by simp
  consider (eq) "length data = length old" | (lt) "length data < length old" | (gt) "length old < length data"
    by linarith
  then show ?thesis
  proof cases
    case eq
    have "copy_slice p (length P + 1) (length P + 1 + length data) data = Ok ((P @ [lb]) @ data @ B @ R)"
      using copy_slice_repr [OF lP, of old data "length P + 1 + length data" "B @ R"] p eq by simp
    moreover have "wr ((P @ [lb]) @ data @ B @ R) (length P) (of_nat (length data)) =
        Ok (P @ of_nat (length data) # data @ B @ R)"
      using wr_repr [of P "length P" lb "data @ B @ R"] by simp
    ultimately show ?thesis using eq by (simp add: resize_zero)
  next
    case lt
    let ?d = "length old - length data"
    let ?X = "take ?d old" and ?O = "drop ?d old"
    have d: "int (length data) - int (length old) = - int (length ?X)" using lt by simp
    have p': "p = (P @ [lb]) @ ?X @ (?O @ B) @ R" using p by simp
    have r: "AF_resizeAF p (length P + 1) (int (length data) - int (length old)) =
        Ok ((P @ [lb]) @ (?O @ B) @ replicate (length ?X) 0xFF @ R)"
      unfolding d lP [symmetric] by (rule resize_shrink [OF p']) (use st lt in auto)
    have "copy_slice ((P @ [lb]) @ ?O @ (B @ replicate (length ?X) 0xFF @ R)) (length P + 1)
        (length P + 1 + length data) data = Ok ((P @ [lb]) @ data @ B @ replicate (length ?X) 0xFF @ R)"
      by (rule copy_slice_repr) (use lt in simp_all)
    moreover have "wr ((P @ [lb]) @ data @ B @ replicate (length ?X) 0xFF @ R) (length P) (of_nat (length data)) =
        Ok (P @ of_nat (length data) # data @ B @ replicate (length ?X) 0xFF @ R)"
      using wr_repr [of P "length P" lb "data @ B @ replicate (length ?X) 0xFF @ R"] by simp
    ultimately show ?thesis using lt unfolding r by simp
  next
    case gt
    let ?d = "length data - length old"
    have d: "int (length data) - int (length old) = int ?d" using gt by simp
    have p': "p = (P @ [lb]) @ (old @ B) @ R" using p by simp
    show ?thesis
    proof (cases "AF_stuffingEnd p < AF_stuffingStart p + ?d")
      case True
      have "AF_resizeAF p (length P + 1) (int ?d) = Err ErrAdaptationFieldCannotGrow"
        by (rule resize_full) (use True gt in simp_all)
      then show ?thesis using True gt unfolding d by simp
    next
      case False
      let ?X = "take ?d ((old @ B) @ R)"
      have r: "AF_resizeAF p (length P + 1) (int ?d) = Ok ((P @ [lb]) @ ?X @ (old @ B) @ drop ?d R)"
        unfolding lP [symmetric] by (rule resize_grow [OF p']) (use st e gt False in auto)
      have lX: "length ?X = ?d" using st e False p by simp
      have lX': "length (?X @ old) = length data" using lX gt by (simp only: length_append)
      have "copy_slice ((P @ [lb]) @ (?X @ old) @ (B @ drop ?d R)) (length P + 1)
          (length P + 1 + length data) data = Ok ((P @ [lb]) @ data @ B @ drop ?d R)"
        by (rule copy_slice_repr [OF _ lX']) (simp_all only: lX' lP)
      moreover have "wr ((P @ [lb]) @ data @ B @ drop ?d R) (length P) (of_nat (length data)) =
          Ok (P @ of_nat (length data) # data @ B @ drop ?d R)"
        using wr_repr [of P "length P" lb "data @ B @ drop ?d R"] by simp
      ultimately show ?thesis using gt False unfolding d r by simp
    qed
  qed
qed

text \<open>Putting the new data into the packet: the record changes in that part only.\<close>

lemma af_data_written:
  assumes ok: "af_ok p" and ab: "af_bytes (af_view p) = A @ len_bytes (Some old) @ B"
    and v: "af_bytes v = A @ len_bytes (Some data) @ B" "length data < 256 \<Longrightarrow> view_ok v" "flags_match (p ! 5) v"
    and r: "res_bind (AF_resizeAF p (6 + length A + 1) (int (length data) - int (length old))) (\<lambda>af'.
      res_bind (copy_slice af' (6 + length A + 1) (6 + length A + 1 + length data) data) (\<lambda>af''.
        wr af'' (6 + length A) (of_nat (length data)))) = r"
  shows "(if AF_stuffingStart p + length data \<le> AF_stuffingEnd p + length old \<or> length data \<le> length old
     then \<exists>q. r = Ok q \<and> af_ok q \<and> af_view q = v \<and> same_outside p q
     else r = Err ErrAdaptationFieldCannotGrow)"
proof -
  note o = af_okD [OF ok] and a = af_part [OF ok ab]
  let ?P = "take 5 p @ p ! 5 # A"
  let ?R = "drop (AF_stuffingStart p) p"
  have lP: "length ?P = 6 + length A" using o(1) by simp
  have p: "p = ?P @ of_nat (length old) # old @ B @ ?R" using a(1) by simp
  have st: "AF_stuffingStart p = length (?P @ of_nat (length old) # old @ B)" using a(2) o(1) by simp
  note w = af_set_data [OF p st o(8), of data, unfolded lP]
  have fin: "af_ok q \<and> af_view q = v \<and> same_outside p q"
    if q: "q = ?P @ of_nat (length data) # data @ B @ Q" and lq: "length (data @ B @ Q) = length (old @ B @ ?R)"
      and le: "length data \<le> length old \<or> AF_stuffingStart p + (length data - length old) \<le> AF_stuffingEnd p"
      and dQ: "drop (5 + unat (p ! 4)) q = drop (5 + unat (p ! 4)) p" for q Q
  proof (rule af_rebuild [OF ok])
    show "q = take 5 p @ p ! 5 # af_bytes v @ Q" using q v(1) by simp
    have "length p = length ?P + 1 + length (old @ B @ ?R)" by (subst p) simp
    then show l: "length q = 188" using q lq o(1) by simp
    have t: "AF_stuffingStart p = 7 + length A + length old + length B" using a(2) by simp
    then show m: "6 + length (af_bytes v) \<le> 5 + unat (p ! 4)" using le o(9,6) v(1) by auto
    have "length data < 256" using m o(4) v(1) by simp
    then show "view_ok v" by (rule v(2))
  qed (use v dQ in simp_all)
    consider (le) "length data \<le> length old"
      | (gt) "length old < length data" "AF_stuffingStart p + (length data - length old) \<le> AF_stuffingEnd p"
      | (full) "length old < length data" "AF_stuffingEnd p < AF_stuffingStart p + (length data - length old)"
      by linarith
    then show ?thesis
    proof cases
      case le
      let ?Q = "replicate (length old - length data) 0xFF @ ?R"
      have lA: "length (?P @ of_nat (length data) # data @ B @ replicate (length old - length data) 0xFF) = AF_stuffingStart p"
        using st le by simp
      have "drop (5 + unat (p ! 4)) ((?P @ of_nat (length data) # data @ B @ replicate (length old - length data) 0xFF) @ ?R)
          = drop (5 + unat (p ! 4)) p"
        using lA o by (simp only: drop_append) simp
      then have "af_ok (?P @ of_nat (length data) # data @ B @ ?Q) \<and> af_view (?P @ of_nat (length data) # data @ B @ ?Q) = v \<and>
          same_outside p (?P @ of_nat (length data) # data @ B @ ?Q)"
        by (intro fin [OF refl]) (use le in simp_all)
      with w r le show ?thesis by auto
    next
      case gt
      let ?d = "length data - length old"
      let ?Q = "drop ?d ?R"
      have lA: "length (?P @ of_nat (length data) # data @ B) = AF_stuffingStart p + ?d"
        using st gt by simp
      have "drop (5 + unat (p ! 4)) ((?P @ of_nat (length data) # data @ B) @ ?Q) = drop (5 + unat (p ! 4)) p"
        using lA o gt by (simp only: drop_append) simp
      then have "af_ok (?P @ of_nat (length data) # data @ B @ ?Q) \<and> af_view (?P @ of_nat (length data) # data @ B @ ?Q) = v \<and>
          same_outside p (?P @ of_nat (length data) # data @ B @ ?Q)"
        by (intro fin [OF refl]) (use gt o in simp_all)
      with w r gt show ?thesis by auto
    next
      case full
      with w r show ?thesis by auto
    qed
qed

text \<open>What a caller relies on for a part that carries its own length.\<close>

locale af_data =
  fixes setData :: "AdaptationField \<Rightarrow> byte list \<Rightarrow> AdaptationField res"
    and getData :: "AdaptationField \<Rightarrow> byte list res"
    and sel :: "af_view \<Rightarrow> byte list option" and put :: "byte list \<Rightarrow> af_view \<Rightarrow> af_view"
    and absent :: gots_error
  assumes set_data: "af_ok p \<Longrightarrow> sel (af_view p) = Some old \<Longrightarrow>
      (if AF_stuffingStart p + length data \<le> AF_stuffingEnd p + length old \<or> length data \<le> length old
       then \<exists>q. setData p data = Ok q \<and> af_ok q \<and> af_view q = put data (af_view p) \<and> same_outside p q
       else setData p data = Err ErrAdaptationFieldCannotGrow)"
    and get_data: "af_ok p \<Longrightarrow> getData p =
      (case sel (af_view p) of None \<Rightarrow> Err absent | Some d \<Rightarrow> Ok (of_nat (length d) # d))"
    and set_absent: "af_ok p \<Longrightarrow> sel (af_view p) = None \<Longrightarrow> setData p data = Err absent"
    and sel_put: "sel (put d v) = Some d"
begin

lemma never_panics: "af_ok p \<Longrightarrow> setData p data \<noteq> Panic \<and> getData p \<noteq> Panic"
  using set_data [of p _ data] get_data [of p] set_absent [of p data]
  by (cases "sel (af_view p)") (force split: if_splits)+

lemma set_get:
  assumes "af_ok p" "setData p data = Ok q"
  shows "af_ok q \<and> af_view q = put data (af_view p) \<and> same_outside p q \<and>
    getData q = Ok (of_nat (length data) # data)"
proof -
  obtain old where "sel (af_view p) = Some old"
    using set_absent [OF assms(1), of data] assms(2) by (cases "sel (af_view p)") auto
  from set_data [OF assms(1) this, of data] assms(2)
  have "af_ok q \<and> af_view q = put data (af_view p) \<and> same_outside p q" by (auto split: if_splits)
  then show ?thesis using get_data [of q] by (simp add: sel_put)
qed

end

interpretation tpd_data: af_data AF_SetTransportPrivateData AF_TransportPrivateData v_tpd
  "\<lambda>d. v_tpd_update (\<lambda>_. Some d)" ErrNoPrivateTransportData
proof unfold_locales
  fix p old data assume ok: "af_ok p" and x: "v_tpd (af_view p) = Some old"
  let ?A = "opt_bytes (v_pcr (af_view p)) @ opt_bytes (v_opcr (af_view p)) @ opt_byte (v_splice (af_view p))" and ?B = "len_bytes (v_ext (af_view p))"
  have ab: "af_bytes (af_view p) = ?A @ len_bytes (Some old) @ ?B" using x by (simp add: af_bytes_def)
  have l: "AF_transportPrivateDataLength p = 1 + length old"
    using af_repr_layout(4) [OF af_okD(10) [OF ok]] x by simp
  have s: "res_bind (AF_resizeAF p (6 + length ?A + 1) (int (length data) - int (length old))) (\<lambda>af'.
      res_bind (copy_slice af' (6 + length ?A + 1) (6 + length ?A + 1 + length data) data) (\<lambda>af''.
        wr af'' (6 + length ?A) (of_nat (length data)))) = AF_SetTransportPrivateData p data"
    using view_has(4) [of p] x unfolding AF_SetTransportPrivateData_def af_okD(7) [OF ok] af_starts(4) [OF ok] l
    by (simp add: Let_def)
  show "if AF_stuffingStart p + length data \<le> AF_stuffingEnd p + length old \<or> length data \<le> length old
       then \<exists>q. AF_SetTransportPrivateData p data = Ok q \<and> af_ok q \<and>
         af_view q = (af_view p)\<lparr>v_tpd := Some data\<rparr> \<and> same_outside p q
       else AF_SetTransportPrivateData p data = Err ErrAdaptationFieldCannotGrow"
    by (rule af_data_written [OF ok ab _ _ _ s])
      (use af_view_ok [OF ok] x in \<open>auto simp: view_update_simps\<close>)
next
  fix p assume ok: "af_ok p"
  show "AF_TransportPrivateData p = (case v_tpd (af_view p) of None \<Rightarrow> Err ErrNoPrivateTransportData
      | Some d \<Rightarrow> Ok (of_nat (length d) # d))"
  proof (cases "v_tpd (af_view p)")
    case (Some d)
    have ab: "af_bytes (af_view p) = (opt_bytes (v_pcr (af_view p)) @ opt_bytes (v_opcr (af_view p)) @ opt_byte (v_splice (af_view p))) @ len_bytes (Some d) @ len_bytes (v_ext (af_view p))"
      using Some by (simp add: af_bytes_def)
    have "AF_adaptationExtensionStart p = 6 + length (opt_bytes (v_pcr (af_view p)) @ opt_bytes (v_opcr (af_view p)) @ opt_byte (v_splice (af_view p))) + length (len_bytes (Some d))"
      using af_starts(5) [OF ok] Some by simp
    with af_part(3) [OF ok ab] view_has(4) [of p] Some show ?thesis
      by (simp add: AF_TransportPrivateData_def AF_HasTransportPrivateData_def af_okD(7) [OF ok] af_starts(4) [OF ok])
  qed (use view_has(4) [of p] in \<open>simp add: AF_TransportPrivateData_def AF_HasTransportPrivateData_def af_okD(7) [OF ok]\<close>)
next
  fix p data assume "af_ok p" "v_tpd (af_view p) = None"
  then show "AF_SetTransportPrivateData p data = Err ErrNoPrivateTransportData"
    using view_has(4) [of p] by (simp add: AF_SetTransportPrivateData_def af_okD(7))
qed simp

interpretation ext_data: af_data AF_SetAdaptationFieldExtension AF_AdaptationFieldExtension v_ext
  "\<lambda>d. v_ext_update (\<lambda>_. Some d)" ErrNoAdaptationFieldExtension
proof unfold_locales
  fix p old data assume ok: "af_ok p" and x: "v_ext (af_view p) = Some old"
  let ?A = "opt_bytes (v_pcr (af_view p)) @ opt_bytes (v_opcr (af_view p)) @ opt_byte (v_splice (af_view p)) @ len_bytes (v_tpd (af_view p))" and ?B = "[] :: byte list"
  have ab: "af_bytes (af_view p) = ?A @ len_bytes (Some old) @ ?B" using x by (simp add: af_bytes_def)
  have l: "AF_adaptationExtensionLength p = 1 + length old"
    using af_repr_layout(5) [OF af_okD(10) [OF ok]] x by simp
  have s: "res_bind (AF_resizeAF p (6 + length ?A + 1) (int (length data) - int (length old))) (\<lambda>af'.
      res_bind (copy_slice af' (6 + length ?A + 1) (6 + length ?A + 1 + length data) data) (\<lambda>af''.
        wr af'' (6 + length ?A) (of_nat (length data)))) = AF_SetAdaptationFieldExtension p data"
    using view_has(5) [of p] x unfolding AF_SetAdaptationFieldExtension_def af_okD(7) [OF ok] af_starts(5) [OF ok] l
    by (simp add: Let_def)
  show "if AF_stuffingStart p + length data \<le> AF_stuffingEnd p + length old \<or> length data \<le> length old
       then \<exists>q. AF_SetAdaptationFieldExtension p data = Ok q \<and> af_ok q \<and>
         af_view q = (af_view p)\<lparr>v_ext := Some data\<rparr> \<and> same_outside p q
       else AF_SetAdaptationFieldExtension p data = Err ErrAdaptationFieldCannotGrow"
    by (rule af_data_written [OF ok ab _ _ _ s])
      (use af_view_ok [OF ok] x in \<open>auto simp: view_update_simps\<close>)
next
  fix p assume ok: "af_ok p"
  show "AF_AdaptationFieldExtension p = (case v_ext (af_view p) of None \<Rightarrow> Err ErrNoAdaptationFieldExtension
      | Some d \<Rightarrow> Ok (of_nat (length d) # d))"
  proof (cases "v_ext (af_view p)")
    case (Some d)
    have ab: "af_bytes (af_view p) = (opt_bytes (v_pcr (af_view p)) @ opt_bytes (v_opcr (af_view p)) @ opt_byte (v_splice (af_view p)) @ len_bytes (v_tpd (af_view p))) @ len_bytes (Some d) @ []"
      using Some by (simp add: af_bytes_def)
    have "AF_stuffingStart p = 6 + length (opt_bytes (v_pcr (af_view p)) @ opt_bytes (v_opcr (af_view p)) @ opt_byte (v_splice (af_view p)) @ len_bytes (v_tpd (af_view p))) + length (len_bytes (Some d))"
      using af_part(2) [OF ok ab] by simp
    with af_part(3) [OF ok ab] view_has(5) [of p] Some show ?thesis
      by (simp add: AF_AdaptationFieldExtension_def AF_HasAdaptationFieldExtension_def af_okD(7) [OF ok] af_starts(5) [OF ok])
  qed (use view_has(5) [of p] in \<open>simp add: AF_AdaptationFieldExtension_def AF_HasAdaptationFieldExtension_def af_okD(7) [OF ok]\<close>)
next
  fix p data assume "af_ok p" "v_ext (af_view p) = None"
  then show "AF_SetAdaptationFieldExtension p data = Err ErrNoAdaptationFieldExtension"
    using view_has(5) [of p] by (simp add: AF_SetAdaptationFieldExtension_def af_okD(7))
qed simp

lemma tpd_start_flags: "p ! 5 = q ! 5 \<Longrightarrow> AF_transportPrivateDataStart p = AF_transportPrivateDataStart q"
  by (simp add: AF_transportPrivateDataStart_def AF_pcrLength_def AF_opcrLength_def
      AF_spliceCountdownLength_def af_flag_bits)

interpretation tpd_opt: af_insertable AF_SetHasTransportPrivateData "\<lambda>v. v_tpd v \<noteq> None"
  "\<lambda>x. v_tpd_update (\<lambda>_. Some x)" "\<lambda>x. x = []" 1
proof unfold_locales
  fix p assume ok: "af_ok p" and no: "\<not> v_tpd (af_view p) \<noteq> None"
  let ?A = "opt_bytes (v_pcr (af_view p)) @ opt_bytes (v_opcr (af_view p)) @ opt_byte (v_splice (af_view p))" and ?B = "len_bytes (v_ext (af_view p))"
  have ab: "af_bytes (af_view p) = ?A @ ?B" using no by (simp add: af_bytes_def)
  have dl: "AF_SetHasTransportPrivateData p True = res_bind (AF_resizeAF p (6 + length ?A) (int 1)) (\<lambda>af'.
      res_bind (wr af' (AF_transportPrivateDataStart af') 0) (\<lambda>af''. Ok (AF_setBit af'' 5 0x02 True)))"
    using no view_has(4) [of p] unfolding AF_SetHasTransportPrivateData_def af_okD(7) [OF ok] af_starts(4) [OF ok] bitDelta_bits
    by simp
  show "AF_stuffingEnd p < AF_stuffingStart p + 1 \<Longrightarrow> AF_SetHasTransportPrivateData p True = Err ErrAdaptationFieldCannotGrow"
    unfolding dl by (subst resize_full) simp_all
  assume room: "AF_stuffingStart p + 1 \<le> AF_stuffingEnd p"
  show "\<exists>q x. AF_SetHasTransportPrivateData p True = Ok q \<and> x = [] \<and> af_ok q \<and>
      af_view q = (af_view p)\<lparr>v_tpd := Some x\<rparr> \<and> same_outside p q"
  proof (rule af_grow [OF ok ab _ room])
    fix X R
    assume g: "AF_resizeAF p (6 + length ?A) (int 1) = Ok (take 5 p @ p ! 5 # ?A @ X @ ?B @ R)" "length X = 1"
      and k: "\<And>fl X' v. length X' = 1 \<Longrightarrow> af_bytes v = ?A @ X' @ ?B \<Longrightarrow> view_ok v \<Longrightarrow> flags_match fl v \<Longrightarrow>
        drop_bit 5 fl = drop_bit 5 (p ! 5) \<Longrightarrow> af_ok (take 5 p @ fl # ?A @ X' @ ?B @ R) \<and>
        af_view (take 5 p @ fl # ?A @ X' @ ?B @ R) = v \<and> same_outside p (take 5 p @ fl # ?A @ X' @ ?B @ R)"
    let ?q = "take 5 p @ p ! 5 # ?A @ X @ ?B @ R"
    from g(2) obtain x where x: "X = [x]" by (auto simp: length_Suc_conv)
    have st: "AF_transportPrivateDataStart ?q = 6 + length ?A"
      using tpd_start_flags [of ?q p] af_starts(4) [OF ok] af_okD(1) [OF ok] by (simp add: nth_append)
    have w: "wr ?q (6 + length ?A) 0 = Ok (take 5 p @ p ! 5 # ?A @ [0] @ ?B @ R)"
      using wr_repr [of "take 5 p @ p ! 5 # ?A" "6 + length ?A" x "?B @ R" 0] af_okD(1) [OF ok] x by simp
    have "AF_SetHasTransportPrivateData p True = Ok (take 5 p @ flag_byte (p ! 5) 0x02 True # ?A @ [0] @ ?B @ R)"
      unfolding dl g res_bind.simps st w using af_okD(1) [OF ok] by (simp add: setBit_repr)
    moreover have "af_ok (take 5 p @ flag_byte (p ! 5) 0x02 True # ?A @ [0] @ ?B @ R) \<and>
        af_view (take 5 p @ flag_byte (p ! 5) 0x02 True # ?A @ [0] @ ?B @ R) = (af_view p)\<lparr>v_tpd := Some []\<rparr> \<and>
        same_outside p (take 5 p @ flag_byte (p ! 5) 0x02 True # ?A @ [0] @ ?B @ R)"
      by (rule k) (use af_view_ok [OF ok] in \<open>auto simp: view_update_simps\<close>)
    ultimately show ?thesis by blast
  qed simp
qed

interpretation ext_opt: af_insertable AF_SetHasAdaptationFieldExtension "\<lambda>v. v_ext v \<noteq> None"
  "\<lambda>x. v_ext_update (\<lambda>_. Some x)" "\<lambda>x. x = []" 1
proof unfold_locales
  fix p assume ok: "af_ok p" and no: "\<not> v_ext (af_view p) \<noteq> None"
  let ?A = "opt_bytes (v_pcr (af_view p)) @ opt_bytes (v_opcr (af_view p)) @ opt_byte (v_splice (af_view p)) @ len_bytes (v_tpd (af_view p))" and ?B = "[] :: byte list"
  have ab: "af_bytes (af_view p) = ?A @ ?B" using no by (simp add: af_bytes_def)
  have dl: "AF_SetHasAdaptationFieldExtension p True = res_bind (AF_resizeAF p (6 + length ?A) (int 1)) (\<lambda>af'.
      res_bind (wr af' (AF_adaptationExtensionStart af') 0) (\<lambda>af''. Ok (AF_setBit af'' 5 0x01 True)))"
    using no view_has(5) [of p] unfolding AF_SetHasAdaptationFieldExtension_def af_okD(7) [OF ok] af_starts(5) [OF ok] bitDelta_bits
    by simp
  show "AF_stuffingEnd p < AF_stuffingStart p + 1 \<Longrightarrow> AF_SetHasAdaptationFieldExtension p True = Err ErrAdaptationFieldCannotGrow"
    unfolding dl by (subst resize_full) simp_all
  assume room: "AF_stuffingStart p + 1 \<le> AF_stuffingEnd p"
  show "\<exists>q x. AF_SetHasAdaptationFieldExtension p True = Ok q \<and> x = [] \<and> af_ok q \<and>
      af_view q = (af_view p)\<lparr>v_ext := Some x\<rparr> \<and> same_outside p q"
  proof (rule af_grow [OF ok ab _ room])
    fix X R
    assume g: "AF_resizeAF p (6 + length ?A) (int 1) = Ok (take 5 p @ p ! 5 # ?A @ X @ ?B @ R)" "length X = 1"
      and k: "\<And>fl X' v. length X' = 1 \<Longrightarrow> af_bytes v = ?A @ X' @ ?B \<Longrightarrow> view_ok v \<Longrightarrow> flags_match fl v \<Longrightarrow>
        drop_bit 5 fl = drop_bit 5 (p ! 5) \<Longrightarrow> af_ok (take 5 p @ fl # ?A @ X' @ ?B @ R) \<and>
        af_view (take 5 p @ fl # ?A @ X' @ ?B @ R) = v \<and> same_outside p (take 5 p @ fl # ?A @ X' @ ?B @ R)"
    let ?q = "take 5 p @ p ! 5 # ?A @ X @ ?B @ R"
    from g(2) obtain x where x: "X = [x]" by (auto simp: length_Suc_conv)
    have st: "AF_adaptationExtensionStart ?q = 6 + length ?A"
    proof -
      have "length ?q = 188"
        using k [of "[0]" "(af_view p)\<lparr>v_ext := Some []\<rparr>" "flag_byte (p ! 5) 0x01 True"] x
          af_view_ok [OF ok] by (auto simp: view_update_simps dest!: af_okD(1))
      then have r: "af_repr ?q (take 5 p) (p ! 5) (af_view p) (X @ R)"
        using ab af_view_ok [OF ok] af_okD(1) [OF ok] by (simp add: af_repr_def)
      from af_repr_layout [OF r] show ?thesis
        by (simp add: AF_adaptationExtensionStart_def pcrStart_def)
    qed
    have w: "wr ?q (6 + length ?A) 0 = Ok (take 5 p @ p ! 5 # ?A @ [0] @ ?B @ R)"
      using wr_repr [of "take 5 p @ p ! 5 # ?A" "6 + length ?A" x "?B @ R" 0] af_okD(1) [OF ok] x by simp
    have "AF_SetHasAdaptationFieldExtension p True = Ok (take 5 p @ flag_byte (p ! 5) 0x01 True # ?A @ [0] @ ?B @ R)"
      unfolding dl g res_bind.simps st w using af_okD(1) [OF ok] by (simp add: setBit_repr)
    moreover have "af_ok (take 5 p @ flag_byte (p ! 5) 0x01 True # ?A @ [0] @ ?B @ R) \<and>
        af_view (take 5 p @ flag_byte (p ! 5) 0x01 True # ?A @ [0] @ ?B @ R) = (af_view p)\<lparr>v_ext := Some []\<rparr> \<and>
        same_outside p (take 5 p @ flag_byte (p ! 5) 0x01 True # ?A @ [0] @ ?B @ R)"
      by (rule k) (use af_view_ok [OF ok] in \<open>auto simp: view_update_simps\<close>)
    ultimately show ?thesis by blast
  qed simp
qed

text \<open>Setting the flag of a part with a length byte to the value it has still writes a zero at the
  start of the part.\<close>

lemma SetHasTPD_same:
  assumes "af_ok p" "AF_hasTransportPrivateData p = b"
  shows "AF_SetHasTransportPrivateData p b = Ok (p[AF_transportPrivateDataStart p := 0])"
proof -
  have l: "AF_transportPrivateDataStart p < length p" "6 \<le> AF_transportPrivateDataStart p"
    using af_okD(1) [OF assms(1)] tpd_start_le [of p]
    by (simp_all add: AF_transportPrivateDataStart_def pcrStart_def)
  have "AF_setBit (p[AF_transportPrivateDataStart p := 0]) 5 0x02 b = p[AF_transportPrivateDataStart p := 0]"
    by (rule setBit_same) (use assms l in \<open>simp_all add: AF_hasTransportPrivateData_def AF_getBit_def\<close>)
  with l assms show ?thesis
    by (simp add: AF_SetHasTransportPrivateData_def af_okD(7) bitDelta_bits resize_zero)
qed

lemma SetHasAFE_same:
  assumes "af_ok p" "AF_hasAdaptationFieldExtension p = b"
  shows "AF_SetHasAdaptationFieldExtension p b =
    (if AF_adaptationExtensionStart p < 188 then Ok (p[AF_adaptationExtensionStart p := 0]) else Panic)"
proof -
  have l: "6 \<le> AF_adaptationExtensionStart p"
    by (simp add: AF_adaptationExtensionStart_def pcrStart_def)
  have "AF_setBit (p[AF_adaptationExtensionStart p := 0]) 5 0x01 b = p[AF_adaptationExtensionStart p := 0]"
    by (rule setBit_same) (use assms l in \<open>simp_all add: AF_hasAdaptationFieldExtension_def AF_getBit_def\<close>)
  with l assms af_okD(1) [OF assms(1)] show ?thesis
    by (simp add: AF_SetHasAdaptationFieldExtension_def af_okD(7) bitDelta_bits resize_zero wr_def)
qed

section \<open>Properties\<close>

definition af_example :: packet where
  "af_example = [0x47, 0x1f, 0xff, 0x30, 50, 0x12] @ replicate 6 0 @ [2, 0xAA, 0xBB] @ replicate 40 0xFF
     @ replicate 133 7"

lemma af_example_bytes:
  "length af_example = 188" "af_example ! 3 = 0x30" "af_example ! 4 = 50" "af_example ! 5 = 0x12"
  "af_example ! 12 = 2"
  by (simp_all add: af_example_def nth_append)

lemma af_example_layout:
  "AF_hasPCR af_example" "\<not> AF_hasOPCR af_example" "\<not> AF_hasSplicingPoint af_example"
  "AF_hasTransportPrivateData af_example" "\<not> AF_hasAdaptationFieldExtension af_example"
  "AF_transportPrivateDataStart af_example = 12" "AF_transportPrivateDataLength af_example = 3"
  "AF_stuffingStart af_example = 15" "AF_stuffingEnd af_example = 55"
proof -
  show f: "AF_hasPCR af_example" "\<not> AF_hasOPCR af_example" "\<not> AF_hasSplicingPoint af_example"
    "AF_hasTransportPrivateData af_example" "\<not> AF_hasAdaptationFieldExtension af_example"
    by (simp_all add: af_flag_bits af_example_bytes)
  then show t: "AF_transportPrivateDataStart af_example = 12"
    by (simp add: AF_transportPrivateDataStart_def AF_pcrLength_def AF_opcrLength_def
        AF_spliceCountdownLength_def pcrStart_def)
  with f show "AF_transportPrivateDataLength af_example = 3"
    by (simp add: AF_transportPrivateDataLength_def PacketSize_def af_example_bytes)
  with f show "AF_stuffingStart af_example = 15"
    by (simp add: AF_stuffingStart_def AF_pcrLength_def AF_opcrLength_def AF_spliceCountdownLength_def
        AF_adaptationExtensionLength_def pcrStart_def)
  show "AF_stuffingEnd af_example = 55"
    by (simp add: AF_stuffingEnd_def PacketSize_def af_example_bytes)
qed

lemma af_example_ok: "af_ok af_example"
  using af_example_layout
  by (simp add: af_ok_def wf_packet_def PacketSize_def af_example_bytes AF_valid_def AF_getBit_def)

lemma af_example_view:
  "v_pcr (af_view af_example) \<noteq> None" "v_opcr (af_view af_example) = None"
  "v_tpd (af_view af_example) \<noteq> None" "v_ext (af_view af_example) = None"
  "v_splice (af_view af_example) = None"
  using af_example_layout by (simp_all add: af_view_def)

text \<open>
  The stuffing of a field, as the format counts it, and the part of it that the code uses: \<open>stuffingEnd\<close> stops before the
  last byte of the packet, so that one byte of a field that takes up the whole packet is never used.
\<close>

definition stuffing_bytes :: "AdaptationField \<Rightarrow> nat" where
  "stuffing_bytes p = 5 + unat (p ! 4) - (6 + length (af_bytes (af_view p)))"

definition usable_stuffing :: "AdaptationField \<Rightarrow> nat" where
  "usable_stuffing p = (if p ! 4 = 183 then stuffing_bytes p - 1 else stuffing_bytes p)"

lemma usable_stuffing:
  assumes "af_ok p" "0 < n"
  shows "AF_stuffingEnd p < AF_stuffingStart p + n \<longleftrightarrow> usable_stuffing p < n"
proof -
  note o = af_okD [OF assms(1)]
  have s: "AF_stuffingStart p = 6 + length (af_bytes (af_view p))" by (rule af_repr_layout(6) [OF o(10)])
  have "p ! 4 = 183 \<longleftrightarrow> unat (p ! 4) = 183" by (simp add: word_unat_eq_iff)
  then show ?thesis using o(4,6) s assms(2)
    by (auto simp: usable_stuffing_def stuffing_bytes_def AF_stuffingEnd_def Let_def PacketSize_def)
qed

text \<open>C2: on a packet with a well-formed adaptation field, \<open>SetHasPCR\<close>, \<open>SetHasOPCR\<close>
  and \<open>SetHasSplicingPoint\<close> never panic. They fail exactly when the part is to be added, is absent, and
  the stuffing that the code uses is shorter than the part (six bytes for a clock, one for the splicing point); that
  is all stuffing behind the optional parts except the last byte of a field of length 183, so such a field with no
  more than six bytes of stuffing refuses a clock that would fit. Otherwise the part is present as asked, every
  other part of the field is unchanged, and so are the header, the other flags and the payload.\<close>

theorem af_switch_parts:
  assumes "af_ok p"
  shows "(if b \<and> v_pcr (af_view p) = None \<and> usable_stuffing p < 6
      then AF_SetHasPCR p b = Err ErrAdaptationFieldCannotGrow
      else \<exists>q. AF_SetHasPCR p b = Ok q \<and> af_ok q \<and> same_outside p q \<and> (v_pcr (af_view q) \<noteq> None) = b \<and>
        (af_view q)\<lparr>v_pcr := None\<rparr> = (af_view p)\<lparr>v_pcr := None\<rparr>) \<and>
   (if b \<and> v_opcr (af_view p) = None \<and> usable_stuffing p < 6
      then AF_SetHasOPCR p b = Err ErrAdaptationFieldCannotGrow
      else \<exists>q. AF_SetHasOPCR p b = Ok q \<and> af_ok q \<and> same_outside p q \<and> (v_opcr (af_view q) \<noteq> None) = b \<and>
        (af_view q)\<lparr>v_opcr := None\<rparr> = (af_view p)\<lparr>v_opcr := None\<rparr>) \<and>
   (if b \<and> v_splice (af_view p) = None \<and> usable_stuffing p < 1
      then AF_SetHasSplicingPoint p b = Err ErrAdaptationFieldCannotGrow
      else \<exists>q. AF_SetHasSplicingPoint p b = Ok q \<and> af_ok q \<and> same_outside p q \<and> (v_splice (af_view q) \<noteq> None) = b \<and>
        (af_view q)\<lparr>v_splice := None\<rparr> = (af_view p)\<lparr>v_splice := None\<rparr>)"
  using pcr_opt.switch_exact [OF assms, of b] opcr_opt.switch_exact [OF assms, of b] splice_opt.switch_exact [OF assms, of b]
    usable_stuffing [OF assms, of 6] usable_stuffing [OF assms, of 1]
  by (simp only: not_not zero_less_numeral zero_less_one simp_thms)

theorem af_switch_parts_witness:
  "\<exists>q. AF_SetHasOPCR af_example True = Ok q \<and> v_opcr (af_view q) \<noteq> None \<and>
     v_tpd (af_view q) = v_tpd (af_view af_example) \<and> same_outside af_example q"
proof -
  have "\<not> usable_stuffing af_example < 6" using usable_stuffing [OF af_example_ok, of 6] af_example_layout by simp
  with af_switch_parts [OF af_example_ok, of True] show ?thesis by (auto dest: arg_cong [of _ _ v_tpd])
qed

text \<open>A field that takes up the whole packet refuses a clock for which its stuffing has room.\<close>

theorem full_field_refuses_clock:
  assumes "af_ok p" "p ! 4 = 183" "v_pcr (af_view p) = None" "stuffing_bytes p = 6"
  shows "AF_SetHasPCR p True = Err ErrAdaptationFieldCannotGrow"
  using pcr_opt.switch_exact [OF assms(1), of True] usable_stuffing [OF assms(1), of 6] assms(2-4)
  by (simp add: usable_stuffing_def)

lemma pcr_norm: "v < MaxPtsTicks * 300 \<Longrightarrow> take_bit 33 (v div 300) * 300 + v mod 300 = v"
  by (rule pcr_codec.norm_in_range)

text \<open>A clock reference below 300 * 2^33 written with \<open>SetPCR\<close> or \<open>SetOPCR\<close> is read back by
  \<open>PCR\<close> and \<open>OPCR\<close>; the other clock and everything else in the packet keep their values.\<close>

theorem af_pcr_roundtrip:
  assumes "af_ok p" "v < MaxPtsTicks * 300"
  shows "(v_pcr (af_view p) \<noteq> None \<longrightarrow> (\<exists>q. AF_SetPCR p v = Ok q \<and> AF_PCR q = Ok v \<and> AF_OPCR q = AF_OPCR p \<and>
      (af_view q)\<lparr>v_pcr := None\<rparr> = (af_view p)\<lparr>v_pcr := None\<rparr> \<and> same_outside p q)) \<and>
    (v_opcr (af_view p) \<noteq> None \<longrightarrow> (\<exists>q. AF_SetOPCR p v = Ok q \<and> AF_OPCR q = Ok v \<and> AF_PCR q = AF_PCR p \<and>
      (af_view q)\<lparr>v_opcr := None\<rparr> = (af_view p)\<lparr>v_opcr := None\<rparr> \<and> same_outside p q)) \<and>
    (v_pcr (af_view p) = None \<longrightarrow> AF_SetPCR p v = Err ErrNoPCR \<and> AF_PCR p = Err ErrNoPCR) \<and>
    (v_opcr (af_view p) = None \<longrightarrow> AF_SetOPCR p v = Err ErrNoOPCR \<and> AF_OPCR p = Err ErrNoOPCR)"
proof (intro conjI impI)
  assume "v_pcr (af_view p) \<noteq> None"
  from AF_SetPCR_view [OF assms(1) this, of v] show "\<exists>q. AF_SetPCR p v = Ok q \<and> AF_PCR q = Ok v \<and>
      AF_OPCR q = AF_OPCR p \<and> (af_view q)\<lparr>v_pcr := None\<rparr> = (af_view p)\<lparr>v_pcr := None\<rparr> \<and> same_outside p q"
    by (auto simp: AF_PCR_view AF_OPCR_view pcr_norm assms)
next
  assume "v_opcr (af_view p) \<noteq> None"
  from AF_SetOPCR_view [OF assms(1) this, of v] show "\<exists>q. AF_SetOPCR p v = Ok q \<and> AF_OPCR q = Ok v \<and>
      AF_PCR q = AF_PCR p \<and> (af_view q)\<lparr>v_opcr := None\<rparr> = (af_view p)\<lparr>v_opcr := None\<rparr> \<and> same_outside p q"
    by (auto simp: AF_PCR_view AF_OPCR_view pcr_norm assms)
qed (use view_has(1,2) [of p] assms in \<open>simp_all add: AF_PCR_view AF_OPCR_view AF_SetPCR_def AF_SetOPCR_def af_okD(7)\<close>)

theorem af_pcr_roundtrip_witness:
  "\<exists>q. AF_SetPCR af_example 123456789 = Ok q \<and> AF_PCR q = Ok 123456789 \<and> same_outside af_example q"
  using af_pcr_roundtrip [OF af_example_ok, of 123456789] af_example_view by (auto simp: MaxPtsTicks_def)

text \<open>Transport private data and the adaptation field extension written with
  \<open>SetTransportPrivateData\<close> and \<open>SetAdaptationFieldExtension\<close> are read back, preceded by their length
  byte, whatever the length of the old data; the write fails only for lack of stuffing, and nothing
  else in the packet changes.\<close>

theorem af_data_roundtrip:
  assumes "af_ok p"
  shows "(case AF_SetTransportPrivateData p data of
      Ok q \<Rightarrow> af_ok q \<and> af_view q = (af_view p)\<lparr>v_tpd := Some data\<rparr> \<and> same_outside p q \<and>
        AF_TransportPrivateData q = Ok (of_nat (length data) # data) \<and>
        AF_AdaptationFieldExtension q = AF_AdaptationFieldExtension p
    | Err e \<Rightarrow> (e = ErrNoPrivateTransportData \<and> v_tpd (af_view p) = None) \<or>
        (e = ErrAdaptationFieldCannotGrow \<and> AF_stuffingEnd p < AF_stuffingStart p + length data)
    | Panic \<Rightarrow> False) \<and>
   (case AF_SetAdaptationFieldExtension p data of
      Ok q \<Rightarrow> af_ok q \<and> af_view q = (af_view p)\<lparr>v_ext := Some data\<rparr> \<and> same_outside p q \<and>
        AF_AdaptationFieldExtension q = Ok (of_nat (length data) # data) \<and>
        AF_TransportPrivateData q = AF_TransportPrivateData p
    | Err e \<Rightarrow> (e = ErrNoAdaptationFieldExtension \<and> v_ext (af_view p) = None) \<or>
        (e = ErrAdaptationFieldCannotGrow \<and> AF_stuffingEnd p < AF_stuffingStart p + length data)
    | Panic \<Rightarrow> False)"
proof (rule conjI, goal_cases)
  case 1
  show ?case
    using tpd_data.set_data [OF assms, of _ data] tpd_data.set_absent [OF assms, of data]
      tpd_data.set_get [OF assms, of data] ext_data.get_data [OF assms] ext_data.get_data
    by (cases "v_tpd (af_view p)") (fastforce split: res.splits if_splits)+
next
  case 2
  show ?case
    using ext_data.set_data [OF assms, of _ data] ext_data.set_absent [OF assms, of data]
      ext_data.set_get [OF assms, of data] tpd_data.get_data [OF assms] tpd_data.get_data
    by (cases "v_ext (af_view p)") (fastforce split: res.splits if_splits)+
qed

theorem af_data_roundtrip_witness:
  "\<exists>q. AF_SetTransportPrivateData af_example [1, 2, 3, 4] = Ok q \<and>
     AF_TransportPrivateData q = Ok [4, 1, 2, 3, 4] \<and> same_outside af_example q"
  using af_data_roundtrip [OF af_example_ok, of "[1, 2, 3, 4]"] af_example_layout af_example_view
  by (auto split: res.splits)

text \<open>Switching transport private data off when it is off already is not harmless: the code still
  writes a zero length byte where the data would start.  It wipes the length of the adaptation
  field extension or, when the optional parts fill the field, the first byte of the payload.\<close>

theorem clear_absent_tpd_overwrites:
  assumes "af_ok p" "v_tpd (af_view p) = None"
  shows "AF_SetHasTransportPrivateData p False = Ok (p[AF_transportPrivateDataStart p := 0]) \<and>
    (AF_hasAdaptationFieldExtension p \<longrightarrow> AF_transportPrivateDataStart p = AF_adaptationExtensionStart p) \<and>
    (AF_stuffingStart p = 5 + unat (p ! 4) \<and> \<not> AF_hasAdaptationFieldExtension p \<longrightarrow>
      AF_transportPrivateDataStart p = payloadStart p)"
  using SetHasTPD_same [OF assms(1), of False] view_has(4) [of p] assms(2) af_okD(3) [OF assms(1)]
  by (simp add: AF_stuffingStart_def AF_transportPrivateDataStart_def AF_adaptationExtensionStart_def
      AF_transportPrivateDataLength_def AF_adaptationExtensionLength_def payloadStart_def header_getters)

definition af_full_example :: packet where
  "af_full_example = [0x47, 0x1f, 0xff, 0x30, 1, 0] @ replicate 182 7"

theorem clear_absent_tpd_overwrites_witness:
  "\<exists>q. AF_SetHasTransportPrivateData af_full_example False = Ok q \<and>
     Payload af_full_example = Ok (replicate 182 7) \<and> Payload q = Ok (0 # replicate 181 7)"
proof -
  have b: "length af_full_example = 188" "af_full_example ! 3 = 0x30" "af_full_example ! 4 = 1"
    "af_full_example ! 5 = 0"
    by (simp_all add: af_full_example_def nth_append)
  have f: "\<not> AF_hasPCR af_full_example" "\<not> AF_hasOPCR af_full_example" "\<not> AF_hasSplicingPoint af_full_example"
    "\<not> AF_hasTransportPrivateData af_full_example" "\<not> AF_hasAdaptationFieldExtension af_full_example"
    by (simp_all add: af_flag_bits b)
  then have s: "AF_stuffingStart af_full_example = 6" "AF_transportPrivateDataStart af_full_example = 6"
    by (simp_all add: AF_stuffingStart_def AF_transportPrivateDataStart_def AF_pcrLength_def AF_opcrLength_def
        AF_spliceCountdownLength_def AF_transportPrivateDataLength_def AF_adaptationExtensionLength_def pcrStart_def)
  have ok: "af_ok af_full_example"
    using f s b by (simp add: af_ok_def wf_packet_def PacketSize_def AF_valid_def AF_getBit_def)
  have "v_tpd (af_view af_full_example) = None" using f by (simp add: af_view_def)
  from clear_absent_tpd_overwrites [OF ok this] s
  have 1: "AF_SetHasTransportPrivateData af_full_example False = Ok (af_full_example[6 := 0])" by simp
  have 2: "Payload af_full_example = Ok (replicate 182 7)"
    using b by (simp add: Payload_def header_getters payloadStart_def) (simp add: af_full_example_def)
  have "af_full_example[6 := 0] = [0x47, 0x1f, 0xff, 0x30, 1, 0] @ 0 # replicate 181 7"
    using replicate_Suc [of 181 "7::byte"] by (simp add: af_full_example_def list_update_append del: replicate_Suc)
  moreover have "Payload ([0x47, 0x1f, 0xff, 0x30, 1, 0] @ 0 # replicate 181 7) = Ok (0 # replicate 181 7)"
    by (simp add: Payload_def header_getters payloadStart_def nth_append)
  ultimately show ?thesis using 1 2 by metis
qed

end
