(* ===== verification/Packet_Modify.thy ===== *)
theory Packet_Modify
  imports Packet_AF
begin

text \<open>
  The operations of \<^verbatim>\<open>gots/packet/modify.go\<close> that move data between the adaptation field and the
  payload: the adaptation field control, the exchange of adaptation fields, and the payload.
\<close>

section \<open>The code\<close>

text \<open>\<^verbatim>\<open>SetAdaptationFieldControl\<close> has changed the packet when it returns its error, so it gives both.\<close>

definition SetAdaptationFieldControl ::
  "packet \<Rightarrow> AdaptationFieldControlOptions \<Rightarrow> packet \<times> gots_error option" where
  "SetAdaptationFieldControl p value =
     (let hasAFBefore = HasAdaptationField p;
          p1 = p[3 := (p ! 3 AND NOT 0x30) OR push_bit 4 value];
          hasAFAfter = HasAdaptationField p1;
          p2 = (if \<not> hasAFBefore \<and> hasAFAfter then initAdaptationField p1 else p1)
      in if value = PayloadAndAdaptationFieldFlag \<and> AF_Length p2 = 183 then
           if AF_stuffingStart p2 < PacketSize then (AF_stuffAF (AF_setLength p2 182), None)
           else (p2, Some ErrAdaptationFieldTooLarge)
         else (p2, None))"

definition NewAdaptationField :: AdaptationField where
  "NewAdaptationField = fst (SetAdaptationFieldControl New AdaptationFieldFlag)"

definition Packet_AdaptationField :: "packet \<Rightarrow> AdaptationField res" where
  "Packet_AdaptationField p = (if HasAdaptationField p then Ok p else Err ErrNoAdaptationField)"

definition SetAdaptationField :: "packet \<Rightarrow> AdaptationField \<Rightarrow> packet res" where
  "SetAdaptationField p af =
     (if \<not> HasAdaptationField p then Err ErrNoAdaptationField
      else if AF_stuffingEnd p < AF_stuffingStart af then Err ErrAdaptationFieldTooLarge
      else res_bind (slice af 5 (AF_stuffingStart af)) (\<lambda>src.
           res_bind (copy_slice p 5 (AF_stuffingEnd p) src) (\<lambda>p'. Ok (AF_stuffAF p'))))"

definition Packet_payloadStart :: "packet \<Rightarrow> nat" where
  "Packet_payloadStart p = (if HasAdaptationField p then 4 + 1 + AF_Length p else 4)"

definition Packet_stuffingStart :: "packet \<Rightarrow> nat" where
  "Packet_stuffingStart p =
     (if \<not> HasAdaptationField p then 4
      else if AF_Length p = 0 then 5
      else AF_stuffingStart p)"

definition freeSpace :: "packet \<Rightarrow> int" where
  "freeSpace p = int PacketSize - int (Packet_stuffingStart p)"

text \<open>\<^verbatim>\<open>make\<close> of a negative length and a slice beyond the array are the two panics of \<open>Payload\<close>.\<close>

definition Packet_Payload :: "packet \<Rightarrow> byte list res" where
  "Packet_Payload p =
     (let afc = AdaptationFieldControl p
      in if afc = AdaptationFieldFlag then Err ErrNoPayload
         else let offset = Packet_payloadStart p
              in if offset > PacketSize then Panic
                 else res_bind (slice_from p offset) (\<lambda>s. Ok (go_copy (replicate (PacketSize - offset) 0) 0 s)))"

definition Packet_SetPayload :: "packet \<Rightarrow> byte list \<Rightarrow> (packet \<times> nat) res" where
  "Packet_SetPayload p data =
     (let afc = AdaptationFieldControl p
      in if afc = AdaptationFieldFlag then Err ErrNoPayload
         else let free = freeSpace p;
                  p1 = (if free > int (length data) then
                          let p' = fst (SetAdaptationFieldControl p PayloadAndAdaptationFieldFlag)
                          in AF_stuffAF (AF_setLength p' (int PacketSize - (int (length data) + 4 + 1)))
                        else if HasAdaptationField p
                          then AF_setLength p (int PacketSize - (free + 4 + 1))
                        else p);
                  offset = Packet_payloadStart p1
              in if offset > length p1 then Panic
                 else Ok (go_copy p1 offset data, min (length p1 - offset) (length data)))"

section \<open>Lemmas\<close>

lemma header_of_cong: "p ! 1 = q ! 1 \<Longrightarrow> p ! 2 = q ! 2 \<Longrightarrow> p ! 3 = q ! 3 \<Longrightarrow> header_of p = header_of q"
  by (simp add: header_of_def header_getters PID_alt TSC_alt AFC_alt CC_alt)

lemma AFC_bits:
  "AdaptationFieldControl p = 1 \<longleftrightarrow> HasPayload p \<and> \<not> HasAdaptationField p"
  "AdaptationFieldControl p = 2 \<longleftrightarrow> \<not> HasPayload p \<and> HasAdaptationField p"
  "AdaptationFieldControl p = 3 \<longleftrightarrow> HasPayload p \<and> HasAdaptationField p"
proof -
  have b: "take_bit 2 (drop_bit 4 w) = v \<longleftrightarrow> bit w 4 = bit v 0 \<and> bit w 5 = bit v 1"
    if "v \<in> {1, 2, 3}" for w v :: byte
  proof
    assume "take_bit 2 (drop_bit 4 w) = v"
    then have "bit (take_bit 2 (drop_bit 4 w)) n = bit v n" for n by simp
    from this [of 0] this [of 1] show "bit w 4 = bit v 0 \<and> bit w 5 = bit v 1" by (simp add: bit_simps)
  next
    assume h: "bit w 4 = bit v 0 \<and> bit w 5 = bit v 1"
    show "take_bit 2 (drop_bit 4 w) = v"
      by (rule byte_eqI) (use that h in \<open>auto simp: bit_simps\<close>)
  qed
  show "AdaptationFieldControl p = 1 \<longleftrightarrow> HasPayload p \<and> \<not> HasAdaptationField p"
    "AdaptationFieldControl p = 2 \<longleftrightarrow> \<not> HasPayload p \<and> HasAdaptationField p"
    "AdaptationFieldControl p = 3 \<longleftrightarrow> HasPayload p \<and> HasAdaptationField p"
    unfolding AFC_alt header_getters by (subst b; simp)+
qed

lemma AFC3_update:
  assumes "wf_packet p"
  shows "AdaptationFieldControl (p[3 := (p ! 3 AND NOT 0x30) OR push_bit 4 3]) = 3"
    "header_of (p[3 := (p ! 3 AND NOT 0x30) OR push_bit 4 3]) = (header_of p)\<lparr>h_afc := 3\<rparr>"
proof -
  let ?q = "p[3 := (p ! 3 AND NOT 0x30) OR push_bit 4 3]"
  have n: "?q ! 3 = (p ! 3 AND NOT 0x30) OR push_bit 4 3" "?q ! 1 = p ! 1" "?q ! 2 = p ! 2"
    using assms by simp_all
  show "AdaptationFieldControl ?q = 3"
    unfolding AFC_alt n by (subst hdr_byte3_afc) simp_all
  have l: "(3 :: byte) < 4" by simp
  show "header_of ?q = (header_of p)\<lparr>h_afc := 3\<rparr>"
    unfolding header_of_def header_getters PID_alt TSC_alt AFC_alt CC_alt n hdr_byte3_afc [OF l] by simp
qed

lemma af_prefix:
  assumes ok: "af_ok p" and q: "length q = 188"
    and same: "\<And>i. i < AF_stuffingStart p \<Longrightarrow> i \<noteq> 4 \<Longrightarrow> i \<noteq> 3 \<Longrightarrow> q ! i = p ! i"
  shows "af_view q = af_view p" "AF_stuffingStart q = AF_stuffingStart p"
    "AF_adaptationExtensionStart q = AF_adaptationExtensionStart p" "q ! 5 = p ! 5"
proof -
  note o = af_okD [OF ok]
  have st: "AF_stuffingStart p = 6 + length (af_bytes (af_view p))"
    using af_repr_layout(6) [OF o(10)] .
  show q5: "q ! 5 = p ! 5" using same [of 5] st by simp
  have pp: "p = take 5 p @ p ! 5 # af_bytes (af_view p) @ drop (AF_stuffingStart p) p"
    using o(10) by (simp add: af_repr_def)
  have ab: "af_bytes (af_view p) = take (AF_stuffingStart p - 6) (drop 6 p)"
    using st by (subst (2) pp) (simp add: o(1))
  also have "\<dots> = take (AF_stuffingStart p - 6) (drop 6 q)"
    by (rule nth_equalityI) (use same o(1) q in auto)
  finally have aq: "af_bytes (af_view p) = take (AF_stuffingStart p - 6) (drop 6 q)" .
  have "q = take 5 q @ q ! 5 # drop 6 q" using q id_take_nth_drop [of 5 q] by simp
  moreover have "drop 6 q = af_bytes (af_view p) @ drop (AF_stuffingStart p) q"
    using st take_drop_chunk [of 6 q "AF_stuffingStart p - 6"] unfolding aq by simp
  ultimately have r: "af_repr q (take 5 q) (p ! 5) (af_view p) (drop (AF_stuffingStart p) q)"
    using q q5 af_view_ok [OF ok] by (simp add: af_repr_def)
  show "af_view q = af_view p" using af_repr_view [OF r] .
  show "AF_stuffingStart q = AF_stuffingStart p" using af_repr_layout(6) [OF r] st by simp
  show "AF_adaptationExtensionStart q = AF_adaptationExtensionStart p"
    using af_repr_layout [OF r] af_starts(5) [OF ok] by (simp add: AF_adaptationExtensionStart_def pcrStart_def)
qed

lemma Payload_eq:
  assumes "wf_packet q" "HasPayload q" "Packet_payloadStart q = k" "k \<le> 188"
  shows "Packet_Payload q = Ok (drop k q)"
  using assms AFC_bits(2) [of q]
  by (simp add: Packet_Payload_def Let_def packet_consts go_copy_def)

lemma copied_payload:
  assumes "wf_packet q" "k \<le> 188" "188 \<le> k + length data"
  shows "drop k (go_copy q k data) = take (188 - k) data"
  using assms by (simp add: go_copy_def)

lemma stuffingStart_ge: "6 \<le> AF_stuffingStart p"
  by (simp add: AF_stuffingStart_def pcrStart_def)

lemma length_stuffAF [simp]: "length (AF_stuffAF p) = length p"
  by (simp add: AF_stuffAF_def)

lemma length_setLength [simp]: "length (AF_setLength p x) = length p"
  by (simp add: AF_setLength_def)

lemma nth_stuffAF: "i < length p \<Longrightarrow> AF_stuffAF p ! i =
    (if AF_stuffingStart p \<le> i \<and> i < AF_stuffingEnd p then 0xFF else p ! i)"
  by (simp add: AF_stuffAF_def nth_fill)

lemma stuffAF_low: "i < 6 \<Longrightarrow> i < length p \<Longrightarrow> AF_stuffAF p ! i = p ! i"
  using stuffingStart_ge [of p] by (simp add: nth_stuffAF)

lemma nth_setLength: "4 < length p \<Longrightarrow> AF_setLength p x ! i = (if i = 4 then word_of_int x else p ! i)"
  by (simp add: AF_setLength_def nth_list_update)

lemma SetAFC3:
  assumes wf: "wf_packet p"
  defines "q \<equiv> fst (SetAdaptationFieldControl p PayloadAndAdaptationFieldFlag)"
  shows "wf_packet q" "header_of q = (header_of p)\<lparr>h_afc := 3\<rparr>" "q ! 0 = p ! 0"
    "AdaptationFieldControl q = 3" "\<not> HasAdaptationField p \<Longrightarrow> q ! 5 = 0"
    "HasAdaptationField p \<Longrightarrow> q ! 5 = p ! 5"
    "af_ok p \<Longrightarrow> i < AF_stuffingStart p \<Longrightarrow> i \<noteq> 3 \<Longrightarrow> i \<noteq> 4 \<Longrightarrow> q ! i = p ! i"
proof -
  let ?p1 = "p[3 := (p ! 3 AND NOT 0x30) OR push_bit 4 3]"
  let ?p2 = "if \<not> HasAdaptationField p then initAdaptationField ?p1 else ?p1"
  have l [simp]: "length p = 188" using wf by simp
  have has: "HasAdaptationField ?p1" using AFC3_update(1) [OF wf] AFC_bits(3) [of ?p1] by simp
  have q: "q = (if AF_Length ?p2 = 183 \<and> AF_stuffingStart ?p2 < PacketSize
      then AF_stuffAF (AF_setLength ?p2 182) else ?p2)"
    using has unfolding q_def SetAdaptationFieldControl_def Let_def packet_consts by auto
  have l2: "length ?p2 = 188" by (simp add: initAdaptationField_def)
  have low2: "?p2 ! i = ?p1 ! i" if "i < 4" for i
    using that by (simp add: initAdaptationField_def nth_fill)
  have lq: "length q = 188" using q l2 by auto
  then show "wf_packet q" by (simp add: wf_packet_def PacketSize_def)
  have lowq: "q ! i = ?p2 ! i" if "i < 6" "i \<noteq> 4" for i
    using that l2 unfolding q by (auto simp: stuffAF_low nth_setLength)
  have lo: "q ! 1 = ?p1 ! 1" "q ! 2 = ?p1 ! 2" "q ! 3 = ?p1 ! 3"
    using lowq low2 by simp_all
  have h: "header_of q = header_of ?p1" by (rule header_of_cong) (use lo in simp_all)
  with AFC3_update(2) [OF wf] show "header_of q = (header_of p)\<lparr>h_afc := 3\<rparr>" by simp
  from lo(3) AFC3_update(1) [OF wf] show "AdaptationFieldControl q = 3" by (simp add: AFC_alt)
  show "q ! 0 = p ! 0" using lowq [of 0] low2 [of 0] by simp
  show "q ! 5 = 0" if "\<not> HasAdaptationField p"
    using that lowq [of 5] by (simp add: initAdaptationField_def nth_fill)
  show "q ! 5 = p ! 5" if "HasAdaptationField p"
    using that lowq [of 5] by simp
  show "q ! i = p ! i" if ok: "af_ok p" and i: "i < AF_stuffingStart p" "i \<noteq> 3" "i \<noteq> 4"
  proof -
    have "HasAdaptationField p" using af_okD(3) [OF ok] by (simp add: header_getters)
    then have p2: "?p2 = ?p1" by simp
    have "AF_stuffingStart (AF_setLength ?p1 182) = AF_stuffingStart p"
      by (rule af_prefix [OF ok]) (simp_all add: nth_setLength)
    moreover have "i < 188" using i af_okD(4,6) [OF ok] by simp
    ultimately show ?thesis
      using i unfolding q p2 by (auto simp: nth_stuffAF nth_setLength)
  qed
qed

lemma SetAFC3_last:
  assumes wf: "wf_packet p"
  shows "fst (SetAdaptationFieldControl p PayloadAndAdaptationFieldFlag) ! 187 = (if HasAdaptationField p then p ! 187 else 0xFF)"
proof -
  let ?p1 = "p[3 := (p ! 3 AND NOT 0x30) OR push_bit 4 3]"
  have l [simp]: "length p = 188" using wf by simp
  have has: "HasAdaptationField ?p1" using AFC3_update(1) [OF wf] AFC_bits(3) [of ?p1] by simp
  have e: "AF_stuffAF q ! 187 = q ! 187" if "length q = 188" for q
    using that by (simp add: nth_stuffAF AF_stuffingEnd_def Let_def PacketSize_def)
  show ?thesis
    using has unfolding SetAdaptationFieldControl_def Let_def packet_consts
    by (auto simp: e nth_setLength initAdaptationField_def nth_fill)
qed

text \<open>The packet that \<open>SetPayload\<close> copies the data into.\<close>

definition prepared :: "packet \<Rightarrow> byte list \<Rightarrow> packet" where
  "prepared p data =
     (if freeSpace p > int (length data) then
        AF_stuffAF (AF_setLength (fst (SetAdaptationFieldControl p PayloadAndAdaptationFieldFlag))
          (int PacketSize - (int (length data) + 4 + 1)))
      else if HasAdaptationField p then AF_setLength p (int PacketSize - (freeSpace p + 4 + 1))
      else p)"

lemma SetPayload_prepared:
  "Packet_SetPayload p data =
     (if AdaptationFieldControl p = AdaptationFieldFlag then Err ErrNoPayload
      else let p1 = prepared p data; offset = Packet_payloadStart p1
           in if offset > length p1 then Panic
              else Ok (go_copy p1 offset data, min (length p1 - offset) (length data)))"
  unfolding Packet_SetPayload_def Let_def prepared_def by simp

lemma prepared_short:
  assumes wf: "wf_packet p" and short: "freeSpace p > int (length data)" and le: "freeSpace p \<le> 184"
  shows "wf_packet (prepared p data)" "header_of (prepared p data) = (header_of p)\<lparr>h_afc := 3\<rparr>"
    "prepared p data ! 0 = p ! 0" "unat (prepared p data ! 4) = 183 - length data"
    "HasPayload (prepared p data)" "HasAdaptationField (prepared p data)"
    "HasAdaptationField p \<Longrightarrow> prepared p data ! 5 = p ! 5"
    "af_ok p \<Longrightarrow> i < AF_stuffingStart p \<Longrightarrow> i \<noteq> 3 \<Longrightarrow> i \<noteq> 4 \<Longrightarrow> prepared p data ! i = p ! i"
    "\<not> HasAdaptationField p \<Longrightarrow> prepared p data ! 5 = 0"
proof -
  let ?r = "fst (SetAdaptationFieldControl p PayloadAndAdaptationFieldFlag)"
  note a = SetAFC3 [OF wf]
  have lr: "length ?r = 188" using a(1) by simp
  have q: "prepared p data = AF_stuffAF (AF_setLength ?r (int PacketSize - (int (length data) + 4 + 1)))"
    using short by (simp add: prepared_def)
  show "wf_packet (prepared p data)" using lr by (simp add: q wf_packet_def PacketSize_def)
  have low: "prepared p data ! i = ?r ! i" if "i < 6" "i \<noteq> 4" for i
    using that lr by (simp add: q stuffAF_low nth_setLength)
  have "header_of (prepared p data) = header_of ?r" by (rule header_of_cong) (simp_all add: low)
  with a(2) show "header_of (prepared p data) = (header_of p)\<lparr>h_afc := 3\<rparr>" by simp
  then have "AdaptationFieldControl (prepared p data) = 3" by (simp add: header_of_def)
  then show "HasPayload (prepared p data)" "HasAdaptationField (prepared p data)" by (simp_all add: AFC_bits)
  show "prepared p data ! 0 = p ! 0" using low [of 0] a(3) by simp
  show "HasAdaptationField p \<Longrightarrow> prepared p data ! 5 = p ! 5" using low [of 5] a(6) by simp
  show "\<not> HasAdaptationField p \<Longrightarrow> prepared p data ! 5 = 0" using low [of 5] a(5) by simp
  have "prepared p data ! 4 = word_of_int (183 - int (length data))"
    using lr by (simp add: q stuffAF_low nth_setLength PacketSize_def)
  moreover have "length data \<le> 183" using short le by linarith
  ultimately have "prepared p data ! 4 = of_nat (183 - length data)" by (simp add: of_nat_diff)
  then show "unat (prepared p data ! 4) = 183 - length data" by (simp add: unat_of_nat)
  show "prepared p data ! i = p ! i" if ok: "af_ok p" and i: "i < AF_stuffingStart p" "i \<noteq> 3" "i \<noteq> 4"
  proof -
    have "AF_stuffingStart (AF_setLength ?r (int PacketSize - (int (length data) + 4 + 1))) = AF_stuffingStart p"
      by (rule af_prefix [OF ok]) (use lr a(7) [OF ok] in \<open>simp_all add: nth_setLength\<close>)
    moreover have "i < 188" using i af_okD(4,6) [OF ok] by simp
    ultimately show ?thesis using i lr a(7) [OF ok] by (simp add: q nth_stuffAF nth_setLength)
  qed
qed

lemma copy_high:
  assumes "wf_packet p" "k \<le> 188" "i < k"
  shows "go_copy p k data ! i = p ! i"
  using assms by (simp add: nth_go_copy)

text \<open>Copying data that reaches the end of the packet, at the payload offset.\<close>

lemma SetPayload_at:
  assumes wf: "wf_packet p1" and hp: "HasPayload p1" and o: "Packet_payloadStart p1 = k" "k \<le> 188"
    and n: "188 \<le> k + length data"
  shows "wf_packet (go_copy p1 k data)" "header_of (go_copy p1 k data) = header_of p1"
    "Packet_Payload (go_copy p1 k data) = Ok (take (188 - k) data)" "go_copy p1 k data ! 0 = p1 ! 0"
    "Packet_payloadStart (go_copy p1 k data) = k"
proof -
  let ?q = "go_copy p1 k data"
  have k4: "4 \<le> k" using o by (auto simp: Packet_payloadStart_def)
  show wq: "wf_packet ?q" using wf o(2) by (simp add: wf_packet_def PacketSize_def)
  have low: "?q ! i = p1 ! i" if "i < k" for i using copy_high [OF wf o(2) that] .
  show h: "header_of ?q = header_of p1" by (rule header_of_cong) (use k4 low in simp_all)
  show "?q ! 0 = p1 ! 0" using low [of 0] k4 by simp
  have b3: "?q ! 3 = p1 ! 3" using low [of 3] k4 by simp
  then have "HasPayload ?q" "HasAdaptationField ?q = HasAdaptationField p1"
    using hp by (simp_all add: header_getters)
  moreover have "HasAdaptationField p1 \<Longrightarrow> ?q ! 4 = p1 ! 4"
    using low [of 4] o(1) by (simp add: Packet_payloadStart_def)
  ultimately have ps: "Packet_payloadStart ?q = k" using o(1) by (auto simp: Packet_payloadStart_def AF_Length_def)
  then show "Packet_payloadStart ?q = k" .
  show "Packet_Payload ?q = Ok (take (188 - k) data)"
    using Payload_eq [OF wq \<open>HasPayload ?q\<close> ps o(2)] copied_payload [OF wf o(2) n] by simp
qed

section \<open>Properties\<close>

lemma freeSpace_alt:
  assumes "HasAdaptationField p \<Longrightarrow> af_ok p"
  shows "freeSpace p = (if HasAdaptationField p then 188 - int (AF_stuffingStart p) else 184)"
    and "HasAdaptationField p \<Longrightarrow> AF_stuffingStart p \<le> 188"
proof -
  show "freeSpace p = (if HasAdaptationField p then 188 - int (AF_stuffingStart p) else 184)"
    using assms af_okD(2) [of p] by (auto simp: freeSpace_def Packet_stuffingStart_def AF_Length_def PacketSize_def unat_eq_0)
  show "HasAdaptationField p \<Longrightarrow> AF_stuffingStart p \<le> 188" using assms af_okD(4,6) [of p] by force
qed

definition stuffed_from :: "packet \<Rightarrow> nat" where
  "stuffed_from p = (if HasAdaptationField p then AF_stuffingStart p else 6)"

text \<open>The stuffing that \<open>SetPayload\<close> writes.  The last byte of the packet is not written when it belongs to the stuffing.\<close>

lemma prepared_stuffed:
  assumes wf: "wf_packet p" and short: "freeSpace p > int (length data)" and le: "freeSpace p \<le> 184"
    and af: "HasAdaptationField p \<Longrightarrow> af_ok p" and i: "stuffed_from p \<le> i" "i < 188 - length data"
  shows "prepared p data ! i = (if i = 187 \<and> HasAdaptationField p then p ! 187 else 0xFF)"
proof -
  let ?r = "fst (SetAdaptationFieldControl p PayloadAndAdaptationFieldFlag)"
  let ?l = "AF_setLength ?r (int PacketSize - (int (length data) + 4 + 1))"
  note a = SetAFC3 [OF wf]
  have lr: "length ?r = 188" using a(1) by simp
  have dl: "length data \<le> 183" using short le by linarith
  have s: "AF_stuffingStart ?l = stuffed_from p"
  proof (cases "HasAdaptationField p")
    case True
    then show ?thesis using af_prefix(2) [OF af [OF True], of ?l] lr a(7) [OF af [OF True]]
      by (simp add: nth_setLength stuffed_from_def)
  next
    case False
    then have "?l ! 5 = 0" using a(5) lr by (simp add: nth_setLength)
    then show ?thesis using False by (simp add: stuffed_from_def AF_stuffingStart_def af_flag_bits pcrStart_def AF_pcrLength_def AF_opcrLength_def
        AF_spliceCountdownLength_def AF_transportPrivateDataLength_def AF_adaptationExtensionLength_def)
  qed
  have "?l ! 4 = of_nat (183 - length data)" using lr dl by (simp add: nth_setLength PacketSize_def of_nat_diff)
  then have "unat (?l ! 4) = 183 - length data" by (simp only: unat_of_nat) simp
  then have "AF_stuffingEnd ?l = min 187 (188 - length data)"
    unfolding AF_stuffingEnd_def Let_def PacketSize_def using dl by auto
  then have n: "prepared p data ! i = (if i < 187 then 0xFF else ?r ! i)"
    using i s short stuffingStart_ge [of ?l] lr by (auto simp: prepared_def nth_stuffAF nth_setLength)
  have "?r ! 187 = (if HasAdaptationField p then p ! 187 else 0xFF)" by (rule SetAFC3_last [OF wf])
  then show ?thesis using n i(2) by (cases "i = 187") auto
qed

text \<open>The packet that SetPayload has made room in, for \<open>n\<close> bytes.\<close>

definition room_made :: "packet \<Rightarrow> byte list \<Rightarrow> nat \<Rightarrow> packet \<Rightarrow> bool" where
  "room_made p data n q \<longleftrightarrow> wf_packet q \<and> HasPayload q \<and> Packet_payloadStart q = 188 - n \<and>
     (header_of q)\<lparr>h_afc := 0\<rparr> = (header_of p)\<lparr>h_afc := 0\<rparr> \<and> q ! 0 = p ! 0 \<and>
     188 \<le> (188 - n) + length data \<and> (HasAdaptationField q \<longleftrightarrow> HasAdaptationField p \<or> length data < 184) \<and>
     (\<forall>i. stuffed_from p \<le> i \<and> i < 188 - n \<longrightarrow> q ! i = (if i = 187 \<and> HasAdaptationField p then p ! 187 else 0xFF)) \<and>
     (\<not> HasAdaptationField p \<and> length data < 184 \<longrightarrow> q ! 5 = 0) \<and>
     (HasAdaptationField p \<longrightarrow> HasAdaptationField q \<and> AF_stuffingStart p \<le> 188 - n \<and>
       (\<forall>i < AF_stuffingStart p. i \<noteq> 3 \<longrightarrow> i \<noteq> 4 \<longrightarrow> q ! i = p ! i))"

lemma room_made_short:
  assumes wf: "wf_packet p" and af: "HasAdaptationField p \<Longrightarrow> af_ok p" and True: "freeSpace p > int (length data)"
  shows "room_made p data (min (nat (freeSpace p)) (length data)) (prepared p data)" (is "room_made p data ?n ?p1")
proof -
  have fs: "freeSpace p = (if HasAdaptationField p then 188 - int (AF_stuffingStart p) else 184)"
    and ssle: "HasAdaptationField p \<Longrightarrow> AF_stuffingStart p \<le> 188" using freeSpace_alt [of p] af by simp_all
  have le: "freeSpace p \<le> 184" using fs stuffingStart_ge [of p] by auto
  note a = prepared_short [OF wf True le]
  have nn: "?n = length data" using True by simp
  have "length data \<le> 183" using True le by linarith
  then have "Packet_payloadStart ?p1 = 188 - ?n" unfolding nn
    using a(4,6) by (simp add: Packet_payloadStart_def AF_Length_def)
  moreover have "AF_stuffingStart p \<le> 188 - ?n" if "HasAdaptationField p"
    using that fs True ssle nn by auto
  moreover have "(header_of ?p1)\<lparr>h_afc := 0\<rparr> = (header_of p)\<lparr>h_afc := 0\<rparr>" using a(2) by simp
  moreover have "\<forall>i < AF_stuffingStart p. i \<noteq> 3 \<longrightarrow> i \<noteq> 4 \<longrightarrow> ?p1 ! i = p ! i" if "HasAdaptationField p"
    using a(8) af that by blast
  moreover have "\<forall>i. stuffed_from p \<le> i \<and> i < 188 - ?n \<longrightarrow>
      ?p1 ! i = (if i = 187 \<and> HasAdaptationField p then p ! 187 else 0xFF)"
    using prepared_stuffed [OF wf True le af] nn by simp
  moreover have "?p1 ! 5 = 0" if "\<not> HasAdaptationField p" using a(9) that by simp
  ultimately show ?thesis unfolding room_made_def using a(1,3,5,6) nn \<open>length data \<le> 183\<close> by simp
qed

lemma room_made_long:
  assumes wf: "wf_packet p" and pl: "HasPayload p" and af: "HasAdaptationField p \<Longrightarrow> af_ok p"
    and False: "\<not> freeSpace p > int (length data)"
  shows "room_made p data (min (nat (freeSpace p)) (length data)) (prepared p data)" (is "room_made p data ?n ?p1")
proof -
  have fs: "freeSpace p = (if HasAdaptationField p then 188 - int (AF_stuffingStart p) else 184)"
    and ssle: "HasAdaptationField p \<Longrightarrow> AF_stuffingStart p \<le> 188" using freeSpace_alt [of p] af by simp_all
  have nn: "?n = nat (freeSpace p)" using False by simp
  show ?thesis
  proof (cases "HasAdaptationField p")
    case no: False
    then have "?p1 = p" using False by (simp add: prepared_def)
    moreover have "?n = 184" using nn no fs by simp
    moreover have "184 \<le> length data" using False no fs by simp
    ultimately show ?thesis unfolding room_made_def using wf pl no by (auto simp: Packet_payloadStart_def stuffed_from_def)
  next
    case has: True
    from af [OF has] have ok: "af_ok p" .
    have l: "length p = 188" using wf by simp
    let ?s = "AF_stuffingStart p"
    have n1: "188 - ?n = ?s" using nn has fs ssle by simp
    have p1: "?p1 = AF_setLength p (int ?s - 5)"
      using False has fs by (simp add: prepared_def PacketSize_def)
    have nth: "?p1 ! i = p ! i" if "i \<noteq> 4" for i using that l by (simp add: p1 nth_setLength)
    have e: "int ?s - 5 = int (?s - 5)" using stuffingStart_ge [of p] by linarith
    have "?p1 ! 4 = of_nat (?s - 5)" using l unfolding p1 e by (simp add: nth_setLength)
    then have "unat (?p1 ! 4) = ?s - 5" using ssle [OF has] by (simp add: unat_of_nat)
    moreover have hb: "HasAdaptationField ?p1" "HasPayload ?p1"
      using has pl nth [of 3] by (simp_all add: header_getters)
    ultimately have "Packet_payloadStart ?p1 = ?s"
      using stuffingStart_ge [of p] by (simp add: Packet_payloadStart_def AF_Length_def)
    moreover have "header_of ?p1 = header_of p" by (rule header_of_cong) (simp_all add: nth)
    moreover have "wf_packet ?p1" using l by (simp add: p1 wf_packet_def PacketSize_def)
    moreover have "188 \<le> ?s + length data" using False has fs by simp
    ultimately show ?thesis unfolding room_made_def using hb nth n1 has by (auto simp: stuffed_from_def)
  qed
qed

text \<open>The adaptation field is as before when the payload is behind it.\<close>

lemma room_made_af:
  assumes af: "af_ok p" and has: "HasAdaptationField p" and P1: "room_made p data n q1" and n: "n \<le> 184" "n \<le> 188"
  defines "q \<equiv> go_copy q1 (188 - n) data"
  shows "af_ok q \<and> af_view q = af_view p \<and> AF_stuffingStart q = AF_stuffingStart p"
proof -
  let ?k = "188 - n"
  have w1: "wf_packet q1" and h1: "HasPayload q1" and k1: "Packet_payloadStart q1 = ?k" and d1: "188 \<le> ?k + length data"
    using P1 by (simp_all add: room_made_def)
  have kle: "?k \<le> 188" by simp
  note at = SetPayload_at [OF w1 h1 k1 kle d1, folded q_def]
  from P1 has have f: "AF_stuffingStart p \<le> ?k" "HasAdaptationField q1"
    "\<forall>i < AF_stuffingStart p. i \<noteq> 3 \<longrightarrow> i \<noteq> 4 \<longrightarrow> q1 ! i = p ! i" by (auto simp: room_made_def)
  have g: "6 \<le> ?k" using f(1) stuffingStart_ge [of p] by linarith
  have low: "q ! i = q1 ! i" if "i < ?k" for i unfolding q_def by (rule copy_high [OF w1 kle that])
  have lq: "length q = 188" using at(1) by simp
  have same: "q ! i = p ! i" if "i < AF_stuffingStart p" "i \<noteq> 4" "i \<noteq> 3" for i
    using low [of i] f that by auto
  note pre = af_prefix [OF af lq same]
  have hq: "HasAdaptationField q" using f(2) low [of 3] g by (simp add: header_getters)
  have len: "5 + unat (q ! 4) = ?k"
    using at(5) hq by (simp add: Packet_payloadStart_def AF_Length_def)
  have "af_ok q"
    unfolding af_ok_def
  proof (intro conjI impI)
    show "wf_packet q" by (rule at(1))
    have "q ! 4 \<noteq> 0" using len g by (auto simp: unat_eq_0)
    then show "AF_valid q = None"
      using hq by (simp add: AF_valid_def AF_getBit_def and_single_bit header_getters)
    show "unat (q ! 4) \<le> 183" using len by linarith
    show "AF_stuffingStart q \<le> 5 + unat (q ! 4)" using len f(1) pre(2) by simp
    assume "AF_hasAdaptationFieldExtension q"
    then have "AF_hasAdaptationFieldExtension p" using pre(4) by (simp add: af_flag_bits)
    then have "v_ext (af_view p) \<noteq> None" using view_has(5) [of p] by simp
    then have "AF_adaptationExtensionStart p < AF_stuffingStart p"
      using af_repr_layout [OF af_okD(10) [OF af]]
      by (auto simp: AF_stuffingStart_def AF_adaptationExtensionStart_def)
    then show "AF_adaptationExtensionStart q < 5 + unat (q ! 4)" using pre(3) f(1) len by simp
  qed
  then show ?thesis using pre(1,2) by simp
qed

text \<open>C1: \<open>SetPayload\<close> on a packet with a payload and either no adaptation field or a well-formed
  one never panics: it stores as many bytes as fit beside the optional parts of the adaptation field and returns
  their number; \<open>Payload\<close> then gives exactly these bytes. There is an adaptation field afterwards if
  there was one or if the data are shorter than 184 bytes; it takes up the whole rest of the packet, everything
  behind its optional parts is stuffing of 0xFF, an old field keeps all its optional parts and stays well-formed,
  and a new one that is not empty has no parts. The one byte that is left as it was is the last one of the packet
  when no data are stored beside an old adaptation field. Of the header only the adaptation field control may
  change.\<close>

theorem SetPayload_roundtrip:
  assumes wf: "wf_packet p" and pl: "HasPayload p" and af: "HasAdaptationField p \<Longrightarrow> af_ok p"
  shows "\<exists>q n. n = min (nat (freeSpace p)) (length data) \<and> Packet_SetPayload p data = Ok (q, n) \<and> wf_packet q \<and>
    Packet_Payload q = Ok (take n data) \<and>
    (HasAdaptationField q \<longleftrightarrow> HasAdaptationField p \<or> length data < 184) \<and>
    (HasAdaptationField q \<longrightarrow> 5 + unat (q ! 4) = 188 - n) \<and>
    (\<forall>i. AF_stuffingStart q \<le> i \<and> i < 188 - n \<longrightarrow>
      q ! i = (if i = 187 \<and> HasAdaptationField p then p ! 187 else 0xFF)) \<and>
    (HasAdaptationField p \<longrightarrow> af_ok q \<and> af_view q = af_view p) \<and>
    (\<not> HasAdaptationField p \<and> length data < 183 \<longrightarrow> q ! 5 = 0) \<and>
    (header_of q)\<lparr>h_afc := 0\<rparr> = (header_of p)\<lparr>h_afc := 0\<rparr> \<and> q ! 0 = p ! 0"
proof -
  let ?n = "min (nat (freeSpace p)) (length data)"
  let ?p1 = "prepared p data" and ?k = "188 - ?n"
  let ?q = "go_copy ?p1 ?k data"
  have na: "AdaptationFieldControl p \<noteq> AdaptationFieldFlag"
    using pl AFC_bits(2) [of p] by (simp add: AdaptationFieldFlag_def)
  have n: "?n \<le> 184" using freeSpace_alt [OF af] stuffingStart_ge [of p] by auto
  have P1: "room_made p data ?n ?p1" using room_made_short [OF wf af] room_made_long [OF wf pl af] by blast
  note r = P1 [unfolded room_made_def]
  from r have w1: "wf_packet ?p1" and h1: "HasPayload ?p1" and k1: "Packet_payloadStart ?p1 = ?k" and d1: "188 \<le> ?k + length data"
    by blast+
  have kle: "?k \<le> 188" by simp
  note at = SetPayload_at [OF w1 h1 k1 kle d1]
  have l1: "length ?p1 = 188" using w1 by simp
  have kn: "188 - ?k = ?n" using n by simp
  have low: "?q ! i = ?p1 ! i" if "i < ?k" for i by (rule copy_high [OF w1 kle that])
  have hq: "HasAdaptationField ?q = HasAdaptationField ?p1" using low [of 3] n by (simp add: header_getters)
  have old: "af_ok ?q \<and> af_view ?q = af_view p \<and> AF_stuffingStart ?q = AF_stuffingStart p" if "HasAdaptationField p"
    using room_made_af [OF af [OF that] that P1] n by simp
  have "stuffed_from p \<le> AF_stuffingStart ?q" using old stuffingStart_ge [of ?q] by (simp add: stuffed_from_def)
  then have "\<forall>i. AF_stuffingStart ?q \<le> i \<and> i < ?k \<longrightarrow> ?q ! i = (if i = 187 \<and> HasAdaptationField p then p ! 187 else 0xFF)"
    using r low by auto
  moreover have "?q ! 5 = 0" if "\<not> HasAdaptationField p" "length data < 183"
    using r low [of 5] that freeSpace_alt [OF af] by auto
  moreover have "Packet_SetPayload p data = Ok (?q, ?n)"
    unfolding SetPayload_prepared Let_def k1 l1 kn using na by simp
  moreover have "HasAdaptationField ?q \<longrightarrow> 5 + unat (?q ! 4) = ?k" using at(5) by (auto simp: Packet_payloadStart_def AF_Length_def)
  moreover have "(header_of ?q)\<lparr>h_afc := 0\<rparr> = (header_of p)\<lparr>h_afc := 0\<rparr>" "?q ! 0 = p ! 0"
    unfolding at(2,4) using r by blast+
  moreover have "Packet_Payload ?q = Ok (take ?n data)" using at(3) unfolding kn .
  moreover have "HasAdaptationField ?q \<longleftrightarrow> HasAdaptationField p \<or> length data < 184" unfolding hq using r by blast
  ultimately show ?thesis using at(1) old by (intro exI [of _ ?q] exI [of _ ?n]) blast
qed

theorem SetPayload_roundtrip_witness:
  "\<exists>q. Packet_SetPayload af_example [1, 2, 3] = Ok (q, 3) \<and> Packet_Payload q = Ok [1, 2, 3] \<and>
     af_view q = af_view af_example"
proof -
  have wf: "wf_packet af_example" and hp: "HasPayload af_example" and ha: "HasAdaptationField af_example"
    by (simp_all add: wf_packet_def PacketSize_def af_example_bytes header_getters)
  have fs: "freeSpace af_example = 173"
    using ha af_example_layout by (simp add: freeSpace_def Packet_stuffingStart_def AF_Length_def
        PacketSize_def af_example_bytes)
  from SetPayload_roundtrip [OF wf hp af_example_ok, of "[1, 2, 3]"] show ?thesis
    using ha unfolding fs by auto
qed

lemma stuffAF_ok:
  assumes ok: "af_ok p"
  shows "af_ok (AF_stuffAF p)" "af_view (AF_stuffAF p) = af_view p" "take 6 (AF_stuffAF p) = take 6 p"
    "drop (5 + unat (p ! 4)) (AF_stuffAF p) = drop (5 + unat (p ! 4)) p"
proof -
  note o = af_okD [OF ok]
  have s6: "AF_stuffingStart p = 6 + length (af_bytes (af_view p))" by (rule af_repr_layout(6) [OF o(10)])
  have "take (AF_stuffingStart p) (AF_stuffAF p) = take (AF_stuffingStart p) p"
    using o(1) by (intro nth_equalityI) (simp_all add: nth_stuffAF)
  moreover have "take (AF_stuffingStart p) p = take 5 p @ p ! 5 # af_bytes (af_view p)"
  proof -
    have "p = (take 5 p @ p ! 5 # af_bytes (af_view p)) @ drop (AF_stuffingStart p) p" using o(10) by (simp add: af_repr_def)
    moreover have "length (take 5 p @ p ! 5 # af_bytes (af_view p)) = AF_stuffingStart p" using o(1) s6 by simp
    ultimately show ?thesis by (metis append_eq_conv_conj)
  qed
  ultimately have "AF_stuffAF p = take 5 p @ p ! 5 # af_bytes (af_view p) @ drop (AF_stuffingStart p) (AF_stuffAF p)"
    using append_take_drop_id [of "AF_stuffingStart p" "AF_stuffAF p"] by simp
  note r = af_rebuild_ok [OF ok this]
  show "af_ok (AF_stuffAF p)" "af_view (AF_stuffAF p) = af_view p" using r(1,2) o(1,6) af_view_ok [OF ok] s6 by simp_all
  show "take 6 (AF_stuffAF p) = take 6 p" using o(1) by (intro nth_equalityI) (simp_all add: stuffAF_low)
  show "drop (5 + unat (p ! 4)) (AF_stuffAF p) = drop (5 + unat (p ! 4)) p"
    using o(1,9) by (intro nth_equalityI) (simp_all add: nth_stuffAF)
qed

text \<open>The packet with the field of another one, before the stuffing.\<close>

lemma field_replaced:
  assumes ok: "af_ok p" and oka: "af_ok af" and fit: "AF_stuffingStart af \<le> AF_stuffingEnd p"
    and q: "q = take 5 p @ af ! 5 # af_bytes (af_view af) @ drop (AF_stuffingStart af) p"
  shows "SetAdaptationField p af = Ok (AF_stuffAF q)" "af_ok q" "af_view q = af_view af"
    "AF_stuffingStart q = AF_stuffingStart af" "take 5 q = take 5 p" "q ! 5 = af ! 5"
    "drop (5 + unat (p ! 4)) q = drop (5 + unat (p ! 4)) p"
proof -
  note o = af_okD [OF ok] and oa = af_okD [OF oka]
  let ?s = "AF_stuffingStart af" and ?e = "AF_stuffingEnd p"
  let ?src = "take (?s - 5) (drop 5 af)"
  have s6: "?s = 6 + length (af_bytes (af_view af))" by (rule af_repr_layout(6) [OF oa(10)])
  have "af = take 5 af @ af ! 5 # af_bytes (af_view af) @ drop ?s af" using oa(10) by (simp add: af_repr_def)
  then have "drop 5 af = af ! 5 # af_bytes (af_view af) @ drop ?s af"
    by (metis append_take_drop_id same_append_eq)
  then have src: "?src = af ! 5 # af_bytes (af_view af)" using s6 by simp
  have "slice af 5 ?s = Ok ?src" using s6 oa by (simp add: slice_def)
  moreover have "copy_slice p 5 ?e ?src = Ok q" using fit o s6 unfolding src q by (simp add: copy_slice_def go_copy_def)
  moreover have "HasAdaptationField p" using o(3) by (simp add: header_getters)
  ultimately show "SetAdaptationField p af = Ok (AF_stuffAF q)" using fit by (simp add: SetAdaptationField_def)
  have lq: "length q = 188" using o s6 fit by (simp add: q)
  have "6 + length (af_bytes (af_view af)) \<le> 5 + unat (p ! 4)" using s6 fit o by linarith
  then show "af_ok q" "af_view q = af_view af" "AF_stuffingStart q = ?s"
    using af_rebuild_ok [OF ok q lq] af_view_ok [OF oka] s6 by simp_all
  show "take 5 q = take 5 p" "q ! 5 = af ! 5" using o(1) by (simp_all add: q nth_append)
  have "q = (take 5 p @ af ! 5 # af_bytes (af_view af)) @ drop ?s p" by (simp add: q)
  then have "drop (5 + unat (p ! 4)) q = drop (5 + unat (p ! 4) - ?s) (drop ?s p)" using s6 fit o by (simp only: drop_append) simp
  also have "\<dots> = drop (5 + unat (p ! 4)) p" using fit o(9) by (simp only: drop_drop) simp
  finally show "drop (5 + unat (p ! 4)) q = drop (5 + unat (p ! 4)) p" .
qed

text \<open>\<open>SetAdaptationField\<close> between well-formed adaptation fields replaces all optional parts and
  flags by those of the other field, with stuffing after them, and keeps the header, the length of
  the field and the payload; it fails exactly when the parts do not fit.\<close>

theorem SetAdaptationField_spec:
  assumes ok: "af_ok p" and oka: "af_ok af"
  shows "if AF_stuffingEnd p < AF_stuffingStart af
    then SetAdaptationField p af = Err ErrAdaptationFieldTooLarge
    else \<exists>q. SetAdaptationField p af = Ok q \<and> af_ok q \<and> af_view q = af_view af \<and> q ! 5 = af ! 5 \<and>
      take 5 q = take 5 p \<and> drop (5 + unat (p ! 4)) q = drop (5 + unat (p ! 4)) p \<and>
      (\<forall>i. AF_stuffingStart af \<le> i \<and> i < AF_stuffingEnd p \<longrightarrow> q ! i = 0xFF)"
proof (cases "AF_stuffingEnd p < AF_stuffingStart af")
  case True
  moreover have "HasAdaptationField p" using af_okD(3) [OF ok] by (simp add: header_getters)
  ultimately show ?thesis by (simp add: SetAdaptationField_def)
next
  case False
  define q where "q = take 5 p @ af ! 5 # af_bytes (af_view af) @ drop (AF_stuffingStart af) p"
  note r = field_replaced [OF ok oka _ q_def] and st = stuffAF_ok [of q]
  have le: "AF_stuffingStart af \<le> AF_stuffingEnd p" using False by simp
  note o = af_okD [OF ok] and oq = af_okD [OF r(2) [OF le]]
  have "q ! 4 = p ! 4" using o(1) by (simp add: q_def nth_append)
  moreover from this have "AF_stuffingEnd q = AF_stuffingEnd p" by (simp add: AF_stuffingEnd_def)
  moreover have "take 5 (AF_stuffAF q) = take 5 (take 6 (AF_stuffAF q))" "AF_stuffAF q ! 5 = take 6 (AF_stuffAF q) ! 5" by simp_all
  ultimately show ?thesis
    using False r [OF le] st [OF r(2) [OF le]] o(1,8) oq(1) by (auto simp: nth_stuffAF [of _ q])
qed

theorem SetAdaptationField_spec_witness:
  "\<exists>q. SetAdaptationField af_example af_example = Ok q \<and> af_view q = af_view af_example"
  using SetAdaptationField_spec [OF af_example_ok af_example_ok] af_example_layout by auto

text \<open>When the adaptation field has length zero, byte 5 is the first byte of the payload; a shorter
  \<open>SetPayload\<close> turns it into the flags of the adaptation field without clearing it, so the new
  field claims whatever parts the old payload byte spells.\<close>

theorem SetPayload_stale_flags:
  assumes "wf_packet p" "HasPayload p" "HasAdaptationField p" "p ! 4 = 0" "length data < 183"
  shows "\<exists>q. Packet_SetPayload p data = Ok (q, length data) \<and> q ! 5 = p ! 5 \<and>
    unat (q ! 4) = 183 - length data \<and> AF_valid q = None \<and> AF_hasPCR q = bit (p ! 5) 4"
proof -
  have fs: "freeSpace p = 183"
    using assms by (simp add: freeSpace_def Packet_stuffingStart_def AF_Length_def PacketSize_def)
  have short: "freeSpace p > int (length data)" and le: "freeSpace p \<le> 184" using fs assms by simp_all
  note a = prepared_short [OF assms(1) short le]
  let ?k = "188 - length data"
  have ps: "Packet_payloadStart (prepared p data) = ?k"
    using a(4,6) assms(5) by (simp add: Packet_payloadStart_def AF_Length_def)
  have kle: "?k \<le> 188" and d: "188 \<le> ?k + length data" using assms(5) by simp_all
  let ?q = "go_copy (prepared p data) ?k data"
  have na: "AdaptationFieldControl p \<noteq> AdaptationFieldFlag"
    using assms AFC_bits(2) [of p] by (simp add: AdaptationFieldFlag_def)
  have l: "length (prepared p data) = 188" using a(1) by simp
  have kn: "188 - ?k = length data" using assms(5) by simp
  have "Packet_SetPayload p data = Ok (?q, length data)"
    unfolding SetPayload_prepared Let_def ps l kn using na by simp
  moreover have low: "?q ! i = prepared p data ! i" if "i < 6" for i
    by (rule copy_high [OF a(1) kle]) (use that assms(5) in linarith)
  moreover have "unat (?q ! 4) = 183 - length data" "?q ! 5 = p ! 5"
    using low [of 4] low [of 5] a(4) a(7) [OF assms(3)] by simp_all
  moreover have "AF_valid ?q = None"
  proof -
    have "?q ! 4 \<noteq> 0" using low [of 4] a(4) assms(5) by (auto simp: unat_eq_0)
    moreover have "bit (?q ! 3) 5" using low [of 3] a(6) by (simp add: header_getters)
    ultimately show ?thesis by (simp add: AF_valid_def AF_getBit_def and_single_bit)
  qed
  ultimately show ?thesis by (intro exI [of _ ?q]) (simp add: af_flag_bits)
qed

theorem SetPayload_stale_flags_witness:
  "\<exists>q. Packet_SetPayload ([0x47, 0x1f, 0xff, 0x30, 0] @ 0x10 # replicate 182 0) [1] = Ok (q, 1) \<and> AF_hasPCR q"
  using SetPayload_stale_flags [of "[0x47, 0x1f, 0xff, 0x30, 0] @ 0x10 # replicate 182 0" "[1]"]
  by (auto simp: wf_packet_def PacketSize_def header_getters)

text \<open>The start of the stuffing depends on the bytes from the flags on only.\<close>

lemma stuffingStart_cong:
  assumes "\<And>i. 5 \<le> i \<Longrightarrow> p ! i = q ! i"
  shows "AF_stuffingStart p = AF_stuffingStart q"
proof -
  have 5: "p ! 5 = q ! 5" by (rule assms) simp
  then have l: "AF_pcrLength p = AF_pcrLength q" "AF_opcrLength p = AF_opcrLength q"
    "AF_spliceCountdownLength p = AF_spliceCountdownLength q"
    by (simp_all add: AF_pcrLength_def AF_opcrLength_def AF_spliceCountdownLength_def af_flag_bits)
  then have t: "AF_transportPrivateDataStart p = AF_transportPrivateDataStart q" "5 \<le> AF_transportPrivateDataStart q"
    by (simp_all add: AF_transportPrivateDataStart_def pcrStart_def)
  then have d: "AF_transportPrivateDataLength p = AF_transportPrivateDataLength q"
    using 5 assms [OF t(2)] by (simp add: AF_transportPrivateDataLength_def af_flag_bits)
  then have x: "AF_adaptationExtensionStart p = AF_adaptationExtensionStart q" "5 \<le> AF_adaptationExtensionStart q"
    using l by (simp_all add: AF_adaptationExtensionStart_def pcrStart_def)
  then have "AF_adaptationExtensionLength p = AF_adaptationExtensionLength q"
    using 5 assms [OF x(2)] by (simp add: AF_adaptationExtensionLength_def af_flag_bits)
  then show ?thesis using l d by (simp add: AF_stuffingStart_def)
qed

text \<open>What \<open>SetAdaptationFieldControl\<close> does to the packet behind the header: a new field is empty and takes up the rest, but for
  one byte when there is to be a payload; an old field that takes up everything gives up its last byte of stuffing, if it has one.\<close>

definition afc_effect :: "packet \<Rightarrow> byte \<Rightarrow> packet \<Rightarrow> gots_error option \<Rightarrow> bool" where
  "afc_effect p v q err \<longleftrightarrow>
     (if \<not> HasAdaptationField p \<and> bit v 1
      then err = None \<and> drop 4 q = (if v = 3 then 182 else 183) # 0 # replicate 182 0xFF
      else if v = 3 \<and> p ! 4 = 183
      then if AF_stuffingStart p < 188
        then err = None \<and> q ! 4 = 182 \<and>
          (\<forall>i. 5 \<le> i \<and> i < 188 \<longrightarrow> q ! i = (if AF_stuffingStart p \<le> i \<and> i < 187 then 0xFF else p ! i))
        else err = Some ErrAdaptationFieldTooLarge \<and> drop 4 q = drop 4 p
      else err = None \<and> drop 4 q = drop 4 p)"

lemma SetAFC_effect:
  assumes wf: "wf_packet p" and v: "v < 4"
  defines "q \<equiv> fst (SetAdaptationFieldControl p v)"
  shows "header_of q = (header_of p)\<lparr>h_afc := v\<rparr>" "q ! 0 = p ! 0" "afc_effect p v q (snd (SetAdaptationFieldControl p v))"
proof -
  define p1 where "p1 = p[3 := (p ! 3 AND NOT 0x30) OR push_bit 4 v]"
  have l: "length p = 188" "length p1 = 188" using wf by (simp_all add: p1_def)
  have n1: "p1 ! i = p ! i" if "i \<noteq> 3" for i using that by (simp add: p1_def)
  have n3: "p1 ! 3 = (p ! 3 AND NOT 0x30) OR push_bit 4 v" using l by (simp add: p1_def)
  have has: "HasAdaptationField p1 = bit v 1" using hdr_byte3_afc(4) [OF v, of "p ! 3"] by (simp only: header_getters n3)
  have h1: "header_of p1 = (header_of p)\<lparr>h_afc := v\<rparr>"
    using n1 [of 1] n1 [of 2] unfolding header_of_def header_getters PID_alt TSC_alt AFC_alt CC_alt n3 hdr_byte3_afc [OF v] by simp
  have s1: "AF_stuffingStart (AF_setLength p1 x) = AF_stuffingStart p" "AF_stuffingStart p1 = AF_stuffingStart p" for x
    by (rule stuffingStart_cong; use l in \<open>simp add: nth_setLength n1\<close>)+
  define p2 where "p2 = (if \<not> HasAdaptationField p \<and> bit v 1 then initAdaptationField p1 else p1)"
  have r0: "SetAdaptationFieldControl p v =
      (if v = 3 \<and> AF_Length p2 = 183
       then if AF_stuffingStart p2 < 188 then (AF_stuffAF (AF_setLength p2 182), None) else (p2, Some ErrAdaptationFieldTooLarge)
       else (p2, None))"
    unfolding SetAdaptationFieldControl_def Let_def p1_def [symmetric] has p2_def [symmetric]
      PayloadAndAdaptationFieldFlag_def PacketSize_def ..
  have "header_of q = header_of p1 \<and> q ! 0 = p ! 0 \<and> afc_effect p v q (snd (SetAdaptationFieldControl p v))"
  proof (cases "\<not> HasAdaptationField p \<and> bit v 1")
    case True
    define i1 where "i1 = initAdaptationField p1"
    have i1: "length i1 = 188" "\<And>i. i < 188 \<Longrightarrow> i1 ! i = (if 6 \<le> i then 0xFF else if i = 5 then 0 else if i = 4 then 183 else p1 ! i)"
      using l by (auto simp: i1_def initAdaptationField_def nth_fill nth_list_update)
    have f: "AF_stuffingStart (AF_setLength i1 182) = 6" "AF_stuffingStart i1 = 6"
      using i1 by (simp_all add: AF_stuffingStart_def AF_pcrLength_def AF_opcrLength_def AF_spliceCountdownLength_def
          AF_transportPrivateDataLength_def AF_adaptationExtensionLength_def af_flag_bits pcrStart_def nth_setLength)
    have len: "AF_Length i1 = 183" using i1 by (simp add: AF_Length_def)
    have r: "SetAdaptationFieldControl p v = (if v = 3 then AF_stuffAF (AF_setLength i1 182) else i1, None)"
      using True len f(2) unfolding r0 by (simp add: p2_def i1_def)
    have nq: "q ! i = (if 6 \<le> i then 0xFF else if i = 5 then 0 else if i = 4 then (if v = 3 then 182 else 183) else p1 ! i)" if "i < 188" for i
      using i1 that by (auto simp: q_def r nth_stuffAF nth_setLength f)
    have lq: "length q = 188" using i1 by (simp add: q_def r)
    have "drop 4 q = (if v = 3 then 182 else 183) # 0 # replicate 182 0xFF"
      by (rule nth_equalityI) (use lq in \<open>auto simp: nq nth_Cons split: nat.splits\<close>)
    moreover have "header_of q = header_of p1" by (rule header_of_cong) (simp_all add: nq)
    ultimately show ?thesis using True nq [of 0] n1 [of 0] by (simp add: afc_effect_def r)
  next
    case no: False
    then have p2: "p2 = p1" unfolding p2_def by (rule if_not_P)
    have len: "AF_Length p1 = 183 \<longleftrightarrow> p ! 4 = 183" by (simp add: AF_Length_def n1 word_unat_eq_iff)
    have d1: "drop 4 p1 = drop 4 p" by (simp add: p1_def)
    show ?thesis
    proof (cases "v = 3 \<and> p ! 4 = 183 \<and> AF_stuffingStart p < 188")
      case True
      then have r: "SetAdaptationFieldControl p v = (AF_stuffAF (AF_setLength p1 182), None)"
        using len s1 unfolding r0 p2 by simp
      have e: "AF_stuffingEnd (AF_setLength p1 182) = 187" using l by (simp add: AF_stuffingEnd_def nth_setLength PacketSize_def)
      have nq: "q ! i = (if AF_stuffingStart p \<le> i \<and> i < 187 then 0xFF else if i = 4 then 182 else p1 ! i)" if "i < 188" for i
        using l that by (simp add: q_def r nth_stuffAF nth_setLength s1 e)
      have lo: "q ! i = p1 ! i" if "i < 4" for i using nq [of i] that stuffingStart_ge [of p] by simp
      have "header_of q = header_of p1" by (rule header_of_cong) (simp_all add: lo)
      moreover have "afc_effect p v q None" unfolding afc_effect_def
        using True no nq stuffingStart_ge [of p] by (auto simp: n1)
      ultimately show ?thesis using lo [of 0] n1 [of 0] by (simp add: r)
    next
      case False
      then have r: "SetAdaptationFieldControl p v =
          (p1, if v = 3 \<and> p ! 4 = 183 then Some ErrAdaptationFieldTooLarge else None)"
        using len s1 unfolding r0 p2 by auto
      then show ?thesis using no False n1 [of 0] d1 by (auto simp: afc_effect_def q_def)
    qed
  qed
  then show "header_of q = (header_of p)\<lparr>h_afc := v\<rparr>" "q ! 0 = p ! 0" "afc_effect p v q (snd (SetAdaptationFieldControl p v))"
    using h1 by simp_all
qed

text \<open>C24: the six setters of the header fields other than the adaptation field control are updates of one
  field of the abstract header, in the range of that field (the PID modulo 8192, the counter modulo 16, the low two
  bits of the scrambling control), and leave the sync byte and all bytes after the header unchanged.
  \<open>SetAdaptationFieldControl\<close> with one of the four values updates that field and keeps the sync byte;
  behind the header it creates an empty field where there was none, takes one byte of stuffing for the payload from
  a field that took up everything, fails when that has no stuffing, and changes nothing otherwise.\<close>

theorem header_setters_refine:
  assumes "wf_packet p"
  shows "header_of (SetPID p i) = (header_of p)\<lparr>h_pid := i mod 8192\<rparr> \<and>
    header_of (SetContinuityCounter p c) = (header_of p)\<lparr>h_cc := c mod 16\<rparr> \<and>
    header_of (SetTransportScramblingControl p t) = (header_of p)\<lparr>h_tsc := take_bit 2 t\<rparr> \<and>
    header_of (SetTransportErrorIndicator p b) = (header_of p)\<lparr>h_tei := b\<rparr> \<and>
    header_of (SetPayloadUnitStartIndicator p b) = (header_of p)\<lparr>h_pusi := b\<rparr> \<and>
    header_of (SetTransportPriority p b) = (header_of p)\<lparr>h_prio := b\<rparr> \<and>
    same_body (SetPID p i) p \<and> same_body (SetContinuityCounter p c) p \<and>
    same_body (SetTransportScramblingControl p t) p \<and> same_body (SetTransportErrorIndicator p b) p \<and>
    same_body (SetPayloadUnitStartIndicator p b) p \<and> same_body (SetTransportPriority p b) p \<and>
    (v < 4 \<longrightarrow> header_of (fst (SetAdaptationFieldControl p v)) = (header_of p)\<lparr>h_afc := v\<rparr> \<and>
      fst (SetAdaptationFieldControl p v) ! 0 = p ! 0 \<and>
      afc_effect p v (fst (SetAdaptationFieldControl p v)) (snd (SetAdaptationFieldControl p v)))"
  using field_setters [OF assms] SetAFC_effect [OF assms] by blast

theorem header_setters_refine_witness:
  "header_of (SetPID New 9000) = (header_of New)\<lparr>h_pid := 808\<rparr> \<and>
   header_of (SetContinuityCounter New 17) = (header_of New)\<lparr>h_cc := 1\<rparr> \<and>
   same_body (SetPID New 9000) New \<and>
   header_of (fst (SetAdaptationFieldControl New 3)) = (header_of New)\<lparr>h_afc := 3\<rparr>"
  using header_setters_refine [OF wf_New, of 9000 17 _ _ 3] by simp

end
