(* ===== verification/Packet_Create.thy ===== *)
theory Packet_Create
  imports Packet_Core Gots_Time
begin

text \<open>
  \<^verbatim>\<open>gots/packet/create.go\<close>: packets built from a PID and a list of options.  An option is a
  function on packets; the source's pointer arguments are the packets returned.
\<close>

section \<open>The code\<close>

definition TestPatPacket :: packet where
  "TestPatPacket =
    [0x47, 0x40, 0x00, 0x10, 0x00, 0x00, 0xb0, 0x0d, 0x00, 0x01, 0xcb, 0x00,
    0x00, 0x00, 0x01, 0xe0, 0x64, 0x68, 0xd6, 0x84, 0x2e] @ replicate 167 0xff"

definition TestPmtPacket :: packet where
  "TestPmtPacket =
    [0x47, 0x40, 0x64, 0x10, 0x00, 0x02, 0xb0, 0x2d, 0x00, 0x01, 0xcb, 0x00,
    0x00, 0xe0, 0x65, 0xf0, 0x06, 0x05, 0x04, 0x43, 0x55, 0x45, 0x49, 0x1b,
    0xe0, 0x65, 0xf0, 0x05, 0x0e, 0x03, 0x00, 0x04, 0xb0, 0x0f, 0xe0, 0x66,
    0xf0, 0x06, 0x0a, 0x04, 0x65, 0x6e, 0x67, 0x00, 0x86, 0xe0, 0x6e, 0xf0,
    0x00, 0x7f, 0xc9, 0xad, 0x32] @ replicate 135 0xff"

definition setPid :: "packet \<Rightarrow> int \<Rightarrow> packet" where
  "setPid pkt pid = pkt[1 := word_of_int (drop_bit 8 pid AND 0x1f), 2 := word_of_int (pid AND 0xff)]"

definition WithHasPayloadFlag :: "packet \<Rightarrow> packet" where
  "WithHasPayloadFlag pkt = pkt[3 := pkt ! 3 OR 0x10]"

definition WithHasAdaptationFieldFlag :: "packet \<Rightarrow> packet" where
  "WithHasAdaptationFieldFlag pkt = pkt[3 := pkt ! 3 OR 0x20]"

definition WithAFPrivateDataFlag :: "packet \<Rightarrow> packet" where
  "WithAFPrivateDataFlag pkt = pkt[5 := pkt ! 5 OR 0x02]"

definition WithPUSI :: "packet \<Rightarrow> packet" where
  "WithPUSI pkt = pkt[1 := pkt ! 1 OR 0x40]"

definition WithContinuousAF :: "packet \<Rightarrow> packet" where
  "WithContinuousAF pkt = pkt[5 := pkt ! 5 OR 0x7f]"

definition WithDiscontinuousAF :: "packet \<Rightarrow> packet" where
  "WithDiscontinuousAF pkt = pkt[5 := pkt ! 5 OR 0x80]"

text \<open>The copying loop of \<open>SetPayload\<close>: \<open>i\<close> is the index in the packet, the list what is left of the data.\<close>

fun SetPayload_loop :: "packet \<Rightarrow> nat \<Rightarrow> byte list \<Rightarrow> packet \<times> nat" where
  "SetPayload_loop pkt i [] = (pkt, i)"
| "SetPayload_loop pkt i (b # bs) =
     (if i < PacketSize then SetPayload_loop (pkt[i := b]) (i + 1) bs else (pkt, i))"

definition SetPayload :: "packet \<Rightarrow> byte list \<Rightarrow> packet \<times> nat" where
  "SetPayload pkt pay =
     (let start = payloadStart pkt; (pkt', i) = SetPayload_loop pkt start pay in (pkt', i - start))"

definition WithPES :: "packet \<Rightarrow> u64 \<Rightarrow> packet res" where
  "WithPES pkt pts =
     (let size = PacketSize - 4;
          pay = (replicate size 0)[0 := 0x00, 1 := 0x00, 2 := 0x01, 3 := 184, 4 := 0x0,
                  6 := 0x40, 7 := 0x80, 8 := 14]
      in res_bind (slice pay 9 14) (\<lambda>s. res_bind (InsertPTS s pts) (\<lambda>s'.
         res_bind (copy_slice pay 9 14 s') (\<lambda>pay'.
           Ok (WithHasPayloadFlag (fst (SetPayload pkt pay')))))))"

definition setSyncByte :: "packet \<Rightarrow> packet" where
  "setSyncByte pkt = pkt[0 := SyncByte]"

definition required :: "(packet \<Rightarrow> packet) list" where
  "required = [setSyncByte]"

definition Create :: "int \<Rightarrow> (packet \<Rightarrow> packet) list \<Rightarrow> packet" where
  "Create pid options =
     (let pkt = setPid (replicate PacketSize 0) pid;
          pkt = fold (\<lambda>option pkt. option pkt) options pkt
      in fold (\<lambda>option pkt. option pkt) required pkt)"

definition CreateTestPacket :: "int \<Rightarrow> byte \<Rightarrow> bool \<Rightarrow> bool \<Rightarrow> packet" where
  "CreateTestPacket pid cc pusi hasPay =
     (if hasPay \<and> pusi then SetCC (Create pid [WithHasPayloadFlag, WithContinuousAF, WithPUSI]) cc
      else if hasPay then SetCC (Create pid [WithHasPayloadFlag, WithContinuousAF]) cc
      else SetCC (Create pid [WithContinuousAF]) cc)"

definition CreateDCPacket :: "int \<Rightarrow> byte \<Rightarrow> packet" where
  "CreateDCPacket pid cc = SetCC (Create pid [WithDiscontinuousAF, WithHasPayloadFlag]) cc"

definition CreatePacketWithPayload :: "int \<Rightarrow> byte \<Rightarrow> byte list \<Rightarrow> packet" where
  "CreatePacketWithPayload pid cc pay =
     SetCC (Create pid [WithHasPayloadFlag, WithContinuousAF, \<lambda>pkt. fst (SetPayload pkt pay)]) cc"

section \<open>Lemmas\<close>

lemma SetPayload_loop_copy:
  "length pkt = 188 \<Longrightarrow> i \<le> 188 \<Longrightarrow>
    SetPayload_loop pkt i pay = (go_copy pkt i pay, i + min (188 - i) (length pay))"
proof (induction pkt i pay rule: SetPayload_loop.induct)
  case (1 pkt i)
  then show ?case by (simp add: go_copy_def)
next
  case (2 pkt i b bs)
  show ?case
  proof (cases "i < 188")
    case True
    have "go_copy (pkt[i := b]) (i + 1) bs = go_copy pkt i (b # bs)"
      by (rule nth_equalityI) (use True 2(2) in \<open>auto simp: nth_go_copy nth_Cons' nth_list_update\<close>)
    with True 2 show ?thesis by (simp add: PacketSize_def) 
  next
    case False
    with 2 show ?thesis by (simp add: PacketSize_def go_copy_def)
  qed
qed

lemma SetPayload_copy:
  assumes "wf_packet pkt" "payloadStart pkt \<le> 188"
  shows "SetPayload pkt pay = (go_copy pkt (payloadStart pkt) pay, min (188 - payloadStart pkt) (length pay))"
  using assms by (simp add: SetPayload_def SetPayload_loop_copy Let_def)

lemma setPid_bytes:
  fixes pid :: int
  defines "q \<equiv> setPid (replicate PacketSize 0) pid"
  shows "wf_packet q" "PID q = pid mod 8192" "q ! 0 = 0" "q ! 3 = 0" "\<not> bit (q ! 1) 6" "\<not> bit (q ! 1) 5"
    "\<not> bit (q ! 1) 7" "drop 4 q = replicate 184 0"
proof -
  let ?a = "word_of_int (drop_bit 8 pid AND 0x1f) :: byte" and ?b = "word_of_int (pid AND 0xff) :: byte"
  show "wf_packet q" by (simp add: q_def setPid_def wf_packet_def)
  have n: "q ! 1 = ?a" "q ! 2 = ?b" by (simp_all add: q_def setPid_def PacketSize_def)
  show "q ! 0 = 0" "q ! 3 = 0" "drop 4 q = replicate 184 0"
    by (simp_all add: q_def setPid_def PacketSize_def)
  have m: "drop_bit 8 pid AND 0x1f = take_bit 5 (drop_bit 8 pid)" "pid AND 0xff = take_bit 8 pid"
    by (simp_all add: take_bit_eq_mask mask_eq_exp_minus_1)
  show "\<not> bit (q ! 1) 6" "\<not> bit (q ! 1) 5" "\<not> bit (q ! 1) 7"
    unfolding n m by (simp_all add: bit_simps)
  have "PID q = take_bit 13 pid"
    unfolding PID_alt n m
  proof (rule bit_eqI)
    fix k
    show "bit (push_bit 8 (uint (take_bit 5 (word_of_int (take_bit 5 (drop_bit 8 pid)) :: byte))) OR
        uint (word_of_int (take_bit 8 pid) :: byte)) k = bit (take_bit 13 pid) k"
      by (cases "k < 8") (auto simp: bit_simps)
  qed
  then show "PID q = pid mod 8192" by (simp add: take_bit_eq_mod)
qed

lemma continuous_after_payload:
  assumes "length pkt = 188"
  shows "drop 4 (go_copy (WithContinuousAF pkt) 4 pay) =
    take 184 pay @ drop (length pay) (drop 4 (WithContinuousAF pkt))"
  using assms by (simp add: go_copy_def WithContinuousAF_def add.commute)

lemma created_packet:
  assumes "cc < 16"
  shows "let q = CreatePacketWithPayload pid cc pay in
    wf_packet q \<and> CheckErrors q = None \<and> PID q = pid mod 8192 \<and> Packet_ContinuityCounter q = uint cc \<and>
    (\<exists>pad. Payload q = Ok (take 184 pay @ pad) \<and> length pad = 184 - length pay \<and>
      (2 \<le> length pay \<longrightarrow> pad = replicate (184 - length pay) 0) \<and>
      (1 \<le> length pay \<longrightarrow> drop 1 pad = replicate (183 - length pay) 0)) \<and>
    \<not> PayloadUnitStartIndicator q"
proof -
  let ?s = "setPid (replicate PacketSize 0) pid"
  let ?h = "WithContinuousAF (WithHasPayloadFlag ?s)"
  note sp = setPid_bytes [of pid]
  have ls: "length ?s = 188" using sp(1) by simp
  have lh: "length ?h = 188" using ls by (simp add: WithContinuousAF_def WithHasPayloadFlag_def)
  have h3: "?h ! 3 = 0x10" "?h ! 1 = ?s ! 1" "?h ! 2 = ?s ! 2"
    using ls sp(4) by (simp_all add: WithContinuousAF_def WithHasPayloadFlag_def)
  have ps: "payloadStart ?h = 4" by (simp add: payloadStart_def header_getters h3)
  have wh: "wf_packet ?h" using lh by (simp add: wf_packet_def PacketSize_def)
  let ?g = "go_copy ?h 4 pay"
  let ?q = "?g[0 := SyncByte, 3 := (?g ! 3 AND 0xf0) OR cc]"
  have q: "CreatePacketWithPayload pid cc pay = ?q"
    using SetPayload_copy [OF wh, of pay] ps lh
    by (simp add: CreatePacketWithPayload_def Create_def required_def setSyncByte_def SetCC_def)
  have lg: "length ?g = 188" using lh by simp
  have g: "?g ! i = ?h ! i" if "i < 4" for i using that lh by (simp add: nth_go_copy)
  have lq: "length ?q = 188" using lg by simp
  have tc: "take_bit 4 cc = cc" using assms by (intro take_bit_word_small) (simp add: word_less_nat_alt)
  then have hb: "\<not> bit cc n" if "4 \<le> n" for n by (metis bit_take_bit_iff leD that)
  have q3: "?q ! 3 = 0x10 OR cc" using lg g [of 3] h3(1) by simp
  have "\<not> bit (?q ! 3) 5" "bit (?q ! 3) 4" "drop_bit 6 (?q ! 3) = 0" "take_bit 4 (?q ! 3) = cc"
    "take_bit 2 (drop_bit 4 (?q ! 3)) = 1"
    unfolding q3 using hb by (auto simp: bit_simps intro!: byte_eqI)
  note b3 = this
  have "CheckErrors ?q = None"
    using lg b3 by (simp add: CheckErrors_def syncByte_def TSC_alt AFC_alt packet_consts)
  moreover have "PID ?q = pid mod 8192"
  proof -
    have "?q ! 1 = ?s ! 1" "?q ! 2 = ?s ! 2" using lg g h3 by simp_all
    then show ?thesis using sp(2) by (simp add: PID_alt)
  qed
  moreover have "Packet_ContinuityCounter ?q = uint cc" by (simp add: CC_alt b3(4))
  moreover have "Payload ?q = Ok (drop 4 ?g)"
    using b3(1,2) lq by (simp add: Payload_def header_getters payloadStart_def)
  moreover have "drop 4 ?g = take 184 pay @ drop (length pay) (drop 4 ?h)"
    using continuous_after_payload [of "WithHasPayloadFlag ?s" pay] ls by (simp add: WithHasPayloadFlag_def)
  moreover have "drop (length pay) (drop 4 ?h) = replicate (184 - length pay) 0" if "2 \<le> length pay"
  proof -
    have "drop (length pay) (drop 4 ?h) = drop (length pay) (drop 4 ?s)"
      using that by (simp add: WithContinuousAF_def WithHasPayloadFlag_def drop_update_cancel)
    then show ?thesis using sp(8) by simp
  qed
  moreover have "drop 1 (drop (length pay) (drop 4 ?h)) = replicate (183 - length pay) 0" if "1 \<le> length pay"
  proof -
    have "pay \<noteq> []" using that by auto
    then have "drop 1 (drop (length pay) (drop 4 ?h)) = drop (length pay + 1) (drop 4 ?s)"
      by (simp add: WithContinuousAF_def WithHasPayloadFlag_def drop_update_cancel)
    then show ?thesis using sp(8) by simp
  qed
  moreover have "\<not> PayloadUnitStartIndicator ?q"
    using lg g [of 1] h3(2) sp(5) by (simp add: header_getters)
  moreover have "length (drop (length pay) (drop 4 ?h)) = 184 - length pay" using lh by simp
  moreover have "wf_packet ?q" using lq by (simp only: wf_packet_def PacketSize_def)
  ultimately show ?thesis unfolding q Let_def by metis
qed

section \<open>Properties\<close>

text \<open>The packet of \<open>CreatePacketWithPayload\<close> with a counter below 16 is accepted by
  \<open>CheckErrors\<close>, has the PID modulo 8192 and the counter given, no adaptation field, and a payload of
  184 bytes that starts with the data, cut at 184 bytes; after data of two bytes or more the rest is
  zero.\<close>

theorem CreatePacketWithPayload_spec:
  assumes "cc < 16"
  shows "let q = CreatePacketWithPayload pid cc pay in
    wf_packet q \<and> CheckErrors q = None \<and> PID q = pid mod 8192 \<and> Packet_ContinuityCounter q = uint cc \<and>
    (\<exists>pad. Payload q = Ok (take 184 pay @ pad) \<and> length pad = 184 - length pay \<and>
      (2 \<le> length pay \<longrightarrow> pad = replicate (184 - length pay) 0))"
  using created_packet [OF assms, of pid pay] by (auto simp: Let_def)

theorem CreatePacketWithPayload_spec_witness:
  "PID (CreatePacketWithPayload 256 7 [1, 2, 3]) = 256 \<and>
   Payload (CreatePacketWithPayload 256 7 [1, 2, 3]) = Ok ([1, 2, 3] @ replicate 181 0)"
  using CreatePacketWithPayload_spec [of 7 256 "[1, 2, 3]"] by (auto simp: Let_def)

end
