(* ===== verification/AF_Readers.thy ===== *)
theory AF_Readers
  imports Packet_AF
begin

text \<open>
  \<^verbatim>\<open>gots/packet/adaptationfield/adaptationfield.go\<close>: the second set of readers of the adaptation
  field, functions of a package of its own that check neither the adaptation field flag nor its
  length.  Names have the prefix \<open>AFR_\<close>.
\<close>

section \<open>The code\<close>

definition AFR_Length :: "packet \<Rightarrow> byte" where "AFR_Length pkt = pkt ! 4"

definition AFR_IsDiscontinuous :: "packet \<Rightarrow> bool" where
  "AFR_IsDiscontinuous pkt = (pkt ! 5 AND 0x80 \<noteq> 0)"
definition AFR_IsRandomAccess :: "packet \<Rightarrow> bool" where
  "AFR_IsRandomAccess pkt = (pkt ! 5 AND 0x40 \<noteq> 0)"
definition AFR_IsESHigherPriority :: "packet \<Rightarrow> bool" where
  "AFR_IsESHigherPriority pkt = (pkt ! 5 AND 0x20 \<noteq> 0)"
definition AFR_HasPCR :: "packet \<Rightarrow> bool" where
  "AFR_HasPCR pkt = (pkt ! 5 AND 0x10 \<noteq> 0)"
definition AFR_HasOPCR :: "packet \<Rightarrow> bool" where
  "AFR_HasOPCR pkt = (pkt ! 5 AND 0x08 \<noteq> 0)"
definition AFR_HasSplicingPoint :: "packet \<Rightarrow> bool" where
  "AFR_HasSplicingPoint pkt = (pkt ! 5 AND 0x04 \<noteq> 0)"
definition AFR_HasTransportPrivateData :: "packet \<Rightarrow> bool" where
  "AFR_HasTransportPrivateData pkt = (pkt ! 5 AND 0x02 \<noteq> 0)"
definition AFR_HasAdaptationFieldExtension :: "packet \<Rightarrow> bool" where
  "AFR_HasAdaptationFieldExtension pkt = (pkt ! 5 AND 0x01 \<noteq> 0)"

definition AFR_PCR :: "packet \<Rightarrow> byte list res" where
  "AFR_PCR pkt =
     (if \<not> AFR_HasPCR pkt then Err ErrNoPCR
      else let offset = 6 in slice pkt offset (offset + 6))"

definition AFR_OPCR :: "packet \<Rightarrow> byte list res" where
  "AFR_OPCR pkt =
     (if \<not> AFR_HasOPCR pkt then Err ErrNoOPCR
      else let offset = 6; offset = (if AFR_HasPCR pkt then offset + 6 else offset)
           in slice pkt offset (offset + 6))"

definition AFR_SpliceCountdown :: "packet \<Rightarrow> byte res" where
  "AFR_SpliceCountdown pkt =
     (if \<not> AFR_HasSplicingPoint pkt then Err ErrNoSplicePoint
      else let offset = 6;
               offset = (if AFR_HasPCR pkt then offset + 6 else offset);
               offset = (if AFR_HasOPCR pkt then offset + 6 else offset)
           in rd pkt offset)"

text \<open>The upper bound of the slice is a sum of bytes, which wraps at 256.\<close>

definition AFR_TransportPrivateData :: "packet \<Rightarrow> byte list res" where
  "AFR_TransportPrivateData pkt =
     (if \<not> AFR_HasTransportPrivateData pkt then Err ErrNoPrivateTransportData
      else let offset = 6;
               offset = (if AFR_HasPCR pkt then offset + 6 else offset);
               offset = (if AFR_HasOPCR pkt then offset + 6 else offset);
               offset = (if AFR_HasSplicingPoint pkt then offset + 1 else offset)
           in res_bind (rd pkt offset) (\<lambda>dataLength.
              let offset = offset + 1; off8 = (of_nat offset :: byte)
              in slice pkt (unat off8) (unat (off8 + dataLength))))"

definition AFR_EncoderBoundaryPoint :: "packet \<Rightarrow> byte list res" where
  "AFR_EncoderBoundaryPoint pkt =
     (if ContainsAdaptationField pkt \<and> AFR_Length pkt > 0 \<and> AFR_HasTransportPrivateData pkt
      then AFR_TransportPrivateData pkt
      else Err ErrNoEBP)"

section \<open>Agreement with the methods of the adaptation field\<close>

lemma AFR_flags:
  "AFR_HasPCR p = AF_hasPCR p" "AFR_HasOPCR p = AF_hasOPCR p"
  "AFR_HasSplicingPoint p = AF_hasSplicingPoint p"
  "AFR_HasTransportPrivateData p = AF_hasTransportPrivateData p"
  "AFR_HasAdaptationFieldExtension p = AF_hasAdaptationFieldExtension p"
  by (simp_all add: AFR_HasPCR_def AFR_HasOPCR_def AFR_HasSplicingPoint_def
      AFR_HasTransportPrivateData_def AFR_HasAdaptationFieldExtension_def AF_hasPCR_def AF_hasOPCR_def
      AF_hasSplicingPoint_def AF_hasTransportPrivateData_def AF_hasAdaptationFieldExtension_def AF_getBit_def)

lemma AFR_offsets:
  "AFR_OPCR p = (if \<not> AF_hasOPCR p then Err ErrNoOPCR else slice p (AF_opcrStart p) (AF_opcrStart p + 6))"
  "AFR_SpliceCountdown p =
    (if \<not> AF_hasSplicingPoint p then Err ErrNoSplicePoint else rd p (AF_spliceCountdownStart p))"
  "AFR_TransportPrivateData p =
    (if \<not> AF_hasTransportPrivateData p then Err ErrNoPrivateTransportData
     else res_bind (rd p (AF_transportPrivateDataStart p)) (\<lambda>dl.
       slice p (unat (of_nat (AF_transportPrivateDataStart p + 1) :: byte))
         (unat (of_nat (AF_transportPrivateDataStart p + 1) + dl))))"
  by (simp_all add: AFR_OPCR_def AFR_SpliceCountdown_def AFR_TransportPrivateData_def AFR_flags Let_def
      AF_opcrStart_def AF_spliceCountdownStart_def AF_transportPrivateDataStart_def pcrStart_def
      AF_pcrLength_def AF_opcrLength_def AF_spliceCountdownLength_def)

text \<open>When the private data does not fit in the packet the source slices out of range.\<close>

lemma AFR_TPD_cases:
  assumes "length p = 188" "AF_hasTransportPrivateData p"
  shows "AFR_TransportPrivateData p =
    (let s = AF_transportPrivateDataStart p; l = unat (p ! s)
     in if s + 1 + l \<le> 188 then Ok (take l (drop (s + 1) p)) else Panic)"
proof -
  let ?s = "AF_transportPrivateDataStart p"
  have s: "?s \<le> 19" by (rule tpd_start_le)
  have u: "unat (of_nat (?s + 1) :: byte) = ?s + 1" by (rule unat_byte_of_nat) (use s in linarith)
  have l: "unat (p ! ?s) < 256" by (rule byte_unat_less)
  have sum: "unat (of_nat (?s + 1) + p ! ?s :: byte) =
      (if ?s + 1 + unat (p ! ?s) < 256 then ?s + 1 + unat (p ! ?s) else ?s + 1 + unat (p ! ?s) - 256)"
    using u s l by (simp only: unat_plus_if') simp
  show ?thesis
    using assms s l unfolding AFR_offsets(3)
    by (simp only: rd_Ok res_bind.simps u sum Let_def slice_def) (simp; linarith)
qed

section \<open>Properties\<close>

text \<open>On a well-formed adaptation field both sets of readers agree on the PCR, the OPCR, the splice
  countdown and the private data, except that the functions return the private data without the
  length byte that the method puts in front of it.\<close>

theorem readers_agree:
  assumes "af_ok p"
  shows "AF_PCR p = res_bind (AFR_PCR p) ExtractPCR \<and> AF_OPCR p = res_bind (AFR_OPCR p) ExtractPCR \<and>
    AF_SpliceCountdown p = res_bind (AFR_SpliceCountdown p) (\<lambda>b. Ok (sint b)) \<and>
    AF_TransportPrivateData p = res_bind (AFR_TransportPrivateData p) (\<lambda>d. Ok (of_nat (length d) # d))"
proof (intro conjI)
  show "AF_PCR p = res_bind (AFR_PCR p) ExtractPCR"
    by (simp add: AF_PCR_def af_okD(7) [OF assms] AFR_PCR_def AFR_flags Let_def pcrStart_def
        AF_opcrStart_def AF_pcrLength_def)
  show "AF_OPCR p = res_bind (AFR_OPCR p) ExtractPCR"
    by (simp add: AF_OPCR_def af_okD(7) [OF assms] AFR_offsets AF_opcrStart_def
        AF_spliceCountdownStart_def AF_opcrLength_def)
  show "AF_SpliceCountdown p = res_bind (AFR_SpliceCountdown p) (\<lambda>b. Ok (sint b))"
    by (simp add: AF_SpliceCountdown_def af_okD(7) [OF assms] AFR_offsets)
  show "AF_TransportPrivateData p = res_bind (AFR_TransportPrivateData p) (\<lambda>d. Ok (of_nat (length d) # d))"
  proof (cases "AF_hasTransportPrivateData p")
    case True
    have l: "AF_transportPrivateDataLength p = 1 + unat (p ! AF_transportPrivateDataStart p)"
      using True tpd_start_le [of p] by (simp add: AF_transportPrivateDataLength_def PacketSize_def)
    have "AF_transportPrivateDataStart p + AF_transportPrivateDataLength p \<le> AF_stuffingStart p"
      by (simp add: AF_transportPrivateDataStart_def AF_stuffingStart_def)
    then have le: "AF_transportPrivateDataStart p + 1 + unat (p ! AF_transportPrivateDataStart p) \<le> 188"
      using l af_okD(4,6) [OF assms] by simp
    then have "AFR_TransportPrivateData p = Ok (take (unat (p ! AF_transportPrivateDataStart p))
        (drop (AF_transportPrivateDataStart p + 1) p))"
      using AFR_TPD_cases [OF af_okD(1) [OF assms] True] by (simp add: Let_def)
    then show ?thesis
      using tpd_data.get_data [OF assms] True l le af_okD(1) [OF assms] by (simp add: af_view_def)
  next
    case False
    then show ?thesis using tpd_data.get_data [OF assms] by (simp add: AFR_offsets af_view_def)
  qed
qed

theorem readers_agree_witness:
  "AF_TransportPrivateData af_example =
    res_bind (AFR_TransportPrivateData af_example) (\<lambda>d. Ok (of_nat (length d) # d))"
  using readers_agree [OF af_example_ok] by blast

text \<open>\<open>EncoderBoundaryPoint\<close> trusts the length byte of the private data: it panics exactly when a
  packet has private data whose length leads past the packet, instead of returning an error.\<close>

theorem EncoderBoundaryPoint_panics:
  assumes "wf_packet p"
  shows "AFR_EncoderBoundaryPoint p = Panic \<longleftrightarrow>
    HasAdaptationField p \<and> p ! 4 \<noteq> 0 \<and> AF_hasTransportPrivateData p \<and>
    188 < AF_transportPrivateDataStart p + 1 + unat (p ! AF_transportPrivateDataStart p)"
  using AFR_TPD_cases [of p] assms
  by (auto simp: AFR_EncoderBoundaryPoint_def accessors_agree AFR_flags AFR_Length_def Let_def word_gt_0)

theorem EncoderBoundaryPoint_panics_witness:
  "AFR_EncoderBoundaryPoint (replicate 3 0 @ [0x20, 183, 0x02, 200] @ replicate 181 0) = Panic"
proof -
  let ?p = "replicate 3 0 @ [0x20, 183, 0x02, 200] @ replicate 181 (0 :: byte)"
  have "wf_packet ?p" by (simp add: wf_packet_def PacketSize_def)
  from EncoderBoundaryPoint_panics [OF this] show ?thesis
    by (simp add: header_getters af_flag_bits AF_transportPrivateDataStart_def pcrStart_def AF_pcrLength_def
        AF_opcrLength_def AF_spliceCountdownLength_def nth_append)
qed

end
