(* ===== verification/Accumulator.thy ===== *)
theory Accumulator
  imports Packet_Core
begin

text \<open>
  \<^verbatim>\<open>gots/packet/accumulator.go\<close>: packets are gathered from a payload unit start until a function of
  the gathered payload bytes says that they are complete.  The function is an argument of the code
  (\<^verbatim>\<open>NewAccumulator\<close>) and of the model; its result is an error, a panic, or the flag \<^verbatim>\<open>done\<close>.
\<close>

section \<open>The code\<close>

datatype acc_state = stateStarting | stateAccumulating | stateDone

record accumulator =
  acc_buf :: "byte list"
  acc_packets :: "packet list"
  acc_state :: acc_state

type_synonym done_func = "byte list \<Rightarrow> bool res"

definition NewAccumulator :: accumulator where
  "NewAccumulator = \<lparr>acc_buf = [], acc_packets = [], acc_state = stateStarting\<rparr>"

text \<open>
  \<open>acc_add\<close> is the part of \<^verbatim>\<open>WritePacket\<close> after the \<^verbatim>\<open>switch\<close>.  A write to the buffer does not fail.
  The number and the error are returned together, beside the changed accumulator.
\<close>

definition acc_add :: "done_func \<Rightarrow> accumulator \<Rightarrow> packet \<Rightarrow> (accumulator \<times> nat \<times> gots_error option) res" where
  "acc_add f a pkt =
     (let cpyPkt = go_copy (replicate PacketSize 0) 0 pkt;
          a = a\<lparr>acc_packets := acc_packets a @ [cpyPkt]\<rparr>
      in case Payload pkt of
           Panic \<Rightarrow> Panic
         | Err e \<Rightarrow> Ok (a, PacketSize, Some e)
         | Ok b \<Rightarrow>
             let a = a\<lparr>acc_buf := acc_buf a @ b\<rparr>
             in case f (acc_buf a) of
                  Panic \<Rightarrow> Panic
                | Err e \<Rightarrow> Ok (a, PacketSize, Some e)
                | Ok d \<Rightarrow>
                    if d then Ok (a\<lparr>acc_state := stateDone\<rparr>, PacketSize, Some ErrAccumulatorDone)
                    else Ok (a, PacketSize, None))"

function acc_WritePacket ::
  "done_func \<Rightarrow> accumulator \<Rightarrow> packet \<Rightarrow> (accumulator \<times> nat \<times> gots_error option) res" where
  "acc_WritePacket f a pkt =
     (case acc_state a of
        stateStarting \<Rightarrow>
          if \<not> PayloadUnitStartIndicator pkt
          then Ok (a, PacketSize, Some ErrNoPayloadUnitStartIndicator)
          else acc_add f (a\<lparr>acc_buf := [], acc_packets := [], acc_state := stateAccumulating\<rparr>) pkt
      | stateAccumulating \<Rightarrow>
          if PayloadUnitStartIndicator pkt
          then acc_WritePacket f (a\<lparr>acc_state := stateStarting\<rparr>) pkt
          else acc_add f a pkt
      | stateDone \<Rightarrow> Ok (a, 0, Some ErrAccumulatorDone))"
  by pat_completeness auto
termination
  by (relation "measure (\<lambda>(f, a, pkt). if acc_state a = stateAccumulating then 1 else 0)") auto

declare acc_WritePacket.simps [simp del]

definition acc_Bytes :: "accumulator \<Rightarrow> byte list" where
  "acc_Bytes a = go_copy (replicate (length (acc_buf a)) 0) 0 (acc_buf a)"

definition acc_Packets :: "accumulator \<Rightarrow> packet list" where
  "acc_Packets a = go_copy (replicate (length (acc_packets a)) []) 0 (acc_packets a)"

definition acc_Reset :: "accumulator \<Rightarrow> accumulator" where
  "acc_Reset a = a\<lparr>acc_state := stateStarting, acc_buf := [], acc_packets := []\<rparr>"

section \<open>What the accumulator holds\<close>

text \<open>
  The payload bytes of a packet; packets without a payload contribute nothing.
\<close>

definition payload_of :: "packet \<Rightarrow> byte list" where
  "payload_of p = (case Payload p of Ok b \<Rightarrow> b | _ \<Rightarrow> [])"

lemma copy_packet [simp]: "wf_packet p \<Longrightarrow> go_copy (replicate PacketSize 0) 0 p = p"
  by (simp add: go_copy_def wf_packet_def)

lemma Payload_not_Panic: "wf_packet p \<Longrightarrow> Payload p \<noteq> Panic"
  by (auto simp: Payload_def Let_def slice_def)

lemma acc_WritePacket_cases:
  "acc_WritePacket f a pkt =
     (if acc_state a = stateDone then Ok (a, 0, Some ErrAccumulatorDone)
      else if PayloadUnitStartIndicator pkt
      then acc_add f (a\<lparr>acc_buf := [], acc_packets := [], acc_state := stateAccumulating\<rparr>) pkt
      else if acc_state a = stateStarting then Ok (a, PacketSize, Some ErrNoPayloadUnitStartIndicator)
      else acc_add f a pkt)"
proof (cases "acc_state a")
  case stateAccumulating
  then show ?thesis
    by (subst acc_WritePacket.simps) (auto simp: acc_WritePacket.simps [of f "a\<lparr>acc_state := stateStarting\<rparr>"])
qed (simp_all add: acc_WritePacket.simps)

lemma acc_add_Ok:
  assumes "wf_packet pkt" "acc_add f a pkt = Ok (a', n, e)" "acc_state a = stateAccumulating"
  shows "acc_packets a' = acc_packets a @ [pkt]" "acc_buf a' = acc_buf a @ payload_of pkt" "n = PacketSize"
    "acc_state a' \<noteq> stateStarting"
    "acc_state a' = stateDone \<longleftrightarrow> (\<exists>b. Payload pkt = Ok b \<and> f (acc_buf a @ b) = Ok True)"
    "acc_state a' = stateDone \<Longrightarrow> e = Some ErrAccumulatorDone"
  using assms by (auto simp: acc_add_def Let_def payload_of_def split: res.splits if_splits)

lemma acc_Bytes_eq: "acc_Bytes a = acc_buf a"
  by (simp add: acc_Bytes_def go_copy_def)

lemma acc_Packets_eq: "acc_Packets a = acc_packets a"
  by (simp add: acc_Packets_def go_copy_def)

section \<open>Runs\<close>

text \<open>A caller that writes packets one after the other, whatever the errors.\<close>

fun acc_run :: "done_func \<Rightarrow> accumulator \<Rightarrow> packet list \<Rightarrow> accumulator res" where
  "acc_run f a [] = Ok a"
| "acc_run f a (p # ps) = res_bind (acc_WritePacket f a p) (\<lambda>(a', _). acc_run f a' ps)"

section \<open>The accumulator as an interface\<close>

text \<open>
  A completion function that never panics makes every write return; the laws on \<open>f\<close> are what the
  users of the accumulator give.
\<close>

locale done_function =
  fixes f :: done_func
  assumes total: "f b \<noteq> Panic"
begin

lemma write_total: "wf_packet pkt \<Longrightarrow> acc_WritePacket f a pkt \<noteq> Panic"
  using total Payload_not_Panic [of pkt]
  by (auto simp: acc_WritePacket_cases acc_add_def Let_def split: res.splits)

lemma run_total: "\<forall>p \<in> set ps. wf_packet p \<Longrightarrow> \<exists>a'. acc_run f a ps = Ok a'"
proof (induction ps arbitrary: a)
  case (Cons p ps)
  have "acc_WritePacket f a p \<noteq> Panic" using Cons.prems by (intro write_total) simp
  moreover have "acc_WritePacket f a p \<noteq> Err e" for e
    by (auto simp: acc_WritePacket_cases acc_add_def Let_def split: res.splits)
  ultimately obtain a1 n e where "acc_WritePacket f a p = Ok (a1, n, e)"
    by (cases "acc_WritePacket f a p") auto
  with Cons.IH [of a1] Cons.prems show ?case by simp
qed simp

end

section \<open>Properties\<close>

text \<open>
  What was written last, from its unit start on; and when that completes a unit: its last packet has a payload and the completion
  function accepts the payloads of all.
\<close>

fun grow_unit :: "packet list \<Rightarrow> packet \<Rightarrow> packet list" where
  "grow_unit qs p = (if PayloadUnitStartIndicator p then [p] else if qs = [] then [] else qs @ [p])"

definition last_unit :: "packet list \<Rightarrow> packet list" where "last_unit = foldl grow_unit []"

definition completes :: "done_func \<Rightarrow> packet list \<Rightarrow> bool" where
  "completes f ps \<longleftrightarrow> last_unit ps \<noteq> [] \<and> (\<exists>b. Payload (last ps) = Ok b) \<and> f (concat (map payload_of (last_unit ps))) = Ok True"

definition accumulated :: "done_func \<Rightarrow> packet list \<Rightarrow> nat \<Rightarrow> accumulator \<Rightarrow> bool" where
  "accumulated f ps n a \<longleftrightarrow> n \<le> length ps \<and> acc_packets a = last_unit (take n ps) \<and>
     acc_buf a = concat (map payload_of (last_unit (take n ps))) \<and> (\<forall>m < n. \<not> completes f (take m ps)) \<and>
     (if completes f (take n ps) then acc_state a = stateDone
      else n = length ps \<and> acc_state a = (if last_unit ps = [] then stateStarting else stateAccumulating))"

lemma last_unit_snoc: "last_unit (ps @ [p]) = grow_unit (last_unit ps) p"
  by (simp add: last_unit_def)

lemma acc_add_accumulated:
  assumes "wf_packet p" "acc_add f a p = Ok (a', k, e)" "acc_state a = stateAccumulating"
    and "last_unit (ps @ [p]) = acc_packets a @ [p]" "acc_buf a = concat (map payload_of (acc_packets a))"
    and "\<forall>m \<le> length ps. \<not> completes f (take m ps)"
  shows "accumulated f (ps @ [p]) (length (ps @ [p])) a'"
proof -
  note r = acc_add_Ok [OF assms(1-3)]
  have "acc_state a' = stateDone \<longleftrightarrow> completes f (ps @ [p])"
    using r(5) assms(4,5) by (auto simp: completes_def payload_of_def)
  moreover have "acc_state a' = stateAccumulating" if "acc_state a' \<noteq> stateDone" using r(4) that by (cases "acc_state a'") auto
  ultimately show ?thesis using r(1,2) assms(4-6) by (auto simp: accumulated_def)
qed

lemma acc_step_accumulated:
  assumes "accumulated f ps n a" "wf_packet p" "acc_WritePacket f a p = Ok (a', k, e)"
  shows "\<exists>n'. accumulated f (ps @ [p]) n' a'"
proof (cases "completes f (take n ps)")
  case True
  then have "a' = a" using assms(1,3) by (simp add: accumulated_def acc_WritePacket_cases)
  then have "accumulated f (ps @ [p]) n a'" using assms(1) True by (auto simp: accumulated_def)
  then show ?thesis ..
next
  case False
  then have a: "n = length ps" "acc_packets a = last_unit ps" "acc_buf a = concat (map payload_of (last_unit ps))"
    "acc_state a = (if last_unit ps = [] then stateStarting else stateAccumulating)" "\<forall>m \<le> length ps. \<not> completes f (take m ps)"
    using assms(1) by (auto simp: accumulated_def le_less)
  show ?thesis
  proof (cases "PayloadUnitStartIndicator p \<or> last_unit ps \<noteq> []")
    case True
    define a0 where "a0 = (if PayloadUnitStartIndicator p then a\<lparr>acc_buf := [], acc_packets := [], acc_state := stateAccumulating\<rparr> else a)"
    have "acc_add f a0 p = Ok (a', k, e)" "acc_state a0 = stateAccumulating"
      using assms(3) a(4) True by (auto simp: acc_WritePacket_cases a0_def split: if_splits)
    moreover have "last_unit (ps @ [p]) = acc_packets a0 @ [p]" "acc_buf a0 = concat (map payload_of (acc_packets a0))"
      using a(2,3) True by (auto simp: last_unit_snoc a0_def)
    ultimately show ?thesis using acc_add_accumulated [OF assms(2) _ _ _ _ a(5)] by blast
  next
    case no: False
    then have e: "last_unit (ps @ [p]) = []" by (simp add: last_unit_snoc)
    then have "\<not> completes f (ps @ [p])" by (simp add: completes_def)
    moreover have "a' = a" using assms(3) a(4) no by (simp add: acc_WritePacket_cases)
    ultimately have "accumulated f (ps @ [p]) (length (ps @ [p])) a'" using a no e by (auto simp: accumulated_def)
    then show ?thesis ..
  qed
qed

lemma acc_run_snoc: "acc_run f a (ps @ [p]) = res_bind (acc_run f a ps) (\<lambda>a'. res_bind (acc_WritePacket f a' p) (\<lambda>(a'', _). Ok a''))"
proof (induction f a ps rule: acc_run.induct)
  case (2 f a q qs)
  then show ?case by (cases "acc_WritePacket f a q") auto
qed (simp split: prod.splits)

lemma acc_run_accumulated:
  "\<forall>p \<in> set ps. wf_packet p \<Longrightarrow> acc_run f NewAccumulator ps = Ok a \<Longrightarrow> \<exists>n. accumulated f ps n a"
proof (induction ps arbitrary: a rule: rev_induct)
  case Nil
  then have "accumulated f [] 0 a" by (auto simp: accumulated_def completes_def last_unit_def NewAccumulator_def)
  then show ?case ..
next
  case (snoc p ps)
  from snoc.prems(2) obtain a0 k e where 1: "acc_run f NewAccumulator ps = Ok a0" "acc_WritePacket f a0 p = Ok (a, k, e)"
    by (auto simp: acc_run_snoc split: prod.splits)
  with snoc obtain n where "accumulated f ps n a0" by auto
  from acc_step_accumulated [OF this _ 1(2)] snoc.prems(1) show ?case by simp
qed

text \<open>C3: writing packets into a new accumulator, with any completion function, stops at the first of them
  that completes a unit, or else at the last; the accumulator is done exactly when one does. Up to there,
  \<open>Packets\<close> is what was written from the last payload unit start on - a new start drops what was
  gathered before, and packets before the first start are not gathered - and \<open>Bytes\<close> is the
  concatenation of the payloads of these packets. A unit is complete when its last packet has a payload and the
  completion function accepts the payloads so far.\<close>

theorem accumulator_invariant:
  assumes "\<forall>p \<in> set ps. wf_packet p" "acc_run f NewAccumulator ps = Ok a"
  shows "\<exists>n \<le> length ps. acc_Packets a = last_unit (take n ps) \<and> acc_Bytes a = concat (map payload_of (last_unit (take n ps))) \<and>
    (\<forall>m < n. \<not> completes f (take m ps)) \<and>
    (if acc_state a = stateDone then completes f (take n ps) else n = length ps \<and> \<not> completes f ps)"
proof -
  from acc_run_accumulated [OF assms] obtain n where n: "accumulated f ps n a" ..
  then have "acc_state a = stateDone \<longleftrightarrow> completes f (take n ps)" by (auto simp: accumulated_def split: if_splits)
  then show ?thesis using n by (intro exI [of _ n]) (auto simp: accumulated_def acc_Bytes_eq acc_Packets_eq split: if_splits)
qed

theorem accumulator_invariant_witness:
  "\<exists>a. acc_run (\<lambda>b. Ok False) NewAccumulator [New, SetPayloadUnitStartIndicator New True, New] = Ok a \<and>
     acc_Packets a = [SetPayloadUnitStartIndicator New True, New]"
proof -
  let ?s = "SetPayloadUnitStartIndicator New True"
  have d: "done_function (\<lambda>b. Ok False)" by unfold_locales simp
  have wf: "\<forall>p \<in> set [New, ?s, New]. wf_packet p" by simp
  have s: "PayloadUnitStartIndicator ?s" using pusi.get_set [OF wf_New, of True] by (simp add: accessors_agree)
  have n: "\<not> PayloadUnitStartIndicator New" by (simp add: accessors_agree header_getters New_def PacketSize_def)
  have c: "\<not> completes (\<lambda>b. Ok False) ps" for ps by (simp add: completes_def)
  from done_function.run_total [OF d wf] obtain a where
    a: "acc_run (\<lambda>b. Ok False) NewAccumulator [New, ?s, New] = Ok a" by blast
  from accumulator_invariant [OF wf a] c have "acc_Packets a = last_unit [New, ?s, New]" by (auto split: if_splits)
  then show ?thesis using a s n by (intro exI [of _ a]) (simp add: last_unit_def)
qed

lemma acc_add_done:
  assumes "wf_packet p" "acc_add f a p = Ok (a', n, e)" "acc_state a = stateAccumulating"
  shows "acc_state a' = stateDone \<longleftrightarrow> f (acc_buf a') = Ok True \<and> HasPayload p \<and>
      payloadStart p \<le> 188 \<and> e = Some ErrAccumulatorDone"
  using assms Payload_Header_split [OF assms(1)]
  by (auto simp: acc_add_def Let_def Payload_def accessors_agree split: res.splits if_splits)

text \<open>The accumulator is done exactly when the completion function accepts the bytes gathered;
  from then on every write is refused with \<open>ErrAccumulatorDone\<close> and changes nothing until \<open>Reset\<close>.\<close>

theorem accumulator_done:
  assumes "wf_packet p" "acc_state a \<noteq> stateDone" "acc_WritePacket f a p = Ok (a', n, e)"
  shows "(acc_state a' = stateDone \<longleftrightarrow> f (acc_Bytes a') = Ok True \<and> HasPayload p \<and>
      payloadStart p \<le> 188 \<and> e = Some ErrAccumulatorDone) \<and>
    (acc_state a' = stateDone \<longrightarrow> acc_WritePacket f a' q = Ok (a', 0, Some ErrAccumulatorDone)) \<and>
    acc_state (acc_Reset a') = stateStarting \<and> acc_Bytes (acc_Reset a') = []"
proof -
  have "acc_state a' = stateDone \<longleftrightarrow> f (acc_buf a') = Ok True \<and> HasPayload p \<and>
      payloadStart p \<le> 188 \<and> e = Some ErrAccumulatorDone"
    using assms(3,2) acc_add_done [OF assms(1)] unfolding acc_WritePacket_cases
    by (cases "acc_state a") (auto split: if_splits)
  then show ?thesis by (simp add: acc_Bytes_eq acc_Reset_def acc_WritePacket_cases)
qed

theorem accumulator_done_witness:
  "\<exists>a n e. acc_WritePacket (\<lambda>b. Ok True) NewAccumulator (SetPayloadUnitStartIndicator New True) = Ok (a, n, e) \<and>
     acc_state a = stateDone \<and> acc_WritePacket (\<lambda>b. Ok True) a New = Ok (a, 0, Some ErrAccumulatorDone)"
proof -
  let ?p = "SetPayloadUnitStartIndicator New True"
  have n3: "New ! 3 = 0x10" "New ! 1 = 0x1f" by (simp_all add: New_def PacketSize_def)
  have p3: "?p ! 3 = 0x10" by (simp add: SetPayloadUnitStartIndicator_def nth_setBit_other n3)
  have pl: "PayloadUnitStartIndicator ?p" "HasPayload ?p" "payloadStart ?p = 4"
    using pusi.get_set [OF wf_New, of True]
    by (simp_all add: accessors_agree header_getters p3 payloadStart_def)
  then obtain b where b: "Payload ?p = Ok b" by (auto simp: Payload_def accessors_agree)
  let ?a = "NewAccumulator\<lparr>acc_buf := b, acc_packets := [?p], acc_state := stateDone\<rparr>"
  have w: "acc_WritePacket (\<lambda>b. Ok True) NewAccumulator ?p = Ok (?a, PacketSize, Some ErrAccumulatorDone)"
    using pl(1) b by (simp add: acc_WritePacket_cases acc_add_def NewAccumulator_def Let_def)
  have "acc_state NewAccumulator \<noteq> stateDone" by (simp add: NewAccumulator_def)
  from accumulator_done [OF _ this w, of New] w show ?thesis by auto
qed

end
