(* ===== verification/PacketIO.thy ===== *)
theory PacketIO
  imports Packet_Core Accumulator
begin

text \<open>
  \<^verbatim>\<open>gots/packet/io.go\<close> (finding the next packet in a byte stream) and
  \<^verbatim>\<open>gots/packet/packetwriter.go\<close> (an \<^verbatim>\<open>io.Writer\<close> on top of a packet writer).

  A \<^verbatim>\<open>PeekScanner\<close> is a buffered reader of the standard library: the bytes that are left, the byte
  that \<^verbatim>\<open>UnreadByte\<close> can put back, and the error that follows the last byte.  A \<^verbatim>\<open>PacketWriter\<close> is an
  interface of the source: its method is an argument of the definitions, on a state of its own.
\<close>

section \<open>The reader of io.go\<close>

record scanner =
  sc_left :: "byte list"
  sc_last :: "byte option"
  sc_end :: gots_error

definition ReadByte :: "scanner \<Rightarrow> scanner \<times> byte res" where
  "ReadByte r =
     (case sc_left r of
        [] \<Rightarrow> (r\<lparr>sc_last := None\<rparr>, Err (sc_end r))
      | b # bs \<Rightarrow> (r\<lparr>sc_left := bs, sc_last := Some b\<rparr>, Ok b))"

definition UnreadByte :: "scanner \<Rightarrow> scanner \<times> gots_error option" where
  "UnreadByte r =
     (case sc_last r of
        None \<Rightarrow> (r, Some (ErrorsNew ''bufio: invalid use of UnreadByte''))
      | Some b \<Rightarrow> (r\<lparr>sc_left := b # sc_left r, sc_last := None\<rparr>, None))"

definition Peek :: "scanner \<Rightarrow> nat \<Rightarrow> byte list res" where
  "Peek r n = (if length (sc_left r) < n then Err (sc_end r) else Ok (take n (sc_left r)))"

definition BigEndian_Uint32 :: "byte list \<Rightarrow> u32" where
  "BigEndian_Uint32 b =
     ucast (b ! 3) OR push_bit 8 (ucast (b ! 2)) OR push_bit 16 (ucast (b ! 1)) OR push_bit 24 (ucast (b ! 0))"

section \<open>io.go\<close>

definition pidMask :: u32 where "pidMask = push_bit 8 0x1fff"
definition afcMask :: u32 where "afcMask = push_bit 4 0x3"

definition IsSynced :: "scanner \<Rightarrow> bool res" where
  "IsSynced r =
     res_bind (Peek r 4) (\<lambda>b.
       if b ! 0 \<noteq> SyncByte then Ok False
       else let header = BigEndian_Uint32 b; afc = header AND afcMask
            in if afc = 0x0 then Ok False
               else let pid = drop_bit 8 (header AND pidMask) in Ok (pid < 0x4 \<or> 0xf < pid))"

definition sync_error :: "gots_error \<Rightarrow> gots_error" where
  "sync_error err = (if err = IoEOF then ErrSyncByteNotFound else err)"

lemma ReadByte_shorter: "ReadByte r = (r', Ok b) \<Longrightarrow> length (sc_left r) = Suc (length (sc_left r'))"
  by (auto simp: ReadByte_def split: list.splits)

lemma UnreadByte_longer: "UnreadByte r = (r', None) \<Longrightarrow> length (sc_left r') = Suc (length (sc_left r))"
  by (auto simp: UnreadByte_def split: option.splits)

text \<open>One turn of the loop of \<open>Sync\<close> ends it (\<open>Inl\<close>) or goes on with a reader and an offset.\<close>

definition sync_turn :: "scanner \<Rightarrow> int \<Rightarrow> (scanner \<times> int \<times> gots_error option) + (scanner \<times> int)" where
  "sync_turn r off =
     (case ReadByte r of
        (r1, Ok b) \<Rightarrow>
          if b \<noteq> SyncByte then Inr (r1, off + 1)
          else (case UnreadByte r1 of
            (r2, Some err) \<Rightarrow> Inl (r2, off, Some err)
          | (r2, None) \<Rightarrow>
              (case IsSynced r2 of
                Ok ok \<Rightarrow>
                  if ok then Inl (r2, off, None)
                  else (case ReadByte r2 of
                    (r3, Ok _) \<Rightarrow> Inr (r3, off)
                  | (r3, Err err) \<Rightarrow> Inl (r3, off, Some (sync_error err))
                  | (r3, Panic) \<Rightarrow> Inl (r3, off, None))
              | Err err \<Rightarrow> Inl (r2, off, Some (sync_error err))
              | Panic \<Rightarrow> Inl (r2, off, None)))
      | (r1, Err err) \<Rightarrow> Inl (r1, off, Some (sync_error err))
      | (r1, Panic) \<Rightarrow> Inl (r1, off, None))"

lemma sync_turn_shorter: "sync_turn r off = Inr (r', off') \<Longrightarrow> length (sc_left r') < length (sc_left r)"
  by (auto simp: sync_turn_def split: prod.splits res.splits option.splits if_splits
      dest!: ReadByte_shorter UnreadByte_longer)

function Sync_loop :: "scanner \<Rightarrow> int \<Rightarrow> scanner \<times> int \<times> gots_error option" where
  "Sync_loop r off =
     (case sync_turn r off of Inl res \<Rightarrow> res | Inr (r', off') \<Rightarrow> Sync_loop r' off')"
  by pat_completeness auto
termination
  by (relation "measure (\<lambda>(r, off). length (sc_left r))") (auto dest: sync_turn_shorter)

declare Sync_loop.simps [simp del]

definition Sync :: "scanner \<Rightarrow> scanner \<times> int \<times> gots_error option" where
  "Sync r = Sync_loop r 0"

section \<open>packetwriter.go\<close>

type_synonym 'w packet_write = "'w \<Rightarrow> packet \<Rightarrow> ('w \<times> nat \<times> gots_error option) res"

record 'w packetWriter =
  pw_writer :: 'w
  pw_pkt :: packet

definition IOWriter :: "'w \<Rightarrow> 'w packetWriter" where
  "IOWriter w = \<lparr>pw_writer = w, pw_pkt = replicate PacketSize 0\<rparr>"

definition IOWriteCloser :: "'w \<Rightarrow> 'w packetWriter" where
  "IOWriteCloser w = \<lparr>pw_writer = w, pw_pkt = replicate PacketSize 0\<rparr>"

text \<open>\<^verbatim>\<open>Close\<close> of a \<^verbatim>\<open>nopCloser\<close>, and the adapter from functions.\<close>

definition nopCloser_Close :: "gots_error option" where "nopCloser_Close = None"

definition PacketWriterFunc_WritePacket ::
  "(packet \<Rightarrow> (nat \<times> gots_error option) res) \<Rightarrow> unit packet_write" where
  "PacketWriterFunc_WritePacket f w p = res_bind (f p) (\<lambda>(n, err). Ok ((), n, err))"

function Write_loop ::
  "'w packet_write \<Rightarrow> 'w packetWriter \<Rightarrow> byte list \<Rightarrow> nat \<Rightarrow> ('w packetWriter \<times> nat \<times> gots_error option) res" where
  "Write_loop wp pw rest n =
     (if rest = [] then Ok (pw, n, None)
      else let pkt = go_copy (pw_pkt pw) 0 rest
           in res_bind (wp (pw_writer pw) pkt) (\<lambda>(w', m, err).
                if err = None
                then Write_loop wp (pw\<lparr>pw_writer := w', pw_pkt := pkt\<rparr>) (drop PacketSize rest) (n + m)
                else Ok (pw\<lparr>pw_writer := w', pw_pkt := pkt\<rparr>, n + m, err)))"
  by pat_completeness auto
termination
  by (relation "measure (\<lambda>(wp, pw, rest, n). length rest)") (auto simp: PacketSize_def)

declare Write_loop.simps [simp del]

definition pw_Write ::
  "'w packet_write \<Rightarrow> 'w packetWriter \<Rightarrow> byte list \<Rightarrow> ('w packetWriter \<times> nat \<times> gots_error option) res" where
  "pw_Write wp pw p =
     (if length p mod PacketSize \<noteq> 0 then Ok (pw, 0, Some ErrInvalidPacketLength)
      else res_bind (Write_loop wp pw p 0) (\<lambda>(pw', n, err).
        if err \<noteq> None then Ok (pw', n, err)
        else if length p > n then Ok (pw', n, Some IoErrShortWrite)
        else Ok (pw', n, None)))"

text \<open>
  A reader gives the bytes of each \<^verbatim>\<open>Read\<close> (at most a packet, into the start of the buffer) and its
  error; after the last entry it is at its end.
\<close>

fun ReadFrom_loop ::
  "'w packet_write \<Rightarrow> 'w packetWriter \<Rightarrow> (byte list \<times> gots_error option) list \<Rightarrow> nat \<Rightarrow> gots_error option
    \<Rightarrow> ('w packetWriter \<times> nat \<times> gots_error option) res" where
  "ReadFrom_loop wp pw [] n err = Ok (pw, n, err)"
| "ReadFrom_loop wp pw ((bs, er) # rs) n err =
     (let buf = go_copy (pw_pkt pw) 0 bs; nr = min PacketSize (length bs); pw = pw\<lparr>pw_pkt := buf\<rparr>
      in if nr = PacketSize then
           res_bind (wp (pw_writer pw) buf) (\<lambda>(w', nw, ew).
             let pw = pw\<lparr>pw_writer := w'\<rparr>; n = (if nw > 0 then n + nw else n)
             in if ew \<noteq> None then Ok (pw, n, ew)
                else if nr \<noteq> nw then Ok (pw, n, Some IoErrShortWrite)
                else (case er of
                    Some e \<Rightarrow> Ok (pw, n, if e \<noteq> IoEOF then Some e else err)
                  | None \<Rightarrow> ReadFrom_loop wp pw rs n err))
         else
           let err = (if nr > 0 then Some ErrInvalidPacketLength else err)
           in case er of
                Some e \<Rightarrow> Ok (pw, n, if e \<noteq> IoEOF then Some e else err)
              | None \<Rightarrow> ReadFrom_loop wp pw rs n err)"

definition pw_ReadFrom ::
  "'w packet_write \<Rightarrow> 'w packetWriter \<Rightarrow> (byte list \<times> gots_error option) list
    \<Rightarrow> ('w packetWriter \<times> nat \<times> gots_error option) res" where
  "pw_ReadFrom wp pw r = ReadFrom_loop wp pw r 0 None"

section \<open>Synchronisation\<close>

text \<open>A packet header starts at position \<open>k\<close>, in terms of the packet accessors.\<close>

definition synced_at :: "byte list \<Rightarrow> nat \<Rightarrow> bool" where
  "synced_at bs k \<longleftrightarrow> k + 4 \<le> length bs \<and> bs ! k = SyncByte \<and> AdaptationFieldControl (drop k bs) \<noteq> 0 \<and>
     (PID (drop k bs) < 4 \<or> 15 < PID (drop k bs))"

lemma header_pid: "uint (drop_bit 8 (BigEndian_Uint32 b AND pidMask)) = PID b"
  unfolding PID_alt
proof (rule bit_eqI)
  fix n
  have m: "bit pidMask k \<longleftrightarrow> 8 \<le> k \<and> k < 21" for k
  proof -
    have e: "pidMask = push_bit 8 (mask 13)" by (simp add: pidMask_def mask_eq_exp_minus_1)
    show ?thesis unfolding e bit_push_bit_iff bit_mask_iff by auto
  qed
  show "bit (uint (drop_bit 8 (BigEndian_Uint32 b AND pidMask))) n =
    bit (push_bit 8 (uint (take_bit 5 (b ! 1))) OR uint (b ! 2)) n"
    by (cases "n < 8") (auto simp: bit_simps m BigEndian_Uint32_def)
qed

lemma header_afc: "BigEndian_Uint32 b AND afcMask = 0 \<longleftrightarrow> AdaptationFieldControl b = 0"
proof -
  have m: "bit afcMask k \<longleftrightarrow> k = 4 \<or> k = 5" for k
  proof -
    have e: "afcMask = push_bit 4 (mask 2)" by (simp add: afcMask_def mask_eq_exp_minus_1)
    show ?thesis unfolding e bit_push_bit_iff bit_mask_iff by auto
  qed
  have "BigEndian_Uint32 b AND afcMask = 0 \<longleftrightarrow> \<not> bit (b ! 3) 4 \<and> \<not> bit (b ! 3) 5"
  proof
    assume "BigEndian_Uint32 b AND afcMask = 0"
    then have "\<not> bit (BigEndian_Uint32 b AND afcMask) k" for k by simp
    from this [of 4] this [of 5] show "\<not> bit (b ! 3) 4 \<and> \<not> bit (b ! 3) 5"
      by (simp add: bit_and_iff m) (simp add: BigEndian_Uint32_def bit_simps)
  next
    assume "\<not> bit (b ! 3) 4 \<and> \<not> bit (b ! 3) 5"
    then show "BigEndian_Uint32 b AND afcMask = 0"
      by (intro bit_word_eqI) (auto simp: bit_and_iff m BigEndian_Uint32_def bit_simps)
  qed
  also have "\<dots> \<longleftrightarrow> AdaptationFieldControl b = 0"
    unfolding AFC_alt
  proof
    assume "\<not> bit (b ! 3) 4 \<and> \<not> bit (b ! 3) 5"
    then show "take_bit 2 (drop_bit 4 (b ! 3)) = 0" by (intro byte_eqI) (simp_all add: bit_simps)
  next
    assume "take_bit 2 (drop_bit 4 (b ! 3)) = 0"
    then have "\<not> bit (take_bit 2 (drop_bit 4 (b ! 3))) k" for k by simp
    from this [of 0] this [of 1] show "\<not> bit (b ! 3) 4 \<and> \<not> bit (b ! 3) 5" by (simp add: bit_simps)
  qed
  finally show ?thesis .
qed

lemma IsSynced_eq:
  "IsSynced r = (if length (sc_left r) < 4 then Err (sc_end r) else Ok (synced_at (sc_left r) 0))"
proof (cases "length (sc_left r) < 4")
  case False
  let ?b = "take 4 (sc_left r)"
  have b: "?b ! 0 = sc_left r ! 0" "PID ?b = PID (sc_left r)"
    "AdaptationFieldControl ?b = AdaptationFieldControl (sc_left r)"
    by (simp_all add: PID_alt AFC_alt)
  let ?pid = "drop_bit 8 (BigEndian_Uint32 ?b AND pidMask)"
  have "(?pid < 4 \<or> 15 < ?pid) \<longleftrightarrow> (PID ?b < 4 \<or> 15 < PID ?b)"
    unfolding word_less_def header_pid by simp
  with False show ?thesis
    by (simp add: IsSynced_def Peek_def Let_def synced_at_def b header_afc)
qed (simp add: IsSynced_def Peek_def)

lemma sync_turn_cases:
  "sync_turn r off =
    (case sc_left r of
      [] \<Rightarrow> Inl (r\<lparr>sc_last := None\<rparr>, off, Some (sync_error (sc_end r)))
    | b # bs \<Rightarrow>
        if b \<noteq> SyncByte then Inr (r\<lparr>sc_left := bs, sc_last := Some b\<rparr>, off + 1)
        else if length (sc_left r) < 4 then Inl (r\<lparr>sc_last := None\<rparr>, off, Some (sync_error (sc_end r)))
        else if synced_at (sc_left r) 0 then Inl (r\<lparr>sc_last := None\<rparr>, off, None)
        else Inr (r\<lparr>sc_left := bs, sc_last := Some b\<rparr>, off))"
  by (auto simp: sync_turn_def ReadByte_def UnreadByte_def IsSynced_eq split: list.splits)

lemma synced_at_Cons: "synced_at (b # bs) (Suc k) = synced_at bs k"
  by (simp add: synced_at_def add.commute)

lemma synced_at_0: "synced_at bs 0 \<Longrightarrow> 4 \<le> length bs \<and> bs ! 0 = SyncByte"
  by (simp add: synced_at_def)

text \<open>What a result of \<open>Sync\<close> says of the bytes it started from.\<close>

definition sync_spec :: "byte list \<Rightarrow> gots_error \<Rightarrow> int \<Rightarrow> scanner \<times> int \<times> gots_error option \<Rightarrow> bool" where
  "sync_spec bs e0 off res =
    (case res of
       (r', off', None) \<Rightarrow> \<exists>k. synced_at bs k \<and> (\<forall>j < k. \<not> synced_at bs j) \<and>
         sc_left r' = drop k bs \<and> off' = off + int k - int (count_list (take k bs) SyncByte)
     | (r', off', Some e) \<Rightarrow> e = sync_error e0 \<and> (\<forall>k. \<not> synced_at bs k))"

lemma sync_spec_Cons:
  assumes "sync_spec bs e0 (if b = SyncByte then off else off + 1) res" "\<not> synced_at (b # bs) 0"
  shows "sync_spec (b # bs) e0 off res"
proof -
  obtain r' off' eo where res: "res = (r', off', eo)" by (cases res)
  have n: "synced_at (b # bs) k \<longleftrightarrow> (\<exists>j. k = Suc j \<and> synced_at bs j)" for k
    using assms(2) by (cases k) (simp_all add: synced_at_Cons)
  show ?thesis
  proof (cases eo)
    case None
    with assms(1) res obtain k where k: "synced_at bs k" "\<forall>j < k. \<not> synced_at bs j" "sc_left r' = drop k bs"
      "off' = (if b = SyncByte then off else off + 1) + int k - int (count_list (take k bs) SyncByte)"
      by (auto simp: sync_spec_def)
    then show ?thesis unfolding res None sync_spec_def prod.case option.case
      by (intro exI [of _ "Suc k"]) (auto simp: n)
  next
    case (Some e)
    with assms(1) res n show ?thesis by (auto simp: sync_spec_def)
  qed
qed

lemma Sync_loop_spec: "sync_spec (sc_left r) (sc_end r) off (Sync_loop r off)"
proof (induction r off rule: Sync_loop.induct)
  case (1 r off)
  show ?case
  proof (cases "sc_left r")
    case Nil
    then have "Sync_loop r off = (r\<lparr>sc_last := None\<rparr>, off, Some (sync_error (sc_end r)))"
      by (subst Sync_loop.simps) (simp add: sync_turn_cases)
    with Nil show ?thesis by (simp add: synced_at_def sync_spec_def)
  next
    case (Cons b bs)
    let ?r = "r\<lparr>sc_left := bs, sc_last := Some b\<rparr>" and ?off = "if b = SyncByte then off else off + 1"
    consider (short) "b = SyncByte" "length (sc_left r) < 4" | (found) "synced_at (sc_left r) 0"
      | (skip) "\<not> synced_at (sc_left r) 0" "b = SyncByte \<Longrightarrow> \<not> length (sc_left r) < 4" by blast
    then show ?thesis
    proof cases
      case short
      then have "Sync_loop r off = (r\<lparr>sc_last := None\<rparr>, off, Some (sync_error (sc_end r)))"
        using Cons by (subst Sync_loop.simps) (simp add: sync_turn_cases)
      with short(2) show ?thesis by (simp add: synced_at_def sync_spec_def)
    next
      case found
      then have "Sync_loop r off = (r\<lparr>sc_last := None\<rparr>, off, None)"
        using Cons synced_at_0 [OF found] by (subst Sync_loop.simps) (simp add: sync_turn_cases)
      with found show ?thesis by (auto simp: sync_spec_def intro: exI [of _ 0])
    next
      case skip
      have t: "sync_turn r off = Inr (?r, ?off)" using Cons skip by (auto simp: sync_turn_cases)
      have e: "Sync_loop r off = Sync_loop ?r ?off" by (subst Sync_loop.simps) (simp only: t sum.case prod.case)
      from 1 [OF t refl] have "sync_spec bs (sc_end r) ?off (Sync_loop ?r ?off)" by simp
      from sync_spec_Cons [OF this] skip(1) Cons show ?thesis unfolding e by simp
    qed
  qed
qed

section \<open>Packets in a byte stream\<close>

text \<open>The packets of a byte string, and a writer fed with packets until it fails.\<close>

function chunks :: "byte list \<Rightarrow> packet list" where
  "chunks bs = (if bs = [] then [] else take PacketSize bs # chunks (drop PacketSize bs))"
  by pat_completeness auto
termination
  by (relation "measure length") (auto simp: PacketSize_def)

declare chunks.simps [simp del]

fun feed :: "'w packet_write \<Rightarrow> 'w \<Rightarrow> packet list \<Rightarrow> ('w \<times> nat \<times> gots_error option) res" where
  "feed wp w [] = Ok (w, 0, None)"
| "feed wp w (p # ps) = res_bind (wp w p) (\<lambda>(w', m, err).
     if err = None then res_bind (feed wp w' ps) (\<lambda>(w'', n, e). Ok (w'', m + n, e))
     else Ok (w', m, err))"

lemma chunks_wf: "188 dvd length bs \<Longrightarrow> p \<in> set (chunks bs) \<Longrightarrow> wf_packet p"
proof (induction bs rule: chunks.induct)
  case (1 bs)
  show ?case
  proof (cases "bs = []")
    case False
    then have le: "188 \<le> length bs" using "1.prems"(1) by (auto dest: dvd_imp_le)
    then have "188 dvd length (drop PacketSize bs)" using "1.prems"(1) by (simp add: PacketSize_def dvd_diff_nat)
    moreover have "p = take PacketSize bs \<or> p \<in> set (chunks (drop PacketSize bs))"
      using "1.prems"(2) False by (subst (asm) chunks.simps) simp
    ultimately show ?thesis using "1.IH" [OF False] le by (auto simp: wf_packet_def PacketSize_def)
  qed (use 1 in \<open>simp add: chunks.simps\<close>)
qed

lemma concat_chunks: "concat (chunks bs) = bs"
proof (induction bs rule: chunks.induct)
  case (1 bs)
  then show ?case by (subst chunks.simps) simp
qed

lemma res_bind_assoc: "res_bind (res_bind m f) g = res_bind m (\<lambda>x. res_bind (f x) g)"
  by (cases m) simp_all

lemma Write_loop_feed:
  "wf_packet (pw_pkt pw) \<Longrightarrow> 188 dvd length rest \<Longrightarrow>
    res_bind (Write_loop wp pw rest n) (\<lambda>(pw', k, e). Ok (pw_writer pw', k, e)) =
    res_bind (feed wp (pw_writer pw) (chunks rest)) (\<lambda>(w, m, e). Ok (w, n + m, e))"
proof (induction wp pw rest n rule: Write_loop.induct)
  case (1 wp pw rest n)
  show ?case
  proof (cases "rest = []")
    case True
    then show ?thesis by (simp add: Write_loop.simps chunks.simps)
  next
    case False
    then have le: "188 \<le> length rest" using "1.prems"(2) by (auto dest: dvd_imp_le)
    let ?p = "take 188 rest"
    have c: "go_copy (pw_pkt pw) 0 rest = ?p" using le "1.prems"(1) by (simp add: go_copy_def)
    have ch: "chunks rest = ?p # chunks (drop 188 rest)"
      using False by (subst chunks.simps) (simp add: PacketSize_def)
    have d: "188 dvd length (drop 188 rest)" using "1.prems"(2) by (simp add: dvd_diff_nat)
    have wf: "wf_packet ?p" using le by (simp add: wf_packet_def PacketSize_def)
    have w: "Write_loop wp pw rest n = res_bind (wp (pw_writer pw) ?p) (\<lambda>(w', m, err).
        if err = None then Write_loop wp (pw\<lparr>pw_writer := w', pw_pkt := ?p\<rparr>) (drop 188 rest) (n + m)
        else Ok (pw\<lparr>pw_writer := w', pw_pkt := ?p\<rparr>, n + m, err))"
      unfolding Write_loop.simps [of wp pw rest n] PacketSize_def using False by (simp add: c Let_def)
    show ?thesis
    proof (cases "wp (pw_writer pw) ?p")
      case (Ok r)
      obtain w' m err where r: "r = (w', m, err)" by (cases r)
      show ?thesis
      proof (cases "err = None")
        case True
        have IH: "res_bind (Write_loop wp (pw\<lparr>pw_writer := w', pw_pkt := ?p\<rparr>) (drop 188 rest) (n + m))
            (\<lambda>(pw', k, e). Ok (pw_writer pw', k, e)) =
          res_bind (feed wp w' (chunks (drop 188 rest))) (\<lambda>(w, k, e). Ok (w, n + m + k, e))"
          using "1.IH" [OF False refl, of r w' "(m, err)" m err] Ok r True d wf
          by (simp add: c PacketSize_def split_def)
        show ?thesis
          using IH unfolding w ch feed.simps Ok r True by (simp add: split_def res_bind_assoc add.assoc)
      qed (auto simp: w ch Ok r)
    qed (simp_all add: w ch)
  qed
qed

lemma feed_count:
  assumes law: "\<And>w p w' m. wf_packet p \<Longrightarrow> wp w p = Ok (w', m, None) \<Longrightarrow> m = 188"
    and wf: "\<forall>p \<in> set ps. wf_packet p"
  shows "feed wp w ps = Ok (w', n, None) \<Longrightarrow> n = 188 * length ps"
  using wf
proof (induction ps arbitrary: w n)
  case (Cons p ps)
  from Cons.prems obtain w1 m n' where 1: "wp w p = Ok (w1, m, None)" "feed wp w1 ps = Ok (w', n', None)" "n = m + n'"
    by (auto split: if_splits prod.splits)
  with Cons.IH [of w1 n'] law [of p w w1 m] Cons.prems(2) show ?case by simp
qed simp

lemma length_chunks: "188 dvd length bs \<Longrightarrow> 188 * length (chunks bs) = length bs"
proof (induction bs rule: chunks.induct)
  case (1 bs)
  show ?case
  proof (cases "bs = []")
    case False
    then have le: "188 \<le> length bs" using "1.prems" by (auto dest: dvd_imp_le)
    then have "188 dvd length (drop PacketSize bs)" using "1.prems" by (simp add: PacketSize_def dvd_diff_nat)
    from "1.IH" [OF False this] le False show ?thesis by (subst chunks.simps) (simp add: PacketSize_def)
  qed (simp add: chunks.simps)
qed

section \<open>Packet writers as an interface\<close>

text \<open>The contract of \<^verbatim>\<open>PacketWriter\<close>: a write without error takes the whole packet.\<close>

locale packet_writer =
  fixes wp :: "'w packet_write"
  assumes full_write: "wf_packet p \<Longrightarrow> wp w p = Ok (w', m, None) \<Longrightarrow> m = 188"
begin

lemma Write_all_or_error:
  assumes "wf_packet (pw_pkt pw)" "188 dvd length bs"
  shows "res_bind (pw_Write wp pw bs) (\<lambda>(pw', k, e). Ok (pw_writer pw', k, e)) = feed wp (pw_writer pw) (chunks bs)"
    and "pw_Write wp pw bs = Ok (pw', n, None) \<Longrightarrow> n = length bs"
proof -
  have l: "\<forall>p \<in> set (chunks bs). wf_packet p" using chunks_wf [OF assms(2)] by blast
  have fc: "feed wp w (chunks bs) = Ok (w', n, None) \<Longrightarrow> n = length bs" for w w' n
    using feed_count [of wp "chunks bs" w w' n] full_write l length_chunks [OF assms(2)] by metis
  note f = Write_loop_feed [OF assms, of wp 0]
  show "res_bind (pw_Write wp pw bs) (\<lambda>(pw', k, e). Ok (pw_writer pw', k, e)) = feed wp (pw_writer pw) (chunks bs)"
  proof (cases "Write_loop wp pw bs 0")
    case (Ok r)
    obtain q k e where r: "r = (q, k, e)" by (cases r)
    then have fd: "feed wp (pw_writer pw) (chunks bs) = Ok (pw_writer q, k, e)"
      using f Ok by (cases "feed wp (pw_writer pw) (chunks bs)") auto
    then have "e = None \<Longrightarrow> k = length bs"
      using fc by simp
    with Ok r fd show ?thesis using assms(2) by (simp add: pw_Write_def PacketSize_def)
  next
    case (Err e)
    with f show ?thesis using assms(2)
      by (cases "feed wp (pw_writer pw) (chunks bs)") (auto simp: pw_Write_def PacketSize_def)
  next
    case Panic
    with f show ?thesis using assms(2)
      by (cases "feed wp (pw_writer pw) (chunks bs)") (auto simp: pw_Write_def PacketSize_def)
  qed
  then show "pw_Write wp pw bs = Ok (pw', n, None) \<Longrightarrow> n = length bs"
    using fc [symmetric] by (auto dest: sym)
qed

end

lemma acc_full_write: "acc_WritePacket f a p = Ok (a', n, None) \<Longrightarrow> n = 188"
  by (auto simp: acc_WritePacket_cases acc_add_def Let_def PacketSize_def split: if_splits res.splits)

interpretation acc_writer: packet_writer "acc_WritePacket f" for f
  by unfold_locales (rule acc_full_write)

section \<open>Properties\<close>

text \<open>C26: \<open>Sync\<close> always returns; without an error the reader stands at the first position where a
  packet header can start (sync byte, no reserved adaptation field control, no reserved PID), and
  at the end of the data it fails with \<open>ErrSyncByteNotFound\<close> only if there is none.  The offset it
  returns is that position less the number of sync bytes before it: sync bytes that turned out not
  to start a packet are skipped but not counted.\<close>

theorem Sync_first_header:
  "case Sync r of
     (r', off, None) \<Rightarrow> \<exists>k. synced_at (sc_left r) k \<and> (\<forall>j < k. \<not> synced_at (sc_left r) j) \<and>
       sc_left r' = drop k (sc_left r) \<and> off = int k - int (count_list (take k (sc_left r)) SyncByte)
   | (r', off, Some e) \<Rightarrow> e = sync_error (sc_end r) \<and> (\<forall>k. \<not> synced_at (sc_left r) k)"
  using Sync_loop_spec [of r 0] unfolding sync_spec_def add_0_left Sync_def .

theorem Sync_first_header_witness:
  "\<exists>r'. Sync \<lparr>sc_left = [0x47, 0, 0, 0, 0x47, 0x40, 0, 0x10], sc_last = None, sc_end = IoEOF\<rparr> = (r', 3, None) \<and>
     sc_left r' = [0x47, 0x40, 0, 0x10]"
proof -
  let ?bs = "[0x47, 0, 0, 0, 0x47, 0x40, 0, 0x10] :: byte list"
  let ?r = "\<lparr>sc_left = ?bs, sc_last = None, sc_end = IoEOF\<rparr>"
  have s4: "synced_at ?bs 4"
    by (simp add: synced_at_def SyncByte_def AFC_alt PID_alt)
  have n: "\<not> synced_at ?bs 0" "\<not> synced_at ?bs 1" "\<not> synced_at ?bs 2" "\<not> synced_at ?bs 3"
    by (simp_all add: synced_at_def SyncByte_def AFC_alt)
  obtain r' off e where s: "Sync ?r = (r', off, e)" by (cases "Sync ?r")
  show ?thesis
  proof (cases e)
    case None
    with Sync_first_header [of ?r] s obtain k where k: "synced_at ?bs k" "\<forall>j < k. \<not> synced_at ?bs j"
      "sc_left r' = drop k ?bs" "off = int k - int (count_list (take k ?bs) SyncByte)" by auto
    have "k \<le> 4" using k(2) s4 by (meson not_le)
    then have "k \<in> {0, 1, 2, 3, 4}" by auto
    with k(1) n have "k = 4" by blast
    with k s None show ?thesis by (simp add: SyncByte_def)
  next
    case (Some e')
    with Sync_first_header [of ?r] s s4 show ?thesis by auto
  qed
qed

text \<open>\<open>Write\<close> on a packet writer that keeps its contract hands over the packets of the byte string
  one by one, in order, until the first error, and without an error reports all bytes as written;
  in particular a byte string written to an accumulator is accumulated packet by packet.\<close>

theorem Write_feeds_packets:
  assumes "wf_packet (pw_pkt pw)" "188 dvd length bs"
    and "\<And>w p w' m. wf_packet p \<Longrightarrow> wp w p = Ok (w', m, None) \<Longrightarrow> m = 188"
  shows "res_bind (pw_Write wp pw bs) (\<lambda>(pw', k, e). Ok (pw_writer pw', k, e)) =
      feed wp (pw_writer pw) (chunks bs) \<and>
    (\<forall>pw' n. pw_Write wp pw bs = Ok (pw', n, None) \<longrightarrow> n = length bs)"
proof -
  have "packet_writer wp" by unfold_locales (rule assms(3))
  from packet_writer.Write_all_or_error [OF this assms(1,2)] show ?thesis by blast
qed

theorem Write_feeds_packets_witness:
  "res_bind (pw_Write (acc_WritePacket (\<lambda>b. Ok False)) (IOWriter NewAccumulator) (New @ New))
      (\<lambda>(pw', k, e). Ok (pw_writer pw', k, e)) =
    feed (acc_WritePacket (\<lambda>b. Ok False)) NewAccumulator (chunks (New @ New))"
proof -
  have "wf_packet (pw_pkt (IOWriter NewAccumulator))" by (simp add: IOWriter_def wf_packet_def)
  moreover have "188 dvd length (New @ New)" by simp
  ultimately show ?thesis
    using Write_feeds_packets [of "IOWriter NewAccumulator" "New @ New" "acc_WritePacket (\<lambda>b. Ok False)"]
      acc_full_write by (simp add: IOWriter_def)
qed

text \<open>\<open>ReadFrom\<close> expects a whole packet from every \<open>Read\<close>: a reader that delivers the same bytes in
  smaller pieces, as the contract of readers allows, gets none of its packets written, and the
  error does not stop the loop.\<close>

theorem ReadFrom_short_reads:
  assumes "\<forall>(bs, er) \<in> set rs. length bs < 188 \<and> er = None"
  shows "\<exists>pw'. pw_ReadFrom wp pw rs =
      Ok (pw', 0, if \<exists>(bs, er) \<in> set rs. bs \<noteq> [] then Some ErrInvalidPacketLength else None) \<and>
    pw_writer pw' = pw_writer pw"
proof -
  have "\<exists>pw'. ReadFrom_loop wp pw rs n err =
      Ok (pw', n, if \<exists>(bs, er) \<in> set rs. bs \<noteq> [] then Some ErrInvalidPacketLength else err) \<and>
    pw_writer pw' = pw_writer pw" for n err
    using assms
  proof (induction rs arbitrary: pw err)
    case (Cons r rs)
    obtain bs er where r: "r = (bs, er)" by (cases r)
    with Cons.prems have "length bs < 188" "er = None" by auto
    with r Cons.IH [of "pw\<lparr>pw_pkt := go_copy (pw_pkt pw) 0 bs\<rparr>" "if bs \<noteq> [] then Some ErrInvalidPacketLength else err"]
      Cons.prems
    show ?case by (auto simp: Let_def PacketSize_def min_def split: if_splits)
  qed simp
  then show ?thesis by (simp add: pw_ReadFrom_def)
qed

theorem ReadFrom_short_reads_witness:
  "\<exists>pw'. pw_ReadFrom (acc_WritePacket (\<lambda>b. Ok False)) (IOWriter NewAccumulator)
      [(take 100 New, None), (drop 100 New, None)] = Ok (pw', 0, Some ErrInvalidPacketLength) \<and>
    pw_writer pw' = NewAccumulator"
proof -
  have h: "\<forall>(bs, er) \<in> set [(take 100 New, None), (drop 100 New, None)]. length bs < 188 \<and> er = None" by simp
  have "\<exists>(bs, er) \<in> set [(take 100 New, None), (drop 100 New, None)]. bs \<noteq> []"
    using wf_length [OF wf_New] by (auto simp del: wf_New)
  with ReadFrom_short_reads [OF h, of "acc_WritePacket (\<lambda>b. Ok False)" "IOWriter NewAccumulator"]
  show ?thesis by (simp add: IOWriter_def)
qed

end
