(* ===== verification/Psi_Table.thy ===== *)
theory Psi_Table
  imports Gots_Prelude
begin

text \<open>
  \<^verbatim>\<open>gots/psi/psi.go\<close>: the pointer field and the three-byte header that every section of
  program-specific information starts with.  An index that is a sum of bytes wraps at 256 as in the
  source.  An index past the end panics.
\<close>

section \<open>The code\<close>

record TableHeader =
  th_TableID :: byte
  th_SectionSyntaxIndicator :: bool
  th_PrivateIndicator :: bool
  th_SectionLength :: u16

definition NewTableHeader :: TableHeader where
  "NewTableHeader = \<lparr>th_TableID = 0, th_SectionSyntaxIndicator = False, th_PrivateIndicator = False,
     th_SectionLength = 0\<rparr>"

definition PointerField :: "byte list \<Rightarrow> byte res" where
  "PointerField psi = rd psi 0"

definition tableID :: "byte list \<Rightarrow> byte res" where
  "tableID psi = rd psi 0"

definition sectionSyntaxIndicator :: "byte list \<Rightarrow> bool res" where
  "sectionSyntaxIndicator psi = res_bind (rd psi 1) (\<lambda>b. Ok (b AND 0x80 \<noteq> 0))"

definition sectionLength :: "byte list \<Rightarrow> u16 res" where
  "sectionLength psi = res_bind (rd psi 1) (\<lambda>b1. res_bind (rd psi 2) (\<lambda>b2.
     Ok (push_bit 8 (ucast (b1 AND 3)) OR ucast b2)))"

definition TableID :: "byte list \<Rightarrow> byte res" where
  "TableID psi = res_bind (PointerField psi) (\<lambda>pf.
     res_bind (slice_from psi (unat (1 + pf))) tableID)"

definition SectionSyntaxIndicator :: "byte list \<Rightarrow> bool res" where
  "SectionSyntaxIndicator psi = res_bind (PointerField psi) (\<lambda>pf.
     res_bind (slice_from psi (unat (1 + pf))) sectionSyntaxIndicator)"

definition PrivateIndicator :: "byte list \<Rightarrow> bool res" where
  "PrivateIndicator psi = res_bind (PointerField psi) (\<lambda>pf.
     res_bind (rd psi (unat (2 + pf))) (\<lambda>b. Ok (b AND 0x40 \<noteq> 0)))"

definition SectionLength :: "byte list \<Rightarrow> u16 res" where
  "SectionLength psi = res_bind (PointerField psi) (\<lambda>pf.
     let offset = unat (1 + pf)
     in if offset \<ge> length psi then Ok 0
        else res_bind (slice_from psi offset) sectionLength)"

definition tableVersionAndCNI :: "byte list \<Rightarrow> (byte \<times> bool) res" where
  "tableVersionAndCNI psi =
     (if length psi < 6 then Err ErrShortPayload
      else Ok (drop_bit 1 (psi ! 5 AND 0x3E), psi ! 5 AND 0x1 = 0x01))"

text \<open>\<^verbatim>\<open>make\<close> with a negative length panics.\<close>

definition NewPointerField :: "int \<Rightarrow> byte list res" where
  "NewPointerField size' =
     (if size' < -1 then Panic
      else let data = replicate (nat (size' + 1)) 0
           in res_bind (wr data 0 (word_of_int size')) (\<lambda>data.
                Ok (fill 0xFF 1 (nat (size' + 1)) data)))"

definition TableHeaderFromBytes :: "byte list \<Rightarrow> TableHeader res" where
  "TableHeaderFromBytes data =
     (if length data < 3 then Err ErrShortPayload
      else Ok \<lparr>th_TableID = data ! 0,
               th_SectionSyntaxIndicator = (data ! 1 AND 0x80 \<noteq> 0),
               th_PrivateIndicator = (data ! 1 AND 0x40 \<noteq> 0),
               th_SectionLength = push_bit 8 (ucast (data ! 1 AND 0x03)) OR ucast (data ! 2)\<rparr>)"

definition TableHeader_Data :: "TableHeader \<Rightarrow> byte list" where
  "TableHeader_Data th =
     (let b1 = (0 :: byte);
          b1 = (if th_SectionSyntaxIndicator th then b1 OR 0x80 else b1);
          b1 = (if th_PrivateIndicator th then b1 OR 0x40 else b1);
          b1 = b1 OR 0x30;
          b1 = b1 OR (ucast (drop_bit 8 (th_SectionLength th)) AND 0x03)
      in [th_TableID th, b1, ucast (th_SectionLength th)])"

section \<open>Lemmas\<close>

lemma sectionLength_bound: "sectionLength psi = Ok sl \<Longrightarrow> unat sl \<le> 1023"
proof -
  assume "sectionLength psi = Ok sl"
  then obtain b1 b2 :: byte where sl: "sl = push_bit 8 (ucast (b1 AND 3)) OR ucast b2"
    by (auto simp: sectionLength_def)
  have "sl = take_bit 10 sl"
    unfolding sl and_numeral_mask by (rule bit_word_eqI) (auto simp: bit_simps)
  then have "unat sl = take_bit 10 (unat sl)" by (metis unsigned_take_bit_eq)
  moreover have "take_bit 10 (unat sl) < 2 ^ 10" by (rule take_bit_nat_less_exp)
  ultimately have "unat sl < 2 ^ 10" by metis
  then show ?thesis by simp
qed

lemma sectionLength_Ok: "3 \<le> length psi \<Longrightarrow>
  sectionLength psi = Ok (push_bit 8 (ucast (psi ! 1 AND 3)) OR ucast (psi ! 2))"
  by (simp add: sectionLength_def)

lemma sectionLength_Panic: "sectionLength psi = Panic \<longleftrightarrow> length psi < 3"
  by (auto simp: sectionLength_def rd_def)

lemma sectionLength_not_Err [simp]: "sectionLength psi \<noteq> Err e"
  by (auto simp: sectionLength_def rd_def)

section \<open>Properties\<close>

text \<open>A table header written by \<open>Data\<close> is read back by \<open>TableHeaderFromBytes\<close>: all flags, the table
  id, and the section length up to its ten bits; what follows the three bytes does not matter.\<close>

theorem TableHeader_roundtrip:
  "TableHeaderFromBytes (TableHeader_Data th @ rest) =
    Ok (th\<lparr>th_SectionLength := take_bit 10 (th_SectionLength th)\<rparr>)"
proof -
  let ?sl = "th_SectionLength th"
  let ?b = "TableHeader_Data th ! 1"
  have l: "length (TableHeader_Data th) = 3" by (simp add: TableHeader_Data_def)
  have b: "?b = ((if th_PrivateIndicator th then (if th_SectionSyntaxIndicator th then 0 OR 0x80 else 0) OR 0x40
      else (if th_SectionSyntaxIndicator th then 0 OR 0x80 else 0)) OR 0x30) OR (ucast (drop_bit 8 ?sl) AND 0x03)"
    by (simp only: TableHeader_Data_def Let_def nth_Cons_Suc nth_Cons_0 One_nat_def)
  have "?b AND 0x03 = ucast (drop_bit 8 ?sl) AND 0x03"
    unfolding b and_numeral_mask by (rule byte_eqI) (simp_all add: bit_simps)
  then have sl: "push_bit 8 (ucast (?b AND 0x03)) OR ucast (TableHeader_Data th ! 2) = take_bit 10 ?sl"
    unfolding and_numeral_mask
    by (auto simp: TableHeader_Data_def bit_simps intro!: bit_word_eqI)
  have "bit ?b 7 \<longleftrightarrow> th_SectionSyntaxIndicator th" "bit ?b 6 \<longleftrightarrow> th_PrivateIndicator th"
    unfolding b and_numeral_mask by (auto simp: bit_simps)
  moreover have "x AND 0x80 \<noteq> 0 \<longleftrightarrow> bit x 7" "x AND 0x40 \<noteq> 0 \<longleftrightarrow> bit x 6" for x :: byte
    using and_exp_eq_0_iff_not_bit [of x 7] and_exp_eq_0_iff_not_bit [of x 6] by simp_all
  moreover have "(TableHeader_Data th @ rest) ! i = TableHeader_Data th ! i" if "i < 3" for i
    using that l by (simp add: nth_append)
  moreover have "TableHeader_Data th ! 0 = th_TableID th" by (simp add: TableHeader_Data_def)
  ultimately show ?thesis using sl l by (simp add: TableHeaderFromBytes_def)
qed

end
