(* ===== verification/Psi_PAT.thy ===== *)
theory Psi_PAT
  imports Psi_Table Packet_Create Gots_CRC "HOL-Library.AList" "HOL-Library.Signed_Division"
begin

text \<open>
  \<^verbatim>\<open>gots/psi/pat.go\<close>: the program association table.  The source keeps the bytes and computes on
  demand.  A Go map is an association list with unique keys, in order of insertion.  A reader is
  the bytes left in it and the error at their end.
\<close>

section \<open>The code\<close>

definition PatPid :: int where "PatPid = 0"

type_synonym pat = "byte list"

definition NewPAT :: "byte list \<Rightarrow> pat res" where
  "NewPAT patBytes =
     (if length patBytes < 13 then Err ErrInvalidPATLength
      else if length patBytes = 188 then
        let pkt = go_copy (replicate PacketSize 0) 0 patBytes in Payload pkt
      else Ok patBytes)"

definition NumPrograms :: "pat \<Rightarrow> int res" where
  "NumPrograms pat = res_bind (SectionLength pat) (\<lambda>sl.
     let sectionLength = uint sl;
         sectionLength = (if int (length pat) < sectionLength then int (length pat) else sectionLength)
     in Ok ((sectionLength - 2 - 1 - 1 - 1 - 4) sdiv 4))"

text \<open>The loop of \<open>ProgramMap\<close>, with the number of turns left.\<close>

fun ProgramMap_loop :: "pat \<Rightarrow> nat \<Rightarrow> nat \<Rightarrow> (int \<times> int) list \<Rightarrow> (int \<times> int) list res" where
  "ProgramMap_loop pat 0 counter m = Ok m"
| "ProgramMap_loop pat (Suc n) counter m =
     res_bind (rd pat (counter + 1)) (\<lambda>b1. res_bind (rd pat (counter + 2)) (\<lambda>b2.
     res_bind (rd pat (counter + 3)) (\<lambda>b3. res_bind (rd pat (counter + 4)) (\<lambda>b4.
       let pn = push_bit 8 (uint b1) OR uint b2;
           pid = push_bit 8 (uint b3 AND 0x1f) OR uint b4;
           m = (if pn > 0 then AList.update pn pid m else m)
       in ProgramMap_loop pat n (counter + 4) m))))"

definition ProgramMap :: "pat \<Rightarrow> (int \<times> int) list res" where
  "ProgramMap pat = res_bind (NumPrograms pat) (\<lambda>n. ProgramMap_loop pat (nat n) 8 [])"

definition SPTSpmtPID :: "pat \<Rightarrow> int res" where
  "SPTSpmtPID pat = res_bind (NumPrograms pat) (\<lambda>n.
     if n > 1 then Err (ErrorsNew ''Not a single program transport stream'')
     else res_bind (ProgramMap pat) (\<lambda>m.
       case m of (_, pid) # _ \<Rightarrow> Ok pid
       | [] \<Rightarrow> Err (ErrorsNew ''No programs in transport stream'')))"

record byte_reader =
  br_left :: "byte list"
  br_end :: gots_error

text \<open>\<^verbatim>\<open>io.ReadFull\<close>\<close>

definition ReadFull :: "byte_reader \<Rightarrow> nat \<Rightarrow> byte_reader \<times> byte list res" where
  "ReadFull r n =
     (if n \<le> length (br_left r) then (r\<lparr>br_left := drop n (br_left r)\<rparr>, Ok (take n (br_left r)))
      else (r\<lparr>br_left := []\<rparr>,
        Err (if br_end r = IoEOF then if br_left r = [] then IoEOF else IoErrUnexpectedEOF else br_end r)))"

lemma ReadFull_shorter:
  "ReadFull r PacketSize = (r', Ok p) \<Longrightarrow> length (br_left r') < length (br_left r)"
  by (auto simp: ReadFull_def PacketSize_def split: if_splits)

function ReadPAT :: "byte_reader \<Rightarrow> byte_reader \<times> pat res" where
  "ReadPAT r =
     (case ReadFull r PacketSize of
        (r', Ok pkt) \<Rightarrow>
          if IsPat pkt then
            (r', res_bind (Payload pkt) (\<lambda>pay.
               let cp = go_copy (replicate (length pay) 0) 0 pay in NewPAT cp))
          else ReadPAT r'
      | (r', Err err) \<Rightarrow>
          if err = IoEOF \<or> err = IoErrUnexpectedEOF then (r', Err ErrPATNotFound) else (r', Err err)
      | (r', Panic) \<Rightarrow> (r', Panic))"
  by pat_completeness auto
termination
  by (relation "measure (\<lambda>r. length (br_left r))") (auto dest: ReadFull_shorter [OF sym])

declare ReadPAT.simps [simp del]

section \<open>Sections built from a list of programs\<close>

definition u16_bytes :: "nat \<Rightarrow> byte list" where
  "u16_bytes n = [of_nat (n div 256), of_nat (n mod 256)]"

definition pat_entry :: "int \<times> int \<Rightarrow> byte list" where
  "pat_entry e = [word_of_int (fst e div 256), word_of_int (fst e), 0xE0 OR word_of_int (snd e div 256),
     word_of_int (snd e)]"

definition pat_body :: "nat \<Rightarrow> byte list \<Rightarrow> (int \<times> int) list \<Rightarrow> byte list" where
  "pat_body tsid ver progs =
     TableHeader_Data \<lparr>th_TableID = 0, th_SectionSyntaxIndicator = True, th_PrivateIndicator = False,
       th_SectionLength = of_nat (9 + 4 * length progs)\<rparr>
     @ u16_bytes tsid @ ver @ concat (map pat_entry progs)"

definition pat_bytes :: "nat \<Rightarrow> byte list \<Rightarrow> (int \<times> int) list \<Rightarrow> byte list" where
  "pat_bytes tsid ver progs = 0 # pat_body tsid ver progs @ ComputeCRC (pat_body tsid ver progs)"

definition prog_ok :: "int \<times> int \<Rightarrow> bool" where
  "prog_ok e \<longleftrightarrow> 0 < fst e \<and> fst e < 65536 \<and> 0 \<le> snd e \<and> snd e < 8192"

lemma length_ComputeCRC [simp]: "length (ComputeCRC m) = 4"
  by (simp add: ComputeCRC_def PutUint32_def)

lemma length_TableHeader_Data [simp]: "length (TableHeader_Data th) = 3"
  by (simp add: TableHeader_Data_def)

lemma sectionLength_header:
  assumes "TableHeaderFromBytes d = Ok th"
  shows "sectionLength d = Ok (th_SectionLength th)"
proof -
  from assms have "3 \<le> length d" by (auto simp: TableHeaderFromBytes_def split: if_splits)
  then show ?thesis using assms by (auto simp: TableHeaderFromBytes_def sectionLength_def)
qed

lemma sectionLength_Data:
  "sectionLength (TableHeader_Data th @ rest) = Ok (take_bit 10 (th_SectionLength th))"
  using sectionLength_header [OF TableHeader_roundtrip, of th rest] by simp

lemma uint_pair:
  fixes n :: int
  assumes "0 \<le> n" "n < 65536"
  shows "push_bit 8 (uint (word_of_int (n div 256) :: byte)) OR uint (word_of_int n :: byte) = n"
proof -
  have "n div 256 < 256" using assms by linarith
  then have a: "uint (word_of_int (n div 256) :: byte) = n div 256" "uint (word_of_int n :: byte) = n mod 256"
    using assms by (simp_all add: uint_word_of_int)
  have "push_bit 8 (n div 256) OR (n mod 256) = n"
  proof (rule bit_eqI)
    fix k
    have "n div 256 = drop_bit 8 n" "n mod 256 = take_bit 8 n"
      by (simp_all add: drop_bit_eq_div take_bit_eq_mod)
    then show "bit (push_bit 8 (n div 256) OR (n mod 256)) k = bit n k"
      by (auto simp: bit_simps)
  qed
  then show ?thesis by (simp only: a)
qed

lemma pid_pair:
  fixes n :: int
  assumes "0 \<le> n" "n < 8192"
  shows "push_bit 8 (uint (0xE0 OR word_of_int (n div 256) :: byte) AND 0x1f) OR uint (word_of_int n :: byte) = n"
proof -
  have d: "n div 256 < 32" "0 \<le> n div 256" using assms by linarith+
  have "uint (0xE0 OR word_of_int (n div 256) :: byte) AND 0x1f = uint (word_of_int (n div 256) :: byte)"
  proof (rule bit_eqI)
    fix k
    have t: "take_bit 5 (n div 256) = n div 256" using d by (simp add: take_bit_int_eq_self)
    have f: "(0x1f :: int) = mask 5" by (simp add: mask_eq_exp_minus_1)
    have e: "bit (0xE0 :: byte) k \<longleftrightarrow> 5 \<le> k \<and> k < 8"
    proof -
      have "(0xE0 :: byte) = push_bit 5 (mask 3)" by (simp add: mask_eq_exp_minus_1)
      then show ?thesis by (simp only: bit_push_bit_iff bit_mask_iff) auto
    qed
    have "bit (n div 256) k \<longleftrightarrow> k < 5 \<and> bit (n div 256) k"
      by (subst t [symmetric]) (simp only: bit_take_bit_iff)
    then show "bit (uint (0xE0 OR word_of_int (n div 256) :: byte) AND 0x1f) k =
        bit (uint (word_of_int (n div 256) :: byte)) k"
      unfolding f by (auto simp only: bit_uint_iff bit_and_iff bit_or_iff bit_mask_iff bit_word_of_int_iff e) simp_all
  qed
  then show ?thesis using uint_pair [of n] assms by simp
qed

lemma ProgramMap_loop_entries:
  "\<forall>e \<in> set progs. prog_ok e \<Longrightarrow> pat = pre @ concat (map pat_entry progs) @ post \<Longrightarrow> length pre = counter + 1 \<Longrightarrow>
    ProgramMap_loop pat (length progs) counter m = Ok (fold (\<lambda>(pn, pid) m. AList.update pn pid m) progs m)"
proof (induction progs arbitrary: pre counter m)
  case (Cons e progs)
  obtain pn pid where e: "e = (pn, pid)" by (cases e)
  with Cons.prems(1) have ok: "0 < pn" "pn < 65536" "0 \<le> pid" "pid < 8192" by (auto simp: prog_ok_def)
  let ?t = "concat (map pat_entry progs) @ post"
  have pe: "pat_entry e = [word_of_int (pn div 256), word_of_int pn, 0xE0 OR word_of_int (pid div 256), word_of_int pid]"
    by (simp add: pat_entry_def e)
  have p: "pat = pre @ [word_of_int (pn div 256), word_of_int pn, 0xE0 OR word_of_int (pid div 256), word_of_int pid] @ ?t"
    using Cons.prems(2) unfolding pe [symmetric] by simp
  have l: "counter + 4 < length pat" using p Cons.prems(3) by simp
  have n: "pat ! (counter + 1) = word_of_int (pn div 256)" "pat ! (counter + 2) = word_of_int pn"
    "pat ! (counter + 3) = 0xE0 OR word_of_int (pid div 256)" "pat ! (counter + 4) = word_of_int pid"
    using Cons.prems(3) unfolding p by (simp_all add: nth_append)
  have u: "push_bit 8 (uint (pat ! (counter + 1))) OR uint (pat ! (counter + 2)) = pn"
    "push_bit 8 (uint (pat ! (counter + 3)) AND 0x1f) OR uint (pat ! (counter + 4)) = pid"
    unfolding n using uint_pair [of pn] pid_pair [of pid] ok by simp_all
  have r: "rd pat (counter + 1) = Ok (pat ! (counter + 1))" "rd pat (counter + 2) = Ok (pat ! (counter + 2))"
    "rd pat (counter + 3) = Ok (pat ! (counter + 3))" "rd pat (counter + 4) = Ok (pat ! (counter + 4))"
    using l by simp_all
  have "ProgramMap_loop pat (Suc (length progs)) counter m =
      ProgramMap_loop pat (length progs) (counter + 4) (AList.update pn pid m)"
    unfolding ProgramMap_loop.simps r res_bind.simps Let_def u using ok(1) by simp
  moreover have "ProgramMap_loop pat (length progs) (counter + 4) (AList.update pn pid m) =
      Ok (fold (\<lambda>(pn, pid) m. AList.update pn pid m) progs (AList.update pn pid m))"
    by (rule Cons.IH [of "pre @ pat_entry e"]) (use Cons.prems pe in simp_all)
  ultimately show ?case by (simp add: e)
qed simp

lemma map_of_fold_update:
  "map_of (fold (\<lambda>(k, v) m. AList.update k v m) kvs m) = map_of m ++ map_of (rev kvs)"
proof (induction kvs arbitrary: m)
  case (Cons kv kvs)
  obtain k v where "kv = (k, v)" by (cases kv)
  then show ?case by (simp add: Cons.IH update_conv' map_add_def fun_eq_iff split: option.splits)
qed simp

lemma length_pat_bytes:
  "length ver = 3 \<Longrightarrow> length (pat_bytes tsid ver progs) = 13 + 4 * length progs"
  by (simp add: pat_bytes_def pat_body_def u16_bytes_def pat_entry_def length_concat comp_def sum_list_triv)

lemma pat_bytes_NumPrograms:
  assumes "length ver = 3" "length progs \<le> 253"
  shows "NumPrograms (pat_bytes tsid ver progs @ rest) = Ok (int (length progs))"
proof -
  let ?n = "length progs"
  let ?th = "\<lparr>th_TableID = 0, th_SectionSyntaxIndicator = True, th_PrivateIndicator = False,
       th_SectionLength = of_nat (9 + 4 * ?n)\<rparr>"
  have b: "unat (of_nat (9 + 4 * ?n) :: u16) = 9 + 4 * ?n"
    using assms(2) by (simp only: unat_of_nat) simp
  have t: "take_bit 10 (of_nat (9 + 4 * ?n) :: u16) = of_nat (9 + 4 * ?n)"
    by (rule take_bit_word_small) (simp only: b, use assms(2) in simp)
  obtain q where q: "pat_bytes tsid ver progs @ rest = 0 # TableHeader_Data ?th @ q"
    by (simp add: pat_bytes_def pat_body_def)
  have sl: "SectionLength (pat_bytes tsid ver progs @ rest) = Ok (of_nat (9 + 4 * ?n))"
    using sectionLength_Data [of ?th q] t unfolding q by (simp add: SectionLength_def PointerField_def Let_def)
  have "uint (of_nat (9 + 4 * ?n) :: u16) = int (9 + 4 * ?n)" using b by (metis uint_nat)
  moreover have "(4 * int ?n) sdiv 4 = int ?n" by (simp add: signed_divide_int_def sgn_if)
  ultimately show ?thesis
    unfolding NumPrograms_def sl using length_pat_bytes [OF assms(1), of tsid progs] by (simp add: Let_def)
qed

lemma SectionLength_bound: "SectionLength p = Ok sl \<Longrightarrow> unat sl \<le> 1023"
  by (auto simp: SectionLength_def Let_def PointerField_def dest: sectionLength_bound split: if_splits)

lemma ProgramMap_loop_total:
  "counter + 4 * n < length pat \<Longrightarrow> \<exists>m'. ProgramMap_loop pat n counter m = Ok m'"
proof (induction n arbitrary: counter m)
  case (Suc n)
  then have r: "counter + 4 < length pat" by simp
  then show ?case using Suc.IH [of "counter + 4"] Suc.prems by (simp add: Let_def)
qed simp

lemma sdiv4: "0 \<le> x \<Longrightarrow> x sdiv 4 = x div (4 :: int)"
  by (cases "x = 0") (simp_all add: signed_divide_int_def sgn_if)

lemma sdiv4_neg: "x < 0 \<Longrightarrow> x sdiv (4 :: int) \<le> 0"
  by (simp add: signed_divide_int_def sgn_if pos_imp_zdiv_nonneg_iff)

lemma NumPrograms_length:
  assumes "NumPrograms pat = Ok n"
  shows "4 * nat n + 9 \<le> length pat \<or> nat n = 0"
proof -
  obtain sl where "SectionLength pat = Ok sl" using assms by (cases "SectionLength pat") (simp_all add: NumPrograms_def)
  with assms have "n = ((if int (length pat) < uint sl then int (length pat) else uint sl) - 2 - 1 - 1 - 1 - 4) sdiv 4"
    by (simp add: NumPrograms_def Let_def)
  then have n: "n = (min (uint sl) (int (length pat)) - 9) sdiv 4" by (simp add: min_def split: if_splits)
  show ?thesis
  proof (cases "9 \<le> min (uint sl) (int (length pat))")
    case True
    then have "n = (min (uint sl) (int (length pat)) - 9) div 4"
      unfolding n by (intro sdiv4) simp
    then have "4 * n \<le> min (uint sl) (int (length pat)) - 9" by linarith
    moreover have "0 \<le> n" using True by (simp add: n sdiv4 pos_imp_zdiv_nonneg_iff)
    ultimately show ?thesis by linarith
  next
    case False
    then have "n \<le> 0" unfolding n by (intro sdiv4_neg) linarith
    then show ?thesis by simp
  qed
qed

lemma map_of_rev_distinct:
  assumes "distinct (map fst xs)"
  shows "map_of (rev xs) = map_of xs"
proof (rule ext)
  fix k
  have "distinct (map fst (rev xs))" using assms by (simp add: rev_map [symmetric])
  then have "map_of (rev xs) k = Some v \<longleftrightarrow> map_of xs k = Some v" for v
    using assms by (simp add: map_of_eq_Some_iff)
  then show "map_of (rev xs) k = map_of xs k" by (metis option.exhaust)
qed

lemma SectionLength_not_Err: "SectionLength p \<noteq> Err e"
proof (cases p)
  case (Cons b bs)
  then show ?thesis by (simp add: SectionLength_def PointerField_def Let_def)
qed (simp add: SectionLength_def PointerField_def rd_def)

lemma NumPrograms_cases:
  "NumPrograms p = Panic \<longleftrightarrow> SectionLength p = Panic" "NumPrograms p \<noteq> Err e"
  using SectionLength_not_Err [of p] by (cases "SectionLength p"; simp add: NumPrograms_def Let_def)+

lemma ProgramMap_returns: "NumPrograms p = Ok n \<Longrightarrow> \<exists>m. ProgramMap p = Ok m"
  using NumPrograms_length [of p n] ProgramMap_loop_total [of 8 "nat n" p "[]"]
  by (cases "nat n = 0") (auto simp: ProgramMap_def)

lemma ProgramMap_Panic: "ProgramMap p = Panic \<longleftrightarrow> NumPrograms p = Panic"
  using ProgramMap_returns [of p] by (cases "NumPrograms p") (auto simp: ProgramMap_def)

lemma ProgramMap_not_Err: "ProgramMap p \<noteq> Err e"
  using ProgramMap_returns [of p] NumPrograms_cases(2) [of p]
  by (cases "NumPrograms p") (auto simp: ProgramMap_def)

section \<open>Properties\<close>

text \<open>C25: a section built from up to 253 programs with distinct non-zero numbers, PIDs of 13 bits and no
  pointer field offset, followed by any stuffing, is accepted by \<open>NewPAT\<close> (its length is not that of a
  packet), \<open>NumPrograms\<close> counts the programs, \<open>ProgramMap\<close> is their map, and
  \<open>SPTSpmtPID\<close> is the PID of the only program or an error.\<close>

theorem PAT_roundtrip:
  assumes "\<forall>e \<in> set progs. prog_ok e" "distinct (map fst progs)" "length progs \<le> 253" "length ver = 3"
    and "length (pat_bytes tsid ver progs @ rest) \<noteq> 188"
  shows "NewPAT (pat_bytes tsid ver progs @ rest) = Ok (pat_bytes tsid ver progs @ rest) \<and>
    NumPrograms (pat_bytes tsid ver progs @ rest) = Ok (int (length progs)) \<and>
    (\<exists>m. ProgramMap (pat_bytes tsid ver progs @ rest) = Ok m \<and> map_of m = map_of progs) \<and>
    SPTSpmtPID (pat_bytes tsid ver progs @ rest) =
      (case progs of [] \<Rightarrow> Err (ErrorsNew ''No programs in transport stream'')
       | [(pn, pid)] \<Rightarrow> Ok pid
       | _ \<Rightarrow> Err (ErrorsNew ''Not a single program transport stream''))"
proof -
  let ?p = "pat_bytes tsid ver progs @ rest"
  have n: "NumPrograms ?p = Ok (int (length progs))" by (rule pat_bytes_NumPrograms) (use assms in simp_all)
  have l: "13 \<le> length ?p" using length_pat_bytes [OF assms(4), of tsid progs] by simp
  obtain th where p: "?p = (0 # TableHeader_Data th @ u16_bytes tsid @ ver) @ concat (map pat_entry progs) @
      (ComputeCRC (pat_body tsid ver progs) @ rest)"
    by (simp add: pat_bytes_def pat_body_def)
  let ?m = "fold (\<lambda>(pn, pid) m. AList.update pn pid m) progs []"
  have "ProgramMap_loop ?p (length progs) 8 [] = Ok ?m"
    by (rule ProgramMap_loop_entries [OF assms(1) p]) (simp add: u16_bytes_def assms(4))
  then have pm: "ProgramMap ?p = Ok ?m" using n by (simp add: ProgramMap_def)
  have "map_of ?m = map_of (rev progs)" by (simp add: map_of_fold_update)
  also have "\<dots> = map_of progs" using assms(2) by (simp add: map_of_rev_distinct)
  finally have mm: "map_of ?m = map_of progs" .
  have "SPTSpmtPID ?p = (case progs of [] \<Rightarrow> Err (ErrorsNew ''No programs in transport stream'')
       | [(pn, pid)] \<Rightarrow> Ok pid
       | _ \<Rightarrow> Err (ErrorsNew ''Not a single program transport stream''))"
    using n pm by (auto simp: SPTSpmtPID_def split: list.splits)
  then show ?thesis using n l pm mm assms(5) by (auto simp: NewPAT_def)
qed

theorem PAT_roundtrip_witness:
  "(\<exists>m. ProgramMap (pat_bytes 1 [0xcb, 0, 0] [(1, 100), (2, 200)]) = Ok m \<and> m \<noteq> [] \<and>
    map_of m = map_of [(1, 100), (2, 200)])"
proof -
  have d: "distinct (map fst [(1 :: int, 100), (2, 200 :: int)])" "\<forall>e \<in> set [(1, 100), (2, 200)]. prog_ok e"
    by (simp_all add: prog_ok_def)
  have l: "length (pat_bytes 1 [0xcb, 0, 0] [(1, 100), (2, 200)] @ []) \<noteq> 188"
    using length_pat_bytes [of "[0xcb, 0, 0]" 1 "[(1, 100), (2, 200)]"] by simp
  from PAT_roundtrip [OF d(2,1) _ _ l] obtain m where
    "ProgramMap (pat_bytes 1 [0xcb, 0, 0] [(1, 100), (2, 200)]) = Ok m" "map_of m = map_of [(1, 100), (2, 200)]"
    by auto
  moreover from this(2) have "m \<noteq> []" by (auto dest: fun_cong [of _ _ 1])
  ultimately show ?thesis by blast
qed

lemma SectionLength_Panic:
  "SectionLength p = Panic \<longleftrightarrow> p = [] \<or>
    (unat (1 + p ! 0) < length p \<and> length p < unat (1 + p ! 0) + 3)"
proof (cases p)
  case (Cons b bs)
  then show ?thesis
    by (auto simp: SectionLength_def PointerField_def Let_def sectionLength_Panic)
qed (simp add: SectionLength_def PointerField_def rd_def)

text \<open>\<open>ProgramMap\<close> and \<open>SPTSpmtPID\<close> never read past the bytes of the table: they panic only where
  \<open>SectionLength\<close> does, that is when there are no bytes at all or the pointer field leads into the
  last two of them.\<close>

theorem PAT_never_reads_past:
  "(ProgramMap p = Panic \<longleftrightarrow> p = [] \<or>
      (unat (1 + p ! 0) < length p \<and> length p < unat (1 + p ! 0) + 3)) \<and>
   (SPTSpmtPID p = Panic \<longleftrightarrow> p = [] \<or>
      (unat (1 + p ! 0) < length p \<and> length p < unat (1 + p ! 0) + 3))"
proof -
  note np = NumPrograms_cases [of p]
  note pe = ProgramMap_not_Err [of p]
  have "SPTSpmtPID p = Panic \<longleftrightarrow> NumPrograms p = Panic"
  proof (cases "NumPrograms p")
    case (Ok n)
    with ProgramMap_Panic [of p] pe show ?thesis
      by (cases "ProgramMap p") (auto simp: SPTSpmtPID_def split: list.splits)
  qed (simp_all add: SPTSpmtPID_def)
  with ProgramMap_Panic [of p] np(1) show ?thesis by (simp only: SectionLength_Panic)
qed

text \<open>\<open>NumPrograms\<close> counts the programs behind the pointer field but \<open>ProgramMap\<close> reads them at a
  fixed offset: the same section (the one of \<open>TestPatPacket\<close>, program 1 on PID 100, any checksum) gives
  its program with the pointer field 0 and none with one byte of stuffing and the pointer field 1.\<close>

theorem ProgramMap_ignores_pointer_field:
  assumes "length crc = 4"
  defines "sec \<equiv> [0x00, 0xb0, 0x0d, 0x00, 0x01, 0xcb, 0x00, 0x00, 0x00, 0x01, 0xe0, 0x64] @ crc"
  shows "NumPrograms (0x00 # sec) = Ok 1 \<and> ProgramMap (0x00 # sec) = Ok [(1, 100)] \<and>
    NumPrograms ([0x01, 0xff] @ sec) = Ok 1 \<and> ProgramMap ([0x01, 0xff] @ sec) = Ok []"
proof -
  have sl: "SectionLength (0x00 # sec) = Ok 13" "SectionLength ([0x01, 0xff] @ sec) = Ok 13"
    by (simp_all add: SectionLength_def PointerField_def sectionLength_def sec_def Let_def)
  have l: "length sec = 16" using assms by (simp add: sec_def)
  have n: "NumPrograms (0x00 # sec) = Ok 1" "NumPrograms ([0x01, 0xff] @ sec) = Ok 1"
    unfolding NumPrograms_def sl using l by (simp_all add: signed_divide_int_def)
  have e: "push_bit 8 1 OR uint (0 :: byte) = 256" by simp
  have "ProgramMap (0x00 # sec) = Ok [(1, 100)]"
    unfolding ProgramMap_def n res_bind.simps using l
    by (simp add: numeral_eq_Suc [of Num.One] Let_def) (simp add: sec_def Let_def)
  moreover have "ProgramMap ([0x01, 0xff] @ sec) = Ok []"
    unfolding ProgramMap_def n res_bind.simps using l
    by (simp add: Let_def) (simp add: sec_def Let_def)
  ultimately show ?thesis using n by blast
qed

theorem ProgramMap_ignores_pointer_field_witness:
  "ProgramMap ([0x01, 0xff] @ [0x00, 0xb0, 0x0d, 0x00, 0x01, 0xcb, 0x00, 0x00, 0x00, 0x01, 0xe0, 0x64]
     @ [0x68, 0xd6, 0x84, 0x2e]) = Ok []"
  using ProgramMap_ignores_pointer_field [of "[0x68, 0xd6, 0x84, 0x2e]"] by simp

end
