(* ===== verification/Gots_Fmt.thy ===== *)
theory Gots_Fmt
  imports Gots_Prelude
begin

text \<open>
  The parts of package \<^verbatim>\<open>fmt\<close> and \<^verbatim>\<open>encoding/hex\<close> that the library prints with: decimal, binary and hexadecimal
  numbers.  A Go string is a sequence of bytes: a string of the model is the list of their characters.
\<close>

section \<open>Printing\<close>

definition digit :: "nat \<Rightarrow> char" where
  "digit d = char_of (if d < 10 then 48 + d else 87 + d)"

fun show_nat :: "nat \<Rightarrow> string" where
  "show_nat n = (if n < 10 then [digit n] else show_nat (n div 10) @ [digit (n mod 10)])"

declare show_nat.simps [simp del]

fun show_bin :: "nat \<Rightarrow> string" where
  "show_bin n = (if n < 2 then [digit n] else show_bin (n div 2) @ [digit (n mod 2)])"

declare show_bin.simps [simp del]

definition show_int :: "int \<Rightarrow> string" where
  "show_int i = (if i < 0 then CHR ''-'' # show_nat (nat (- i)) else show_nat (nat i))"

definition show_byte :: "byte \<Rightarrow> string" where "show_byte b = show_nat (unat b)"

definition pad2 :: "string \<Rightarrow> string" where
  "pad2 s = (if length s < 2 then CHR ''0'' # s else s)"

definition hex_byte :: "byte \<Rightarrow> string" where
  "hex_byte b = [digit (unat b div 16), digit (unat b mod 16)]"

definition string_of_bytes :: "byte list \<Rightarrow> string" where
  "string_of_bytes bs = map (\<lambda>b. char_of (unat b)) bs"

definition upper_digit :: "nat \<Rightarrow> char" where
  "upper_digit d = char_of (if d < 10 then 48 + d else 55 + d)"

fun show_HEX :: "nat \<Rightarrow> string" where
  "show_HEX n = (if n < 16 then [upper_digit n] else show_HEX (n div 16) @ [upper_digit (n mod 16)])"

declare show_HEX.simps [simp del]

end
