(* ===== verification/Psi_Stream.thy ===== *)
theory Psi_Stream
  imports Gots_Fmt
begin

text \<open>
  \<^verbatim>\<open>gots/psi/pmtstreamtype.go\<close>: the stream types of elementary streams and their table, and
  \<^verbatim>\<open>gots/psi/pmtdescriptor.go\<close>, \<^verbatim>\<open>pmtelementarystream.go\<close>: descriptors, decoded on demand, and the streams
  that hold them.  Go strings are byte sequences: a string of the model is the list of their
  characters.
\<close>

section \<open>Stream types\<close>

definition PmtStreamTypeMpeg2VideoH262 :: byte where "PmtStreamTypeMpeg2VideoH262 = 2"
definition PmtStreamTypeMpeg4Video :: byte where "PmtStreamTypeMpeg4Video = 27"
definition PmtStreamTypeMpeg4VideoH264 :: byte where "PmtStreamTypeMpeg4VideoH264 = 27"
definition PmtStreamTypeMpeg4VideoH265 :: byte where "PmtStreamTypeMpeg4VideoH265 = 36"
definition PmtStreamTypeAac :: byte where "PmtStreamTypeAac = 15"
definition PmtStreamTypeAc3 :: byte where "PmtStreamTypeAc3 = 129"
definition PmtStreamTypeEc3 :: byte where "PmtStreamTypeEc3 = 135"
definition PmtStreamTypeScte35 :: byte where "PmtStreamTypeScte35 = 134"
definition PmtStreamTypeID3 :: byte where "PmtStreamTypeID3 = 21"
definition PmtStreamTypePrivateContent :: byte where "PmtStreamTypePrivateContent = 6"

lemmas stream_type_consts = PmtStreamTypeMpeg2VideoH262_def PmtStreamTypeMpeg4Video_def
  PmtStreamTypeMpeg4VideoH264_def PmtStreamTypeMpeg4VideoH265_def PmtStreamTypeAac_def
  PmtStreamTypeAc3_def PmtStreamTypeEc3_def PmtStreamTypeScte35_def PmtStreamTypeID3_def
  PmtStreamTypePrivateContent_def

record pmtStreamType =
  st_code :: byte
  st_description :: string
  st_presentationLagsEbp :: bool

definition StreamType :: "pmtStreamType \<Rightarrow> byte" where "StreamType st = st_code st"
definition StreamTypeDescription :: "pmtStreamType \<Rightarrow> string" where
  "StreamTypeDescription st = st_description st"
definition IsStreamWherePresentationLagsEbp :: "pmtStreamType \<Rightarrow> bool" where
  "IsStreamWherePresentationLagsEbp st = st_presentationLagsEbp st"

definition IsAudioContent :: "pmtStreamType \<Rightarrow> bool" where
  "IsAudioContent st =
     (st_code st = PmtStreamTypeAac \<or> st_code st = PmtStreamTypeAc3 \<or> st_code st = PmtStreamTypeEc3)"

definition IsVideoContent :: "pmtStreamType \<Rightarrow> bool" where
  "IsVideoContent st =
     (st_code st = PmtStreamTypeMpeg4VideoH264 \<or> st_code st = PmtStreamTypeMpeg4VideoH265 \<or>
      st_code st = PmtStreamTypeMpeg4Video \<or> st_code st = PmtStreamTypeMpeg2VideoH262)"

definition IsSCTE35Content :: "pmtStreamType \<Rightarrow> bool" where
  "IsSCTE35Content st = (st_code st = PmtStreamTypeScte35)"
definition IsID3Content :: "pmtStreamType \<Rightarrow> bool" where
  "IsID3Content st = (st_code st = PmtStreamTypeID3)"
definition IsPrivateContent :: "pmtStreamType \<Rightarrow> bool" where
  "IsPrivateContent st = (st_code st = PmtStreamTypePrivateContent)"

definition pmtStreamType_String :: "pmtStreamType \<Rightarrow> string" where
  "pmtStreamType_String st = ''streamType='' @ show_byte (st_code st)"

definition presentationLagsEbp :: "byte \<Rightarrow> bool" where
  "presentationLagsEbp code = (code \<in> {3, 4, 15, 17, 129, 135, 136})"

definition newPmtStreamType :: "byte \<Rightarrow> string \<Rightarrow> bool \<Rightarrow> pmtStreamType" where
  "newPmtStreamType code description lags =
     \<lparr>st_code = code, st_description = description, st_presentationLagsEbp = lags\<rparr>"

definition atscPmtStreamTypes :: "(byte \<times> byte \<times> string) list" where
  "atscPmtStreamTypes =
    [(0, 0, ''ITU-T | ISO/IEC Reserved''),
     (1, 1, ''ISO/IEC 11172 Video'' @ [CHR 0x09]),
     (2, 2, ''ITU-T Rec. H.262 | ISO/IEC 13818-2 Video''),
     (3, 3, ''ISO/IEC 11172 Audio''),
     (4, 4, ''ISO/IEC 13818-3 Audio''),
     (5, 5, ''ITU-T Rec. H.222.0 | ISO/IEC 13818-1 private sections''),
     (6, 6, ''ITU-T Rec. H.222.0 | ISO/IEC 13818-1 PES packets containing private data''),
     (7, 7, ''ISO/IEC 13522 MHEG''),
     (8, 8, ''ITU-T Rec. H.222.0 | ISO/IEC 13818-1 DSM-CC''),
     (9, 9, ''ITU-T Rec. H.222.0 | ISO/IEC 13818-1/11172-1 auxiliary''),
     (10, 10, ''ISO/IEC 13818-6 Multi-protocol Encapsulation''),
     (11, 11, ''ISO/IEC 13818-6 DSM-CC U-N Messages''),
     (12, 12, ''ISO/IEC 13818-6 Stream Descriptors''),
     (13, 13, ''ISO/IEC 13818-6 Sections (any type, including private data)''),
     (14, 14, ''ISO/IEC 13818-1 auxiliary''),
     (15, 15, ''ISO/IEC 13818-7 Audio (AAC) with ADTS transport''),
     (16, 16, ''ISO/IEC 14496-2 Visual''),
     (17, 17, ''ISO/IEC 14496-3 Audio with the LATM transport syntax as defined in ISO/IEC 14496-3''),
     (18, 18, ''ISO/IEC 14496-1 SL-packetized stream or FlexMux stream carried in PES packets''),
     (19, 19, ''ISO/IEC 14496-1 SL-packetized stream or FlexMux stream carried in ISO/IEC 14496_sections''),
     (20, 20, ''ISO/IEC 13818-6 DSM-CC Synchronized Download Protocol''),
     (21, 21, ''Metadata carried in PES packets''),
     (22, 22, ''Metadata carried in metadata_sections'' @ [CHR 0x09]),
     (23, 23, ''Metadata carried in ISO/IEC 13818-6 Data Carousel''),
     (24, 24, ''Metadata carried in ISO/IEC 13818-6 Object Carousel''),
     (25, 25, ''Metadata carried in ISO/IEC 13818-6 Synchronized Download Protocol''),
     (26, 26, ''IPMP stream (defined in ISO/IEC 13818-11, MPEG-2 IPMP)''),
     (27, 27, ''AVC video stream as defined in ITU-T Rec. H.264 | ISO/IEC 14496-10 Video''),
     (28, 127, ''ITU-T Rec. H.222.0 | ISO/IEC 13818-1 Reserved''),
     (36, 36, ''HEVC video stream as defined in ITU-T Rec. H.265 | ISO/IEC 23008-2 Video''),
     (128, 128, ''DigiCipher'' @ [CHR 0xC2, CHR 0xAE] @ '' II video | Identical to ITU-T Rec. H.262 | ISO/IEC 13818-2 Video''),
     (129, 129, ''ATSC A/53 audio [2] | AC-3 audio''),
     (130, 130, ''SCTE Standard Subtitle''),
     (131, 131, ''SCTE Isochronous Data | Reserved''),
     (132, 132, ''ATSC/SCTE reserved''),
     (133, 133, ''ATSC Program Identifier , SCTE Reserved''),
     (134, 134, ''SCTE 35 splice_information_table | [Cueing]''),
     (135, 135, ''E-AC-3''),
     (136, 136, ''DTS HD Audio''),
     (137, 137, ''ATSC Reserved''),
     (138, 143, ''ATSC Reserved''),
     (144, 144, ''DVB stream_type value for Time Slicing / MPE-FEC''),
     (145, 145, ''IETF Unidirectional Link Encapsulation (ULE)''),
     (146, 148, ''ATSC Reserved''),
     (149, 149, ''ATSC Data Service Table, Network Resources Table''),
     (150, 159, ''ATSC Reserved''),
     (160, 160, ''SCTE [IP Data] | ATSC Reserved''),
     (161, 191, ''ATSC Reserved''),
     (192, 192, ''DCII (DigiCipher'' @ [CHR 0xC2, CHR 0xAE] @ '') Text''),
     (193, 193, ''ATSC Reserved''),
     (194, 194, ''ATSC synchronous data stream | [Isochronous Data]''),
     (195, 195, ''SCTE Asynchronous Data''),
     (196, 233, ''ATSC User Private Program Elements''),
     (234, 234, ''VC-1 Elementary Stream per RP227''),
     (235, 255, ''ATSC User Private Program Elements'')]"

fun lookup_stream_type :: "(byte \<times> byte \<times> string) list \<Rightarrow> byte \<Rightarrow> string" where
  "lookup_stream_type [] code = ''unknown''"
| "lookup_stream_type ((firstCode, lastCode, description) # ts) code =
     (if code \<ge> firstCode \<and> code \<le> lastCode then description else lookup_stream_type ts code)"

definition LookupPmtStreamType :: "byte \<Rightarrow> pmtStreamType" where
  "LookupPmtStreamType code =
     newPmtStreamType code (lookup_stream_type atscPmtStreamTypes code) (presentationLagsEbp code)"

section \<open>Descriptors\<close>

definition VIDEO_STREAM :: byte where "VIDEO_STREAM = 2"
definition AUDIO_STREAM :: byte where "AUDIO_STREAM = 3"
definition REGISTRATION :: byte where "REGISTRATION = 5"
definition CONDITIONAL_ACCESS :: byte where "CONDITIONAL_ACCESS = 9"
definition LANGUAGE :: byte where "LANGUAGE = 10"
definition SYSTEM_CLOCK :: byte where "SYSTEM_CLOCK = 11"
definition DOLBY_DIGITAL :: byte where "DOLBY_DIGITAL = 12"
definition COPYRIGHT :: byte where "COPYRIGHT = 13"
definition MAXIMUM_BITRATE :: byte where "MAXIMUM_BITRATE = 14"
definition AVC_VIDEO :: byte where "AVC_VIDEO = 40"
definition STREAM_IDENTIFIER :: byte where "STREAM_IDENTIFIER = 82"
definition EXTENSION :: byte where "EXTENSION = 127"
definition SCTE_ADAPTATION :: byte where "SCTE_ADAPTATION = 151"
definition DOLBY_VISION :: byte where "DOLBY_VISION = 176"
definition EBP_TAG :: byte where "EBP_TAG = 233"
definition EC3 :: byte where "EC3 = 204"
definition TTML_DESC_TAG_EXTENSION :: byte where "TTML_DESC_TAG_EXTENSION = 32"

lemmas descriptor_consts = VIDEO_STREAM_def AUDIO_STREAM_def REGISTRATION_def CONDITIONAL_ACCESS_def
  LANGUAGE_def SYSTEM_CLOCK_def DOLBY_DIGITAL_def COPYRIGHT_def MAXIMUM_BITRATE_def AVC_VIDEO_def
  STREAM_IDENTIFIER_def EXTENSION_def SCTE_ADAPTATION_def DOLBY_VISION_def EBP_TAG_def EC3_def
  TTML_DESC_TAG_EXTENSION_def

record pmtDescriptor =
  desc_tag :: byte
  desc_data :: "byte list"

definition NewPmtDescriptor :: "byte \<Rightarrow> byte list \<Rightarrow> pmtDescriptor" where
  "NewPmtDescriptor tag data = \<lparr>desc_tag = tag, desc_data = data\<rparr>"

definition Descriptor_Tag :: "pmtDescriptor \<Rightarrow> byte" where "Descriptor_Tag d = desc_tag d"

definition IsIso639LanguageDescriptor :: "pmtDescriptor \<Rightarrow> bool" where
  "IsIso639LanguageDescriptor d = (desc_tag d = LANGUAGE)"
definition IsMaximumBitrateDescriptor :: "pmtDescriptor \<Rightarrow> bool" where
  "IsMaximumBitrateDescriptor d = (desc_tag d = MAXIMUM_BITRATE)"
definition IsEBPDescriptor :: "pmtDescriptor \<Rightarrow> bool" where
  "IsEBPDescriptor d = (desc_tag d = EBP_TAG)"

definition DecodeMaximumBitRate :: "pmtDescriptor \<Rightarrow> u32 res" where
  "DecodeMaximumBitRate d =
     (if IsMaximumBitrateDescriptor d then
        res_bind (rd (desc_data d) 0) (\<lambda>b0. res_bind (rd (desc_data d) 1) (\<lambda>b1.
        res_bind (rd (desc_data d) 2) (\<lambda>b2.
          Ok (push_bit 16 (ucast (b0 AND 0x1f)) OR push_bit 8 (ucast b1) OR ucast b2))))
      else Ok 0)"

definition DecodeIso639LanguageCode :: "pmtDescriptor \<Rightarrow> string res" where
  "DecodeIso639LanguageCode d =
     (if LANGUAGE = desc_tag d then res_bind (slice (desc_data d) 0 3) (\<lambda>s. Ok (string_of_bytes s))
      else Ok '''')"

definition DecodeIso639AudioType :: "pmtDescriptor \<Rightarrow> byte" where
  "DecodeIso639AudioType d = (if length (desc_data d) \<ge> 4 then desc_data d ! 3 else 0)"

definition IsTTMLDescTagExtension :: "pmtDescriptor \<Rightarrow> bool" where
  "IsTTMLDescTagExtension d =
     (length (desc_data d) \<ge> 1 \<and> desc_data d ! 0 = TTML_DESC_TAG_EXTENSION)"

definition IsTTMLSubtitlingDescriptor :: "pmtDescriptor \<Rightarrow> bool" where
  "IsTTMLSubtitlingDescriptor d = (desc_tag d = EXTENSION)"

definition DecodeTTMLIso639LanguageCode :: "pmtDescriptor \<Rightarrow> string" where
  "DecodeTTMLIso639LanguageCode d =
     (if desc_tag d = EXTENSION \<and> length (desc_data d) \<ge> 4
      then string_of_bytes (take 3 (drop 1 (desc_data d))) else '''')"

definition DecodeTTMLSubtitlePurpose :: "pmtDescriptor \<Rightarrow> byte" where
  "DecodeTTMLSubtitlePurpose d =
     (if desc_tag d = EXTENSION \<and> length (desc_data d) \<ge> 5 then drop_bit 2 (desc_data d ! 4) else 0xFF)"

text \<open>The loop over the partitions, with the number of partitions left.\<close>

fun iframe_loop :: "byte list \<Rightarrow> nat \<Rightarrow> nat \<Rightarrow> bool res" where
  "iframe_loop data 0 offset = Ok False"
| "iframe_loop data (Suc k) offset =
     res_bind (rd data offset) (\<lambda>b.
       let EBP_data_explicit_flag = (1 = drop_bit 7 (b AND 0x80));
           representation_id_flag = (1 = drop_bit 6 (b AND 0x04))
       in if EBP_data_explicit_flag then
            res_bind (rd data (offset + 1)) (\<lambda>EBP_distance. Ok (1 = EBP_distance))
          else
            let offset = offset + 2;
                offset = (if representation_id_flag then offset + 8 else offset)
            in iframe_loop data k offset)"

definition IsIFrameProfile :: "pmtDescriptor \<Rightarrow> bool res" where
  "IsIFrameProfile d =
     (if EBP_TAG = desc_tag d \<and> 0 < length (desc_data d) then
        let b = desc_data d ! 0;
            num_partitions = drop_bit 3 (b AND 0xF8);
            timescale_flag = (1 = drop_bit 2 (b AND 0x04))
        in if timescale_flag then Ok False else iframe_loop (desc_data d) (unat num_partitions) 1
      else Ok False)"

definition IsDolbyATMOS :: "pmtDescriptor \<Rightarrow> bool res" where
  "IsDolbyATMOS d =
     (let data = desc_data d
      in if desc_tag d = EC3 \<and> length data \<ge> 2 then
           let b0 = data ! 0;
               bsid_flag = (1 = drop_bit 6 (b0 AND 0x40));
               mainid_flag = (1 = drop_bit 5 (b0 AND 0x20));
               asvc_flag = (1 = drop_bit 4 (b0 AND 0x10));
               substream1_flag = (1 = drop_bit 2 (b0 AND 0x04));
               substream2_flag = (1 = drop_bit 1 (b0 AND 0x02));
               substream3_flag = (1 = b0 AND 0x01);
               start = (2 :: nat)
           in res_bind (if bsid_flag
                then res_bind (rd data start) (\<lambda>b. Ok (1 = drop_bit 7 (b AND 0x80), 1 = drop_bit 6 (b AND 0x40), start + 1))
                else Ok (False, False, start)) (\<lambda>(language_flag, language_flag_2, start).
              let start = (if mainid_flag then start + 1 else start);
                  start = (if asvc_flag then start + 1 else start);
                  start = (if substream1_flag then start + 1 else start);
                  start = (if substream2_flag then start + 1 else start);
                  start = (if substream3_flag then start + 1 else start);
                  start = (if language_flag then start + 3 else start);
                  start = (if language_flag_2 then start + 3 else start);
                  start = (if substream1_flag then start + 3 else start);
                  start = (if substream2_flag then start + 3 else start);
                  start = (if substream3_flag then start + 3 else start)
              in Ok (\<exists>i \<in> set [start..<length data mod 256]. data ! i = 0x01))
         else Ok False)"

definition IsDolbyVision :: "pmtDescriptor \<Rightarrow> bool" where
  "IsDolbyVision d =
     (desc_tag d = REGISTRATION \<and> length (desc_data d) \<ge> 4 \<and>
      take 4 (desc_data d) = [0x44, 0x4F, 0x56, 0x49])"

definition DecodeDolbyVisionCodec :: "pmtDescriptor \<Rightarrow> string \<Rightarrow> string" where
  "DecodeDolbyVisionCodec d originalCodec =
     (if desc_tag d = DOLBY_VISION \<and> length (desc_data d) \<ge> 4 then
        let num = (push_bit 8 (ucast (desc_data d ! 2)) OR ucast (desc_data d ! 3) :: u16);
            dv_profile = (ucast (drop_bit 9 (num AND 0xFE00)) :: byte);
            dv_level = (ucast (drop_bit 3 (num AND 0xFC)) :: byte)
        in ''dvhe.'' @ pad2 (show_byte dv_profile) @ ''.'' @ pad2 (show_byte dv_level)
      else '''')"

definition paren :: "byte \<Rightarrow> string" where "paren tag = '' ('' @ show_byte tag @ '')''"

definition decode :: "pmtDescriptor \<Rightarrow> string res" where
  "decode d =
     (let tag = desc_tag d
      in if tag = LANGUAGE then
           res_bind (DecodeIso639LanguageCode d) (\<lambda>code.
             Ok (''ISO 639 Language (code='' @ code @ '', audioType=0x'' @ hex_byte (DecodeIso639AudioType d) @ '')''))
         else if tag = MAXIMUM_BITRATE then
           res_bind (DecodeMaximumBitRate d) (\<lambda>r. Ok (''Maximum Bit-Rate ('' @ show_nat (unat r) @ '')''))
         else if tag = VIDEO_STREAM then Ok (''Video Stream'' @ paren tag)
         else if tag = AUDIO_STREAM then Ok (''Audio Stream'' @ paren tag)
         else if tag = REGISTRATION then Ok (''Registration'' @ paren tag)
         else if tag = CONDITIONAL_ACCESS then Ok (''Conditional Access'' @ paren tag)
         else if tag = SYSTEM_CLOCK then Ok (''System Clock'' @ paren tag)
         else if tag = COPYRIGHT then Ok (''Copyright'' @ paren tag)
         else if tag = AVC_VIDEO then Ok (''AVC Video'' @ paren tag)
         else if tag = DOLBY_DIGITAL then Ok (''Dolby Digital'' @ paren tag)
         else if tag = SCTE_ADAPTATION then Ok (''SCTE Adaptation'' @ paren tag)
         else if tag = DOLBY_VISION then Ok (''Dolby Vision'' @ paren tag)
         else if tag = EBP_TAG then Ok (''EBP'' @ paren tag)
         else if tag = STREAM_IDENTIFIER then
           res_bind (rd (desc_data d) 0) (\<lambda>b. Ok (''Stream Identifier'' @ paren tag @ '': '' @ show_byte b))
         else if tag = EXTENSION then
           Ok (''TTML Subtitling (language code='' @ DecodeTTMLIso639LanguageCode d @ '')'')
         else Ok (''unknown tag'' @ paren tag))"

definition Descriptor_String :: "pmtDescriptor \<Rightarrow> string res" where
  "Descriptor_String d = decode d"

definition Descriptor_Format :: "pmtDescriptor \<Rightarrow> string res" where
  "Descriptor_Format d = res_bind (decode d) (\<lambda>s.
     Ok (''[tag='' @ show_bin (unat (desc_tag d)) @ '', decoded='' @ s @ '']'' @ [CHR 0x0A]))"

section \<open>Elementary streams\<close>

definition BitsPerByte :: u64 where "BitsPerByte = 8"
definition MaxBitRateBytesPerSecond :: u64 where "MaxBitRateBytesPerSecond = 50"

record pmtElementaryStream =
  es_type :: pmtStreamType
  es_pid :: int
  es_descriptors :: "pmtDescriptor list"

definition NewPmtElementaryStream :: "byte \<Rightarrow> int \<Rightarrow> pmtDescriptor list \<Rightarrow> pmtElementaryStream" where
  "NewPmtElementaryStream streamType elementaryPid descriptors =
     \<lparr>es_type = LookupPmtStreamType streamType, es_pid = elementaryPid, es_descriptors = descriptors\<rparr>"

definition ElementaryPid :: "pmtElementaryStream \<Rightarrow> int" where "ElementaryPid es = es_pid es"
definition es_Descriptors :: "pmtElementaryStream \<Rightarrow> pmtDescriptor list" where
  "es_Descriptors es = es_descriptors es"

fun max_bit_rate :: "pmtDescriptor list \<Rightarrow> u64 res" where
  "max_bit_rate [] = Ok 0"
| "max_bit_rate (d # ds) =
     (if IsMaximumBitrateDescriptor d
      then res_bind (DecodeMaximumBitRate d) (\<lambda>r. Ok (ucast r * BitsPerByte * MaxBitRateBytesPerSecond))
      else max_bit_rate ds)"

definition MaxBitRate :: "pmtElementaryStream \<Rightarrow> u64 res" where
  "MaxBitRate es = max_bit_rate (es_descriptors es)"

definition IsTTMLSubtitling :: "pmtElementaryStream \<Rightarrow> bool" where
  "IsTTMLSubtitling es =
     (\<exists>d \<in> set (es_Descriptors es). IsTTMLSubtitlingDescriptor d \<and> IsTTMLDescTagExtension d)"

text \<open>
  The text that \<^verbatim>\<open>fmt\<close> puts for a value whose \<^verbatim>\<open>String\<close> method panics: \<open>decode\<close> does so when the
  data are too short for the tag, at the first index read past the end.
\<close>

definition fmt_Descriptor :: "pmtDescriptor \<Rightarrow> string" where
  "fmt_Descriptor d =
     (case Descriptor_String d of
        Ok s \<Rightarrow> s
      | _ \<Rightarrow> let n = show_nat (length (desc_data d))
            in ''%!v(PANIC=String method: runtime error: '' @
               (if desc_tag d = LANGUAGE then ''slice bounds out of range [:3] with capacity '' @ n
                else ''index out of range ['' @ n @ ''] with length '' @ n) @ '')'')"

fun show_descriptors :: "nat \<Rightarrow> pmtDescriptor list \<Rightarrow> string" where
  "show_descriptors i [] = ''''"
| "show_descriptors i (d # ds) =
     ''descriptor'' @ show_nat i @ ''='' @ [CHR 0x27] @ fmt_Descriptor d @ [CHR 0x27] @
     (if ds \<noteq> [] then '','' else '''') @ show_descriptors (i + 1) ds"

definition es_String :: "pmtElementaryStream \<Rightarrow> string" where
  "es_String es =
     (let ds = (if es_descriptors es \<noteq> [] then '','' @ show_descriptors 0 (es_descriptors es) else '''')
      in ''ElementaryStream[pid='' @ show_int (es_pid es) @ '','' @ pmtStreamType_String (es_type es) @ ds @ '']'')"

section \<open>Properties\<close>

lemma lookup_stream_type_append:
  "lookup_stream_type (ts @ us) code =
     (if \<exists>(a, b, d) \<in> set ts. a \<le> code \<and> code \<le> b then lookup_stream_type ts code else lookup_stream_type us code)"
  by (induction ts code rule: lookup_stream_type.induct) auto

lemma lookup_stream_type_in:
  "\<exists>(a, b, d) \<in> set ts. a \<le> code \<and> code \<le> b \<Longrightarrow> \<exists>a b. (a, b, lookup_stream_type ts code) \<in> set ts \<and> a \<le> code \<and> code \<le> b"
  by (induction ts code rule: lookup_stream_type.induct) auto

text \<open>The rows before, from and after the row of H.265.\<close>

abbreviation hevc :: string where
  "hevc \<equiv> ''HEVC video stream as defined in ITU-T Rec. H.265 | ISO/IEC 23008-2 Video''"

lemma stream_type_rows:
  "atscPmtStreamTypes = take 29 atscPmtStreamTypes @ (36, 36, hevc) # drop 30 atscPmtStreamTypes"
  by (simp add: atscPmtStreamTypes_def)

lemma hevc_only_there:
  "hevc \<notin> (\<lambda>(a, b, d). d) ` set (take 29 atscPmtStreamTypes)"
  "hevc \<notin> (\<lambda>(a, b, d). d) ` set (drop 30 atscPmtStreamTypes)"
  by (simp_all add: atscPmtStreamTypes_def)

lemma lookup_head:
  assumes "\<exists>(a, b, d) \<in> set (take 29 atscPmtStreamTypes). a \<le> c \<and> c \<le> b"
  shows "lookup_stream_type atscPmtStreamTypes c = lookup_stream_type (take 29 atscPmtStreamTypes) c"
proof -
  have "lookup_stream_type (take 29 atscPmtStreamTypes @ (36, 36, hevc) # drop 30 atscPmtStreamTypes) c =
      lookup_stream_type (take 29 atscPmtStreamTypes) c"
    using assms by (simp only: lookup_stream_type_append if_True)
  then show ?thesis using stream_type_rows by metis
qed

lemma lookup_tail:
  assumes "\<not> (\<exists>(a, b, d) \<in> set (take 29 atscPmtStreamTypes). a \<le> c \<and> c \<le> b)" "128 \<le> c"
  shows "lookup_stream_type atscPmtStreamTypes c = lookup_stream_type (drop 30 atscPmtStreamTypes) c"
proof -
  have "\<not> c \<le> 36" using assms(2) by (simp add: word_le_nat_alt)
  then have "lookup_stream_type ((36, 36, hevc) # drop 30 atscPmtStreamTypes) c =
      lookup_stream_type (drop 30 atscPmtStreamTypes) c" by simp
  moreover have "lookup_stream_type (take 29 atscPmtStreamTypes @ (36, 36, hevc) # drop 30 atscPmtStreamTypes) c =
      lookup_stream_type ((36, 36, hevc) # drop 30 atscPmtStreamTypes) c"
    using assms(1) by (simp only: lookup_stream_type_append if_False)
  ultimately show ?thesis using stream_type_rows by metis
qed

lemma rows_cover:
  assumes "list_all (\<lambda>n. list_ex (\<lambda>(a, b). a \<le> n \<and> n \<le> b) (map (\<lambda>(a, b, d). (unat a, unat b)) ts)) [m..<k]"
    and "m \<le> unat code" "unat code < k"
  shows "\<exists>(a, b, d) \<in> set ts. a \<le> code \<and> code \<le> b"
proof -
  have "list_ex (\<lambda>(a, b). a \<le> unat code \<and> unat code \<le> b) (map (\<lambda>(a, b, d). (unat a, unat b)) ts)"
    using assms by (auto simp: list_all_iff)
  then show ?thesis by (fastforce simp: list_ex_iff word_le_nat_alt)
qed

lemma rows_cover_low: "code < 128 \<Longrightarrow> \<exists>(a, b, d) \<in> set (take 29 atscPmtStreamTypes). a \<le> code \<and> code \<le> b"
proof (rule rows_cover [of _ 0 128])
  show "list_all (\<lambda>n. list_ex (\<lambda>(a, b). a \<le> n \<and> n \<le> b)
      (map (\<lambda>(a, b, d). (unat a, unat b)) (take 29 atscPmtStreamTypes))) [0..<128]"
    by (simp add: atscPmtStreamTypes_def upt_rec)
qed (simp_all add: word_less_nat_alt)

lemma rows_cover_high: "128 \<le> code \<Longrightarrow> \<exists>(a, b, d) \<in> set (drop 30 atscPmtStreamTypes). a \<le> code \<and> code \<le> b"
proof (rule rows_cover [of _ 128 256])
  show "list_all (\<lambda>n. list_ex (\<lambda>(a, b). a \<le> n \<and> n \<le> b)
      (map (\<lambda>(a, b, d). (unat a, unat b)) (drop 30 atscPmtStreamTypes))) [128..<256]"
    by (simp add: atscPmtStreamTypes_def upt_rec)
  show "unat code < 256" by (rule order.strict_trans2 [OF unsigned_less]) simp
qed (simp_all add: word_le_nat_alt)

lemma rows_low: "(a, b, d) \<in> set (take 29 atscPmtStreamTypes) \<Longrightarrow> b < 128"
  by (auto simp: atscPmtStreamTypes_def)

text \<open>Every code has a description, that of a row of the table whose range holds the code, and the stream
  types are classified without overlap: audio, video, SCTE-35, ID3 and private exclude each other.  The
  row of H.265 (36) comes after the row that reserves 28 to 127, so no code is described as HEVC,
  although code 36 counts as video.\<close>

theorem stream_types:
  "(\<exists>a b. (a, b, StreamTypeDescription (LookupPmtStreamType c)) \<in> set atscPmtStreamTypes \<and> a \<le> c \<and> c \<le> b) \<and>
   StreamTypeDescription (LookupPmtStreamType c) \<noteq> hevc \<and> IsVideoContent (LookupPmtStreamType 36) \<and>
   length (filter (\<lambda>class. class (LookupPmtStreamType c))
     [IsAudioContent, IsVideoContent, IsSCTE35Content, IsID3Content, IsPrivateContent]) \<le> 1"
proof -
  let ?d = "lookup_stream_type atscPmtStreamTypes c"
  have "(\<exists>a b. (a, b, ?d) \<in> set atscPmtStreamTypes \<and> a \<le> c \<and> c \<le> b) \<and> ?d \<noteq> hevc"
  proof (cases "c < 128")
    case True
    note cov = rows_cover_low [OF this]
    then have d: "?d = lookup_stream_type (take 29 atscPmtStreamTypes) c"
      by (rule lookup_head)
    from lookup_stream_type_in [OF cov] obtain a b where
      "(a, b, ?d) \<in> set (take 29 atscPmtStreamTypes)" "a \<le> c" "c \<le> b" unfolding d by blast
    moreover from this(1) have "?d \<noteq> hevc" using hevc_only_there(1) by (force simp: image_iff)
    ultimately show ?thesis by (blast dest: in_set_takeD)
  next
    case False
    then have hi: "128 \<le> c" by simp
    note cov = rows_cover_high [OF this]
    have "\<not> (\<exists>(a, b, d) \<in> set (take 29 atscPmtStreamTypes). a \<le> c \<and> c \<le> b)"
      using hi rows_low by fastforce
    then have d: "?d = lookup_stream_type (drop 30 atscPmtStreamTypes) c"
      using hi by (rule lookup_tail)
    from lookup_stream_type_in [OF cov] obtain a b where
      "(a, b, ?d) \<in> set (drop 30 atscPmtStreamTypes)" "a \<le> c" "c \<le> b" unfolding d by blast
    moreover from this(1) have "?d \<noteq> hevc" using hevc_only_there(2) by (force simp: image_iff)
    ultimately show ?thesis by (blast dest: in_set_dropD)
  qed
  moreover have "length (filter (\<lambda>class. class (LookupPmtStreamType c))
     [IsAudioContent, IsVideoContent, IsSCTE35Content, IsID3Content, IsPrivateContent]) \<le> 1"
    by (simp add: IsAudioContent_def IsVideoContent_def IsSCTE35Content_def IsID3Content_def IsPrivateContent_def
        LookupPmtStreamType_def newPmtStreamType_def stream_type_consts)
  moreover have "IsVideoContent (LookupPmtStreamType 36)"
    by (simp add: IsVideoContent_def LookupPmtStreamType_def newPmtStreamType_def stream_type_consts)
  ultimately show ?thesis
    by (simp add: StreamTypeDescription_def LookupPmtStreamType_def newPmtStreamType_def)
qed

end
