(* ===== verification/Psi_PMT.thy ===== *)
theory Psi_PMT
  imports Psi_PAT Psi_Stream Accumulator
begin

text \<open>
  \<^verbatim>\<open>gots/psi/pmt.go\<close>: the program map table, its completion test for the accumulator, its parser, the
  filter that rebuilds it for some of its PIDs, and the reader.

  Offsets into a section are \<^verbatim>\<open>uint16\<close> in the source.  In the parser they are natural numbers: every
  one is below 10000, since a section length is at most 1023, a program or stream information length
  at most 4095 and a descriptor length at most 255.  The bound of the loops over the streams wraps
  when the section length is below 5, and so do the sums of the filter, whose loop runs on that
  bound: there \<open>mod 65536\<close> is written out, and the loop of the filter, which then need not end, is
  partial.
\<close>

section \<open>The code\<close>

definition PidNotFound :: int where "PidNotFound = 65535"
definition programInfoLengthOffset :: nat where "programInfoLengthOffset = 10"
definition pmtEsDescriptorStaticLen :: nat where "pmtEsDescriptorStaticLen = 5"
definition PSIHeaderLen :: nat where "PSIHeaderLen = 4"
definition CrcLen :: nat where "CrcLen = 4"

lemmas pmt_consts = programInfoLengthOffset_def pmtEsDescriptorStaticLen_def PSIHeaderLen_def CrcLen_def

record pmt =
  pmt_pids :: "int list"
  pmt_elementaryStreams :: "pmtElementaryStream list"
  pmt_versionNumber :: byte
  pmt_currentNextIndicator :: bool

text \<open>The loop over the sections of \<open>PmtAccumulatorDoneFunc\<close>.\<close>

lemma slice_from_shorter:
  "slice_from xs n = Ok ys \<Longrightarrow> 0 < n \<Longrightarrow> n \<le> length xs \<Longrightarrow> length ys < length xs"
  by (auto simp: slice_Ok_iff)

lemma unat_3_plus:
  assumes "sectionLength s = Ok tlen"
  shows "unat (3 + tlen) = unat tlen + 3"
  using sectionLength_bound [OF assms] by (simp add: unat_word_ariths)

lemma next_section_shorter:
  "sectionLength s = Ok tlen \<Longrightarrow> slice_from s (unat (3 + tlen)) = Ok s' \<Longrightarrow> length s' < length s"
  using unat_3_plus [of s tlen] by (auto simp: slice_Ok_iff)

function done_loop :: "byte list \<Rightarrow> bool res" where
  "done_loop sectionBytes =
     (if length sectionBytes > 2 \<and> sectionBytes ! 0 \<noteq> 0xFF then
        res_bind (sectionLength sectionBytes) (\<lambda>tableLength.
          if length sectionBytes < unat tableLength + 3 then Ok False
          else res_bind (slice_from sectionBytes (unat (3 + tableLength))) done_loop)
      else Ok True)"
  by pat_completeness auto
termination
  by (relation "measure length") (auto dest: next_section_shorter)

declare done_loop.simps [simp del]

definition PmtAccumulatorDoneFunc :: "byte list \<Rightarrow> bool res" where
  "PmtAccumulatorDoneFunc b =
     (if length b < 1 then Ok False
      else res_bind (PointerField b) (\<lambda>pf.
        let start = 1 + unat pf
        in if length b < start then Ok False else res_bind (slice_from b start) done_loop))"

text \<open>The twelve-bit length at an offset.\<close>

definition length12 :: "byte \<Rightarrow> byte \<Rightarrow> nat" where
  "length12 hi lo = push_bit 8 (unat (hi AND 0x0f)) OR unat lo"

function descriptor_loop ::
  "byte list \<Rightarrow> nat \<Rightarrow> nat \<Rightarrow> nat \<Rightarrow> pmtDescriptor list \<Rightarrow> pmtDescriptor list res" where
  "descriptor_loop pmtBytes offset infoLength descriptorOffset descriptors =
     (if descriptorOffset < infoLength then
        res_bind (rd pmtBytes (offset + descriptorOffset)) (\<lambda>tag.
        res_bind (rd pmtBytes (offset + descriptorOffset + 1)) (\<lambda>descriptorLength.
          let startPos = offset + descriptorOffset + 2;
              endPos = startPos + unat descriptorLength
          in if endPos < length pmtBytes then
               res_bind (slice pmtBytes startPos endPos) (\<lambda>data.
                 descriptor_loop pmtBytes offset infoLength (descriptorOffset + 2 + unat descriptorLength)
                   (descriptors @ [NewPmtDescriptor tag data]))
             else Err ErrParsePMTDescriptor))
      else Ok descriptors)"
  by pat_completeness auto
termination
  by (relation "measure (\<lambda>(b, off, info, d, ds). info - d)") auto

declare descriptor_loop.simps [simp del]

definition parse_es :: "byte list \<Rightarrow> nat \<Rightarrow> (nat \<times> pmtElementaryStream) res" where
  "parse_es pmtBytes offset =
     res_bind (rd pmtBytes offset) (\<lambda>elementaryStreamType.
     res_bind (rd pmtBytes (offset + 1)) (\<lambda>p1. res_bind (rd pmtBytes (offset + 2)) (\<lambda>p2.
     res_bind (rd pmtBytes (offset + 3)) (\<lambda>i1. res_bind (rd pmtBytes (offset + 4)) (\<lambda>i2.
       let elementaryPid = push_bit 8 (uint (p1 AND 0x1f)) OR uint p2;
           infoLength = length12 i1 i2;
           offset = offset + pmtEsDescriptorStaticLen
       in res_bind (if infoLength \<noteq> 0 \<and> infoLength + offset < length pmtBytes
             then res_bind (descriptor_loop pmtBytes offset infoLength 0 []) (\<lambda>ds. Ok (offset + infoLength, ds))
             else Ok (offset, [])) (\<lambda>(offset, descriptors).
          Ok (offset, NewPmtElementaryStream elementaryStreamType elementaryPid descriptors)))))))"

lemma parse_es_advances: "parse_es b off = Ok (off', es) \<Longrightarrow> off + 5 \<le> off'"
  by (auto simp: parse_es_def Let_def pmtEsDescriptorStaticLen_def split: if_splits)

function es_loop :: "byte list \<Rightarrow> nat \<Rightarrow> nat \<Rightarrow> pmtElementaryStream list \<Rightarrow> pmtElementaryStream list res" where
  "es_loop pmtBytes bound offset streams =
     (if offset < bound then
        res_bind (parse_es pmtBytes offset) (\<lambda>(offset, es). es_loop pmtBytes bound offset (streams @ [es]))
      else Ok streams)"
  by pat_completeness auto
termination
  by (relation "measure (\<lambda>(b, bound, off, ss). bound - off)") (auto dest: parse_es_advances)

declare es_loop.simps [simp del]

text \<open>
  \<open>es_bound\<close> is \<^verbatim>\<open>PSIHeaderLen+sectionLength-pmtEsDescriptorStaticLen-CrcLen\<close>, a \<^verbatim>\<open>uint16\<close>.  The
  PIDs are those of the streams, in the same order: the source appends to both lists in each turn.
\<close>

definition es_bound :: "u16 \<Rightarrow> nat" where
  "es_bound sl = (PSIHeaderLen + unat sl + 65536 - pmtEsDescriptorStaticLen - CrcLen) mod 65536"

definition parsePMTSection :: "pmt \<Rightarrow> byte list \<Rightarrow> pmt res" where
  "parsePMTSection p pmtBytes =
     res_bind (sectionLength pmtBytes) (\<lambda>sl.
       if length pmtBytes \<le> programInfoLengthOffset + 1 then Err ErrPMTParse
       else res_bind (tableVersionAndCNI pmtBytes) (\<lambda>(version, cni).
         let p = p\<lparr>pmt_versionNumber := version, pmt_currentNextIndicator := cni\<rparr>;
             programInfoLength =
               length12 (pmtBytes ! programInfoLengthOffset) (pmtBytes ! (programInfoLengthOffset + 1))
         in res_bind (es_loop pmtBytes (es_bound sl) (programInfoLengthOffset + 2 + programInfoLength) [])
              (\<lambda>streams. Ok (p\<lparr>pmt_pids := map ElementaryPid streams, pmt_elementaryStreams := streams\<rparr>))))"

function section_loop :: "pmt \<Rightarrow> byte list \<Rightarrow> pmt res" where
  "section_loop p sectionBytes =
     (if length sectionBytes > 2 \<and> sectionBytes ! 0 \<noteq> 0xFF then
        res_bind (sectionLength sectionBytes) (\<lambda>tableLength.
        res_bind (tableID sectionBytes) (\<lambda>tid.
        res_bind (if tid = 2 then
            res_bind (slice sectionBytes 0 (unat (3 + tableLength))) (parsePMTSection p)
          else Ok p) (\<lambda>p.
        res_bind (slice_from sectionBytes (unat (3 + tableLength))) (section_loop p))))
      else Ok p)"
  by pat_completeness auto
termination
  by (relation "measure (\<lambda>(p, s). length s)") (auto dest: next_section_shorter)

declare section_loop.simps [simp del]

definition parseTables :: "pmt \<Rightarrow> byte list \<Rightarrow> pmt res" where
  "parseTables p pmtBytes =
     res_bind (PointerField pmtBytes) (\<lambda>pf.
     res_bind (slice_from pmtBytes (unat (1 + pf))) (section_loop p))"

definition NewPMT :: "byte list \<Rightarrow> pmt res" where
  "NewPMT pmtBytes =
     parseTables \<lparr>pmt_pids = [], pmt_elementaryStreams = [], pmt_versionNumber = 0,
       pmt_currentNextIndicator = False\<rparr> pmtBytes"

definition Pids :: "pmt \<Rightarrow> int list" where "Pids p = pmt_pids p"
definition VersionNumber :: "pmt \<Rightarrow> byte" where "VersionNumber p = pmt_versionNumber p"
definition CurrentNextIndicator :: "pmt \<Rightarrow> bool" where
  "CurrentNextIndicator p = pmt_currentNextIndicator p"
definition ElementaryStreams :: "pmt \<Rightarrow> pmtElementaryStream list" where
  "ElementaryStreams p = pmt_elementaryStreams p"

text \<open>The inner loop of \<open>RemoveElementaryStreams\<close>, which stops at the first match.\<close>

fun remove_first :: "int \<Rightarrow> pmtElementaryStream list \<Rightarrow> pmtElementaryStream list" where
  "remove_first pid [] = []"
| "remove_first pid (s # ss) = (if pid = ElementaryPid s then ss else s # remove_first pid ss)"

definition RemoveElementaryStreams :: "pmt \<Rightarrow> int list \<Rightarrow> pmt" where
  "RemoveElementaryStreams p removePids =
     (let streams = fold remove_first removePids (pmt_elementaryStreams p)
      in p\<lparr>pmt_elementaryStreams := streams, pmt_pids := map ElementaryPid streams\<rparr>)"

fun lags_ebp :: "pmtElementaryStream list \<Rightarrow> int \<Rightarrow> bool" where
  "lags_ebp [] pid = False"
| "lags_ebp (s # ss) pid =
     (if pid = ElementaryPid s then IsStreamWherePresentationLagsEbp (es_type s) else lags_ebp ss pid)"

definition IsPidForStreamWherePresentationLagsEbp :: "pmt \<Rightarrow> int \<Rightarrow> bool" where
  "IsPidForStreamWherePresentationLagsEbp p pid = lags_ebp (pmt_elementaryStreams p) pid"

fun show_streams :: "pmtElementaryStream list \<Rightarrow> string" where
  "show_streams [] = ''''"
| "show_streams (es # ess) = es_String es @ (if ess \<noteq> [] then '','' else '''') @ show_streams ess"

definition pmt_String :: "pmt \<Rightarrow> string" where
  "pmt_String p = ''PMT['' @ show_streams (pmt_elementaryStreams p) @ '']''"

fun pidIn :: "int list \<Rightarrow> int \<Rightarrow> bool" where
  "pidIn [] target = False"
| "pidIn (pid # pids) target = (if pid = target then True else pidIn pids target)"

definition PIDExists :: "pmt \<Rightarrow> int \<Rightarrow> bool" where
  "PIDExists p pid = pidIn (Pids p) pid"

definition CanBuildPMT :: "byte list \<Rightarrow> u16 \<Rightarrow> bool" where
  "CanBuildPMT payload sl = (\<not> length payload < unat sl)"

definition ExtractCRC :: "byte list \<Rightarrow> u32 res" where
  "ExtractCRC payload =
     (if length payload < 4 then Err ErrShortPayload
      else res_bind (SectionLength payload) (\<lambda>sl.
        if \<not> CanBuildPMT payload sl then Err ErrPMTParse
        else let end_pos = PSIHeaderLen + unat sl
             in res_bind (slice payload (end_pos - 4) end_pos) be_uint32))"

definition safeSlice :: "byte list \<Rightarrow> nat \<Rightarrow> nat \<Rightarrow> byte list res" where
  "safeSlice byteArray start end_pos =
     (if end_pos < length byteArray then slice byteArray start end_pos
      else slice byteArray start (length byteArray))"

definition padPacket :: "byte list \<Rightarrow> packet" where
  "padPacket buf =
     fill 0xff (min PacketSize (length buf)) PacketSize (go_copy (replicate PacketSize 0) 0 buf)"

section \<open>The filter\<close>

fun gather_payloads :: "packet list \<Rightarrow> byte list res" where
  "gather_payloads [] = Ok []"
| "gather_payloads (p # ps) =
     (case Payload p of
        Ok pay \<Rightarrow> res_bind (gather_payloads ps) (\<lambda>rest. Ok (pay @ rest))
      | Err e \<Rightarrow> Err ErrNoPayload
      | Panic \<Rightarrow> Panic)"

definition missing_pids :: "pmt \<Rightarrow> int \<Rightarrow> int list \<Rightarrow> int list" where
  "missing_pids unfiltered pmtPid pids =
     filter (\<lambda>pid. \<not> PIDExists unfiltered pid \<and> pid \<noteq> PatPid \<and> pid \<noteq> pmtPid) pids"

text \<open>One turn of the loop over the streams: the next offset and the bytes written so far.\<close>

definition filter_step :: "int list \<Rightarrow> byte list \<Rightarrow> nat \<Rightarrow> byte list \<Rightarrow> (nat \<times> byte list) res" where
  "filter_step pids pmtPayload offset out =
     res_bind (rd pmtPayload ((offset + 1) mod 65536)) (\<lambda>p1.
     res_bind (rd pmtPayload ((offset + 2) mod 65536)) (\<lambda>p2.
     res_bind (rd pmtPayload ((offset + 3) mod 65536)) (\<lambda>i1.
     res_bind (rd pmtPayload ((offset + 4) mod 65536)) (\<lambda>i2.
       let elementaryPid = push_bit 8 (uint (p1 AND 0x1f)) OR uint p2;
           infoLength = length12 i1 i2;
           next_offset = (offset + pmtEsDescriptorStaticLen + infoLength) mod 65536
       in res_bind (if pidIn pids elementaryPid
             then res_bind (slice pmtPayload offset next_offset) (\<lambda>info. Ok (out @ info)) else Ok out)
            (\<lambda>out. Ok (next_offset, out))))))"

partial_function (option) filter_loop ::
  "int list \<Rightarrow> byte list \<Rightarrow> nat \<Rightarrow> nat \<Rightarrow> byte list \<Rightarrow> byte list res option" where
  "filter_loop pids pmtPayload bound offset out =
     (if offset < bound then
        (case filter_step pids pmtPayload offset out of
           Ok x \<Rightarrow> filter_loop pids pmtPayload bound (fst x) (snd x)
         | Err e \<Rightarrow> Some (Err e)
         | Panic \<Rightarrow> Some Panic)
      else Some (Ok out))"

text \<open>The section length and the CRC of the new table; \<open>pointerField\<close> is a byte that wraps.\<close>

definition finish_table :: "byte \<Rightarrow> byte list \<Rightarrow> byte list res" where
  "finish_table pointerField fPMT =
     (let newSectionLength = (length fPMT + 65536 - unat (pointerField - 1)) mod 65536;
          sectionLengthBytes = u16_bytes newSectionLength
      in res_bind (rd fPMT (unat (pointerField + 1))) (\<lambda>b.
         res_bind (wr fPMT (unat (pointerField + 1)) ((b AND 0xf0) OR sectionLengthBytes ! 0)) (\<lambda>fPMT.
         res_bind (wr fPMT (unat (pointerField + 2)) (sectionLengthBytes ! 1)) (\<lambda>fPMT.
         res_bind (slice_from fPMT (unat pointerField)) (\<lambda>table.
           Ok (fPMT @ ComputeCRC table))))))"

fun packetize :: "packet list \<Rightarrow> byte list \<Rightarrow> packet list res" where
  "packetize [] fPMT = Ok []"
| "packetize (pkt # pkts) fPMT =
     res_bind (Header pkt) (\<lambda>header.
       if length fPMT > 0 then
         (if length header > PacketSize then Panic
          else res_bind (safeSlice fPMT 0 (PacketSize - length header)) (\<lambda>toWrite.
            let fPMT = (if length toWrite < length fPMT then drop (length toWrite) fPMT else []);
                out = padPacket (header @ toWrite)
            in res_bind (packetize pkts fPMT) (\<lambda>outs. Ok (out # outs))))
       else Ok [])"

text \<open>
  The loop may not end: \<open>None\<close>.  A result is the packets and the error beside them; \<^verbatim>\<open>nil\<close> packets
  are the empty list.  The error of \<open>NewPMT\<close> is dropped by the source, and the call of a method of
  the \<^verbatim>\<open>nil\<close> table that is left panics.
\<close>

definition filter_table ::
  "packet list \<Rightarrow> int list \<Rightarrow> byte list \<Rightarrow> gots_error option \<Rightarrow> (packet list \<times> gots_error option) res option" where
  "filter_table packets pids pmtPayload returnError =
     (case PointerField pmtPayload of
        Ok pf \<Rightarrow>
          let pointerField = pf + 1
          in (case res_bind (slice pmtPayload 0 (unat pointerField)) (\<lambda>pre.
                   res_bind (slice_from pmtPayload (unat pointerField)) (\<lambda>table.
                   res_bind (slice table 0 (programInfoLengthOffset + 2)) (\<lambda>start.
                   res_bind (sectionLength table) (\<lambda>sl.
                     let programInfoLength =
                           length12 (table ! programInfoLengthOffset) (table ! (programInfoLengthOffset + 1))
                     in res_bind (if programInfoLength \<noteq> 0
                           then slice table (programInfoLengthOffset + 2)
                             (programInfoLengthOffset + 2 + programInfoLength) else Ok []) (\<lambda>info.
                        Ok (table, sl, programInfoLength, pre @ start @ info)))))) of
                Ok (table, sl, programInfoLength, out) \<Rightarrow>
                  map_option (\<lambda>r. res_bind r (\<lambda>fPMT. res_bind (finish_table pointerField fPMT) (\<lambda>fPMT.
                    res_bind (packetize packets fPMT) (\<lambda>outs. Ok (outs, returnError)))))
                    (filter_loop pids table (es_bound sl)
                      (programInfoLengthOffset + 2 + programInfoLength) out)
              | Err e \<Rightarrow> Some (Err e)
              | Panic \<Rightarrow> Some Panic)
      | Err e \<Rightarrow> Some (Err e)
      | Panic \<Rightarrow> Some Panic)"

definition FilterPMTPacketsToPids ::
  "packet list \<Rightarrow> int list \<Rightarrow> (packet list \<times> gots_error option) res option" where
  "FilterPMTPacketsToPids packets pids =
     (if length packets = 0 then Some (Ok ([], None))
      else if length pids = 0 then Some (Ok (packets, None))
      else case gather_payloads packets of
        Err e \<Rightarrow> Some (Ok ([], Some e))
      | Panic \<Rightarrow> Some Panic
      | Ok pmtPayload \<Rightarrow>
          (case NewPMT pmtPayload of
             Ok unfilteredPMT \<Rightarrow>
               let missingPids = missing_pids unfilteredPMT (Pid (packets ! 0)) pids;
                   returnError = (if length missingPids > 0 then Some (ErrPIDNotInPMT missingPids) else None)
               in if length missingPids = length pids then Some (Ok ([], returnError))
                  else filter_table packets pids pmtPayload returnError
           | _ \<Rightarrow> Some Panic))"

section \<open>Recognising and reading the table\<close>

text \<open>\<open>None\<close> is the \<^verbatim>\<open>nil\<close> table.\<close>

definition IsPMT :: "packet \<Rightarrow> pat option \<Rightarrow> bool res" where
  "IsPMT pkt pat =
     (case pat of
        None \<Rightarrow> Err ErrNilPAT
      | Some pat \<Rightarrow> res_bind (ProgramMap pat) (\<lambda>pmtMap.
          let pid = Pid pkt in Ok (\<exists>(pn, mapPID) \<in> set pmtMap. pid = mapPID)))"

function ReadPMT_loop :: "accumulator \<Rightarrow> byte_reader \<Rightarrow> int \<Rightarrow> byte_reader \<times> pmt res" where
  "ReadPMT_loop pmtAcc r pid =
     (case ReadFull r PacketSize of
        (r', Ok pkt) \<Rightarrow>
          if PID pkt \<noteq> pid then ReadPMT_loop pmtAcc r' pid
          else (case acc_WritePacket PmtAccumulatorDoneFunc pmtAcc pkt of
             Ok (pmtAcc', n, err) \<Rightarrow>
               if err = Some ErrAccumulatorDone then
                 (case NewPMT (acc_Bytes pmtAcc') of
                    Ok p \<Rightarrow>
                      if length (Pids p) = 0 then ReadPMT_loop NewAccumulator r' pid else (r', Ok p)
                  | Err e \<Rightarrow> (r', Err e)
                  | Panic \<Rightarrow> (r', Panic))
               else (case err of Some e \<Rightarrow> (r', Err e) | None \<Rightarrow> ReadPMT_loop pmtAcc' r' pid)
           | Err e \<Rightarrow> (r', Err e)
           | Panic \<Rightarrow> (r', Panic))
      | (r', Err err) \<Rightarrow>
          if err = IoEOF \<or> err = IoErrUnexpectedEOF then (r', Err ErrPMTNotFound) else (r', Err err)
      | (r', Panic) \<Rightarrow> (r', Panic))"
  by pat_completeness auto
termination
  by (relation "measure (\<lambda>(a, r, pid). length (br_left r))") (auto dest: ReadFull_shorter [OF sym])

declare ReadPMT_loop.simps [simp del]

definition ReadPMT :: "byte_reader \<Rightarrow> int \<Rightarrow> byte_reader \<times> pmt res" where
  "ReadPMT r pid = ReadPMT_loop NewAccumulator r pid"

section \<open>Lemmas: no read past the end\<close>

lemma res_bind_Panic_iff: "res_bind m f = Panic \<longleftrightarrow> m = Panic \<or> (\<exists>x. m = Ok x \<and> f x = Panic)"
  by (cases m) auto

lemma done_loop_total: "\<exists>d. done_loop s = Ok d"
proof (induction s rule: done_loop.induct)
  case (1 s)
  show ?case
  proof (cases "length s > 2 \<and> s ! 0 \<noteq> 0xFF")
    case True
    then obtain tlen where t: "sectionLength s = Ok tlen" by (simp add: sectionLength_def)
    show ?thesis
    proof (cases "length s < unat tlen + 3")
      case False
      then have sl: "slice_from s (unat (3 + tlen)) = Ok (drop (unat (3 + tlen)) s)"
        by (simp add: unat_3_plus [OF t] slice_def)
      from "1.IH" [OF True t False sl] show ?thesis
        using True t False sl by (subst done_loop.simps) simp
    next
      case True': True
      show ?thesis using True True' t by (subst done_loop.simps) auto
    qed
  qed (subst done_loop.simps, auto)
qed

lemma PmtAccumulatorDoneFunc_total: "PmtAccumulatorDoneFunc b \<noteq> Panic" "PmtAccumulatorDoneFunc b \<noteq> Err e"
proof -
  have "\<exists>d. PmtAccumulatorDoneFunc b = Ok d"
    using done_loop_total [of "drop (1 + unat (b ! 0)) b"]
    by (auto simp: PmtAccumulatorDoneFunc_def PointerField_def Let_def rd_def slice_def)
  then show "PmtAccumulatorDoneFunc b \<noteq> Panic" "PmtAccumulatorDoneFunc b \<noteq> Err e" by auto
qed

text \<open>The completion function meets the interface of the accumulator.\<close>

interpretation pmt_done: done_function PmtAccumulatorDoneFunc
  by unfold_locales (rule PmtAccumulatorDoneFunc_total)

lemma descriptor_loop_safe:
  "offset + infoLength < length b \<Longrightarrow> descriptor_loop b offset infoLength d ds \<noteq> Panic"
proof (induction b offset infoLength d ds rule: descriptor_loop.induct)
  case (1 b offset info d ds)
  show ?case
  proof (cases "d < info")
    case True
    with "1.prems" have l: "offset + d + 1 < length b" by linarith
    with True "1.IH" [OF True] "1.prems" show ?thesis
      by (subst descriptor_loop.simps) (auto simp: Let_def slice_def)
  qed (subst descriptor_loop.simps, simp)
qed

lemma parse_es_safe: "offset + 4 < length b \<Longrightarrow> parse_es b offset \<noteq> Panic"
  using descriptor_loop_safe [of "offset + 5" _ b 0 "[]"]
  by (auto simp: parse_es_def Let_def pmtEsDescriptorStaticLen_def add.commute res_bind_Panic_iff split: if_splits)

lemma es_loop_safe: "bound + 4 \<le> length b \<Longrightarrow> es_loop b bound offset ss \<noteq> Panic"
proof (induction b bound offset ss rule: es_loop.induct)
  case (1 b bound offset ss)
  show ?case
  proof (cases "offset < bound")
    case True
    then have "parse_es b offset \<noteq> Panic" using "1.prems" by (intro parse_es_safe) simp
    moreover have "es_loop b bound o' (ss @ [es]) \<noteq> Panic" if "parse_es b offset = Ok (o', es)" for o' es
      using "1.IH" [OF True that refl "1.prems"] .
    ultimately show ?thesis using True
      by (subst es_loop.simps) (auto simp: res_bind_Panic_iff)
  qed (subst es_loop.simps, simp)
qed

lemma es_bound_eq: "5 \<le> unat sl \<Longrightarrow> unat sl \<le> 1023 \<Longrightarrow> es_bound sl = unat sl - 5"
  using mod_less [of "unat sl - 5" 65536] mod_add_self2 [of "unat sl - 5" 65536]
  by (simp add: es_bound_def pmt_consts)

lemma parsePMTSection_safe:
  assumes "sectionLength b = Ok sl" "length b = unat sl + 3"
  shows "parsePMTSection p b \<noteq> Panic"
proof (cases "length b \<le> 11")
  case False
  then have "es_bound sl + 4 \<le> length b"
    using es_bound_eq [of sl] sectionLength_bound [OF assms(1)] assms(2) by simp
  from es_loop_safe [OF this] False assms(1) show ?thesis
    by (auto simp: parsePMTSection_def pmt_consts tableVersionAndCNI_def Let_def res_bind_Panic_iff)
qed (use assms in \<open>simp add: parsePMTSection_def pmt_consts\<close>)

lemma sectionLength_take: "3 \<le> n \<Longrightarrow> 3 \<le> length s \<Longrightarrow> sectionLength (take n s) = sectionLength s"
  by (simp add: sectionLength_def)

lemma section_loop_safe: "done_loop s = Ok True \<Longrightarrow> section_loop p s \<noteq> Panic"
proof (induction p s rule: section_loop.induct)
  case (1 p s)
  show ?case
  proof (cases "length s > 2 \<and> s ! 0 \<noteq> 0xFF")
    case True
    then obtain tlen where t: "sectionLength s = Ok tlen" by (simp add: sectionLength_def)
    note u = unat_3_plus [OF t]
    from "1.prems" True t have l: "unat tlen + 3 \<le> length s"
      by (subst (asm) done_loop.simps) (auto split: if_splits)
    then have dn: "slice_from s (unat (3 + tlen)) = Ok (drop (unat tlen + 3) s)"
      by (simp add: u slice_def)
    from "1.prems" True t l have nd: "done_loop (drop (unat tlen + 3) s) = Ok True"
      by (subst (asm) done_loop.simps) (auto simp: dn split: if_splits)
    have tid: "tableID s = Ok (s ! 0)" using True by (auto simp: tableID_def rd_def)
    have sl: "slice s 0 (unat (3 + tlen)) = Ok (take (unat tlen + 3) s)" using l by (simp add: u slice_def)
    have ps: "parsePMTSection p (take (unat tlen + 3) s) \<noteq> Panic"
      using l t sectionLength_take [of "unat tlen + 3" s] by (intro parsePMTSection_safe) simp_all
    have nxt: "section_loop q (drop (unat tlen + 3) s) \<noteq> Panic"
      if "(if s ! 0 = 2 then res_bind (slice s 0 (unat (3 + tlen))) (parsePMTSection p) else Ok p) = Ok q" for q
      by (rule "1.IH" [OF True t tid that dn nd])
    show ?thesis using True t tid dn sl ps nxt
      by (subst section_loop.simps) (auto simp: res_bind_Panic_iff split: if_splits)
  qed (subst section_loop.simps, auto)
qed

lemma unat_1_plus: "w \<noteq> 255 \<Longrightarrow> unat (1 + w :: byte) = 1 + unat w"
proof -
  assume "w \<noteq> 255"
  moreover have "w = 255" if "1 + w = 0"
  proof -
    have "w = - 1" using that by (metis add_eq_0_iff)
    then show ?thesis by simp
  qed
  ultimately have "1 + w \<noteq> 0" by blast
  then show ?thesis by (simp add: unatSuc)
qed

text \<open>A finished accumulation is parsed without a panic.  A pointer field of 255 makes the parser
  start at the pointer field itself, which reads as stuffing.\<close>

lemma NewPMT_safe:
  assumes "PmtAccumulatorDoneFunc b = Ok True"
  shows "NewPMT b \<noteq> Panic"
proof -
  from assms have b: "0 < length b" "1 + unat (b ! 0) \<le> length b" "done_loop (drop (1 + unat (b ! 0)) b) = Ok True"
    by (auto simp: PmtAccumulatorDoneFunc_def PointerField_def Let_def rd_def slice_def split: if_splits)
  have "section_loop p (drop (unat (1 + b ! 0)) b) \<noteq> Panic" for p
  proof (cases "b ! 0 = 255")
    case True
    then show ?thesis by (subst section_loop.simps) (simp add: b(1))
  next
    case False
    then have "unat (1 + b ! 0) = 1 + unat (b ! 0)" by (rule unat_1_plus)
    with section_loop_safe [OF b(3)] show ?thesis by simp
  qed
  moreover have "unat (1 + b ! 0) \<le> length b"
    using b(1,2) unat_1_plus [of "b ! 0"] by (cases "b ! 0 = 255") simp_all
  ultimately show ?thesis using b(1) by (auto simp: NewPMT_def parseTables_def PointerField_def rd_def slice_def)
qed


section \<open>Lemmas: the reader\<close>

lemma acc_written_done:
  assumes "wf_packet p" "acc_state a \<noteq> stateDone" "acc_WritePacket f a p = Ok (a', n, Some ErrAccumulatorDone)"
    and "\<And>b. f b \<noteq> Err ErrAccumulatorDone"
  shows "f (acc_Bytes a') = Ok True"
proof -
  have "Payload p \<noteq> Err ErrAccumulatorDone" by (auto simp: Payload_def Let_def slice_def)
  then show ?thesis using assms unfolding acc_WritePacket_cases acc_Bytes_eq
    by (auto simp: acc_add_def Let_def split: res.splits if_splits)
qed

lemma acc_written_more:
  assumes "wf_packet p" "acc_state a \<noteq> stateDone" "acc_WritePacket f a p = Ok (a', n, None)"
  shows "acc_state a' \<noteq> stateDone"
  using assms(2,3) unfolding acc_WritePacket_cases
  by (auto simp: acc_add_def Let_def split: res.splits if_splits)

lemma ReadFull_wf: "ReadFull r PacketSize = (r', Ok p) \<Longrightarrow> wf_packet p"
  by (auto simp: ReadFull_def wf_packet_def PacketSize_def split: if_splits)

lemma ReadFull_not_Panic: "ReadFull r n \<noteq> (r', Panic)"
  by (auto simp: ReadFull_def)

lemma ReadPMT_loop_safe: "acc_state a \<noteq> stateDone \<Longrightarrow> snd (ReadPMT_loop a r pid) \<noteq> Panic"
proof (induction a r pid rule: ReadPMT_loop.induct)
  case (1 a r pid)
  obtain r' x where rf: "ReadFull r PacketSize = (r', x)" by (cases "ReadFull r PacketSize")
  show ?case
  proof (cases x)
    case (Ok pkt)
    note rf = rf [unfolded Ok]
    show ?thesis
    proof (cases "PID pkt \<noteq> pid")
      case True
      with "1.IH"(1) [OF rf [symmetric] refl True "1.prems"] rf show ?thesis
        by (subst ReadPMT_loop.simps) simp
    next
      case False
      note wf = ReadFull_wf [OF rf]
      obtain a' n err where w: "acc_WritePacket PmtAccumulatorDoneFunc a pkt = Ok (a', n, err)"
        using pmt_done.run_total [of "[pkt]" a] wf by auto
      show ?thesis
      proof (cases "err = Some ErrAccumulatorDone")
        case fin: True
        have "PmtAccumulatorDoneFunc (acc_Bytes a') = Ok True"
          by (rule acc_written_done [OF wf "1.prems" w [unfolded fin]]) (rule PmtAccumulatorDoneFunc_total)
        note nopanic = NewPMT_safe [OF this]
        have new: "acc_state NewAccumulator \<noteq> stateDone" by (simp add: NewAccumulator_def)
        show ?thesis
        proof (cases "NewPMT (acc_Bytes a')")
          case (Ok p)
          with "1.IH"(2) [OF rf [symmetric] refl False w _ _ fin Ok] new rf w False fin show ?thesis
            by (subst ReadPMT_loop.simps) (simp split: if_splits)
        qed (use rf w False fin nopanic in \<open>subst ReadPMT_loop.simps, simp\<close>)+
      next
        case nd: False
        show ?thesis
        proof (cases err)
          case None
          have "acc_state a' \<noteq> stateDone" by (rule acc_written_more [OF wf "1.prems" w [unfolded None]])
          with "1.IH"(3) [OF rf [symmetric] refl False w _ _ nd None] rf w False nd None show ?thesis
            by (subst ReadPMT_loop.simps) simp
        qed (use rf w False nd in \<open>subst ReadPMT_loop.simps, simp\<close>)
      qed
    qed
  next
    case (Err e)
    then show ?thesis using rf by (subst ReadPMT_loop.simps) simp
  next
    case Panic
    then show ?thesis using rf ReadFull_not_Panic by metis
  qed
qed

section \<open>Properties\<close>

text \<open>C4: whatever bytes a stream holds, \<open>ReadPMT\<close> returns a table or an error and never panics: it calls
  the parser only on what \<open>PmtAccumulatorDoneFunc\<close> accepted, and the parser reads no byte past the
  end of such a payload.\<close>

theorem ReadPMT_never_panics:
  "snd (ReadPMT r pid) \<noteq> Panic \<and> (PmtAccumulatorDoneFunc b = Ok True \<longrightarrow> NewPMT b \<noteq> Panic)"
proof -
  have "snd (ReadPMT r pid) \<noteq> Panic"
    unfolding ReadPMT_def by (rule ReadPMT_loop_safe) (simp add: NewAccumulator_def)
  with NewPMT_safe [of b] show ?thesis by blast
qed

theorem ReadPMT_never_panics_witness:
  "NewPMT [0, 0xFF] \<noteq> Panic \<and> PmtAccumulatorDoneFunc [0, 0xFF] = Ok True"
proof -
  have "PmtAccumulatorDoneFunc [0, 0xFF] = Ok True"
    by (simp add: PmtAccumulatorDoneFunc_def PointerField_def slice_def done_loop.simps)
  then show ?thesis
    using ReadPMT_never_panics [of "\<lparr>br_left = [], br_end = IoEOF\<rparr>" 0 "[0, 0xFF]"] by blast
qed

end
