(* ===== verification/Psi_Filter.thy ===== *)
theory Psi_Filter
  imports Psi_PMT
begin

text \<open>
  Program map tables built from a list of streams, and what \<^verbatim>\<open>NewPMT\<close> and \<^verbatim>\<open>FilterPMTPacketsToPids\<close> of
  \<^verbatim>\<open>gots/psi/pmt.go\<close> (modelled in \<^theory_text>\<open>Psi_PMT\<close>) make of them.
\<close>

section \<open>Sections built from a list of streams\<close>

type_synonym stream = "byte \<times> int \<times> pmtDescriptor list"

definition desc_bytes :: "pmtDescriptor \<Rightarrow> byte list" where
  "desc_bytes d = desc_tag d # of_nat (length (desc_data d)) # desc_data d"

definition len12_bytes :: "nat \<Rightarrow> byte list" where
  "len12_bytes n = [0xF0 OR of_nat (n div 256), of_nat (n mod 256)]"

definition es_info :: "pmtDescriptor list \<Rightarrow> byte list" where
  "es_info ds = concat (map desc_bytes ds)"

definition es_bytes :: "stream \<Rightarrow> byte list" where
  "es_bytes s = (case s of (t, pid, ds) \<Rightarrow>
     [t, 0xE0 OR word_of_int (pid div 256), word_of_int pid] @ len12_bytes (length (es_info ds)) @ es_info ds)"

definition stream_ok :: "stream \<Rightarrow> bool" where
  "stream_ok s = (case s of (t, pid, ds) \<Rightarrow>
     0 \<le> pid \<and> pid < 8192 \<and> length (es_info ds) < 4096 \<and> (\<forall>d \<in> set ds. length (desc_data d) < 256))"

definition es_of :: "stream \<Rightarrow> pmtElementaryStream" where
  "es_of s = (case s of (t, pid, ds) \<Rightarrow> NewPmtElementaryStream t pid ds)"

definition pid_of :: "stream \<Rightarrow> int" where "pid_of s = fst (snd s)"

text \<open>\<open>mid\<close> is the seven bytes from the program number to the PCR PID, the version in the third.\<close>

definition pmt_length :: "byte list \<Rightarrow> stream list \<Rightarrow> nat" where
  "pmt_length pinfo ss = 13 + length pinfo + length (concat (map es_bytes ss))"

definition pmt_body :: "byte list \<Rightarrow> byte list \<Rightarrow> stream list \<Rightarrow> byte list" where
  "pmt_body mid pinfo ss =
     TableHeader_Data \<lparr>th_TableID = 2, th_SectionSyntaxIndicator = True, th_PrivateIndicator = False,
       th_SectionLength = of_nat (pmt_length pinfo ss)\<rparr>
     @ mid @ len12_bytes (length pinfo) @ pinfo @ concat (map es_bytes ss)"

definition pmt_section :: "byte list \<Rightarrow> byte list \<Rightarrow> stream list \<Rightarrow> byte list" where
  "pmt_section mid pinfo ss = pmt_body mid pinfo ss @ ComputeCRC (pmt_body mid pinfo ss)"

definition pmt_ok :: "byte list \<Rightarrow> byte list \<Rightarrow> stream list \<Rightarrow> bool" where
  "pmt_ok mid pinfo ss \<longleftrightarrow> length mid = 7 \<and> pmt_length pinfo ss \<le> 1021 \<and> (\<forall>s \<in> set ss. stream_ok s)"

section \<open>Fields\<close>

lemma length12_bytes:
  assumes "n < 4096"
  shows "length12 (0xF0 OR of_nat (n div 256)) (of_nat (n mod 256)) = n"
proof -
  have f: "(0xF0 OR of_nat (n div 256)) AND 0x0f = (of_nat (n div 256) :: byte)"
  proof -
    have "n div 256 < 16" using assms by linarith
    then have "take_bit 4 (of_nat (n div 256) :: byte) = of_nat (n div 256)"
      by (intro take_bit_word_small) (simp add: unat_of_nat)
    moreover have "(0xF0 :: byte) = push_bit 4 (mask 4)" by (simp add: mask_eq_exp_minus_1)
    then have "take_bit 4 (0xF0 OR of_nat (n div 256) :: byte) = take_bit 4 (of_nat (n div 256))"
      by (simp only:) (rule byte_eqI; simp add: bit_simps)
    ultimately show ?thesis unfolding and_numeral_mask by simp
  qed
  have d: "n div 256 < 256" using assms by linarith
  have "n div 256 = drop_bit 8 n" "n mod 256 = take_bit 8 n"
    by (simp_all add: drop_bit_eq_div take_bit_eq_mod)
  then have "push_bit 8 (n div 256) OR (n mod 256) = n" by (auto simp: bit_simps intro!: bit_eqI)
  then show ?thesis unfolding length12_def f using d by (simp add: unat_of_nat)
qed

lemma pid_bytes:
  assumes "0 \<le> n" "n < 8192"
  shows "push_bit 8 (uint ((0xE0 OR word_of_int (n div 256) :: byte) AND 0x1f)) OR uint (word_of_int n :: byte) = n"
  using pid_pair [OF assms] by (simp add: unsigned_and_eq)

lemma length_es_bytes: "length (es_bytes (t, pid, ds)) = 5 + length (es_info ds)"
  by (simp add: es_bytes_def len12_bytes_def)

lemma es_bytes_5: "5 \<le> length (es_bytes s)"
  by (cases s) (simp add: length_es_bytes)

section \<open>Parsing what was built\<close>

lemma descriptor_loop_built:
  assumes "\<forall>d \<in> set ds. length (desc_data d) < 256" "b = pre @ es_info ds @ post" "post \<noteq> []"
    "length pre = off + d" "info = d + length (es_info ds)"
  shows "descriptor_loop b off info d acc = Ok (acc @ ds)"
  using assms
proof (induction ds arbitrary: pre d acc)
  case (Cons x ds)
  let ?n = "length (desc_data x)"
  let ?t = "es_info ds @ post"
  from Cons.prems(1) have n: "unat (of_nat ?n :: byte) = ?n" by (simp add: unat_of_nat)
  have b: "b = pre @ (desc_tag x # of_nat ?n # desc_data x) @ ?t"
    using Cons.prems(2) by (simp add: es_info_def desc_bytes_def)
  then have l: "length b = off + d + 2 + ?n + length ?t" using Cons.prems(4) by simp
  have t: "0 < length ?t" using Cons.prems(3) by simp
  have r: "rd b (off + d) = Ok (desc_tag x)" "rd b (off + d + 1) = Ok (of_nat ?n)"
    using Cons.prems(4) unfolding b by (simp_all add: rd_def nth_append)
  have sl: "slice b (off + d + 2) (off + d + 2 + ?n) = Ok (desc_data x)"
    using Cons.prems(4) unfolding b by (simp add: slice_def)
  have i: "d < info" "info = d + 2 + ?n + length (es_info ds)"
    using Cons.prems(5) by (simp_all add: es_info_def desc_bytes_def)
  have "descriptor_loop b off info d acc =
      descriptor_loop b off info (d + 2 + ?n) (acc @ [NewPmtDescriptor (desc_tag x) (desc_data x)])"
    using i(1) r sl l t n by (subst descriptor_loop.simps) (simp add: Let_def)
  also have "\<dots> = Ok ((acc @ [x]) @ ds)"
  proof -
    have "NewPmtDescriptor (desc_tag x) (desc_data x) = x" by (simp add: NewPmtDescriptor_def)
    then show ?thesis
      using Cons.IH [of "pre @ desc_bytes x" "d + 2 + ?n" "acc @ [x]"] Cons.prems(1,3,4) i b
      by (simp add: desc_bytes_def)
  qed
  finally show ?case by simp
qed (simp add: descriptor_loop.simps es_info_def)

lemma parse_es_built:
  assumes "stream_ok s" "b = pre @ es_bytes s @ post" "post \<noteq> []"
  shows "parse_es b (length pre) = Ok (length pre + length (es_bytes s), es_of s)"
proof -
  obtain t pid ds where s: "s = (t, pid, ds)" by (cases s)
  let ?i = "length (es_info ds)"
  from assms(1) have ok: "0 \<le> pid" "pid < 8192" "?i < 4096" "\<forall>d \<in> set ds. length (desc_data d) < 256"
    by (auto simp: stream_ok_def s)
  have b: "b = pre @ [t, 0xE0 OR word_of_int (pid div 256), word_of_int pid, 0xF0 OR of_nat (?i div 256),
      of_nat (?i mod 256)] @ es_info ds @ post"
    using assms(2) by (simp add: s es_bytes_def len12_bytes_def)
  have l: "length b = length pre + 5 + ?i + length post" by (simp add: b)
  have r: "rd b (length pre) = Ok t" "rd b (length pre + 1) = Ok (0xE0 OR word_of_int (pid div 256))"
    "rd b (length pre + 2) = Ok (word_of_int pid)" "rd b (length pre + 3) = Ok (0xF0 OR of_nat (?i div 256))"
    "rd b (length pre + 4) = Ok (of_nat (?i mod 256))"
    unfolding b by (simp_all add: rd_def nth_append)
  have d: "descriptor_loop b (length pre + 5) ?i 0 [] = Ok ds"
    using descriptor_loop_built [OF ok(4), of b "pre @ [t, 0xE0 OR word_of_int (pid div 256), word_of_int pid,
      0xF0 OR of_nat (?i div 256), of_nat (?i mod 256)]" post "length pre + 5" 0 ?i "[]"] assms(3) b by simp
  have z: "ds = []" if "?i = 0" using that by (cases ds) (simp_all add: es_info_def desc_bytes_def)
  show ?thesis
    unfolding parse_es_def r res_bind.simps Let_def length12_bytes [OF ok(3)] pid_bytes [OF ok(1,2)]
    using d z l assms(3) by (auto simp: s es_of_def length_es_bytes pmtEsDescriptorStaticLen_def)
qed

lemma es_loop_built:
  assumes "\<forall>s \<in> set ss. stream_ok s" "b = pre @ concat (map es_bytes ss) @ post" "length post = 4"
    "bound + 4 = length pre + length (concat (map es_bytes ss))"
  shows "es_loop b bound (length pre) acc = Ok (acc @ map es_of ss)"
  using assms
proof (induction ss arbitrary: pre acc)
  case (Cons s ss)
  let ?t = "concat (map es_bytes ss) @ post"
  have b: "b = pre @ es_bytes s @ ?t" using Cons.prems(2) by simp
  have t: "?t \<noteq> []" using Cons.prems(3) by auto
  from parse_es_built [OF _ b t] Cons.prems(1)
  have p: "parse_es b (length pre) = Ok (length pre + length (es_bytes s), es_of s)" by simp
  have lt: "length pre < bound" using Cons.prems(4) es_bytes_5 [of s] by simp
  have "es_loop b bound (length pre) acc = es_loop b bound (length (pre @ es_bytes s)) (acc @ [es_of s])"
    using lt p by (subst es_loop.simps) simp
  also have "\<dots> = Ok ((acc @ [es_of s]) @ map es_of ss)"
    using Cons.prems b by (intro Cons.IH) simp_all
  finally show ?case by simp
qed (simp add: es_loop.simps)

lemma unat_pmt_length:
  assumes "pmt_length pinfo ss \<le> 1021"
  shows "unat (of_nat (pmt_length pinfo ss) :: u16) = pmt_length pinfo ss"
  using assms by (simp only: unat_of_nat) simp

lemma sectionLength_built:
  assumes "pmt_length pinfo ss \<le> 1021"
  shows "sectionLength (pmt_body mid pinfo ss @ rest) = Ok (of_nat (pmt_length pinfo ss))"
proof -
  have "take_bit 10 (of_nat (pmt_length pinfo ss) :: u16) = of_nat (pmt_length pinfo ss)"
    by (rule take_bit_word_small) (simp only: unat_pmt_length [OF assms], use assms in simp)
  then show ?thesis unfolding pmt_body_def append_assoc sectionLength_Data by simp
qed

lemma length_pmt_body: "length mid = 7 \<Longrightarrow> length (pmt_body mid pinfo ss) + 1 = pmt_length pinfo ss"
  unfolding pmt_body_def len12_bytes_def pmt_length_def by (simp add: TableHeader_Data_def)

lemma length_pmt_section: "length mid = 7 \<Longrightarrow> length (pmt_section mid pinfo ss) = 3 + pmt_length pinfo ss"
  using length_pmt_body [of mid pinfo ss] by (simp add: pmt_section_def)

lemma sectionLength_section:
  assumes "pmt_length pinfo ss \<le> 1021"
  shows "sectionLength (pmt_section mid pinfo ss @ rest) = Ok (of_nat (pmt_length pinfo ss))"
  unfolding pmt_section_def append_assoc by (rule sectionLength_built [OF assms])

lemma section_nth:
  assumes "length mid = 7"
  shows "(pmt_section mid pinfo ss @ rest) ! 0 = 2"
    "pmt_section mid pinfo ss ! 5 = mid ! 2"
    "pmt_section mid pinfo ss ! 10 = 0xF0 OR of_nat (length pinfo div 256)"
    "pmt_section mid pinfo ss ! 11 = of_nat (length pinfo mod 256)"
  using assms by (simp_all add: pmt_section_def pmt_body_def TableHeader_Data_def len12_bytes_def nth_append)

definition pmt_parsed :: "byte list \<Rightarrow> stream list \<Rightarrow> pmt" where
  "pmt_parsed mid ss = \<lparr>pmt_pids = map pid_of ss, pmt_elementaryStreams = map es_of ss,
     pmt_versionNumber = drop_bit 1 (mid ! 2 AND 0x3E), pmt_currentNextIndicator = (mid ! 2 AND 0x1 = 0x01)\<rparr>"

lemma ElementaryPid_es_of [simp]: "ElementaryPid (es_of s) = pid_of s"
  by (cases s) (simp add: es_of_def pid_of_def NewPmtElementaryStream_def ElementaryPid_def)

lemma parsePMTSection_built:
  assumes "pmt_ok mid pinfo ss"
  shows "parsePMTSection p (pmt_section mid pinfo ss) = Ok (pmt_parsed mid ss)"
proof -
  let ?b = "pmt_section mid pinfo ss"
  from assms have ok: "length mid = 7" "pmt_length pinfo ss \<le> 1021" "\<forall>s \<in> set ss. stream_ok s"
    by (simp_all add: pmt_ok_def)
  have pl: "length pinfo < 4096" using ok(2) by (simp add: pmt_length_def)
  have sl: "sectionLength ?b = Ok (of_nat (pmt_length pinfo ss))"
    using sectionLength_section [OF ok(2), of mid "[]"] by simp
  have l: "length ?b = 3 + pmt_length pinfo ss" by (rule length_pmt_section [OF ok(1)])
  have eb: "es_bound (of_nat (pmt_length pinfo ss)) = pmt_length pinfo ss - 5"
    using es_bound_eq [of "of_nat (pmt_length pinfo ss)"] ok(2) unfolding unat_pmt_length [OF ok(2)]
    by (simp add: pmt_length_def)
  let ?pre = "TableHeader_Data \<lparr>th_TableID = 2, th_SectionSyntaxIndicator = True, th_PrivateIndicator = False,
       th_SectionLength = of_nat (pmt_length pinfo ss)\<rparr> @ mid @ len12_bytes (length pinfo) @ pinfo"
  have "es_loop ?b (pmt_length pinfo ss - 5) (length ?pre) [] = Ok ([] @ map es_of ss)"
    by (rule es_loop_built [OF ok(3), where post = "ComputeCRC (pmt_body mid pinfo ss)"])
      (use ok(1) in \<open>simp_all add: pmt_section_def pmt_body_def pmt_length_def len12_bytes_def\<close>)
  then have es: "es_loop ?b (pmt_length pinfo ss - 5) (12 + length pinfo) [] = Ok (map es_of ss)"
    using ok(1) by (simp add: len12_bytes_def)
  have "5 < length ?b" "11 < length ?b" by (simp_all add: l pmt_length_def)
  then show ?thesis
    unfolding parsePMTSection_def sl res_bind.simps eb tableVersionAndCNI_def pmt_consts
    using es length12_bytes [OF pl] section_nth [OF ok(1), of pinfo ss]
    by (simp add: Let_def pmt_parsed_def)
qed

definition stuffing :: "byte list \<Rightarrow> bool" where
  "stuffing rest \<longleftrightarrow> length rest \<le> 2 \<or> rest ! 0 = 0xFF"

lemma built_is_parsed:
  assumes "pmt_ok mid pinfo ss" "stuffing rest"
  shows "NewPMT (0 # pmt_section mid pinfo ss @ rest) = Ok (pmt_parsed mid ss)"
    "PmtAccumulatorDoneFunc (0 # pmt_section mid pinfo ss @ rest) = Ok True"
proof -
  let ?s = "pmt_section mid pinfo ss"
  from assms have ok: "length mid = 7" "pmt_length pinfo ss \<le> 1021" by (simp_all add: pmt_ok_def)
  note l = length_pmt_section [OF ok(1), of pinfo ss]
  note sl = sectionLength_section [OF ok(2), of mid rest]
  have u: "unat (3 + of_nat (pmt_length pinfo ss) :: u16) = length ?s"
    using unat_3_plus [OF sl] unat_pmt_length [OF ok(2)] l by simp
  have c: "length (?s @ rest) > 2 \<and> (?s @ rest) ! 0 \<noteq> 0xFF"
    using l section_nth(1) [OF ok(1)] by simp
  have st: "section_loop q rest = Ok q" "done_loop rest = Ok True" for q
    using assms(2) by (subst section_loop.simps done_loop.simps, auto simp: stuffing_def)+
  have tid: "tableID (?s @ rest) = Ok 2"
    using section_nth(1) [OF ok(1)] l unfolding tableID_def by (simp add: rd_def)
  have "section_loop p (?s @ rest) = Ok (pmt_parsed mid ss)" for p
    using c sl tid u parsePMTSection_built [OF assms(1)] st by (subst section_loop.simps) (simp add: slice_def)
  then show "NewPMT (0 # ?s @ rest) = Ok (pmt_parsed mid ss)"
    by (simp add: NewPMT_def parseTables_def PointerField_def slice_def)
  have "done_loop (?s @ rest) = Ok True"
    using c sl u st unat_pmt_length [OF ok(2)] l by (subst done_loop.simps) (simp add: slice_def)
  then show "PmtAccumulatorDoneFunc (0 # ?s @ rest) = Ok True"
    by (simp add: PmtAccumulatorDoneFunc_def PointerField_def slice_def)
qed

section \<open>The filter\<close>

lemma gather_payloads_Cons_Ok:
  "gather_payloads (p # ps) = Ok pay \<longleftrightarrow>
     (\<exists>a b. Payload p = Ok a \<and> gather_payloads ps = Ok b \<and> pay = a @ b)"
  by (cases "Payload p") auto

text \<open>A packet with another payload of at most the same length, stuffed at its end.\<close>

lemma padPacket_eq: "length b \<le> 188 \<Longrightarrow> padPacket b = b @ replicate (188 - length b) 0xFF"
  by (rule nth_equalityI)
    (auto simp: padPacket_def PacketSize_def nth_fill go_copy_def nth_append min_def)

lemma repacked:
  assumes "wf_packet p" "Payload p = Ok pay" "Header p = Ok h" "length d \<le> length pay"
  shows "wf_packet (padPacket (h @ d))" "Header (padPacket (h @ d)) = Ok h"
    "Payload (padPacket (h @ d)) = Ok (d @ replicate (length pay - length d) 0xFF)"
proof -
  from Payload_Header_split [OF assms(1)] assms(2,3)
  have hp: "HasPayload p" "h @ pay = p" "length h = payloadStart p" by simp_all
  have l: "length h + length pay = 188"
    using hp(2) assms(1) by (metis length_append wf_packet_def PacketSize_def)
  let ?q = "padPacket (h @ d)"
  have q: "?q = h @ d @ replicate (length pay - length d) 0xFF"
    using padPacket_eq [of "h @ d"] l assms(4) by simp
  have h4: "4 \<le> length h" using hp(3) by (simp add: payloadStart_def)
  have pre: "?q ! i = p ! i" if "i < length h" for i
    using that q hp(2) [symmetric] by (simp add: nth_append)
  have n3: "?q ! 3 = p ! 3" using h4 by (intro pre) simp
  have n4: "?q ! 4 = p ! 4" if "ContainsAdaptationField p"
  proof -
    have "4 < length h" using hp(3) that by (simp add: payloadStart_def)
    then show ?thesis by (rule pre)
  qed
  have af: "ContainsAdaptationField ?q = ContainsAdaptationField p" "ContainsPayload ?q"
    using n3 hp(1) by (simp_all add: ContainsAdaptationField_def ContainsPayload_def accessors_agree(3) [symmetric])
  then have ps: "payloadStart ?q = length h" using n4 hp(3) by (simp add: payloadStart_def)
  show "wf_packet ?q" using q l assms(4) by (simp add: wf_packet_def PacketSize_def)
  show "Header ?q = Ok h" unfolding Header_def ps by (simp add: q slice_def)
  show "Payload ?q = Ok (d @ replicate (length pay - length d) 0xFF)"
    using af(2) unfolding Payload_def ps by (simp add: q slice_def)
qed

lemma packetize_payloads:
  assumes "\<forall>p \<in> set ps. wf_packet p" "gather_payloads ps = Ok pay" "length d \<le> length pay"
  shows "\<exists>qs k. packetize ps d = Ok qs \<and> gather_payloads qs = Ok (d @ replicate k 0xFF) \<and>
    (\<forall>q \<in> set qs. wf_packet q) \<and> map Header qs = take (length qs) (map Header ps)"
  using assms
proof (induction ps arbitrary: d pay)
  case (Cons p ps)
  from Cons.prems(2) obtain a b where ab: "Payload p = Ok a" "gather_payloads ps = Ok b" "pay = a @ b"
    unfolding gather_payloads_Cons_Ok by blast
  have wf: "wf_packet p" using Cons.prems(1) by simp
  from Payload_Header_split [OF wf] ab(1) obtain h where h: "Header p = Ok h" "h @ a = p" by auto
  then have l: "length h + length a = 188" using wf by (metis length_append wf_packet_def PacketSize_def)
  show ?case
  proof (cases "d = []")
    case True
    then show ?thesis using h(1) by (intro exI [of _ "[]"] exI [of _ 0]) simp
  next
    case False
    let ?w = "take (length a) d"
    let ?d = "drop (length a) d"
    have w: "length ?w \<le> length a" by simp
    note r = repacked [OF wf ab(1) h(1) w]
    have sl: "safeSlice d 0 (PacketSize - length h) = Ok ?w"
    proof -
      have "188 - length h = length a" using l by simp
      then show ?thesis by (simp add: safeSlice_def PacketSize_def slice_def)
    qed
    have nx: "(if length ?w < length d then drop (length ?w) d else []) = ?d" by (auto simp: min_def)
    have "length ?d \<le> length b" using Cons.prems(3) ab(3) by simp
    from Cons.IH [OF _ ab(2) this] Cons.prems(1) obtain qs k where
      qs: "packetize ps ?d = Ok qs" "gather_payloads qs = Ok (?d @ replicate k 0xFF)"
        "\<forall>q \<in> set qs. wf_packet q" "map Header qs = take (length qs) (map Header ps)" by auto
    let ?q = "padPacket (h @ ?w)"
    have pk: "packetize (p # ps) d = Ok (?q # qs)"
      using h(1) l False sl nx qs(1) by (simp add: PacketSize_def Let_def)
    have "\<exists>k'. gather_payloads (?q # qs) = Ok (d @ replicate k' 0xFF)"
    proof (cases "length d \<le> length a")
      case True
      then have "gather_payloads (?q # qs) = Ok (d @ replicate (length a - length d + k) 0xFF)"
        using r(3) qs(2) True by (simp add: replicate_add [symmetric])
      then show ?thesis by blast
    next
      case False
      then have "gather_payloads (?q # qs) = Ok (d @ replicate k 0xFF)" using r(3) qs(2) by simp
      then show ?thesis by blast
    qed
    with pk qs(3,4) r(1,2) h(1) show ?thesis by (intro exI [of _ "?q # qs"]) auto
  qed
qed (auto intro: exI [of _ "[]"])

lemma pidIn_iff [simp]: "pidIn pids x \<longleftrightarrow> x \<in> set pids"
  by (induction pids x rule: pidIn.induct) auto

definition kept :: "int list \<Rightarrow> stream list \<Rightarrow> stream list" where
  "kept pids ss = filter (\<lambda>s. pid_of s \<in> set pids) ss"

lemma filter_step_built:
  assumes "stream_ok s" "b = pre @ es_bytes s @ post" "length pre + length (es_bytes s) < 65536"
  shows "filter_step pids b (length pre) out =
    Ok (length pre + length (es_bytes s), if pid_of s \<in> set pids then out @ es_bytes s else out)"
proof -
  obtain t pid ds where s: "s = (t, pid, ds)" by (cases s)
  let ?i = "length (es_info ds)"
  from assms(1) have ok: "0 \<le> pid" "pid < 8192" "?i < 4096" by (auto simp: stream_ok_def s)
  have b: "b = pre @ [t, 0xE0 OR word_of_int (pid div 256), word_of_int pid, 0xF0 OR of_nat (?i div 256),
      of_nat (?i mod 256)] @ es_info ds @ post"
    using assms(2) by (simp add: s es_bytes_def len12_bytes_def)
  have m: "(length pre + 1) mod 65536 = length pre + 1" "(length pre + 2) mod 65536 = length pre + 2"
    "(length pre + 3) mod 65536 = length pre + 3" "(length pre + 4) mod 65536 = length pre + 4"
    "(length pre + 5 + ?i) mod 65536 = length pre + 5 + ?i"
    using assms(3) es_bytes_5 [of s] by (simp_all add: s length_es_bytes)
  have r: "rd b (length pre + 1) = Ok (0xE0 OR word_of_int (pid div 256))"
    "rd b (length pre + 2) = Ok (word_of_int pid)" "rd b (length pre + 3) = Ok (0xF0 OR of_nat (?i div 256))"
    "rd b (length pre + 4) = Ok (of_nat (?i mod 256))"
    unfolding b by (simp_all add: rd_def nth_append)
  have sl: "slice b (length pre) (length pre + 5 + ?i) = Ok (es_bytes s)"
    unfolding assms(2) by (simp add: slice_def s length_es_bytes)
  show ?thesis
    unfolding filter_step_def m r res_bind.simps Let_def length12_bytes [OF ok(3)] pid_bytes [OF ok(1,2)]
      pmtEsDescriptorStaticLen_def m(5) sl
    by (simp add: s pid_of_def length_es_bytes)
qed

lemma filter_loop_built:
  assumes "\<forall>s \<in> set ss. stream_ok s" "b = pre @ concat (map es_bytes ss) @ post"
    "bound + 4 = length pre + length (concat (map es_bytes ss))" "bound < 60000"
  shows "filter_loop pids b bound (length pre) out = Some (Ok (out @ concat (map es_bytes (kept pids ss))))"
  using assms
proof (induction ss arbitrary: pre out)
  case Nil
  then show ?case by (simp add: filter_loop.simps kept_def)
next
  case (Cons s ss)
  have b: "b = pre @ es_bytes s @ (concat (map es_bytes ss) @ post)" using Cons.prems(2) by simp
  have lt: "length pre < bound" using Cons.prems(3) es_bytes_5 [of s] by simp
  have "length pre + length (es_bytes s) < 65536" using Cons.prems(3,4) by simp
  from filter_step_built [OF _ b this] Cons.prems(1)
  have st: "filter_step pids b (length pre) out =
    Ok (length (pre @ es_bytes s), if pid_of s \<in> set pids then out @ es_bytes s else out)" by simp
  have "filter_loop pids b bound (length (pre @ es_bytes s)) out' =
      Some (Ok (out' @ concat (map es_bytes (kept pids ss))))" for out'
    using Cons.prems b by (intro Cons.IH) simp_all
  then show ?case using lt st by (subst filter_loop.simps) (simp add: kept_def)
qed

lemma header_byte:
  fixes sl sl' :: u16
  assumes "n < 1024"
  shows "(TableHeader_Data \<lparr>th_TableID = 2, th_SectionSyntaxIndicator = True, th_PrivateIndicator = False,
       th_SectionLength = sl\<rparr> ! 1 AND 0xf0) OR of_nat (n div 256) =
     TableHeader_Data \<lparr>th_TableID = 2, th_SectionSyntaxIndicator = True, th_PrivateIndicator = False,
       th_SectionLength = of_nat n\<rparr> ! 1"
proof -
  have d: "n div 256 < 4" using assms by linarith
  let ?y = "ucast (drop_bit 8 (of_nat n :: u16)) AND 3 :: byte"
  have "of_nat (n div 256) = ?y"
  proof -
    have "unat (of_nat n :: u16) = n" using assms by (simp only: unat_of_nat) simp
    moreover have "drop_bit 8 m = m div 256" for m :: nat by (simp add: drop_bit_eq_div)
    ultimately have "unat (drop_bit 8 (of_nat n :: u16)) = n div 256"
      using assms by (simp only: unsigned_drop_bit_eq) (simp add: take_bit_nat_eq_self)
    then have "unat ?y = take_bit 2 (take_bit 8 (n div 256))" unfolding and_numeral_mask
      by (simp only: unsigned_take_bit_eq unsigned_ucast_eq) simp
    also have "\<dots> = n div 256" using d by (simp add: take_bit_nat_eq_self)
    also have "\<dots> = unat (of_nat (n div 256) :: byte)" using d by (simp only: unat_of_nat) simp
    finally show ?thesis by (simp only: word_unat_eq_iff)
  qed
  moreover have "((0xB0 OR (x AND 3)) AND 0xf0) OR (y AND 3) = 0xB0 OR (y AND 3)" for x y :: byte
  proof -
    have "(0xB0 :: byte) = push_bit 4 0xB" "(0xf0 :: byte) = push_bit 4 (mask 4)"
      by (simp_all add: mask_eq_exp_minus_1)
    then show ?thesis unfolding and_numeral_mask
      by (simp only:) (rule byte_eqI; simp add: bit_simps)
  qed
  ultimately show ?thesis by (simp add: TableHeader_Data_def)
qed

lemma finish_table_built:
  assumes "length mid = 7" "pmt_length pinfo ss \<le> 1021"
    "out = 0 # TableHeader_Data \<lparr>th_TableID = 2, th_SectionSyntaxIndicator = True, th_PrivateIndicator = False,
       th_SectionLength = sl\<rparr> @ mid @ len12_bytes (length pinfo) @ pinfo @ concat (map es_bytes ss)"
  shows "finish_table 1 out = Ok (0 # pmt_section mid pinfo ss)"
proof -
  let ?th = "\<lambda>sl. \<lparr>th_TableID = 2, th_SectionSyntaxIndicator = True, th_PrivateIndicator = False,
       th_SectionLength = sl\<rparr>"
  let ?n = "pmt_length pinfo ss"
  let ?t = "mid @ len12_bytes (length pinfo) @ pinfo @ concat (map es_bytes ss)"
  obtain b1 where h: "TableHeader_Data (?th sl) = [2, b1, ucast sl]" "b1 = TableHeader_Data (?th sl) ! 1"
    by (simp add: TableHeader_Data_def)
  have l: "length out = ?n" using assms(1,3) by (simp add: pmt_length_def len12_bytes_def)
  have sum: "(length out + 65536 - unat ((1 :: byte) - 1)) mod 65536 = ?n" using l assms(2) by simp
  have hb: "(b1 AND 0xf0) OR of_nat (?n div 256) = TableHeader_Data (?th (of_nat ?n)) ! 1"
    unfolding h(2) by (rule header_byte) (use assms(2) in simp)
  have lo: "of_nat (?n mod 256) = TableHeader_Data (?th (of_nat ?n)) ! 2"
    using assms(2) by (simp add: TableHeader_Data_def word_unat_eq_iff unat_of_nat unsigned_of_nat take_bit_eq_mod)
  have nh: "[2, TableHeader_Data (?th (of_nat ?n)) ! 1, TableHeader_Data (?th (of_nat ?n)) ! 2] =
      TableHeader_Data (?th (of_nat ?n))" by (simp add: TableHeader_Data_def)
  have out: "out = 0 # 2 # b1 # ucast sl # ?t" using assms(3) h(1) by simp
  have body: "2 # TableHeader_Data (?th (of_nat ?n)) ! 1 # TableHeader_Data (?th (of_nat ?n)) ! 2 # ?t =
      pmt_body mid pinfo ss"
    unfolding pmt_body_def using nh by simp
  have "finish_table 1 out = Ok (0 # 2 # ((b1 AND 0xf0) OR of_nat (?n div 256)) # of_nat (?n mod 256) # ?t
      @ ComputeCRC (2 # ((b1 AND 0xf0) OR of_nat (?n div 256)) # of_nat (?n mod 256) # ?t))"
    unfolding finish_table_def Let_def sum u16_bytes_def by (simp add: out rd_def wr_def slice_def)
  also have "\<dots> = Ok (0 # pmt_section mid pinfo ss)"
    unfolding hb lo pmt_section_def by (simp add: body [symmetric])
  finally show ?thesis .
qed

lemma pmt_ok_kept: "pmt_ok mid pinfo ss \<Longrightarrow> pmt_ok mid pinfo (kept pids ss)"
proof -
  assume ok: "pmt_ok mid pinfo ss"
  have "length (concat (map es_bytes (kept pids ss))) \<le> length (concat (map es_bytes ss))"
    by (induction ss) (auto simp: kept_def)
  then show ?thesis using ok by (auto simp: pmt_ok_def pmt_length_def kept_def)
qed

lemma filter_table_unfold:
  assumes "PointerField pay = Ok 0" "slice pay 0 1 = Ok pre" "slice_from pay 1 = Ok table"
    "slice table 0 12 = Ok start" "sectionLength table = Ok sl" "length12 (table ! 10) (table ! 11) = n"
    "(if n \<noteq> 0 then slice table 12 (12 + n) else Ok []) = Ok info"
  shows "filter_table ps pids pay err =
     map_option (\<lambda>r. res_bind r (\<lambda>fPMT. res_bind (finish_table 1 fPMT) (\<lambda>fPMT.
                    res_bind (packetize ps fPMT) (\<lambda>outs. Ok (outs, err)))))
       (filter_loop pids table (es_bound sl) (12 + n) (pre @ start @ info))"
  unfolding filter_table_def pmt_consts Let_def assms(1) res.case
  using assms(2-7) by (cases "n = 0") simp_all

lemma filter_table_built:
  assumes "pmt_ok mid pinfo ss" "packetize ps (0 # pmt_section mid pinfo (kept pids ss)) = Ok qs"
  shows "filter_table ps pids (0 # pmt_section mid pinfo ss @ rest) err = Some (Ok (qs, err))"
proof -
  let ?s = "pmt_section mid pinfo ss @ rest"
  let ?pre = "TableHeader_Data \<lparr>th_TableID = 2, th_SectionSyntaxIndicator = True, th_PrivateIndicator = False,
       th_SectionLength = of_nat (pmt_length pinfo ss)\<rparr> @ mid @ len12_bytes (length pinfo) @ pinfo"
  from assms(1) have ok: "length mid = 7" "pmt_length pinfo ss \<le> 1021" "\<forall>s \<in> set ss. stream_ok s"
    by (simp_all add: pmt_ok_def)
  have ok': "pmt_length pinfo (kept pids ss) \<le> 1021" using pmt_ok_kept [OF assms(1)] by (simp add: pmt_ok_def)
  have pl: "length pinfo < 4096" using ok(2) by (simp add: pmt_length_def)
  have s: "?s = ?pre @ concat (map es_bytes ss) @ (ComputeCRC (pmt_body mid pinfo ss) @ rest)"
    by (simp add: pmt_section_def pmt_body_def)
  have lp: "length ?pre = 12 + length pinfo" using ok(1) by (simp add: len12_bytes_def)
  have sl: "sectionLength ?s = Ok (of_nat (pmt_length pinfo ss))" by (rule sectionLength_section [OF ok(2)])
  have eb: "es_bound (of_nat (pmt_length pinfo ss)) = pmt_length pinfo ss - 5"
    using es_bound_eq [of "of_nat (pmt_length pinfo ss)"] ok(2) unfolding unat_pmt_length [OF ok(2)]
    by (simp add: pmt_length_def)
  have ls: "12 \<le> length ?s" using length_pmt_section [OF ok(1), of pinfo ss] by (simp add: pmt_length_def)
  have n: "length12 (?s ! 10) (?s ! 11) = length pinfo"
    using section_nth(3,4) [OF ok(1), of pinfo ss] length_pmt_section [OF ok(1), of pinfo ss]
      length12_bytes [OF pl] by (simp add: nth_append pmt_length_def)
  have tk: "take 12 ?s @ (if length pinfo \<noteq> 0 then pinfo else []) = ?pre"
    unfolding s using ok(1) by (simp add: len12_bytes_def)
  have inf: "(if length pinfo \<noteq> 0 then slice ?s 12 (12 + length pinfo) else Ok []) =
      Ok (if length pinfo \<noteq> 0 then pinfo else [])"
    unfolding s using ok(1) by (simp add: len12_bytes_def slice_def)
  have lo: "filter_loop pids ?s (pmt_length pinfo ss - 5) (12 + length pinfo) ([0] @ ?pre) =
      Some (Ok (([0] @ ?pre) @ concat (map es_bytes (kept pids ss))))"
    unfolding lp [symmetric]
    by (rule filter_loop_built [OF ok(3) s]) (use ok(1,2) in \<open>simp_all add: pmt_length_def len12_bytes_def\<close>)
  have fin: "finish_table 1 (([0] @ ?pre) @ concat (map es_bytes (kept pids ss))) =
      Ok (0 # pmt_section mid pinfo (kept pids ss))"
    by (rule finish_table_built [OF ok(1) ok']) simp
  have "filter_table ps pids (0 # ?s) err =
     map_option (\<lambda>r. res_bind r (\<lambda>fPMT. res_bind (finish_table 1 fPMT) (\<lambda>fPMT.
                    res_bind (packetize ps fPMT) (\<lambda>outs. Ok (outs, err)))))
       (filter_loop pids ?s (pmt_length pinfo ss - 5) (12 + length pinfo)
          ([0] @ take 12 ?s @ (if length pinfo \<noteq> 0 then pinfo else [])))"
    unfolding eb [symmetric]
    by (rule filter_table_unfold [OF _ _ _ _ sl n inf]) (use ls in \<open>simp_all only: PointerField_def, simp_all add: rd_def slice_def\<close>)
  then show ?thesis unfolding tk lo using fin assms(2) by simp
qed

section \<open>Properties\<close>

text \<open>C6: a section built from any list of streams with their descriptors, a program information field and the
  seven bytes from the program number to the PCR PID, within the 1021 bytes a section may have, is accepted by
  \<open>PmtAccumulatorDoneFunc\<close> and parsed by \<open>NewPMT\<close> to exactly these streams, PIDs, version
  and current-next indicator, whatever stuffing follows.\<close>

theorem PMT_roundtrip:
  assumes "pmt_ok mid pinfo ss" "stuffing rest"
  shows "NewPMT (0 # pmt_section mid pinfo ss @ rest) = Ok (pmt_parsed mid ss) \<and>
    PmtAccumulatorDoneFunc (0 # pmt_section mid pinfo ss @ rest) = Ok True \<and>
    Pids (pmt_parsed mid ss) = map pid_of ss"
  using built_is_parsed [OF assms] by (simp add: pmt_parsed_def Pids_def)

abbreviation example_streams :: "stream list" where
  "example_streams \<equiv> [(27, 101, []), (15, 102, [\<lparr>desc_tag = 10, desc_data = [0x65, 0x6E, 0x67, 0]\<rparr>])]"

lemma example_ok: "pmt_ok [0, 1, 0xC1, 0, 0, 0xE0, 101] [] example_streams"
  by (simp add: pmt_ok_def pmt_length_def stream_ok_def es_bytes_def len12_bytes_def es_info_def desc_bytes_def)

theorem PMT_roundtrip_witness:
  "\<exists>p. NewPMT (0 # pmt_section [0, 1, 0xC1, 0, 0, 0xE0, 101] [] example_streams @ [0xFF]) = Ok p \<and>
     Pids p = [101, 102] \<and> VersionNumber p = 0 \<and> CurrentNextIndicator p"
proof -
  have st: "stuffing [0xFF]" by (simp add: stuffing_def)
  from PMT_roundtrip [OF example_ok st] show ?thesis
    by (auto simp: pmt_parsed_def VersionNumber_def CurrentNextIndicator_def pid_of_def)
qed

text \<open>The PIDs that are wanted and not found: the PID of the association table and that of the packets are not looked for.\<close>

definition not_found :: "packet list \<Rightarrow> stream list \<Rightarrow> int list \<Rightarrow> int list" where
  "not_found ps ss pids = filter (\<lambda>pid. pid \<notin> pid_of ` set ss \<and> pid \<noteq> PatPid \<and> pid \<noteq> Pid (ps ! 0)) pids"

lemma missing_pids_built: "missing_pids (pmt_parsed mid ss) (Pid (ps ! 0)) pids = not_found ps ss pids"
  by (auto simp: missing_pids_def not_found_def PIDExists_def Pids_def pmt_parsed_def intro!: filter_cong)

lemma filtered_packets:
  assumes "pmt_ok mid pinfo ss" "stuffing rest" "\<forall>p \<in> set ps. wf_packet p"
    and "gather_payloads ps = Ok (0 # pmt_section mid pinfo ss @ rest)" and nm: "length (not_found ps ss pids) \<noteq> length pids"
  shows "\<exists>qs k. FilterPMTPacketsToPids ps pids =
      Some (Ok (qs, if not_found ps ss pids = [] then None else Some (ErrPIDNotInPMT (not_found ps ss pids)))) \<and>
    gather_payloads qs = Ok (0 # pmt_section mid pinfo (kept pids ss) @ replicate k 0xFF) \<and>
    map Header qs = take (length qs) (map Header ps) \<and>
    NewPMT (0 # pmt_section mid pinfo (kept pids ss) @ replicate k 0xFF) = Ok (pmt_parsed mid (kept pids ss))"
proof -
  note ok' = pmt_ok_kept [OF assms(1), of pids]
  have "length (concat (map es_bytes (kept pids ss))) \<le> length (concat (map es_bytes ss))"
    by (induction ss) (auto simp: kept_def)
  then have "length (0 # pmt_section mid pinfo (kept pids ss)) \<le> length (0 # pmt_section mid pinfo ss @ rest)"
    using length_pmt_section [of mid pinfo] assms(1) by (simp add: pmt_ok_def pmt_length_def)
  from packetize_payloads [OF assms(3,4) this] obtain qs k where
    q: "packetize ps (0 # pmt_section mid pinfo (kept pids ss)) = Ok qs"
      "gather_payloads qs = Ok ((0 # pmt_section mid pinfo (kept pids ss)) @ replicate k 0xFF)"
      "map Header qs = take (length qs) (map Header ps)" by blast
  have ne: "ps \<noteq> []" "pids \<noteq> []" using assms(4) nm by (auto simp: not_found_def)
  have f: "FilterPMTPacketsToPids ps pids =
      Some (Ok (qs, if not_found ps ss pids = [] then None else Some (ErrPIDNotInPMT (not_found ps ss pids))))"
    using ne assms(4) nm filter_table_built [OF assms(1) q(1)] built_is_parsed(1) [OF assms(1,2)]
    by (simp add: FilterPMTPacketsToPids_def Let_def missing_pids_built)
  have "stuffing (replicate k 0xFF)" by (cases k) (simp_all add: stuffing_def)
  note new = built_is_parsed(1) [OF ok' this]
  show ?thesis by (intro exI [of _ qs] exI [of _ k] conjI f q(3) new) (use q(2) in simp)
qed

text \<open>C5: \<open>FilterPMTPacketsToPids\<close> on packets whose payloads together are a pointer field of
  zero, a well-formed table and stuffing. Without wanted PIDs the packets are returned as they are. When every
  wanted PID is missing from the table, no packets are returned, and the error names all of them; but the PID of the
  association table and that of the packets never count as missing, so that such a PID alone, which no stream has,
  gives packets with a table without streams and no error. In every other case the packets keep their headers, their
  payloads together are the table built from the wanted streams only, with its section length and checksum
  recomputed, and stuffing; parsing it gives these streams, and the error names exactly the PIDs that are missing,
  in the order in which they were given.\<close>

theorem FilterPMT_spec:
  assumes "pmt_ok mid pinfo ss" "stuffing rest" "\<forall>p \<in> set ps. wf_packet p"
    and "gather_payloads ps = Ok (0 # pmt_section mid pinfo ss @ rest)"
  shows "if pids = [] then FilterPMTPacketsToPids ps pids = Some (Ok (ps, None))
    else if \<forall>pid \<in> set pids. pid \<notin> pid_of ` set ss \<and> pid \<noteq> PatPid \<and> pid \<noteq> Pid (ps ! 0)
    then FilterPMTPacketsToPids ps pids = Some (Ok ([], Some (ErrPIDNotInPMT pids)))
    else \<exists>qs k. FilterPMTPacketsToPids ps pids =
      Some (Ok (qs, if not_found ps ss pids = [] then None else Some (ErrPIDNotInPMT (not_found ps ss pids)))) \<and>
    gather_payloads qs = Ok (0 # pmt_section mid pinfo (kept pids ss) @ replicate k 0xFF) \<and>
    map Header qs = take (length qs) (map Header ps) \<and>
    NewPMT (0 # pmt_section mid pinfo (kept pids ss) @ replicate k 0xFF) = Ok (pmt_parsed mid (kept pids ss))"
proof -
  have ne: "ps \<noteq> []" using assms(4) by auto
  show ?thesis
  proof (cases "\<forall>pid \<in> set pids. pid \<notin> pid_of ` set ss \<and> pid \<noteq> PatPid \<and> pid \<noteq> Pid (ps ! 0)")
    case True
    then have "not_found ps ss pids = pids" by (auto simp: not_found_def filter_id_conv)
    then have "FilterPMTPacketsToPids ps pids = (if pids = [] then Some (Ok (ps, None)) else Some (Ok ([], Some (ErrPIDNotInPMT pids))))"
      using ne assms(4) built_is_parsed(1) [OF assms(1,2)] by (simp add: FilterPMTPacketsToPids_def Let_def missing_pids_built)
    with True show ?thesis by (cases "pids = []") simp_all
  next
    case False
    then have "length (not_found ps ss pids) < length pids"
      unfolding not_found_def by (auto intro: length_filter_less)
    then have "length (not_found ps ss pids) \<noteq> length pids" by simp
    from filtered_packets [OF assms this] False show ?thesis by auto
  qed
qed

abbreviation example_section :: "byte list" where
  "example_section \<equiv> pmt_section [0, 1, 0xC1, 0, 0, 0xE0, 101] [] example_streams"

theorem FilterPMT_spec_witness:
  "\<exists>qs k. FilterPMTPacketsToPids [[0x47, 0x41, 0, 0x10, 0] @ example_section @ replicate (183 - length example_section) 0xFF]
      [101] = Some (Ok (qs, None)) \<and>
    gather_payloads qs = Ok (0 # pmt_section [0, 1, 0xC1, 0, 0, 0xE0, 101] [] [(27, 101, [])] @ replicate k 0xFF)"
proof -
  let ?rest = "replicate (183 - length example_section) (0xFF :: byte)"
  let ?p = "[0x47, 0x41, 0, 0x10, 0] @ example_section @ ?rest"
  have "length example_section \<le> 183"
    using length_pmt_section [of "[0, 1, 0xC1, 0, 0, 0xE0, 101]" "[]" example_streams]
    by (simp add: pmt_length_def es_bytes_def len12_bytes_def es_info_def desc_bytes_def)
  then have wf: "\<forall>p \<in> set [?p]. wf_packet p" by (simp add: wf_packet_def PacketSize_def)
  have pay: "gather_payloads [?p] = Ok (0 # example_section @ ?rest)"
    by (simp add: Payload_def ContainsPayload_def payloadStart_def ContainsAdaptationField_def Let_def slice_def)
  have st: "stuffing ?rest" by (cases "183 - length example_section") (simp_all add: stuffing_def)
  have ex: "\<not> (\<forall>pid \<in> set [101]. pid \<notin> pid_of ` set example_streams \<and> pid \<noteq> PatPid \<and> pid \<noteq> Pid ([?p] ! 0))"
    by (simp add: pid_of_def)
  have nf: "not_found [?p] example_streams [101] = []" by (simp add: not_found_def pid_of_def)
  have "[101] \<noteq> []" by simp
  with FilterPMT_spec [OF example_ok st wf pay, of "[101]"] ex nf obtain qs k where
    f: "FilterPMTPacketsToPids [?p] [101] = Some (Ok (qs, None))"
    and g: "gather_payloads qs = Ok (0 # pmt_section [0, 1, 0xC1, 0, 0, 0xE0, 101] [] (kept [101] example_streams)
      @ replicate k 0xFF)" by auto
  moreover have "kept [101] example_streams = [(27, 101, [])]" by (simp add: kept_def pid_of_def)
  ultimately show ?thesis by auto
qed

end
