(* ===== verification/Pes.thy ===== *)
theory Pes
  imports Gots_Time Packet_Create Gots_Fmt
begin

text \<open>
  \<^verbatim>\<open>gots/pes\<close>: the header of a packetized elementary stream.  \<^verbatim>\<open>NewPESHeader\<close> returns the header it has
  filled beside its error, so the model returns a pair.
\<close>

section \<open>The code\<close>

definition STREAM_ID_ALL_AUDIO_STREAMS :: byte where "STREAM_ID_ALL_AUDIO_STREAMS = 184"
definition STREAM_ID_ALL_VIDEO_STREAMS :: byte where "STREAM_ID_ALL_VIDEO_STREAMS = 185"
definition STREAM_ID_PADDNG_STREAM :: byte where "STREAM_ID_PADDNG_STREAM = 190"
definition STREAM_ID_PRIVATE_STREAM_2 :: byte where "STREAM_ID_PRIVATE_STREAM_2 = 191"
definition STREAM_ID_ECM_STREAM :: byte where "STREAM_ID_ECM_STREAM = 240"
definition STREAM_ID_EMM_STREAM :: byte where "STREAM_ID_EMM_STREAM = 241"
definition STREAM_ID_DSM_CC_STREAM :: byte where "STREAM_ID_DSM_CC_STREAM = 242"
definition STREAM_ID_ITU_T_H222_1_TYPE_E :: byte where "STREAM_ID_ITU_T_H222_1_TYPE_E = 248"
definition STREAM_ID_PROGRAM_STREAM_DIRECTORY :: byte where "STREAM_ID_PROGRAM_STREAM_DIRECTORY = 255"

lemmas pes_consts = STREAM_ID_ALL_AUDIO_STREAMS_def STREAM_ID_ALL_VIDEO_STREAMS_def STREAM_ID_PADDNG_STREAM_def
  STREAM_ID_PRIVATE_STREAM_2_def STREAM_ID_ECM_STREAM_def STREAM_ID_EMM_STREAM_def STREAM_ID_DSM_CC_STREAM_def
  STREAM_ID_ITU_T_H222_1_TYPE_E_def STREAM_ID_PROGRAM_STREAM_DIRECTORY_def

record pESHeader =
  pes_packetStartCodePrefix :: u32
  pes_dataAlignment :: bool
  pes_streamId :: byte
  pes_pesPacketLength :: u16
  pes_ptsDtsIndicator :: byte
  pes_pts :: u64
  pes_dts :: u64
  pes_data :: "byte list"

definition new_pESHeader :: pESHeader where
  "new_pESHeader = \<lparr>pes_packetStartCodePrefix = 0, pes_dataAlignment = False, pes_streamId = 0,
     pes_pesPacketLength = 0, pes_ptsDtsIndicator = 0, pes_pts = 0, pes_dts = 0, pes_data = []\<rparr>"

text \<open>The second copy of \<^verbatim>\<open>ExtractTime\<close>, in package \<^verbatim>\<open>pes\<close>.\<close>

definition pes_ExtractTime :: "byte list \<Rightarrow> u64 res" where
  "pes_ExtractTime bytes =
     res_bind (rd bytes 0) (\<lambda>x0. res_bind (rd bytes 1) (\<lambda>x1. res_bind (rd bytes 2) (\<lambda>x2.
     res_bind (rd bytes 3) (\<lambda>x3. res_bind (rd bytes 4) (\<lambda>x4.
       let a = ucast (drop_bit 1 x0 AND 0x07); b = ucast x1; c = ucast (drop_bit 1 x2 AND 0x7f);
           d = ucast x3; e = ucast (drop_bit 1 x4 AND 0x7f)
       in Ok (push_bit 30 a OR push_bit 22 b OR push_bit 15 c OR push_bit 7 d OR e))))))"

definition CheckLength :: "byte list \<Rightarrow> string \<Rightarrow> nat \<Rightarrow> bool" where
  "CheckLength byteArray name min_len = (\<not> length byteArray < min_len)"

definition optionalFieldsExist :: "pESHeader \<Rightarrow> bool" where
  "optionalFieldsExist pes =
     (\<not> (pes_streamId pes = STREAM_ID_PADDNG_STREAM \<or> pes_streamId pes = STREAM_ID_PRIVATE_STREAM_2 \<or>
         pes_streamId pes = STREAM_ID_ECM_STREAM \<or> pes_streamId pes = STREAM_ID_EMM_STREAM \<or>
         pes_streamId pes = STREAM_ID_DSM_CC_STREAM \<or> pes_streamId pes = STREAM_ID_ITU_T_H222_1_TYPE_E \<or>
         pes_streamId pes = STREAM_ID_PROGRAM_STREAM_DIRECTORY))"

text \<open>The optional fields: the header and the index where the data start.\<close>

definition parse_optional :: "byte list \<Rightarrow> pESHeader \<Rightarrow> (pESHeader \<times> nat) res" where
  "parse_optional pesBytes pes =
     (let ptsDtsIndicator = drop_bit 6 (pesBytes ! 7 AND 0xc0);
          pesHeaderLength = pesBytes ! 8;
          dataStartIndex = 9 + unat pesHeaderLength;
          pes = pes\<lparr>pes_ptsDtsIndicator := ptsDtsIndicator\<rparr>
      in if ptsDtsIndicator \<noteq> PTS_DTS_INDICATOR_NONE \<and> CheckLength pesBytes ''PTS'' 14 then
           res_bind (slice pesBytes 9 14) (\<lambda>s. res_bind (ExtractTime s) (\<lambda>pts.
             let pes = pes\<lparr>pes_pts := pts\<rparr>
             in if pes_ptsDtsIndicator pes = PTS_DTS_INDICATOR_BOTH \<and> CheckLength pesBytes ''DTS'' 19 then
                  res_bind (slice pesBytes 14 19) (\<lambda>s. res_bind (ExtractTime s) (\<lambda>dts.
                    Ok (pes\<lparr>pes_dts := dts\<rparr>, dataStartIndex)))
                else Ok (pes, dataStartIndex)))
         else Ok (pes, dataStartIndex))"

definition NewPESHeader :: "byte list \<Rightarrow> (pESHeader \<times> gots_error option) res" where
  "NewPESHeader pesBytes =
     (let pes = new_pESHeader
      in if CheckLength pesBytes ''PES'' 7 then
           let pes = pes\<lparr>
                 pes_packetStartCodePrefix := push_bit 16 (ucast (pesBytes ! 0)) OR
                   push_bit 8 (ucast (pesBytes ! 1)) OR ucast (pesBytes ! 2),
                 pes_streamId := pesBytes ! 3,
                 pes_pesPacketLength := push_bit 8 (ucast (pesBytes ! 4)) OR ucast (pesBytes ! 5),
                 pes_dataAlignment := (pesBytes ! 6 AND 0x04 \<noteq> 0)\<rparr>
           in res_bind (if optionalFieldsExist pes \<and> CheckLength pesBytes ''Optional Fields'' 9
                 then parse_optional pesBytes pes else Ok (pes, 6)) (\<lambda>(pes, dataStartIndex).
                Ok (if length pesBytes > dataStartIndex
                    then pes\<lparr>pes_data := drop dataStartIndex pesBytes\<rparr> else pes, None))
         else Ok (pes, Some (ErrorsNew ''Invalid length for PES header. Too short to parse'')))"

definition PacketStartCodePrefix :: "pESHeader \<Rightarrow> u32" where
  "PacketStartCodePrefix pes = pes_packetStartCodePrefix pes"
definition StreamId :: "pESHeader \<Rightarrow> byte" where "StreamId pes = pes_streamId pes"
definition Pes_PTS :: "pESHeader \<Rightarrow> u64" where "Pes_PTS pes = pes_pts pes"
definition Pes_DTS :: "pESHeader \<Rightarrow> u64" where "Pes_DTS pes = pes_dts pes"
definition Pes_Data :: "pESHeader \<Rightarrow> byte list" where "Pes_Data pes = pes_data pes"

definition Pes_HasPTS :: "pESHeader \<Rightarrow> bool" where
  "Pes_HasPTS pes = (pes_ptsDtsIndicator pes AND PTS_DTS_INDICATOR_ONLY_PTS \<noteq> 0)"
definition Pes_HasDTS :: "pESHeader \<Rightarrow> bool" where
  "Pes_HasDTS pes = (pes_ptsDtsIndicator pes = PTS_DTS_INDICATOR_BOTH)"
definition DataAligned :: "pESHeader \<Rightarrow> bool" where "DataAligned pes = pes_dataAlignment pes"

definition Pes_Format :: "pESHeader \<Rightarrow> string" where
  "Pes_Format pes =
     (let nl = [CHR 0x0A];
          f = ''PES'' @ nl @ ''---'' @ nl @
              ''Packet Start Code Prefix: '' @ show_HEX (unat (pes_packetStartCodePrefix pes)) @ '' '' @ nl @
              ''Stream Id: '' @ show_HEX (unat (pes_streamId pes)) @ '' '' @ nl @
              ''PES Packet Length: '' @ show_nat (unat (pes_pesPacketLength pes)) @ nl
      in if optionalFieldsExist pes then
           let ind = pes_ptsDtsIndicator pes;
               f = f @ ''PTS DTS Indicator: '' @ show_bin (unat ind) @ nl
           in if ind = PTS_DTS_INDICATOR_BOTH \<or> ind = PTS_DTS_INDICATOR_ONLY_PTS then
                let f = f @ ''PTS: '' @ show_nat (unat (pes_pts pes)) @ nl
                in if ind = PTS_DTS_INDICATOR_BOTH then f @ ''DTS: '' @ show_nat (unat (pes_dts pes)) @ nl else f
              else f
         else f)"

definition AlignedPUSI :: "packet \<Rightarrow> (byte list \<times> bool) res" where
  "AlignedPUSI pkt =
     (if \<not> Packet_PayloadUnitStartIndicator pkt then Ok ([], False)
      else case PESHeader pkt of
        Panic \<Rightarrow> Panic
      | Err e \<Rightarrow> Ok ([], False)
      | Ok pesHeaderBytes \<Rightarrow>
          (case NewPESHeader pesHeaderBytes of
             Panic \<Rightarrow> Panic
           | Err e \<Rightarrow> Ok ([], False)
           | Ok (pesHeader, err) \<Rightarrow>
               if err \<noteq> None then Ok ([], False)
               else if DataAligned pesHeader then Ok (Pes_Data pesHeader, True) else Ok ([], False)))"

section \<open>Lemmas\<close>

lemma ExtractTime_total: "5 \<le> length s \<Longrightarrow> \<exists>v. ExtractTime s = Ok v"
  by (simp add: ExtractTime_def Let_def)

lemma pes_ExtractTime_eq: "pes_ExtractTime bytes = ExtractTime bytes"
proof (cases "length bytes < 5")
  case True
  then have "length bytes = 0 \<or> length bytes = 1 \<or> length bytes = 2 \<or> length bytes = 3 \<or> length bytes = 4" by linarith
  with True show ?thesis by (auto simp: pes_ExtractTime_def ExtractTime_def rd_def)
next
  case False
  then have "bytes \<noteq> []" by auto
  with False show ?thesis by (simp add: pes_ExtractTime_def ExtractTime_def Let_def)
qed

lemma parse_optional_total: "\<exists>pes' i. parse_optional b pes = Ok (pes', i)"
proof -
  have t: "\<exists>v. ExtractTime (take 5 (drop n b)) = Ok v" if "n + 5 \<le> length b" for n
    using that by (intro ExtractTime_total) simp
  show ?thesis
  proof (cases "length b < 14")
    case False
    then obtain v where v: "ExtractTime (take 5 (drop 9 b)) = Ok v" using t [of 9] by auto
    show ?thesis
    proof (cases "length b < 19")
      case False
      then obtain w where "ExtractTime (take 5 (drop 14 b)) = Ok w" using t [of 14] by auto
      with v False show ?thesis by (simp add: parse_optional_def Let_def CheckLength_def slice_def)
    qed (use v False in \<open>simp add: parse_optional_def Let_def CheckLength_def slice_def\<close>)
  qed (simp add: parse_optional_def Let_def CheckLength_def)
qed

lemma NewPESHeader_total: "\<exists>pes. NewPESHeader b =
    Ok (pes, if length b < 7 then Some (ErrorsNew ''Invalid length for PES header. Too short to parse'') else None)"
proof (cases "length b < 7")
  case False
  let ?pes = "new_pESHeader\<lparr>
                 pes_packetStartCodePrefix := push_bit 16 (ucast (b ! 0)) OR
                   push_bit 8 (ucast (b ! 1)) OR ucast (b ! 2),
                 pes_streamId := b ! 3,
                 pes_pesPacketLength := push_bit 8 (ucast (b ! 4)) OR ucast (b ! 5),
                 pes_dataAlignment := (b ! 6 AND 0x04 \<noteq> 0)\<rparr>"
  obtain pes' i where "(if optionalFieldsExist ?pes \<and> CheckLength b ''Optional Fields'' 9
      then parse_optional b ?pes else Ok (?pes, 6)) = Ok (pes', i)"
    using parse_optional_total [of b ?pes] by (metis (no_types))
  then show ?thesis using False
    unfolding NewPESHeader_def Let_def by (simp add: CheckLength_def)
qed (simp add: NewPESHeader_def CheckLength_def)

section \<open>Headers built from their fields\<close>

text \<open>The bytes of a header: \<open>f6\<close> and \<open>f7\<close> are the two flag bytes, \<open>opt\<close> the rest of the header.\<close>

definition pes_bytes :: "byte \<Rightarrow> byte \<Rightarrow> byte \<Rightarrow> byte list \<Rightarrow> byte list \<Rightarrow> byte list" where
  "pes_bytes sid f6 f7 opt data = [0, 0, 1, sid, 0, 0, f6, f7, of_nat (length opt)] @ opt @ data"

lemma pes_built:
  assumes "optionalFieldsExist (new_pESHeader\<lparr>pes_streamId := sid\<rparr>)" "length opt < 256"
    "drop_bit 6 (f7 AND 0xc0) = PTS_DTS_INDICATOR_BOTH" "opt = pb @ db @ stuff"
    "length pb = 5" "length db = 5" "ExtractTime pb = Ok pts" "ExtractTime db = Ok dts"
  shows "NewPESHeader (pes_bytes sid f6 f7 opt data) =
    Ok (\<lparr>pes_packetStartCodePrefix = 1, pes_dataAlignment = (f6 AND 0x04 \<noteq> 0), pes_streamId = sid,
      pes_pesPacketLength = 0, pes_ptsDtsIndicator = PTS_DTS_INDICATOR_BOTH, pes_pts = pts, pes_dts = dts,
      pes_data = data\<rparr>, None)"
proof -
  let ?b = "pes_bytes sid f6 f7 opt data"
  have n: "?b ! 0 = 0" "?b ! 1 = 0" "?b ! 2 = 1" "?b ! 3 = sid" "?b ! 4 = 0" "?b ! 5 = 0" "?b ! 6 = f6"
    "?b ! 7 = f7" "?b ! 8 = of_nat (length opt)" by (simp_all add: pes_bytes_def)
  have u: "unat (of_nat (length opt) :: byte) = length opt" using assms(2) by (simp add: unat_of_nat)
  have l: "length ?b = 9 + length opt + length data" "19 \<le> length ?b"
    using assms(4-6) by (simp_all add: pes_bytes_def)
  have sl: "slice ?b 9 14 = Ok pb" "slice ?b 14 19 = Ok db"
    using assms(4-6) by (simp_all add: pes_bytes_def slice_def)
  have "drop (length opt) (drop 9 ?b) = data" by (simp add: pes_bytes_def)
  then have d: "drop (9 + length opt) ?b = data" by (simp add: add.commute)
  have o: "pes_streamId pes = sid \<Longrightarrow> optionalFieldsExist pes" for pes
    using assms(1) by (simp add: optionalFieldsExist_def)
  have po: "parse_optional ?b pes = Ok (pes\<lparr>pes_ptsDtsIndicator := PTS_DTS_INDICATOR_BOTH, pes_pts := pts,
      pes_dts := dts\<rparr>, 9 + length opt)" for pes
    unfolding parse_optional_def n u assms(3) Let_def using sl assms(7,8) l(2)
    by (simp add: CheckLength_def PTS_DTS_INDICATOR_BOTH_def PTS_DTS_INDICATOR_NONE_def)
  show ?thesis
    unfolding NewPESHeader_def n Let_def po using o l d
    by (auto simp: CheckLength_def new_pESHeader_def)
qed

section \<open>Properties\<close>

text \<open>C9: a header with both timestamps, for a stream id that has optional fields, is read back from its
  bytes: the timestamps written with \<open>InsertPTS\<close>, the stream id, the alignment flag, and the data after
  the header length, whatever stuffing the header holds. The parser never panics, and fails exactly on fewer than
  seven bytes; its own copy of \<open>ExtractTime\<close> agrees with that of
  \<^verbatim>\<open>pts.go\<close>.\<close>

theorem PES_roundtrip:
  assumes "optionalFieldsExist (new_pESHeader\<lparr>pes_streamId := sid\<rparr>)" "length stuff < 246"
    "f7 AND 0xc0 = 0xc0" "pts < MaxPtsTicks" "dts < MaxPtsTicks"
  shows "(\<exists>pb db. InsertPTS (replicate 5 0) pts = Ok pb \<and> InsertPTS (replicate 5 0) dts = Ok db \<and>
     NewPESHeader (pes_bytes sid f6 f7 (pb @ db @ stuff) data) =
       Ok (\<lparr>pes_packetStartCodePrefix = 1, pes_dataAlignment = (f6 AND 0x04 \<noteq> 0), pes_streamId = sid,
         pes_pesPacketLength = 0, pes_ptsDtsIndicator = 3, pes_pts = pts, pes_dts = dts, pes_data = data\<rparr>, None)) \<and>
    (\<exists>pes. NewPESHeader b = Ok (pes,
       if length b < 7 then Some (ErrorsNew ''Invalid length for PES header. Too short to parse'') else None)) \<and>
    pes_ExtractTime b = ExtractTime b"
proof -
  obtain pb where pb: "InsertPTS (replicate 5 0) pts = Ok pb" "length pb = 5" "ExtractTime pb = Ok pts"
    using pts_codec.roundtrip [of "replicate 5 0" pts] assms(4) by auto
  obtain db where db: "InsertPTS (replicate 5 0) dts = Ok db" "length db = 5" "ExtractTime db = Ok dts"
    using pts_codec.roundtrip [of "replicate 5 0" dts] assms(5) by auto
  have "NewPESHeader (pes_bytes sid f6 f7 (pb @ db @ stuff) data) =
       Ok (\<lparr>pes_packetStartCodePrefix = 1, pes_dataAlignment = (f6 AND 0x04 \<noteq> 0), pes_streamId = sid,
         pes_pesPacketLength = 0, pes_ptsDtsIndicator = PTS_DTS_INDICATOR_BOTH, pes_pts = pts, pes_dts = dts,
         pes_data = data\<rparr>, None)"
    by (rule pes_built [OF assms(1) _ _ refl pb(2) db(2) pb(3) db(3)])
      (use pb(2) db(2) assms(2,3) in \<open>simp_all add: PTS_DTS_INDICATOR_BOTH_def\<close>)
  then show ?thesis using pb(1) db(1) NewPESHeader_total [of b] pes_ExtractTime_eq [of b]
    by (auto simp: PTS_DTS_INDICATOR_BOTH_def)
qed

theorem PES_roundtrip_witness:
  "\<exists>pb db pes. InsertPTS (replicate 5 0) 900000 = Ok pb \<and> InsertPTS (replicate 5 0) 810000 = Ok db \<and>
     NewPESHeader (pes_bytes 0xE0 0x84 0xC0 (pb @ db @ [0xFF]) [1, 2, 3]) = Ok (pes, None) \<and>
     Pes_PTS pes = 900000 \<and> Pes_DTS pes = 810000 \<and> DataAligned pes \<and> Pes_Data pes = [1, 2, 3]"
  using PES_roundtrip [of "0xE0" "[0xFF]" "0xC0" 900000 810000 "0x84" "[1, 2, 3]" "[]"]
  by (auto simp: optionalFieldsExist_def pes_consts MaxPtsTicks_def Pes_PTS_def Pes_DTS_def DataAligned_def Pes_Data_def)

lemma Payload_no_AF:
  "ContainsPayload q \<Longrightarrow> \<not> ContainsAdaptationField q \<Longrightarrow> 4 \<le> length q \<Longrightarrow> Payload q = Ok (drop 4 q)"
  by (simp add: Payload_def payloadStart_def slice_def)

text \<open>The header that \<open>WithPES\<close> puts into a packet with a unit start and no adaptation field is found
  by \<open>PESHeader\<close> and read back by \<open>NewPESHeader\<close>: it has the timestamp given and no DTS.  The stream id
  written is that of audio, although the comment says video, and the alignment flag is not set,
  although the comment says it is: \<open>AlignedPUSI\<close> rejects the packet.\<close>

theorem WithPES_read:
  assumes "wf_packet p" "\<not> ContainsAdaptationField p" "PayloadUnitStartIndicator p" "pts < MaxPtsTicks"
  shows "\<exists>q pay pes. WithPES p pts = Ok q \<and> wf_packet q \<and> PESHeader q = Ok pay \<and>
    NewPESHeader pay = Ok (pes, None) \<and> Pes_HasPTS pes \<and> Pes_PTS pes = pts \<and> \<not> Pes_HasDTS pes \<and>
    StreamId pes = STREAM_ID_ALL_AUDIO_STREAMS \<and> \<not> DataAligned pes \<and> Pes_Data pes = replicate 161 0 \<and>
    AlignedPUSI q = Ok ([], False)"
proof -
  obtain s where s: "InsertPTS (replicate 5 0) pts = Ok s" "length s = 5" "ExtractTime s = Ok pts"
    using pts_codec.roundtrip [of "replicate 5 0" pts] assms(4) by auto
  let ?pay = "[0, 0, 1, 184, 0, 0, 0x40, 0x80, 14] @ s @ replicate 170 (0 :: byte)"
  let ?g = "go_copy p 4 ?pay"
  let ?q = "?g[3 := ?g ! 3 OR 0x10]"
  have lp: "length p = 188" using assms(1) by (simp add: wf_packet_def PacketSize_def)
  have ps: "payloadStart p = 4" using assms(2) by (simp add: payloadStart_def)
  have sp: "SetPayload p ?pay = (?g, 184)" using SetPayload_copy [OF assms(1), of ?pay] ps s(2) by simp
  have p0: "(replicate (PacketSize - 4) (0 :: byte))[0 := 0x00, 1 := 0x00, 2 := 0x01, 3 := 184, 4 := 0x0,
      6 := 0x40, 7 := 0x80, 8 := 14] = [0, 0, 1, 184, 0, 0, 0x40, 0x80, 14] @ replicate 5 0 @ replicate 170 0"
  proof -
    have "replicate 184 (0 :: byte) = replicate 9 0 @ replicate 5 0 @ replicate 170 0" by (simp flip: replicate_add)
    moreover have "replicate 9 (0 :: byte) = [0, 0, 0, 0, 0, 0, 0, 0, 0]" by (simp add: numeral_eq_Suc)
    ultimately show ?thesis by (simp add: PacketSize_def)
  qed
  have "slice ([0, 0, 1, 184, 0, 0, 0x40, 0x80, 14] @ replicate 5 0 @ replicate 170 (0 :: byte)) 9 14 = Ok (replicate 5 0)"
    by (simp add: slice_def)
  moreover have "copy_slice ([0, 0, 1, 184, 0, 0, 0x40, 0x80, 14] @ replicate 5 0 @ replicate 170 (0 :: byte)) 9 14 s = Ok ?pay"
    using s(2) by (simp add: copy_slice_def go_copy_def)
  ultimately have w: "WithPES p pts = Ok ?q"
    unfolding WithPES_def Let_def p0 using s(1) sp by (simp add: WithHasPayloadFlag_def)
  have g: "?g ! i = p ! i" if "i < 4" for i using that lp by (simp add: nth_go_copy)
  have lg: "length ?g = 188" using lp by simp
  have b3: "?q ! 3 = p ! 3 OR 0x10" "?q ! 1 = p ! 1" using lg g [of 3] g [of 1] by simp_all
  have q: "ContainsPayload ?q" "\<not> ContainsAdaptationField ?q" "PayloadUnitStartIndicator ?q"
    using assms(2,3) b3
    unfolding header_getters by (auto simp: bit_simps)
  have "drop 4 ?q = ?pay" using lp s(2) by (simp add: go_copy_def)
  then have pay: "Payload ?q = Ok ?pay"
    using Payload_no_AF [OF q(1,2)] lg by (simp only: length_list_update)
  have ph: "PESHeader ?q = Ok ?pay" using q(3) pay by (simp add: PESHeader_def)
  have np: "NewPESHeader ?pay = Ok (\<lparr>pes_packetStartCodePrefix = 1, pes_dataAlignment = False,
      pes_streamId = 184, pes_pesPacketLength = 0, pes_ptsDtsIndicator = 2, pes_pts = pts, pes_dts = 0,
      pes_data = replicate 161 0\<rparr>, None)"
    using s(2,3)
    by (simp add: NewPESHeader_def parse_optional_def CheckLength_def Let_def optionalFieldsExist_def pes_consts
        PTS_DTS_INDICATOR_NONE_def PTS_DTS_INDICATOR_BOTH_def slice_def new_pESHeader_def)
  show ?thesis
    using w ph np q(3) lg
    by (simp add: wf_packet_def PacketSize_def Pes_HasPTS_def Pes_PTS_def Pes_HasDTS_def StreamId_def
        pes_consts DataAligned_def Pes_Data_def AlignedPUSI_def accessors_agree
        PTS_DTS_INDICATOR_ONLY_PTS_def PTS_DTS_INDICATOR_BOTH_def)
qed

theorem WithPES_read_witness:
  "\<exists>q. WithPES (SetPayloadUnitStartIndicator New True) 900000 = Ok q \<and> AlignedPUSI q = Ok ([], False)"
proof -
  let ?p = "SetPayloadUnitStartIndicator New True"
  have "New ! 3 = 0x10" by (simp add: New_def PacketSize_def)
  then have p3: "?p ! 3 = 0x10" by (simp add: SetPayloadUnitStartIndicator_def nth_setBit_other)
  have "\<not> ContainsAdaptationField ?p" unfolding header_getters by (simp add: p3)
  moreover have "PayloadUnitStartIndicator ?p"
    using pusi.get_set [OF wf_New, of True] by (simp add: accessors_agree)
  moreover have "wf_packet ?p" by simp
  ultimately show ?thesis using WithPES_read [of ?p 900000] by (auto simp: MaxPtsTicks_def)
qed

end
