(* ===== verification/Ebp_Base.thy ===== *)
theory Ebp_Base
  imports Gots_Binary
begin

text \<open>
  \<^verbatim>\<open>gots/ebp/baseebp.go\<close> and the time functions of \<^verbatim>\<open>gots/ebp/ebp.go\<close>: the fields that every encoder
  boundary point has, its flags, and its 64-bit time.

  A \<^verbatim>\<open>time.Time\<close> is the number of nanoseconds since 1 January 1900 UTC; the second epoch of the format,
  7 February 2036 6:28:16, lies \<open>2 ^ 32\<close> seconds later.  \<^verbatim>\<open>Time.Sub\<close> is cut off at the range of an
  \<^verbatim>\<open>int64\<close>, as the standard library does.
\<close>

section \<open>The record\<close>

definition ComcastEbpTag :: byte where "ComcastEbpTag = 0xA9"
definition CableLabsEbpTag :: byte where "CableLabsEbpTag = 0xDF"
definition CableLabsFormatIdentifier :: u32 where "CableLabsFormatIdentifier = 0x45425030"
definition InvalidStreamSyncSignal :: byte where "InvalidStreamSyncSignal = 0xFF"
definition StreamNotSynchronized :: byte where "StreamNotSynchronized = 0x1C"
definition StreamSynchronized :: byte where "StreamSynchronized = 0x1D"

lemmas ebp_consts = ComcastEbpTag_def CableLabsEbpTag_def CableLabsFormatIdentifier_def
  InvalidStreamSyncSignal_def StreamNotSynchronized_def StreamSynchronized_def

type_synonym time = int

record baseEbp =
  DataFieldTag :: byte
  DataFieldLength :: byte
  DataFlags :: byte
  ExtensionFlags :: byte
  SapType :: byte
  TimeSeconds :: u32
  TimeFraction :: u32
  ReservedBytes :: "byte list"
  SuccessReadTime :: time
  Grouping :: "byte list"

definition zero_baseEbp :: baseEbp where
  "zero_baseEbp = \<lparr>DataFieldTag = 0, DataFieldLength = 0, DataFlags = 0, ExtensionFlags = 0, SapType = 0,
     TimeSeconds = 0, TimeFraction = 0, ReservedBytes = [], SuccessReadTime = 0, Grouping = []\<rparr>"

section \<open>Flags\<close>

definition FragmentFlag :: "'a baseEbp_scheme \<Rightarrow> bool" where
  "FragmentFlag ebp = (DataFieldLength ebp \<noteq> 0 \<and> DataFlags ebp AND 0x80 \<noteq> 0)"
definition SetFragmentFlag :: "'a baseEbp_scheme \<Rightarrow> bool \<Rightarrow> 'a baseEbp_scheme" where
  "SetFragmentFlag ebp value =
     (if DataFieldLength ebp \<noteq> 0 \<and> value then ebp\<lparr>DataFlags := DataFlags ebp OR 0x80\<rparr> else ebp)"

definition SegmentFlag :: "'a baseEbp_scheme \<Rightarrow> bool" where
  "SegmentFlag ebp = (DataFieldLength ebp \<noteq> 0 \<and> DataFlags ebp AND 0x40 \<noteq> 0)"
definition SetSegmentFlag :: "'a baseEbp_scheme \<Rightarrow> bool \<Rightarrow> 'a baseEbp_scheme" where
  "SetSegmentFlag ebp value =
     (if DataFieldLength ebp \<noteq> 0 \<and> value then ebp\<lparr>DataFlags := DataFlags ebp OR 0x40\<rparr> else ebp)"

definition SapFlag :: "'a baseEbp_scheme \<Rightarrow> bool" where
  "SapFlag ebp = (DataFieldLength ebp \<noteq> 0 \<and> DataFlags ebp AND 0x20 \<noteq> 0)"
definition SetSapFlag :: "'a baseEbp_scheme \<Rightarrow> bool \<Rightarrow> 'a baseEbp_scheme" where
  "SetSapFlag ebp value =
     (if DataFieldLength ebp \<noteq> 0 \<and> value then ebp\<lparr>DataFlags := DataFlags ebp OR 0x20\<rparr> else ebp)"

definition GroupingFlag :: "'a baseEbp_scheme \<Rightarrow> bool" where
  "GroupingFlag ebp = (DataFieldLength ebp \<noteq> 0 \<and> DataFlags ebp AND 0x10 \<noteq> 0)"
definition SetGroupingFlag :: "'a baseEbp_scheme \<Rightarrow> bool \<Rightarrow> 'a baseEbp_scheme" where
  "SetGroupingFlag ebp value =
     (if DataFieldLength ebp \<noteq> 0 \<and> value then ebp\<lparr>DataFlags := DataFlags ebp OR 0x10\<rparr> else ebp)"

definition TimeFlag :: "'a baseEbp_scheme \<Rightarrow> bool" where
  "TimeFlag ebp = (DataFieldLength ebp \<noteq> 0 \<and> DataFlags ebp AND 0x08 \<noteq> 0)"
definition SetTimeFlag :: "'a baseEbp_scheme \<Rightarrow> bool \<Rightarrow> 'a baseEbp_scheme" where
  "SetTimeFlag ebp value =
     (if DataFieldLength ebp \<noteq> 0 \<and> value then ebp\<lparr>DataFlags := DataFlags ebp OR 0x08\<rparr> else ebp)"

definition ExtensionFlag :: "'a baseEbp_scheme \<Rightarrow> bool" where
  "ExtensionFlag ebp = (DataFieldLength ebp \<noteq> 0 \<and> DataFlags ebp AND 0x01 \<noteq> 0)"
definition SetExtensionFlag :: "'a baseEbp_scheme \<Rightarrow> bool \<Rightarrow> 'a baseEbp_scheme" where
  "SetExtensionFlag ebp value =
     (if DataFieldLength ebp \<noteq> 0 \<and> value then ebp\<lparr>DataFlags := DataFlags ebp OR 0x01\<rparr> else ebp)"

definition Sap :: "'a baseEbp_scheme \<Rightarrow> byte" where "Sap ebp = SapType ebp"
definition SetSap :: "'a baseEbp_scheme \<Rightarrow> byte \<Rightarrow> 'a baseEbp_scheme" where
  "SetSap ebp sapType = ebp\<lparr>SapType := sapType\<rparr>"

definition IsEmpty :: "'a baseEbp_scheme \<Rightarrow> bool" where "IsEmpty ebp = (DataFieldLength ebp = 0)"
definition SetIsEmpty :: "'a baseEbp_scheme \<Rightarrow> bool \<Rightarrow> 'a baseEbp_scheme" where
  "SetIsEmpty ebp value = (if value then ebp\<lparr>DataFieldLength := 0\<rparr> else ebp\<lparr>DataFieldLength := 1\<rparr>)"

fun sync_signal :: "byte list \<Rightarrow> byte" where
  "sync_signal [] = InvalidStreamSyncSignal"
| "sync_signal (groupID # gs) =
     (if groupID = StreamSynchronized \<or> groupID = StreamNotSynchronized then groupID else sync_signal gs)"

definition StreamSyncSignal :: "'a baseEbp_scheme \<Rightarrow> byte" where
  "StreamSyncSignal ebp = sync_signal (Grouping ebp)"

section \<open>A flag as an interface\<close>

text \<open>
  A flag of the data field is one bit of \<open>DataFlags\<close>, read and set only while the field is not
  empty; setting never clears.
\<close>

locale ebp_flag =
  fixes getf :: "baseEbp \<Rightarrow> bool" and setf :: "baseEbp \<Rightarrow> bool \<Rightarrow> baseEbp" and msk :: byte
  assumes get_bit: "getf e \<longleftrightarrow> DataFieldLength e \<noteq> 0 \<and> DataFlags e AND msk \<noteq> 0"
    and set_bit: "setf e v = (if DataFieldLength e \<noteq> 0 \<and> v then e\<lparr>DataFlags := DataFlags e OR msk\<rparr> else e)"
    and mask_nonzero: "msk \<noteq> 0"
begin

lemma get_set: "getf (setf e v) \<longleftrightarrow> getf e \<or> (v \<and> DataFieldLength e \<noteq> 0)"
proof -
  have "(x OR msk) AND msk = msk" for x by (rule bit_word_eqI) (auto simp: bit_simps)
  then show ?thesis using mask_nonzero by (simp add: get_bit set_bit)
qed

lemma set_false: "setf e False = e"
  by (simp add: set_bit)

lemma set_set: "setf (setf e v) w = setf e (v \<or> w)"
proof -
  have "(x OR msk) OR msk = x OR msk" for x by (rule bit_word_eqI) (auto simp: bit_simps)
  then show ?thesis by (simp add: set_bit)
qed

lemma get_other: "getg = (\<lambda>e. DataFieldLength e \<noteq> 0 \<and> DataFlags e AND m \<noteq> 0) \<Longrightarrow> m AND msk = 0 \<Longrightarrow>
    getg (setf e v) = getg e"
proof -
  assume g: "getg = (\<lambda>e. DataFieldLength e \<noteq> 0 \<and> DataFlags e AND m \<noteq> 0)" and m: "m AND msk = 0"
  have "(x OR msk) AND m = x AND m" for x
    using m by (metis (no_types, lifting) and.commute bit.conj_disj_distrib2 or.right_neutral)
  then show ?thesis by (simp add: g set_bit)
qed

end

interpretation fragment: ebp_flag FragmentFlag SetFragmentFlag "0x80"
  by unfold_locales (simp_all add: FragmentFlag_def SetFragmentFlag_def)
interpretation segment: ebp_flag SegmentFlag SetSegmentFlag "0x40"
  by unfold_locales (simp_all add: SegmentFlag_def SetSegmentFlag_def)
interpretation sapf: ebp_flag SapFlag SetSapFlag "0x20"
  by unfold_locales (simp_all add: SapFlag_def SetSapFlag_def)
interpretation grouping: ebp_flag GroupingFlag SetGroupingFlag "0x10"
  by unfold_locales (simp_all add: GroupingFlag_def SetGroupingFlag_def)
interpretation timef: ebp_flag TimeFlag SetTimeFlag "0x08"
  by unfold_locales (simp_all add: TimeFlag_def SetTimeFlag_def)
interpretation extension: ebp_flag ExtensionFlag SetExtensionFlag "0x01"
  by unfold_locales (simp_all add: ExtensionFlag_def SetExtensionFlag_def)

section \<open>Time\<close>

definition epoch_1900 :: time where "epoch_1900 = 0"
definition epoch_2036 :: time where "epoch_2036 = 4294967296 * 1000000000"

text \<open>\<^verbatim>\<open>Time.Add\<close> of a duration given as \<^verbatim>\<open>uint64\<close>, and \<^verbatim>\<open>Time.Sub\<close>.\<close>

definition time_add :: "time \<Rightarrow> u64 \<Rightarrow> time" where
  "time_add t nanos = t + sint nanos"

definition time_sub :: "time \<Rightarrow> time \<Rightarrow> int" where
  "time_sub t u = max (- (2 ^ 63)) (min (2 ^ 63 - 1) (t - u))"

definition extractUtcTime :: "u32 \<Rightarrow> u32 \<Rightarrow> time" where
  "extractUtcTime seconds fraction =
     (let nanos = ucast seconds * 1000000000 :: u64;
          nanos = nanos + drop_bit 32 (ucast fraction * 1000000000)
      in if seconds AND 0x80000000 \<noteq> 0 then time_add epoch_1900 nanos else time_add epoch_2036 nanos)"

definition insertUtcTime :: "time \<Rightarrow> u32 \<times> u32" where
  "insertUtcTime t =
     (let startingTime = (if t < epoch_2036 then epoch_1900 else epoch_2036);
          nanos = (word_of_int (time_sub t startingTime) :: u64)
      in (ucast (nanos div 1000000000), ucast (push_bit 32 (nanos mod 1000000000 + 1) div 1000000000)))"

definition EBPTime :: "'a baseEbp_scheme \<Rightarrow> time" where
  "EBPTime ebp = extractUtcTime (TimeSeconds ebp) (TimeFraction ebp)"
definition SetEBPTime :: "'a baseEbp_scheme \<Rightarrow> time \<Rightarrow> 'a baseEbp_scheme" where
  "SetEBPTime ebp t = (let (s, f) = insertUtcTime t in ebp\<lparr>TimeSeconds := s, TimeFraction := f\<rparr>)"
definition EBPSuccessReadTime :: "'a baseEbp_scheme \<Rightarrow> time" where
  "EBPSuccessReadTime ebp = SuccessReadTime ebp"

section \<open>Lemmas on time\<close>

lemma unat_less_32: "unat (s :: u32) < 4294967296"
  by (rule order.strict_trans2 [OF unsigned_less]) simp

lemma sint_small_u64:
  assumes "unat (w :: u64) < 9223372036854775808"
  shows "sint w = int (unat w)"
proof -
  have "int (unat w) < 9223372036854775808" using assms by linarith
  then have "uint w < 2 ^ 63" by simp
  moreover have "- (2 ^ 63) \<le> uint w" by (rule order.trans [OF _ uint_ge_0]) simp
  ultimately have "signed_take_bit 63 (uint w) = uint w" by (rule signed_take_bit_int_eq_self [rotated])
  then show ?thesis by (simp add: sint_uint)
qed

text \<open>The two functions on natural numbers.\<close>

lemma nanos_nat:
  fixes s f :: u32
  shows "unat (ucast s * 1000000000 + drop_bit 32 (ucast f * 1000000000) :: u64) =
    unat s * 1000000000 + unat f * 1000000000 div 4294967296"
proof -
  have m: "unat (ucast x * 1000000000 :: u64) = unat x * 1000000000" for x :: u32
  proof -
    have "unat (ucast x :: u64) = unat x" using unat_less_32 [of x] by (simp add: unsigned_ucast_eq take_bit_nat_eq_self)
    moreover have "unat x * 1000000000 < 18446744073709551616" using unat_less_32 [of x] by linarith
    ultimately show ?thesis by (simp add: unat_word_ariths)
  qed
  have d: "unat (drop_bit 32 (ucast f * 1000000000 :: u64)) = unat f * 1000000000 div 4294967296"
    unfolding unat_drop_bit_eq m by (simp add: drop_bit_eq_div)
  have "unat s * 1000000000 + unat f * 1000000000 div 4294967296 < 18446744073709551616"
    using unat_less_32 [of s] unat_less_32 [of f] by linarith
  then show ?thesis by (simp add: unat_word_ariths(1) m d)
qed

lemma extract_nat:
  "extractUtcTime s f =
     (if bit s 31 then epoch_1900 else epoch_2036) + int (unat s * 1000000000 + unat f * 1000000000 div 4294967296)"
proof -
  let ?w = "ucast s * 1000000000 + drop_bit 32 (ucast f * 1000000000) :: u64"
  have "unat s * 1000000000 + unat f * 1000000000 div 4294967296 < 9223372036854775808"
    using unat_less_32 [of s] unat_less_32 [of f] by linarith
  then have "sint ?w = int (unat s * 1000000000 + unat f * 1000000000 div 4294967296)"
    using sint_small_u64 [of ?w] by (simp only: nanos_nat)
  moreover have "s AND 0x80000000 \<noteq> 0 \<longleftrightarrow> bit s 31" using and_exp_eq_0_iff_not_bit [of s 31] by simp
  ultimately show ?thesis unfolding extractUtcTime_def Let_def time_add_def by simp
qed

lemma insert_nat:
  assumes "0 \<le> t" "t < 2 * epoch_2036"
  shows "insertUtcTime t =
     (let n = nat (t mod epoch_2036) in
       (of_nat (n div 1000000000), of_nat ((n mod 1000000000 + 1) * 4294967296 div 1000000000)))"
proof -
  let ?n = "nat (t mod epoch_2036)"
  let ?w = "of_nat ?n :: u64"
  have n: "?n < 4294967296000000000"
    using pos_mod_bound [of epoch_2036 t] by (simp add: epoch_2036_def nat_less_iff)
  have d: "time_sub t (if t < epoch_2036 then epoch_1900 else epoch_2036) = int ?n"
  proof -
    have "t - (if t < epoch_2036 then epoch_1900 else epoch_2036) = t mod epoch_2036"
    proof (cases "t < epoch_2036")
      case False
      then have "t mod epoch_2036 = (t - epoch_2036) mod epoch_2036" by simp
      also have "\<dots> = t - epoch_2036" using False assms(2) by (intro mod_pos_pos_trivial) simp_all
      finally show ?thesis using False by simp
    qed (use assms in \<open>simp add: epoch_1900_def\<close>)
    moreover have "0 \<le> t mod epoch_2036" by (simp add: epoch_2036_def)
    ultimately show ?thesis using n by (simp add: time_sub_def nat_less_iff)
  qed
  have w: "unat ?w = ?n" using n by (simp only: unat_of_nat) simp
  have dv: "unat (?w div 1000000000) = ?n div 1000000000" by (simp add: unat_div w)
  have md0: "unat (?w mod 1000000000) = ?n mod 1000000000" by (simp add: unat_mod w)
  have md: "unat (?w mod 1000000000 + 1) = ?n mod 1000000000 + 1"
    unfolding unat_word_ariths(1) md0 by simp
  have pb: "unat (push_bit 32 (?w mod 1000000000 + 1)) = (?n mod 1000000000 + 1) * 4294967296"
  proof -
    have "unat (push_bit 32 (?w mod 1000000000 + 1)) = take_bit 64 (push_bit 32 (?n mod 1000000000 + 1))"
      unfolding md [symmetric] by (simp only: unsigned_push_bit_eq) simp
    also have "\<dots> = (?n mod 1000000000 + 1) * 4294967296"
      by (simp add: push_bit_eq_mult take_bit_nat_eq_self)
    finally show ?thesis .
  qed
  have q: "unat (push_bit 32 (?w mod 1000000000 + 1) div 1000000000) =
      (?n mod 1000000000 + 1) * 4294967296 div 1000000000"
    by (simp only: unat_div pb) simp
  have wi: "word_of_int (time_sub t (if t < epoch_2036 then epoch_1900 else epoch_2036)) = ?w"
    unfolding d by simp
  have of: "ucast v = (of_nat (unat v) :: u32)" for v :: u64 by simp
  show ?thesis
    unfolding insertUtcTime_def Let_def wi of dv q ..
qed

lemma fraction_exact: "1000000000 dvd (r + 1) * 4294967296 \<longleftrightarrow> (1953125 :: nat) dvd r + 1"
proof -
  have "1000000000 dvd (r + 1) * 4294967296 \<longleftrightarrow> 512 * 1953125 dvd 512 * ((r + 1) * (8388608 :: nat))"
    by (simp add: algebra_simps)
  also have "\<dots> \<longleftrightarrow> 1953125 dvd (r + 1) * (8388608 :: nat)" by (subst dvd_times_left_cancel_iff) simp_all
  also have "\<dots> \<longleftrightarrow> 1953125 dvd r + 1"
  proof (rule coprime_dvd_mult_left_iff)
    have "coprime (5 ^ 9) ((2 :: nat) ^ 23)" by (subst coprime_power_left_iff, subst coprime_power_right_iff) simp
    then show "coprime (1953125 :: nat) 8388608" by simp
  qed
  finally show ?thesis .
qed

lemma fraction_back:
  fixes r :: nat
  shows "(r + 1) * 4294967296 div 1000000000 * 1000000000 div 4294967296 = (if 1953125 dvd r + 1 then r + 1 else r)"
proof (cases "1953125 dvd r + 1")
  case True
  then have "(r + 1) * 4294967296 div 1000000000 * 1000000000 = (r + 1) * 4294967296"
    using fraction_exact by (metis dvd_div_mult_self)
  then show ?thesis using True by simp
next
  case False
  let ?x = "(r + 1) * 4294967296"
  have "?x mod 1000000000 \<noteq> 0" using False fraction_exact by (metis mod_0_imp_dvd)
  moreover have "?x div 1000000000 * 1000000000 + ?x mod 1000000000 = ?x" by (rule div_mult_mod_eq)
  moreover have "?x mod 1000000000 < 1000000000" by simp
  moreover have "?x = r * 4294967296 + 4294967296" by simp
  ultimately have b: "r * 4294967296 \<le> ?x div 1000000000 * 1000000000"
    "?x div 1000000000 * 1000000000 < (r + 1) * 4294967296" by linarith+
  then have "?x div 1000000000 * 1000000000 div 4294967296 = r"
    by (intro div_nat_eqI) (simp_all only: mult.commute Suc_eq_plus1)
  then show ?thesis using False by simp
qed

text \<open>A time written and read back, in the epoch that its top bit of the seconds chooses.\<close>

lemma extract_insert:
  assumes "0 \<le> t" "t < 2 * epoch_2036"
    and "bit (of_nat (nat (t mod epoch_2036) div 1000000000) :: u32) 31 \<longleftrightarrow> t < epoch_2036"
  shows "(case insertUtcTime t of (s, f) \<Rightarrow> extractUtcTime s f) =
    (let r = t mod 1000000000 in
      if r = 999999999 then t - 999999999 else if 1953125 dvd r + 1 then t + 1 else t)"
proof -
  let ?n = "nat (t mod epoch_2036)"
  let ?s = "?n div 1000000000" and ?r = "?n mod 1000000000"
  let ?f = "(?r + 1) * 4294967296 div 1000000000"
  have n: "?n < 4294967296000000000" "int ?n = t mod epoch_2036"
    using pos_mod_bound [of epoch_2036 t] by (simp_all add: epoch_2036_def nat_less_iff)
  have us: "unat (of_nat ?s :: u32) = ?s" using n(1) by (simp only: unat_of_nat) (simp add: div_less_iff_less_mult less_mult_imp_div_less)
  have base: "(if t < epoch_2036 then epoch_1900 else epoch_2036) + int ?n = t"
  proof (cases "t < epoch_2036")
    case True
    then show ?thesis using assms(1) n(2) by (simp add: epoch_1900_def)
  next
    case False
    then have "t mod epoch_2036 = (t - epoch_2036) mod epoch_2036" by simp
    also have "\<dots> = t - epoch_2036" using False assms(2) by (intro mod_pos_pos_trivial) simp_all
    finally have "int ?n = t - epoch_2036" using n(2) by simp
    then show ?thesis using False by simp
  qed
  have ir: "int ?r = t mod 1000000000"
    using n(2) by (simp add: of_nat_mod epoch_2036_def mod_mod_cancel)
  have ex: "(case insertUtcTime t of (s, f) \<Rightarrow> extractUtcTime s f) =
      t - int ?r + int (unat (of_nat ?f :: u32) * 1000000000 div 4294967296)"
  proof -
    have "(case insertUtcTime t of (s, f) \<Rightarrow> extractUtcTime s f) =
        (if t < epoch_2036 then epoch_1900 else epoch_2036) +
        int (?s * 1000000000 + unat (of_nat ?f :: u32) * 1000000000 div 4294967296)"
      unfolding insert_nat [OF assms(1,2)] Let_def prod.case extract_nat us assms(3) ..
    moreover have "int ?n = int (?s * 1000000000) + int ?r" by (metis div_mult_mod_eq of_nat_add)
    ultimately show ?thesis using base by linarith
  qed
  show ?thesis
  proof (cases "?r = 999999999")
    case True
    have "unat (of_nat ?f :: u32) = 0" unfolding True by simp
    then show ?thesis using ex True ir by (simp add: Let_def)
  next
    case False
    then have r: "?r < 999999999" using mod_less_divisor [of 1000000000 ?n] by linarith
    then have "?f < 4294967296" by (intro less_mult_imp_div_less) simp
    then have "unat (of_nat ?f :: u32) = ?f" by (simp only: unat_of_nat) simp
    then have e: "(case insertUtcTime t of (s, f) \<Rightarrow> extractUtcTime s f) =
        t - int ?r + int (if 1953125 dvd ?r + 1 then ?r + 1 else ?r)"
      using ex unfolding fraction_back [symmetric] by simp
    have "1953125 dvd int k + 1 \<longleftrightarrow> 1953125 dvd k + 1" for k :: nat
      using int_dvd_int_iff [of 1953125 "k + 1"] by (simp only: of_nat_numeral of_nat_add of_nat_1)
    then have "1953125 dvd t mod 1000000000 + 1 \<longleftrightarrow> 1953125 dvd ?r + 1" unfolding ir [symmetric] by blast
    moreover have "t mod 1000000000 \<noteq> 999999999" using False ir by linarith
    ultimately show ?thesis using e by (simp add: Let_def)
  qed
qed

section \<open>Properties\<close>

text \<open>C22: from 1968-01-20 3:14:08 UTC (half of the first epoch) up to half of the second, in 2104, a time set
  with \<open>SetEBPTime\<close> is read back by \<open>EBPTime\<close> to the nanosecond, but for two kinds of
  instants: where the nanoseconds of the second plus one are a multiple of 1953125 one nanosecond is gained, and in
  the last nanosecond of a second the fraction overflows to zero, so that 999999999 nanoseconds are lost.\<close>

theorem EBPTime_roundtrip:
  assumes "2147483648 * 1000000000 \<le> t" "t < (4294967296 + 2147483648) * 1000000000"
  shows "EBPTime (SetEBPTime ebp t) =
    (let r = t mod 1000000000 in
      if r = 999999999 then t - 999999999 else if 1953125 dvd r + 1 then t + 1 else t)"
proof -
  let ?s = "nat (t mod epoch_2036) div 1000000000"
  have r: "0 \<le> t" "t < 2 * epoch_2036" using assms by (simp_all add: epoch_2036_def)
  have b: "bit (of_nat ?s :: u32) 31 \<longleftrightarrow> t < epoch_2036"
  proof (cases "t < epoch_2036")
    case True
    then have "t mod epoch_2036 = t" using r(1) by simp
    then have s: "2147483648 \<le> ?s" "?s < 4294967296" using assms(1) True by (simp_all add: epoch_2036_def)
    then have "?s div 2147483648 = 1" by (intro div_nat_eqI) simp_all
    then have "odd (?s div 2147483648)" by simp
    then have "bit ?s 31" by (simp add: bit_iff_odd)
    then show ?thesis using True by (simp only: bit_simps) simp
  next
    case False
    then have "t mod epoch_2036 = (t - epoch_2036) mod epoch_2036" by simp
    also have "\<dots> = t - epoch_2036" using False r by (intro mod_pos_pos_trivial) simp_all
    finally have "?s < 2147483648"
      using assms(2) False by (intro less_mult_imp_div_less) (simp add: epoch_2036_def nat_less_iff)
    then have "?s div 2147483648 = 0" by simp
    then have "\<not> bit ?s 31" by (simp add: bit_iff_odd)
    then show ?thesis using False by (simp only: bit_simps) simp
  qed
  have "EBPTime (SetEBPTime ebp t) = (case insertUtcTime t of (s, f) \<Rightarrow> extractUtcTime s f)"
    by (simp add: EBPTime_def SetEBPTime_def split: prod.splits)
  then show ?thesis using extract_insert [OF r b] by simp
qed

theorem EBPTime_roundtrip_witness:
  "EBPTime (SetEBPTime zero_baseEbp 3700000000123456789) = 3700000000123456789 \<and>
   EBPTime (SetEBPTime zero_baseEbp 3700000000999999999) = 3700000000000000000 \<and>
   EBPTime (SetEBPTime zero_baseEbp 3700000000001953124) = 3700000000001953125"
  using EBPTime_roundtrip [of 3700000000123456789 zero_baseEbp] EBPTime_roundtrip [of 3700000000999999999 zero_baseEbp]
    EBPTime_roundtrip [of 3700000000001953124 zero_baseEbp] by simp

text \<open>A setter of a flag sets it, exactly while the data field is not empty; called with \<open>False\<close> it
  changes nothing, so a flag once set is never cleared; and it leaves the other flags alone.\<close>

theorem ebp_flag_setters:
  fixes e :: baseEbp
  shows "FragmentFlag (SetFragmentFlag e v) = (FragmentFlag e \<or> v \<and> \<not> IsEmpty e) \<and>
   SegmentFlag (SetSegmentFlag e v) = (SegmentFlag e \<or> v \<and> \<not> IsEmpty e) \<and>
   SapFlag (SetSapFlag e v) = (SapFlag e \<or> v \<and> \<not> IsEmpty e) \<and>
   GroupingFlag (SetGroupingFlag e v) = (GroupingFlag e \<or> v \<and> \<not> IsEmpty e) \<and>
   TimeFlag (SetTimeFlag e v) = (TimeFlag e \<or> v \<and> \<not> IsEmpty e) \<and>
   ExtensionFlag (SetExtensionFlag e v) = (ExtensionFlag e \<or> v \<and> \<not> IsEmpty e) \<and>
   SetSegmentFlag e False = e \<and> FragmentFlag (SetSegmentFlag e v) = FragmentFlag e \<and>
   TimeFlag (SetSegmentFlag e v) = TimeFlag e"
proof -
  have "FragmentFlag (SetSegmentFlag e v) = FragmentFlag e"
    by (rule segment.get_other [of FragmentFlag "0x80"]) (simp_all add: fun_eq_iff FragmentFlag_def)
  moreover have "TimeFlag (SetSegmentFlag e v) = TimeFlag e"
    by (rule segment.get_other [of TimeFlag "0x08"]) (simp_all add: fun_eq_iff TimeFlag_def)
  ultimately show ?thesis
    by (simp add: fragment.get_set segment.get_set sapf.get_set grouping.get_set timef.get_set extension.get_set
        segment.set_false IsEmpty_def)
qed

end
