(* ===== verification/Ebp.thy ===== *)
theory Ebp
  imports Ebp_Base
begin

text \<open>
  \<^verbatim>\<open>gots/ebp/ebp.go\<close>, \<^verbatim>\<open>comcastebp.go\<close> and \<^verbatim>\<open>cablelabsebp.go\<close>: reading and writing the two kinds of encoder
  boundary points.  The read index is a \<^verbatim>\<open>uint8\<close> and wraps.  The loop over the groups of a CableLabs
  point then need not end: a result \<open>None\<close> is a call that does not return.  The time of reading is an
  argument.  \<^verbatim>\<open>Data\<close> updates the length field, so the model returns the bytes and the new record.
\<close>

section \<open>The code\<close>

record cableLabsEbp = baseEbp +
  FormatIdentifier :: u32
  PartitionFlags :: byte

definition CreateComcastEBP :: baseEbp where
  "CreateComcastEBP = zero_baseEbp\<lparr>DataFieldTag := ComcastEbpTag, DataFieldLength := 1\<rparr>"

definition zero_cableLabsEbp :: cableLabsEbp where
  "zero_cableLabsEbp = baseEbp.extend zero_baseEbp (cableLabsEbp.fields 0 0)"

definition CreateCableLabsEbp :: cableLabsEbp where
  "CreateCableLabsEbp = zero_cableLabsEbp\<lparr>DataFieldTag := CableLabsEbpTag, DataFieldLength := 1,
     FormatIdentifier := CableLabsFormatIdentifier\<rparr>"

definition EBPType :: "'a baseEbp_scheme \<Rightarrow> byte" where "EBPType ebp = DataFieldTag ebp"

definition DiscontinuityFlag :: "baseEbp \<Rightarrow> bool" where
  "DiscontinuityFlag ebp = (DataFieldLength ebp \<noteq> 0 \<and> DataFlags ebp AND 0x04 \<noteq> 0)"
definition SetDiscontinuityFlag :: "baseEbp \<Rightarrow> bool \<Rightarrow> baseEbp" where
  "SetDiscontinuityFlag ebp value =
     (if DataFieldLength ebp \<noteq> 0 \<and> value then ebp\<lparr>DataFlags := DataFlags ebp OR 0x04\<rparr> else ebp)"

definition ConcealmentFlag :: "cableLabsEbp \<Rightarrow> bool" where
  "ConcealmentFlag ebp = (DataFlags ebp AND 0x04 \<noteq> 0)"
definition SetConcealmentFlag :: "cableLabsEbp \<Rightarrow> bool \<Rightarrow> cableLabsEbp" where
  "SetConcealmentFlag ebp value =
     (if DataFieldLength ebp \<noteq> 0 \<and> value then ebp\<lparr>DataFlags := DataFlags ebp OR 0x04\<rparr> else ebp)"

definition PartitionFlag :: "cableLabsEbp \<Rightarrow> bool" where
  "PartitionFlag ebp = (ExtensionFlag ebp \<and> ExtensionFlags ebp AND 0x80 \<noteq> 0)"
definition SetPartitionFlag :: "cableLabsEbp \<Rightarrow> bool \<Rightarrow> cableLabsEbp" where
  "SetPartitionFlag ebp value =
     (if ExtensionFlag ebp \<and> value then ebp\<lparr>ExtensionFlags := ExtensionFlags ebp OR 0x80\<rparr> else ebp)"

text \<open>A byte read at the index when a flag is set, and the four-byte fields.\<close>

definition read_if :: "bool \<Rightarrow> (byte \<Rightarrow> 'e \<Rightarrow> 'e) \<Rightarrow> byte list \<Rightarrow> 'e \<times> byte \<Rightarrow> ('e \<times> byte) res" where
  "read_if c upd data st =
     (if c then res_bind (rd data (unat (snd st))) (\<lambda>b. Ok (upd b (fst st), snd st + 1)) else Ok st)"

definition read_u32 :: "byte list \<Rightarrow> byte \<Rightarrow> (u32 \<times> byte) res" where
  "read_u32 data index =
     res_bind (slice data (unat index) (unat (index + 4))) (\<lambda>s.
     res_bind (be_uint32 s) (\<lambda>v. Ok (v, index + 4)))"

definition read_time :: "byte list \<Rightarrow> 'a baseEbp_scheme \<times> byte \<Rightarrow> ('a baseEbp_scheme \<times> byte) res" where
  "read_time data st =
     (if TimeFlag (fst st) then
        res_bind (read_u32 data (snd st)) (\<lambda>(secs, index).
        res_bind (read_u32 data index) (\<lambda>(frac, index).
          Ok ((fst st)\<lparr>TimeSeconds := secs, TimeFraction := frac\<rparr>, index)))
      else Ok st)"

text \<open>The rest of the data field, and the time of reading.\<close>

definition read_reserved :: "time \<Rightarrow> byte list \<Rightarrow> 'a baseEbp_scheme \<times> byte \<Rightarrow> 'a baseEbp_scheme res" where
  "read_reserved now data st =
     (let ebp = fst st; index = snd st
      in if index < DataFieldLength ebp + 2 then
           if unat (DataFieldLength ebp + 2) > length data then Err ErrInvalidEBPLength
           else res_bind (slice data (unat index) (unat (DataFieldLength ebp + 2))) (\<lambda>r.
                  Ok (ebp\<lparr>ReservedBytes := r, SuccessReadTime := now\<rparr>))
         else Ok (ebp\<lparr>SuccessReadTime := now\<rparr>))"

definition readComcastEbp :: "time \<Rightarrow> byte list \<Rightarrow> baseEbp res" where
  "readComcastEbp now data =
     (if length data < 2 then Err ErrNoPayload
      else
        let ebp = zero_baseEbp\<lparr>DataFieldTag := data ! 0, DataFieldLength := data ! 1\<rparr>
        in res_bind (if DataFieldLength ebp > 0 then
               if length data \<ge> 3 then Ok (ebp\<lparr>DataFlags := data ! 2\<rparr>, 3) else Err ErrInvalidEBPLength
             else Ok (ebp, 2)) (\<lambda>st.
           res_bind (read_if (ExtensionFlag (fst st)) (\<lambda>b e. e\<lparr>ExtensionFlags := b\<rparr>) data st) (\<lambda>st.
           res_bind (read_if (SapFlag (fst st)) (\<lambda>b e. e\<lparr>SapType := b\<rparr>) data st) (\<lambda>st.
           res_bind (read_if (GroupingFlag (fst st)) (\<lambda>b e. e\<lparr>Grouping := Grouping e @ [b]\<rparr>) data st) (\<lambda>st.
           res_bind (read_time data st) (\<lambda>st.
             read_reserved now data st))))))"

text \<open>The groups: the first is read like the others, and the top bit says that one more follows.\<close>

partial_function (option) group_loop :: "byte list \<Rightarrow> byte \<Rightarrow> byte list \<Rightarrow> (byte list \<times> byte) res option" where
  "group_loop data index groups =
     (case rd data (unat index) of
        Ok b \<Rightarrow>
          let groups = groups @ [b AND 0x7F]
          in if b AND 0x80 \<noteq> 0 then group_loop data (index + 1) groups else Some (Ok (groups, index + 1))
      | Err e \<Rightarrow> Some (Err e)
      | Panic \<Rightarrow> Some Panic)"

definition cablelabs_start :: "byte list \<Rightarrow> (cableLabsEbp \<times> byte) res" where
  "cablelabs_start data =
     (if length data < 2 then Err ErrNoPayload
      else
        let ebp = zero_cableLabsEbp\<lparr>DataFieldTag := data ! 0, DataFieldLength := data ! 1\<rparr>
        in res_bind (if DataFieldLength ebp > 0 then
               if length data \<ge> 7 then
                 res_bind (read_u32 data 2) (\<lambda>(v, index).
                   Ok (ebp\<lparr>FormatIdentifier := v, DataFlags := data ! 6\<rparr>, index + 1))
               else Err ErrInvalidEBPLength
             else Ok (ebp, 2)) (\<lambda>st.
           res_bind (read_if (ExtensionFlag (fst st)) (\<lambda>b e. e\<lparr>ExtensionFlags := b\<rparr>) data st) (\<lambda>st.
             read_if (SapFlag (fst st)) (\<lambda>b e. e\<lparr>SapType := b\<rparr>) data st)))"

definition cablelabs_end :: "time \<Rightarrow> byte list \<Rightarrow> cableLabsEbp \<times> byte \<Rightarrow> cableLabsEbp res" where
  "cablelabs_end now data st =
     res_bind (read_time data st) (\<lambda>st.
     res_bind (read_if (PartitionFlag (fst st)) (\<lambda>b e. e\<lparr>PartitionFlags := b\<rparr>) data st) (\<lambda>st.
       read_reserved now data st))"

definition readCableLabsEbp :: "time \<Rightarrow> byte list \<Rightarrow> cableLabsEbp res option" where
  "readCableLabsEbp now data =
     (case cablelabs_start data of
        Ok (ebp, index) \<Rightarrow>
          if GroupingFlag ebp then
            map_option (\<lambda>r. res_bind r (\<lambda>(groups, index).
                cablelabs_end now data (ebp\<lparr>Grouping := groups\<rparr>, index)))
              (group_loop data index [])
          else Some (cablelabs_end now data (ebp, index))
      | Err e \<Rightarrow> Some (Err e)
      | Panic \<Rightarrow> Some Panic)"

datatype encoderBoundaryPoint = ComcastEbp baseEbp | CableLabsEbp cableLabsEbp

definition ReadEncoderBoundaryPoint :: "time \<Rightarrow> byte list \<Rightarrow> encoderBoundaryPoint res option" where
  "ReadEncoderBoundaryPoint now data =
     (if length data = 0 then Some (Err ErrNoEBPData)
      else if data ! 0 = ComcastEbpTag then
        Some (res_bind (readComcastEbp now data) (\<lambda>e. Ok (ComcastEbp e)))
      else if data ! 0 = CableLabsEbpTag then
        map_option (\<lambda>r. res_bind r (\<lambda>e. Ok (CableLabsEbp e))) (readCableLabsEbp now data)
      else Some (Err ErrUnrecognizedEbpType))"

section \<open>Writing\<close>

definition time_bytes :: "'a baseEbp_scheme \<Rightarrow> byte list" where
  "time_bytes ebp = (if TimeFlag ebp then PutUint32 (TimeSeconds ebp) @ PutUint32 (TimeFraction ebp) else [])"

definition comcast_Data :: "baseEbp \<Rightarrow> byte list \<times> baseEbp" where
  "comcast_Data ebp =
     (let requiredFields = [DataFieldTag ebp]
      in if DataFieldLength ebp = 0 then ([], ebp)
         else
           let data = [DataFlags ebp];
               data = data @ (if ExtensionFlag ebp then [ExtensionFlags ebp] else []);
               data = data @ (if SapFlag ebp then [SapType ebp] else []);
               data = data @ (if GroupingFlag ebp then Grouping ebp else []);
               data = data @ time_bytes ebp;
               data = data @ ReservedBytes ebp;
               ebp = ebp\<lparr>DataFieldLength := of_nat (length data)\<rparr>
           in (requiredFields @ [DataFieldLength ebp] @ data, ebp))"

text \<open>All groups but the last get the extension flag.\<close>

fun group_bytes :: "byte list \<Rightarrow> byte list" where
  "group_bytes [] = []"
| "group_bytes [g] = [g]"
| "group_bytes (g # gs) = (g OR 0x80) # group_bytes gs"

definition cablelabs_Data :: "cableLabsEbp \<Rightarrow> byte list \<times> cableLabsEbp" where
  "cablelabs_Data ebp =
     (let requiredFields = [DataFieldTag ebp]
      in if DataFieldLength ebp = 0 then ([], ebp)
         else
           let data = PutUint32 (FormatIdentifier ebp) @ [DataFlags ebp];
               data = data @ (if ExtensionFlag ebp then [ExtensionFlags ebp] else []);
               data = data @ (if SapFlag ebp then [SapType ebp] else []);
               data = data @ (if GroupingFlag ebp then group_bytes (Grouping ebp) else []);
               data = data @ time_bytes ebp;
               data = data @ (if PartitionFlag ebp then [PartitionFlags ebp] else []);
               data = data @ ReservedBytes ebp;
               ebp = ebp\<lparr>DataFieldLength := of_nat (length data)\<rparr>
           in (requiredFields @ [DataFieldLength ebp] @ data, ebp))"

section \<open>Lemmas on the index\<close>

lemma unat_of_nat_byte: "n < 256 \<Longrightarrow> unat (of_nat n :: byte) = n"
  by (simp only: unat_of_nat) simp

lemma read_if_at:
  assumes "length pre < 256" "data = pre @ (if c then [b] else []) @ post"
  shows "read_if c upd data (e, of_nat (length pre)) =
    Ok (if c then upd b e else e, of_nat (length (pre @ (if c then [b] else []))))"
proof (cases c)
  case True
  then have "rd data (length pre) = Ok b" using assms(2) by (simp add: rd_def)
  then show ?thesis using True assms(1) by (simp add: read_if_def unat_of_nat_byte)
qed (simp add: read_if_def)

text \<open>A field that is absent when its flag is off has its value already.\<close>

lemma read_if_field:
  assumes "length pre < 256" "data = pre @ (if c then [b] else []) @ post" "\<not> c \<Longrightarrow> upd b e = e"
  shows "read_if c upd data (e, of_nat (length pre)) = Ok (upd b e, of_nat (length (pre @ (if c then [b] else []))))"
  using read_if_at [OF assms(1,2), of upd e] assms(3) by (cases c) simp_all

lemma read_u32_at:
  assumes "length pre + 4 < 256" "data = pre @ PutUint32 v @ post"
  shows "read_u32 data (of_nat (length pre)) = Ok (v, of_nat (length pre + 4))"
proof -
  have u: "unat (of_nat (length pre) + 4 :: byte) = length pre + 4"
    using unat_of_nat_byte [of "length pre + 4"] assms(1) by simp
  have "slice data (length pre) (length pre + 4) = Ok (PutUint32 v)"
    using assms(2) by (simp add: slice_def)
  then show ?thesis using assms(1) u by (simp add: read_u32_def unat_of_nat_byte)
qed

lemma read_time_at:
  assumes "TimeFlag ebp \<Longrightarrow> length pre + 8 < 256" "data = pre @ time_bytes ebp @ post" "TimeFlag ebp = TimeFlag e"
  shows "read_time data (e, of_nat (length pre)) =
    Ok (if TimeFlag e then e\<lparr>TimeSeconds := TimeSeconds ebp, TimeFraction := TimeFraction ebp\<rparr> else e,
      of_nat (length (pre @ time_bytes ebp)))"
proof (cases "TimeFlag e")
  case True
  have d: "data = pre @ PutUint32 (TimeSeconds ebp) @ (PutUint32 (TimeFraction ebp) @ post)"
    "data = (pre @ PutUint32 (TimeSeconds ebp)) @ PutUint32 (TimeFraction ebp) @ post"
    using assms(2,3) True by (simp_all add: time_bytes_def)
  have "read_u32 data (of_nat (length pre + 4)) = Ok (TimeFraction ebp, of_nat (length pre + 8))"
    using read_u32_at [OF _ d(2)] assms(1,3) True by simp
  moreover have "read_u32 data (of_nat (length pre)) = Ok (TimeSeconds ebp, of_nat (length pre + 4))"
    by (rule read_u32_at [OF _ d(1)]) (use assms(1,3) True in simp)
  ultimately show ?thesis using True assms(3) by (simp add: read_time_def time_bytes_def)
qed (use assms(3) in \<open>simp add: read_time_def time_bytes_def\<close>)

lemma read_time_field:
  assumes "TimeFlag ebp \<Longrightarrow> length pre + 8 < 256" "data = pre @ time_bytes ebp @ post" "TimeFlag ebp = TimeFlag e"
    "\<not> TimeFlag ebp \<Longrightarrow> TimeSeconds e = TimeSeconds ebp \<and> TimeFraction e = TimeFraction ebp"
  shows "read_time data (e, of_nat (length pre)) =
    Ok (e\<lparr>TimeSeconds := TimeSeconds ebp, TimeFraction := TimeFraction ebp\<rparr>, of_nat (length (pre @ time_bytes ebp)))"
proof (cases "TimeFlag e")
  case False
  then have "e\<lparr>TimeSeconds := TimeSeconds ebp, TimeFraction := TimeFraction ebp\<rparr> = e" using assms(3,4) by simp
  with False read_time_at [OF assms(1-3)] show ?thesis by simp
qed (use read_time_at [OF assms(1-3)] in simp)

lemma read_reserved_at:
  assumes "length data \<le> 255" "data = pre @ r" "unat (DataFieldLength e) + 2 = length data" "ReservedBytes e = []"
  shows "read_reserved now data (e, of_nat (length pre)) = Ok (e\<lparr>ReservedBytes := r, SuccessReadTime := now\<rparr>)"
proof -
  have l: "DataFieldLength e + 2 = of_nat (length data)"
    using assms(3) [symmetric] by simp
  have u: "unat (of_nat (length data) :: byte) = length data" "unat (of_nat (length pre) :: byte) = length pre"
    by (rule unat_of_nat_byte, use assms(1,2) in simp)+
  show ?thesis
  proof (cases "r = []")
    case True
    then show ?thesis using assms(2,4) l u by (simp add: read_reserved_def)
  next
    case False
    then have "(of_nat (length pre) :: byte) < of_nat (length data)"
      using u assms(2) by (simp add: word_less_nat_alt)
    then show ?thesis using u assms(2) by (simp add: read_reserved_def l slice_def Let_def)
  qed
qed

section \<open>Comcast points\<close>

definition ebp_fields_ok :: "'a baseEbp_scheme \<Rightarrow> bool" where
  "ebp_fields_ok ebp \<longleftrightarrow> DataFieldLength ebp \<noteq> 0 \<and>
     (\<not> ExtensionFlag ebp \<longrightarrow> ExtensionFlags ebp = 0) \<and> (\<not> SapFlag ebp \<longrightarrow> SapType ebp = 0) \<and>
     (\<not> TimeFlag ebp \<longrightarrow> TimeSeconds ebp = 0 \<and> TimeFraction ebp = 0)"

definition comcast_ok :: "baseEbp \<Rightarrow> bool" where
  "comcast_ok ebp \<longleftrightarrow> ebp_fields_ok ebp \<and> DataFieldTag ebp = ComcastEbpTag \<and>
     length (Grouping ebp) = (if GroupingFlag ebp then 1 else 0) \<and> length (fst (comcast_Data ebp)) \<le> 255"

lemma flags_length:
  "DataFieldLength (a :: 'a baseEbp_scheme) \<noteq> 0 \<Longrightarrow> DataFieldLength (b :: 'b baseEbp_scheme) \<noteq> 0 \<Longrightarrow>
   DataFlags a = DataFlags b \<Longrightarrow>
   ExtensionFlag a = ExtensionFlag b \<and> SapFlag a = SapFlag b \<and> GroupingFlag a = GroupingFlag b \<and> TimeFlag a = TimeFlag b"
  by (simp add: ExtensionFlag_def SapFlag_def GroupingFlag_def TimeFlag_def)

lemma length_time_bytes: "length (time_bytes ebp) = (if TimeFlag ebp then 8 else 0)"
  by (simp add: time_bytes_def)

text \<open>The fields behind the flags are read one after the other.\<close>

lemma comcast_fields_at:
  fixes n :: byte and d :: "byte list"
  assumes ok: "comcast_ok ebp" and n: "n \<noteq> 0" "unat n + 2 = length d" "length d \<le> 255"
    and x: "x = (if ExtensionFlag ebp then [ExtensionFlags ebp] else [])" "y = (if SapFlag ebp then [SapType ebp] else [])"
    and d: "d = [ComcastEbpTag, n, DataFlags ebp] @ x @ y @ Grouping ebp @ time_bytes ebp @ ReservedBytes ebp"
  shows "readComcastEbp now d = Ok (ebp\<lparr>DataFieldLength := n, SuccessReadTime := now\<rparr>)"
proof -
  let ?e0 = "zero_baseEbp\<lparr>DataFieldTag := ComcastEbpTag, DataFieldLength := n, DataFlags := DataFlags ebp\<rparr>"
  let ?e1 = "?e0\<lparr>ExtensionFlags := ExtensionFlags ebp\<rparr>" let ?e2 = "?e1\<lparr>SapType := SapType ebp\<rparr>"
  let ?e3 = "?e2\<lparr>Grouping := Grouping ebp\<rparr>"
  let ?e4 = "?e3\<lparr>TimeSeconds := TimeSeconds ebp, TimeFraction := TimeFraction ebp\<rparr>"
  let ?p0 = "[ComcastEbpTag, n, DataFlags ebp]"
  let ?p1 = "?p0 @ x" let ?p2 = "?p1 @ y" let ?p3 = "?p2 @ Grouping ebp" let ?p4 = "?p3 @ time_bytes ebp"
  have o: "ebp_fields_ok ebp" "DataFieldTag ebp = ComcastEbpTag" using ok by (simp_all add: comcast_ok_def)
  obtain g where g: "Grouping ebp = (if GroupingFlag ebp then [g] else [])"
    using ok by (cases "Grouping ebp") (auto simp: comcast_ok_def split: if_splits)
  have fl: "ExtensionFlag e = ExtensionFlag ebp" "SapFlag e = SapFlag ebp" "GroupingFlag e = GroupingFlag ebp"
    "TimeFlag e = TimeFlag ebp" if "DataFieldLength e = n" "DataFlags e = DataFlags ebp" for e :: baseEbp
    using flags_length [of e ebp] that n(1) o(1) by (auto simp: ebp_fields_ok_def)
  have 1: "read_if (ExtensionFlag ebp) (\<lambda>b e. e\<lparr>ExtensionFlags := b\<rparr>) d (?e0, of_nat (length ?p0)) = Ok (?e1, of_nat (length ?p1))"
    unfolding x(1) by (rule read_if_field [where post = "y @ Grouping ebp @ time_bytes ebp @ ReservedBytes ebp"])
      (use o(1) in \<open>simp_all add: d x zero_baseEbp_def ebp_fields_ok_def\<close>)
  have 2: "read_if (SapFlag ebp) (\<lambda>b e. e\<lparr>SapType := b\<rparr>) d (?e1, of_nat (length ?p1)) = Ok (?e2, of_nat (length ?p2))"
    unfolding x(2) by (rule read_if_field [where post = "Grouping ebp @ time_bytes ebp @ ReservedBytes ebp"])
      (use o(1) in \<open>simp_all add: d x zero_baseEbp_def ebp_fields_ok_def\<close>)
  have 3: "read_if (GroupingFlag ebp) (\<lambda>b e. e\<lparr>Grouping := Grouping e @ [b]\<rparr>) d (?e2, of_nat (length ?p2)) =
      Ok (?e3, of_nat (length ?p3))"
    using read_if_at [where pre = ?p2 and post = "time_bytes ebp @ ReservedBytes ebp" and b = g and c = "GroupingFlag ebp"
      and data = d and e = ?e2 and upd = "\<lambda>b e. e\<lparr>Grouping := Grouping e @ [b]\<rparr>"] g x by (simp add: d zero_baseEbp_def)
  have 4: "read_time d (?e3, of_nat (length ?p3)) = Ok (?e4, of_nat (length ?p4))"
    by (rule read_time_field [where post = "ReservedBytes ebp"])
      (use o(1) fl(4) [of ?e3] g x in \<open>simp_all add: d zero_baseEbp_def ebp_fields_ok_def\<close>)
  have 5: "read_reserved now d (?e4, of_nat (length ?p4)) = Ok (?e4\<lparr>ReservedBytes := ReservedBytes ebp, SuccessReadTime := now\<rparr>)"
    by (rule read_reserved_at) (use n in \<open>simp_all add: d zero_baseEbp_def\<close>)
  have "readComcastEbp now d =
      res_bind (read_if (ExtensionFlag ?e0) (\<lambda>b e. e\<lparr>ExtensionFlags := b\<rparr>) d (?e0, 3)) (\<lambda>st.
         res_bind (read_if (SapFlag (fst st)) (\<lambda>b e. e\<lparr>SapType := b\<rparr>) d st) (\<lambda>st.
         res_bind (read_if (GroupingFlag (fst st)) (\<lambda>b e. e\<lparr>Grouping := Grouping e @ [b]\<rparr>) d st) (\<lambda>st.
         res_bind (read_time d st) (\<lambda>st. read_reserved now d st))))"
    using n(1) by (simp add: readComcastEbp_def Let_def d word_neq_0_conv)
  also have "\<dots> = Ok (?e4\<lparr>ReservedBytes := ReservedBytes ebp, SuccessReadTime := now\<rparr>)"
    using 1 2 3 4 5 fl(1) [of ?e0] fl(2) [of ?e1] fl(3) [of ?e2] by simp
  also have "?e4\<lparr>ReservedBytes := ReservedBytes ebp, SuccessReadTime := now\<rparr> = ebp\<lparr>DataFieldLength := n, SuccessReadTime := now\<rparr>"
    using o(2) by (simp add: zero_baseEbp_def)
  finally show ?thesis .
qed

lemma comcast_read_back:
  assumes "comcast_ok ebp"
  shows "readComcastEbp now (fst (comcast_Data ebp)) = Ok ((snd (comcast_Data ebp))\<lparr>SuccessReadTime := now\<rparr>)"
proof -
  from assms have ok: "DataFieldLength ebp \<noteq> 0" "DataFieldTag ebp = ComcastEbpTag"
    "length (Grouping ebp) = (if GroupingFlag ebp then 1 else 0)" "length (fst (comcast_Data ebp)) \<le> 255"
    by (auto simp: comcast_ok_def ebp_fields_ok_def)
  let ?x = "if ExtensionFlag ebp then [ExtensionFlags ebp] else []" and ?y = "if SapFlag ebp then [SapType ebp] else []"
  let ?body = "DataFlags ebp # ?x @ ?y @ Grouping ebp @ time_bytes ebp @ ReservedBytes ebp"
  define n where "n = length ?body"
  have "Grouping ebp = (if GroupingFlag ebp then [hd (Grouping ebp)] else [])"
    using ok(3) by (cases "Grouping ebp") (auto split: if_splits)
  then have D: "comcast_Data ebp = (ComcastEbpTag # of_nat n # ?body, ebp\<lparr>DataFieldLength := of_nat n\<rparr>)"
    using ok(1,2) by (auto simp: comcast_Data_def Let_def n_def)
  have n: "n \<le> 253" "1 \<le> n" using ok(4) unfolding D by (simp_all add: n_def)
  have ln: "unat (of_nat n :: byte) = n" using n by (intro unat_of_nat_byte) simp
  then have nz: "(of_nat n :: byte) \<noteq> 0" using n by (metis unat_0 not_one_le_zero)
  have "readComcastEbp now (ComcastEbpTag # of_nat n # ?body) = Ok (ebp\<lparr>DataFieldLength := of_nat n, SuccessReadTime := now\<rparr>)"
    by (rule comcast_fields_at [OF assms nz _ _ refl refl]) (use ln n in \<open>simp_all add: n_def\<close>)
  then show ?thesis by (simp add: D)
qed

section \<open>CableLabs points\<close>

definition cablelabs_ok :: "cableLabsEbp \<Rightarrow> bool" where
  "cablelabs_ok ebp \<longleftrightarrow> ebp_fields_ok ebp \<and> DataFieldTag ebp = CableLabsEbpTag \<and>
     (if GroupingFlag ebp then Grouping ebp \<noteq> [] else Grouping ebp = []) \<and>
     (\<forall>g \<in> set (Grouping ebp). g < 0x80) \<and> (\<not> PartitionFlag ebp \<longrightarrow> PartitionFlags ebp = 0) \<and>
     length (fst (cablelabs_Data ebp)) \<le> 255"

lemma group_top_bit:
  assumes "g < (0x80 :: byte)"
  shows "g AND 0x7F = g" "g AND 0x80 = 0" "(g OR 0x80) AND 0x7F = g" "(g OR 0x80) AND 0x80 \<noteq> 0"
proof -
  have t: "take_bit 7 g = g" using assms by (intro take_bit_word_small) (simp add: word_less_nat_alt)
  then have nb: "\<not> bit g 7" by (metis bit_take_bit_iff less_irrefl)
  have e: "x AND 0x80 \<noteq> 0 \<longleftrightarrow> bit x 7" for x :: byte using and_exp_eq_0_iff_not_bit [of x 7] by simp
  have c: "bit (0x80 :: byte) k \<longleftrightarrow> k = 7" for k
  proof -
    have "(0x80 :: byte) = push_bit 7 1" by simp
    then show ?thesis by (simp only: bit_push_bit_iff) (auto simp: bit_simps)
  qed
  show "g AND 0x7F = g" unfolding and_numeral_mask by (rule t)
  show "g AND 0x80 = 0" using nb e by blast
  show "(g OR 0x80) AND 0x80 \<noteq> 0" unfolding e by (simp add: bit_simps c)
  have "take_bit 7 (g OR 0x80) = take_bit 7 g" by (rule bit_word_eqI) (auto simp: bit_simps c)
  then show "(g OR 0x80) AND 0x7F = g" unfolding and_numeral_mask t .
qed

lemma length_group_bytes [simp]: "length (group_bytes gs) = length gs"
  by (induction gs rule: group_bytes.induct) simp_all

lemma group_loop_at:
  "gs \<noteq> [] \<Longrightarrow> \<forall>g \<in> set gs. g < 0x80 \<Longrightarrow> data = pre @ group_bytes gs @ post \<Longrightarrow> length pre + length gs < 256 \<Longrightarrow>
   group_loop data (of_nat (length pre)) acc = Some (Ok (acc @ gs, of_nat (length pre + length gs)))"
proof (induction gs arbitrary: pre acc rule: group_bytes.induct)
  case (2 g)
  have "rd data (length pre) = Ok g" using "2.prems"(3) by (simp add: rd_def)
  moreover have "unat (of_nat (length pre) :: byte) = length pre"
    by (rule unat_of_nat_byte) (use "2.prems"(4) in simp)
  ultimately show ?case using group_top_bit [of g] "2.prems"(2) by (subst group_loop.simps) (simp add: add.commute)
next
  case (3 g v va)
  have "rd data (length pre) = Ok (g OR 0x80)" using "3.prems"(3) by (simp add: rd_def)
  moreover have "unat (of_nat (length pre) :: byte) = length pre"
    by (rule unat_of_nat_byte) (use "3.prems"(4) in simp)
  moreover have "group_loop data (of_nat (length (pre @ [g OR 0x80]))) (acc @ [g]) =
      Some (Ok ((acc @ [g]) @ v # va, of_nat (length (pre @ [g OR 0x80]) + length (v # va))))"
    by (rule "3.IH") (use "3.prems" in simp_all)
  ultimately show ?case using group_top_bit [of g] "3.prems"(2)
    by (subst group_loop.simps) (simp add: add.commute add.assoc)
qed simp

lemmas zero_defs = zero_cableLabsEbp_def zero_baseEbp_def baseEbp.defs cableLabsEbp.defs

text \<open>The three parts of a reader: up to the groups, the groups, and what follows them.\<close>

lemma cablelabs_start_at:
  fixes n :: byte and d post :: "byte list" and ebp :: cableLabsEbp
  assumes n: "n \<noteq> 0" and ok: "ebp_fields_ok ebp"
    and x: "x = (if ExtensionFlag ebp then [ExtensionFlags ebp] else [])" "y = (if SapFlag ebp then [SapType ebp] else [])"
    and pre: "pre = [CableLabsEbpTag, n] @ PutUint32 (FormatIdentifier ebp) @ [DataFlags ebp]" and d: "d = pre @ x @ y @ post"
  shows "cablelabs_start d = Ok (zero_cableLabsEbp\<lparr>DataFieldTag := CableLabsEbpTag, DataFieldLength := n,
      FormatIdentifier := FormatIdentifier ebp, DataFlags := DataFlags ebp, ExtensionFlags := ExtensionFlags ebp,
      SapType := SapType ebp\<rparr>, of_nat (length (pre @ x @ y)))"
proof -
  let ?e0 = "zero_cableLabsEbp\<lparr>DataFieldTag := CableLabsEbpTag, DataFieldLength := n,
      FormatIdentifier := FormatIdentifier ebp, DataFlags := DataFlags ebp\<rparr>"
  let ?e1 = "?e0\<lparr>ExtensionFlags := ExtensionFlags ebp\<rparr>"
  have fl: "ExtensionFlag ?e0 = ExtensionFlag ebp" "SapFlag ?e1 = SapFlag ebp"
    using flags_length [of ?e0 ebp] flags_length [of ?e1 ebp] n ok by (auto simp: ebp_fields_ok_def)
  have fid: "read_u32 d 2 = Ok (FormatIdentifier ebp, 6)"
    using read_u32_at [of "[CableLabsEbpTag, n]" d "FormatIdentifier ebp" "[DataFlags ebp] @ x @ y @ post"] by (simp add: d pre)
  have 1: "read_if (ExtensionFlag ebp) (\<lambda>b e. e\<lparr>ExtensionFlags := b\<rparr>) d (?e0, of_nat (length pre)) =
      Ok (?e1, of_nat (length (pre @ x)))"
    unfolding x(1) by (rule read_if_field [where post = "y @ post"]) (use ok in \<open>simp_all add: d x pre zero_defs ebp_fields_ok_def\<close>)
  have 2: "read_if (SapFlag ebp) (\<lambda>b e. e\<lparr>SapType := b\<rparr>) d (?e1, of_nat (length (pre @ x))) =
      Ok (?e1\<lparr>SapType := SapType ebp\<rparr>, of_nat (length ((pre @ x) @ y)))"
    unfolding x(2) by (rule read_if_field [where post = post]) (use ok in \<open>simp_all add: d x pre zero_defs ebp_fields_ok_def\<close>)
  have l: "\<not> length d < 2" "7 \<le> length d" "d ! 0 = CableLabsEbpTag" "d ! 1 = n" "d ! 6 = DataFlags ebp"
    by (simp_all add: d pre PutUint32_def)
  have h: "(0 :: byte) < n" using n by (simp add: word_neq_0_conv)
  have "cablelabs_start d =
      res_bind (read_if (ExtensionFlag ?e0) (\<lambda>b e. e\<lparr>ExtensionFlags := b\<rparr>) d (?e0, 7)) (\<lambda>st.
         read_if (SapFlag (fst st)) (\<lambda>b e. e\<lparr>SapType := b\<rparr>) d st)"
    unfolding cablelabs_start_def Let_def using l h fid by simp
  then show ?thesis using 1 2 fl by (simp add: pre)
qed

lemma cablelabs_end_at:
  fixes d pre :: "byte list"
  assumes ok: "cablelabs_ok ebp" and d: "d = pre @ time_bytes ebp @ (if PartitionFlag ebp then [PartitionFlags ebp] else []) @ ReservedBytes ebp"
    and e: "DataFieldLength e \<noteq> 0" "unat (DataFieldLength e) + 2 = length d" "length d \<le> 255" "DataFlags e = DataFlags ebp"
      "ExtensionFlags e = ExtensionFlags ebp" "TimeSeconds e = 0" "TimeFraction e = 0" "PartitionFlags e = 0" "ReservedBytes e = []"
  shows "cablelabs_end now d (e, of_nat (length pre)) = Ok (e\<lparr>TimeSeconds := TimeSeconds ebp, TimeFraction := TimeFraction ebp,
      PartitionFlags := PartitionFlags ebp, ReservedBytes := ReservedBytes ebp, SuccessReadTime := now\<rparr>)"
proof -
  let ?t = "time_bytes ebp" and ?q = "if PartitionFlag ebp then [PartitionFlags ebp] else []"
  let ?e1 = "e\<lparr>TimeSeconds := TimeSeconds ebp, TimeFraction := TimeFraction ebp\<rparr>"
  let ?e2 = "?e1\<lparr>PartitionFlags := PartitionFlags ebp\<rparr>"
  have o: "DataFieldLength ebp \<noteq> 0" "\<not> TimeFlag ebp \<Longrightarrow> TimeSeconds ebp = 0 \<and> TimeFraction ebp = 0"
    "\<not> PartitionFlag ebp \<Longrightarrow> PartitionFlags ebp = 0" using ok by (auto simp: cablelabs_ok_def ebp_fields_ok_def)
  have fl: "TimeFlag e = TimeFlag ebp" "PartitionFlag ?e1 = PartitionFlag ebp"
    using flags_length [of e ebp] flags_length [of ?e1 ebp] e(1,4,5) o(1) by (auto simp: PartitionFlag_def)
  have 1: "read_time d (e, of_nat (length pre)) = Ok (?e1, of_nat (length (pre @ ?t)))"
    by (rule read_time_field [where post = "?q @ ReservedBytes ebp"]) (use o(2) fl e in \<open>auto simp: d length_time_bytes\<close>)
  have 2: "read_if (PartitionFlag ebp) (\<lambda>b e. e\<lparr>PartitionFlags := b\<rparr>) d (?e1, of_nat (length (pre @ ?t))) =
      Ok (?e2, of_nat (length ((pre @ ?t) @ ?q)))"
    by (rule read_if_field [where post = "ReservedBytes ebp"]) (use o(3) e in \<open>simp_all add: d\<close>)
  have 3: "read_reserved now d (?e2, of_nat (length ((pre @ ?t) @ ?q))) =
      Ok (?e2\<lparr>ReservedBytes := ReservedBytes ebp, SuccessReadTime := now\<rparr>)"
    by (rule read_reserved_at) (use e in \<open>simp_all add: d\<close>)
  show ?thesis unfolding cablelabs_end_def using 1 2 3 fl(2) by simp
qed

lemma cablelabs_read_back:
  assumes "cablelabs_ok ebp"
  shows "readCableLabsEbp now (fst (cablelabs_Data ebp)) =
    Some (Ok ((snd (cablelabs_Data ebp))\<lparr>SuccessReadTime := now\<rparr>))"
proof -
  from assms have ok: "ebp_fields_ok ebp" "DataFieldLength ebp \<noteq> 0" "DataFieldTag ebp = CableLabsEbpTag"
    "GroupingFlag ebp \<Longrightarrow> Grouping ebp \<noteq> []" "\<not> GroupingFlag ebp \<Longrightarrow> Grouping ebp = []"
    "\<forall>g \<in> set (Grouping ebp). g < 0x80" "length (fst (cablelabs_Data ebp)) \<le> 255"
    by (auto simp: cablelabs_ok_def ebp_fields_ok_def split: if_splits)
  let ?x = "if ExtensionFlag ebp then [ExtensionFlags ebp] else []"
  let ?s = "if SapFlag ebp then [SapType ebp] else []"
  let ?g = "if GroupingFlag ebp then group_bytes (Grouping ebp) else []"
  let ?q = "if PartitionFlag ebp then [PartitionFlags ebp] else []"
  let ?after = "time_bytes ebp @ ?q @ ReservedBytes ebp"
  let ?body = "PutUint32 (FormatIdentifier ebp) @ [DataFlags ebp] @ ?x @ ?s @ ?g @ ?after"
  define n where "n = length ?body"
  define d where "d = [CableLabsEbpTag, of_nat n] @ ?body"
  have D: "cablelabs_Data ebp = (d, ebp\<lparr>DataFieldLength := of_nat n\<rparr>)"
    using ok(2,3) by (simp add: cablelabs_Data_def Let_def d_def n_def)
  have "n + 2 \<le> 255" using ok(7) unfolding D by (simp add: d_def n_def)
  then have n: "n \<le> 253" "5 \<le> n" by (simp_all add: n_def)
  have ln: "unat (of_nat n :: byte) = n" using n by (intro unat_of_nat_byte) simp
  then have nz: "(of_nat n :: byte) \<noteq> 0" using n by (metis unat_0 not_numeral_le_zero)
  have ld: "length d = n + 2" by (simp add: d_def n_def)
  let ?p2 = "([CableLabsEbpTag, of_nat n] @ PutUint32 (FormatIdentifier ebp) @ [DataFlags ebp]) @ ?x @ ?s"
  let ?e2 = "zero_cableLabsEbp\<lparr>DataFieldTag := CableLabsEbpTag, DataFieldLength := of_nat n,
      FormatIdentifier := FormatIdentifier ebp, DataFlags := DataFlags ebp, ExtensionFlags := ExtensionFlags ebp,
      SapType := SapType ebp\<rparr>"
  let ?e3 = "?e2\<lparr>Grouping := Grouping ebp\<rparr>"
  let ?e6 = "?e3\<lparr>TimeSeconds := TimeSeconds ebp, TimeFraction := TimeFraction ebp, PartitionFlags := PartitionFlags ebp,
      ReservedBytes := ReservedBytes ebp, SuccessReadTime := now\<rparr>"
  have st: "cablelabs_start d = Ok (?e2, of_nat (length ?p2))"
    by (rule cablelabs_start_at [OF nz ok(1) refl refl refl, where post = "?g @ ?after"]) (simp add: d_def)
  have gr: "group_loop d (of_nat (length ?p2)) [] = Some (Ok (Grouping ebp, of_nat (length (?p2 @ ?g))))" if "GroupingFlag ebp"
    using group_loop_at [of "Grouping ebp" d ?p2 ?after "[]"] ok(4,6) that n(1) by (simp add: n_def d_def)
  have e: "cablelabs_end now d (?e3, of_nat (length (?p2 @ ?g))) = Ok ?e6"
    by (rule cablelabs_end_at [OF assms]) (use ok(7) nz n ln ld in \<open>simp_all add: d_def zero_defs\<close>)
  have gf: "GroupingFlag ?e2 = GroupingFlag ebp" using flags_length [of ?e2 ebp] nz ok(2) by (simp add: zero_defs)
  have "readCableLabsEbp now d = Some (Ok ?e6)"
  proof (cases "GroupingFlag ebp")
    case True
    then show ?thesis unfolding readCableLabsEbp_def st using gf gr e by simp
  next
    case False
    then have "?e3 = ?e2" using ok(5) by (simp add: zero_defs)
    then show ?thesis unfolding readCableLabsEbp_def st using gf e False by simp
  qed
  moreover have "?e6 = ebp\<lparr>DataFieldLength := of_nat n, SuccessReadTime := now\<rparr>" using ok(3) by (simp add: zero_defs)
  ultimately show ?thesis unfolding D by simp
qed

section \<open>When the loop over the groups ends\<close>

lemma group_loop_returns:
  assumes "length data < 256"
  shows "\<exists>r. group_loop data index acc = Some r"
proof (induction "length data - unat index" arbitrary: index acc rule: less_induct)
  case less
  show ?case
  proof (cases "unat index < length data")
    case True
    then have "unat (index + 1) = unat index + 1" using assms by (simp add: unat_word_ariths)
    then have "length data - unat (index + 1) < length data - unat index" using True by linarith
    from less.hyps [OF this] show ?thesis using True by (subst group_loop.simps) (simp add: Let_def)
  qed (subst group_loop.simps, simp add: rd_def)
qed

lemma group_loop_diverges:
  assumes "group_loop data index acc = Some r"
  shows "256 \<le> length data \<longrightarrow> \<not> (\<forall>i < 256. data ! i AND 0x80 \<noteq> 0)"
proof (rule group_loop.raw_induct [OF _ assms, where P = "\<lambda>data _ _ _. 256 \<le> length data \<longrightarrow> \<not> (\<forall>i < 256. data ! i AND 0x80 \<noteq> 0)"], intro impI notI)
  fix loop :: "byte list \<Rightarrow> byte \<Rightarrow> byte list \<Rightarrow> (byte list \<times> byte) res option"
  fix data index groups y
  assume IH: "\<And>data index groups y. loop data index groups = Some y \<Longrightarrow>
      256 \<le> length data \<longrightarrow> \<not> (\<forall>i < 256. data ! i AND 0x80 \<noteq> 0)"
    and body: "(case rd data (unat index) of
        Ok b \<Rightarrow>
          let groups = groups @ [b AND 0x7F]
          in if b AND 0x80 \<noteq> 0 then loop data (index + 1) groups else Some (Ok (groups, index + 1))
      | Err e \<Rightarrow> Some (Err e)
      | Panic \<Rightarrow> Some Panic) = Some y"
    and l: "256 \<le> length data" and a: "\<forall>i < 256. data ! i AND 0x80 \<noteq> 0"
  have i: "unat index < 256" by (rule order.strict_trans2 [OF unsigned_less]) simp
  then have "rd data (unat index) = Ok (data ! unat index)" using l by (simp add: rd_def)
  moreover have "data ! unat index AND 0x80 \<noteq> 0" using a i by blast
  ultimately have "loop data (index + 1) (groups @ [data ! unat index AND 0x7F]) = Some y"
    using body by (simp add: Let_def)
  from IH [OF this] l a show False by blast
qed

lemma group_loop_ends:
  fixes i :: byte
  assumes "256 \<le> length data" "data ! unat i AND 0x80 = 0"
  shows "\<exists>r. group_loop data index acc = Some r"
proof (induction "unat (i - index)" arbitrary: index acc rule: less_induct)
  case less
  have "unat index < 256" by (rule order.strict_trans2 [OF unsigned_less]) simp
  then have d: "rd data (unat index) = Ok (data ! unat index)" using assms(1) by (simp add: rd_def)
  show ?case
  proof (cases "index = i")
    case True
    then show ?thesis using d assms(2) by (subst group_loop.simps) (simp add: Let_def)
  next
    case False
    then have "i - index \<noteq> 0" by simp
    then have "unat (i - index) \<noteq> 0" "unat (i - (index + 1)) = unat (i - index) - 1"
      by (simp_all add: unat_eq_zero diff_diff_eq [symmetric] unat_minus_one)
    then have "unat (i - (index + 1)) < unat (i - index)" by linarith
    from less.hyps [OF this] d show ?thesis by (subst group_loop.simps) (simp add: Let_def)
  qed
qed

lemma group_loop_None:
  "group_loop data index acc = None \<longleftrightarrow> 256 \<le> length data \<and> (\<forall>i < 256. data ! i AND 0x80 \<noteq> 0)"
proof
  assume n: "group_loop data index acc = None"
  then have l: "256 \<le> length data" using group_loop_returns [of data index acc] by fastforce
  moreover have "data ! i AND 0x80 \<noteq> 0" if "i < 256" for i
  proof -
    have "unat (of_nat i :: byte) = i" using that by (rule unat_of_nat_byte)
    with group_loop_ends [OF l, of "of_nat i" index acc] n show ?thesis by (metis option.distinct(1))
  qed
  ultimately show "256 \<le> length data \<and> (\<forall>i < 256. data ! i AND 0x80 \<noteq> 0)" by blast
qed (use group_loop_diverges [of data index acc] in \<open>cases "group_loop data index acc"; blast\<close>)

lemma cablelabs_start_long:
  assumes "256 \<le> length data"
  shows "\<exists>e i. cablelabs_start data = Ok (e, i) \<and> (GroupingFlag e \<longleftrightarrow> data ! 1 \<noteq> 0 \<and> data ! 6 AND 0x10 \<noteq> 0)"
proof -
  have r: "rd data k = Ok (data ! k)" if "k < 256" for k using that assms by (simp add: rd_def)
  have "length (take 4 (drop 2 data)) = 4" using assms by simp
  then obtain v where "read_u32 data 2 = Ok (v, 6)"
    using assms by (auto simp: read_u32_def slice_def be_uint32_def rd_def)
  then show ?thesis
    using assms by (auto simp: cablelabs_start_def read_if_def r Let_def GroupingFlag_def ExtensionFlag_def SapFlag_def
        zero_defs word_neq_0_conv [symmetric])
qed

lemma readCableLabs_None:
  "readCableLabsEbp now data = None \<longleftrightarrow>
    256 \<le> length data \<and> data ! 6 AND 0x10 \<noteq> 0 \<and> (\<forall>i < 256. data ! i AND 0x80 \<noteq> 0)" (is "_ \<longleftrightarrow> ?r")
proof (cases "256 \<le> length data")
  case True
  obtain e i where "cablelabs_start data = Ok (e, i)" "GroupingFlag e \<longleftrightarrow> data ! 1 \<noteq> 0 \<and> data ! 6 AND 0x10 \<noteq> 0"
    using cablelabs_start_long [OF True] by blast
  moreover have "data ! 1 \<noteq> 0" if "\<forall>i < 256. data ! i AND 0x80 \<noteq> 0"
    using that [rule_format, of 1] by auto
  ultimately show ?thesis using True by (auto simp: readCableLabsEbp_def group_loop_None)
next
  case False
  then have "group_loop data i g \<noteq> None" for i g by (simp add: group_loop_None)
  with False show ?thesis by (auto simp: readCableLabsEbp_def split: res.splits prod.splits)
qed

section \<open>Properties\<close>

text \<open>C20: what is read back from the bytes of \<open>Data\<close>, for a boundary point of either kind that
  has the tag of its kind, a length field other than zero, fields that are zero where its flags say they are absent,
  and exactly when the grouping flag is set one group (Comcast) or a non-empty list of groups below 128 (CableLabs):
  when \<open>Data\<close> gives at most 255 bytes (a body of at most 253), all fields are read back, with the
  length that \<open>Data\<close> computed and the time of reading. A longer body is not covered: its length plus
  two overflows the \<open>uint8\<close> that bounds the reserved bytes, and \<open>EBP_overlong\<close> proves, for Comcast points
  without optional fields and bodies of 254 and 255 bytes, that the reserved bytes are lost.
  Of a point with length field zero \<open>Data\<close> gives no bytes at all, whatever its other
  fields hold, and reading those is an error.\<close>

theorem EBP_roundtrip:
  "(comcast_ok c \<longrightarrow> ReadEncoderBoundaryPoint now (fst (comcast_Data c)) =
      Some (Ok (ComcastEbp ((snd (comcast_Data c))\<lparr>SuccessReadTime := now\<rparr>)))) \<and>
   (cablelabs_ok l \<longrightarrow> ReadEncoderBoundaryPoint now (fst (cablelabs_Data l)) =
      Some (Ok (CableLabsEbp ((snd (cablelabs_Data l))\<lparr>SuccessReadTime := now\<rparr>)))) \<and>
   (DataFieldLength c = 0 \<longrightarrow> fst (comcast_Data c) = []) \<and> (DataFieldLength l = 0 \<longrightarrow> fst (cablelabs_Data l) = []) \<and>
   ReadEncoderBoundaryPoint now [] = Some (Err ErrNoEBPData)"
proof (intro conjI impI)
  assume c: "comcast_ok c"
  then have "fst (comcast_Data c) \<noteq> []" "fst (comcast_Data c) ! 0 = ComcastEbpTag"
    by (simp_all add: comcast_Data_def comcast_ok_def ebp_fields_ok_def Let_def)
  then show "ReadEncoderBoundaryPoint now (fst (comcast_Data c)) =
      Some (Ok (ComcastEbp ((snd (comcast_Data c))\<lparr>SuccessReadTime := now\<rparr>)))"
    using comcast_read_back [OF c] by (simp add: ReadEncoderBoundaryPoint_def)
next
  assume l: "cablelabs_ok l"
  then have "fst (cablelabs_Data l) \<noteq> []" "fst (cablelabs_Data l) ! 0 = CableLabsEbpTag"
    by (simp_all add: cablelabs_Data_def cablelabs_ok_def ebp_fields_ok_def Let_def)
  then show "ReadEncoderBoundaryPoint now (fst (cablelabs_Data l)) =
      Some (Ok (CableLabsEbp ((snd (cablelabs_Data l))\<lparr>SuccessReadTime := now\<rparr>)))"
    using cablelabs_read_back [OF l] by (simp add: ReadEncoderBoundaryPoint_def ebp_consts)
qed (simp_all add: comcast_Data_def cablelabs_Data_def ReadEncoderBoundaryPoint_def)

text \<open>A point whose body has 254 or 255 bytes is written with its length, but the end of its data field, the length
  plus two, wraps around, and the reader finds no reserved bytes at all.\<close>

theorem EBP_overlong:
  assumes "comcast_ok (c\<lparr>ReservedBytes := []\<rparr>)" "DataFlags c = 0" "length (ReservedBytes c) \<in> {253, 254}"
  shows "fst (comcast_Data c) = [ComcastEbpTag, of_nat (length (ReservedBytes c) + 1), 0] @ ReservedBytes c \<and>
    ReadEncoderBoundaryPoint now (fst (comcast_Data c)) =
      Some (Ok (ComcastEbp ((snd (comcast_Data c))\<lparr>ReservedBytes := [], SuccessReadTime := now\<rparr>)))"
proof -
  let ?n = "of_nat (length (ReservedBytes c) + 1) :: byte"
  have f: "DataFieldLength c \<noteq> 0" "DataFieldTag c = ComcastEbpTag" "Grouping c = []" "ExtensionFlags c = 0"
    "SapType c = 0" "TimeSeconds c = 0" "TimeFraction c = 0"
    using assms(1,2) by (simp_all add: comcast_ok_def ebp_fields_ok_def ExtensionFlag_def SapFlag_def TimeFlag_def GroupingFlag_def)
  have n: "?n = 254 \<or> ?n = 255" using assms(3) by auto
  have D: "comcast_Data c = ([ComcastEbpTag, ?n, 0] @ ReservedBytes c, c\<lparr>DataFieldLength := ?n\<rparr>)"
    using f assms(2) by (simp add: comcast_Data_def time_bytes_def ExtensionFlag_def SapFlag_def TimeFlag_def GroupingFlag_def Let_def)
  have "readComcastEbp now ([ComcastEbpTag, ?n, 0] @ ReservedBytes c) =
      Ok (c\<lparr>DataFieldLength := ?n, ReservedBytes := [], SuccessReadTime := now\<rparr>)"
    using n f assms(2,3) by (cases c) (auto simp: readComcastEbp_def read_if_def read_time_def read_reserved_def zero_baseEbp_def
        ExtensionFlag_def SapFlag_def TimeFlag_def GroupingFlag_def Let_def)
  with D show ?thesis by (simp add: ReadEncoderBoundaryPoint_def)
qed

theorem EBP_overlong_witness:
  "\<exists>e. ReadEncoderBoundaryPoint 0 (fst (comcast_Data (CreateComcastEBP\<lparr>ReservedBytes := replicate 253 7\<rparr>))) = Some (Ok (ComcastEbp e)) \<and>
     ReservedBytes e = []"
proof -
  let ?c = "CreateComcastEBP\<lparr>ReservedBytes := replicate 253 7\<rparr>"
  have "comcast_ok (CreateComcastEBP\<lparr>ReservedBytes := []\<rparr>)"
    by (simp add: comcast_ok_def ebp_fields_ok_def CreateComcastEBP_def zero_baseEbp_def GroupingFlag_def comcast_Data_def
        length_time_bytes ExtensionFlag_def SapFlag_def TimeFlag_def Let_def)
  then have "comcast_ok (?c\<lparr>ReservedBytes := []\<rparr>)" by simp
  moreover have "DataFlags ?c = 0" "length (ReservedBytes ?c) \<in> {253, 254}" by (simp_all add: CreateComcastEBP_def zero_baseEbp_def)
  ultimately show ?thesis using EBP_overlong [of ?c 0] by (intro exI conjI) (blast, simp)
qed

abbreviation example_comcast :: baseEbp where
  "example_comcast \<equiv> CreateComcastEBP\<lparr>DataFlags := 0x48, TimeSeconds := 0xD0000000, TimeFraction := 7\<rparr>"

abbreviation example_cablelabs :: cableLabsEbp where
  "example_cablelabs \<equiv> CreateCableLabsEbp\<lparr>DataFlags := 0x11, ExtensionFlags := 0x80, PartitionFlags := 3,
     Grouping := [0x1D, 5], ReservedBytes := [1, 2]\<rparr>"

theorem EBP_roundtrip_witness:
  "ReadEncoderBoundaryPoint 0 (fst (comcast_Data example_comcast)) = Some (Ok (ComcastEbp (snd (comcast_Data example_comcast)))) \<and>
   (\<exists>e. ReadEncoderBoundaryPoint 9 (fst (cablelabs_Data example_cablelabs)) = Some (Ok (CableLabsEbp e)) \<and>
     Grouping e = [0x1D, 5] \<and> PartitionFlags e = 3 \<and> StreamSyncSignal e = StreamSynchronized)"
proof -
  have c: "comcast_ok example_comcast"
    by (simp add: comcast_ok_def ebp_fields_ok_def CreateComcastEBP_def zero_baseEbp_def ExtensionFlag_def SapFlag_def
        TimeFlag_def GroupingFlag_def comcast_Data_def length_time_bytes Let_def)
  have l: "cablelabs_ok example_cablelabs"
    by (simp add: cablelabs_ok_def ebp_fields_ok_def CreateCableLabsEbp_def zero_cableLabsEbp_def zero_baseEbp_def
        baseEbp.defs cableLabsEbp.defs ExtensionFlag_def SapFlag_def TimeFlag_def GroupingFlag_def PartitionFlag_def
        cablelabs_Data_def length_time_bytes Let_def)
  have "(snd (comcast_Data example_comcast))\<lparr>SuccessReadTime := 0\<rparr> = snd (comcast_Data example_comcast)"
    by (simp add: comcast_Data_def CreateComcastEBP_def zero_baseEbp_def Let_def)
  moreover have "Grouping (snd (cablelabs_Data example_cablelabs)) = [0x1D, 5]"
    "PartitionFlags (snd (cablelabs_Data example_cablelabs)) = 3"
    by (simp_all add: cablelabs_Data_def CreateCableLabsEbp_def zero_cableLabsEbp_def zero_baseEbp_def
        baseEbp.defs cableLabsEbp.defs Let_def)
  ultimately show ?thesis
    using EBP_roundtrip [of example_comcast 0 example_cablelabs] EBP_roundtrip [of example_comcast 9 example_cablelabs] c l
    by (simp add: StreamSyncSignal_def StreamSynchronized_def)
qed

text \<open>C21: exactly when reading a boundary point does not return. The index of the loop over the groups is a
  \<open>uint8\<close>, so that the loop never ends when the top bit of each of the first 256 bytes is set; this
  takes data of at least 256 bytes that begin with the CableLabs tag and have the grouping flag (bit 4 of the
  seventh byte). On all other data, and so on all data of less than 256 bytes, the reader returns a value, an error
  or a panic.\<close>

theorem ReadEBP_returns:
  "ReadEncoderBoundaryPoint now data = None \<longleftrightarrow>
     256 \<le> length data \<and> data ! 0 = CableLabsEbpTag \<and> data ! 6 AND 0x10 \<noteq> 0 \<and> (\<forall>i < 256. data ! i AND 0x80 \<noteq> 0)"
  by (auto simp: ReadEncoderBoundaryPoint_def readCableLabs_None ebp_consts)

theorem ReadEBP_returns_witness:
  "ReadEncoderBoundaryPoint 0 (CableLabsEbpTag # replicate 255 0xFF) = None \<and>
   (\<exists>r. ReadEncoderBoundaryPoint 0 (0xDF # replicate 255 0xEF) = Some r)"
  using ReadEBP_returns [of 0 "CableLabsEbpTag # replicate 255 0xFF"] ReadEBP_returns [of 0 "0xDF # replicate 255 0xEF"]
  by (auto simp: CableLabsEbpTag_def nth_Cons' nth_replicate)

end
