(* ===== verification/Scte_Types.thy ===== *)
theory Scte_Types
  imports Gots_Time Psi_PMT
begin

text \<open>
  \<^verbatim>\<open>gots/scte35/doc.go\<close>: the numbers that SCTE-35 messages are made of, the tables of their names, and
  the completion test of the accumulator, which is the one of the program map table.  A Go map of
  names is an association list; a missing key gives the empty string.
\<close>

section \<open>SpliceCommandType\<close>

type_synonym SpliceCommandType = u16

definition SpliceNull :: SpliceCommandType where "SpliceNull = 0x00"
definition SpliceSchedule :: SpliceCommandType where "SpliceSchedule = 0x04"
definition SpliceInsert :: SpliceCommandType where "SpliceInsert = 0x05"
definition TimeSignal :: SpliceCommandType where "TimeSignal = 0x06"
definition BandwidthReservation :: SpliceCommandType where "BandwidthReservation = 0x07"
definition PrivateCommand :: SpliceCommandType where "PrivateCommand = 0xFF"

lemmas splice_command_types = SpliceNull_def SpliceSchedule_def SpliceInsert_def
  TimeSignal_def BandwidthReservation_def PrivateCommand_def

definition SpliceCommandTypeNames :: "(SpliceCommandType \<times> string) list" where
  "SpliceCommandTypeNames =
     [(SpliceNull, ''SpliceNull''),
      (SpliceSchedule, ''SpliceSchedule''),
      (SpliceInsert, ''SpliceInsert''),
      (TimeSignal, ''TimeSignal''),
      (BandwidthReservation, ''BandwidthReservation''),
      (PrivateCommand, ''PrivateCommand'')]"

section \<open>DeviceRestrictions\<close>

type_synonym DeviceRestrictions = byte

definition RestrictGroup0 :: DeviceRestrictions where "RestrictGroup0 = 0x00"
definition RestrictGroup1 :: DeviceRestrictions where "RestrictGroup1 = 0x01"
definition RestrictGroup2 :: DeviceRestrictions where "RestrictGroup2 = 0x02"
definition RestrictNone :: DeviceRestrictions where "RestrictNone = 0x03"

lemmas device_restrictions = RestrictGroup0_def RestrictGroup1_def RestrictGroup2_def
  RestrictNone_def

definition DeviceRestrictionsNames :: "(DeviceRestrictions \<times> string) list" where
  "DeviceRestrictionsNames =
     [(RestrictGroup0, ''RestrictGroup0''),
      (RestrictGroup1, ''RestrictGroup1''),
      (RestrictGroup2, ''RestrictGroup2''),
      (RestrictNone, ''RestrictNone'')]"

section \<open>SegDescType\<close>

type_synonym SegDescType = byte

definition SegDescNotIndicated :: SegDescType where "SegDescNotIndicated = 0x00"
definition SegDescContentIdentification :: SegDescType where "SegDescContentIdentification = 0x01"
definition SegDescProgramStart :: SegDescType where "SegDescProgramStart = 0x10"
definition SegDescProgramEnd :: SegDescType where "SegDescProgramEnd = 0x11"
definition SegDescProgramEarlyTermination :: SegDescType where "SegDescProgramEarlyTermination = 0x12"
definition SegDescProgramBreakaway :: SegDescType where "SegDescProgramBreakaway = 0x13"
definition SegDescProgramResumption :: SegDescType where "SegDescProgramResumption = 0x14"
definition SegDescProgramRunoverPlanned :: SegDescType where "SegDescProgramRunoverPlanned = 0x15"
definition SegDescProgramRunoverUnplanned :: SegDescType where "SegDescProgramRunoverUnplanned = 0x16"
definition SegDescProgramOverlapStart :: SegDescType where "SegDescProgramOverlapStart = 0x17"
definition SegDescProgramBlackoutOverride :: SegDescType where "SegDescProgramBlackoutOverride = 0x18"
definition SegDescProgramStartInProgress :: SegDescType where "SegDescProgramStartInProgress = 0x19"
definition SegDescChapterStart :: SegDescType where "SegDescChapterStart = 0x20"
definition SegDescChapterEnd :: SegDescType where "SegDescChapterEnd = 0x21"
definition SegDescBreakStart :: SegDescType where "SegDescBreakStart = 0x22"
definition SegDescBreakEnd :: SegDescType where "SegDescBreakEnd = 0x23"
definition SegDescOpeningCreditStart :: SegDescType where "SegDescOpeningCreditStart = 0x24"
definition SegDescOpeningCreditEnd :: SegDescType where "SegDescOpeningCreditEnd = 0x25"
definition SegDescClosingCreditStart :: SegDescType where "SegDescClosingCreditStart = 0x26"
definition SegDescClosingCreditEnd :: SegDescType where "SegDescClosingCreditEnd = 0x27"
definition SegDescProviderAdvertisementStart :: SegDescType where "SegDescProviderAdvertisementStart = 0x30"
definition SegDescProviderAdvertisementEnd :: SegDescType where "SegDescProviderAdvertisementEnd = 0x31"
definition SegDescDistributorAdvertisementStart :: SegDescType where "SegDescDistributorAdvertisementStart = 0x32"
definition SegDescDistributorAdvertisementEnd :: SegDescType where "SegDescDistributorAdvertisementEnd = 0x33"
definition SegDescProviderPOStart :: SegDescType where "SegDescProviderPOStart = 0x34"
definition SegDescProviderPOEnd :: SegDescType where "SegDescProviderPOEnd = 0x35"
definition SegDescDistributorPOStart :: SegDescType where "SegDescDistributorPOStart = 0x36"
definition SegDescDistributorPOEnd :: SegDescType where "SegDescDistributorPOEnd = 0x37"
definition SegDescProviderPromoStart :: SegDescType where "SegDescProviderPromoStart = 0x3C"
definition SegDescProviderPromoEnd :: SegDescType where "SegDescProviderPromoEnd = 0x3D"
definition SegDescUnscheduledEventStart :: SegDescType where "SegDescUnscheduledEventStart = 0x40"
definition SegDescUnscheduledEventEnd :: SegDescType where "SegDescUnscheduledEventEnd = 0x41"
definition SegDescAlternateContentOpportunityStart :: SegDescType where "SegDescAlternateContentOpportunityStart = 0x42"
definition SegDescAlternateContentOpportunityEnd :: SegDescType where "SegDescAlternateContentOpportunityEnd = 0x43"
definition SegDescProviderAdBlockStart :: SegDescType where "SegDescProviderAdBlockStart = 0x44"
definition SegDescProviderAdBlockEnd :: SegDescType where "SegDescProviderAdBlockEnd = 0x45"
definition SegDescNetworkStart :: SegDescType where "SegDescNetworkStart = 0x50"
definition SegDescNetworkEnd :: SegDescType where "SegDescNetworkEnd = 0x51"

lemmas seg_desc_types = SegDescNotIndicated_def SegDescContentIdentification_def SegDescProgramStart_def
  SegDescProgramEnd_def SegDescProgramEarlyTermination_def SegDescProgramBreakaway_def
  SegDescProgramResumption_def SegDescProgramRunoverPlanned_def SegDescProgramRunoverUnplanned_def
  SegDescProgramOverlapStart_def SegDescProgramBlackoutOverride_def SegDescProgramStartInProgress_def
  SegDescChapterStart_def SegDescChapterEnd_def SegDescBreakStart_def
  SegDescBreakEnd_def SegDescOpeningCreditStart_def SegDescOpeningCreditEnd_def
  SegDescClosingCreditStart_def SegDescClosingCreditEnd_def SegDescProviderAdvertisementStart_def
  SegDescProviderAdvertisementEnd_def SegDescDistributorAdvertisementStart_def SegDescDistributorAdvertisementEnd_def
  SegDescProviderPOStart_def SegDescProviderPOEnd_def SegDescDistributorPOStart_def
  SegDescDistributorPOEnd_def SegDescProviderPromoStart_def SegDescProviderPromoEnd_def
  SegDescUnscheduledEventStart_def SegDescUnscheduledEventEnd_def SegDescAlternateContentOpportunityStart_def
  SegDescAlternateContentOpportunityEnd_def SegDescProviderAdBlockStart_def SegDescProviderAdBlockEnd_def
  SegDescNetworkStart_def SegDescNetworkEnd_def

definition SegDescTypeNames :: "(SegDescType \<times> string) list" where
  "SegDescTypeNames =
     [(SegDescNotIndicated, ''SegDescNotIndicated''),
      (SegDescContentIdentification, ''SegDescContentIdentification''),
      (SegDescProgramStart, ''SegDescProgramStart''),
      (SegDescProgramEnd, ''SegDescProgramEnd''),
      (SegDescProgramEarlyTermination, ''SegDescProgramEarlyTermination''),
      (SegDescProgramBreakaway, ''SegDescProgramBreakaway''),
      (SegDescProgramResumption, ''SegDescProgramResumption''),
      (SegDescProgramRunoverPlanned, ''SegDescProgramRunoverPlanned''),
      (SegDescProgramRunoverUnplanned, ''SegDescProgramRunoverUnplanned''),
      (SegDescProgramOverlapStart, ''SegDescProgramOverlapStart''),
      (SegDescProgramBlackoutOverride, ''SegDescProgramBlackoutOverride''),
      (SegDescProgramStartInProgress, ''SegDescProgramStartInProgress''),
      (SegDescChapterStart, ''SegDescChapterStart''),
      (SegDescChapterEnd, ''SegDescChapterEnd''),
      (SegDescBreakStart, ''SegDescBreakStart''),
      (SegDescBreakEnd, ''SegDescBreakEnd''),
      (SegDescProviderAdvertisementStart, ''SegDescProviderAdvertisementStart''),
      (SegDescProviderAdvertisementEnd, ''SegDescProviderAdvertisementEnd''),
      (SegDescOpeningCreditStart, ''SegDescOpeningCreditStart''),
      (SegDescOpeningCreditEnd, ''SegDescOpeningCreditEnd''),
      (SegDescClosingCreditStart, ''SegDescClosingCreditStart''),
      (SegDescClosingCreditEnd, ''SegDescClosingCreditEnd''),
      (SegDescDistributorAdvertisementStart, ''SegDescDistributorAdvertisementStart''),
      (SegDescDistributorAdvertisementEnd, ''SegDescDistributorAdvertisementEnd''),
      (SegDescProviderPOStart, ''SegDescProviderPOStart''),
      (SegDescProviderPOEnd, ''SegDescProviderPOEnd''),
      (SegDescDistributorPOStart, ''SegDescDistributorPOStart''),
      (SegDescDistributorPOEnd, ''SegDescDistributorPOEnd''),
      (SegDescProviderPromoStart, ''SegDescProviderPromoStart''),
      (SegDescProviderPromoEnd, ''SegDescProviderPromoEnd''),
      (SegDescUnscheduledEventStart, ''SegDescUnscheduledEventStart''),
      (SegDescUnscheduledEventEnd, ''SegDescUnscheduledEventEnd''),
      (SegDescAlternateContentOpportunityStart, ''SegDescAlternateContentOpportunityStart''),
      (SegDescAlternateContentOpportunityEnd, ''SegDescAlternateContentOpportunityEnd''),
      (SegDescProviderAdBlockStart, ''SegDescProviderAdBlockStart''),
      (SegDescProviderAdBlockEnd, ''SegDescProviderAdBlockEnd''),
      (SegDescNetworkStart, ''SegDescNetworkStart''),
      (SegDescNetworkEnd, ''SegDescNetworkEnd'')]"

section \<open>SegUPIDType\<close>

type_synonym SegUPIDType = byte

definition SegUPIDNotUsed :: SegUPIDType where "SegUPIDNotUsed = 0x00"
definition SegUPIDUserDefined :: SegUPIDType where "SegUPIDUserDefined = 0x01"
definition SegUPIDISCI :: SegUPIDType where "SegUPIDISCI = 0x02"
definition SegUPIDAdID :: SegUPIDType where "SegUPIDAdID = 0x03"
definition SegUPIDUMID :: SegUPIDType where "SegUPIDUMID = 0x04"
definition SegUPIDISAN :: SegUPIDType where "SegUPIDISAN = 0x05"
definition SegUPIDVISAN :: SegUPIDType where "SegUPIDVISAN = 0x06"
definition SegUPIDTID :: SegUPIDType where "SegUPIDTID = 0x07"
definition SegUPIDTI :: SegUPIDType where "SegUPIDTI = 0x08"
definition SegUPIDADI :: SegUPIDType where "SegUPIDADI = 0x09"
definition SegUPIDEIDR :: SegUPIDType where "SegUPIDEIDR = 0x0a"
definition SegUPIDATSCID :: SegUPIDType where "SegUPIDATSCID = 0x0b"
definition SegUPIDMPU :: SegUPIDType where "SegUPIDMPU = 0x0c"
definition SegUPIDMID :: SegUPIDType where "SegUPIDMID = 0x0d"
definition SegUPADSINFO :: SegUPIDType where "SegUPADSINFO = 0x0e"
definition SegUPIDURN :: SegUPIDType where "SegUPIDURN = 0x0f"

lemmas seg_upid_types = SegUPIDNotUsed_def SegUPIDUserDefined_def SegUPIDISCI_def
  SegUPIDAdID_def SegUPIDUMID_def SegUPIDISAN_def
  SegUPIDVISAN_def SegUPIDTID_def SegUPIDTI_def
  SegUPIDADI_def SegUPIDEIDR_def SegUPIDATSCID_def
  SegUPIDMPU_def SegUPIDMID_def SegUPADSINFO_def
  SegUPIDURN_def

definition SegUPIDTypeNames :: "(SegUPIDType \<times> string) list" where
  "SegUPIDTypeNames =
     [(SegUPIDNotUsed, ''SegUPIDNotUsed''),
      (SegUPIDUserDefined, ''SegUPIDUserDefined''),
      (SegUPIDISCI, ''SegUPIDISCI''),
      (SegUPIDAdID, ''SegUPIDAdID''),
      (SegUPIDUMID, ''SegUPIDUMID''),
      (SegUPIDISAN, ''SegUPIDISAN''),
      (SegUPIDVISAN, ''SegUPIDVISAN''),
      (SegUPIDTID, ''SegUPIDTID''),
      (SegUPIDTI, ''SegUPIDTI''),
      (SegUPIDADI, ''SegUPIDADI''),
      (SegUPIDEIDR, ''SegUPIDEIDR''),
      (SegUPIDATSCID, ''SegUPIDATSCID''),
      (SegUPIDMPU, ''SegUPIDMPU''),
      (SegUPIDMID, ''SegUPIDMID''),
      (SegUPADSINFO, ''SegUPADSINFO''),
      (SegUPIDURN, ''SegUPIDURN'')]"

section \<open>The accumulator\<close>

definition SCTE35AccumulatorDoneFunc :: "byte list \<Rightarrow> bool res" where
  "SCTE35AccumulatorDoneFunc b = PmtAccumulatorDoneFunc b"

interpretation scte_done: done_function SCTE35AccumulatorDoneFunc
  by unfold_locales (simp add: SCTE35AccumulatorDoneFunc_def pmt_done.total)

text \<open>Gathering SCTE-35 sections never panics, whatever the packets hold.\<close>

lemma scte_accumulation_total:
  "\<forall>p \<in> set ps. wf_packet p \<Longrightarrow> \<exists>a. acc_run SCTE35AccumulatorDoneFunc NewAccumulator ps = Ok a"
  by (rule scte_done.run_total)

end
