(* ===== verification/Scte_Buffer.thy ===== *)
theory Scte_Buffer
  imports Gots_Binary Scte_Types
begin

text \<open>
  What package \<^verbatim>\<open>scte35\<close> uses of \<^verbatim>\<open>bytes.Buffer\<close>, and its 33-bit numbers.  A buffer is the list of the
  bytes not read yet; \<^verbatim>\<open>UnreadByte\<close> right after a \<^verbatim>\<open>ReadByte\<close> gives the buffer from before it.  A reader
  returns what it read and the buffer after it.  The locale \<open>buf_codec\<close> is the interface of a structure
  that can be written and read back in front of anything else; its lemma on sequences serves the
  components of commands and of descriptors.
\<close>

section \<open>The buffer\<close>

definition Next :: "nat \<Rightarrow> byte list \<Rightarrow> byte list \<times> byte list" where
  "Next n buf = (take n buf, drop n buf)"

text \<open>\<^verbatim>\<open>ReadByte\<close> where the caller turns the end of the buffer into an error, and where it ignores it.\<close>

definition ReadByte_or :: "gots_error \<Rightarrow> byte list \<Rightarrow> (byte \<times> byte list) res" where
  "ReadByte_or e buf = (case buf of [] \<Rightarrow> Err e | b # r \<Rightarrow> Ok (b, r))"

definition readByte :: "byte list \<Rightarrow> byte \<times> byte list" where
  "readByte buf = (case buf of [] \<Rightarrow> (0, []) | b # r \<Rightarrow> (b, r))"

text \<open>The loop \<^verbatim>\<open>for ; n > 0; n-- { x := read(); xs = append(xs, x) }\<close>.\<close>

fun read_n :: "nat \<Rightarrow> (byte list \<Rightarrow> ('a \<times> byte list) res) \<Rightarrow> byte list \<Rightarrow> ('a list \<times> byte list) res" where
  "read_n 0 f buf = Ok ([], buf)"
| "read_n (Suc n) f buf =
     res_bind (f buf) (\<lambda>(x, buf). res_bind (read_n n f buf) (\<lambda>(xs, buf). Ok (x # xs, buf)))"

definition uint40 :: "byte list \<Rightarrow> PTS res" where
  "uint40 buf = res_bind (rd buf 0) (\<lambda>b0. res_bind (rd buf 1) (\<lambda>b1. res_bind (rd buf 2) (\<lambda>b2.
     res_bind (rd buf 3) (\<lambda>b3. res_bind (rd buf 4) (\<lambda>b4.
       Ok (push_bit 32 (ucast (b0 AND 0x1)) OR push_bit 24 (ucast b1) OR push_bit 16 (ucast b2)
           OR push_bit 8 (ucast b3) OR ucast b4))))))"

section \<open>Lemmas\<close>

lemma ReadByte_or_Cons [simp]: "ReadByte_or e (b # r) = Ok (b, r)"
  by (simp add: ReadByte_or_def)

lemma readByte_Cons [simp]: "readByte (b # r) = (b, r)"
  by (simp add: readByte_def)

lemma Next_append [simp]: "length xs = n \<Longrightarrow> Next n (xs @ r) = (xs, r)"
  by (simp add: Next_def)

lemma ReadByte_or_not_Panic [simp]: "ReadByte_or e buf \<noteq> Panic"
  by (simp add: ReadByte_or_def split: list.splits)

lemma read_n_not_Panic: "(\<And>b. f b \<noteq> Panic) \<Longrightarrow> read_n n f buf \<noteq> Panic"
  by (induction n arbitrary: buf) (auto simp: res_bind_Panic_iff split: prod.splits)

lemma uint40_total: "5 \<le> length buf \<Longrightarrow> \<exists>p. uint40 buf = Ok p"
  by (auto simp: uint40_def rd_def)

lemma odd_drop_bit [simp]: "odd (drop_bit k (w :: 'a::len word)) \<longleftrightarrow> bit w k"
  by (simp add: bit_drop_bit_eq del: bit_0 flip: bit_0)

lemma of_nat_byte: "n < 256 \<Longrightarrow> unat (of_nat n :: byte) = n" "n < 256 \<Longrightarrow> uint (of_nat n :: byte) = int n"
proof -
  show u: "n < 256 \<Longrightarrow> unat (of_nat n :: byte) = n" by (simp add: unat_of_nat)
  show "n < 256 \<Longrightarrow> uint (of_nat n :: byte) = int n" using u by (subst uint_nat) simp
qed

text \<open>The five bytes of a 33-bit number; the seven high bits of the first are not part of it.\<close>

definition pts_bytes :: "byte \<Rightarrow> PTS \<Rightarrow> byte list" where
  "pts_bytes b0 p = [b0 OR (ucast (drop_bit 32 p) AND 0x01), ucast (drop_bit 24 p), ucast (drop_bit 16 p),
     ucast (drop_bit 8 p), ucast p]"

lemma length_pts_bytes [simp]: "length (pts_bytes b p) = 5"
  by (simp add: pts_bytes_def)

lemma pts_bytes_word:
  fixes p :: PTS and b0 :: byte
  assumes "\<not> bit b0 0" "unat p < 2 ^ 33"
  shows "push_bit 32 (ucast ((b0 OR (ucast (drop_bit 32 p) AND 0x01)) AND 0x1)) OR
      push_bit 24 (ucast (ucast (drop_bit 24 p) :: byte)) OR push_bit 16 (ucast (ucast (drop_bit 16 p) :: byte)) OR
      push_bit 8 (ucast (ucast (drop_bit 8 p) :: byte)) OR ucast (ucast p :: byte) = p"
    (is "?l = p")
proof (rule bit_word_eqI)
  fix n assume n: "n < LENGTH(64)"
  have hi: "33 \<le> n \<Longrightarrow> \<not> bit p n" for n
    using take_bit_word_small [OF assms(2)] by (metis bit_take_bit_iff not_less)
  have odd: "even b0" using assms(1) by (simp add: bit_0)
  consider "n < 8" | "8 \<le> n" "n < 16" | "16 \<le> n" "n < 24" | "24 \<le> n" "n < 32" | "n = 32" | "33 \<le> n" by fastforce
  then show "bit ?l n = bit p n"
    unfolding and_numeral_mask
    using assms(1) n by cases (auto simp: bit_simps hi odd)
qed

lemma uint40_pts_bytes:
  assumes "\<not> bit b0 0" "unat p < 2 ^ 33"
  shows "uint40 (pts_bytes b0 p @ r) = Ok p"
  using pts_bytes_word [OF assms] by (simp add: uint40_def pts_bytes_def)

lemma uint40_pts_bytes' [simp]:
  assumes "\<not> bit b0 0" "unat p < 2 ^ 33"
  shows "uint40 (pts_bytes b0 p) = Ok p"
  using uint40_pts_bytes [OF assms, of "[]"] by simp

lemma and_33: "unat (p :: PTS) < 2 ^ 33 \<Longrightarrow> p AND 0x01ffffffff = p"
  unfolding and_numeral_mask by (rule take_bit_word_small)

lemma unat_and_33: "unat ((p :: PTS) AND 0x01ffffffff) < 2 ^ 33"
proof -
  have "unat (take_bit 33 p) = take_bit 33 (unat p)" by (rule unsigned_take_bit_eq)
  also have "\<dots> < 2 ^ 33" by (rule take_bit_nat_less_exp)
  finally show ?thesis unfolding and_numeral_mask .
qed

section \<open>Structures that can be read back\<close>

locale buf_codec =
  fixes enc :: "'a \<Rightarrow> byte list" and dec :: "byte list \<Rightarrow> ('a \<times> byte list) res" and ok :: "'a \<Rightarrow> bool"
  assumes read_back: "ok x \<Longrightarrow> dec (enc x @ rest) = Ok (x, rest)"
begin

lemma read_n_back:
  "\<forall>x \<in> set xs. ok x \<Longrightarrow> read_n (length xs) dec (concat (map enc xs) @ rest) = Ok (xs, rest)"
  by (induction xs) (simp_all add: read_back)

lemma enc_inj: "ok x \<Longrightarrow> ok y \<Longrightarrow> enc x = enc y \<Longrightarrow> x = y"
  using read_back [of x "[]"] read_back [of y "[]"] by simp

end

end
