(* ===== verification/Scte_Command.thy ===== *)
theory Scte_Command
  imports Scte_Buffer
begin

text \<open>
  \<^verbatim>\<open>gots/scte35/splicecommand.go\<close> and \<^verbatim>\<open>splicecommandmodify.go\<close>: the splice commands null, time signal and
  splice insert, their parsers, their setters and their bytes.
\<close>

section \<open>Splice times\<close>

text \<open>
  \<open>parseSpliceTime\<close> returns its three results and the buffer.  A time that is cut short is an error, but
  the flag is returned as set; \<open>parseTimeSignal\<close> looks at the flag only.
\<close>

definition parseSpliceTime :: "byte list \<Rightarrow> ((bool \<times> PTS \<times> gots_error option) \<times> byte list) res" where
  "parseSpliceTime buf =
     (case buf of
        [] \<Rightarrow> Ok ((False, 0, Some ErrInvalidSCTE35Length), [])
      | flags # rest \<Rightarrow>
          if flags AND 0x80 \<noteq> 0x80 then Ok ((False, 0, None), rest)
          else if length buf < 5 then Ok ((True, 0, Some ErrInvalidSCTE35Length), buf)
          else let (b5, buf') = Next 5 buf
               in res_bind (uint40 b5) (\<lambda>v. Ok ((True, v AND 0x01ffffffff, None), buf')))"

text \<open>The calls that return at the error.\<close>

definition read_splice_time :: "byte list \<Rightarrow> ((bool \<times> PTS) \<times> byte list) res" where
  "read_splice_time buf = res_bind (parseSpliceTime buf) (\<lambda>((timeSpecified, pts, err), buf).
     case err of Some e \<Rightarrow> Err e | None \<Rightarrow> Ok ((timeSpecified, pts), buf))"

definition spliceTimeBytes :: "bool \<Rightarrow> PTS \<Rightarrow> byte list" where
  "spliceTimeBytes hasPTS pts =
     (if hasPTS then
        let b0 = (0xFE :: byte) OR (ucast (drop_bit 32 pts) AND 0x01)
        in [b0, ucast (drop_bit 24 pts), ucast (drop_bit 16 pts), ucast (drop_bit 8 pts), ucast pts]
      else [0x7E])"

section \<open>Time signal\<close>

record timeSignal =
  ts_hasPTS :: bool
  ts_pts :: PTS

definition CreateTimeSignalCommand :: timeSignal where
  "CreateTimeSignalCommand = \<lparr>ts_hasPTS = False, ts_pts = 0\<rparr>"

definition parseTimeSignal :: "byte list \<Rightarrow> (timeSignal \<times> byte list) res" where
  "parseTimeSignal buf = res_bind (parseSpliceTime buf) (\<lambda>((hasPTS, pts, err), buf).
     if \<not> hasPTS then Err ErrSCTE35UnsupportedSpliceCommand
     else Ok (\<lparr>ts_hasPTS = hasPTS, ts_pts = pts\<rparr>, buf))"

definition ts_HasPTS :: "timeSignal \<Rightarrow> bool" where "ts_HasPTS c = ts_hasPTS c"
definition ts_PTS :: "timeSignal \<Rightarrow> PTS" where "ts_PTS c = ts_pts c"
definition ts_SetHasPTS :: "timeSignal \<Rightarrow> bool \<Rightarrow> timeSignal" where
  "ts_SetHasPTS c value = c\<lparr>ts_hasPTS := value\<rparr>"
definition ts_SetPTS :: "timeSignal \<Rightarrow> PTS \<Rightarrow> timeSignal" where
  "ts_SetPTS c value = c\<lparr>ts_pts := value AND 0x01ffffffff\<rparr>"
definition ts_Data :: "timeSignal \<Rightarrow> byte list" where
  "ts_Data c = spliceTimeBytes (ts_hasPTS c) (ts_pts c)"

section \<open>Components\<close>

record component =
  co_componentTag :: byte
  co_hasPts :: bool
  co_pts :: PTS

definition CreateComponent :: component where
  "CreateComponent = \<lparr>co_componentTag = 0, co_hasPts = False, co_pts = 0\<rparr>"

definition co_ComponentTag :: "component \<Rightarrow> byte" where "co_ComponentTag c = co_componentTag c"
definition co_HasPTS :: "component \<Rightarrow> bool" where "co_HasPTS c = co_hasPts c"
definition co_PTS :: "component \<Rightarrow> PTS" where "co_PTS c = co_pts c"
definition co_SetComponentTag :: "component \<Rightarrow> byte \<Rightarrow> component" where
  "co_SetComponentTag c value = c\<lparr>co_componentTag := value\<rparr>"
definition co_SetHasPTS :: "component \<Rightarrow> bool \<Rightarrow> component" where
  "co_SetHasPTS c value = c\<lparr>co_hasPts := value\<rparr>"
definition co_SetPTS :: "component \<Rightarrow> PTS \<Rightarrow> component" where
  "co_SetPTS c value = c\<lparr>co_pts := value AND 0x01ffffffff\<rparr>"

section \<open>Splice insert\<close>

record spliceInsert =
  si_eventID :: u32
  si_eventCancelIndicator :: bool
  si_outOfNetworkIndicator :: bool
  si_isProgramSplice :: bool
  si_spliceImmediate :: bool
  si_hasPTS :: bool
  si_pts :: PTS
  si_components :: "component list"
  si_hasDuration :: bool
  si_duration :: PTS
  si_autoReturn :: bool
  si_uniqueProgramId :: u16
  si_availNum :: byte
  si_availsExpected :: byte

definition zero_spliceInsert :: spliceInsert where
  "zero_spliceInsert = \<lparr>si_eventID = 0, si_eventCancelIndicator = False, si_outOfNetworkIndicator = False,
     si_isProgramSplice = False, si_spliceImmediate = False, si_hasPTS = False, si_pts = 0, si_components = [],
     si_hasDuration = False, si_duration = 0, si_autoReturn = False, si_uniqueProgramId = 0, si_availNum = 0,
     si_availsExpected = 0\<rparr>"

definition CreateSpliceInsertCommand :: spliceInsert where
  "CreateSpliceInsertCommand = zero_spliceInsert\<lparr>si_isProgramSplice := True\<rparr>"

definition si_EventID :: "spliceInsert \<Rightarrow> u32" where "si_EventID c = si_eventID c"
definition si_IsOut :: "spliceInsert \<Rightarrow> bool" where "si_IsOut c = si_outOfNetworkIndicator c"
definition si_IsEventCanceled :: "spliceInsert \<Rightarrow> bool" where "si_IsEventCanceled c = si_eventCancelIndicator c"
definition si_HasPTS :: "spliceInsert \<Rightarrow> bool" where "si_HasPTS c = si_hasPTS c"
definition si_PTS :: "spliceInsert \<Rightarrow> PTS" where "si_PTS c = si_pts c"
definition si_HasDuration :: "spliceInsert \<Rightarrow> bool" where "si_HasDuration c = si_hasDuration c"
definition si_Duration :: "spliceInsert \<Rightarrow> PTS" where "si_Duration c = si_duration c"
definition si_Components :: "spliceInsert \<Rightarrow> component list" where "si_Components c = si_components c"
definition si_IsAutoReturn :: "spliceInsert \<Rightarrow> bool" where "si_IsAutoReturn c = si_autoReturn c"
definition si_UniqueProgramId :: "spliceInsert \<Rightarrow> u16" where "si_UniqueProgramId c = si_uniqueProgramId c"
definition si_AvailNum :: "spliceInsert \<Rightarrow> byte" where "si_AvailNum c = si_availNum c"
definition si_AvailsExpected :: "spliceInsert \<Rightarrow> byte" where "si_AvailsExpected c = si_availsExpected c"
definition si_IsProgramSplice :: "spliceInsert \<Rightarrow> bool" where "si_IsProgramSplice c = si_isProgramSplice c"
definition si_SpliceImmediate :: "spliceInsert \<Rightarrow> bool" where "si_SpliceImmediate c = si_spliceImmediate c"

definition si_SetEventID :: "spliceInsert \<Rightarrow> u32 \<Rightarrow> spliceInsert" where
  "si_SetEventID c value = c\<lparr>si_eventID := value\<rparr>"
definition si_SetIsOut :: "spliceInsert \<Rightarrow> bool \<Rightarrow> spliceInsert" where
  "si_SetIsOut c value = c\<lparr>si_outOfNetworkIndicator := value\<rparr>"
definition si_SetIsEventCanceled :: "spliceInsert \<Rightarrow> bool \<Rightarrow> spliceInsert" where
  "si_SetIsEventCanceled c value = c\<lparr>si_eventCancelIndicator := value\<rparr>"
definition si_SetHasPTS :: "spliceInsert \<Rightarrow> bool \<Rightarrow> spliceInsert" where
  "si_SetHasPTS c value = c\<lparr>si_hasPTS := value\<rparr>"
definition si_SetPTS :: "spliceInsert \<Rightarrow> PTS \<Rightarrow> spliceInsert" where
  "si_SetPTS c value = c\<lparr>si_pts := value AND 0x01ffffffff\<rparr>"
definition si_SetHasDuration :: "spliceInsert \<Rightarrow> bool \<Rightarrow> spliceInsert" where
  "si_SetHasDuration c value = c\<lparr>si_hasDuration := value\<rparr>"
definition si_SetDuration :: "spliceInsert \<Rightarrow> PTS \<Rightarrow> spliceInsert" where
  "si_SetDuration c value = c\<lparr>si_duration := value\<rparr>"
definition si_SetIsAutoReturn :: "spliceInsert \<Rightarrow> bool \<Rightarrow> spliceInsert" where
  "si_SetIsAutoReturn c value = c\<lparr>si_autoReturn := value\<rparr>"
definition si_SetUniqueProgramId :: "spliceInsert \<Rightarrow> u16 \<Rightarrow> spliceInsert" where
  "si_SetUniqueProgramId c value = c\<lparr>si_uniqueProgramId := value\<rparr>"
definition si_SetAvailNum :: "spliceInsert \<Rightarrow> byte \<Rightarrow> spliceInsert" where
  "si_SetAvailNum c value = c\<lparr>si_availNum := value\<rparr>"
definition si_SetAvailsExpected :: "spliceInsert \<Rightarrow> byte \<Rightarrow> spliceInsert" where
  "si_SetAvailsExpected c value = c\<lparr>si_availsExpected := value\<rparr>"
definition si_SetIsProgramSplice :: "spliceInsert \<Rightarrow> bool \<Rightarrow> spliceInsert" where
  "si_SetIsProgramSplice c value = c\<lparr>si_isProgramSplice := value\<rparr>"
definition si_SetSpliceImmediate :: "spliceInsert \<Rightarrow> bool \<Rightarrow> spliceInsert" where
  "si_SetSpliceImmediate c value = c\<lparr>si_spliceImmediate := value\<rparr>"

subsection \<open>Parsing\<close>

definition parse_base :: "spliceInsert \<Rightarrow> byte list \<Rightarrow> (spliceInsert \<times> byte list) res" where
  "parse_base c buf =
     (let (baseFields, buf) = Next 5 buf
      in if length baseFields < 5 then Err ErrInvalidSCTE35Length
         else res_bind (be_uint32 (take 4 baseFields)) (\<lambda>eventID.
                Ok (c\<lparr>si_eventID := eventID, si_eventCancelIndicator := (baseFields ! 4 AND 0x80 = 0x80)\<rparr>, buf)))"

definition parse_flags :: "spliceInsert \<Rightarrow> byte list \<Rightarrow> (spliceInsert \<times> byte list) res" where
  "parse_flags c buf = res_bind (ReadByte_or ErrInvalidSCTE35Length buf) (\<lambda>(flags, buf).
     Ok (c\<lparr>si_outOfNetworkIndicator := (flags AND 0x80 = 0x80), si_isProgramSplice := (flags AND 0x40 = 0x40),
           si_hasDuration := (flags AND 0x20 = 0x20), si_spliceImmediate := (flags AND 0x10 = 0x10)\<rparr>, buf))"

definition parse_program_time :: "spliceInsert \<Rightarrow> byte list \<Rightarrow> (spliceInsert \<times> byte list) res" where
  "parse_program_time c buf =
     (if si_isProgramSplice c \<and> \<not> si_spliceImmediate c then
        res_bind (read_splice_time buf) (\<lambda>((hasPTS, pts), buf).
          if \<not> hasPTS then Err ErrSCTE35UnsupportedSpliceCommand
          else Ok (c\<lparr>si_hasPTS := hasPTS, si_pts := pts\<rparr>, buf))
      else Ok (c, buf))"

definition parse_component :: "bool \<Rightarrow> byte list \<Rightarrow> (component \<times> byte list) res" where
  "parse_component spliceImmediate buf = res_bind (ReadByte_or ErrInvalidSCTE35Length buf) (\<lambda>(tag, buf).
     let cpt = CreateComponent\<lparr>co_componentTag := tag\<rparr>
     in if \<not> spliceImmediate then
          res_bind (read_splice_time buf) (\<lambda>((hasPts, pts), buf). Ok (cpt\<lparr>co_hasPts := hasPts, co_pts := pts\<rparr>, buf))
        else Ok (cpt, buf))"

definition parse_components :: "spliceInsert \<Rightarrow> byte list \<Rightarrow> (spliceInsert \<times> byte list) res" where
  "parse_components c buf =
     (if \<not> si_isProgramSplice c then
        res_bind (ReadByte_or ErrInvalidSCTE35Length buf) (\<lambda>(cc, buf).
        res_bind (read_n (unat cc) (parse_component (si_spliceImmediate c)) buf) (\<lambda>(comps, buf).
          Ok (c\<lparr>si_components := si_components c @ comps\<rparr>, buf)))
      else Ok (c, buf))"

definition parse_break_duration :: "spliceInsert \<Rightarrow> byte list \<Rightarrow> (spliceInsert \<times> byte list) res" where
  "parse_break_duration c buf =
     (if si_hasDuration c then
        let (data, buf) = Next 5 buf
        in if length data < 5 then Err ErrInvalidSCTE35Length
           else res_bind (uint40 data) (\<lambda>v.
                  Ok (c\<lparr>si_autoReturn := (data ! 0 AND 0x80 = 0x80), si_duration := v AND 0x01ffffffff\<rparr>, buf))
      else Ok (c, buf))"

definition parse_prog_info :: "spliceInsert \<Rightarrow> byte list \<Rightarrow> (spliceInsert \<times> byte list) res" where
  "parse_prog_info c buf =
     (let (progInfo, buf) = Next 4 buf
      in if length progInfo < 4 then Err ErrInvalidSCTE35Length
         else Ok (c\<lparr>si_uniqueProgramId := push_bit 8 (ucast (progInfo ! 0)) OR ucast (progInfo ! 1),
                    si_availNum := progInfo ! 2, si_availsExpected := progInfo ! 3\<rparr>, buf))"

definition si_parse :: "spliceInsert \<Rightarrow> byte list \<Rightarrow> (spliceInsert \<times> byte list) res" where
  "si_parse c buf = res_bind (parse_base c buf) (\<lambda>(c, buf).
     if si_eventCancelIndicator c then Ok (c, buf)
     else res_bind (parse_flags c buf) (\<lambda>(c, buf).
          res_bind (parse_program_time c buf) (\<lambda>(c, buf).
          res_bind (parse_components c buf) (\<lambda>(c, buf).
          res_bind (parse_break_duration c buf) (\<lambda>(c, buf).
            parse_prog_info c buf)))))"

definition parseSpliceInsert :: "byte list \<Rightarrow> (spliceInsert \<times> byte list) res" where
  "parseSpliceInsert buf = si_parse zero_spliceInsert buf"

subsection \<open>Writing\<close>

text \<open>The times of components are written when the splice is immediate; the parser reads them when it is not.\<close>

definition component_bytes :: "bool \<Rightarrow> component \<Rightarrow> byte list" where
  "component_bytes spliceImmediate cpt =
     [co_ComponentTag cpt] @ (if spliceImmediate then spliceTimeBytes (co_HasPTS cpt) (co_PTS cpt) else [])"

definition duration_bytes :: "bool \<Rightarrow> PTS \<Rightarrow> byte list" where
  "duration_bytes autoReturn duration =
     (let b0 = (0x7E :: byte);
          b0 = (if autoReturn then b0 OR 0x80 else b0);
          b0 = b0 OR (ucast (drop_bit 32 duration) AND 0x01)
      in [b0, ucast (drop_bit 24 duration), ucast (drop_bit 16 duration), ucast (drop_bit 8 duration), ucast duration])"

definition si_flags :: "spliceInsert \<Rightarrow> byte" where
  "si_flags c =
     (let b = (0x0F :: byte);
          b = (if si_outOfNetworkIndicator c then b OR 0x80 else b);
          b = (if si_isProgramSplice c then b OR 0x40 else b);
          b = (if si_isProgramSplice c then b OR 0x40 else b);
          b = (if si_hasDuration c then b OR 0x20 else b)
      in if si_spliceImmediate c then b OR 0x10 else b)"

definition si_Data :: "spliceInsert \<Rightarrow> byte list" where
  "si_Data c =
     (let bytes = PutUint32 (si_eventID c) @ [if si_eventCancelIndicator c then 0x7F OR 0x80 else 0x7F, si_flags c];
          bytes = (if si_isProgramSplice c \<and> \<not> si_spliceImmediate c
                   then bytes @ spliceTimeBytes (si_hasPTS c) (si_pts c) else bytes);
          bytes = (if \<not> si_isProgramSplice c
                   then bytes @ [of_nat (length (si_components c))] @
                          concat (map (component_bytes (si_spliceImmediate c)) (si_components c))
                   else bytes);
          bytes = (if si_hasDuration c then bytes @ duration_bytes (si_autoReturn c) (si_duration c) else bytes)
      in bytes @ [ucast (drop_bit 8 (si_uniqueProgramId c)), ucast (si_uniqueProgramId c), si_availNum c,
                  si_availsExpected c])"

section \<open>Commands\<close>

text \<open>A \<^verbatim>\<open>SpliceCommand\<close> is one of the three.\<close>

datatype spliceCommand = NullCommand | TimeSignalCommand timeSignal | SpliceInsertCommand spliceInsert

definition CreateSpliceNull :: spliceCommand where "CreateSpliceNull = NullCommand"

fun CommandType :: "spliceCommand \<Rightarrow> SpliceCommandType" where
  "CommandType NullCommand = SpliceNull"
| "CommandType (TimeSignalCommand c) = TimeSignal"
| "CommandType (SpliceInsertCommand c) = SpliceInsert"

fun cmd_HasPTS :: "spliceCommand \<Rightarrow> bool" where
  "cmd_HasPTS NullCommand = False"
| "cmd_HasPTS (TimeSignalCommand c) = ts_HasPTS c"
| "cmd_HasPTS (SpliceInsertCommand c) = si_HasPTS c"

fun cmd_PTS :: "spliceCommand \<Rightarrow> PTS" where
  "cmd_PTS NullCommand = 0"
| "cmd_PTS (TimeSignalCommand c) = ts_PTS c"
| "cmd_PTS (SpliceInsertCommand c) = si_PTS c"

fun cmd_SetHasPTS :: "spliceCommand \<Rightarrow> bool \<Rightarrow> spliceCommand" where
  "cmd_SetHasPTS NullCommand value = NullCommand"
| "cmd_SetHasPTS (TimeSignalCommand c) value = TimeSignalCommand (ts_SetHasPTS c value)"
| "cmd_SetHasPTS (SpliceInsertCommand c) value = SpliceInsertCommand (si_SetHasPTS c value)"

fun cmd_SetPTS :: "spliceCommand \<Rightarrow> PTS \<Rightarrow> spliceCommand" where
  "cmd_SetPTS NullCommand value = NullCommand"
| "cmd_SetPTS (TimeSignalCommand c) value = TimeSignalCommand (ts_SetPTS c value)"
| "cmd_SetPTS (SpliceInsertCommand c) value = SpliceInsertCommand (si_SetPTS c value)"

fun cmd_Data :: "spliceCommand \<Rightarrow> byte list" where
  "cmd_Data NullCommand = []"
| "cmd_Data (TimeSignalCommand c) = ts_Data c"
| "cmd_Data (SpliceInsertCommand c) = si_Data c"

section \<open>Setting and reading times\<close>

text \<open>
  What every holder of a splice time promises: the flag and the time are independent, and the time is cut
  to 33 bits.
\<close>

locale timed =
  fixes has :: "'c \<Rightarrow> bool" and get :: "'c \<Rightarrow> PTS" and set_has :: "'c \<Rightarrow> bool \<Rightarrow> 'c" and put :: "'c \<Rightarrow> PTS \<Rightarrow> 'c"
  assumes has_set: "has (set_has c v) = v" and get_set_has: "get (set_has c v) = get c"
    and get_put: "get (put c p) = p AND 0x01ffffffff" and has_put: "has (put c p) = has c"
begin

lemma put_bound: "unat (get (put c p)) < 2 ^ 33"
  using unat_and_33 [of p] by (simp add: get_put)

lemma put_small: "unat p < 2 ^ 33 \<Longrightarrow> get (put c p) = p"
  by (simp add: get_put and_33)

lemma put_commutes: "has (put (set_has c v) p) = v \<and> get (set_has (put c p) v) = p AND 0x01ffffffff"
  by (simp add: has_set get_set_has get_put has_put)

end

interpretation ts: timed ts_HasPTS ts_PTS ts_SetHasPTS ts_SetPTS
  by unfold_locales (simp_all add: ts_HasPTS_def ts_PTS_def ts_SetHasPTS_def ts_SetPTS_def)

interpretation co: timed co_HasPTS co_PTS co_SetHasPTS co_SetPTS
  by unfold_locales (simp_all add: co_HasPTS_def co_PTS_def co_SetHasPTS_def co_SetPTS_def)

interpretation si: timed si_HasPTS si_PTS si_SetHasPTS si_SetPTS
  by unfold_locales (simp_all add: si_HasPTS_def si_PTS_def si_SetHasPTS_def si_SetPTS_def)

text \<open>A command keeps the laws, except the null command, which has no time.\<close>

lemma cmd_times:
  "cmd_PTS (cmd_SetPTS c p) = (if c = NullCommand then 0 else p AND 0x01ffffffff)"
  "cmd_HasPTS (cmd_SetHasPTS c v) = (c \<noteq> NullCommand \<and> v)"
  "cmd_HasPTS (cmd_SetPTS c p) = cmd_HasPTS c" "cmd_PTS (cmd_SetHasPTS c v) = cmd_PTS c"
  "CommandType (cmd_SetPTS c p) = CommandType c" "CommandType (cmd_SetHasPTS c v) = CommandType c"
  by (cases c; simp add: ts.get_put ts.has_set ts.has_put ts.get_set_has si.get_put si.has_set si.has_put si.get_set_has)+

section \<open>Reading back\<close>

definition time_ok :: "bool \<times> PTS \<Rightarrow> bool" where
  "time_ok t \<longleftrightarrow> unat (snd t) < 2 ^ 33 \<and> (\<not> fst t \<longrightarrow> snd t = 0)"

lemma spliceTimeBytes_pts: "spliceTimeBytes True p = pts_bytes 0xFE p" "spliceTimeBytes False p = [0x7E]"
  by (simp_all add: spliceTimeBytes_def pts_bytes_def)

lemma flag_7 [simp]: "\<not> bit (0xFE :: byte) 0" "(0xFE OR w AND 1 :: byte) AND 0x80 = 0x80" "(0x7E :: byte) AND 0x80 = 0"
proof -
  show "(0xFE OR w AND 1 :: byte) AND 0x80 = 0x80"
    unfolding and_numeral_mask by (rule byte_eqI) (simp_all add: bit_simps)
qed simp_all

interpretation stime: buf_codec "\<lambda>t. spliceTimeBytes (fst t) (snd t)" read_splice_time time_ok
proof unfold_locales
  fix t :: "bool \<times> PTS" and rest
  assume ok: "time_ok t"
  show "read_splice_time (spliceTimeBytes (fst t) (snd t) @ rest) = Ok (t, rest)"
  proof (cases "fst t")
    case True
    then have p: "unat (snd t) < 2 ^ 33" "uint40 (pts_bytes 0xFE (snd t)) = Ok (snd t)" using ok by (simp_all add: time_ok_def)
    have "parseSpliceTime (pts_bytes 0xFE (snd t) @ rest) = Ok ((True, snd t, None), rest)"
      using p and_33 [OF p(1)] Next_append [OF length_pts_bytes, of "0xFE" "snd t" rest]
      by (simp add: parseSpliceTime_def pts_bytes_def Let_def)
    then show ?thesis using True by (cases t) (simp add: spliceTimeBytes_pts read_splice_time_def)
  next
    case False
    then show ?thesis using ok
      by (cases t) (simp add: time_ok_def spliceTimeBytes_pts read_splice_time_def parseSpliceTime_def)
  qed
qed

text \<open>Components are written with the flag that the parser of the opposite flag expects.\<close>

definition component_ok :: "bool \<Rightarrow> component \<Rightarrow> bool" where
  "component_ok imm c \<longleftrightarrow> time_ok (co_hasPts c, co_pts c) \<and> (imm \<longrightarrow> \<not> co_hasPts c)"

lemma component_back:
  assumes "component_ok imm c"
  shows "parse_component imm (component_bytes (\<not> imm) c @ rest) = Ok (c, rest)"
proof (cases imm)
  case True
  then show ?thesis using assms
    by (cases c) (simp add: parse_component_def component_bytes_def co_ComponentTag_def CreateComponent_def
        component_ok_def time_ok_def Let_def)
next
  case False
  have "read_splice_time (spliceTimeBytes (co_hasPts c) (co_pts c) @ rest) = Ok ((co_hasPts c, co_pts c), rest)"
    using stime.read_back [of "(co_hasPts c, co_pts c)"] assms by (simp add: component_ok_def)
  then show ?thesis using False
    by (cases c) (simp add: parse_component_def component_bytes_def co_ComponentTag_def co_HasPTS_def co_PTS_def
        CreateComponent_def Let_def)
qed

interpretation tags: buf_codec "component_bytes False" "parse_component True" "component_ok True"
  using component_back [of True] by unfold_locales simp

interpretation tag_times: buf_codec "component_bytes True" "parse_component False" "component_ok False"
  using component_back [of False] by unfold_locales simp

lemma components_back:
  assumes "\<forall>c \<in> set cs. component_ok imm c"
  shows "read_n (length cs) (parse_component imm) (concat (map (component_bytes (\<not> imm)) cs) @ rest) = Ok (cs, rest)"
  using assms tags.read_n_back [of cs] tag_times.read_n_back [of cs] by (cases imm) simp_all

lemma byte_or_bit_simps:
  fixes f :: byte
  shows "f AND 0x80 = 0x80 \<longleftrightarrow> bit f 7" "f AND 0x40 = 0x40 \<longleftrightarrow> bit f 6" "f AND 0x20 = 0x20 \<longleftrightarrow> bit f 5"
    "f AND 0x10 = 0x10 \<longleftrightarrow> bit f 4"
proof -
  have "f AND push_bit k 1 = push_bit k 1 \<longleftrightarrow> bit f k" if "k < 8" for k
  proof
    assume "f AND push_bit k 1 = push_bit k 1"
    then have "bit (f AND push_bit k 1) k = bit (push_bit k 1 :: byte) k" by simp
    with that show "bit f k" by (simp add: bit_simps)
  next
    assume "bit f k"
    then show "f AND push_bit k 1 = push_bit k 1" by (intro bit_word_eqI) (auto simp: bit_simps)
  qed
  from this [of 7] this [of 6] this [of 5] this [of 4]
  show "f AND 0x80 = 0x80 \<longleftrightarrow> bit f 7" "f AND 0x40 = 0x40 \<longleftrightarrow> bit f 6" "f AND 0x20 = 0x20 \<longleftrightarrow> bit f 5"
    "f AND 0x10 = 0x10 \<longleftrightarrow> bit f 4" by (simp_all add: push_bit_eq_mult)
qed

text \<open>
  What a splice insert that is not cancelled must satisfy to be read back with the flag \<open>imm\<close>: a program
  splice that is not immediate has a time, and no other has one; fields that are absent have their
  default.
\<close>

definition si_ok :: "bool \<Rightarrow> spliceInsert \<Rightarrow> bool" where
  "si_ok imm c \<longleftrightarrow> \<not> si_eventCancelIndicator c \<and> time_ok (si_hasPTS c, si_pts c) \<and>
     si_hasPTS c = (si_isProgramSplice c \<and> \<not> imm) \<and>
     (si_isProgramSplice c \<longrightarrow> si_components c = []) \<and> length (si_components c) < 256 \<and>
     (\<forall>x \<in> set (si_components c). component_ok imm x) \<and>
     unat (si_duration c) < 2 ^ 33 \<and> (\<not> si_hasDuration c \<longrightarrow> si_duration c = 0 \<and> \<not> si_autoReturn c)"

text \<open>The parts of the layout after the flags.\<close>

definition program_time_bytes :: "bool \<Rightarrow> spliceInsert \<Rightarrow> byte list" where
  "program_time_bytes imm c =
     (if si_isProgramSplice c \<and> \<not> imm then spliceTimeBytes (si_hasPTS c) (si_pts c) else [])"

definition components_bytes :: "bool \<Rightarrow> spliceInsert \<Rightarrow> byte list" where
  "components_bytes imm c =
     (if \<not> si_isProgramSplice c
      then [of_nat (length (si_components c))] @ concat (map (component_bytes imm) (si_components c)) else [])"

definition break_bytes :: "spliceInsert \<Rightarrow> byte list" where
  "break_bytes c = (if si_hasDuration c then duration_bytes (si_autoReturn c) (si_duration c) else [])"

definition prog_info_bytes :: "spliceInsert \<Rightarrow> byte list" where
  "prog_info_bytes c = [ucast (drop_bit 8 (si_uniqueProgramId c)), ucast (si_uniqueProgramId c), si_availNum c,
     si_availsExpected c]"

lemma si_Data_parts:
  "si_Data c = PutUint32 (si_eventID c) @ [if si_eventCancelIndicator c then 0xFF else 0x7F, si_flags c] @
     program_time_bytes (si_spliceImmediate c) c @ components_bytes (si_spliceImmediate c) c @ break_bytes c @
     prog_info_bytes c"
  by (simp add: si_Data_def program_time_bytes_def components_bytes_def break_bytes_def prog_info_bytes_def Let_def)

lemma bit_si_flags:
  "bit (si_flags c) 7 = si_outOfNetworkIndicator c" "bit (si_flags c) 6 = si_isProgramSplice c"
  "bit (si_flags c) 5 = si_hasDuration c" "bit (si_flags c) 4 = si_spliceImmediate c"
  by (simp_all add: si_flags_def Let_def bit_simps)

lemma duration_bytes_pts:
  "duration_bytes ar d = pts_bytes (if ar then 0xFE else 0x7E) d"
  by (simp add: duration_bytes_def pts_bytes_def Let_def)

lemma uint16_back:
  fixes v :: u16
  shows "push_bit 8 (ucast (ucast (drop_bit 8 v) :: byte)) OR ucast (ucast v :: byte) = v" (is "?l = v")
proof (rule bit_word_eqI)
  fix n assume "n < LENGTH(16)"
  then consider "n < 8" | "8 \<le> n" "n < 16" by fastforce
  then show "bit ?l n = bit v n"
    by cases (auto simp: bit_simps)
qed

lemma parse_base_back:
  "parse_base c (PutUint32 v @ b # rest) = Ok (c\<lparr>si_eventID := v, si_eventCancelIndicator := (b AND 0x80 = 0x80)\<rparr>, rest)"
proof -
  have "Next 5 ((PutUint32 v @ [b]) @ rest) = (PutUint32 v @ [b], rest)" by (rule Next_append) simp
  then show ?thesis by (simp add: parse_base_def nth_append)
qed

lemma parse_program_time_back:
  assumes "time_ok (si_hasPTS d, si_pts d)" "si_hasPTS d = (si_isProgramSplice d \<and> \<not> imm)"
    "si_isProgramSplice c = si_isProgramSplice d" "si_spliceImmediate c = imm" "si_hasPTS c = False" "si_pts c = 0"
  shows "parse_program_time c (program_time_bytes imm d @ rest) =
    Ok (c\<lparr>si_hasPTS := si_hasPTS d, si_pts := si_pts d\<rparr>, rest)"
proof (cases "si_isProgramSplice d \<and> \<not> imm")
  case True
  have "read_splice_time (spliceTimeBytes (si_hasPTS d) (si_pts d) @ rest) = Ok ((si_hasPTS d, si_pts d), rest)"
    using stime.read_back [of "(si_hasPTS d, si_pts d)"] assms(1) by simp
  with True assms(2-4) show ?thesis by (simp add: parse_program_time_def program_time_bytes_def)
next
  case False
  with assms have "\<not> si_hasPTS d" "si_pts d = 0" by (simp_all add: time_ok_def)
  with False assms show ?thesis by (cases c) (simp add: parse_program_time_def program_time_bytes_def)
qed

lemma parse_components_back:
  assumes "\<forall>x \<in> set (si_components d). component_ok imm x" "length (si_components d) < 256"
    "si_isProgramSplice d \<Longrightarrow> si_components d = []"
    "si_isProgramSplice c = si_isProgramSplice d" "si_spliceImmediate c = imm" "si_components c = []"
  shows "parse_components c (components_bytes (\<not> imm) d @ rest) = Ok (c\<lparr>si_components := si_components d\<rparr>, rest)"
proof (cases "si_isProgramSplice d")
  case True
  with assms show ?thesis by (cases c) (simp add: parse_components_def components_bytes_def)
next
  case False
  have "unat (of_nat (length (si_components d)) :: byte) = length (si_components d)"
    using assms(2) by (simp add: unat_of_nat)
  with False assms(4-6) components_back [OF assms(1), of rest] show ?thesis
    by (simp add: parse_components_def components_bytes_def)
qed

lemma parse_break_back:
  assumes "unat (si_duration d) < 2 ^ 33" "\<not> si_hasDuration d \<Longrightarrow> si_duration d = 0 \<and> \<not> si_autoReturn d"
    "si_hasDuration c = si_hasDuration d" "si_duration c = 0" "si_autoReturn c = False"
  shows "parse_break_duration c (break_bytes d @ rest) =
    Ok (c\<lparr>si_autoReturn := si_autoReturn d, si_duration := si_duration d\<rparr>, rest)"
proof (cases "si_hasDuration d")
  case True
  let ?b = "if si_autoReturn d then 0xFE else 0x7E :: byte"
  have b: "\<not> bit ?b 0" by simp
  have "(pts_bytes ?b (si_duration d)) ! 0 AND 0x80 = 0x80 \<longleftrightarrow> si_autoReturn d"
    by (simp add: pts_bytes_def byte_or_bit_simps(1) bit_simps)
  then show ?thesis
    using True assms(3) and_33 [OF assms(1)] uint40_pts_bytes' [OF b assms(1)]
    by (simp add: parse_break_duration_def break_bytes_def duration_bytes_pts)
qed (use assms in \<open>cases c; simp add: parse_break_duration_def break_bytes_def\<close>)

lemma parse_prog_info_back:
  "parse_prog_info c (prog_info_bytes d @ rest) =
   Ok (c\<lparr>si_uniqueProgramId := si_uniqueProgramId d, si_availNum := si_availNum d,
         si_availsExpected := si_availsExpected d\<rparr>, rest)"
proof -
  have "Next 4 (prog_info_bytes d @ rest) = (prog_info_bytes d, rest)" by (rule Next_append) (simp add: prog_info_bytes_def)
  then show ?thesis by (simp add: parse_prog_info_def) (simp add: prog_info_bytes_def uint16_back)
qed

text \<open>The whole command, with the immediate flag that the parser sees.\<close>

lemma si_parse_back:
  assumes ok: "si_ok imm c" and flags: "bit f 7 = si_outOfNetworkIndicator c" "bit f 6 = si_isProgramSplice c"
    "bit f 5 = si_hasDuration c" "bit f 4 = imm"
  shows "parseSpliceInsert (PutUint32 (si_eventID c) @ [0x7F, f] @ program_time_bytes imm c @
      components_bytes (\<not> imm) c @ break_bytes c @ prog_info_bytes c @ rest) =
    Ok (c\<lparr>si_spliceImmediate := imm\<rparr>, rest)"
proof -
  let ?c1 = "zero_spliceInsert\<lparr>si_eventID := si_eventID c\<rparr>"
  let ?c2 = "?c1\<lparr>si_outOfNetworkIndicator := si_outOfNetworkIndicator c, si_isProgramSplice := si_isProgramSplice c,
    si_hasDuration := si_hasDuration c, si_spliceImmediate := imm\<rparr>"
  let ?c3 = "?c2\<lparr>si_hasPTS := si_hasPTS c, si_pts := si_pts c\<rparr>"
  let ?c4 = "?c3\<lparr>si_components := si_components c\<rparr>"
  let ?c5 = "?c4\<lparr>si_autoReturn := si_autoReturn c, si_duration := si_duration c\<rparr>"
  have time: "time_ok (si_hasPTS c, si_pts c)" using ok unfolding si_ok_def by blast
  have z: "zero_spliceInsert\<lparr>si_eventID := v, si_eventCancelIndicator := False\<rparr> = zero_spliceInsert\<lparr>si_eventID := v\<rparr>" for v
    by (simp add: zero_spliceInsert_def)
  have 1: "parse_base zero_spliceInsert (PutUint32 (si_eventID c) @ 0x7F # r) = Ok (?c1, r)" for r
    by (simp add: parse_base_back z)
  have 2: "parse_flags ?c1 (f # r) = Ok (?c2, r)" for r
    using flags by (simp add: parse_flags_def byte_or_bit_simps)
  have 3: "parse_program_time ?c2 (program_time_bytes imm c @ r) = Ok (?c3, r)" for r
    by (rule parse_program_time_back [OF time]) (use ok in \<open>simp_all add: si_ok_def zero_spliceInsert_def\<close>)
  have 4: "parse_components ?c3 (components_bytes (\<not> imm) c @ r) = Ok (?c4, r)" for r
    by (rule parse_components_back) (use ok in \<open>simp_all add: si_ok_def zero_spliceInsert_def\<close>)
  have 5: "parse_break_duration ?c4 (break_bytes c @ r) = Ok (?c5, r)" for r
    by (rule parse_break_back) (use ok in \<open>simp_all add: si_ok_def zero_spliceInsert_def\<close>)
  have c: "?c5\<lparr>si_uniqueProgramId := si_uniqueProgramId c, si_availNum := si_availNum c,
      si_availsExpected := si_availsExpected c\<rparr> = c\<lparr>si_spliceImmediate := imm\<rparr>"
    using ok by (cases c) (simp add: si_ok_def zero_spliceInsert_def)
  have n: "\<not> si_eventCancelIndicator ?c1" by (simp add: zero_spliceInsert_def)
  show ?thesis
    by (simp add: parseSpliceInsert_def si_parse_def 1 2 3 4 5 n parse_prog_info_back c del: append_assoc)
qed

lemma splice_time_signal_back:
  assumes "ts_hasPTS t" "unat (ts_pts t) < 2 ^ 33"
  shows "parseTimeSignal (ts_Data t @ rest) = Ok (t, rest)"
proof -
  have "read_splice_time (ts_Data t @ rest) = Ok ((True, ts_pts t), rest)"
    using stime.read_back [of "(True, ts_pts t)" rest] assms by (simp add: ts_Data_def time_ok_def)
  then have "parseSpliceTime (ts_Data t @ rest) = Ok ((True, ts_pts t, None), rest)"
    by (auto simp: read_splice_time_def split: option.splits)
  with assms(1) show ?thesis by (cases t) (simp add: parseTimeSignal_def)
qed

lemma splice_insert_back:
  assumes "si_ok (si_spliceImmediate c) c" "si_components c = []"
  shows "parseSpliceInsert (si_Data c @ rest) = Ok (c, rest)"
proof -
  have "components_bytes imm c = components_bytes (\<not> imm) c" for imm
    using assms(2) by (simp add: components_bytes_def)
  moreover have "\<not> si_eventCancelIndicator c" using assms(1) by (simp add: si_ok_def)
  ultimately show ?thesis
    using si_parse_back [OF assms(1) bit_si_flags, of rest] by (simp add: si_Data_parts)
qed

section \<open>Properties\<close>

lemma pts_bytes_low: "pts_bytes b (p AND 0x01ffffffff) = pts_bytes b p"
proof -
  have m: "p AND 0x01ffffffff = take_bit 33 p" unfolding and_numeral_mask ..
  have "ucast (drop_bit 32 (take_bit 33 p)) AND (1 :: byte) = ucast (drop_bit 32 p) AND 1"
    by (rule byte_eqI) (auto simp: bit_simps)
  moreover have "ucast (drop_bit n (take_bit 33 p)) = (ucast (drop_bit n p) :: byte)" if "n \<le> 24" for n
    by (rule byte_eqI) (use that in \<open>auto simp: bit_simps\<close>)
  from this [of 24] this [of 16] this [of 8] this [of 0]
  have "ucast (drop_bit 24 (take_bit 33 p)) = (ucast (drop_bit 24 p) :: byte)" "ucast (drop_bit 16 (take_bit 33 p)) = (ucast (drop_bit 16 p) :: byte)"
    "ucast (drop_bit 8 (take_bit 33 p)) = (ucast (drop_bit 8 p) :: byte)" "ucast (take_bit 33 p) = (ucast p :: byte)" by simp_all
  ultimately show ?thesis unfolding m by (simp add: pts_bytes_def)
qed

text \<open>What the parser makes of a splice insert that is not cancelled: 33 bits of its times, and nothing of the fields that are not written.\<close>

definition as_read :: "spliceInsert \<Rightarrow> spliceInsert" where
  "as_read c = c\<lparr>si_hasPTS := (si_isProgramSplice c \<and> \<not> si_spliceImmediate c),
     si_pts := (if si_isProgramSplice c \<and> \<not> si_spliceImmediate c then si_pts c AND 0x01ffffffff else 0),
     si_duration := (if si_hasDuration c then si_duration c AND 0x01ffffffff else 0),
     si_autoReturn := (si_hasDuration c \<and> si_autoReturn c)\<rparr>"

lemma as_read_ok:
  assumes "\<not> si_eventCancelIndicator c" "si_components c = []"
  shows "si_ok (si_spliceImmediate c) (as_read c)"
proof -
  have "unat (p AND 0x01ffffffff :: PTS) < 8589934592" for p using unat_and_33 [of p] by simp
  then show ?thesis using assms by (simp add: si_ok_def as_read_def time_ok_def)
qed

lemma as_read_Data:
  assumes "si_isProgramSplice c \<and> \<not> si_spliceImmediate c \<Longrightarrow> si_hasPTS c"
  shows "si_Data (as_read c) = si_Data c"
proof -
  have "si_flags (as_read c) = si_flags c" by (simp add: si_flags_def as_read_def)
  then show ?thesis using assms
    by (auto simp: si_Data_parts program_time_bytes_def components_bytes_def break_bytes_def prog_info_bytes_def
        as_read_def spliceTimeBytes_pts duration_bytes_pts pts_bytes_low)
qed

lemma as_read_same: "si_ok (si_spliceImmediate c) c \<Longrightarrow> as_read c = c"
  by (cases c) (auto simp: as_read_def si_ok_def time_ok_def and_33)

lemma cancelled_read:
  assumes "si_eventCancelIndicator c"
  shows "parseSpliceInsert (si_Data c @ rest) =
    Ok (zero_spliceInsert\<lparr>si_eventID := si_eventID c, si_eventCancelIndicator := True\<rparr>, drop 5 (si_Data c) @ rest)"
proof -
  have d: "si_Data c = PutUint32 (si_eventID c) @ 0xFF # drop 5 (si_Data c)"
    using assms by (simp add: si_Data_parts PutUint32_def)
  show ?thesis by (subst d) (simp add: parseSpliceInsert_def si_parse_def parse_base_back)
qed

lemma timeless_refused:
  assumes "\<not> si_eventCancelIndicator c" "si_isProgramSplice c" "\<not> si_spliceImmediate c" "\<not> si_hasPTS c"
  shows "parseSpliceInsert (si_Data c @ rest) = Err ErrSCTE35UnsupportedSpliceCommand"
proof -
  have t: "read_splice_time (0x7E # r) = Ok ((False, 0), r)" for r
    using stime.read_back [of "(False, 0)" r] by (simp add: time_ok_def spliceTimeBytes_pts)
  show ?thesis using assms
    by (simp add: si_Data_parts program_time_bytes_def spliceTimeBytes_pts parseSpliceInsert_def si_parse_def parse_base_back
        parse_flags_def byte_or_bit_simps bit_si_flags parse_program_time_def t)
qed

text \<open>C17: a time signal with a time is read back from its bytes with the low 33 bits of the time, and the
  parser stops right behind it; one without a time is refused. Of a splice insert without components, whatever its
  other fields: when it is cancelled, the parser reads the event id and the flag and leaves the other fields, which
  \<open>Data\<close> writes all the same, in the buffer; when it is a program splice that is not immediate and has
  no time, it is refused; in every other case the parser stops right behind it and gives the command back with the
  low 33 bits of its time and of its duration, without the time that an immediate splice or a component splice may
  hold, and without a duration and return flag when the duration flag is off. So a command whose fields are in
  range, and absent when they are not written, is read back as it was. (With components the bytes are misread; that
  is a theorem of its own.)\<close>

theorem splice_command_roundtrip:
  assumes "si_components c = []"
  shows "(ts_hasPTS t \<longrightarrow> parseTimeSignal (ts_Data t @ rest) = Ok (t\<lparr>ts_pts := ts_pts t AND 0x01ffffffff\<rparr>, rest)) \<and>
    (\<not> ts_hasPTS t \<longrightarrow> parseTimeSignal (ts_Data t @ rest) = Err ErrSCTE35UnsupportedSpliceCommand) \<and>
    parseSpliceInsert (si_Data c @ rest) =
      (if si_eventCancelIndicator c
       then Ok (zero_spliceInsert\<lparr>si_eventID := si_eventID c, si_eventCancelIndicator := True\<rparr>, drop 5 (si_Data c) @ rest)
       else if si_isProgramSplice c \<and> \<not> si_spliceImmediate c \<and> \<not> si_hasPTS c then Err ErrSCTE35UnsupportedSpliceCommand
       else Ok (as_read c, rest)) \<and>
    (si_ok (si_spliceImmediate c) c \<longrightarrow> as_read c = c)"
proof -
  let ?t = "t\<lparr>ts_pts := ts_pts t AND 0x01ffffffff\<rparr>"
  have "ts_Data ?t = ts_Data t" by (simp add: ts_Data_def spliceTimeBytes_def pts_bytes_low [unfolded pts_bytes_def, simplified])
  then have "parseTimeSignal (ts_Data t @ rest) = Ok (?t, rest)" if "ts_hasPTS t"
    using splice_time_signal_back [of ?t rest] that unat_and_33 [of "ts_pts t"] by simp
  moreover have "parseTimeSignal (ts_Data t @ rest) = Err ErrSCTE35UnsupportedSpliceCommand" if "\<not> ts_hasPTS t"
    using that by (simp add: parseTimeSignal_def ts_Data_def spliceTimeBytes_pts parseSpliceTime_def)
  moreover have "parseSpliceInsert (si_Data c @ rest) = Ok (as_read c, rest)"
    if "\<not> si_eventCancelIndicator c" "\<not> (si_isProgramSplice c \<and> \<not> si_spliceImmediate c \<and> \<not> si_hasPTS c)"
  proof -
    have "si_ok (si_spliceImmediate (as_read c)) (as_read c)" "si_components (as_read c) = []"
      using as_read_ok [OF that(1) assms] assms by (simp_all add: as_read_def)
    from splice_insert_back [OF this, of rest]
    have "parseSpliceInsert (si_Data (as_read c) @ rest) = Ok (as_read c, rest)" .
    moreover have "si_Data (as_read c) = si_Data c" by (rule as_read_Data) (use that(2) in blast)
    ultimately show ?thesis by (simp only:)
  qed
  ultimately show ?thesis using cancelled_read [of c rest] timeless_refused [of c rest] as_read_same [of c] by auto
qed

abbreviation example_insert :: spliceInsert where
  "example_insert \<equiv> CreateSpliceInsertCommand\<lparr>si_eventID := 7, si_hasPTS := True, si_pts := 0x123456789,
     si_hasDuration := True, si_duration := 2700000, si_autoReturn := True, si_uniqueProgramId := 0x1234\<rparr>"

lemma example_insert_ok: "si_ok (si_spliceImmediate example_insert) example_insert"
  by (simp add: si_ok_def CreateSpliceInsertCommand_def zero_spliceInsert_def time_ok_def)

theorem splice_command_roundtrip_witness:
  "parseTimeSignal (ts_Data \<lparr>ts_hasPTS = True, ts_pts = 90000\<rparr> @ [1]) = Ok (\<lparr>ts_hasPTS = True, ts_pts = 90000\<rparr>, [1]) \<and>
   parseSpliceInsert (si_Data example_insert @ [1]) = Ok (example_insert, [1])"
proof -
  have c: "si_components example_insert = []" "\<not> si_eventCancelIndicator example_insert" "si_hasPTS example_insert"
    by (simp_all add: CreateSpliceInsertCommand_def zero_spliceInsert_def)
  from splice_command_roundtrip [OF c(1), of "\<lparr>ts_hasPTS = True, ts_pts = 90000\<rparr>" "[1]"] c(2,3) example_insert_ok
  show ?thesis by simp
qed

text \<open>The times of components are written and read under opposite values of the splice-immediate flag:
  the bytes of a command with components are read back once that one flag is inverted, and as they are
  written the time of a component is lost and its bytes are left in the buffer for the next field.\<close>

theorem component_times_inverted:
  assumes "si_ok (\<not> si_spliceImmediate c) c" "\<not> si_isProgramSplice c"
  shows "parseSpliceInsert ((si_Data c)[5 := si_flags c XOR 0x10] @ rest) =
      Ok (c\<lparr>si_spliceImmediate := \<not> si_spliceImmediate c\<rparr>, rest) \<and>
    (\<exists>c' r. parseSpliceInsert (si_Data (zero_spliceInsert\<lparr>si_spliceImmediate := True,
        si_components := [\<lparr>co_componentTag = tag, co_hasPts = True, co_pts = p\<rparr>]\<rparr>)) = Ok (c', r) \<and>
      si_components c' = [\<lparr>co_componentTag = tag, co_hasPts = False, co_pts = 0\<rparr>] \<and> length r = 5)"
proof
  let ?i = "si_spliceImmediate c" let ?f = "si_flags c XOR 0x10"
  have "\<not> si_eventCancelIndicator c" using assms(1) by (simp add: si_ok_def)
  then have d: "(si_Data c)[5 := ?f] = PutUint32 (si_eventID c) @ [0x7F, ?f] @ program_time_bytes (\<not> ?i) c @
      components_bytes (\<not> \<not> ?i) c @ break_bytes c @ prog_info_bytes c"
    using assms(2) by (simp add: si_Data_parts PutUint32_def program_time_bytes_def)
  have "bit ?f 7 = si_outOfNetworkIndicator c" "bit ?f 6 = si_isProgramSplice c" "bit ?f 5 = si_hasDuration c"
    "bit ?f 4 = (\<not> ?i)" by (simp_all add: bit_simps bit_si_flags)
  from si_parse_back [OF assms(1) this, of rest]
  show "parseSpliceInsert ((si_Data c)[5 := ?f] @ rest) = Ok (c\<lparr>si_spliceImmediate := \<not> ?i\<rparr>, rest)"
    unfolding d by simp
next
  let ?c = "zero_spliceInsert\<lparr>si_spliceImmediate := True\<rparr>"
  show "\<exists>c' r. parseSpliceInsert (si_Data (?c\<lparr>
        si_components := [\<lparr>co_componentTag = tag, co_hasPts = True, co_pts = p\<rparr>]\<rparr>)) = Ok (c', r) \<and>
      si_components c' = [\<lparr>co_componentTag = tag, co_hasPts = False, co_pts = 0\<rparr>] \<and> length r = 5"
    by (simp add: parseSpliceInsert_def si_parse_def si_Data_def zero_spliceInsert_def parse_base_back parse_flags_def
        byte_or_bit_simps bit_si_flags parse_program_time_def parse_components_def parse_component_def component_bytes_def
        parse_break_duration_def parse_prog_info_def spliceTimeBytes_def CreateComponent_def co_ComponentTag_def
        co_HasPTS_def co_PTS_def Next_def Let_def)
qed

theorem component_times_inverted_witness:
  "parseSpliceInsert ((si_Data (zero_spliceInsert\<lparr>si_spliceImmediate := True,
      si_components := [\<lparr>co_componentTag = 3, co_hasPts = True, co_pts = 90000\<rparr>]\<rparr>))[5 := si_flags (zero_spliceInsert\<lparr>si_spliceImmediate := True,
      si_components := [\<lparr>co_componentTag = 3, co_hasPts = True, co_pts = 90000\<rparr>]\<rparr>) XOR 0x10] @ []) =
    Ok (zero_spliceInsert\<lparr>si_spliceImmediate := True,
      si_components := [\<lparr>co_componentTag = 3, co_hasPts = True, co_pts = 90000\<rparr>]\<rparr>\<lparr>si_spliceImmediate := False\<rparr>, [])"
  using component_times_inverted [of "zero_spliceInsert\<lparr>si_spliceImmediate := True,
      si_components := [\<lparr>co_componentTag = 3, co_hasPts = True, co_pts = 90000\<rparr>]\<rparr>" "[]" 0 0]
  by (simp add: si_ok_def zero_spliceInsert_def time_ok_def component_ok_def)

end
