(* ===== verification/Scte_Descriptor.thy ===== *)
theory Scte_Descriptor
  imports Scte_Buffer Gots_Fmt
begin

text \<open>
  \<^verbatim>\<open>gots/scte35/segmentationdescriptor.go\<close> and \<^verbatim>\<open>descriptormodify.go\<close>: the segmentation descriptor, its parser,
  its setters and its bytes.  The reference of a descriptor to its message is left to theory
  \<open>Scte_State\<close>, which holds the functions that follow it.  The loop over the parts of a multiple UPID
  counts down an \<^verbatim>\<open>int\<close> that may pass zero: a result \<open>None\<close> is a call that does not return.
\<close>

section \<open>Parts\<close>

record upidSt =
  up_upidType :: SegUPIDType
  up_upidLen :: int
  up_upid :: "byte list"

definition CreateUPID :: upidSt where "CreateUPID = \<lparr>up_upidType = 0, up_upidLen = 0, up_upid = []\<rparr>"
definition up_UPIDType :: "upidSt \<Rightarrow> SegUPIDType" where "up_UPIDType u = up_upidType u"
definition up_UPID :: "upidSt \<Rightarrow> byte list" where "up_UPID u = up_upid u"
definition up_SetUPIDType :: "upidSt \<Rightarrow> SegUPIDType \<Rightarrow> upidSt" where
  "up_SetUPIDType u value = u\<lparr>up_upidType := value\<rparr>"
definition up_SetUPID :: "upidSt \<Rightarrow> byte list \<Rightarrow> upidSt" where
  "up_SetUPID u value = u\<lparr>up_upid := value\<rparr>"

record componentOffset =
  cf_componentTag :: byte
  cf_ptsOffset :: PTS

definition CreateComponentOffset :: componentOffset where
  "CreateComponentOffset = \<lparr>cf_componentTag = 0, cf_ptsOffset = 0\<rparr>"
definition cf_ComponentTag :: "componentOffset \<Rightarrow> byte" where "cf_ComponentTag c = cf_componentTag c"
definition cf_PTSOffset :: "componentOffset \<Rightarrow> PTS" where "cf_PTSOffset c = cf_ptsOffset c"
definition cf_SetComponentTag :: "componentOffset \<Rightarrow> byte \<Rightarrow> componentOffset" where
  "cf_SetComponentTag c value = c\<lparr>cf_componentTag := value\<rparr>"
definition cf_SetPTSOffset :: "componentOffset \<Rightarrow> PTS \<Rightarrow> componentOffset" where
  "cf_SetPTSOffset c value = c\<lparr>cf_ptsOffset := value\<rparr>"

definition cf_data :: "componentOffset \<Rightarrow> byte list" where
  "cf_data c =
     [cf_componentTag c, 0xFE OR (ucast (drop_bit 32 (cf_ptsOffset c)) AND 0x01), ucast (drop_bit 24 (cf_ptsOffset c)),
      ucast (drop_bit 16 (cf_ptsOffset c)), ucast (drop_bit 8 (cf_ptsOffset c)), ucast (cf_ptsOffset c)]"

text \<open>In \<^verbatim>\<open>uint64(bytes[1]) << 32 & 0x01\<close> the shift comes first.\<close>

definition componentFromBytes :: "byte list \<Rightarrow> componentOffset res" where
  "componentFromBytes bytes =
     res_bind (rd bytes 0) (\<lambda>b0. res_bind (rd bytes 1) (\<lambda>b1. res_bind (rd bytes 2) (\<lambda>b2.
     res_bind (rd bytes 3) (\<lambda>b3. res_bind (rd bytes 4) (\<lambda>b4. res_bind (rd bytes 5) (\<lambda>b5.
       Ok \<lparr>cf_componentTag = b0,
           cf_ptsOffset = (push_bit 32 (ucast b1) AND 0x01) OR push_bit 24 (ucast b2) OR push_bit 16 (ucast b3)
             OR push_bit 8 (ucast b4) OR ucast b5\<rparr>))))))"

section \<open>The descriptor\<close>

definition segDescTag :: byte where "segDescTag = 0x02"
definition segDescID :: u32 where "segDescID = 0x43554549"

record segmentationDescriptor =
  sd_typeID :: SegDescType
  sd_eventID :: u32
  sd_hasDuration :: bool
  sd_duration :: PTS
  sd_upidType :: SegUPIDType
  sd_upid :: "byte list"
  sd_mid :: "upidSt list"
  sd_segNum :: byte
  sd_segsExpected :: byte
  sd_subSegNum :: byte
  sd_subSegsExpected :: byte
  sd_eventCancelIndicator :: bool
  sd_deliveryNotRestricted :: bool
  sd_hasSubSegments :: bool
  sd_programSegmentationFlag :: bool
  sd_webDeliveryAllowedFlag :: bool
  sd_noRegionalBlackoutFlag :: bool
  sd_archiveAllowedFlag :: bool
  sd_deviceRestrictions :: DeviceRestrictions
  sd_components :: "componentOffset list"

definition CreateSegmentationDescriptor :: segmentationDescriptor where
  "CreateSegmentationDescriptor = \<lparr>sd_typeID = 0, sd_eventID = 0, sd_hasDuration = False, sd_duration = 0,
     sd_upidType = 0, sd_upid = [], sd_mid = [], sd_segNum = 0, sd_segsExpected = 0, sd_subSegNum = 0,
     sd_subSegsExpected = 0, sd_eventCancelIndicator = False, sd_deliveryNotRestricted = False,
     sd_hasSubSegments = False, sd_programSegmentationFlag = False, sd_webDeliveryAllowedFlag = False,
     sd_noRegionalBlackoutFlag = False, sd_archiveAllowedFlag = False, sd_deviceRestrictions = 0,
     sd_components = []\<rparr>"

subsection \<open>Parsing\<close>

definition seg_flags :: "segmentationDescriptor \<Rightarrow> byte \<Rightarrow> segmentationDescriptor" where
  "seg_flags d flags =
     (let d = d\<lparr>sd_deliveryNotRestricted := (flags AND 0x20 \<noteq> 0), sd_hasDuration := (flags AND 0x40 \<noteq> 0),
                sd_programSegmentationFlag := (flags AND 0x80 \<noteq> 0)\<rparr>
      in if \<not> sd_deliveryNotRestricted d then
           d\<lparr>sd_webDeliveryAllowedFlag := (flags AND 0x10 \<noteq> 0), sd_noRegionalBlackoutFlag := (flags AND 0x08 \<noteq> 0),
             sd_archiveAllowedFlag := (flags AND 0x04 \<noteq> 0), sd_deviceRestrictions := flags AND 0x03\<rparr>
         else d)"

definition read_offset :: "byte list \<Rightarrow> (componentOffset \<times> byte list) res" where
  "read_offset buf = res_bind (componentFromBytes (fst (Next 6 buf))) (\<lambda>c. Ok (c, snd (Next 6 buf)))"

definition seg_components ::
  "segmentationDescriptor \<Rightarrow> byte list \<Rightarrow> (segmentationDescriptor \<times> byte list) res" where
  "seg_components d buf =
     (if \<not> sd_programSegmentationFlag d then
        let ct = fst (readByte buf); buf = snd (readByte buf)
        in if int (unat ct) * 6 > int (length buf) - 5 then Err ErrInvalidSCTE35Length
           else res_bind (read_n (unat ct) read_offset buf) (\<lambda>(cs, buf).
                  Ok (d\<lparr>sd_components := sd_components d @ cs\<rparr>, buf))
      else Ok (d, buf))"

definition seg_duration ::
  "segmentationDescriptor \<Rightarrow> byte list \<Rightarrow> (segmentationDescriptor \<times> byte list) res" where
  "seg_duration d buf =
     (if sd_hasDuration d then
        if length buf < 10 then Err ErrInvalidSCTE35Length
        else res_bind (uint40 (fst (Next 5 buf))) (\<lambda>v. Ok (d\<lparr>sd_duration := v\<rparr>, snd (Next 5 buf)))
      else Ok (d, buf))"

partial_function (option) mid_loop ::
  "int \<Rightarrow> byte list \<Rightarrow> upidSt list \<Rightarrow> (upidSt list \<times> byte list) option" where
  "mid_loop segUpidLen buf mid =
     (if segUpidLen = 0 then Some (mid, buf)
      else let ty = fst (readByte buf); buf = snd (readByte buf);
               ln = fst (readByte buf); buf = snd (readByte buf);
               upid = fst (Next (unat ln) buf); buf = snd (Next (unat ln) buf)
           in mid_loop (segUpidLen - 1 - 1 - int (unat ln)) buf
                (mid @ [\<lparr>up_upidType = ty, up_upidLen = int (unat ln), up_upid = upid\<rparr>]))"

definition seg_upid ::
  "segmentationDescriptor \<Rightarrow> byte list \<Rightarrow> (segmentationDescriptor \<times> byte list) res option" where
  "seg_upid d buf =
     (let d = d\<lparr>sd_upidType := fst (readByte buf)\<rparr>; buf = snd (readByte buf);
          segUpidLen = unat (fst (readByte buf)); buf = snd (readByte buf);
          d = d\<lparr>sd_mid := []\<rparr>
      in if sd_upidType d = SegUPIDMID then
           map_option (\<lambda>(mid, buf). Ok (d\<lparr>sd_upid := [], sd_mid := mid\<rparr>, buf)) (mid_loop (int segUpidLen) buf [])
         else Some (if length buf < segUpidLen + 3 then Err ErrInvalidSCTE35Length
                    else Ok (d\<lparr>sd_upid := fst (Next segUpidLen buf)\<rparr>, snd (Next segUpidLen buf))))"

definition seg_tail :: "segmentationDescriptor \<Rightarrow> byte list \<Rightarrow> segmentationDescriptor" where
  "seg_tail d buf =
     (let d = d\<lparr>sd_typeID := fst (readByte buf)\<rparr>; buf = snd (readByte buf);
          d = d\<lparr>sd_segNum := fst (readByte buf)\<rparr>; buf = snd (readByte buf);
          d = d\<lparr>sd_segsExpected := fst (readByte buf)\<rparr>; buf = snd (readByte buf)
      in if length buf > 0 \<and> (sd_typeID d = 0x34 \<or> sd_typeID d = 0x36) then
           d\<lparr>sd_subSegNum := fst (readByte buf), sd_subSegsExpected := fst (readByte (snd (readByte buf))),
             sd_hasSubSegments := True\<rparr>
         else d)"

text \<open>The fields of an event that is not cancelled.\<close>

definition parse_event :: "segmentationDescriptor \<Rightarrow> byte list \<Rightarrow> segmentationDescriptor res option" where
  "parse_event d buf =
     (let d = seg_flags d (fst (readByte buf)); buf = snd (readByte buf)
      in case res_bind (seg_components d buf) (\<lambda>(d, buf). seg_duration d buf) of
           Ok (d, buf) \<Rightarrow> map_option (\<lambda>r. res_bind r (\<lambda>(d, buf). Ok (seg_tail d buf))) (seg_upid d buf)
         | Err e \<Rightarrow> Some (Err e)
         | Panic \<Rightarrow> Some Panic)"

definition parseDescriptor ::
  "segmentationDescriptor \<Rightarrow> byte list \<Rightarrow> segmentationDescriptor res option" where
  "parseDescriptor d data =
     (case be_uint32 (fst (Next 4 data)) of
        Ok ident \<Rightarrow>
          if ident \<noteq> segDescID then Some (Err ErrSCTE35InvalidDescriptorID)
          else let buf = snd (Next 4 data)
               in (case be_uint32 (fst (Next 4 buf)) of
                     Ok v \<Rightarrow>
                       let buf = snd (Next 4 buf);
                           d = d\<lparr>sd_eventID := v, sd_eventCancelIndicator := (fst (readByte buf) AND 0x80 \<noteq> 0)\<rparr>
                       in if \<not> sd_eventCancelIndicator d then parse_event d (snd (readByte buf)) else Some (Ok d)
                   | Err e \<Rightarrow> Some (Err e)
                   | Panic \<Rightarrow> Some Panic)
      | Err e \<Rightarrow> Some (Err e)
      | Panic \<Rightarrow> Some Panic)"

subsection \<open>Writing\<close>

definition event_flags :: "segmentationDescriptor \<Rightarrow> byte" where
  "event_flags d =
     (let b = (0 :: byte);
          b = (if sd_deliveryNotRestricted d then b OR 0x20 OR 0x1F
               else let b = (if sd_webDeliveryAllowedFlag d then b OR 0x10 else b);
                        b = (if sd_noRegionalBlackoutFlag d then b OR 0x08 else b);
                        b = (if sd_archiveAllowedFlag d then b OR 0x04 else b)
                    in b OR (sd_deviceRestrictions d AND 0x03));
          b = (if sd_programSegmentationFlag d then b OR 0x80 else b)
      in if sd_hasDuration d then b OR 0x40 else b)"

definition offsets_bytes :: "segmentationDescriptor \<Rightarrow> byte list" where
  "offsets_bytes d =
     (if sd_programSegmentationFlag d then []
      else [of_nat (length (sd_components d))] @ concat (map cf_data (sd_components d)))"

definition seg_duration_bytes :: "segmentationDescriptor \<Rightarrow> byte list" where
  "seg_duration_bytes d =
     (if sd_hasDuration d then
        [ucast (drop_bit 32 (sd_duration d)), ucast (drop_bit 24 (sd_duration d)), ucast (drop_bit 16 (sd_duration d)),
         ucast (drop_bit 8 (sd_duration d)), ucast (sd_duration d)]
      else [])"

definition mid_bytes :: "upidSt \<Rightarrow> byte list" where
  "mid_bytes u = [up_upidType u, word_of_int (up_upidLen u)] @ up_upid u"

definition upid_bytes :: "segmentationDescriptor \<Rightarrow> byte list" where
  "upid_bytes d =
     (let body = (if length (sd_upid d) > 0 then sd_upid d else concat (map mid_bytes (sd_mid d)))
      in [sd_upidType d, of_nat (length body)] @ body)"

definition segment_bytes :: "segmentationDescriptor \<Rightarrow> byte list" where
  "segment_bytes d =
     [sd_typeID d, sd_segNum d, sd_segsExpected d] @
     (if (sd_typeID d = 0x34 \<or> sd_typeID d = 0x36) \<and> sd_hasSubSegments d
      then [sd_subSegNum d, sd_subSegsExpected d] else [])"

definition seg_Data :: "segmentationDescriptor \<Rightarrow> byte list" where
  "seg_Data d =
     (let body = PutUint32 segDescID @ PutUint32 (sd_eventID d) @
            (if sd_eventCancelIndicator d then [0x7F OR 0x80]
             else [0x7F] @ [event_flags d] @ offsets_bytes d @ seg_duration_bytes d @ upid_bytes d @ segment_bytes d)
      in [segDescTag, of_nat (length body)] @ body)"

subsection \<open>Readers\<close>

definition seg_EventID :: "segmentationDescriptor \<Rightarrow> u32" where
  "seg_EventID d = sd_eventID d"
definition seg_TypeID :: "segmentationDescriptor \<Rightarrow> SegDescType" where
  "seg_TypeID d = sd_typeID d"
definition seg_IsEventCanceled :: "segmentationDescriptor \<Rightarrow> bool" where
  "seg_IsEventCanceled d = sd_eventCancelIndicator d"
definition seg_HasDuration :: "segmentationDescriptor \<Rightarrow> bool" where
  "seg_HasDuration d = sd_hasDuration d"
definition seg_Duration :: "segmentationDescriptor \<Rightarrow> PTS" where
  "seg_Duration d = sd_duration d"
definition seg_UPIDType :: "segmentationDescriptor \<Rightarrow> SegUPIDType" where
  "seg_UPIDType d = sd_upidType d"
definition seg_SegmentNum :: "segmentationDescriptor \<Rightarrow> byte" where
  "seg_SegmentNum d = sd_segNum d"
definition seg_HasProgramSegmentation :: "segmentationDescriptor \<Rightarrow> bool" where
  "seg_HasProgramSegmentation d = sd_programSegmentationFlag d"
definition seg_SegmentNumber :: "segmentationDescriptor \<Rightarrow> byte" where
  "seg_SegmentNumber d = sd_segNum d"
definition seg_SegmentsExpected :: "segmentationDescriptor \<Rightarrow> byte" where
  "seg_SegmentsExpected d = sd_segsExpected d"
definition seg_HasSubSegments :: "segmentationDescriptor \<Rightarrow> bool" where
  "seg_HasSubSegments d = sd_hasSubSegments d"
definition seg_SubSegmentNumber :: "segmentationDescriptor \<Rightarrow> byte" where
  "seg_SubSegmentNumber d = sd_subSegNum d"
definition seg_SubSegmentsExpected :: "segmentationDescriptor \<Rightarrow> byte" where
  "seg_SubSegmentsExpected d = sd_subSegsExpected d"
definition seg_IsDeliveryNotRestricted :: "segmentationDescriptor \<Rightarrow> bool" where
  "seg_IsDeliveryNotRestricted d = sd_deliveryNotRestricted d"
definition seg_IsWebDeliveryAllowed :: "segmentationDescriptor \<Rightarrow> bool" where
  "seg_IsWebDeliveryAllowed d = sd_webDeliveryAllowedFlag d"
definition seg_IsArchiveAllowed :: "segmentationDescriptor \<Rightarrow> bool" where
  "seg_IsArchiveAllowed d = sd_archiveAllowedFlag d"
definition seg_HasNoRegionalBlackout :: "segmentationDescriptor \<Rightarrow> bool" where
  "seg_HasNoRegionalBlackout d = sd_noRegionalBlackoutFlag d"
definition seg_GetDeviceRestrictions :: "segmentationDescriptor \<Rightarrow> DeviceRestrictions" where
  "seg_GetDeviceRestrictions d = sd_deviceRestrictions d"

definition seg_UPID :: "segmentationDescriptor \<Rightarrow> byte list" where
  "seg_UPID d = (if sd_upidType d = SegUPIDMID then [] else sd_upid d)"

definition seg_MID :: "segmentationDescriptor \<Rightarrow> upidSt list" where
  "seg_MID d = (if sd_upidType d \<noteq> SegUPIDMID then [] else sd_mid d)"

definition seg_Components :: "segmentationDescriptor \<Rightarrow> componentOffset list" where
  "seg_Components d = sd_components d"

definition seg_IsOut :: "segmentationDescriptor \<Rightarrow> bool" where
  "seg_IsOut d = (seg_TypeID d \<in> {SegDescProgramStart, SegDescProgramResumption, SegDescProgramOverlapStart,
     SegDescProgramStartInProgress, SegDescChapterStart, SegDescBreakStart, SegDescProviderAdvertisementStart,
     SegDescDistributorAdvertisementStart, SegDescProviderPOStart, SegDescDistributorPOStart,
     SegDescUnscheduledEventStart, SegDescProviderAdBlockStart, SegDescNetworkStart})"

definition seg_IsIn :: "segmentationDescriptor \<Rightarrow> bool" where
  "seg_IsIn d = (seg_TypeID d \<in> {SegDescProgramEnd, SegDescProgramEarlyTermination, SegDescProgramBreakaway,
     SegDescProgramRunoverPlanned, SegDescProgramRunoverUnplanned, SegDescProgramBlackoutOverride, SegDescChapterEnd,
     SegDescBreakEnd, SegDescProviderAdvertisementEnd, SegDescDistributorAdvertisementEnd, SegDescProviderPOEnd,
     SegDescDistributorPOEnd, SegDescUnscheduledEventEnd, SegDescProviderAdBlockEnd, SegDescNetworkEnd})"

text \<open>\<^verbatim>\<open>strings.Contains\<close> and \<^verbatim>\<open>strings.TrimPrefix\<close>.\<close>

fun strings_Contains :: "string \<Rightarrow> string \<Rightarrow> bool" where
  "strings_Contains [] sub = (sub = [])"
| "strings_Contains (c # s) sub = (take (length sub) (c # s) = sub \<or> strings_Contains s sub)"

definition strings_TrimPrefix :: "string \<Rightarrow> string \<Rightarrow> string" where
  "strings_TrimPrefix s prefix = (if take (length prefix) s = prefix then drop (length prefix) s else s)"

definition StreamSwitchSignalId :: "segmentationDescriptor \<Rightarrow> string res" where
  "StreamSwitchSignalId d =
     (if length (sd_mid d) = 2 \<and> \<not> sd_deliveryNotRestricted d \<and> up_upidType (sd_mid d ! 0) = SegUPIDADI \<and>
         strings_Contains (string_of_bytes (up_upid (sd_mid d ! 0))) ''BLACKOUT'' \<and>
         up_upidType (sd_mid d ! 1) = SegUPADSINFO \<and>
         strings_Contains (string_of_bytes (up_upid (sd_mid d ! 1))) ''comcast:linear:licenserotation''
      then Ok (strings_TrimPrefix (string_of_bytes (up_upid (sd_mid d ! 0))) ''BLACKOUT:'')
      else Err ErrVSSSignalIdNotFound)"

subsection \<open>Setters\<close>

definition seg_SetEventID :: "segmentationDescriptor \<Rightarrow> u32 \<Rightarrow> segmentationDescriptor" where
  "seg_SetEventID d value = d\<lparr>sd_eventID := value\<rparr>"
definition seg_SetIsEventCanceled :: "segmentationDescriptor \<Rightarrow> bool \<Rightarrow> segmentationDescriptor" where
  "seg_SetIsEventCanceled d value = d\<lparr>sd_eventCancelIndicator := value\<rparr>"
definition seg_SetHasDuration :: "segmentationDescriptor \<Rightarrow> bool \<Rightarrow> segmentationDescriptor" where
  "seg_SetHasDuration d value = d\<lparr>sd_hasDuration := value\<rparr>"
definition seg_SetSegmentNumber :: "segmentationDescriptor \<Rightarrow> byte \<Rightarrow> segmentationDescriptor" where
  "seg_SetSegmentNumber d value = d\<lparr>sd_segNum := value\<rparr>"
definition seg_SetSegmentsExpected :: "segmentationDescriptor \<Rightarrow> byte \<Rightarrow> segmentationDescriptor" where
  "seg_SetSegmentsExpected d value = d\<lparr>sd_segsExpected := value\<rparr>"
definition seg_SetSubSegmentNumber :: "segmentationDescriptor \<Rightarrow> byte \<Rightarrow> segmentationDescriptor" where
  "seg_SetSubSegmentNumber d value = d\<lparr>sd_subSegNum := value\<rparr>"
definition seg_SetSubSegmentsExpected :: "segmentationDescriptor \<Rightarrow> byte \<Rightarrow> segmentationDescriptor" where
  "seg_SetSubSegmentsExpected d value = d\<lparr>sd_subSegsExpected := value\<rparr>"
definition seg_SetHasProgramSegmentation :: "segmentationDescriptor \<Rightarrow> bool \<Rightarrow> segmentationDescriptor" where
  "seg_SetHasProgramSegmentation d value = d\<lparr>sd_programSegmentationFlag := value\<rparr>"
definition seg_SetIsDeliveryNotRestricted :: "segmentationDescriptor \<Rightarrow> bool \<Rightarrow> segmentationDescriptor" where
  "seg_SetIsDeliveryNotRestricted d value = d\<lparr>sd_deliveryNotRestricted := value\<rparr>"
definition seg_SetIsWebDeliveryAllowed :: "segmentationDescriptor \<Rightarrow> bool \<Rightarrow> segmentationDescriptor" where
  "seg_SetIsWebDeliveryAllowed d value = d\<lparr>sd_webDeliveryAllowedFlag := value\<rparr>"
definition seg_SetIsArchiveAllowed :: "segmentationDescriptor \<Rightarrow> bool \<Rightarrow> segmentationDescriptor" where
  "seg_SetIsArchiveAllowed d value = d\<lparr>sd_archiveAllowedFlag := value\<rparr>"
definition seg_SetHasNoRegionalBlackout :: "segmentationDescriptor \<Rightarrow> bool \<Rightarrow> segmentationDescriptor" where
  "seg_SetHasNoRegionalBlackout d value = d\<lparr>sd_noRegionalBlackoutFlag := value\<rparr>"
definition seg_SetDeviceRestrictions :: "segmentationDescriptor \<Rightarrow> DeviceRestrictions \<Rightarrow> segmentationDescriptor" where
  "seg_SetDeviceRestrictions d value = d\<lparr>sd_deviceRestrictions := value\<rparr>"
definition seg_SetHasSubSegments :: "segmentationDescriptor \<Rightarrow> bool \<Rightarrow> segmentationDescriptor" where
  "seg_SetHasSubSegments d value = d\<lparr>sd_hasSubSegments := value\<rparr>"

definition seg_SetTypeID :: "segmentationDescriptor \<Rightarrow> SegDescType \<Rightarrow> segmentationDescriptor" where
  "seg_SetTypeID d value =
     (let d = d\<lparr>sd_typeID := value\<rparr>
      in if sd_typeID d \<noteq> 0x34 \<and> sd_typeID d \<noteq> 0x36 then d\<lparr>sd_hasSubSegments := False\<rparr> else d)"

definition seg_SetDuration :: "segmentationDescriptor \<Rightarrow> PTS \<Rightarrow> segmentationDescriptor" where
  "seg_SetDuration d value = d\<lparr>sd_duration := value AND 0xFFFFFFFFFF\<rparr>"

definition seg_SetUPIDType :: "segmentationDescriptor \<Rightarrow> SegUPIDType \<Rightarrow> segmentationDescriptor" where
  "seg_SetUPIDType d value =
     (let d = d\<lparr>sd_upidType := value\<rparr>
      in if sd_upidType d = SegUPIDMID then d\<lparr>sd_upid := []\<rparr>
         else if sd_upidType d = SegUPIDNotUsed then d\<lparr>sd_mid := [], sd_upid := []\<rparr>
         else d\<lparr>sd_mid := []\<rparr>)"

definition seg_SetUPID :: "segmentationDescriptor \<Rightarrow> byte list \<Rightarrow> segmentationDescriptor" where
  "seg_SetUPID d value = (if sd_upidType d = SegUPIDMID then d else d\<lparr>sd_upid := value\<rparr>)"

definition seg_SetMID :: "segmentationDescriptor \<Rightarrow> upidSt list \<Rightarrow> segmentationDescriptor" where
  "seg_SetMID d value =
     (if sd_upidType d \<noteq> SegUPIDMID then d
      else d\<lparr>sd_mid := map (\<lambda>u. \<lparr>up_upidType = up_UPIDType u, up_upidLen = int (length (up_UPID u)),
                                up_upid = up_UPID u\<rparr>) value\<rparr>)"

definition seg_SetComponents :: "segmentationDescriptor \<Rightarrow> componentOffset list \<Rightarrow> segmentationDescriptor" where
  "seg_SetComponents d value =
     d\<lparr>sd_components := map (\<lambda>c. \<lparr>cf_componentTag = cf_ComponentTag c, cf_ptsOffset = cf_PTSOffset c\<rparr>) value\<rparr>"

section \<open>Closing rules\<close>

datatype segCloseType = segCloseNormal | segCloseNoBreakaway | segCloseEventID | segCloseBreakaway
  | segCloseDiffPTS | segCloseNotNested | segCloseEventIDNotNested | segCloseUnconditional

definition segCloseRules_init :: "(SegDescType \<times> (SegDescType \<times> segCloseType) list) list" where
  "segCloseRules_init =
     [(0x10, [(0x10, segCloseNoBreakaway), (0x14, segCloseNormal), (0x17, segCloseNoBreakaway),
          (0x19, segCloseNoBreakaway), (0x20, segCloseNormal), (0x22, segCloseNormal),
          (0x24, segCloseNormal), (0x26, segCloseNormal), (0x30, segCloseNormal),
          (0x34, segCloseNormal), (0x36, segCloseNormal), (0x3C, segCloseNormal),
          (0x40, segCloseNormal), (0x42, segCloseNormal), (0x44, segCloseNormal)]),
      (0x11, [(0x10, segCloseEventID), (0x14, segCloseEventID), (0x17, segCloseEventID),
          (0x19, segCloseEventID), (0x20, segCloseNormal), (0x22, segCloseNormal),
          (0x24, segCloseNormal), (0x26, segCloseNormal), (0x30, segCloseNormal),
          (0x34, segCloseNormal), (0x36, segCloseNormal), (0x3C, segCloseNormal),
          (0x40, segCloseNormal), (0x42, segCloseNormal), (0x44, segCloseNormal)]),
      (0x12, [(0x10, segCloseEventID), (0x14, segCloseEventID), (0x17, segCloseEventID),
          (0x19, segCloseEventID), (0x20, segCloseNormal), (0x30, segCloseNormal),
          (0x32, segCloseNormal), (0x34, segCloseNormal), (0x36, segCloseNormal)]),
      (0x13, [(0x20, segCloseNormal), (0x30, segCloseNormal), (0x32, segCloseNormal),
          (0x34, segCloseNormal), (0x36, segCloseNormal)]),
      (0x14, [(0x10, segCloseBreakaway), (0x17, segCloseBreakaway), (0x19, segCloseBreakaway),
          (0x20, segCloseNormal), (0x30, segCloseNormal), (0x32, segCloseNormal),
          (0x34, segCloseNormal), (0x36, segCloseNormal)]),
      (0x19, [(0x10, segCloseNoBreakaway), (0x14, segCloseNormal), (0x17, segCloseNoBreakaway),
          (0x19, segCloseNoBreakaway), (0x20, segCloseNormal), (0x30, segCloseNormal),
          (0x32, segCloseNormal), (0x34, segCloseNormal), (0x36, segCloseNormal)]),
      (0x20, [(0x20, segCloseNormal), (0x30, segCloseNormal), (0x32, segCloseNormal),
          (0x34, segCloseNormal), (0x36, segCloseNormal)]),
      (0x21, [(0x20, segCloseEventID), (0x30, segCloseNormal), (0x32, segCloseNormal),
          (0x34, segCloseNormal), (0x36, segCloseNormal)]),
      (0x22, [(0x20, segCloseNormal), (0x22, segCloseNormal), (0x24, segCloseNormal),
          (0x26, segCloseNormal), (0x30, segCloseNormal), (0x34, segCloseNormal),
          (0x36, segCloseNormal), (0x3C, segCloseNormal), (0x44, segCloseNormal)]),
      (0x23, [(0x22, segCloseEventID), (0x30, segCloseNormal), (0x34, segCloseNormal),
          (0x36, segCloseNormal), (0x3C, segCloseNormal), (0x44, segCloseNormal)]),
      (0x24, [(0x20, segCloseNormal), (0x22, segCloseNormal), (0x24, segCloseNormal),
          (0x26, segCloseNormal), (0x30, segCloseNormal), (0x34, segCloseNormal),
          (0x36, segCloseNormal), (0x3C, segCloseNormal), (0x44, segCloseNormal)]),
      (0x25, [(0x24, segCloseEventID), (0x30, segCloseNormal), (0x34, segCloseNormal),
          (0x36, segCloseNormal), (0x3C, segCloseNormal), (0x44, segCloseNormal)]),
      (0x26, [(0x20, segCloseNormal), (0x22, segCloseNormal), (0x24, segCloseNormal),
          (0x26, segCloseNormal), (0x30, segCloseNormal), (0x34, segCloseNormal),
          (0x36, segCloseNormal), (0x3C, segCloseNormal), (0x44, segCloseNormal)]),
      (0x27, [(0x26, segCloseEventID), (0x30, segCloseNormal), (0x34, segCloseNormal),
          (0x36, segCloseNormal), (0x3C, segCloseNormal), (0x44, segCloseNormal)]),
      (0x30, [(0x30, segCloseNormal), (0x32, segCloseNormal)]),
      (0x31, [(0x30, segCloseEventID)]),
      (0x32, [(0x30, segCloseNormal), (0x32, segCloseNormal)]),
      (0x33, [(0x32, segCloseEventID)]),
      (0x34, [(0x30, segCloseDiffPTS), (0x3C, segCloseDiffPTS), (0x44, segCloseDiffPTS)]),
      (0x35, [(0x30, segCloseNormal), (0x34, segCloseEventIDNotNested), (0x3C, segCloseNormal),
          (0x44, segCloseNormal)]),
      (0x36, [(0x30, segCloseDiffPTS), (0x3C, segCloseDiffPTS), (0x44, segCloseDiffPTS)]),
      (0x37, [(0x30, segCloseNormal), (0x36, segCloseEventIDNotNested), (0x3C, segCloseNormal),
          (0x44, segCloseNormal)]),
      (0x3C, [(0x30, segCloseNormal), (0x3C, segCloseNormal)]),
      (0x3D, [(0x3C, segCloseEventID)]),
      (0x40, [(0x40, segCloseNormal)]),
      (0x41, [(0x40, segCloseEventID)]),
      (0x42, [(0x20, segCloseNormal), (0x22, segCloseNormal), (0x24, segCloseNormal),
          (0x26, segCloseNormal), (0x30, segCloseNormal), (0x34, segCloseNormal),
          (0x36, segCloseNormal), (0x3C, segCloseNormal), (0x42, segCloseNormal),
          (0x44, segCloseNormal)]),
      (0x43, [(0x20, segCloseNormal), (0x22, segCloseNormal), (0x24, segCloseNormal),
          (0x26, segCloseNormal), (0x30, segCloseNormal), (0x34, segCloseNormal),
          (0x36, segCloseNormal), (0x3C, segCloseNormal), (0x42, segCloseEventID),
          (0x44, segCloseNormal)]),
      (0x44, [(0x30, segCloseDiffPTS), (0x3C, segCloseDiffPTS), (0x44, segCloseNormal)]),
      (0x45, [(0x30, segCloseNormal), (0x3C, segCloseNormal), (0x44, segCloseEventID)]),
      (0x50, [(0x10, segCloseNormal), (0x14, segCloseNormal), (0x17, segCloseNormal),
          (0x19, segCloseNormal), (0x20, segCloseNormal), (0x30, segCloseNormal),
          (0x32, segCloseNormal), (0x34, segCloseNormal), (0x36, segCloseNormal),
          (0x40, segCloseUnconditional), (0x50, segCloseNormal)]),
      (0x51, [(0x10, segCloseNormal), (0x14, segCloseNormal), (0x17, segCloseNormal),
          (0x19, segCloseNormal), (0x20, segCloseNormal), (0x30, segCloseNormal),
          (0x32, segCloseNormal), (0x34, segCloseNormal), (0x36, segCloseNormal),
          (0x40, segCloseUnconditional), (0x50, segCloseEventID)])]"

text \<open>The assignments after the literal: a row gets one more entry.\<close>

definition set_rule ::
  "SegDescType \<Rightarrow> SegDescType \<Rightarrow> segCloseType \<Rightarrow>
   (SegDescType \<times> (SegDescType \<times> segCloseType) list) list \<Rightarrow> (SegDescType \<times> (SegDescType \<times> segCloseType) list) list" where
  "set_rule t out c rules = map (\<lambda>(k, r). if k = t then (k, (out, c) # r) else (k, r)) rules"

definition segCloseRules :: "(SegDescType \<times> (SegDescType \<times> segCloseType) list) list" where
  "segCloseRules =
     set_rule SegDescNetworkEnd 0x13 segCloseNormal (set_rule SegDescNetworkStart 0x13 segCloseNormal
    (set_rule SegDescUnscheduledEventEnd 0x13 segCloseNormal (set_rule SegDescUnscheduledEventStart 0x13 segCloseNormal
       segCloseRules_init)))"

section \<open>Reading back\<close>

lemma component_word:
  fixes p :: PTS
  assumes "unat p < 2 ^ 32"
  shows "(push_bit 32 x AND 1) OR push_bit 24 (ucast (ucast (drop_bit 24 p) :: byte)) OR
      push_bit 16 (ucast (ucast (drop_bit 16 p) :: byte)) OR push_bit 8 (ucast (ucast (drop_bit 8 p) :: byte)) OR
      ucast (ucast p :: byte) = p" (is "?l = p")
proof (rule bit_word_eqI)
  fix n assume n: "n < LENGTH(64)"
  have hi: "32 \<le> n \<Longrightarrow> \<not> bit p n" for n
    using take_bit_word_small [OF assms] by (metis bit_take_bit_iff not_less)
  have "push_bit 32 x AND 1 = 0" by (rule bit_word_eqI) (auto simp: bit_simps)
  moreover consider "n < 8" | "8 \<le> n" "n < 16" | "16 \<le> n" "n < 24" | "24 \<le> n" "n < 32" | "32 \<le> n" by fastforce
  then have "bit (push_bit 24 (ucast (ucast (drop_bit 24 p) :: byte)) OR
      push_bit 16 (ucast (ucast (drop_bit 16 p) :: byte)) OR push_bit 8 (ucast (ucast (drop_bit 8 p) :: byte)) OR
      ucast (ucast p :: byte) :: PTS) n = bit p n"
    using n by cases (auto simp: bit_simps hi)
  ultimately show "bit ?l n = bit p n" by simp
qed

definition offset_ok :: "componentOffset \<Rightarrow> bool" where
  "offset_ok c \<longleftrightarrow> unat (cf_ptsOffset c) < 2 ^ 32"

lemma length_cf_data [simp]: "length (cf_data c) = 6"
  by (simp add: cf_data_def)

interpretation offset: buf_codec cf_data read_offset offset_ok
proof unfold_locales
  fix c rest assume "offset_ok c"
  moreover have "Next 6 (cf_data c @ rest) = (cf_data c, rest)" by (rule Next_append) simp
  ultimately show "read_offset (cf_data c @ rest) = Ok (c, rest)"
    using component_word [of "cf_ptsOffset c"]
    by (cases c) (simp add: read_offset_def componentFromBytes_def cf_data_def offset_ok_def)
qed

definition mid_ok :: "upidSt \<Rightarrow> bool" where
  "mid_ok u \<longleftrightarrow> up_upidLen u = int (length (up_upid u)) \<and> length (up_upid u) < 256"

abbreviation mids_bytes :: "upidSt list \<Rightarrow> byte list" where
  "mids_bytes us \<equiv> concat (map mid_bytes us)"

lemma mid_loop_step:
  assumes "mid_ok u" "n \<noteq> 0"
  shows "mid_loop n (mid_bytes u @ rest) acc = mid_loop (n - int (length (mid_bytes u))) rest (acc @ [u])"
proof -
  have l: "unat (of_nat (length (up_upid u)) :: byte) = length (up_upid u)"
    "uint (of_nat (length (up_upid u)) :: byte) = int (length (up_upid u))"
    using assms(1) of_nat_byte [of "length (up_upid u)"] by (simp_all add: mid_ok_def)
  have "Next (length (up_upid u)) (up_upid u @ rest) = (up_upid u, rest)" by (rule Next_append) simp
  moreover have "n - 1 - 1 - int (length (up_upid u)) = n - int (length (mid_bytes u))" by (simp add: mid_bytes_def)
  ultimately show ?thesis
    using assms l by (subst mid_loop.simps) (cases u, simp add: mid_bytes_def mid_ok_def Let_def diff_diff_eq)
qed

lemma length_mid_bytes: "2 \<le> length (mid_bytes u)"
  by (simp add: mid_bytes_def)

lemma mid_loop_parts:
  assumes "\<forall>u \<in> set us. mid_ok u" "k \<ge> 0"
  shows "mid_loop (int (length (mids_bytes us)) + k) (mids_bytes us @ rest) acc = mid_loop k rest (acc @ us)"
  using assms(1)
proof (induction us arbitrary: acc)
  case (Cons u us)
  have "int (length (mid_bytes u @ mids_bytes us)) + k \<noteq> 0" using length_mid_bytes [of u] assms(2) by simp
  from mid_loop_step [OF _ this, of u "mids_bytes us @ rest" acc] Cons show ?case by (simp add: add.commute add.left_commute)
qed simp

lemma mid_loop_0 [simp]: "mid_loop 0 buf acc = Some (acc, buf)"
  by (subst mid_loop.simps) simp

lemma mid_loop_back:
  assumes "\<forall>u \<in> set us. mid_ok u"
  shows "mid_loop (int (length (mids_bytes us))) (mids_bytes us @ rest) [] = Some (us, rest)"
  using mid_loop_parts [OF assms, of 0 rest "[]"] by simp

lemma count_down: "n \<le> 1 \<Longrightarrow> n - 2 - uint (w :: byte) < 0"
  using uint_ge_0 [of w] by linarith

text \<open>Once the count is negative the loop goes on for ever; so it does when one byte is left over.\<close>

lemma mid_loop_negative: "n < 0 \<Longrightarrow> mid_loop n buf acc = None"
proof (rule ccontr)
  assume n: "n < 0" and "mid_loop n buf acc \<noteq> None"
  then obtain r where r: "mid_loop n buf acc = Some r" by blast
  have "\<not> n < 0"
  proof (rule mid_loop.raw_induct [OF _ r, where P = "\<lambda>n _ _ _. \<not> n < 0"])
    fix loop n' buf' acc' r'
    assume ih: "\<And>n buf acc r. loop n buf acc = Some r \<Longrightarrow> \<not> n < (0 :: int)"
      and body: "(if n' = 0 then Some (acc', buf')
        else let ty = fst (readByte buf'); buf = snd (readByte buf'); ln = fst (readByte buf); buf = snd (readByte buf);
                 upid = fst (Next (unat ln) buf); buf = snd (Next (unat ln) buf)
             in loop (n' - 1 - 1 - int (unat ln)) buf
                  (acc' @ [\<lparr>up_upidType = ty, up_upidLen = int (unat ln), up_upid = upid\<rparr>])) = Some r'"
    show "\<not> n' < 0"
    proof
      assume neg: "n' < 0"
      then have "\<exists>b a. loop (n' - 2 - uint (fst (readByte (snd (readByte buf'))))) b a = Some r'"
        using body by (simp add: Let_def) blast
      then have "\<not> n' - 2 - uint (fst (readByte (snd (readByte buf')))) < 0"
        using ih by blast
      with neg show False using count_down [of n' "fst (readByte (snd (readByte buf')))"] by simp
    qed
  qed
  with n show False by blast
qed

lemma mid_loop_one_left: "mid_loop 1 buf acc = None"
  using count_down [of 1] by (subst mid_loop.simps) (simp add: Let_def mid_loop_negative)

text \<open>Descriptors that are read back as they were.\<close>

definition seg_fields_ok :: "segmentationDescriptor \<Rightarrow> bool" where
  "seg_fields_ok d \<longleftrightarrow>
     (sd_deliveryNotRestricted d \<longrightarrow> \<not> sd_webDeliveryAllowedFlag d \<and> \<not> sd_noRegionalBlackoutFlag d \<and>
        \<not> sd_archiveAllowedFlag d \<and> sd_deviceRestrictions d = 0) \<and>
     sd_deviceRestrictions d AND 3 = sd_deviceRestrictions d \<and>
     (sd_programSegmentationFlag d \<longrightarrow> sd_components d = []) \<and> length (sd_components d) < 256 \<and>
     (\<forall>c \<in> set (sd_components d). offset_ok c) \<and>
     unat (sd_duration d) < 2 ^ 33 \<and> (\<not> sd_hasDuration d \<longrightarrow> sd_duration d = 0)"

definition seg_upid_ok :: "segmentationDescriptor \<Rightarrow> bool" where
  "seg_upid_ok d \<longleftrightarrow>
     (if sd_upidType d = SegUPIDMID
      then sd_upid d = [] \<and> (\<forall>u \<in> set (sd_mid d). mid_ok u) \<and> length (mids_bytes (sd_mid d)) < 256
      else sd_mid d = [] \<and> length (sd_upid d) < 256)"

definition seg_tail_ok :: "segmentationDescriptor \<Rightarrow> bool" where
  "seg_tail_ok d \<longleftrightarrow>
     (if sd_hasSubSegments d then sd_typeID d = 0x34 \<or> sd_typeID d = 0x36 else sd_subSegNum d = 0 \<and> sd_subSegsExpected d = 0)"

definition seg_ok :: "segmentationDescriptor \<Rightarrow> bool" where
  "seg_ok d \<longleftrightarrow>
     (if sd_eventCancelIndicator d
      then d = CreateSegmentationDescriptor\<lparr>sd_eventID := sd_eventID d, sd_eventCancelIndicator := True\<rparr>
      else seg_fields_ok d \<and> seg_upid_ok d \<and> seg_tail_ok d)"

text \<open>What a reader makes of the bytes of any descriptor.  A component offset keeps its lower 32 bits and a
  duration its lower 33, although one bit and seven bits more of them are written; fields that the flags switch off
  are not written.\<close>

abbreviation low_offset :: "componentOffset \<Rightarrow> componentOffset" where
  "low_offset c \<equiv> c\<lparr>cf_ptsOffset := take_bit 32 (cf_ptsOffset c)\<rparr>"

abbreviation read_components :: "segmentationDescriptor \<Rightarrow> componentOffset list" where
  "read_components d \<equiv> if sd_programSegmentationFlag d then [] else map low_offset (sd_components d)"

abbreviation has_sub :: "segmentationDescriptor \<Rightarrow> bool" where
  "has_sub d \<equiv> (sd_typeID d = 0x34 \<or> sd_typeID d = 0x36) \<and> sd_hasSubSegments d"

definition seg_as_read :: "segmentationDescriptor \<Rightarrow> segmentationDescriptor" where
  "seg_as_read d =
     (if sd_eventCancelIndicator d
      then CreateSegmentationDescriptor\<lparr>sd_eventID := sd_eventID d, sd_eventCancelIndicator := True\<rparr>
      else let restricted = \<not> sd_deliveryNotRestricted d in
        d\<lparr>sd_webDeliveryAllowedFlag := (restricted \<and> sd_webDeliveryAllowedFlag d),
          sd_noRegionalBlackoutFlag := (restricted \<and> sd_noRegionalBlackoutFlag d),
          sd_archiveAllowedFlag := (restricted \<and> sd_archiveAllowedFlag d),
          sd_deviceRestrictions := (if restricted then sd_deviceRestrictions d AND 3 else 0),
          sd_components := read_components d,
          sd_duration := (if sd_hasDuration d then take_bit 33 (sd_duration d) else 0),
          sd_subSegNum := (if has_sub d then sd_subSegNum d else 0),
          sd_subSegsExpected := (if has_sub d then sd_subSegsExpected d else 0),
          sd_hasSubSegments := has_sub d\<rparr>)"

lemma bit_event_flags:
  "bit (event_flags d) 7 = sd_programSegmentationFlag d" "bit (event_flags d) 6 = sd_hasDuration d"
  "bit (event_flags d) 5 = sd_deliveryNotRestricted d"
  "\<not> sd_deliveryNotRestricted d \<Longrightarrow> bit (event_flags d) 4 = sd_webDeliveryAllowedFlag d"
  "\<not> sd_deliveryNotRestricted d \<Longrightarrow> bit (event_flags d) 3 = sd_noRegionalBlackoutFlag d"
  "\<not> sd_deliveryNotRestricted d \<Longrightarrow> bit (event_flags d) 2 = sd_archiveAllowedFlag d"
  unfolding event_flags_def Let_def and_numeral_mask by (simp_all add: bit_simps)

lemma event_flags_device:
  assumes "\<not> sd_deliveryNotRestricted d"
  shows "event_flags d AND 3 = sd_deviceRestrictions d AND 3"
  unfolding event_flags_def Let_def and_numeral_mask using assms by (intro byte_eqI) (simp_all add: bit_simps)

lemma nonzero_and_bit:
  fixes f :: byte
  shows "f AND 0x80 \<noteq> 0 \<longleftrightarrow> bit f 7" "f AND 0x40 \<noteq> 0 \<longleftrightarrow> bit f 6" "f AND 0x20 \<noteq> 0 \<longleftrightarrow> bit f 5"
    "f AND 0x10 \<noteq> 0 \<longleftrightarrow> bit f 4" "f AND 0x08 \<noteq> 0 \<longleftrightarrow> bit f 3" "f AND 0x04 \<noteq> 0 \<longleftrightarrow> bit f 2"
  using and_exp_eq_0_iff_not_bit [of f 7] and_exp_eq_0_iff_not_bit [of f 6] and_exp_eq_0_iff_not_bit [of f 5]
    and_exp_eq_0_iff_not_bit [of f 4] and_exp_eq_0_iff_not_bit [of f 3] and_exp_eq_0_iff_not_bit [of f 2]
  by simp_all

lemma seg_flags_back:
  "seg_flags c (event_flags d) =
    (let c = c\<lparr>sd_deliveryNotRestricted := sd_deliveryNotRestricted d, sd_hasDuration := sd_hasDuration d,
       sd_programSegmentationFlag := sd_programSegmentationFlag d\<rparr>
     in if sd_deliveryNotRestricted d then c
        else c\<lparr>sd_webDeliveryAllowedFlag := sd_webDeliveryAllowedFlag d,
          sd_noRegionalBlackoutFlag := sd_noRegionalBlackoutFlag d, sd_archiveAllowedFlag := sd_archiveAllowedFlag d,
          sd_deviceRestrictions := sd_deviceRestrictions d AND 3\<rparr>)"
  by (simp add: seg_flags_def Let_def nonzero_and_bit bit_event_flags event_flags_device)

lemma read_offset_low: "read_offset (cf_data c @ rest) = Ok (low_offset c, rest)"
proof -
  have "offset_ok (low_offset c)" using take_bit_nat_less_exp [of 32] by (simp add: offset_ok_def unsigned_take_bit_eq)
  then have "read_offset (cf_data (low_offset c) @ rest) = Ok (low_offset c, rest)" by (rule offset.read_back)
  moreover have "componentFromBytes (cf_data (low_offset c)) = componentFromBytes (cf_data c)"
  proof -
    have b: "(ucast (drop_bit k (take_bit 32 p)) :: byte) = ucast (drop_bit k p)" if "k \<le> 24" for k and p :: PTS
      by (rule byte_eqI) (use that in \<open>auto simp: bit_simps\<close>)
    have z: "push_bit 32 x AND (1 :: PTS) = 0" for x by (rule bit_word_eqI) (auto simp: bit_simps)
    show ?thesis using b [of 0] by (simp add: componentFromBytes_def cf_data_def b z)
  qed
  moreover have "Next 6 (cf_data x @ rest) = (cf_data x, rest)" for x by (rule Next_append) simp
  ultimately show ?thesis by (simp add: read_offset_def)
qed

lemma read_offsets_low:
  "read_n (length cs) read_offset (concat (map cf_data cs) @ rest) = Ok (map low_offset cs, rest)"
  by (induction cs) (simp_all add: read_offset_low)

lemma length_offsets: "length (concat (map cf_data cs)) = 6 * length cs"
  by (induction cs) simp_all

lemma seg_components_back:
  assumes "length (sd_components d) < 256 \<or> sd_programSegmentationFlag d" "5 \<le> length rest" "sd_components c = []"
    "sd_programSegmentationFlag c = sd_programSegmentationFlag d"
  shows "seg_components c (offsets_bytes d @ rest) = Ok (c\<lparr>sd_components := read_components d\<rparr>, rest)"
proof (cases "sd_programSegmentationFlag d")
  case False
  let ?n = "length (sd_components d)"
  have "unat (of_nat ?n :: byte) = ?n" using assms(1) False by (intro of_nat_byte) simp
  then have "unat (of_nat ?n :: byte) = ?n" "uint (of_nat ?n :: byte) = int ?n" by (simp_all add: uint_nat)
  with False assms show ?thesis
    by (simp add: seg_components_def offsets_bytes_def Let_def read_offsets_low length_offsets del: length_concat)
qed (use assms in \<open>cases c; simp add: seg_components_def offsets_bytes_def\<close>)

lemma uint40_low:
  "uint40 [ucast (drop_bit 32 p), ucast (drop_bit 24 p), ucast (drop_bit 16 p), ucast (drop_bit 8 p), ucast p] =
    Ok (take_bit 33 p)"
proof -
  let ?w = "take_bit 33 p"
  have b: "(ucast (drop_bit k ?w) :: byte) = ucast (drop_bit k p)" if "k \<le> 24" for k
    by (rule byte_eqI) (use that in \<open>auto simp: bit_simps\<close>)
  have top: "(ucast (drop_bit 32 p) :: byte) AND 1 = pts_bytes 0 ?w ! 0 AND 1"
    unfolding pts_bytes_def and_numeral_mask by (simp, rule byte_eqI) (auto simp: bit_simps)
  have "unat ?w < 2 ^ 33" using take_bit_nat_less_exp [of 33] by (simp add: unsigned_take_bit_eq)
  then have "uint40 (pts_bytes 0 ?w) = Ok ?w" by (intro uint40_pts_bytes') simp_all
  then show ?thesis using b [of 0] top by (simp add: uint40_def rd_def pts_bytes_def b)
qed

lemma seg_duration_back:
  assumes "5 \<le> length rest" "sd_hasDuration c = sd_hasDuration d" "sd_duration c = 0"
  shows "seg_duration c (seg_duration_bytes d @ rest) =
    Ok (c\<lparr>sd_duration := (if sd_hasDuration d then take_bit 33 (sd_duration d) else 0)\<rparr>, rest)"
proof (cases "sd_hasDuration d")
  case True
  have "Next 5 (seg_duration_bytes d @ rest) = (seg_duration_bytes d, rest)"
    by (rule Next_append) (simp add: seg_duration_bytes_def True)
  with True assms show ?thesis by (simp add: seg_duration_def seg_duration_bytes_def uint40_low)
qed (use assms in \<open>cases c; simp add: seg_duration_def seg_duration_bytes_def\<close>)

lemma seg_upid_back:
  assumes "seg_upid_ok d" "3 \<le> length rest" "sd_upid c = []" "sd_mid c = []"
  shows "seg_upid c (upid_bytes d @ rest) =
    Some (Ok (c\<lparr>sd_upidType := sd_upidType d, sd_upid := sd_upid d, sd_mid := sd_mid d\<rparr>, rest))"
proof (cases "sd_upidType d = SegUPIDMID")
  case True
  let ?l = "length (mids_bytes (sd_mid d))"
  have "unat (of_nat ?l :: byte) = ?l" using assms(1) True by (simp add: seg_upid_ok_def unat_of_nat)
  moreover have "mid_loop (int ?l) (mids_bytes (sd_mid d) @ rest) [] = Some (sd_mid d, rest)"
    by (rule mid_loop_back) (use assms(1) True in \<open>simp add: seg_upid_ok_def\<close>)
  ultimately show ?thesis
    using True assms(1) by (cases c) (simp add: seg_upid_def upid_bytes_def seg_upid_ok_def Let_def)
next
  case False
  let ?l = "length (sd_upid d)"
  have l: "unat (of_nat ?l :: byte) = ?l" using assms(1) False by (simp add: seg_upid_ok_def unat_of_nat)
  have "Next ?l (sd_upid d @ rest) = (sd_upid d, rest)" by (rule Next_append) simp
  moreover have "upid_bytes d = [sd_upidType d, of_nat ?l] @ sd_upid d"
    using False assms(1) by (simp add: upid_bytes_def seg_upid_ok_def Let_def)
  ultimately show ?thesis
    using False assms l by (cases c) (simp add: seg_upid_def seg_upid_ok_def Let_def)
qed

lemma seg_tail_back:
  assumes "sd_subSegNum c = 0" "sd_subSegsExpected c = 0" "\<not> sd_hasSubSegments c"
  shows "seg_tail c (segment_bytes d) =
    c\<lparr>sd_typeID := sd_typeID d, sd_segNum := sd_segNum d, sd_segsExpected := sd_segsExpected d,
      sd_subSegNum := (if has_sub d then sd_subSegNum d else 0),
      sd_subSegsExpected := (if has_sub d then sd_subSegsExpected d else 0), sd_hasSubSegments := has_sub d\<rparr>"
  using assms by (cases c) (auto simp: seg_tail_def segment_bytes_def Let_def split: if_splits)

lemma parseDescriptor_head:
  "parseDescriptor d (PutUint32 segDescID @ PutUint32 v @ b # rest) =
    (let d = d\<lparr>sd_eventID := v, sd_eventCancelIndicator := (b AND 0x80 \<noteq> 0)\<rparr>
     in if b AND 0x80 = 0 then parse_event d rest else Some (Ok d))"
proof -
  have "Next 4 (PutUint32 segDescID @ PutUint32 v @ b # rest) = (PutUint32 segDescID, PutUint32 v @ b # rest)"
    by (rule Next_append) simp
  moreover have "Next 4 (PutUint32 v @ b # rest) = (PutUint32 v, b # rest)"
    by (rule Next_append) simp
  ultimately show ?thesis by (simp add: parseDescriptor_def Let_def)
qed

lemma parse_event_back:
  assumes "length (sd_components d) < 256 \<or> sd_programSegmentationFlag d" "seg_upid_ok d" "\<not> sd_eventCancelIndicator d"
  shows "parse_event (CreateSegmentationDescriptor\<lparr>sd_eventID := sd_eventID d\<rparr>)
      (event_flags d # offsets_bytes d @ seg_duration_bytes d @ upid_bytes d @ segment_bytes d) = Some (Ok (seg_as_read d))"
proof -
  let ?c0 = "CreateSegmentationDescriptor\<lparr>sd_eventID := sd_eventID d\<rparr>"
  define c1 where "c1 = seg_flags ?c0 (event_flags d)"
  let ?c2 = "c1\<lparr>sd_components := read_components d\<rparr>"
  let ?c3 = "?c2\<lparr>sd_duration := (if sd_hasDuration d then take_bit 33 (sd_duration d) else 0)\<rparr>"
  let ?c4 = "?c3\<lparr>sd_upidType := sd_upidType d, sd_upid := sd_upid d, sd_mid := sd_mid d\<rparr>"
  note c1 = c1_def [unfolded seg_flags_back CreateSegmentationDescriptor_def]
  have l: "3 \<le> length (segment_bytes d)" "2 \<le> length (upid_bytes d)"
    by (simp_all add: segment_bytes_def upid_bytes_def Let_def)
  have 1: "seg_components c1 (offsets_bytes d @ seg_duration_bytes d @ upid_bytes d @ segment_bytes d) =
      Ok (?c2, seg_duration_bytes d @ upid_bytes d @ segment_bytes d)"
    by (rule seg_components_back [OF assms(1)]) (use l in \<open>simp_all add: c1 Let_def\<close>)
  have 2: "seg_duration ?c2 (seg_duration_bytes d @ upid_bytes d @ segment_bytes d) =
      Ok (?c3, upid_bytes d @ segment_bytes d)"
    using l by (subst seg_duration_back) (simp_all add: c1 Let_def)
  have 3: "seg_upid ?c3 (upid_bytes d @ segment_bytes d) = Some (Ok (?c4, segment_bytes d))"
    by (rule seg_upid_back [OF assms(2)]) (use l in \<open>simp_all add: c1 Let_def\<close>)
  have 4: "seg_tail ?c4 (segment_bytes d) = seg_as_read d"
    using assms(3) by (subst seg_tail_back) (cases d, simp_all add: c1 Let_def seg_as_read_def)
  show ?thesis by (simp add: parse_event_def c1_def [symmetric] 1 2 3 4)
qed

lemma seg_Data_body:
  "drop 2 (seg_Data d) = PutUint32 segDescID @ PutUint32 (sd_eventID d) @
     (if sd_eventCancelIndicator d then [0xFF]
      else 0x7F # event_flags d # offsets_bytes d @ seg_duration_bytes d @ upid_bytes d @ segment_bytes d)"
  "seg_Data d = segDescTag # of_nat (length (drop 2 (seg_Data d))) # drop 2 (seg_Data d)"
  by (simp_all add: seg_Data_def Let_def)

lemma parseDescriptor_written:
  assumes "\<not> sd_eventCancelIndicator d \<Longrightarrow> length (sd_components d) < 256 \<or> sd_programSegmentationFlag d"
    "\<not> sd_eventCancelIndicator d \<Longrightarrow> seg_upid_ok d"
  shows "parseDescriptor CreateSegmentationDescriptor (drop 2 (seg_Data d)) = Some (Ok (seg_as_read d))"
proof (cases "sd_eventCancelIndicator d")
  case True
  then show ?thesis by (simp add: seg_Data_body(1) parseDescriptor_head seg_as_read_def)
next
  case False
  have "CreateSegmentationDescriptor\<lparr>sd_eventID := v, sd_eventCancelIndicator := False\<rparr> =
      CreateSegmentationDescriptor\<lparr>sd_eventID := v\<rparr>" for v by (simp add: CreateSegmentationDescriptor_def)
  with False parse_event_back [OF assms(1) assms(2)] show ?thesis
    by (simp add: seg_Data_body(1) parseDescriptor_head Let_def)
qed

lemma seg_ok_as_read: "seg_ok d \<Longrightarrow> seg_as_read d = d"
proof -
  assume ok: "seg_ok d"
  have "low_offset c = c" if "unat (cf_ptsOffset c) < 2 ^ 32" for c
    using take_bit_word_small [OF that] by (cases c) simp
  moreover have "take_bit 33 p = p" if "unat p < 2 ^ 33" for p :: PTS using that by (rule take_bit_word_small)
  ultimately show ?thesis
    using ok by (cases d) (auto simp: seg_ok_def seg_as_read_def seg_fields_ok_def seg_tail_ok_def offset_ok_def Let_def
        intro!: map_idI split: if_splits)
qed

lemma parseDescriptor_back:
  assumes "seg_ok d"
  shows "parseDescriptor CreateSegmentationDescriptor (drop 2 (seg_Data d)) = Some (Ok d)"
  using parseDescriptor_written [of d] seg_ok_as_read [OF assms] assms by (simp add: seg_ok_def seg_fields_ok_def split: if_splits)

lemma parseDescriptor_short:
  assumes "length short < 4"
  shows "parseDescriptor d short = Some Panic" "parseDescriptor d (PutUint32 segDescID @ short) = Some Panic"
proof -
  have p: "be_uint32 short = Panic" using assms by (auto simp: be_uint32_def rd_def res_bind_Panic_iff)
  have s: "Next 4 short = (short, [])" using assms by (simp add: Next_def)
  with p show "parseDescriptor d short = Some Panic" by (simp add: parseDescriptor_def)
  have "Next 4 (PutUint32 segDescID @ short) = (PutUint32 segDescID, short)" by (rule Next_append) simp
  with p s show "parseDescriptor d (PutUint32 segDescID @ short) = Some Panic" by (simp add: parseDescriptor_def)
qed

section \<open>Properties\<close>

text \<open>C16: what is read back from the bytes of a segmentation descriptor. Take any descriptor of at most 257
  bytes in all whose UPID is of one kind: type 0x0D with parts whose recorded lengths are their true ones and below
  256 and with no plain UPID, or another type with a plain UPID and no parts; on a program segmentation the
  components are not written and do not matter. Its bytes begin with the tag and the length of the rest, and parsing
  the rest gives the descriptor back except for what \<open>seg_as_read\<close> names: a cancelled event keeps its
  identifier only; of each component offset the lower 32 bits are left (33 are written) and of the duration the
  lower 33 (40 are written); restriction flags are false when delivery is not restricted, device restrictions keep
  two bits, components are gone on a program segmentation, the duration is 0 without its flag and sub-segments are
  kept for the types 0x34 and 0x36 only. A descriptor without any of these (\<open>seg_ok\<close>) is read back as
  it was.\<close>

theorem segmentation_roundtrip:
  assumes "sd_eventCancelIndicator d \<or> seg_upid_ok d" "length (seg_Data d) < 258"
  shows "take 2 (seg_Data d) = [segDescTag, of_nat (length (seg_Data d) - 2)] \<and>
    unat (seg_Data d ! 1) = length (drop 2 (seg_Data d)) \<and>
    parseDescriptor CreateSegmentationDescriptor (drop 2 (seg_Data d)) = Some (Ok (seg_as_read d)) \<and>
    (seg_ok d \<longrightarrow> seg_as_read d = d)"
proof -
  let ?n = "length (drop 2 (seg_Data d))"
  have t: "take 2 (seg_Data d) = [segDescTag, of_nat ?n]" "seg_Data d ! 1 = of_nat ?n"
    by (subst seg_Data_body(2), simp)+
  have "?n < 256" using assms(2) by simp
  then have "unat (of_nat ?n :: byte) = ?n" by (rule of_nat_byte)
  moreover have "parseDescriptor CreateSegmentationDescriptor (drop 2 (seg_Data d)) = Some (Ok (seg_as_read d))"
    by (rule parseDescriptor_written)
      (use assms in \<open>auto simp: seg_Data_def offsets_bytes_def length_offsets simp del: length_concat\<close>)
  ultimately show ?thesis using t seg_ok_as_read [of d] by simp
qed

abbreviation example_segment :: segmentationDescriptor where
  "example_segment \<equiv> CreateSegmentationDescriptor\<lparr>sd_typeID := 0x34, sd_eventID := 0x10000006, sd_hasDuration := True,
     sd_duration := 0x123456789, sd_upidType := SegUPIDMID,
     sd_mid := [\<lparr>up_upidType = 9, up_upidLen = 2, up_upid = [65, 66]\<rparr>, \<lparr>up_upidType = 14, up_upidLen = 0, up_upid = []\<rparr>],
     sd_segNum := 1, sd_segsExpected := 2, sd_subSegNum := 3, sd_subSegsExpected := 4, sd_hasSubSegments := True,
     sd_noRegionalBlackoutFlag := True, sd_deviceRestrictions := 2,
     sd_components := [\<lparr>cf_componentTag = 5, cf_ptsOffset = 0x87654321\<rparr>]\<rparr>"

lemma example_segment_ok: "seg_ok example_segment" "length (seg_Data example_segment) = 37"
  by (simp_all add: seg_ok_def seg_fields_ok_def seg_upid_ok_def seg_tail_ok_def CreateSegmentationDescriptor_def
      seg_upid_types mid_ok_def offset_ok_def mid_bytes_def seg_Data_def offsets_bytes_def seg_duration_bytes_def
      upid_bytes_def segment_bytes_def Let_def)

theorem segmentation_roundtrip_witness:
  "parseDescriptor CreateSegmentationDescriptor (drop 2 (seg_Data example_segment)) = Some (Ok example_segment)"
proof -
  have "seg_upid_ok example_segment"
    using example_segment_ok(1) by (simp add: seg_ok_def CreateSegmentationDescriptor_def)
  with segmentation_roundtrip [of example_segment] example_segment_ok show ?thesis by simp
qed

text \<open>The parser of segmentation descriptors fails in two ways that its error results do not cover.  On
  fewer than eight bytes behind a matching identifier, or fewer than four at all, it panics.  When one byte is
  left over behind the parts of a multiple UPID it never returns, whatever follows.\<close>

theorem parseDescriptor_failures:
  assumes "length short < 4" "\<forall>u \<in> set us. mid_ok u" "length (mids_bytes us) < 255" "flags AND 0xC0 = 0x80"
  shows "parseDescriptor d short = Some Panic \<and>
    parseDescriptor d (PutUint32 segDescID @ short) = Some Panic \<and>
    parseDescriptor d (PutUint32 segDescID @ PutUint32 v @ [0x7F, flags, SegUPIDMID, of_nat (length (mids_bytes us) + 1)] @
      mids_bytes us @ rest) = None"
proof (intro conjI)
  show "parseDescriptor d short = Some Panic" "parseDescriptor d (PutUint32 segDescID @ short) = Some Panic"
    by (rule parseDescriptor_short [OF assms(1)])+
next
  let ?n = "length (mids_bytes us)"
  have n: "uint (of_nat (?n + 1) :: byte) = int ?n + 1" using of_nat_byte(2) [of "?n + 1"] assms(3) by simp
  have f: "bit flags 7" "\<not> bit flags 6"
  proof -
    have "bit (flags AND 0xC0) 7 = bit (0x80 :: byte) 7" "bit (flags AND 0xC0) 6 = bit (0x80 :: byte) 6"
      using assms(4) by simp_all
    then show "bit flags 7" "\<not> bit flags 6" by (simp_all add: bit_simps)
  qed
  have "mid_loop (int ?n + 1) (mids_bytes us @ rest) [] = None"
    using mid_loop_parts [OF assms(2), of 1 rest "[]"] by (simp add: mid_loop_one_left)
  then show "parseDescriptor d (PutUint32 segDescID @ PutUint32 v @ [0x7F, flags, SegUPIDMID, of_nat (?n + 1)] @
      mids_bytes us @ rest) = None"
    using n f
    by (simp add: parseDescriptor_head parse_event_def seg_flags_def seg_components_def seg_duration_def seg_upid_def
        nonzero_and_bit Let_def)
qed

theorem parseDescriptor_failures_witness:
  "parseDescriptor CreateSegmentationDescriptor (PutUint32 segDescID @ PutUint32 1 @ [0x7F, 0x80, SegUPIDMID, of_nat (0 + 1)] @ [9, 0, 1, 2]) = None"
  using parseDescriptor_failures [of "[]" "[]" "0x80" CreateSegmentationDescriptor 1 "[9, 0, 1, 2]"] by simp

end
