(* ===== verification/Scte_Message.thy ===== *)
theory Scte_Message
  imports Scte_Command Scte_Descriptor Gots_CRC Psi_Table
begin

text \<open>
  \<^verbatim>\<open>gots/scte35/scte35.go\<close> and \<^verbatim>\<open>modify.go\<close>: the SCTE-35 message, its parser, its setters, and the
  writer \<open>UpdateData\<close>.  The parser of a message may fail to return, in the loop over the descriptors or
  in the one over the parts of a UPID: that is the result \<open>None\<close>.  The command of the zero value is
  \<^verbatim>\<open>nil\<close> in the source; here it is the null command, and no function of the library hands out a message
  whose command was not set.
\<close>

section \<open>The message\<close>

record scte35 =
  sc_tableHeader :: TableHeader
  sc_protocolVersion :: byte
  sc_encryptedPacket :: bool
  sc_encryptionAlgorithm :: byte
  sc_pts :: PTS
  sc_cwIndex :: byte
  sc_tier :: u16
  sc_spliceCommandLength :: u16
  sc_commandType :: SpliceCommandType
  sc_commandInfo :: spliceCommand
  sc_descriptors :: "segmentationDescriptor list"
  sc_crc32 :: u32
  sc_alignmentStuffing :: u64
  sc_data :: "byte list"
  sc_otherDescriptorBytes :: "byte list"

definition zero_scte35 :: scte35 where
  "zero_scte35 = \<lparr>sc_tableHeader = \<lparr>th_TableID = 0, th_SectionSyntaxIndicator = False, th_PrivateIndicator = False,
       th_SectionLength = 0\<rparr>,
     sc_protocolVersion = 0, sc_encryptedPacket = False, sc_encryptionAlgorithm = 0, sc_pts = 0, sc_cwIndex = 0,
     sc_tier = 0, sc_spliceCommandLength = 0, sc_commandType = 0, sc_commandInfo = NullCommand, sc_descriptors = [],
     sc_crc32 = 0, sc_alignmentStuffing = 0, sc_data = [], sc_otherDescriptorBytes = []\<rparr>"

definition CreateSCTE35 :: scte35 where
  "CreateSCTE35 = zero_scte35\<lparr>sc_protocolVersion := 0, sc_encryptedPacket := False, sc_encryptionAlgorithm := 0,
     sc_pts := 0, sc_cwIndex := 0, sc_tier := 0xFFF, sc_commandType := SpliceNull, sc_commandInfo := CreateSpliceNull,
     sc_descriptors := [],
     sc_tableHeader := \<lparr>th_TableID = 0xFC, th_SectionSyntaxIndicator = False, th_PrivateIndicator = False,
       th_SectionLength = 0\<rparr>\<rparr>"

section \<open>Parsing\<close>

text \<open>The pointer field and the table header; \<^verbatim>\<open>PointerField(data) + 1\<close> is a byte.\<close>

definition parse_table_header :: "byte list \<Rightarrow> (TableHeader \<times> byte list) res" where
  "parse_table_header data =
     res_bind (PointerField data) (\<lambda>pf.
       if length data < unat pf + PSIHeaderLen + 15 then Err ErrInvalidSCTE35Length
       else let buf = snd (Next (unat (pf + 1)) data)
            in res_bind (TableHeaderFromBytes (fst (Next 3 buf))) (\<lambda>th. Ok (th, snd (Next 3 buf))))"

text \<open>The fixed fields up to the command type, with the PTS adjustment.\<close>

definition parse_fixed :: "scte35 \<Rightarrow> byte list \<Rightarrow> (scte35 \<times> PTS \<times> byte list) res" where
  "parse_fixed s buf =
     (let (version, buf) = readByte buf;
          s = s\<lparr>sc_protocolVersion := version\<rparr>;
          (b1, _) = readByte buf
      in if b1 AND 0x80 \<noteq> 0 then Err ErrSCTE35EncryptionUnsupported
         else let s = s\<lparr>sc_encryptionAlgorithm := drop_bit 1 b1 AND 0x3F\<rparr>
              in res_bind (uint40 (fst (Next 5 buf))) (\<lambda>v.
                   let ptsAdjustment = v AND 0x01ffffffff;
                       buf = snd (Next 5 buf);
                       (cw, buf) = readByte buf;
                       (bs, buf) = Next 3 buf
                   in res_bind (rd bs 0) (\<lambda>b0. res_bind (rd bs 1) (\<lambda>b1. res_bind (rd bs 2) (\<lambda>b2.
                        let (ty, buf) = readByte buf
                        in Ok (s\<lparr>sc_cwIndex := cw,
                                 sc_tier := push_bit 4 (ucast b0) OR drop_bit 4 (ucast (b1 AND 0xF0)),
                                 sc_spliceCommandLength := push_bit 8 (ucast (b1 AND 0x0F)) OR ucast b2,
                                 sc_commandType := ucast ty\<rparr>, ptsAdjustment, buf))))))"

definition parse_command :: "scte35 \<Rightarrow> PTS \<Rightarrow> byte list \<Rightarrow> (scte35 \<times> byte list) res" where
  "parse_command s ptsAdjustment buf =
     (if sc_commandType s = TimeSignal \<or> sc_commandType s = SpliceInsert then
        res_bind (if sc_commandType s = TimeSignal
                  then res_bind (parseTimeSignal buf) (\<lambda>(c, buf). Ok (TimeSignalCommand c, buf))
                  else res_bind (parseSpliceInsert buf) (\<lambda>(c, buf). Ok (SpliceInsertCommand c, buf))) (\<lambda>(cmd, buf).
          Ok (s\<lparr>sc_pts := PTS_Add (cmd_PTS cmd) ptsAdjustment, sc_commandInfo := cmd\<rparr>, buf))
      else if sc_commandType s = SpliceNull then Ok (s\<lparr>sc_commandInfo := NullCommand\<rparr>, buf)
      else Err ErrSCTE35UnsupportedSpliceCommand)"

text \<open>The loop over the descriptors; both counters are \<^verbatim>\<open>uint16\<close>.\<close>

partial_function (option) desc_loop ::
  "u16 \<Rightarrow> u16 \<Rightarrow> byte list \<Rightarrow> byte list \<Rightarrow> segmentationDescriptor list \<Rightarrow>
   (byte list \<times> segmentationDescriptor list) res option" where
  "desc_loop loopLength bytesRead buf others descs =
     (if bytesRead < loopLength then
        let descTag = fst (readByte buf); buf = snd (readByte buf);
            descLen = fst (readByte buf); buf = snd (readByte buf);
            body = fst (Next (unat descLen) buf); buf = snd (Next (unat descLen) buf)
        in if loopLength - bytesRead - 2 < ucast descLen then Some (Err ErrInvalidSCTE35Length)
           else if descTag \<noteq> segDescTag then
             desc_loop loopLength (bytesRead + (2 + ucast descLen)) buf (others @ [descTag, descLen] @ body) descs
           else Option.bind (parseDescriptor CreateSegmentationDescriptor body) (\<lambda>r.
             case r of
               Ok d \<Rightarrow> desc_loop loopLength (bytesRead + (2 + ucast descLen)) buf others (descs @ [d])
             | Err e \<Rightarrow> Some (Err e)
             | Panic \<Rightarrow> Some Panic)
      else Some (Ok (others, descs)))"

definition parse_descriptors :: "byte list \<Rightarrow> (byte list \<times> segmentationDescriptor list) res option" where
  "parse_descriptors buf =
     (if length buf < 2 + CrcLen then Some (Err ErrInvalidSCTE35Length)
      else let loopLength = push_bit 8 (ucast (buf ! 0)) OR ucast (buf ! 1) :: u16;
               buf = snd (Next 2 buf)
           in if length buf < unat (loopLength + of_nat CrcLen) then Some (Err ErrInvalidSCTE35Length)
              else desc_loop loopLength 0 buf [] [])"

definition parseTable :: "scte35 \<Rightarrow> byte list \<Rightarrow> scte35 res option" where
  "parseTable s data =
     (case res_bind (parse_table_header data) (\<lambda>(th, buf).
             if th_TableID th = 0xfc then
               res_bind (parse_fixed (s\<lparr>sc_tableHeader := th\<rparr>) buf) (\<lambda>(s, ptsAdjustment, buf).
                 parse_command s ptsAdjustment buf)
             else Err ErrUnknownTableID) of
        Ok (s, buf) \<Rightarrow>
          map_option (\<lambda>r. res_bind r (\<lambda>(others, descs).
              res_bind (PointerField data) (\<lambda>pf. res_bind (slice_from data (unat (pf + 1))) (\<lambda>d.
                Ok (s\<lparr>sc_otherDescriptorBytes := sc_otherDescriptorBytes s @ others,
                      sc_descriptors := sc_descriptors s @ descs, sc_data := d\<rparr>)))))
            (parse_descriptors buf)
      | Err e \<Rightarrow> Some (Err e)
      | Panic \<Rightarrow> Some Panic)"

definition NewSCTE35 :: "byte list \<Rightarrow> scte35 res option" where
  "NewSCTE35 data = parseTable zero_scte35 data"

section \<open>Readers and setters\<close>

definition sc_HasPTS :: "scte35 \<Rightarrow> bool" where "sc_HasPTS s = cmd_HasPTS (sc_commandInfo s)"
definition sc_PTS :: "scte35 \<Rightarrow> PTS" where "sc_PTS s = sc_pts s"
definition sc_Command :: "scte35 \<Rightarrow> SpliceCommandType" where "sc_Command s = sc_commandType s"
definition sc_CommandInfo :: "scte35 \<Rightarrow> spliceCommand" where "sc_CommandInfo s = sc_commandInfo s"
definition sc_Descriptors :: "scte35 \<Rightarrow> segmentationDescriptor list" where "sc_Descriptors s = sc_descriptors s"
definition sc_Tier :: "scte35 \<Rightarrow> u16" where "sc_Tier s = sc_tier s"
definition sc_AlignmentStuffing :: "scte35 \<Rightarrow> u64" where "sc_AlignmentStuffing s = sc_alignmentStuffing s"
definition sc_Data :: "scte35 \<Rightarrow> byte list" where "sc_Data s = sc_data s"

text \<open>\<open>SetHasPTS\<close> does not look at its argument.\<close>

definition sc_SetHasPTS :: "scte35 \<Rightarrow> bool \<Rightarrow> scte35" where
  "sc_SetHasPTS s flag = s\<lparr>sc_commandInfo := cmd_SetHasPTS (sc_commandInfo s) True\<rparr>"

definition sc_SetPTS :: "scte35 \<Rightarrow> PTS \<Rightarrow> scte35" where
  "sc_SetPTS s pts =
     (let s = s\<lparr>sc_pts := pts\<rparr>
      in s\<lparr>sc_commandInfo := cmd_SetPTS (sc_commandInfo s) (sc_pts s AND 0x01ffffffff)\<rparr>)"

definition sc_SetAdjustPTS :: "scte35 \<Rightarrow> PTS \<Rightarrow> scte35" where
  "sc_SetAdjustPTS s pts = s\<lparr>sc_pts := pts\<rparr>"

definition sc_SetCommandInfo :: "scte35 \<Rightarrow> spliceCommand \<Rightarrow> scte35" where
  "sc_SetCommandInfo s commandInfo =
     (let s = s\<lparr>sc_commandInfo := commandInfo\<rparr> in s\<lparr>sc_commandType := CommandType (sc_commandInfo s)\<rparr>)"

definition sc_SetDescriptors :: "scte35 \<Rightarrow> segmentationDescriptor list \<Rightarrow> scte35" where
  "sc_SetDescriptors s descriptors = s\<lparr>sc_descriptors := descriptors\<rparr>"

definition sc_SetAlignmentStuffing :: "scte35 \<Rightarrow> u64 \<Rightarrow> scte35" where
  "sc_SetAlignmentStuffing s alignmentStuffing = s\<lparr>sc_alignmentStuffing := alignmentStuffing\<rparr>"

definition sc_SetTier :: "scte35 \<Rightarrow> u16 \<Rightarrow> scte35" where
  "sc_SetTier s tier = s\<lparr>sc_tier := tier AND 0xFFF\<rparr>"

section \<open>Writing\<close>

definition subtractPTS :: "PTS \<Rightarrow> PTS \<Rightarrow> PTS" where
  "subtractPTS final initial' =
     (if final \<ge> initial' then final - initial' else MaxPtsTicks - (initial' - final))"

definition descriptor_bytes :: "scte35 \<Rightarrow> byte list" where
  "descriptor_bytes s =
     (let body = sc_otherDescriptorBytes s @ concat (map seg_Data (sc_descriptors s));
          descriptorLoopLength = length body
      in [of_nat (drop_bit 8 descriptorLoopLength), of_nat descriptorLoopLength] @ body)"

text \<open>The eleven bytes \<^verbatim>\<open>section[0]\<close> to \<^verbatim>\<open>section[10]\<close>.\<close>

definition section_fields :: "scte35 \<Rightarrow> byte list" where
  "section_fields s =
     (let ptsAdj = subtractPTS (sc_pts s) (cmd_PTS (sc_commandInfo s));
          b1 = (if sc_encryptedPacket s then 0x80 else 0 :: byte);
          b1 = b1 OR push_bit 1 (sc_encryptionAlgorithm s AND 0x3F);
          b1 = b1 OR (ucast (drop_bit 32 ptsAdj) AND 0x01);
          b8 = ucast (push_bit 4 (sc_tier s)) :: byte;
          b8 = b8 OR (ucast (drop_bit 8 (sc_spliceCommandLength s)) AND 0x0F)
      in [sc_protocolVersion s, b1, ucast (drop_bit 24 ptsAdj), ucast (drop_bit 16 ptsAdj), ucast (drop_bit 8 ptsAdj),
          ucast ptsAdj, sc_cwIndex s, ucast (drop_bit 4 (sc_tier s)), b8, ucast (sc_spliceCommandLength s),
          ucast (sc_commandType s)])"

text \<open>
  \<open>sectionLength\<close> is an \<^verbatim>\<open>int\<close> of 64 bits; a slice that is too short for the fields and the command
  panics.
\<close>

definition UpdateData :: "scte35 \<Rightarrow> (byte list \<times> scte35) res" where
  "UpdateData s =
     (let spliceCommandBytes = cmd_Data (sc_commandInfo s);
          spliceCommandLength = length spliceCommandBytes;
          s = s\<lparr>sc_spliceCommandLength := of_nat spliceCommandLength\<rparr>;
          descriptorBytes = descriptor_bytes s;
          descriptorLoopLength = length descriptorBytes - 2;
          sectionLength = 13 + of_nat spliceCommandLength + of_nat descriptorLoopLength + of_nat CrcLen
            + sc_alignmentStuffing s :: u64;
          s = s\<lparr>sc_tableHeader := (sc_tableHeader s)\<lparr>th_SectionLength := ucast sectionLength\<rparr>\<rparr>;
          tableHeaderBytes = TableHeader_Data (sc_tableHeader s);
          tableHeaderLength = length tableHeaderBytes;
          total = int tableHeaderLength + sint sectionLength
      in if total < int (tableHeaderLength + 11 + spliceCommandLength) then Panic
         else
           let data = replicate (nat total) 0;
               data = go_copy data tableHeaderLength (section_fields s);
               data = go_copy data 0 tableHeaderBytes;
               data = go_copy data (tableHeaderLength + 11) spliceCommandBytes;
               data = go_copy data (tableHeaderLength + 11 + spliceCommandLength) descriptorBytes;
               crcBytes = ComputeCRC (take (length data - CrcLen) data);
               data = go_copy data (length data - CrcLen) crcBytes
           in Ok (data, s\<lparr>sc_data := data\<rparr>))"

section \<open>The layout written\<close>

lemma go_copy_mid:
  "length a = off \<Longrightarrow> length b = length src \<Longrightarrow> go_copy (a @ b @ c) off src = a @ src @ c"
  by (simp add: go_copy_def)

lemma length_section_fields [simp]: "length (section_fields s) = 11"
  by (simp add: section_fields_def Let_def)

definition loop_bytes :: "scte35 \<Rightarrow> byte list" where
  "loop_bytes s = sc_otherDescriptorBytes s @ concat (map seg_Data (sc_descriptors s))"

lemma descriptor_bytes_loop:
  "descriptor_bytes s = [of_nat (drop_bit 8 (length (loop_bytes s))), of_nat (length (loop_bytes s))] @ loop_bytes s"
  by (simp add: descriptor_bytes_def loop_bytes_def Let_def)

definition section_size :: "scte35 \<Rightarrow> nat" where
  "section_size s = 17 + length (cmd_Data (sc_commandInfo s)) + length (loop_bytes s) + unat (sc_alignmentStuffing s)"

text \<open>The message with its two computed lengths, and the bytes before the checksum.\<close>

definition with_lengths :: "scte35 \<Rightarrow> scte35" where
  "with_lengths s = s\<lparr>sc_spliceCommandLength := of_nat (length (cmd_Data (sc_commandInfo s))),
     sc_tableHeader := (sc_tableHeader s)\<lparr>th_SectionLength := of_nat (section_size s)\<rparr>\<rparr>"

definition unsigned_bytes :: "scte35 \<Rightarrow> byte list" where
  "unsigned_bytes s = TableHeader_Data (sc_tableHeader (with_lengths s)) @ section_fields (with_lengths s) @
     cmd_Data (sc_commandInfo s) @ descriptor_bytes s @ replicate (unat (sc_alignmentStuffing s)) 0"

lemma length_header [simp]: "length (TableHeader_Data th) = 3"
  by (simp add: TableHeader_Data_def)

lemma section_fields_header [simp]: "section_fields (s\<lparr>sc_tableHeader := th\<rparr>) = section_fields s"
  by (simp add: section_fields_def)

lemma descriptor_bytes_lengths [simp]:
  "descriptor_bytes (s\<lparr>sc_spliceCommandLength := n\<rparr>) = descriptor_bytes s"
  by (simp add: descriptor_bytes_def)

lemma section_size_word:
  assumes "section_size s \<le> 1023"
  shows "13 + of_nat (length (cmd_Data (sc_commandInfo s))) + of_nat (length (descriptor_bytes s) - 2) + of_nat CrcLen
      + sc_alignmentStuffing s = (of_nat (section_size s) :: u64)"
    and "sint (of_nat (section_size s) :: u64) = int (section_size s)"
    and "ucast (of_nat (section_size s) :: u64) = (of_nat (section_size s) :: u16)"
proof -
  have "sc_alignmentStuffing s = of_nat (unat (sc_alignmentStuffing s))" by simp
  then show "13 + of_nat (length (cmd_Data (sc_commandInfo s))) + of_nat (length (descriptor_bytes s) - 2) + of_nat CrcLen
      + sc_alignmentStuffing s = (of_nat (section_size s) :: u64)"
    by (simp add: section_size_def descriptor_bytes_loop CrcLen_def)
  show "sint (of_nat (section_size s) :: u64) = int (section_size s)"
    using assms by (simp add: signed_of_nat signed_take_bit_int_eq_self)
  have "unat (of_nat (section_size s) :: u64) = section_size s" "unat (of_nat (section_size s) :: u16) = section_size s"
    using assms by (simp_all add: unat_of_nat)
  then show "ucast (of_nat (section_size s) :: u64) = (of_nat (section_size s) :: u16)"
    using assms by (intro word_unat_eq_iff [THEN iffD2]) (simp add: unsigned_ucast_eq take_bit_nat_eq_self)
qed

lemma UpdateData_layout:
  assumes "section_size s \<le> 1023"
  shows "UpdateData s = Ok (unsigned_bytes s @ ComputeCRC (unsigned_bytes s),
    (with_lengths s)\<lparr>sc_data := unsigned_bytes s @ ComputeCRC (unsigned_bytes s)\<rparr>)"
proof -
  let ?C = "cmd_Data (sc_commandInfo s)" let ?D = "descriptor_bytes s" let ?k = "unat (sc_alignmentStuffing s)"
  let ?w = "with_lengths s"
  let ?H = "TableHeader_Data (sc_tableHeader ?w)" let ?F = "section_fields ?w"
  let ?z = "\<lambda>n. replicate n (0 :: byte)"
  have tot: "nat (3 + int (section_size s)) = 3 + section_size s" by simp
  have D: "length ?D = 2 + length (loop_bytes s)" by (simp add: descriptor_bytes_loop)
  have z: "?z (3 + section_size s) = ?z 3 @ ?z 11 @ ?z (length ?C) @ ?z (length ?D) @ ?z ?k @ ?z 4"
  proof -
    have "3 + section_size s = 3 + (11 + (length ?C + (length ?D + (?k + 4))))" by (simp add: section_size_def D)
    then show ?thesis by (simp only: replicate_add)
  qed
  have 1: "go_copy (?z (3 + section_size s)) 3 ?F = ?z 3 @ ?F @ ?z (length ?C) @ ?z (length ?D) @ ?z ?k @ ?z 4"
    unfolding z by (rule go_copy_mid) simp_all
  have 2: "go_copy (?z 3 @ ?F @ ?z (length ?C) @ ?z (length ?D) @ ?z ?k @ ?z 4) 0 ?H =
      ?H @ ?F @ ?z (length ?C) @ ?z (length ?D) @ ?z ?k @ ?z 4"
    using go_copy_mid [of "[]" 0 "?z 3" ?H] by simp
  have 3: "go_copy (?H @ ?F @ ?z (length ?C) @ ?z (length ?D) @ ?z ?k @ ?z 4) (3 + 11) ?C =
      ?H @ ?F @ ?C @ ?z (length ?D) @ ?z ?k @ ?z 4"
    using go_copy_mid [of "?H @ ?F" 14 "?z (length ?C)" ?C] by simp
  have 4: "go_copy (?H @ ?F @ ?C @ ?z (length ?D) @ ?z ?k @ ?z 4) (3 + 11 + length ?C) ?D =
      ?H @ ?F @ ?C @ ?D @ ?z ?k @ ?z 4"
    using go_copy_mid [of "?H @ ?F @ ?C" "14 + length ?C" "?z (length ?D)" ?D] by simp
  let ?U = "unsigned_bytes s"
  have U: "?H @ ?F @ ?C @ ?D @ ?z ?k @ ?z 4 = ?U @ ?z 4" by (simp add: unsigned_bytes_def)
  have crc: "length (ComputeCRC x) = 4" for x by (simp add: ComputeCRC_def)
  have 5: "go_copy (?U @ ?z 4) (length (?U @ ?z 4) - CrcLen) (ComputeCRC (take (length (?U @ ?z 4) - CrcLen) (?U @ ?z 4))) =
      ?U @ ComputeCRC ?U"
    using go_copy_mid [of ?U "length ?U" "?z 4" "ComputeCRC ?U" "[]"] crc by (simp add: CrcLen_def)
  let ?s1 = "s\<lparr>sc_spliceCommandLength := of_nat (length ?C)\<rparr>"
  have w: "?s1\<lparr>sc_tableHeader := (sc_tableHeader s)\<lparr>th_SectionLength := of_nat (section_size s)\<rparr>\<rparr> = ?w"
    by (simp add: with_lengths_def)
  have ge: "\<not> 3 + int (section_size s) < int (3 + 11 + length ?C)"
    using uint_ge_0 [of "sc_alignmentStuffing s"] by (simp add: section_size_def not_less)
  have s1: "section_fields (?s1\<lparr>sc_tableHeader := th\<rparr>) = ?F" "sc_alignmentStuffing ?s1 = sc_alignmentStuffing s"
    "sc_tableHeader ?s1 = sc_tableHeader s" for th by (simp_all add: with_lengths_def)
  show ?thesis
    using ge unfolding UpdateData_def Let_def
    by (simp only: length_header descriptor_bytes_lengths of_nat_numeral s1 section_size_word [OF assms] w tot if_False
        1 2 3 4 U 5)
qed

section \<open>The adjustment\<close>

lemma unat_subtractPTS:
  assumes "unat f < 2 ^ 33" "unat i < 2 ^ 33"
  shows "unat (subtractPTS f i) = (if unat i \<le> unat f then unat f - unat i else 2 ^ 33 - (unat i - unat f))"
proof (cases "i \<le> f")
  case True
  then show ?thesis by (simp add: subtractPTS_def unat_sub word_le_nat_alt)
next
  case False
  then have "unat (i - f) = unat i - unat f" "i - f \<le> MaxPtsTicks"
    using assms by (simp_all add: unat_sub word_le_nat_alt MaxPtsTicks_def)
  then show ?thesis using False by (simp add: subtractPTS_def unat_sub word_le_nat_alt MaxPtsTicks_def)
qed

lemma adjustment_back:
  assumes "unat f < 2 ^ 33" "unat i < 2 ^ 33"
  shows "unat (subtractPTS f i) < 2 ^ 33" "PTS_Add i (subtractPTS f i) = f"
proof -
  show l: "unat (subtractPTS f i) < 2 ^ 33" using assms by (auto simp: unat_subtractPTS)
  have "unat (PTS_Add i (subtractPTS f i)) = unat f"
    using assms by (simp add: unat_PTS_Add [OF assms(2) l] unat_subtractPTS [OF assms])
  then show "PTS_Add i (subtractPTS f i) = f" by (simp add: word_unat_eq_iff)
qed

section \<open>Reading back\<close>

lemma tier_word:
  fixes tier n :: u16
  assumes "unat tier < 4096" "unat n < 4096"
  shows "push_bit 4 (ucast (ucast (drop_bit 4 tier) :: byte)) OR
      drop_bit 4 (ucast ((ucast (push_bit 4 tier) OR (ucast (drop_bit 8 n) AND 0x0F) :: byte) AND 0xF0)) = tier" (is "?lt = tier")
    and "push_bit 8 (ucast ((ucast (push_bit 4 tier) OR (ucast (drop_bit 8 n) AND 0x0F) :: byte) AND 0x0F)) OR
      ucast (ucast n :: byte) = n" (is "?ln = n")
proof -
  have hi: "12 \<le> k \<Longrightarrow> \<not> bit tier k" "12 \<le> k \<Longrightarrow> \<not> bit n k" for k
  proof -
    have "take_bit 12 tier = tier" "take_bit 12 n = n" using assms by (auto intro!: take_bit_word_small)
    then show "12 \<le> k \<Longrightarrow> \<not> bit tier k" "12 \<le> k \<Longrightarrow> \<not> bit n k" by (metis bit_take_bit_iff not_less)+
  qed
  have m: "(b :: byte) AND 0xF0 = push_bit 4 (drop_bit 4 b)" for b
    by (rule byte_eqI) (simp_all add: bit_simps)
  show "?lt = tier"
  proof (rule bit_word_eqI)
    fix k assume "k < LENGTH(16)"
    then consider "k < 4" | "4 \<le> k" "k < 12" | "12 \<le> k" "k < 16" by fastforce
    then show "bit ?lt k = bit tier k"
      unfolding m and_numeral_mask by cases (auto simp: bit_simps hi)
  qed
  show "?ln = n"
  proof (rule bit_word_eqI)
    fix k assume "k < LENGTH(16)"
    then consider "k < 8" | "8 \<le> k" "k < 12" | "12 \<le> k" "k < 16" by fastforce
    then show "bit ?ln k = bit n k"
      unfolding and_numeral_mask by cases (auto simp: bit_simps hi)
  qed
qed

text \<open>The fields that the fixed part holds.\<close>

definition fixed_ok :: "scte35 \<Rightarrow> bool" where
  "fixed_ok s \<longleftrightarrow> \<not> sc_encryptedPacket s \<and> sc_encryptionAlgorithm s AND 0x3F = sc_encryptionAlgorithm s \<and>
     unat (sc_tier s) < 4096 \<and> unat (sc_pts s) < 2 ^ 33 \<and> unat (cmd_PTS (sc_commandInfo s)) < 2 ^ 33 \<and>
     sc_commandType s = CommandType (sc_commandInfo s)"

lemma section_fields_eq:
  "section_fields s = sc_protocolVersion s #
     pts_bytes ((if sc_encryptedPacket s then 0x80 else 0) OR push_bit 1 (sc_encryptionAlgorithm s AND 0x3F))
       (subtractPTS (sc_pts s) (cmd_PTS (sc_commandInfo s))) @
     [sc_cwIndex s, ucast (drop_bit 4 (sc_tier s)),
      ucast (push_bit 4 (sc_tier s)) OR (ucast (drop_bit 8 (sc_spliceCommandLength s)) AND 0x0F),
      ucast (sc_spliceCommandLength s), ucast (sc_commandType s)]"
  by (simp add: section_fields_def pts_bytes_def Let_def)

lemma parse_fixed_back:
  assumes "fixed_ok s" "unat (sc_spliceCommandLength s) < 4096"
  shows "parse_fixed z (section_fields s @ rest) =
    Ok (z\<lparr>sc_protocolVersion := sc_protocolVersion s, sc_encryptionAlgorithm := sc_encryptionAlgorithm s,
          sc_cwIndex := sc_cwIndex s, sc_tier := sc_tier s, sc_spliceCommandLength := sc_spliceCommandLength s,
          sc_commandType := sc_commandType s\<rparr>,
        subtractPTS (sc_pts s) (cmd_PTS (sc_commandInfo s)), rest)"
proof -
  let ?adj = "subtractPTS (sc_pts s) (cmd_PTS (sc_commandInfo s))"
  let ?e = "sc_encryptionAlgorithm s" let ?b = "push_bit 1 ?e"
  from assms(1) have ok: "\<not> sc_encryptedPacket s" "?e AND 0x3F = ?e" "unat (sc_tier s) < 4096"
    "unat (sc_pts s) < 2 ^ 33" "unat (cmd_PTS (sc_commandInfo s)) < 2 ^ 33"
    "sc_commandType s = CommandType (sc_commandInfo s)" by (simp_all add: fixed_ok_def)
  have adj: "unat ?adj < 2 ^ 33" by (rule adjustment_back [OF ok(4,5)])
  have e: "bit ?e 6 = False" "bit ?e 7 = False"
  proof -
    have "take_bit 6 ?e = ?e" using ok(2) unfolding and_numeral_mask .
    then have "bit ?e k = bit (take_bit 6 ?e) k" for k by simp
    from this [of 6] this [of 7] show "bit ?e 6 = False" "bit ?e 7 = False" by (simp_all add: bit_take_bit_iff)
  qed
  have b0: "\<not> bit ?b 0" by (simp add: bit_simps)
  define P where "P = pts_bytes ?b ?adj"
  have hd: "P ! 0 = ?b OR (ucast (drop_bit 32 ?adj) AND 1)" by (simp add: P_def pts_bytes_def)
  have enc: "(P ! 0) AND 0x80 = 0" "drop_bit 1 (P ! 0) AND 0x3F = ?e"
  proof -
    show "(P ! 0) AND 0x80 = 0"
      unfolding hd and_numeral_mask by (rule byte_eqI) (simp_all add: bit_simps e)
    show "drop_bit 1 (P ! 0) AND 0x3F = ?e"
      unfolding hd and_numeral_mask by (rule byte_eqI) (simp_all add: bit_simps e numeral_2_eq_2)
  qed
  obtain p1 where p1: "P = (P ! 0) # p1" by (simp add: P_def pts_bytes_def)
  have N: "Next 5 (P @ r) = (P, r)" for r by (rule Next_append) (simp add: P_def)
  have rb: "readByte (P @ r) = (P ! 0, p1 @ r)" for r by (subst p1) simp
  have ty: "ucast (ucast (sc_commandType s) :: byte) = sc_commandType s"
    using ok(6) by (cases "sc_commandInfo s") (simp_all add: splice_command_types)
  have F: "section_fields s @ rest = sc_protocolVersion s # P @ sc_cwIndex s #
     ([ucast (drop_bit 4 (sc_tier s)),
      ucast (push_bit 4 (sc_tier s)) OR (ucast (drop_bit 8 (sc_spliceCommandLength s)) AND 0x0F),
      ucast (sc_spliceCommandLength s)] @ ucast (sc_commandType s) # rest)"
    using ok(1,2) by (simp add: section_fields_eq P_def)
  have N3: "Next 3 ([a, b, c] @ r) = ([a, b, c], r)" for a b c :: byte and r by (rule Next_append) simp
  show ?thesis
    unfolding F parse_fixed_def
    using enc adj uint40_pts_bytes' [OF b0 adj, folded P_def] and_33 [OF adj] tier_word [OF ok(3) assms(2)] ty
    by (simp add: rb N N3 Let_def del: append.simps)
qed

fun cmd_ok :: "spliceCommand \<Rightarrow> bool" where
  "cmd_ok NullCommand = True"
| "cmd_ok (TimeSignalCommand t) = (ts_hasPTS t \<and> unat (ts_pts t) < 2 ^ 33)"
| "cmd_ok (SpliceInsertCommand c) = (si_ok (si_spliceImmediate c) c \<and> si_components c = [])"

lemma parse_command_back:
  assumes "cmd_ok c" "sc_commandType z = CommandType c" "unat f < 2 ^ 33" "unat (cmd_PTS c) < 2 ^ 33"
    "c = NullCommand \<Longrightarrow> f = sc_pts z"
  shows "parse_command z (subtractPTS f (cmd_PTS c)) (cmd_Data c @ rest) = Ok (z\<lparr>sc_pts := f, sc_commandInfo := c\<rparr>, rest)"
proof (cases c)
  case NullCommand
  with assms(2,5) show ?thesis by (cases z) (simp add: parse_command_def splice_command_types)
next
  case (TimeSignalCommand t)
  have "parseTimeSignal (ts_Data t @ rest) = Ok (t, rest)"
    using splice_time_signal_back assms(1) TimeSignalCommand by simp
  with TimeSignalCommand assms(2) adjustment_back(2) [OF assms(3,4)] show ?thesis
    by (simp add: parse_command_def splice_command_types)
next
  case (SpliceInsertCommand x)
  have "parseSpliceInsert (si_Data x @ rest) = Ok (x, rest)"
    using splice_insert_back assms(1) SpliceInsertCommand by simp
  with SpliceInsertCommand assms(2) adjustment_back(2) [OF assms(3,4)] show ?thesis
    by (simp add: parse_command_def splice_command_types)
qed

subsection \<open>The loop over the descriptors\<close>

text \<open>A descriptor in the loop: tag, length, body.\<close>

definition entry_bytes :: "byte \<times> byte list \<Rightarrow> byte list" where
  "entry_bytes e = fst e # of_nat (length (snd e)) # snd e"

lemma length_entry [simp]: "length (entry_bytes e) = 2 + length (snd e)"
  by (simp add: entry_bytes_def)

lemma loop_room:
  assumes "b + 2 + n \<le> l" "l \<le> 1023" "n < 256"
  shows "(of_nat b :: u16) < of_nat l" "\<not> (of_nat l - of_nat b - 2 :: u16) < ucast (of_nat n :: byte)"
    "(of_nat b :: u16) + (2 + ucast (of_nat n :: byte)) = of_nat (b + (2 + n))"
proof -
  have u: "unat (of_nat k :: u16) = k" if "k \<le> 1023" for k using that by (simp add: unat_of_nat)
  show "(of_nat b :: u16) < of_nat l" using assms by (simp add: word_less_nat_alt u)
  have n: "ucast (of_nat n :: byte) = (of_nat n :: u16)"
    using assms(3) of_nat_byte [of n] by (intro word_unat_eq_iff [THEN iffD2]) (simp add: unsigned_ucast_eq take_bit_nat_eq_self u)
  have "(of_nat l - of_nat b - 2 :: u16) = of_nat (l - b - 2)" using assms(1) by (simp add: of_nat_diff)
  then show "\<not> (of_nat l - of_nat b - 2 :: u16) < ucast (of_nat n :: byte)"
    unfolding n using assms by (simp add: word_less_nat_alt u del: of_nat_diff)
  show "(of_nat b :: u16) + (2 + ucast (of_nat n :: byte)) = of_nat (b + (2 + n))" unfolding n by simp
qed

lemma desc_loop_entry:
  assumes "b + length (entry_bytes e) \<le> l" "l \<le> 1023" "length (snd e) < 256"
  shows "desc_loop (of_nat l) (of_nat b) (entry_bytes e @ rest) others descs =
    (if fst e \<noteq> segDescTag
     then desc_loop (of_nat l) (of_nat (b + length (entry_bytes e))) rest (others @ entry_bytes e) descs
     else Option.bind (parseDescriptor CreateSegmentationDescriptor (snd e)) (\<lambda>r. case r of
         Ok d \<Rightarrow> desc_loop (of_nat l) (of_nat (b + length (entry_bytes e))) rest others (descs @ [d])
       | Err e \<Rightarrow> Some (Err e)
       | Panic \<Rightarrow> Some Panic))"
proof -
  let ?n = "length (snd e)"
  have r: "b + 2 + ?n \<le> l" using assms(1) by simp
  note room = loop_room [OF r assms(2,3)]
  have N: "Next ?n (snd e @ rest) = (snd e, rest)" by (rule Next_append) simp
  have rb: "readByte (entry_bytes e @ rest) = (fst e, of_nat ?n # snd e @ rest)" by (simp add: entry_bytes_def)
  have E: "others @ [fst e, of_nat ?n] @ snd e = others @ entry_bytes e" by (simp add: entry_bytes_def)
  show ?thesis
    by (subst desc_loop.simps)
      (simp only: room rb N Let_def fst_conv snd_conv readByte_Cons of_nat_byte(1) [OF assms(3)] if_True if_False E
        length_entry)
qed

lemma desc_loop_others:
  assumes "\<forall>e \<in> set es. fst e \<noteq> segDescTag \<and> length (snd e) < 256" "l \<le> 1023"
    "b + length (concat (map entry_bytes es)) \<le> l"
  shows "desc_loop (of_nat l) (of_nat b) (concat (map entry_bytes es) @ rest) others descs =
    desc_loop (of_nat l) (of_nat (b + length (concat (map entry_bytes es)))) rest (others @ concat (map entry_bytes es)) descs"
  using assms(1,3)
proof (induction es arbitrary: b others)
  case (Cons e es)
  then have e: "fst e \<noteq> segDescTag" "length (snd e) < 256" "b + length (entry_bytes e) \<le> l" by simp_all
  have "desc_loop (of_nat l) (of_nat b) (entry_bytes e @ concat (map entry_bytes es) @ rest) others descs =
      desc_loop (of_nat l) (of_nat (b + length (entry_bytes e))) (concat (map entry_bytes es) @ rest) (others @ entry_bytes e) descs"
    using desc_loop_entry [OF e(3) assms(2) e(2)] e(1) by simp
  also have "\<dots> = desc_loop (of_nat l) (of_nat (b + length (entry_bytes e) + length (concat (map entry_bytes es)))) rest
      ((others @ entry_bytes e) @ concat (map entry_bytes es)) descs"
    by (rule Cons.IH) (use Cons.prems in simp_all)
  finally show ?case by (simp only: list.map concat.simps append_assoc length_append add.assoc)
qed simp

lemma desc_loop_segments:
  assumes "\<forall>d \<in> set ds. seg_ok d \<and> length (seg_Data d) < 258" "l \<le> 1023"
    "b + length (concat (map seg_Data ds)) \<le> l"
  shows "desc_loop (of_nat l) (of_nat b) (concat (map seg_Data ds) @ rest) others descs =
    desc_loop (of_nat l) (of_nat (b + length (concat (map seg_Data ds)))) rest others (descs @ ds)"
  using assms(1,3)
proof (induction ds arbitrary: b descs)
  case (Cons d ds)
  let ?e = "(segDescTag, drop 2 (seg_Data d))"
  have E: "entry_bytes ?e = seg_Data d" using seg_Data_body(2) [of d] by (simp add: entry_bytes_def)
  have e: "length (snd ?e) < 256" "b + length (entry_bytes ?e) \<le> l" using Cons.prems by (simp_all only: E) auto
  have "desc_loop (of_nat l) (of_nat b) (entry_bytes ?e @ concat (map seg_Data ds) @ rest) others descs =
      desc_loop (of_nat l) (of_nat (b + length (entry_bytes ?e))) (concat (map seg_Data ds) @ rest) others (descs @ [d])"
    using desc_loop_entry [OF e(2) assms(2) e(1)] parseDescriptor_back [of d] Cons.prems(1) by simp
  also have "\<dots> = desc_loop (of_nat l) (of_nat (b + length (entry_bytes ?e) + length (concat (map seg_Data ds)))) rest others
      ((descs @ [d]) @ ds)"
    by (rule Cons.IH) (use Cons.prems in \<open>simp_all add: E del: length_entry\<close>)
  finally show ?case by (simp only: E list.map concat.simps append_assoc length_append add.assoc append_Cons append_Nil)
qed simp

lemma desc_loop_end: "desc_loop l l buf others descs = Some (Ok (others, descs))"
  by (subst desc_loop.simps) simp

lemma parse_descriptors_back:
  assumes "\<forall>e \<in> set es. fst e \<noteq> segDescTag \<and> length (snd e) < 256"
    "\<forall>d \<in> set ds. seg_ok d \<and> length (seg_Data d) < 258"
    "body = concat (map entry_bytes es) @ concat (map seg_Data ds)" "length body \<le> 1006" "4 \<le> length rest"
  shows "parse_descriptors ([of_nat (drop_bit 8 (length body)), of_nat (length body)] @ body @ rest) =
    Some (Ok (concat (map entry_bytes es), ds))"
proof -
  let ?l = "length body"
  have L: "push_bit 8 (ucast (of_nat (drop_bit 8 ?l) :: byte)) OR ucast (of_nat ?l :: byte) = (of_nat ?l :: u16)"
  proof -
    have "of_nat (drop_bit 8 ?l) = (ucast (drop_bit 8 (of_nat ?l :: u16)) :: byte)"
      by (rule bit_word_eqI) (auto simp: bit_simps)
    moreover have "of_nat ?l = (ucast (of_nat ?l :: u16) :: byte)"
      by (rule bit_word_eqI) (auto simp: bit_simps)
    ultimately show ?thesis using uint16_back [of "of_nat ?l"] by simp
  qed
  have N: "Next 2 ([a, b] @ r) = ([a, b], r)" for a b :: byte and r by (rule Next_append) simp
  have c: "unat (of_nat ?l + of_nat CrcLen :: u16) = ?l + 4"
  proof -
    have "of_nat ?l + of_nat CrcLen = (of_nat (?l + 4) :: u16)" by (simp add: CrcLen_def)
    moreover have "unat (of_nat (?l + 4) :: u16) = ?l + 4" using assms(4) by (simp only: unat_of_nat) simp
    ultimately show ?thesis by metis
  qed
  let ?o = "concat (map entry_bytes es)" let ?s = "concat (map seg_Data ds)"
  have l: "?l \<le> 1023" "0 + length ?o \<le> ?l" "0 + length ?o + length ?s \<le> ?l" "0 + length ?o + length ?s = ?l"
    using assms(3,4) by simp_all
  have "desc_loop (of_nat ?l) 0 (body @ rest) [] [] = Some (Ok (?o, ds))"
    using desc_loop_others [OF assms(1) l(1,2), of "?s @ rest" "[]" "[]"]
      desc_loop_segments [OF assms(2) l(1,3), of rest ?o "[]"] l(4) by (simp add: assms(3) desc_loop_end)
  then show ?thesis using assms(5) c L N by (simp add: parse_descriptors_def CrcLen_def Let_def)
qed

subsection \<open>The whole message\<close>

lemma unat_pointer: "n < 255 \<Longrightarrow> unat (of_nat n + 1 :: byte) = n + 1"
  using of_nat_byte(1) [of "n + 1"] by (simp add: add.commute)

lemma parse_table_header_back:
  assumes "length filler < 255" "unat (th_SectionLength th) < 1024" "15 \<le> length rest"
  shows "parse_table_header (of_nat (length filler) # filler @ TableHeader_Data th @ rest) = Ok (th, rest)"
proof -
  let ?data = "of_nat (length filler) # filler @ TableHeader_Data th @ rest"
  have n: "Next (unat (of_nat (length filler) + 1 :: byte)) ?data = (of_nat (length filler) # filler, TableHeader_Data th @ rest)"
    using Next_append [of "of_nat (length filler) # filler"] unat_pointer [OF assms(1)] by simp
  have 3: "Next 3 (TableHeader_Data th @ rest) = (TableHeader_Data th, rest)" by (rule Next_append) simp
  have "TableHeaderFromBytes (TableHeader_Data th) = Ok th"
    using TableHeader_roundtrip [of th "[]"] take_bit_word_small [of "th_SectionLength th" 10] assms(2) by simp
  then show ?thesis
    using n 3 assms(1,3) of_nat_byte(1) [of "length filler"]
    by (simp add: parse_table_header_def PointerField_def PSIHeaderLen_def)
qed

text \<open>The messages that are read back as they are, given the descriptors of other kinds that they carry.  What the
  library makes of the commands and descriptors that this leaves out - component splices, cancelled inserts, commands
  without a time, times and offsets with more bits than are read - is stated exactly by
  \<open>splice_command_roundtrip\<close>, \<open>component_times_inverted\<close> and \<open>segmentation_roundtrip\<close>.\<close>

definition message_ok :: "scte35 \<Rightarrow> (byte \<times> byte list) list \<Rightarrow> bool" where
  "message_ok s others \<longleftrightarrow> fixed_ok s \<and> cmd_ok (sc_commandInfo s) \<and>
     (sc_commandInfo s = NullCommand \<longrightarrow> sc_pts s = 0) \<and>
     th_TableID (sc_tableHeader s) = 0xFC \<and> sc_crc32 s = 0 \<and>
     sc_otherDescriptorBytes s = concat (map entry_bytes others) \<and>
     (\<forall>e \<in> set others. fst e \<noteq> segDescTag \<and> length (snd e) < 256) \<and>
     (\<forall>d \<in> set (sc_descriptors s). seg_ok d \<and> length (seg_Data d) < 258) \<and> section_size s \<le> 1023"

lemma message_parse:
  assumes ok: "message_ok s others" and f: "length filler < 255" and t: "4 \<le> length tail"
  shows "NewSCTE35 (of_nat (length filler) # filler @ unsigned_bytes s @ tail) =
    Some (Ok ((with_lengths s)\<lparr>sc_alignmentStuffing := 0, sc_data := unsigned_bytes s @ tail\<rparr>))"
proof -
  let ?w = "with_lengths s" let ?th = "sc_tableHeader ?w" let ?C = "cmd_Data (sc_commandInfo s)"
  let ?stuff = "replicate (unat (sc_alignmentStuffing s)) (0 :: byte)"
  let ?data = "of_nat (length filler) # filler @ unsigned_bytes s @ tail"
  from ok have size: "section_size s \<le> 1023" by (simp add: message_ok_def)
  have u: "unat (of_nat k :: u16) = k" if "k \<le> 1023" for k using that by (simp add: unat_of_nat)
  have C: "length ?C \<le> 1023" using size by (simp add: section_size_def)
  have sl: "unat (th_SectionLength ?th) < 1024" "unat (sc_spliceCommandLength ?w) < 4096"
    using u [OF size] u [OF C] size C by (simp_all add: with_lengths_def)
  have w: "fixed_ok ?w" "sc_pts ?w = sc_pts s" "sc_commandInfo ?w = sc_commandInfo s" "th_TableID ?th = 0xFC"
    using ok by (simp_all add: message_ok_def fixed_ok_def with_lengths_def)
  have D: "descriptor_bytes s = [of_nat (drop_bit 8 (length (loop_bytes s))), of_nat (length (loop_bytes s))] @ loop_bytes s"
    by (rule descriptor_bytes_loop)
  have data: "?data = of_nat (length filler) # filler @ TableHeader_Data ?th @ section_fields ?w @ ?C @
      descriptor_bytes s @ ?stuff @ tail" by (simp add: unsigned_bytes_def)
  have 1: "parse_table_header ?data = Ok (?th, section_fields ?w @ ?C @ descriptor_bytes s @ ?stuff @ tail)"
    unfolding data by (rule parse_table_header_back [OF f sl(1)]) (use t in \<open>simp add: D\<close>)
  let ?z = "zero_scte35\<lparr>sc_tableHeader := ?th\<rparr>"
  let ?z1 = "?z\<lparr>sc_protocolVersion := sc_protocolVersion ?w, sc_encryptionAlgorithm := sc_encryptionAlgorithm ?w,
      sc_cwIndex := sc_cwIndex ?w, sc_tier := sc_tier ?w, sc_spliceCommandLength := sc_spliceCommandLength ?w,
      sc_commandType := sc_commandType ?w\<rparr>"
  let ?z2 = "?z1\<lparr>sc_pts := sc_pts s, sc_commandInfo := sc_commandInfo s\<rparr>"
  have 2: "parse_fixed ?z (section_fields ?w @ r) =
      Ok (?z1, subtractPTS (sc_pts s) (cmd_PTS (sc_commandInfo s)), r)" for r
    using parse_fixed_back [OF w(1) sl(2), of ?z r] unfolding w .
  have 3: "parse_command ?z1 (subtractPTS (sc_pts s) (cmd_PTS (sc_commandInfo s))) (?C @ r) = Ok (?z2, r)" for r
    by (rule parse_command_back)
      (use ok in \<open>auto simp: message_ok_def fixed_ok_def with_lengths_def zero_scte35_def\<close>)
  have 4: "parse_descriptors (descriptor_bytes s @ ?stuff @ tail) = Some (Ok (sc_otherDescriptorBytes s, sc_descriptors s))"
  proof -
    have "parse_descriptors ([of_nat (drop_bit 8 (length (loop_bytes s))), of_nat (length (loop_bytes s))] @ loop_bytes s @
        (?stuff @ tail)) = Some (Ok (concat (map entry_bytes others), sc_descriptors s))"
      by (rule parse_descriptors_back)
        (use ok size t in \<open>auto simp: message_ok_def loop_bytes_def section_size_def\<close>)
    then show ?thesis using ok by (simp add: D message_ok_def)
  qed
  have 5: "PointerField ?data = Ok (of_nat (length filler))" by (simp add: PointerField_def)
  have 6: "slice_from ?data (unat (of_nat (length filler) + 1 :: byte)) = Ok (unsigned_bytes s @ tail)"
    using unat_pointer [OF f] by simp
  have z2: "?z2\<lparr>sc_otherDescriptorBytes := sc_otherDescriptorBytes ?z2 @ sc_otherDescriptorBytes s,
      sc_descriptors := sc_descriptors ?z2 @ sc_descriptors s, sc_data := d\<rparr> =
      ?w\<lparr>sc_alignmentStuffing := 0, sc_data := d\<rparr>" for d
    using ok by (cases s) (simp add: message_ok_def fixed_ok_def with_lengths_def zero_scte35_def)
  show ?thesis
    unfolding NewSCTE35_def parseTable_def 1
    by (simp only: res_bind.simps w(4) case_prod_conv if_True refl 2 3 res.case 4 option.map 5 6 z2)
qed

section \<open>Properties\<close>

text \<open>C10: a message that is within the limits of \<open>message_ok\<close> is read back as it was. The limits
  are these. The section is at most 1023 bytes; the packet is not encrypted, with an algorithm of 6 bits, a tier
  below 4096, table id 0xFC, a zero checksum field, and an adjusted time and a command time below
  \<open>2\<^sup>3\<^sup>3\<close>; the command type is that of the command. The command is null, with adjusted time
  0; or a time signal that has a time; or a splice insert that is not cancelled, has no components, has a time
  exactly when it is a program splice and not immediate, has a duration below \<open>2\<^sup>3\<^sup>3\<close>, and
  no duration or return flag without its duration flag. Each segmentation descriptor is of at most 257 bytes and as
  \<open>seg_ok\<close> says (component offsets below \<open>2\<^sup>3\<^sup>2\<close>, duration below
  \<open>2\<^sup>3\<^sup>3\<close>, nothing in a field that is not written); every other descriptor has another tag
  and a body below 256 bytes, and the filler behind the pointer field is below 255 bytes. Component splices,
  cancelled inserts, commands without a time and wider offsets or durations are outside. Within them,
  \<open>UpdateData\<close>
  makes bytes of the announced length with a checksum that comes out as zero over the whole section, and
  \<open>NewSCTE35\<close> reads the same message from them behind the pointer field: its adjusted time, its command, its
  segmentation descriptors and the bytes of the other descriptors; of what such a message holds only the stuffing count is not recovered.\<close>

theorem scte35_roundtrip:
  assumes "message_ok s others" "length filler < 255"
  shows "\<exists>bytes s'. UpdateData s = Ok (bytes, s') \<and> length bytes = section_size s + 3 \<and>
    ComputeCRC bytes = [0, 0, 0, 0] \<and> sc_Data s' = bytes \<and>
    NewSCTE35 (of_nat (length filler) # filler @ bytes) = Some (Ok (s'\<lparr>sc_alignmentStuffing := 0\<rparr>)) \<and>
    sc_PTS s' = sc_PTS s \<and> sc_CommandInfo s' = sc_CommandInfo s \<and> sc_Descriptors s' = sc_Descriptors s"
proof -
  let ?u = "unsigned_bytes s" let ?b = "?u @ ComputeCRC ?u" let ?s = "(with_lengths s)\<lparr>sc_data := ?b\<rparr>"
  have size: "section_size s \<le> 1023" using assms(1) by (simp add: message_ok_def)
  have crc: "length (ComputeCRC ?u) = 4" "ComputeCRC ?b = [0, 0, 0, 0]"
    by (simp_all add: ComputeCRC_residue)
  have "UpdateData s = Ok (?b, ?s)" by (rule UpdateData_layout [OF size])
  moreover have "length ?b = section_size s + 3"
    using crc(1) by (simp add: unsigned_bytes_def section_size_def descriptor_bytes_loop)
  moreover have "NewSCTE35 (of_nat (length filler) # filler @ ?b) = Some (Ok (?s\<lparr>sc_alignmentStuffing := 0\<rparr>))"
    using message_parse [OF assms, of "ComputeCRC ?u"] crc(1) by simp
  moreover have "sc_Data ?s = ?b" "sc_PTS ?s = sc_PTS s" "sc_CommandInfo ?s = sc_CommandInfo s"
    "sc_Descriptors ?s = sc_Descriptors s"
    by (simp_all add: sc_Data_def sc_PTS_def sc_CommandInfo_def sc_Descriptors_def with_lengths_def)
  ultimately show ?thesis using crc(2) by blast
qed

abbreviation example_message :: scte35 where
  "example_message \<equiv> CreateSCTE35\<lparr>sc_commandType := SpliceInsert, sc_commandInfo := SpliceInsertCommand example_insert,
     sc_pts := 90000, sc_tier := 0x123, sc_descriptors := [example_segment], sc_otherDescriptorBytes := [0, 2, 8, 9],
     sc_alignmentStuffing := 3\<rparr>"

lemma example_message_size: "section_size example_message = 81"
proof -
  have "length (si_Data example_insert) = 20"
    by (simp add: si_Data_def spliceTimeBytes_def duration_bytes_def CreateSpliceInsertCommand_def zero_spliceInsert_def)
  then show ?thesis using example_segment_ok(2) by (simp add: section_size_def loop_bytes_def)
qed

lemma example_message_ok: "message_ok example_message [(0, [8, 9])]"
proof -
  have i: "si_components example_insert = []" by (simp add: CreateSpliceInsertCommand_def zero_spliceInsert_def)
  show ?thesis
    using example_insert_ok example_segment_ok i example_message_size
    by (simp add: message_ok_def fixed_ok_def CreateSCTE35_def zero_scte35_def entry_bytes_def segDescTag_def si_PTS_def)
qed

theorem scte35_roundtrip_witness:
  "\<exists>bytes s'. UpdateData example_message = Ok (bytes, s') \<and> length bytes = section_size example_message + 3 \<and>
    ComputeCRC bytes = [0, 0, 0, 0] \<and> sc_Data s' = bytes \<and>
    NewSCTE35 (of_nat (length [0 :: byte]) # [0] @ bytes) = Some (Ok (s'\<lparr>sc_alignmentStuffing := 0\<rparr>)) \<and>
    sc_PTS s' = sc_PTS example_message \<and> sc_CommandInfo s' = sc_CommandInfo example_message \<and>
    sc_Descriptors s' = sc_Descriptors example_message"
  by (rule scte35_roundtrip [OF example_message_ok]) simp

text \<open>Setting the time of a message cuts the time of its command to 33 bits and makes the adjustment zero;
  setting the adjusted time leaves the command alone, and the adjustment written is the one that the parser
  adds to the time of the command to get the adjusted time back, across the wrap of the clock.\<close>

theorem pts_adjustment:
  assumes "unat p < 2 ^ 33" "unat q < 2 ^ 33" "sc_commandInfo s \<noteq> NullCommand"
  shows "subtractPTS (sc_PTS (sc_SetPTS s p)) (cmd_PTS (sc_CommandInfo (sc_SetPTS s p))) = 0 \<and>
    sc_PTS (sc_SetAdjustPTS (sc_SetPTS s q) p) = p \<and>
    cmd_PTS (sc_CommandInfo (sc_SetAdjustPTS (sc_SetPTS s q) p)) = q \<and>
    PTS_Add q (subtractPTS p q) = p \<and> unat (subtractPTS p q) < 2 ^ 33 \<and>
    sc_SetHasPTS s False = sc_SetHasPTS s True"
  using assms adjustment_back [OF assms(1,2)] and_33 [OF assms(1)] and_33 [OF assms(2)]
  by (simp add: sc_SetPTS_def sc_SetAdjustPTS_def sc_PTS_def sc_CommandInfo_def sc_SetHasPTS_def cmd_times
      subtractPTS_def Let_def)

theorem pts_adjustment_witness:
  "PTS_Add 0x1FFFFFFFF (subtractPTS 90000 0x1FFFFFFFF) = 90000 \<and>
   cmd_PTS (sc_CommandInfo (sc_SetAdjustPTS (sc_SetPTS example_message 0x1FFFFFFFF) 90000)) = 0x1FFFFFFFF"
  using pts_adjustment [of 90000 "0x1FFFFFFFF" example_message] by simp

text \<open>The errors of the fixed part, in the order in which they are found: too few bytes, another table, an
  encrypted packet, an unsupported command.  An empty input panics.\<close>

theorem NewSCTE35_errors:
  assumes "length filler < 255" "length fixed = 13"
  shows "NewSCTE35 [] = Some Panic \<and>
    (length rest < 18 \<longrightarrow> NewSCTE35 (of_nat (length filler) # filler @ rest) = Some (Err ErrInvalidSCTE35Length)) \<and>
    (\<forall>cmd. 4 \<le> length rest \<longrightarrow>
      (let r = NewSCTE35 (of_nat (length filler) # filler @ fixed @ [cmd] @ rest)
       in if fixed ! 0 \<noteq> 0xFC then r = Some (Err ErrUnknownTableID)
          else if fixed ! 4 AND 0x80 \<noteq> 0 then r = Some (Err ErrSCTE35EncryptionUnsupported)
          else if cmd \<notin> {0, 5, 6} then r = Some (Err ErrSCTE35UnsupportedSpliceCommand)
          else True))"
proof (intro conjI impI allI)
  show "NewSCTE35 [] = Some Panic"
    by (simp add: NewSCTE35_def parseTable_def parse_table_header_def PointerField_def rd_def)
  have pf: "unat (of_nat (length filler) :: byte) = length filler" using of_nat_byte(1) [of "length filler"] assms(1) by simp
  show "length rest < 18 \<Longrightarrow> NewSCTE35 (of_nat (length filler) # filler @ rest) = Some (Err ErrInvalidSCTE35Length)"
    by (simp add: NewSCTE35_def parseTable_def parse_table_header_def PointerField_def pf PSIHeaderLen_def)
  fix cmd assume r: "4 \<le> length rest"
  obtain f0 f1 f2 f3 f4 f5 f6 f7 f8 f9 fa fb fc where f: "fixed = [f0, f1, f2, f3, f4, f5, f6, f7, f8, f9, fa, fb, fc]"
    using assms(2) by (auto simp: numeral_eq_Suc length_Suc_conv)
  let ?data = "of_nat (length filler) # filler @ fixed @ [cmd] @ rest"
  have n: "Next (unat (of_nat (length filler) + 1 :: byte)) ?data = (of_nat (length filler) # filler, fixed @ [cmd] @ rest)"
    using Next_append [of "of_nat (length filler) # filler"] unat_pointer [OF assms(1)] by simp
  have N3: "Next 3 (fixed @ [cmd] @ rest) = ([f0, f1, f2], drop 3 fixed @ [cmd] @ rest)" by (simp add: f Next_def)
  have "parse_table_header ?data = res_bind (TableHeaderFromBytes [f0, f1, f2]) (\<lambda>th. Ok (th, drop 3 fixed @ [cmd] @ rest))"
    unfolding parse_table_header_def using pf r assms(2)
    by (simp add: PointerField_def PSIHeaderLen_def n [simplified] N3 [simplified])
  then obtain th where th: "parse_table_header ?data = Ok (th, drop 3 fixed @ [cmd] @ rest)" "th_TableID th = f0"
    by (simp add: TableHeaderFromBytes_def)
  have N: "Next 5 (f4 # f5 # f6 # f7 # f8 # xs) = ([f4, f5, f6, f7, f8], xs)"
    "Next 3 (fa # fb # fc # xs) = ([fa, fb, fc], xs)" for xs by (simp_all add: Next_def)
  obtain v where v: "uint40 [f4, f5, f6, f7, f8] = Ok v" using uint40_total [of "[f4, f5, f6, f7, f8]"] by auto
  have cmd: "(ucast cmd :: u16) = ucast (c :: byte) \<longleftrightarrow> cmd = c" for c
  proof -
    have "unat (ucast x :: u16) = unat x" for x :: byte
    proof -
      have "unat x < 2 ^ LENGTH(8)" by (rule unsigned_less)
      then show ?thesis by (simp add: unsigned_ucast_eq take_bit_nat_eq_self)
    qed
    then show ?thesis by (metis word_unat_eq_iff)
  qed
  from cmd [of 0] cmd [of 5] cmd [of 6]
  show "let r = NewSCTE35 ?data
       in if fixed ! 0 \<noteq> 0xFC then r = Some (Err ErrUnknownTableID)
          else if fixed ! 4 AND 0x80 \<noteq> 0 then r = Some (Err ErrSCTE35EncryptionUnsupported)
          else if cmd \<notin> {0, 5, 6} then r = Some (Err ErrSCTE35UnsupportedSpliceCommand)
          else True"
    using th v N
    by (simp add: NewSCTE35_def parseTable_def f parse_fixed_def parse_command_def splice_command_types Let_def)
qed

theorem NewSCTE35_errors_witness:
  "NewSCTE35 [] = Some Panic \<and>
   NewSCTE35 (of_nat (length ([] :: byte list)) # [] @ [1, 2, 3, 4]) = Some (Err ErrInvalidSCTE35Length) \<and>
   NewSCTE35 (of_nat (length ([] :: byte list)) # [] @ (0xFC # replicate 12 0) @ [7] @ [1, 2, 3, 4]) =
     Some (Err ErrSCTE35UnsupportedSpliceCommand)"
  using NewSCTE35_errors [of "[]" "0xFC # replicate 12 0" "[1, 2, 3, 4]"] by (simp add: Let_def)

subsection \<open>Inputs that the parser does not survive\<close>

lemma readByte_zeros: "readByte (replicate k 0) = (0, replicate (k - 1) 0)"
  by (cases k) (simp_all add: readByte_def)

text \<open>With a loop length of 65535 the counter, a \<^verbatim>\<open>uint16\<close>, goes through the even numbers for ever.\<close>

lemma desc_loop_zeros:
  assumes "desc_loop l br buf others descs = Some r"
  shows "\<not> (l = 0xFFFF \<and> even br \<and> (\<exists>k. buf = replicate k 0))"
proof (rule desc_loop.raw_induct [OF _ assms,
      where P = "\<lambda>l br buf _ _ _. \<not> (l = 0xFFFF \<and> even br \<and> (\<exists>k. buf = replicate k 0))"], rule notI)
  fix loop :: "u16 \<Rightarrow> u16 \<Rightarrow> byte list \<Rightarrow> byte list \<Rightarrow> segmentationDescriptor list \<Rightarrow>
    (byte list \<times> segmentationDescriptor list) res option"
  fix l br buf others descs r
  assume ih: "\<And>l br buf others descs r. loop l br buf others descs = Some r \<Longrightarrow>
      \<not> (l = 0xFFFF \<and> even br \<and> (\<exists>k. buf = replicate k 0))"
    and body: "(if br < l then
        let descTag = fst (readByte buf); buf = snd (readByte buf);
            descLen = fst (readByte buf); buf = snd (readByte buf);
            body = fst (Next (unat descLen) buf); buf = snd (Next (unat descLen) buf)
        in if l - br - 2 < ucast descLen then Some (Err ErrInvalidSCTE35Length)
           else if descTag \<noteq> segDescTag then
             loop l (br + (2 + ucast descLen)) buf (others @ [descTag, descLen] @ body) descs
           else Option.bind (parseDescriptor CreateSegmentationDescriptor body) (\<lambda>r.
             case r of
               Ok d \<Rightarrow> loop l (br + (2 + ucast descLen)) buf others (descs @ [d])
             | Err e \<Rightarrow> Some (Err e)
             | Panic \<Rightarrow> Some Panic)
      else Some (Ok (others, descs))) = Some r"
    and st: "l = 0xFFFF \<and> even br \<and> (\<exists>k. buf = replicate k 0)"
  from st obtain k where k: "buf = replicate k 0" and l: "l = 0xFFFF" and e: "even br" by blast
  have "br \<noteq> 0xFFFF" using e by auto
  moreover have "br \<le> 0xFFFF"
  proof -
    have "br \<le> - 1" by (rule word_n1_ge)
    moreover have "(- 1 :: u16) = 0xFFFF" by simp
    ultimately show ?thesis by metis
  qed
  ultimately have "br < 0xFFFF" by simp
  then have "loop l (br + 2) (replicate (k - 1 - 1) 0) (others @ [0, 0]) descs = Some r"
    using body by (simp add: k l readByte_zeros Next_def segDescTag_def Let_def)
  moreover have "even (br + 2)" using e by simp
  ultimately show False using ih l by blast
qed

lemma null_message:
  assumes "length fixed = 10" "fixed ! 1 AND 0x80 = 0" "4 \<le> length rest"
  shows "parse_descriptors rest = None \<Longrightarrow> NewSCTE35 ([0, 0xFC, b1, b2] @ fixed @ [0] @ rest) = None"
    "parse_descriptors rest = Some Panic \<Longrightarrow> NewSCTE35 ([0, 0xFC, b1, b2] @ fixed @ [0] @ rest) = Some Panic"
proof -
  obtain f0 f1 f2 f3 f4 f5 f6 f7 f8 f9 where f: "fixed = [f0, f1, f2, f3, f4, f5, f6, f7, f8, f9]"
    using assms(1) by (auto simp: numeral_eq_Suc length_Suc_conv)
  obtain v where v: "uint40 [f1, f2, f3, f4, f5] = Ok v" using uint40_total [of "[f1, f2, f3, f4, f5]"] by auto
  have N: "Next 5 (f1 # f2 # f3 # f4 # f5 # xs) = ([f1, f2, f3, f4, f5], xs)"
    "Next 3 (a # b # c # xs) = ([a, b, c], xs)" "Next 1 (a # xs) = ([a], xs)" for a b c xs by (simp_all add: Next_def)
  note defs = NewSCTE35_def parseTable_def parse_table_header_def PointerField_def PSIHeaderLen_def
    TableHeaderFromBytes_def parse_fixed_def parse_command_def splice_command_types Let_def
  show "parse_descriptors rest = None \<Longrightarrow> NewSCTE35 ([0, 0xFC, b1, b2] @ fixed @ [0] @ rest) = None"
    using assms(2,3) v N by (simp add: f defs)
  show "parse_descriptors rest = Some Panic \<Longrightarrow> NewSCTE35 ([0, 0xFC, b1, b2] @ fixed @ [0] @ rest) = Some Panic"
    using assms(2,3) v N by (simp add: f defs)
qed

text \<open>Two inputs of a null command that no error result covers.  A segmentation descriptor of length zero
  makes the parser panic.  A descriptor loop length of 65535 over a few zero bytes passes the length check,
  which wraps, and the loop then never ends.\<close>

theorem NewSCTE35_hostile:
  assumes "length fixed = 10" "fixed ! 1 AND 0x80 = 0" "4 \<le> k"
  shows "NewSCTE35 ([0, 0xFC, b1, b2] @ fixed @ [0] @ [0, 2, segDescTag, 0] @ replicate k 0) = Some Panic \<and>
    NewSCTE35 ([0, 0xFC, b1, b2] @ fixed @ [0] @ [0xFF, 0xFF] @ replicate k 0) = None"
proof
  have N: "Next 2 (a # b # xs) = ([a, b], xs)" "Next 0 xs = ([], xs)" for a b :: byte and xs by (simp_all add: Next_def)
  have p: "parseDescriptor CreateSegmentationDescriptor [] = Some Panic"
    using parseDescriptor_short [of "[]"] by simp
  have "desc_loop 2 0 (segDescTag # 0 # replicate k 0) [] [] = Some Panic"
    by (subst desc_loop.simps) (simp add: N p segDescTag_def Let_def)
  then have "parse_descriptors ([0, 2, segDescTag, 0] @ replicate k 0) = Some Panic"
    using assms(3) by (simp add: parse_descriptors_def CrcLen_def N Let_def)
  then show "NewSCTE35 ([0, 0xFC, b1, b2] @ fixed @ [0] @ [0, 2, segDescTag, 0] @ replicate k 0) = Some Panic"
    by (intro null_message [OF assms(1,2)]) simp_all
  have "desc_loop 0xFFFF 0 (replicate k 0) [] [] = None"
    using desc_loop_zeros [of "0xFFFF" 0 "replicate k 0" "[]" "[]"] by (cases "desc_loop 0xFFFF 0 (replicate k 0) [] []") auto
  then have "parse_descriptors ([0xFF, 0xFF] @ replicate k 0) = None"
    using assms(3) by (simp add: parse_descriptors_def CrcLen_def N Let_def)
  then show "NewSCTE35 ([0, 0xFC, b1, b2] @ fixed @ [0] @ [0xFF, 0xFF] @ replicate k 0) = None"
    by (rule null_message [OF assms(1,2), rotated]) (use assms(3) in simp)
qed

theorem NewSCTE35_hostile_witness:
  "NewSCTE35 ([0, 0xFC, 0x30, 17] @ replicate 10 0 @ [0] @ [0, 2, segDescTag, 0] @ replicate 4 0) = Some Panic \<and>
   NewSCTE35 ([0, 0xFC, 0x30, 17] @ replicate 10 0 @ [0] @ [0xFF, 0xFF] @ replicate 4 0) = None"
  by (rule NewSCTE35_hostile) simp_all

end
