(* ===== verification/Scte_State.thy ===== *)
theory Scte_State
  imports Scte_Message
begin

text \<open>
  \<^verbatim>\<open>gots/scte35/state.go\<close>, with \<open>CanClose\<close> and \<open>seg_Equal\<close> of \<^verbatim>\<open>segmentationdescriptor.go\<close>: which descriptors
  are open after a sequence of signals.  A signal is a descriptor with the message it belongs to, if any;
  neither is changed while the state holds it.  Where the source holds a slice of interfaces, an element
  is an option, \<open>None\<close> for \<^verbatim>\<open>nil\<close>.

  The slice of open descriptors is cut and grown again in place, so the model keeps its array: \<open>st_arr\<close> are
  the elements ever written, \<open>st_len\<close> the length.  A slice of the array beyond its length shows old
  elements again.  When the array is full an append copies it, and nothing lies beyond the length.
\<close>

section \<open>Signals\<close>

record signal =
  sig_desc :: segmentationDescriptor
  sig_info :: "scte35 option"

definition SCTE35 :: "signal \<Rightarrow> scte35 option" where "SCTE35 d = sig_info d"

text \<open>\<^verbatim>\<open>d.SCTE35().PTS()\<close> and \<^verbatim>\<open>d.SCTE35().HasPTS()\<close>: no message is a nil dereference.\<close>

definition sig_PTS :: "signal \<Rightarrow> PTS res" where
  "sig_PTS d = (case SCTE35 d of Some s \<Rightarrow> Ok (sc_PTS s) | None \<Rightarrow> Panic)"
definition sig_HasPTS :: "signal \<Rightarrow> bool res" where
  "sig_HasPTS d = (case SCTE35 d of Some s \<Rightarrow> Ok (sc_HasPTS s) | None \<Rightarrow> Panic)"

abbreviation sig_type :: "signal \<Rightarrow> SegDescType" where "sig_type d \<equiv> seg_TypeID (sig_desc d)"
abbreviation sig_event :: "signal \<Rightarrow> u32" where "sig_event d \<equiv> seg_EventID (sig_desc d)"

text \<open>The descriptors of a message refer to it.\<close>

definition message_signals :: "scte35 \<Rightarrow> signal list" where
  "message_signals s = map (\<lambda>d. \<lparr>sig_desc = d, sig_info = Some s\<rparr>) (sc_Descriptors s)"

definition CanClose :: "signal \<Rightarrow> signal option \<Rightarrow> bool res" where
  "CanClose d out =
     (case map_of segCloseRules (sig_type d) of
        None \<Rightarrow> Ok False
      | Some inRules \<Rightarrow>
          (case out of
             None \<Rightarrow> Panic
           | Some out \<Rightarrow>
               (case map_of inRules (sig_type out) of
                  None \<Rightarrow> Ok False
                | Some closeType \<Rightarrow>
                    (case closeType of
                       segCloseNormal \<Rightarrow> Ok True
                     | segCloseUnconditional \<Rightarrow> Ok True
                     | segCloseBreakaway \<Rightarrow> Ok True
                     | segCloseNoBreakaway \<Rightarrow> Ok True
                     | segCloseEventID \<Rightarrow> Ok (sig_event d = sig_event out)
                     | segCloseDiffPTS \<Rightarrow> res_bind (sig_PTS d) (\<lambda>p. res_bind (sig_PTS out) (\<lambda>q. Ok (p \<noteq> q)))
                     | segCloseEventIDNotNested \<Rightarrow>
                         Ok (seg_IsIn (sig_desc d) \<and> sig_event d = sig_event out \<and>
                             seg_SegmentNumber (sig_desc d) = seg_SegmentsExpected (sig_desc d))
                     | segCloseNotNested \<Rightarrow>
                         Ok (if seg_HasSubSegments (sig_desc d)
                             then seg_SubSegmentNumber (sig_desc d) = seg_SubSegmentsExpected (sig_desc d) else True)))))"

definition seg_Equal :: "signal \<Rightarrow> signal option \<Rightarrow> bool res" where
  "seg_Equal d c =
     (case c of
        None \<Rightarrow> Ok False
      | Some c \<Rightarrow>
          if sig_type d \<noteq> sig_type c then Ok False
          else res_bind (sig_HasPTS d) (\<lambda>hd. if \<not> hd then Ok False
          else res_bind (sig_HasPTS c) (\<lambda>hc. if \<not> hc then Ok False
          else res_bind (sig_PTS d) (\<lambda>pd. res_bind (sig_PTS c) (\<lambda>pc. if pd \<noteq> pc then Ok False
          else if sig_event d \<noteq> sig_event c then Ok False
          else let d = sig_desc d; c = sig_desc c
               in if seg_SegmentNumber d \<noteq> seg_SegmentNumber c then Ok False
                  else if seg_SegmentsExpected d \<noteq> seg_SegmentsExpected c then Ok False
                  else if seg_HasSubSegments d \<noteq> seg_HasSubSegments c then Ok False
                  else if seg_HasSubSegments d \<and> seg_HasSubSegments c \<and>
                    seg_SubSegmentNumber d \<noteq> seg_SubSegmentNumber c then Ok False
                  else if seg_HasSubSegments d \<and> seg_HasSubSegments c \<and>
                    seg_SubSegmentsExpected d \<noteq> seg_SubSegmentsExpected c then Ok False
                  else Ok True)))))"

section \<open>The state\<close>

definition receivedRingLen :: nat where "receivedRingLen = 10"

record receivedElem =
  re_pts :: PTS
  re_descs :: "signal list"

record state =
  st_arr :: "signal option list"
  st_len :: nat
  st_received :: "receivedElem option list"
  st_receivedHead :: nat
  st_blackoutIdx :: nat
  st_inBlackout :: bool

definition NewState :: state where
  "NewState = \<lparr>st_arr = [], st_len = 0, st_received = replicate receivedRingLen None, st_receivedHead = 0,
     st_blackoutIdx = 0, st_inBlackout = False\<rparr>"

abbreviation st_open :: "state \<Rightarrow> signal option list" where
  "st_open s \<equiv> take (st_len s) (st_arr s)"

text \<open>\<open>Open\<close> makes a copy whose capacity is its length.\<close>

definition Open :: "state \<Rightarrow> signal option list res" where
  "Open s =
     (let open' = st_open s
      in if st_inBlackout s then
           res_bind (slice open' 0 (st_blackoutIdx s)) (\<lambda>a.
           res_bind (slice_from open' (st_blackoutIdx s + 1)) (\<lambda>b. Ok (a @ b)))
         else Ok open')"

text \<open>\<^verbatim>\<open>s.open = append(s.open, desc)\<close> and \<^verbatim>\<open>s.open = s.open[0:n]\<close>.\<close>

definition open_append :: "state \<Rightarrow> signal \<Rightarrow> state" where
  "open_append s desc =
     (if st_len s < length (st_arr s) then s\<lparr>st_arr := (st_arr s)[st_len s := Some desc], st_len := st_len s + 1\<rparr>
      else s\<lparr>st_arr := st_arr s @ [Some desc], st_len := st_len s + 1\<rparr>)"

definition open_cut :: "state \<Rightarrow> nat \<Rightarrow> state res" where
  "open_cut s n = (if n \<le> length (st_arr s) then Ok (s\<lparr>st_len := n\<rparr>) else Panic)"

section \<open>ProcessDescriptor\<close>

text \<open>
  The search for a duplicate goes over the descriptors that an element had when the loop over it began, and
  adds the new one to the element once for each of them.  It stops at the first error; what was added
  until then stays.
\<close>

fun scan_descs ::
  "signal \<Rightarrow> PTS \<Rightarrow> receivedElem \<Rightarrow> bool \<Rightarrow> signal list \<Rightarrow> (receivedElem \<times> bool \<times> gots_error option) res" where
  "scan_descs desc pts e descAdded [] = Ok (e, descAdded, None)"
| "scan_descs desc pts e descAdded (d # ds) =
     res_bind (if re_pts e = pts then
         res_bind (seg_Equal desc (Some d)) (\<lambda>eq.
           if eq then Ok (e, descAdded, Some ErrSCTE35DuplicateDescriptor)
           else Ok (e\<lparr>re_descs := re_descs e @ [desc]\<rparr>, True, None))
       else Ok (e, descAdded, None)) (\<lambda>(e, descAdded, err).
     case err of
       Some x \<Rightarrow> Ok (e, descAdded, Some x)
     | None \<Rightarrow>
         if sig_event desc = sig_event d \<and> sig_type d = SegDescUnscheduledEventStart \<and>
            sig_type desc = SegDescUnscheduledEventStart then
           (case StreamSwitchSignalId (sig_desc desc) of
              Err x \<Rightarrow> Ok (e, descAdded, Some x)
            | Panic \<Rightarrow> Panic
            | Ok descId \<Rightarrow>
                (case StreamSwitchSignalId (sig_desc d) of
                   Err x \<Rightarrow> Ok (e, descAdded, Some x)
                 | Panic \<Rightarrow> Panic
                 | Ok dId \<Rightarrow> if descId = dId \<and> sig_event d = sig_event desc
                     then Ok (e, descAdded, Some ErrSCTE35DuplicateDescriptor)
                     else scan_descs desc pts e True ds))
         else scan_descs desc pts e descAdded ds)"

fun scan_received ::
  "signal \<Rightarrow> PTS \<Rightarrow> bool \<Rightarrow> receivedElem option list \<Rightarrow> (receivedElem option list \<times> bool \<times> gots_error option) res" where
  "scan_received desc pts descAdded [] = Ok ([], descAdded, None)"
| "scan_received desc pts descAdded (None # es) =
     res_bind (scan_received desc pts descAdded es) (\<lambda>(es, descAdded, err). Ok (None # es, descAdded, err))"
| "scan_received desc pts descAdded (Some e # es) =
     res_bind (scan_descs desc pts e descAdded (re_descs e)) (\<lambda>(e, descAdded, err).
     case err of
       Some x \<Rightarrow> Ok (Some e # es, descAdded, Some x)
     | None \<Rightarrow> res_bind (scan_received desc pts descAdded es) (\<lambda>(es, descAdded, err). Ok (Some e # es, descAdded, err)))"

text \<open>The loop from the top of the open descriptors; the list is reversed.\<close>

fun close_open :: "signal \<Rightarrow> signal option list \<Rightarrow> signal option list res" where
  "close_open desc [] = Ok []"
| "close_open desc (d # ds) =
     res_bind (CanClose desc d) (\<lambda>c.
       if c then res_bind (close_open desc ds) (\<lambda>closed. Ok (d # closed)) else Ok [])"

definition open_types :: "SegDescType list" where
  "open_types = [SegDescProgramStart, SegDescChapterStart, SegDescBreakStart, SegDescProviderAdvertisementStart,
     SegDescDistributorAdvertisementStart, SegDescProviderPOStart, SegDescDistributorPOStart,
     SegDescProviderAdBlockStart, SegDescUnscheduledEventStart, SegDescNetworkStart, SegDescProgramOverlapStart,
     SegDescProgramStartInProgress]"

definition in_types :: "SegDescType list" where
  "in_types = [SegDescChapterEnd, SegDescProviderAdvertisementEnd, SegDescProviderPOEnd,
     SegDescDistributorAdvertisementEnd, SegDescDistributorPOEnd, SegDescUnscheduledEventEnd, SegDescNetworkEnd]"

text \<open>\<^verbatim>\<open>openDesc.EventID() != desc.EventID()\<close>, where \<^verbatim>\<open>openDesc\<close> may be nil.\<close>

definition match_event :: "signal \<Rightarrow> signal option \<Rightarrow> gots_error option res" where
  "match_event desc openDesc =
     (case openDesc of
        None \<Rightarrow> Panic
      | Some o' \<Rightarrow> Ok (if sig_event o' \<noteq> sig_event desc then Some ErrSCTE35MissingOut else None))"

definition check_in :: "signal \<Rightarrow> signal option list \<Rightarrow> signal option list \<Rightarrow> gots_error option res" where
  "check_in desc closed open' =
     (if closed \<noteq> [] \<and> open' = [] then Ok None
      else if closed = [] then if open' = [] then Ok (Some ErrSCTE35MissingOut) else match_event desc (last open')
      else (case last closed of
          None \<Rightarrow> Panic
        | Some c \<Rightarrow>
            if sig_type c \<noteq> sig_type desc - 1 then
              if open' = [] then Ok (Some ErrSCTE35MissingOut) else match_event desc (last open')
            else match_event desc (Some c)))"

definition validate :: "state \<Rightarrow> signal \<Rightarrow> signal option list \<Rightarrow> (state \<times> gots_error option) res" where
  "validate s desc closed =
     (if sig_type desc = SegDescProgramBreakaway then
        Ok (open_append (s\<lparr>st_inBlackout := True, st_blackoutIdx := st_len s\<rparr>) desc, None)
      else if sig_type desc = SegDescProgramResumption then
        if st_inBlackout s then
          res_bind (open_cut (s\<lparr>st_inBlackout := False\<rparr>) (st_blackoutIdx s)) (\<lambda>s. Ok (open_append s desc, None))
        else Ok (open_append s desc, Some ErrSCTE35InvalidDescriptor)
      else if sig_type desc \<in> set open_types then Ok (open_append s desc, None)
      else if sig_type desc = SegDescProgramEnd then
        Ok (s, if closed = [] then Some ErrSCTE35MissingOut else None)
      else if sig_type desc \<in> set in_types then
        res_bind (check_in desc closed (st_open s)) (\<lambda>err. Ok (s, err))
      else Ok (s, None))"

definition add_received :: "state \<Rightarrow> signal \<Rightarrow> PTS \<Rightarrow> state" where
  "add_received s desc pts =
     s\<lparr>st_received := (st_received s)[st_receivedHead s := Some \<lparr>re_pts = pts, re_descs = [desc]\<rparr>],
       st_receivedHead := (st_receivedHead s + 1) mod receivedRingLen\<rparr>"

definition close_and_validate :: "state \<Rightarrow> signal \<Rightarrow> (state \<times> signal option list \<times> gots_error option) res" where
  "close_and_validate s desc =
     res_bind (close_open desc (rev (st_open s))) (\<lambda>closed.
     res_bind (validate (s\<lparr>st_len := st_len s - length closed\<rparr>) desc closed) (\<lambda>(s, err). Ok (s, closed, err)))"

text \<open>The new state, the descriptors closed, and the error.\<close>

definition ProcessDescriptor :: "state \<Rightarrow> signal \<Rightarrow> (state \<times> signal option list \<times> gots_error option) res" where
  "ProcessDescriptor s desc =
     res_bind (sig_HasPTS desc) (\<lambda>hp.
       if \<not> hp then Ok (s, [], Some ErrSCTE35UnsupportedSpliceCommand)
       else res_bind (sig_PTS desc) (\<lambda>pts.
            res_bind (scan_received desc pts False (st_received s)) (\<lambda>(received, descAdded, err).
              let s = s\<lparr>st_received := received\<rparr>
              in case err of
                   Some x \<Rightarrow> Ok (s, [], Some x)
                 | None \<Rightarrow> close_and_validate (if \<not> descAdded then add_received s desc pts else s) desc)))"

section \<open>Close\<close>

fun find_open :: "signal \<Rightarrow> signal option list \<Rightarrow> nat option res" where
  "find_open desc [] = Ok None"
| "find_open desc (d # ds) =
     res_bind (seg_Equal desc d) (\<lambda>eq. if eq then Ok (Some (length ds)) else find_open desc ds)"

definition Close :: "state \<Rightarrow> signal \<Rightarrow> (state \<times> signal option list \<times> gots_error option) res" where
  "Close s desc =
     res_bind (find_open desc (rev (st_open s))) (\<lambda>i.
       case i of
         None \<Rightarrow> Ok (s, [], Some ErrSCTE35DescriptorNotFound)
       | Some i \<Rightarrow>
           let d = st_arr s ! i; n = st_len s
           in Ok (s\<lparr>st_arr := take i (st_arr s) @ take (n - 1 - i) (drop (i + 1) (st_arr s)) @ [None] @ drop n (st_arr s),
                    st_len := n - 1\<rparr>, [d], None))"

section \<open>The parts of a call\<close>

lemma close_open_split:
  "close_open desc ds = Ok cs \<Longrightarrow> \<exists>rest. ds = cs @ rest \<and> (\<forall>d \<in> set cs. CanClose desc d = Ok True) \<and>
    (rest \<noteq> [] \<longrightarrow> CanClose desc (hd rest) = Ok False)"
proof (induction ds arbitrary: cs)
  case (Cons d ds)
  then obtain c where c: "CanClose desc d = Ok c" by auto
  show ?case
  proof (cases c)
    case True
    with Cons.prems c obtain cs' where "close_open desc ds = Ok cs'" "cs = d # cs'" by auto
    with Cons.IH [of cs'] c True show ?thesis by auto
  next
    case False
    with Cons.prems c show ?thesis by auto
  qed
qed simp

lemma closed_split:
  assumes "close_open desc (rev xs) = Ok closed"
  shows "\<exists>kept. xs = kept @ rev closed \<and> (\<forall>d \<in> set closed. CanClose desc d = Ok True) \<and>
    (kept \<noteq> [] \<longrightarrow> CanClose desc (last kept) = Ok False)"
proof -
  from close_open_split [OF assms] obtain rest where r: "rev xs = closed @ rest"
    "\<forall>d \<in> set closed. CanClose desc d = Ok True" "rest \<noteq> [] \<longrightarrow> CanClose desc (hd rest) = Ok False" by blast
  from r(1) have "xs = rev rest @ rev closed" by (metis rev_append rev_rev_ident)
  with r(2,3) show ?thesis by (intro exI [of _ "rev rest"]) (simp add: last_rev)
qed

lemma find_open_split:
  "find_open desc ds = Ok (Some i) \<Longrightarrow> \<exists>pre d post. ds = pre @ d # post \<and> length post = i \<and>
    seg_Equal desc d = Ok True \<and> (\<forall>x \<in> set pre. seg_Equal desc x = Ok False)"
proof (induction ds)
  case (Cons d ds)
  then obtain eq where eq: "seg_Equal desc d = Ok eq" by auto
  show ?case
  proof (cases eq)
    case True
    with Cons.prems eq show ?thesis by (intro exI [of _ "[]"] exI [of _ d] exI [of _ ds]) simp
  next
    case False
    with Cons.prems eq have "find_open desc ds = Ok (Some i)" by simp
    from Cons.IH [OF this] obtain pre x post where "ds = pre @ x # post" "length post = i" "seg_Equal desc x = Ok True"
      "\<forall>x \<in> set pre. seg_Equal desc x = Ok False" by blast
    with eq False show ?thesis by (intro exI [of _ "d # pre"] exI [of _ x] exI [of _ post]) simp
  qed
qed simp

lemma find_open_None: "find_open desc ds = Ok None \<Longrightarrow> \<forall>d \<in> set ds. seg_Equal desc d = Ok False"
  by (induction ds) (auto split: if_splits)

lemma st_open_append: "st_len s \<le> length (st_arr s) \<Longrightarrow> st_open (open_append s d) = st_open s @ [Some d]"
  by (auto simp: open_append_def take_Suc_conv_app_nth)

lemma open_append_wf:
  "st_len s \<le> length (st_arr s) \<Longrightarrow> st_len (open_append s d) \<le> length (st_arr (open_append s d))"
  "length (st_arr s) \<le> length (st_arr (open_append s d))"
  "set (st_arr (open_append s d)) \<subseteq> insert (Some d) (set (st_arr s))"
  "st_received (open_append s d) = st_received s" "st_receivedHead (open_append s d) = st_receivedHead s"
  "st_inBlackout (open_append s d) = st_inBlackout s" "st_blackoutIdx (open_append s d) = st_blackoutIdx s"
  using set_update_subset_insert [of "st_arr s" "st_len s" "Some d"] by (auto simp: open_append_def)

lemma breakaway_resumption: "SegDescProgramBreakaway \<noteq> SegDescProgramResumption"
  by (simp add: SegDescProgramBreakaway_def SegDescProgramResumption_def)

lemma removed_middle:
  assumes "take n xs = lo @ d # hi" "n \<le> length xs"
  shows "take (length lo) xs @ take (n - 1 - length lo) (drop (length lo + 1) xs) @ [y] @ drop n xs =
    lo @ hi @ [y] @ drop n xs"
proof -
  have n: "n = length lo + 1 + length hi" using arg_cong [OF assms(1), of length] assms(2) by simp
  have xs: "xs = lo @ d # hi @ drop n xs" by (metis append_take_drop_id assms(1) append_assoc append_Cons)
  show ?thesis by (subst (1 2) xs) (simp add: n)
qed

section \<open>Properties of single calls\<close>

text \<open>\<open>Close\<close> takes out the topmost open descriptor that equals the given one and returns it, and leaves the
  others in their order; without one the state does not change and the error says so.\<close>

theorem Close_spec:
  assumes "st_len s \<le> length (st_arr s)" "Close s desc = Ok (s', closed, err)"
  shows "(\<exists>lo d hi. st_open s = lo @ d # hi \<and> seg_Equal desc d = Ok True \<and>
        (\<forall>x \<in> set hi. seg_Equal desc x = Ok False) \<and> closed = [d] \<and> err = None \<and> st_open s' = lo @ hi \<and>
        st_received s' = st_received s) \<or>
    ((\<forall>x \<in> set (st_open s). seg_Equal desc x = Ok False) \<and> s' = s \<and> closed = [] \<and> err = Some ErrSCTE35DescriptorNotFound)"
proof -
  from assms(2) obtain i where i: "find_open desc (rev (st_open s)) = Ok i" by (auto simp: Close_def)
  show ?thesis
  proof (cases i)
    case None
    with i assms(2) find_open_None [of desc "rev (st_open s)"] show ?thesis by (simp add: Close_def)
  next
    case (Some k)
    from find_open_split [OF i [unfolded Some]] obtain pre d post where
      sp: "rev (st_open s) = pre @ d # post" "length post = k" "seg_Equal desc d = Ok True" "\<forall>x \<in> set pre. seg_Equal desc x = Ok False"
      by blast
    then have o': "st_open s = rev post @ d # rev pre" by (metis append.assoc append_Cons append_Nil rev.simps(2) rev_append rev_rev_ident)
    have k: "k = length (rev post)" using sp(2) by simp
    have n: "st_len s = length post + 1 + length pre" using arg_cong [OF o', of length] assms(1) by simp
    have d: "st_arr s ! k = d"
      using arg_cong [OF o', of "\<lambda>l. l ! k"] sp(2) n by (simp add: nth_append)
    note rm = removed_middle [OF o' assms(1), of None, folded k]
    have "s' = s\<lparr>st_arr := rev post @ rev pre @ [None] @ drop (st_len s) (st_arr s), st_len := st_len s - 1\<rparr>"
      "closed = [d]" "err = None"
      using assms(2) unfolding Close_def i Some res_bind.simps option.case Let_def rm d by simp_all
    then show ?thesis using o' sp n by (intro disjI1 exI [of _ "rev post"] exI [of _ d] exI [of _ "rev pre"]) simp
  qed
qed

lemma close_and_validate_open:
  assumes "st_len s \<le> length (st_arr s)" "close_and_validate s desc = Ok (s', closed, err)"
  shows "\<exists>kept. st_open s = kept @ rev closed \<and> (\<forall>d \<in> set closed. CanClose desc d = Ok True) \<and>
    (kept \<noteq> [] \<longrightarrow> CanClose desc (last kept) = Ok False) \<and>
    st_open s' =
      (if sig_type desc = SegDescProgramResumption \<and> st_inBlackout s
       then take (st_blackoutIdx s) (st_arr s) @ [Some desc]
       else if sig_type desc \<in> {SegDescProgramBreakaway, SegDescProgramResumption} \<union> set open_types
       then kept @ [Some desc] else kept)"
proof -
  from assms(2) obtain cl where cl: "close_open desc (rev (st_open s)) = Ok cl"
    "validate (s\<lparr>st_len := st_len s - length cl\<rparr>) desc cl = Ok (s', err)" "closed = cl"
    by (auto simp: close_and_validate_def)
  from closed_split [OF cl(1)] cl(3) obtain kept where kept: "st_open s = kept @ rev closed"
    "\<forall>d \<in> set closed. CanClose desc d = Ok True" "kept \<noteq> [] \<longrightarrow> CanClose desc (last kept) = Ok False" by blast
  let ?s2 = "s\<lparr>st_len := st_len s - length cl\<rparr>"
  have len: "st_len s = length kept + length closed" using arg_cong [OF kept(1), of length] assms(1) by simp
  have "take (length kept) (st_arr s) = take (length kept) (st_open s)" using len by (simp add: min_def)
  also have "\<dots> = kept" unfolding kept(1) by simp
  finally have o2: "st_open ?s2 = kept" "st_len ?s2 \<le> length (st_arr ?s2)" using len assms(1) cl(3) by simp_all
  have v: "st_open s' = (if sig_type desc = SegDescProgramResumption \<and> st_inBlackout s
     then take (st_blackoutIdx s) (st_arr s) @ [Some desc]
     else if sig_type desc \<in> {SegDescProgramBreakaway, SegDescProgramResumption} \<union> set open_types
     then kept @ [Some desc] else kept)"
    using cl(2) o2 breakaway_resumption unfolding validate_def
    by (auto simp: open_cut_def st_open_append split: if_splits)
  with kept show ?thesis by blast
qed

text \<open>C12: \<open>ProcessDescriptor\<close> either stops early, with an error, nothing closed and the same
  descriptors open, or closes the longest run from the top of what the new descriptor can close, returns it from the
  top down, and then puts an out descriptor or a breakaway on top. A resumption in a blackout first cuts the slice
  back to where the blackout began.\<close>

theorem ProcessDescriptor_open:
  assumes "st_len s \<le> length (st_arr s)" "ProcessDescriptor s desc = Ok (s', closed, err)"
  shows "(closed = [] \<and> err \<noteq> None \<and> st_open s' = st_open s \<and> st_inBlackout s' = st_inBlackout s) \<or>
    (\<exists>kept. st_open s = kept @ rev closed \<and> (\<forall>d \<in> set closed. CanClose desc d = Ok True) \<and>
      (kept \<noteq> [] \<longrightarrow> CanClose desc (last kept) = Ok False) \<and>
      st_open s' =
        (if sig_type desc = SegDescProgramResumption \<and> st_inBlackout s
         then take (st_blackoutIdx s) (st_arr s) @ [Some desc]
         else if sig_type desc \<in> {SegDescProgramBreakaway, SegDescProgramResumption} \<union> set open_types
         then kept @ [Some desc] else kept))"
proof -
  from assms(2) obtain hp where hp: "sig_HasPTS desc = Ok hp" by (auto simp: ProcessDescriptor_def)
  show ?thesis
  proof (cases hp)
    case False
    with hp assms(2) have "closed = []" "err \<noteq> None" "s' = s" by (auto simp: ProcessDescriptor_def)
    then show ?thesis by blast
  next
    case True
    from assms(2) hp True obtain pts rc added e where
      p: "sig_PTS desc = Ok pts" "scan_received desc pts False (st_received s) = Ok (rc, added, e)"
      by (auto simp: ProcessDescriptor_def)
    show ?thesis
    proof (cases e)
      case (Some x)
      with hp True p assms(2) have "closed = []" "err = Some x" "s' = s\<lparr>st_received := rc\<rparr>"
        by (auto simp: ProcessDescriptor_def)
      then show ?thesis by simp
    next
      case None
      define s1 where "s1 = (if \<not> added then add_received (s\<lparr>st_received := rc\<rparr>) desc pts else s\<lparr>st_received := rc\<rparr>)"
      have s1: "st_arr s1 = st_arr s" "st_len s1 = st_len s" "st_inBlackout s1 = st_inBlackout s"
        "st_blackoutIdx s1 = st_blackoutIdx s" by (simp_all add: s1_def add_received_def)
      have cv: "close_and_validate s1 desc = Ok (s', closed, err)"
        using hp True p None assms(2) by (simp add: ProcessDescriptor_def s1_def Let_def)
      have "st_len s1 \<le> length (st_arr s1)" using assms(1) s1 by simp
      from close_and_validate_open [OF this cv] s1 show ?thesis by auto
    qed
  qed
qed

section \<open>Reachable states\<close>

datatype event = Process signal | CloseOne signal

inductive step :: "state \<Rightarrow> event \<Rightarrow> state \<Rightarrow> bool" where
  process: "ProcessDescriptor s d = Ok (s', closed, err) \<Longrightarrow> step s (Process d) s'"
| close: "Close s d = Ok (s', closed, err) \<Longrightarrow> step s (CloseOne d) s'"

inductive reachable :: "state \<Rightarrow> bool" where
  init: "reachable NewState"
| step: "reachable s \<Longrightarrow> step s e s' \<Longrightarrow> reachable s'"

inductive_cases stepE: "step s e s'"

definition has_pts :: "signal \<Rightarrow> bool" where
  "has_pts d \<longleftrightarrow> sig_HasPTS d = Ok True"

definition openable :: "signal \<Rightarrow> bool" where
  "openable d \<longleftrightarrow> has_pts d \<and> sig_type d \<in> {SegDescProgramBreakaway, SegDescProgramResumption} \<union> set open_types"

definition elem_ok :: "receivedElem \<Rightarrow> bool" where
  "elem_ok e \<longleftrightarrow> re_descs e \<noteq> [] \<and> (\<forall>d \<in> set (re_descs e). has_pts d \<and> sig_PTS d = Ok (re_pts e))"

definition state_inv :: "state \<Rightarrow> bool" where
  "state_inv s \<longleftrightarrow> st_len s \<le> length (st_arr s) \<and>
     (st_inBlackout s \<longrightarrow> st_blackoutIdx s \<le> length (st_arr s)) \<and> (\<forall>d. Some d \<in> set (st_arr s) \<longrightarrow> openable d) \<and>
     length (st_received s) = receivedRingLen \<and> st_receivedHead s < receivedRingLen \<and>
     (\<forall>e. Some e \<in> set (st_received s) \<longrightarrow> elem_ok e)"

lemma scan_descs_ok:
  assumes "has_pts desc" "sig_PTS desc = Ok pts"
  shows "elem_ok e \<Longrightarrow> scan_descs desc pts e added ds = Ok (e', added', err) \<Longrightarrow> elem_ok e'"
proof (induction ds arbitrary: e added)
  case (Cons d ds)
  from Cons.prems(2) obtain e1 a1 er where 1: "(if re_pts e = pts then
         res_bind (seg_Equal desc (Some d)) (\<lambda>eq.
           if eq then Ok (e, added, Some ErrSCTE35DuplicateDescriptor)
           else Ok (e\<lparr>re_descs := re_descs e @ [desc]\<rparr>, True, None))
       else Ok (e, added, None)) = Ok (e1, a1, er)" by auto
  then have "elem_ok e1" using Cons.prems(1) assms by (auto simp: elem_ok_def split: if_splits)
  moreover have "e' = e1 \<or> (\<exists>a. scan_descs desc pts e1 a ds = Ok (e', added', err))"
    using Cons.prems(2) 1 by (auto split: option.splits if_splits res.splits)
  ultimately show ?case using Cons.IH by blast
qed simp

lemma scan_received_ok:
  assumes "has_pts desc" "sig_PTS desc = Ok pts"
  shows "\<forall>e. Some e \<in> set es \<longrightarrow> elem_ok e \<Longrightarrow> scan_received desc pts added es = Ok (es', added', err) \<Longrightarrow>
    length es' = length es \<and> (\<forall>e. Some e \<in> set es' \<longrightarrow> elem_ok e)"
proof (induction es arbitrary: added es')
  case (Cons x es)
  show ?case
  proof (cases x)
    case None
    with Cons.prems(2) obtain es1 where "scan_received desc pts added es = Ok (es1, added', err)" "es' = None # es1" by auto
    with Cons.IH [of added es1] Cons.prems(1) show ?thesis by auto
  next
    case (Some e)
    with Cons.prems(2) obtain e1 a1 er where 1: "scan_descs desc pts e added (re_descs e) = Ok (e1, a1, er)" by auto
    have e1: "elem_ok e1" by (rule scan_descs_ok [OF assms _ 1]) (use Cons.prems(1) Some in simp)
    show ?thesis
    proof (cases er)
      case None
      with Cons.prems(2) Some 1 obtain es1 where "scan_received desc pts a1 es = Ok (es1, added', err)" "es' = Some e1 # es1"
        by auto
      with Cons.IH [of a1 es1] Cons.prems(1) e1 show ?thesis by auto
    next
      case (Some y)
      with Cons.prems \<open>x = Some e\<close> 1 e1 show ?thesis by auto
    qed
  qed
qed simp

lemma open_append_inv: "state_inv s \<Longrightarrow> openable d \<Longrightarrow> state_inv (open_append s d)"
  using open_append_wf [of s d] unfolding state_inv_def by fastforce

lemma close_and_validate_inv:
  assumes "state_inv s" "has_pts desc" "close_and_validate s desc = Ok (s', closed, err)"
  shows "state_inv s'"
proof -
  from assms(3) obtain cl where v: "validate (s\<lparr>st_len := st_len s - length cl\<rparr>) desc cl = Ok (s', err)"
    by (auto simp: close_and_validate_def)
  let ?s = "s\<lparr>st_len := st_len s - length cl\<rparr>"
  have i: "state_inv ?s" using assms(1) by (auto simp: state_inv_def)
  have b: "state_inv (?s\<lparr>st_inBlackout := True, st_blackoutIdx := st_len ?s\<rparr>)" using i by (auto simp: state_inv_def)
  have r: "state_inv s2" if "open_cut (?s\<lparr>st_inBlackout := False\<rparr>) (st_blackoutIdx ?s) = Ok s2" for s2
    using that i by (auto simp: state_inv_def open_cut_def split: if_splits)
  have o': "openable desc" if "sig_type desc \<in> {SegDescProgramBreakaway, SegDescProgramResumption} \<union> set open_types"
    using that assms(2) by (simp add: openable_def)
  show ?thesis
    using v i b r o' open_append_inv unfolding validate_def by (auto split: if_splits)
qed

lemma ProcessDescriptor_inv:
  assumes "state_inv s" "ProcessDescriptor s desc = Ok (s', closed, err)"
  shows "state_inv s'"
proof (cases "sig_HasPTS desc = Ok True")
  case False
  with assms show ?thesis by (auto simp: ProcessDescriptor_def split: if_splits)
next
  case True
  with assms(2) obtain pts rc added e where
    p: "sig_PTS desc = Ok pts" "scan_received desc pts False (st_received s) = Ok (rc, added, e)"
    by (auto simp: ProcessDescriptor_def)
  have h: "has_pts desc" using True by (simp add: has_pts_def)
  from scan_received_ok [OF h p(1) _ p(2)] assms(1)
  have rc: "length rc = receivedRingLen" "\<forall>e. Some e \<in> set rc \<longrightarrow> elem_ok e" by (simp_all add: state_inv_def)
  then have i: "state_inv (s\<lparr>st_received := rc\<rparr>)" using assms(1) by (simp add: state_inv_def)
  have a: "state_inv (add_received (s\<lparr>st_received := rc\<rparr>) desc pts)"
    using i h p(1) set_update_subset_insert [of rc "st_receivedHead s" "Some \<lparr>re_pts = pts, re_descs = [desc]\<rparr>"]
    by (auto simp: state_inv_def add_received_def elem_ok_def receivedRingLen_def)
  show ?thesis
    using assms(2) True p i close_and_validate_inv [OF i h] close_and_validate_inv [OF a h]
    by (auto simp: ProcessDescriptor_def Let_def split: option.splits if_splits)
qed

lemma Close_inv:
  assumes "state_inv s" "Close s desc = Ok (s', closed, err)"
  shows "state_inv s'"
proof -
  from assms(2) obtain i where i: "find_open desc (rev (st_open s)) = Ok i" by (auto simp: Close_def)
  show ?thesis
  proof (cases i)
    case None
    with i assms show ?thesis by (simp add: Close_def)
  next
    case (Some k)
    from find_open_split [OF i [unfolded Some]] obtain pre d post where
      r: "rev (st_open s) = pre @ d # post" "length post = k" by blast
    have "length (st_open s) = length pre + 1 + k" using arg_cong [OF r(1), of length] r(2) by simp
    then have k: "k < st_len s" "st_len s \<le> length (st_arr s)" using assms(1) by (simp_all add: state_inv_def)
    define A where "A = take k (st_arr s) @ take (st_len s - 1 - k) (drop (k + 1) (st_arr s)) @ [None] @ drop (st_len s) (st_arr s)"
    have l: "length A = length (st_arr s)" using k by (simp add: A_def)
    have m: "Some d \<in> set (st_arr s)" if "Some d \<in> set A" for d
      using that unfolding A_def by (auto dest: in_set_takeD in_set_dropD)
    have "s' = s\<lparr>st_arr := A, st_len := st_len s - 1\<rparr>" using assms(2) i Some by (simp add: Close_def Let_def A_def)
    then show ?thesis using assms(1) l m by (auto simp: state_inv_def)
  qed
qed

lemma reachable_state_inv:
  assumes "reachable s"
  shows "state_inv s"
  using assms
proof induction
  case init
  show ?case by (simp add: state_inv_def NewState_def receivedRingLen_def)
next
  case (step s e s')
  from step.hyps(2) step.IH show ?case by (auto elim!: stepE dest: ProcessDescriptor_inv Close_inv)
qed

section \<open>The ring of received descriptors\<close>

lemma has_ptsE:
  assumes "has_pts d"
  obtains m where "sig_info d = Some m" "sc_HasPTS m" "sig_PTS d = Ok (sc_PTS m)" "sig_HasPTS d = Ok True"
  using assms by (cases "sig_info d") (auto simp: has_pts_def sig_HasPTS_def sig_PTS_def SCTE35_def)

lemma seg_Equal_refl: "has_pts d \<Longrightarrow> seg_Equal d (Some d) = Ok True"
  by (erule has_ptsE) (simp add: seg_Equal_def Let_def)

lemma seg_Equal_total: "has_pts a \<Longrightarrow> has_pts b \<Longrightarrow> \<exists>v. seg_Equal a (Some b) = Ok v"
  by (elim has_ptsE) (simp add: seg_Equal_def Let_def ex_bool_eq)

lemma seg_Equal_key:
  assumes "has_pts a" "has_pts b" "(sig_type a, sig_event a) \<noteq> (sig_type b, sig_event b)"
  shows "seg_Equal a (Some b) = Ok False"
  using assms by (elim has_ptsE) (auto simp: seg_Equal_def)

definition duplicate_in :: "signal \<Rightarrow> PTS \<Rightarrow> receivedElem \<Rightarrow> bool" where
  "duplicate_in desc pts e \<longleftrightarrow> re_pts e = pts \<and> (\<exists>d \<in> set (re_descs e). seg_Equal desc (Some d) = Ok True)"

definition ring_duplicate :: "signal \<Rightarrow> PTS \<Rightarrow> receivedElem option list \<Rightarrow> bool" where
  "ring_duplicate desc pts es \<longleftrightarrow> (\<exists>e. Some e \<in> set es \<and> duplicate_in desc pts e)"

definition filed :: "PTS \<Rightarrow> receivedElem option list \<Rightarrow> bool" where
  "filed pts es \<longleftrightarrow> (\<exists>e. Some e \<in> set es \<and> re_pts e = pts)"

lemma ring_simps [simp]:
  "\<not> ring_duplicate desc pts []" "ring_duplicate desc pts (None # es) = ring_duplicate desc pts es"
  "ring_duplicate desc pts (Some e # es) \<longleftrightarrow> duplicate_in desc pts e \<or> ring_duplicate desc pts es"
  "\<not> filed pts []" "filed pts (None # es) = filed pts es" "filed pts (Some e # es) \<longleftrightarrow> re_pts e = pts \<or> filed pts es"
  "\<not> ring_duplicate desc pts (replicate n None)" "\<not> filed pts (replicate n None)"
  by (auto simp: ring_duplicate_def filed_def)

definition doubled :: "signal \<Rightarrow> PTS \<Rightarrow> receivedElem \<Rightarrow> receivedElem" where
  "doubled desc pts e =
     (if re_pts e = pts then e\<lparr>re_descs := re_descs e @ replicate (length (re_descs e)) desc\<rparr> else e)"

lemma scan_descs_spec:
  assumes "has_pts desc" "sig_type desc \<noteq> SegDescUnscheduledEventStart" "\<forall>d \<in> set ds. has_pts d"
  shows "(re_pts e \<noteq> pts \<longrightarrow> scan_descs desc pts e added ds = Ok (e, added, None)) \<and>
    (re_pts e = pts \<longrightarrow>
      (if \<exists>d \<in> set ds. seg_Equal desc (Some d) = Ok True
       then \<exists>e' a. scan_descs desc pts e added ds = Ok (e', a, Some ErrSCTE35DuplicateDescriptor)
       else scan_descs desc pts e added ds =
         Ok (e\<lparr>re_descs := re_descs e @ replicate (length ds) desc\<rparr>, added \<or> ds \<noteq> [], None)))"
  using assms(3)
proof (induction ds arbitrary: e added)
  case (Cons d ds)
  from seg_Equal_total [OF assms(1), of d] Cons.prems obtain v where v: "seg_Equal desc (Some d) = Ok v" by auto
  have ih: "\<forall>d \<in> set ds. has_pts d" using Cons.prems by simp
  let ?e = "e\<lparr>re_descs := re_descs e @ [desc]\<rparr>"
  show ?case using Cons.IH [OF ih, of e added] Cons.IH [OF ih, of ?e True] v assms(2)
    by (cases v) (auto simp: replicate_app_Cons_same)
qed simp

lemma scan_received_spec:
  assumes "has_pts desc" "sig_type desc \<noteq> SegDescUnscheduledEventStart" "\<forall>e. Some e \<in> set es \<longrightarrow> elem_ok e"
  shows "if ring_duplicate desc pts es
    then \<exists>es' a. scan_received desc pts added es = Ok (es', a, Some ErrSCTE35DuplicateDescriptor)
    else scan_received desc pts added es =
      Ok (map (map_option (doubled desc pts)) es, added \<or> filed pts es, None)"
  using assms(3)
proof (induction es arbitrary: added)
  case (Cons x es)
  show ?case
  proof (cases x)
    case None
    with Cons.IH [of added] Cons.prems show ?thesis by (auto split: if_splits)
  next
    case (Some e)
    with Cons.prems have e: "elem_ok e" "\<forall>d \<in> set (re_descs e). has_pts d" by (auto simp: elem_ok_def)
    note sp = scan_descs_spec [OF assms(1,2) e(2), of e pts added]
    show ?thesis
    proof (cases "duplicate_in desc pts e")
      case True
      with sp obtain e' a where "scan_descs desc pts e added (re_descs e) = Ok (e', a, Some ErrSCTE35DuplicateDescriptor)"
        by (auto simp: duplicate_in_def)
      with Some True show ?thesis by auto
    next
      case False
      then have s: "scan_descs desc pts e added (re_descs e) = Ok (doubled desc pts e, added \<or> re_pts e = pts, None)"
        using sp e(1) by (auto simp: duplicate_in_def doubled_def elem_ok_def)
      have "\<forall>e. Some e \<in> set es \<longrightarrow> elem_ok e" using Cons.prems by simp
      from Cons.IH [OF this, of "added \<or> re_pts e = pts"] s Some False show ?thesis by (auto split: if_splits)
    qed
  qed
qed simp

lemma close_and_validate_received:
  "close_and_validate s desc = Ok (s', closed, err) \<Longrightarrow>
   st_received s' = st_received s \<and> err \<notin> {Some ErrSCTE35DuplicateDescriptor, Some ErrVSSSignalIdNotFound}"
  by (auto simp: close_and_validate_def validate_def open_append_def open_cut_def check_in_def match_event_def
      split: if_splits option.splits)

text \<open>What \<open>ProcessDescriptor\<close> does for descriptors other than the start of an unscheduled event.\<close>

lemma ProcessDescriptor_cases:
  assumes "state_inv s" "has_pts desc" "sig_PTS desc = Ok pts" "sig_type desc \<noteq> SegDescUnscheduledEventStart"
  shows "if ring_duplicate desc pts (st_received s)
    then \<exists>rc. ProcessDescriptor s desc = Ok (s\<lparr>st_received := rc\<rparr>, [], Some ErrSCTE35DuplicateDescriptor)
    else ProcessDescriptor s desc =
      (let s1 = s\<lparr>st_received := map (map_option (doubled desc pts)) (st_received s)\<rparr>
       in close_and_validate (if filed pts (st_received s) then s1 else add_received s1 desc pts) desc)"
proof -
  have ok: "\<forall>e. Some e \<in> set (st_received s) \<longrightarrow> elem_ok e" using assms(1) by (simp add: state_inv_def)
  note sp = scan_received_spec [OF assms(2,4) ok, of pts False]
  show ?thesis
  proof (cases "ring_duplicate desc pts (st_received s)")
    case True
    with sp obtain es' a where "scan_received desc pts False (st_received s) = Ok (es', a, Some ErrSCTE35DuplicateDescriptor)"
      by auto
    with assms(2,3) have "ProcessDescriptor s desc = Ok (s\<lparr>st_received := es'\<rparr>, [], Some ErrSCTE35DuplicateDescriptor)"
      by (simp add: ProcessDescriptor_def has_pts_def Let_def)
    with True show ?thesis by auto
  next
    case False
    with sp assms(2,3) show ?thesis by (simp add: ProcessDescriptor_def has_pts_def Let_def)
  qed
qed

text \<open>A descriptor that was processed is in the ring afterwards, and is refused when it comes again at once.\<close>

lemma refused_at_once:
  assumes "reachable s" "ProcessDescriptor s desc = Ok (s', closed, err)"
    and "err \<notin> {Some ErrSCTE35UnsupportedSpliceCommand, Some ErrSCTE35DuplicateDescriptor}"
    and "sig_type desc \<noteq> SegDescUnscheduledEventStart"
  shows "\<exists>s''. ProcessDescriptor s' desc = Ok (s'', [], Some ErrSCTE35DuplicateDescriptor) \<and>
    st_open s'' = st_open s' \<and> st_inBlackout s'' = st_inBlackout s' \<and> st_blackoutIdx s'' = st_blackoutIdx s'"
proof -
  note i = reachable_state_inv [OF assms(1)]
  have i': "state_inv s'" by (rule ProcessDescriptor_inv [OF i assms(2)])
  have h: "has_pts desc"
    using assms(2,3) by (auto simp: ProcessDescriptor_def has_pts_def split: if_splits)
  then obtain pts where p: "sig_PTS desc = Ok pts" by (auto elim: has_ptsE)
  let ?r = "map (map_option (doubled desc pts)) (st_received s)"
  let ?s = "s\<lparr>st_received := ?r\<rparr>"
  let ?t = "if filed pts (st_received s) then ?s else add_received ?s desc pts"
  from ProcessDescriptor_cases [OF i h p assms(4)] assms(2,3) have cv: "close_and_validate ?t desc = Ok (s', closed, err)"
    by (auto simp: Let_def split: if_splits)
  have "ring_duplicate desc pts (st_received ?t)"
  proof (cases "filed pts (st_received s)")
    case True
    then obtain e where e: "Some e \<in> set (st_received s)" "re_pts e = pts" by (auto simp: filed_def)
    then have "re_descs e \<noteq> []" using i by (auto simp: state_inv_def elem_ok_def)
    with e seg_Equal_refl [OF h] have "duplicate_in desc pts (doubled desc pts e)" by (auto simp: duplicate_in_def doubled_def)
    moreover have "Some (doubled desc pts e) \<in> set ?r" using e(1) by force
    ultimately show ?thesis using True by (auto simp: ring_duplicate_def)
  next
    case False
    have "st_receivedHead s < length ?r" using i by (simp add: state_inv_def)
    then have "Some \<lparr>re_pts = pts, re_descs = [desc]\<rparr> \<in> set (st_received ?t)"
      using False by (simp add: add_received_def set_update_memI)
    moreover have "duplicate_in desc pts \<lparr>re_pts = pts, re_descs = [desc]\<rparr>"
      using seg_Equal_refl [OF h] by (simp add: duplicate_in_def)
    ultimately show ?thesis by (auto simp: ring_duplicate_def)
  qed
  then have "ring_duplicate desc pts (st_received s')"
    using close_and_validate_received [OF cv] by simp
  with ProcessDescriptor_cases [OF i' h p assms(4)] show ?thesis by auto
qed

section \<open>Runs\<close>

fun run :: "state \<Rightarrow> signal list \<Rightarrow> state res" where
  "run s [] = Ok s"
| "run s (d # ds) = res_bind (ProcessDescriptor s d) (\<lambda>(s, closed, err). run s ds)"

lemma run_append: "run s (ds @ es) = res_bind (run s ds) (\<lambda>s. run s es)"
proof (induction ds arbitrary: s)
  case (Cons d ds)
  then show ?case by (cases "ProcessDescriptor s d") auto
qed simp

lemma run_reachable: "reachable s \<Longrightarrow> run s ds = Ok s' \<Longrightarrow> reachable s'"
proof (induction ds arbitrary: s)
  case (Cons d ds)
  then obtain s1 c e where "ProcessDescriptor s d = Ok (s1, c, e)" "run s1 ds = Ok s'" by auto
  with Cons show ?case using reachable.step [OF Cons.prems(1) step.process] by blast
qed simp

text \<open>Descriptors of one time that are not duplicates of one another are filed exponentially often: each one
  is added once for every entry that is there already, so that \<open>n\<close> of them leave \<open>2 ^ (n - 1)\<close> entries.\<close>

theorem received_doubles:
  assumes "ds \<noteq> []" "run NewState ds = Ok s" "distinct (map (\<lambda>d. (sig_type d, sig_event d)) ds)"
    and "\<forall>d \<in> set ds. has_pts d \<and> sig_PTS d = Ok pts \<and> sig_type d \<noteq> SegDescUnscheduledEventStart"
  shows "\<exists>e. st_received s = Some e # replicate 9 None \<and> re_pts e = pts \<and> set (re_descs e) = set ds \<and>
    length (re_descs e) = 2 ^ (length ds - 1)"
  using assms
proof (induction ds arbitrary: s rule: rev_nonempty_induct)
  case (single d)
  then obtain c e where "ProcessDescriptor NewState d = Ok (s, c, e)" by auto
  moreover have "reachable NewState" by (rule reachable.init)
  ultimately have "close_and_validate (add_received (NewState\<lparr>st_received := replicate 10 None\<rparr>) d pts) d = Ok (s, c, e)"
    using ProcessDescriptor_cases [OF reachable_state_inv, of NewState d pts] single.prems
    by (simp add: NewState_def receivedRingLen_def Let_def split: if_splits)
  from close_and_validate_received [OF this] show ?case
    by (simp add: add_received_def NewState_def numeral_eq_Suc)
next
  case (snoc d ds)
  obtain s1 c e where s1: "run NewState ds = Ok s1" "ProcessDescriptor s1 d = Ok (s, c, e)"
    using snoc.prems(1) by (auto simp: run_append)
  from snoc.IH [OF s1(1)] snoc.prems(2,3) obtain e1 where e1: "st_received s1 = Some e1 # replicate 9 None"
    "re_pts e1 = pts" "set (re_descs e1) = set ds" "length (re_descs e1) = 2 ^ (length ds - 1)" by auto
  have d: "has_pts d" "sig_PTS d = Ok pts" "sig_type d \<noteq> SegDescUnscheduledEventStart" using snoc.prems(3) by simp_all
  have nd: "\<not> duplicate_in d pts e1"
  proof
    assume "duplicate_in d pts e1"
    then obtain x where x: "x \<in> set ds" "seg_Equal d (Some x) = Ok True" using e1(3) by (auto simp: duplicate_in_def)
    then have "(sig_type d, sig_event d) \<noteq> (sig_type x, sig_event x)" using snoc.prems(2) by force
    with seg_Equal_key [OF d(1)] snoc.prems(3) x show False by auto
  qed
  note i = reachable_state_inv [OF run_reachable [OF reachable.init s1(1)]]
  have "close_and_validate (s1\<lparr>st_received := Some (doubled d pts e1) # replicate 9 None\<rparr>) d = Ok (s, c, e)"
    using ProcessDescriptor_cases [OF i d] s1(2) e1(1,2) nd by (auto simp: Let_def)
  from close_and_validate_received [OF this] have "st_received s = Some (doubled d pts e1) # replicate 9 None" by simp
  moreover have "length ds \<noteq> 0" using snoc.hyps by simp
  ultimately show ?case using e1 by (auto simp: doubled_def mult_2 [symmetric] power_Suc [symmetric])
qed

section \<open>Blackouts\<close>

definition breakaway_closers :: "SegDescType set" where
  "breakaway_closers = {SegDescUnscheduledEventStart, SegDescUnscheduledEventEnd, SegDescNetworkStart, SegDescNetworkEnd}"

lemma rules_for_breakaway:
  "\<forall>(t, r) \<in> set segCloseRules. map_of r SegDescProgramBreakaway \<noteq> None \<longrightarrow> t \<in> breakaway_closers"
  by (simp add: segCloseRules_def set_rule_def segCloseRules_init_def breakaway_closers_def SegDescProgramBreakaway_def
      SegDescUnscheduledEventStart_def SegDescUnscheduledEventEnd_def SegDescNetworkStart_def SegDescNetworkEnd_def)

lemma breakaway_stays:
  assumes "sig_type d \<notin> breakaway_closers" "sig_type bk = SegDescProgramBreakaway"
  shows "CanClose d (Some bk) \<noteq> Ok True"
proof (cases "map_of segCloseRules (sig_type d)")
  case (Some r)
  then have "map_of r SegDescProgramBreakaway = None"
    using rules_for_breakaway assms(1) by (fastforce dest: map_of_SomeD)
  with Some assms(2) show ?thesis by (simp add: CanClose_def)
qed (simp add: CanClose_def)

lemma CanClose_total: "has_pts d \<Longrightarrow> has_pts out \<Longrightarrow> \<exists>b. CanClose d (Some out) = Ok b"
  by (elim has_ptsE) (auto simp: CanClose_def split: option.split segCloseType.split)

definition all_timed :: "signal option list \<Rightarrow> bool" where
  "all_timed xs \<longleftrightarrow> (\<forall>x \<in> set xs. \<exists>d. x = Some d \<and> has_pts d)"

lemma close_open_total: "has_pts desc \<Longrightarrow> all_timed xs \<Longrightarrow> \<exists>cs. close_open desc xs = Ok cs"
proof (induction xs)
  case (Cons x xs)
  then obtain d where d: "x = Some d" "has_pts d" by (auto simp: all_timed_def)
  from CanClose_total [OF Cons.prems(1) d(2)] obtain b where "CanClose desc (Some d) = Ok b" by blast
  with Cons d show ?case by (cases b) (auto simp: all_timed_def)
qed simp

text \<open>The place of the breakaway is kept as an index; it is right as long as nothing below it is removed.\<close>

definition blackout_ok :: "state \<Rightarrow> bool" where
  "blackout_ok s \<longleftrightarrow> (st_inBlackout s \<longrightarrow> st_blackoutIdx s < st_len s \<and>
     (\<exists>bk. st_open s ! st_blackoutIdx s = Some bk \<and> sig_type bk = SegDescProgramBreakaway))"

definition run_inv :: "state \<Rightarrow> bool" where
  "run_inv s \<longleftrightarrow> st_len s \<le> length (st_arr s) \<and> all_timed (st_open s) \<and> blackout_ok s"

lemma open_append_run_inv:
  assumes "run_inv s" "has_pts d"
  shows "run_inv (open_append s d)"
    "sig_type d = SegDescProgramBreakaway \<Longrightarrow> run_inv (open_append (s\<lparr>st_inBlackout := True, st_blackoutIdx := st_len s\<rparr>) d)"
proof -
  have o': "st_open (open_append t d) = st_open s @ [Some d]" "st_len (open_append t d) \<le> length (st_arr (open_append t d))"
    "st_len (open_append t d) = st_len s + 1" "length (st_open s) = st_len s"
    if "st_arr t = st_arr s" "st_len t = st_len s" for t
    using assms(1) that st_open_append [of t d] open_append_wf(1) [of t d] by (auto simp: run_inv_def open_append_def)
  show "run_inv (open_append s d)"
    using assms o' [of s] open_append_wf(6,7) [of s d]
    by (auto simp: run_inv_def blackout_ok_def all_timed_def nth_append)
  let ?t = "s\<lparr>st_inBlackout := True, st_blackoutIdx := st_len s\<rparr>"
  show "sig_type d = SegDescProgramBreakaway \<Longrightarrow> run_inv (open_append ?t d)"
    using assms o' [of ?t] open_append_wf(6,7) [of ?t d]
    by (auto simp: run_inv_def blackout_ok_def all_timed_def nth_append)
qed

lemma check_in_total:
  assumes "all_timed closed" "all_timed open'"
  shows "\<exists>err. check_in desc closed open' = Ok err"
proof -
  have "open' \<noteq> [] \<Longrightarrow> \<exists>d. last open' = Some d" "closed \<noteq> [] \<Longrightarrow> \<exists>d. last closed = Some d"
    using assms last_in_set unfolding all_timed_def by blast+
  then show ?thesis by (auto simp: check_in_def match_event_def)
qed

lemma validate_run_inv:
  assumes "run_inv s" "has_pts desc" "all_timed closed"
  shows "\<exists>s' err. validate s desc closed = Ok (s', err) \<and> run_inv s'"
proof -
  from check_in_total [OF assms(3), of "st_open s" desc] assms(1)
  obtain err where e: "check_in desc closed (st_open s) = Ok err" by (auto simp: run_inv_def)
  have c: "run_inv (s\<lparr>st_inBlackout := False, st_len := st_blackoutIdx s\<rparr>)" "st_blackoutIdx s \<le> length (st_arr s)"
    if "st_inBlackout s"
  proof -
    have "take (st_blackoutIdx s) (st_arr s) = take (st_blackoutIdx s) (st_open s)"
      using assms(1) that by (simp add: run_inv_def blackout_ok_def min_def)
    then have "all_timed (take (st_blackoutIdx s) (st_arr s))"
      using assms(1) unfolding run_inv_def all_timed_def by (metis in_set_takeD)
    then show "run_inv (s\<lparr>st_inBlackout := False, st_len := st_blackoutIdx s\<rparr>)" "st_blackoutIdx s \<le> length (st_arr s)"
      using assms(1) that by (auto simp: run_inv_def blackout_ok_def)
  qed
  show ?thesis
    using assms(1) e c open_append_run_inv [OF assms(1,2)] open_append_run_inv(1) [OF c(1) assms(2)]
    unfolding validate_def by (auto simp: open_cut_def)
qed

lemma close_and_validate_run_inv:
  assumes "run_inv s" "has_pts desc" "sig_type desc \<notin> breakaway_closers"
  shows "\<exists>s' closed err. close_and_validate s desc = Ok (s', closed, err) \<and> run_inv s'"
proof -
  have t: "all_timed (rev (st_open s))" using assms(1) by (simp add: run_inv_def all_timed_def)
  from close_open_total [OF assms(2) t] obtain cl where cl: "close_open desc (rev (st_open s)) = Ok cl" by blast
  from closed_split [OF cl] obtain kept where kept: "st_open s = kept @ rev cl" "\<forall>d \<in> set cl. CanClose desc d = Ok True"
    by blast
  have len: "st_len s = length kept + length cl" "st_len s \<le> length (st_arr s)"
    using arg_cong [OF kept(1), of length] assms(1) by (simp_all add: run_inv_def)
  let ?s = "s\<lparr>st_len := st_len s - length cl\<rparr>"
  have "st_open ?s = take (length kept) (st_open s)" using len by (simp add: min_def)
  also have "\<dots> = kept" unfolding kept(1) by simp
  finally have o': "st_open ?s = kept" .
  have "blackout_ok ?s"
  proof -
    have "st_blackoutIdx s < length kept" if b: "st_inBlackout s"
    proof (rule ccontr)
      assume n: "\<not> st_blackoutIdx s < length kept"
      from b assms(1) obtain bk where bk: "st_blackoutIdx s < st_len s" "st_open s ! st_blackoutIdx s = Some bk"
        "sig_type bk = SegDescProgramBreakaway" by (auto simp: run_inv_def blackout_ok_def)
      then have "Some bk = rev cl ! (st_blackoutIdx s - length kept)" using n kept(1) by (simp add: nth_append)
      moreover have "st_blackoutIdx s - length kept < length (rev cl)" using n bk(1) len(1) by simp
      ultimately have "Some bk \<in> set cl" by (metis nth_mem set_rev)
      with kept(2) breakaway_stays [OF assms(3) bk(3)] show False by blast
    qed
    moreover have "st_open s ! i = kept ! i" if "i < length kept" for i
      unfolding kept(1) using that by (simp add: nth_append)
    ultimately show ?thesis using assms(1) o' len(1) unfolding run_inv_def blackout_ok_def o' by auto
  qed
  moreover have tk: "all_timed kept" "all_timed cl" using assms(1) kept(1) by (auto simp: run_inv_def all_timed_def)
  ultimately have "run_inv ?s" using o' len by (simp add: run_inv_def)
  from validate_run_inv [OF this assms(2) tk(2)] cl show ?thesis by (auto simp: close_and_validate_def)
qed

lemma ProcessDescriptor_run_inv:
  assumes "state_inv s" "run_inv s" "SCTE35 desc \<noteq> None" "sig_type desc \<notin> breakaway_closers"
  shows "\<exists>s' closed err. ProcessDescriptor s desc = Ok (s', closed, err) \<and> run_inv s' \<and> state_inv s'"
proof -
  obtain m where m: "SCTE35 desc = Some m" using assms(3) by blast
  have "\<exists>s' closed err. ProcessDescriptor s desc = Ok (s', closed, err) \<and> run_inv s'"
  proof (cases "sc_HasPTS m")
    case False
    with m assms(2) show ?thesis by (simp add: ProcessDescriptor_def sig_HasPTS_def)
  next
    case True
    with m have h: "has_pts desc" "sig_PTS desc = Ok (sc_PTS m)" by (simp_all add: has_pts_def sig_HasPTS_def sig_PTS_def)
    have ty: "sig_type desc \<noteq> SegDescUnscheduledEventStart" using assms(4) by (simp add: breakaway_closers_def)
    have r: "run_inv (s\<lparr>st_received := rc\<rparr>)" "run_inv (add_received (s\<lparr>st_received := rc\<rparr>) desc p)" for rc p
      using assms(2) by (auto simp: run_inv_def blackout_ok_def add_received_def)
    from ProcessDescriptor_cases [OF assms(1) h ty] r close_and_validate_run_inv [OF r(1) h(1) assms(4)]
      close_and_validate_run_inv [OF r(2) h(1) assms(4)]
    show ?thesis by (fastforce simp: Let_def split: if_splits)
  qed
  with ProcessDescriptor_inv [OF assms(1)] show ?thesis by blast
qed

lemma run_run_inv:
  assumes "\<forall>d \<in> set ds. SCTE35 d \<noteq> None \<and> sig_type d \<notin> breakaway_closers"
  shows "state_inv s \<Longrightarrow> run_inv s \<Longrightarrow> \<exists>s'. run s ds = Ok s' \<and> run_inv s'"
  using assms
proof (induction ds arbitrary: s)
  case (Cons d ds)
  from ProcessDescriptor_run_inv [OF Cons.prems(1,2), of d] Cons.prems(3) obtain s1 c e where
    1: "ProcessDescriptor s d = Ok (s1, c, e)" "run_inv s1" "state_inv s1" by auto
  from Cons.IH [OF 1(3,2)] Cons.prems(3) 1(1) show ?case by auto
qed simp

text \<open>C15: as long as only \<open>ProcessDescriptor\<close> is called, on descriptors of messages, and none of
  the four kinds that may close a breakaway comes, no call panics, and \<open>Open\<close> returns the open
  descriptors in their order, in a blackout without the breakaway that began it.\<close>

theorem blackout_open:
  assumes "\<forall>d \<in> set ds. SCTE35 d \<noteq> None \<and> sig_type d \<notin> breakaway_closers"
  shows "\<exists>s xs. run NewState ds = Ok s \<and> Open s = Ok xs \<and>
    (if st_inBlackout s
     then \<exists>bk rest. st_open s = take (st_blackoutIdx s) xs @ Some bk # rest \<and> sig_type bk = SegDescProgramBreakaway \<and>
       rest = drop (st_blackoutIdx s) xs
     else xs = st_open s)"
proof -
  have "run_inv NewState" by (simp add: run_inv_def NewState_def all_timed_def blackout_ok_def)
  from run_run_inv [OF assms reachable_state_inv [OF reachable.init] this] obtain s where
    s: "run NewState ds = Ok s" "run_inv s" by blast
  show ?thesis
  proof (cases "st_inBlackout s")
    case False
    with s show ?thesis by (simp add: Open_def)
  next
    case True
    let ?i = "st_blackoutIdx s"
    from True s(2) obtain bk where bk: "?i < st_len s" "st_open s ! ?i = Some bk" "sig_type bk = SegDescProgramBreakaway"
      and len: "length (st_open s) = st_len s" by (auto simp: run_inv_def blackout_ok_def)
    define xs where "xs = take ?i (st_open s) @ drop (Suc ?i) (st_open s)"
    have "Open s = Ok xs" using True bk(1) len by (simp add: Open_def xs_def Let_def slice_def)
    moreover have "st_open s = take ?i (st_open s) @ Some bk # drop (Suc ?i) (st_open s)"
      using id_take_nth_drop [of ?i "st_open s"] bk len by simp
    moreover have "take ?i xs = take ?i (st_open s)" "drop ?i xs = drop (Suc ?i) (st_open s)"
      using bk(1) len by (simp_all add: xs_def)
    ultimately have "Open s = Ok xs \<and> st_open s = take ?i xs @ Some bk # drop ?i xs" by metis
    then show ?thesis using s(1) True bk(3) by (intro exI [of _ s] exI [of _ xs]) auto
  qed
qed

text \<open>A descriptor of a type that the ring does not hold goes straight to the open descriptors.\<close>

definition ring_signals :: "receivedElem option list \<Rightarrow> signal set" where
  "ring_signals es = {d. \<exists>e. Some e \<in> set es \<and> d \<in> set (re_descs e)}"

definition fresh :: "signal \<Rightarrow> state \<Rightarrow> bool" where
  "fresh d s \<longleftrightarrow> has_pts d \<and> sig_type d \<noteq> SegDescUnscheduledEventStart \<and>
     sig_type d \<notin> sig_type ` ring_signals (st_received s)"

lemma ring_signals_add:
  "ring_signals (es[i := Some \<lparr>re_pts = pts, re_descs = [desc]\<rparr>]) \<subseteq> insert desc (ring_signals es)"
  unfolding ring_signals_def
proof (rule subsetI, elim CollectE exE conjE, rule ccontr)
  fix d e assume e: "Some e \<in> set (es[i := Some \<lparr>re_pts = pts, re_descs = [desc]\<rparr>])" "d \<in> set (re_descs e)"
    and n: "d \<notin> insert desc {d. \<exists>e. Some e \<in> set es \<and> d \<in> set (re_descs e)}"
  from subsetD [OF set_update_subset_insert e(1)] have "Some e = Some \<lparr>re_pts = pts, re_descs = [desc]\<rparr> \<or> Some e \<in> set es"
    by blast
  with e(2) n show False by auto
qed

lemma ring_signals_doubled:
  "ring_signals (map (map_option (doubled desc pts)) es) \<subseteq> insert desc (ring_signals es)"
proof (rule subsetI)
  fix x assume "x \<in> ring_signals (map (map_option (doubled desc pts)) es)"
  then obtain e where "Some e \<in> set es" "x \<in> set (re_descs (doubled desc pts e))"
    by (auto simp: ring_signals_def dest: sym)
  then show "x \<in> insert desc (ring_signals es)" by (auto simp: ring_signals_def doubled_def split: if_splits)
qed

lemma ProcessDescriptor_fresh:
  assumes "state_inv s" "fresh d s"
  obtains rc h where
    "ProcessDescriptor s d = close_and_validate (s\<lparr>st_received := rc, st_receivedHead := h\<rparr>) d"
    "ring_signals rc \<subseteq> insert d (ring_signals (st_received s))"
proof -
  from assms(2) obtain pts where p: "has_pts d" "sig_PTS d = Ok pts" "sig_type d \<noteq> SegDescUnscheduledEventStart"
    by (auto simp: fresh_def elim: has_ptsE)
  have "\<not> ring_duplicate d pts (st_received s)"
  proof
    assume "ring_duplicate d pts (st_received s)"
    then obtain e x where "Some e \<in> set (st_received s)" "x \<in> set (re_descs e)" "seg_Equal d (Some x) = Ok True"
      by (auto simp: ring_duplicate_def duplicate_in_def)
    moreover from this have "sig_type d = sig_type x" by (auto simp: seg_Equal_def split: if_splits)
    ultimately show False using assms(2) by (auto simp: fresh_def ring_signals_def)
  qed
  with ProcessDescriptor_cases [OF assms(1) p] have run: "ProcessDescriptor s d =
      (let s1 = s\<lparr>st_received := map (map_option (doubled d pts)) (st_received s)\<rparr>
       in close_and_validate (if filed pts (st_received s) then s1 else add_received s1 d pts) d)" by simp
  show thesis
  proof (cases "filed pts (st_received s)")
    case True
    with run have "ProcessDescriptor s d = close_and_validate (s\<lparr>st_received := map (map_option (doubled d pts)) (st_received s),
        st_receivedHead := st_receivedHead s\<rparr>) d" by simp
    with ring_signals_doubled show thesis by (rule that [rotated])
  next
    case False
    let ?rc = "(map (map_option (doubled d pts)) (st_received s))[st_receivedHead s := Some \<lparr>re_pts = pts, re_descs = [d]\<rparr>]"
    from False run have "ProcessDescriptor s d =
        close_and_validate (s\<lparr>st_received := ?rc, st_receivedHead := (st_receivedHead s + 1) mod receivedRingLen\<rparr>) d"
      by (simp add: add_received_def)
    moreover have "ring_signals ?rc \<subseteq> insert d (ring_signals (st_received s))"
      using ring_signals_add [of "map (map_option (doubled d pts)) (st_received s)"] ring_signals_doubled [of d pts "st_received s"]
      by fastforce
    ultimately show thesis by (rule that)
  qed
qed

lemma fresh_step:
  assumes "state_inv s" "fresh d s"
    and run: "\<And>rc h. close_and_validate (s\<lparr>st_received := rc, st_receivedHead := h\<rparr>) d =
      Ok (f (s\<lparr>st_received := rc, st_receivedHead := h\<rparr>), closed, err)"
    and keep: "\<And>rc h. st_received (f (s\<lparr>st_received := rc, st_receivedHead := h\<rparr>)) = rc"
  shows "\<exists>s' rc h. ProcessDescriptor s d = Ok (s', closed, err) \<and> state_inv s' \<and>
    s' = f (s\<lparr>st_received := rc, st_receivedHead := h\<rparr>) \<and>
    ring_signals (st_received s') \<subseteq> insert d (ring_signals (st_received s))"
proof -
  from ProcessDescriptor_fresh [OF assms(1,2)] obtain rc h where
    r: "ProcessDescriptor s d = close_and_validate (s\<lparr>st_received := rc, st_receivedHead := h\<rparr>) d"
    "ring_signals rc \<subseteq> insert d (ring_signals (st_received s))" by blast
  from r(1) [unfolded run] have p: "ProcessDescriptor s d = Ok (f (s\<lparr>st_received := rc, st_receivedHead := h\<rparr>), closed, err)" .
  from p ProcessDescriptor_inv [OF assms(1) p] r(2) show ?thesis
    by (intro exI [of _ "f (s\<lparr>st_received := rc, st_receivedHead := h\<rparr>)"] exI [of _ rc] exI [of _ h]) (simp only: keep simp_thms)
qed

lemmas type_eval = open_types_def in_types_def seg_desc_types

lemmas rule_eval = CanClose_def segCloseRules_def set_rule_def segCloseRules_init_def type_eval

text \<open>The states of a breakaway behind a program start, then of a network end and a resumption.\<close>

lemma blackout_begins:
  assumes "has_pts p" "sig_type p = SegDescProgramStart" "has_pts b" "sig_type b = SegDescProgramBreakaway"
  shows "\<exists>s rc h. run NewState [p, b] = Ok s \<and> state_inv s \<and> ring_signals (st_received s) \<subseteq> {p, b} \<and>
    s = NewState\<lparr>st_received := rc, st_receivedHead := h, st_arr := [Some p, Some b], st_len := 2, st_inBlackout := True,
      st_blackoutIdx := 1\<rparr>"
proof -
  have ty: "sig_type b \<noteq> sig_type p" "SegDescUnscheduledEventStart \<notin> {sig_type p, sig_type b}" "CanClose b (Some p) = Ok False"
    using assms by (simp_all add: rule_eval)
  have r0: "ring_signals (st_received NewState) = {}" by (auto simp: NewState_def ring_signals_def)
  have f: "fresh p NewState" using assms(1) ty(2) r0 by (auto simp: fresh_def)
  have "close_and_validate (NewState\<lparr>st_received := rc, st_receivedHead := h\<rparr>) p =
      Ok (NewState\<lparr>st_received := rc, st_receivedHead := h, st_arr := [Some p], st_len := 1\<rparr>, [], None)" for rc h
    using assms(2) by (simp add: close_and_validate_def validate_def open_append_def NewState_def type_eval)
  from fresh_step [OF reachable_state_inv [OF reachable.init] f, where f = "\<lambda>t. t\<lparr>st_arr := [Some p], st_len := 1\<rparr>", OF this]
  obtain s1 rc1 h1 where s1: "ProcessDescriptor NewState p = Ok (s1, [], None)" "state_inv s1"
    "s1 = NewState\<lparr>st_received := rc1, st_receivedHead := h1, st_arr := [Some p], st_len := 1\<rparr>"
    "ring_signals (st_received s1) \<subseteq> {p}" unfolding r0 by auto
  have f: "fresh b s1" using assms(3) ty s1(4) by (auto simp: fresh_def)
  have "close_and_validate (s1\<lparr>st_received := rc, st_receivedHead := h\<rparr>) b =
      Ok (s1\<lparr>st_received := rc, st_receivedHead := h, st_arr := [Some p, Some b], st_len := 2, st_inBlackout := True,
        st_blackoutIdx := 1\<rparr>, [], None)" for rc h
    using assms(4) ty(3) by (simp add: s1(3) close_and_validate_def validate_def open_append_def NewState_def)
  from fresh_step [OF s1(2) f, where f = "\<lambda>t. t\<lparr>st_arr := [Some p, Some b], st_len := 2, st_inBlackout := True,
      st_blackoutIdx := 1\<rparr>", OF this]
  obtain s2 rc2 h2 where s2: "ProcessDescriptor s1 b = Ok (s2, [], None)" "state_inv s2"
    "s2 = s1\<lparr>st_received := rc2, st_receivedHead := h2, st_arr := [Some p, Some b], st_len := 2, st_inBlackout := True,
      st_blackoutIdx := 1\<rparr>" "ring_signals (st_received s2) \<subseteq> insert b (ring_signals (st_received s1))" by auto
  have "run NewState [p, b] = Ok s2" using s1(1) s2(1) by simp
  then show ?thesis using s2(2,4) s1(4) by (intro exI [of _ s2] exI [of _ rc2] exI [of _ h2]) (auto simp: s2(3) s1(3))
qed

lemma blackout_ends:
  assumes inv: "state_inv s" and ring: "ring_signals (st_received s) \<subseteq> {p, b}"
    and s: "st_arr s = [Some p, Some b]" "st_len s = 2" "st_inBlackout s" "st_blackoutIdx s = 1"
    and ty: "sig_type p = SegDescProgramStart" "sig_type b = SegDescProgramBreakaway"
      "has_pts n" "sig_type n = SegDescNetworkEnd" "has_pts r" "sig_type r = SegDescProgramResumption"
  shows "\<exists>s' s''. ProcessDescriptor s n = Ok (s', [Some b, Some p], None) \<and> st_arr s' = [Some p, Some b] \<and> st_len s' = 0 \<and>
    st_inBlackout s' \<and> st_blackoutIdx s' = 1 \<and> ProcessDescriptor s' r = Ok (s'', [], None) \<and>
    st_arr s'' = [Some p, Some r] \<and> st_len s'' = 2 \<and> \<not> st_inBlackout s''"
proof -
  have dist: "sig_type n \<notin> {sig_type p, sig_type b}" "sig_type r \<notin> {sig_type p, sig_type b, sig_type n}"
    "SegDescUnscheduledEventStart \<notin> {sig_type n, sig_type r}" using ty by (simp_all add: rule_eval)
  have can: "CanClose n (Some b) = Ok True" "CanClose n (Some p) = Ok True" using ty by (simp_all add: rule_eval)
  have f: "fresh n s" using ty(3) dist ring by (auto simp: fresh_def)
  have "close_and_validate (s\<lparr>st_received := rc, st_receivedHead := h\<rparr>) n =
      Ok (s\<lparr>st_received := rc, st_receivedHead := h, st_len := 0\<rparr>, [Some b, Some p], None)" for rc h
    using ty(4) can by (simp add: s close_and_validate_def validate_def check_in_def type_eval)
  from fresh_step [OF inv f, where f = "\<lambda>t. t\<lparr>st_len := 0\<rparr>", OF this]
  obtain s3 rc3 h3 where s3: "ProcessDescriptor s n = Ok (s3, [Some b, Some p], None)" "state_inv s3"
    "s3 = s\<lparr>st_received := rc3, st_receivedHead := h3, st_len := 0\<rparr>"
    "ring_signals (st_received s3) \<subseteq> insert n (ring_signals (st_received s))" by auto
  have f: "fresh r s3" using ty(5) dist ring s3(4) by (auto simp: fresh_def)
  have "close_and_validate (s3\<lparr>st_received := rc, st_receivedHead := h\<rparr>) r =
      Ok (s3\<lparr>st_received := rc, st_receivedHead := h, st_arr := [Some p, Some r], st_len := 2, st_inBlackout := False\<rparr>,
        [], None)" for rc h
    using ty(6) by (simp add: s3(3) s close_and_validate_def validate_def open_cut_def open_append_def type_eval)
  from fresh_step [OF s3(2) f, where f = "\<lambda>t. t\<lparr>st_arr := [Some p, Some r], st_len := 2, st_inBlackout := False\<rparr>", OF this]
  obtain s4 rc4 h4 where "ProcessDescriptor s3 r = Ok (s4, [], None)"
    "s4 = s3\<lparr>st_received := rc4, st_receivedHead := h4, st_arr := [Some p, Some r], st_len := 2, st_inBlackout := False\<rparr>"
    by auto
  then show ?thesis using s3(1) by (intro exI [of _ s3] exI [of _ s4]) (simp add: s s3(3))
qed

text \<open>C29: the index of the breakaway goes stale when, after a program start and a breakaway,
  \<open>Close\<close> takes the descriptor below the breakaway, or when a network end closes the breakaway itself:
  these calls succeed, and the call of \<open>Open\<close> that comes next panics. A resumption that is processed
  right after the network end then cuts the slice at the stale index: \<open>Open\<close> shows the program, which
  the network end had closed, as open again.\<close>

theorem Open_stale_breakaway:
  assumes "has_pts p" "sig_type p = SegDescProgramStart" "has_pts b" "sig_type b = SegDescProgramBreakaway"
    and "has_pts n" "sig_type n = SegDescNetworkEnd" "has_pts r" "sig_type r = SegDescProgramResumption"
  shows "\<exists>s c s' s''. run NewState [p, b] = Ok s \<and> Open s = Ok [Some p] \<and>
    Close s p = Ok (c, [Some p], None) \<and> Open c = Panic \<and>
    ProcessDescriptor s n = Ok (s', [Some b, Some p], None) \<and> Open s' = Panic \<and>
    ProcessDescriptor s' r = Ok (s'', [], None) \<and> Open s'' = Ok [Some p, Some r]"
proof -
  obtain s rc h where s: "run NewState [p, b] = Ok s" "state_inv s" "ring_signals (st_received s) \<subseteq> {p, b}"
    "s = NewState\<lparr>st_received := rc, st_receivedHead := h, st_arr := [Some p, Some b], st_len := 2, st_inBlackout := True,
      st_blackoutIdx := 1\<rparr>" using blackout_begins [OF assms(1-4)] by blast
  obtain s' s'' where e: "ProcessDescriptor s n = Ok (s', [Some b, Some p], None)" "st_arr s' = [Some p, Some b]" "st_len s' = 0"
    "st_inBlackout s'" "st_blackoutIdx s' = 1" "ProcessDescriptor s' r = Ok (s'', [], None)"
    "st_arr s'' = [Some p, Some r]" "st_len s'' = 2" "\<not> st_inBlackout s''"
    using blackout_ends [OF s(2,3) _ _ _ _ assms(2,4-8)] s(4) by auto
  have "seg_Equal p (Some b) = Ok False" using assms(2,4) by (simp add: seg_Equal_def rule_eval)
  then have "Close s p = Ok (s\<lparr>st_arr := [Some b, None], st_len := 1\<rparr>, [Some p], None)"
    using seg_Equal_refl [OF assms(1)] by (simp add: Close_def s(4) Let_def)
  moreover have "Open s = Ok [Some p]" "Open (s\<lparr>st_arr := [Some b, None], st_len := 1\<rparr>) = Panic" "Open s' = Panic"
    "Open s'' = Ok [Some p, Some r]"
    using e(2-5,7-9) by (simp_all add: Open_def Let_def slice_def s(4) numeral_eq_Suc)
  ultimately show ?thesis using s(1) e(1,6) by blast
qed

text \<open>C13: in every reachable state the open descriptors, and those left over behind them in the array, are
  breakaways, resumptions or out descriptors of signals with a time; the ring of received descriptors keeps its
  ten places and its head inside; and every place holds descriptors of the one time it is filed under.\<close>

theorem reachable_invariant:
  assumes "reachable s"
  shows "st_len s \<le> length (st_arr s) \<and> (st_inBlackout s \<longrightarrow> st_blackoutIdx s \<le> length (st_arr s)) \<and>
    (\<forall>d. Some d \<in> set (st_arr s) \<longrightarrow>
      has_pts d \<and> sig_type d \<in> {SegDescProgramBreakaway, SegDescProgramResumption} \<union> set open_types) \<and>
    length (st_received s) = 10 \<and> st_receivedHead s < 10 \<and>
    (\<forall>e. Some e \<in> set (st_received s) \<longrightarrow>
      re_descs e \<noteq> [] \<and> (\<forall>d \<in> set (re_descs e). has_pts d \<and> sig_PTS d = Ok (re_pts e)))"
  using reachable_state_inv [OF assms]
  by (simp add: state_inv_def openable_def elem_ok_def receivedRingLen_def)

section \<open>Examples\<close>

definition time_message :: "PTS \<Rightarrow> scte35" where
  "time_message t = CreateSCTE35\<lparr>sc_commandType := TimeSignal, sc_pts := t,
     sc_commandInfo := TimeSignalCommand (ts_SetHasPTS CreateTimeSignalCommand True)\<rparr>"

definition example_signal :: "PTS \<Rightarrow> SegDescType \<Rightarrow> u32 \<Rightarrow> signal" where
  "example_signal t ty ev =
     \<lparr>sig_desc = seg_SetEventID (seg_SetTypeID CreateSegmentationDescriptor ty) ev,
      sig_info = Some (time_message t)\<rparr>"

lemma example_signal [simp]:
  "has_pts (example_signal t ty ev)" "SCTE35 (example_signal t ty ev) = Some (time_message t)"
  "sig_PTS (example_signal t ty ev) = Ok t" "sig_HasPTS (example_signal t ty ev) = Ok True"
  "sig_type (example_signal t ty ev) = ty" "sig_event (example_signal t ty ev) = ev"
  by (simp_all add: example_signal_def time_message_def has_pts_def sig_HasPTS_def sig_PTS_def SCTE35_def sc_HasPTS_def sc_PTS_def
      ts_HasPTS_def ts_SetHasPTS_def CreateSCTE35_def zero_scte35_def seg_SetEventID_def seg_SetTypeID_def Let_def
      seg_TypeID_def seg_EventID_def)

abbreviation program :: signal where "program \<equiv> example_signal 90000 SegDescProgramStart 1"
abbreviation breakaway :: signal where "breakaway \<equiv> example_signal 90000 SegDescProgramBreakaway 1"

definition after_program :: state where
  "after_program = NewState\<lparr>st_arr := [Some program], st_len := 1,
     st_received := Some \<lparr>re_pts = 90000, re_descs = [program]\<rparr> # replicate 9 None, st_receivedHead := 1\<rparr>"

lemma process_program: "ProcessDescriptor NewState program = Ok (after_program, [], None)"
proof -
  have ty: "sig_type program \<noteq> SegDescUnscheduledEventStart" by (simp add: seg_desc_types)
  have ring: "replicate 10 (None :: receivedElem option) = None # replicate 9 None"
    by (simp add: numeral_eq_Suc)
  have added: "add_received NewState program 90000 = NewState\<lparr>st_received :=
      Some \<lparr>re_pts = 90000, re_descs = [program]\<rparr> # replicate 9 None, st_receivedHead := 1\<rparr>"
    by (simp add: add_received_def NewState_def receivedRingLen_def ring)
  from ProcessDescriptor_cases [OF reachable_state_inv [OF reachable.init] _ _ ty, of 90000]
  have "ProcessDescriptor NewState program = close_and_validate (add_received NewState program 90000) program"
    by (simp add: NewState_def receivedRingLen_def Let_def)
  also have "\<dots> = Ok (after_program, [], None)" unfolding added
    by (simp add: close_and_validate_def validate_def open_append_def after_program_def NewState_def type_eval)
  finally show ?thesis .
qed

lemma program_duplicate: "seg_Equal program (Some program) = Ok True"
  by (rule seg_Equal_refl) simp

theorem Close_spec_witness:
  "Close after_program program = Ok (after_program\<lparr>st_arr := [None], st_len := 0\<rparr>, [Some program], None) \<and>
   (\<exists>lo d hi. st_open after_program = lo @ d # hi \<and> seg_Equal program d = Ok True \<and> [Some program] = [d] \<and>
     st_open (after_program\<lparr>st_arr := [None], st_len := 0\<rparr>) = lo @ hi)"
proof -
  have c: "Close after_program program = Ok (after_program\<lparr>st_arr := [None], st_len := 0\<rparr>, [Some program], None)"
    using program_duplicate by (simp add: Close_def after_program_def Let_def)
  have "st_len after_program \<le> length (st_arr after_program)" by (simp add: after_program_def)
  from c Close_spec [OF this c] show ?thesis by auto
qed

theorem ProcessDescriptor_open_witness:
  "\<exists>s' kept. ProcessDescriptor NewState program = Ok (s', [], None) \<and> st_open NewState = kept @ rev [] \<and>
    st_open s' = kept @ [Some program]"
proof -
  have "st_len NewState \<le> length (st_arr NewState)" by (simp add: NewState_def)
  from process_program ProcessDescriptor_open [OF this process_program] show ?thesis
    by (auto simp: type_eval)
qed

lemma reachable_program: "reachable after_program"
  by (rule reachable.step [OF reachable.init step.process [OF process_program]])

theorem reachable_invariant_witness:
  "length (st_received after_program) = 10 \<and> st_receivedHead after_program < 10 \<and>
   st_len after_program \<le> length (st_arr after_program)"
  using reachable_invariant [OF reachable_program] by blast

theorem received_doubles_witness:
  "\<exists>s e. run NewState [program, breakaway, example_signal 90000 SegDescChapterStart 1] = Ok s \<and>
    st_received s = Some e # replicate 9 None \<and> length (re_descs e) = 4"
proof -
  let ?ds = "[program, breakaway, example_signal 90000 SegDescChapterStart 1]"
  have "run_inv NewState" by (simp add: run_inv_def NewState_def all_timed_def blackout_ok_def)
  from run_run_inv [OF _ reachable_state_inv [OF reachable.init] this, of ?ds]
  obtain s where s: "run NewState ?ds = Ok s" by (auto simp: breakaway_closers_def seg_desc_types)
  have "\<exists>e. st_received s = Some e # replicate 9 None \<and> re_pts e = 90000 \<and> set (re_descs e) = set ?ds \<and>
      length (re_descs e) = 2 ^ (length ?ds - 1)"
    by (rule received_doubles [OF _ s]) (simp_all add: seg_desc_types)
  with s show ?thesis by auto
qed

theorem blackout_open_witness:
  "\<exists>s xs. run NewState [program, breakaway] = Ok s \<and> Open s = Ok xs"
  using blackout_open [of "[program, breakaway]"] by (auto simp: breakaway_closers_def seg_desc_types)

theorem Open_stale_breakaway_witness:
  "\<exists>s c. run NewState [program, breakaway] = Ok s \<and> Close s program = Ok (c, [Some program], None) \<and> Open c = Panic"
  using Open_stale_breakaway [of program breakaway "example_signal 180000 SegDescNetworkEnd 7"
      "example_signal 180000 SegDescProgramResumption 1"] by fastforce

end
