(* ===== verification/Scte_Ring.thy ===== *)
theory Scte_Ring
  imports Scte_State
begin

text \<open>
  The ring of received descriptors of \<^verbatim>\<open>gots/scte35/state.go\<close> (modelled in \<^theory_text>\<open>Scte_State\<close>) over sequences of calls: how long a
  descriptor is remembered.
\<close>

section \<open>Sequences of calls\<close>

inductive steps :: "state \<Rightarrow> event list \<Rightarrow> state \<Rightarrow> bool" where
  none: "steps s [] s"
| more: "step s e s' \<Longrightarrow> steps s' es s'' \<Longrightarrow> steps s (e # es) s''"

inductive_cases steps_NilE: "steps s [] s'"
inductive_cases steps_ConsE: "steps s (e # es) s'"

definition event_times :: "event \<Rightarrow> PTS set" where
  "event_times e = (case e of Process d \<Rightarrow> {t. sig_PTS d = Ok t} | CloseOne d \<Rightarrow> {})"

definition times :: "event list \<Rightarrow> PTS set" where
  "times es = (\<Union>e \<in> set es. event_times e)"

lemma finite_times: "finite (times es)"
proof -
  have "finite (event_times e)" for e
  proof (cases e)
    case (Process d)
    then have "event_times e \<subseteq> (case sig_PTS d of Ok t \<Rightarrow> {t} | _ \<Rightarrow> {})" by (auto simp: event_times_def)
    then show ?thesis by (rule finite_subset) (auto split: res.splits)
  qed (simp add: event_times_def)
  then show ?thesis by (simp add: times_def)
qed

lemma step_inv: "step s e s' \<Longrightarrow> state_inv s \<Longrightarrow> state_inv s'"
  by (auto elim!: stepE dest: ProcessDescriptor_inv Close_inv)

lemma steps_inv: "steps s es s' \<Longrightarrow> state_inv s \<Longrightarrow> state_inv s'"
  by (induction rule: steps.induct) (simp_all add: step_inv)

section \<open>One call\<close>

text \<open>The places of the ring keep their times and their descriptors, but for the place at the head, where a new time may go.\<close>

fun grows :: "receivedElem option \<Rightarrow> receivedElem option \<Rightarrow> bool" where
  "grows None y \<longleftrightarrow> y = None"
| "grows (Some e) y \<longleftrightarrow> (\<exists>e'. y = Some e' \<and> re_pts e' = re_pts e \<and> set (re_descs e) \<subseteq> set (re_descs e'))"

lemma grows_refl: "grows x x" by (cases x) simp_all

lemma scan_descs_grows:
  "scan_descs desc pts e added ds = Ok (e', added', err) \<Longrightarrow>
   re_pts e' = re_pts e \<and> set (re_descs e) \<subseteq> set (re_descs e') \<and> (added \<longrightarrow> added') \<and>
   (err = None \<and> re_pts e = pts \<and> ds \<noteq> [] \<longrightarrow> added')"
proof (induction ds arbitrary: e added)
  case (Cons d ds)
  from Cons.prems obtain e1 a1 er where 1: "(if re_pts e = pts then
         res_bind (seg_Equal desc (Some d)) (\<lambda>eq.
           if eq then Ok (e, added, Some ErrSCTE35DuplicateDescriptor)
           else Ok (e\<lparr>re_descs := re_descs e @ [desc]\<rparr>, True, None))
       else Ok (e, added, None)) = Ok (e1, a1, er)" by auto
  then have g: "re_pts e1 = re_pts e" "set (re_descs e) \<subseteq> set (re_descs e1)" "added \<longrightarrow> a1"
    "er = None \<and> re_pts e = pts \<longrightarrow> a1" by (auto split: if_splits)
  have "(e', added') = (e1, a1) \<and> (err = None \<longrightarrow> er = None) \<or>
      er = None \<and> (\<exists>a. (a1 \<longrightarrow> a) \<and> scan_descs desc pts e1 a ds = Ok (e', added', err))"
    using Cons.prems 1 by (auto split: option.splits if_splits res.splits)
  then show ?case
  proof
    assume "(e', added') = (e1, a1) \<and> (err = None \<longrightarrow> er = None)"
    then show ?case using g by auto
  next
    assume "er = None \<and> (\<exists>a. (a1 \<longrightarrow> a) \<and> scan_descs desc pts e1 a ds = Ok (e', added', err))"
    then obtain a where a: "er = None" "a1 \<longrightarrow> a" "scan_descs desc pts e1 a ds = Ok (e', added', err)" by blast
    from Cons.IH [OF a(3)] g a(1,2) show ?case by auto
  qed
qed simp

lemma scan_received_grows:
  "scan_received desc pts added es = Ok (es', added', err) \<Longrightarrow>
   list_all2 grows es es' \<and> (added \<longrightarrow> added') \<and>
   (err = None \<and> (\<exists>e. Some e \<in> set es \<and> re_pts e = pts \<and> re_descs e \<noteq> []) \<longrightarrow> added')"
proof (induction es arbitrary: added es')
  case (Cons x es)
  show ?case
  proof (cases x)
    case None
    with Cons.prems obtain es1 where "scan_received desc pts added es = Ok (es1, added', err)" "es' = None # es1" by auto
    with Cons.IH [of added es1] None show ?thesis by auto
  next
    case (Some e)
    with Cons.prems obtain e1 a1 er where 1: "scan_descs desc pts e added (re_descs e) = Ok (e1, a1, er)" by auto
    note g = scan_descs_grows [OF 1]
    show ?thesis
    proof (cases er)
      case None
      with Cons.prems Some 1 obtain es1 where 2: "scan_received desc pts a1 es = Ok (es1, added', err)" "es' = Some e1 # es1"
        by auto
      from Cons.IH [OF 2(1)] g None 2(2) Some show ?thesis by auto
    next
      case (Some y)
      with Cons.prems \<open>x = Some e\<close> 1 have "es' = Some e1 # es" "added' = a1" "err = Some y" by auto
      with g \<open>x = Some e\<close> show ?thesis by (auto simp: list_all2_same grows_refl)
    qed
  qed
qed simp

lemma close_and_validate_head:
  "close_and_validate s desc = Ok (s', closed, err) \<Longrightarrow> st_receivedHead s' = st_receivedHead s"
  by (auto simp: close_and_validate_def validate_def open_append_def open_cut_def check_in_def match_event_def
      split: if_splits option.splits)

text \<open>What one call does to the ring.\<close>

definition ring_kept :: "state \<Rightarrow> state \<Rightarrow> bool" where
  "ring_kept s s' \<longleftrightarrow> list_all2 grows (st_received s) (st_received s') \<and> st_receivedHead s' = st_receivedHead s"

definition ring_filed :: "PTS \<Rightarrow> state \<Rightarrow> state \<Rightarrow> bool" where
  "ring_filed u s s' \<longleftrightarrow> \<not> filed u (st_received s) \<and>
     (\<exists>r d. list_all2 grows (st_received s) r \<and> st_received s' = r[st_receivedHead s := Some \<lparr>re_pts = u, re_descs = [d]\<rparr>]) \<and>
     st_receivedHead s' = (st_receivedHead s + 1) mod receivedRingLen"

lemma ring_kept_refl: "ring_kept s s" by (simp add: ring_kept_def list_all2_same grows_refl)

lemma Process_ring:
  assumes inv: "state_inv s" and p: "ProcessDescriptor s d = Ok (s', closed, err)"
  shows "ring_kept s s' \<or> (\<exists>u. sig_PTS d = Ok u \<and> ring_filed u s s')"
proof (cases "sig_HasPTS d = Ok True")
  case False
  with p have "s' = s" by (auto simp: ProcessDescriptor_def split: if_splits)
  then show ?thesis using ring_kept_refl by simp
next
  case True
  with p obtain pts rc added e where q: "sig_PTS d = Ok pts" "scan_received d pts False (st_received s) = Ok (rc, added, e)"
    by (auto simp: ProcessDescriptor_def)
  note g = scan_received_grows [OF q(2)]
  show ?thesis
  proof (cases e)
    case (Some x)
    with p q True have "s' = s\<lparr>st_received := rc\<rparr>" by (auto simp: ProcessDescriptor_def Let_def)
    then show ?thesis using g by (simp add: ring_kept_def)
  next
    case None
    with p q True have c: "close_and_validate (if \<not> added then add_received (s\<lparr>st_received := rc\<rparr>) d pts
        else s\<lparr>st_received := rc\<rparr>) d = Ok (s', closed, err)" by (simp add: ProcessDescriptor_def Let_def)
    note r = close_and_validate_received [OF c] close_and_validate_head [OF c]
    show ?thesis
    proof (cases added)
      case True
      then show ?thesis using r g by (simp add: ring_kept_def)
    next
      case False
      then have "\<not> filed pts (st_received s)"
        using g None inv by (auto simp: filed_def state_inv_def elem_ok_def)
      then have "ring_filed pts s s'" using r g False by (auto simp: ring_filed_def add_received_def)
      then show ?thesis using q(1) by blast
    qed
  qed
qed

lemma Close_ring: "Close s d = Ok (s', closed, err) \<Longrightarrow> ring_kept s s'"
  using ring_kept_refl [of s] by (auto simp: Close_def Let_def ring_kept_def split: option.splits)

lemma step_ring:
  assumes "state_inv s" "step s e s'"
  shows "ring_kept s s' \<or> (\<exists>u \<in> event_times e. ring_filed u s s')"
  using assms(2)
proof cases
  case (process d closed err)
  with Process_ring [OF assms(1)] show ?thesis by (auto simp: event_times_def)
qed (use Close_ring in blast)

section \<open>The window\<close>

text \<open>
  A time \<open>pts\<close> lies at the place \<open>q\<close> with the descriptors \<open>D\<close> under it, and the times \<open>ts\<close> have been filed behind it
  since; the head is behind them and has not come round.
\<close>

definition window :: "PTS \<Rightarrow> signal set \<Rightarrow> PTS list \<Rightarrow> state \<Rightarrow> bool" where
  "window pts D ts s \<longleftrightarrow> (\<exists>q < 10. length (st_received s) = 10 \<and> st_receivedHead s = (q + 1 + length ts) mod 10 \<and>
     length ts \<le> 9 \<and> distinct (pts # ts) \<and>
     (\<forall>j \<le> length ts. \<exists>e. st_received s ! ((q + j) mod 10) = Some e \<and> re_pts e = (pts # ts) ! j) \<and>
     (\<exists>e. st_received s ! q = Some e \<and> D \<subseteq> set (re_descs e)))"

lemma mod_10_neq:
  fixes a b q :: nat
  assumes "a < b" "b < a + 10"
  shows "(q + a) mod 10 \<noteq> (q + b) mod 10"
proof
  assume "(q + a) mod 10 = (q + b) mod 10"
  then have "10 dvd (q + b) - (q + a)" using assms by (intro iffD1 [OF mod_eq_dvd_iff_nat]) simp_all
  then show False using assms by (auto dest: dvd_imp_le)
qed

lemma window_filed: "window pts D ts s \<Longrightarrow> filed u (st_received s) \<or> u \<noteq> pts \<and> u \<notin> set ts"
proof -
  assume w: "window pts D ts s"
  then obtain q where q: "q < 10" "length (st_received s) = 10"
    "\<forall>j \<le> length ts. \<exists>e. st_received s ! ((q + j) mod 10) = Some e \<and> re_pts e = (pts # ts) ! j" by (auto simp: window_def)
  have "filed u (st_received s)" if "u \<in> set (pts # ts)"
  proof -
    from that obtain j where j: "j < length (pts # ts)" "(pts # ts) ! j = u" by (auto simp only: in_set_conv_nth)
    then have "j \<le> length ts" by simp
    with q(3) j(2) obtain e where e: "st_received s ! ((q + j) mod 10) = Some e" "re_pts e = u" by blast
    moreover have "(q + j) mod 10 < length (st_received s)" using q(2) by simp
    ultimately show ?thesis unfolding filed_def by (metis nth_mem)
  qed
  then show ?thesis by auto
qed

lemma window_kept:
  assumes "window pts D ts s" "list_all2 grows (st_received s) r" "st_received s' = r" "st_receivedHead s' = st_receivedHead s"
  shows "window pts D ts s'"
proof -
  from assms(1) obtain q where q: "q < 10" "length (st_received s) = 10" "st_receivedHead s = (q + 1 + length ts) mod 10"
    "length ts \<le> 9" "distinct (pts # ts)"
    "\<forall>j \<le> length ts. \<exists>e. st_received s ! ((q + j) mod 10) = Some e \<and> re_pts e = (pts # ts) ! j"
    "\<exists>e. st_received s ! q = Some e \<and> D \<subseteq> set (re_descs e)" by (auto simp: window_def)
  have l: "length r = 10" using list_all2_lengthD [OF assms(2)] q(2) by simp
  have g: "grows (st_received s ! i) (r ! i)" if "i < 10" for i using list_all2_nthD [OF assms(2)] q(2) that by simp
  have "\<exists>e. r ! ((q + j) mod 10) = Some e \<and> re_pts e = (pts # ts) ! j" if "j \<le> length ts" for j
    using q(6) that g [of "(q + j) mod 10"] by fastforce
  moreover have "\<exists>e. r ! q = Some e \<and> D \<subseteq> set (re_descs e)" using q(1,7) g [of q] by fastforce
  ultimately show ?thesis using q(1,3,4,5) l assms(3,4) unfolding window_def by auto
qed

lemma window_add:
  assumes w: "window pts D ts s" and n: "length ts < 9" "u \<noteq> pts" "u \<notin> set ts"
    and s': "st_received s' = (st_received s)[st_receivedHead s := Some \<lparr>re_pts = u, re_descs = [d]\<rparr>]"
      "st_receivedHead s' = (st_receivedHead s + 1) mod 10"
  shows "window pts D (ts @ [u]) s'"
proof -
  from w obtain q where q: "q < 10" "length (st_received s) = 10" "st_receivedHead s = (q + 1 + length ts) mod 10"
    "distinct (pts # ts)" "\<forall>j \<le> length ts. \<exists>e. st_received s ! ((q + j) mod 10) = Some e \<and> re_pts e = (pts # ts) ! j"
    "\<exists>e. st_received s ! q = Some e \<and> D \<subseteq> set (re_descs e)" by (auto simp: window_def)
  have old: "st_received s' ! ((q + j) mod 10) = st_received s ! ((q + j) mod 10)" if "j \<le> length ts" for j
    using mod_10_neq [of j "1 + length ts" q] that n(1) q(3) by (simp add: s'(1) add.assoc)
  have new: "st_received s' ! ((q + (1 + length ts)) mod 10) = Some \<lparr>re_pts = u, re_descs = [d]\<rparr>"
    using q(2,3) by (simp add: s'(1) add.assoc)
  have "\<exists>e. st_received s' ! ((q + j) mod 10) = Some e \<and> re_pts e = (pts # ts @ [u]) ! j" if j: "j \<le> length (ts @ [u])" for j
  proof (cases "j \<le> length ts")
    case True
    then have "(pts # ts @ [u]) ! j = (pts # ts) ! j" using nth_append [of "pts # ts" "[u]" j] by simp
    with q(5) old True show ?thesis by metis
  next
    case False
    then have "j = 1 + length ts" using j by simp
    then show ?thesis using new by simp
  qed
  moreover have "\<exists>e. st_received s' ! q = Some e \<and> D \<subseteq> set (re_descs e)" using q(1,6) old [of 0] by simp
  moreover have "st_receivedHead s' = (q + 1 + length (ts @ [u])) mod 10" by (simp add: s'(2) q(3) mod_simps add.assoc)
  ultimately show ?thesis using q(1,2,4) n s'(1) unfolding window_def by auto
qed

lemma window_filed_step:
  assumes w: "window pts D ts s" "set ts \<subseteq> P" and f: "ring_filed u s s'" "u \<in> insert pts P"
    and P: "finite P" "pts \<notin> P" "card P \<le> 9"
  shows "\<exists>ts'. window pts D ts' s' \<and> set ts' \<subseteq> P"
proof -
  from f(1) obtain r d where r: "\<not> filed u (st_received s)" "list_all2 grows (st_received s) r"
    "st_received s' = r[st_receivedHead s := Some \<lparr>re_pts = u, re_descs = [d]\<rparr>]"
    "st_receivedHead s' = (st_receivedHead s + 1) mod 10" by (auto simp: ring_filed_def receivedRingLen_def)
  have u: "u \<noteq> pts" "u \<notin> set ts" using window_filed [OF w(1), of u] r(1) by auto
  have "length (u # ts) = card (set (u # ts))" using w(1) u by (auto simp: window_def distinct_card)
  also have "\<dots> \<le> card P" using w(2) f(2) u P(1) by (intro card_mono) auto
  finally have n: "length ts < 9" using P(3) by simp
  have "window pts D ts (s\<lparr>st_received := r\<rparr>)" by (rule window_kept [OF w(1) r(2)]) simp_all
  from window_add [OF this n u, of s' d] r(3,4) have "window pts D (ts @ [u]) s'" by simp
  then show ?thesis using w(2) f(2) u by (intro exI [of _ "ts @ [u]"]) auto
qed

lemma window_steps:
  "steps s es s' \<Longrightarrow> state_inv s \<Longrightarrow> window pts D ts s \<Longrightarrow> set ts \<subseteq> P \<Longrightarrow> times es \<subseteq> insert pts P \<Longrightarrow>
   finite P \<Longrightarrow> pts \<notin> P \<Longrightarrow> card P \<le> 9 \<Longrightarrow> \<exists>ts'. window pts D ts' s' \<and> set ts' \<subseteq> P"
proof (induction arbitrary: ts rule: steps.induct)
  case (more s e s' es s'')
  have "\<exists>ts'. window pts D ts' s' \<and> set ts' \<subseteq> P"
    using step_ring [OF more.prems(1) more.hyps(1)]
  proof
    assume "ring_kept s s'"
    then have "window pts D ts s'" using window_kept [OF more.prems(2) _ refl] by (simp add: ring_kept_def)
    with more.prems(3) show ?thesis by blast
  next
    assume "\<exists>u \<in> event_times e. ring_filed u s s'"
    then obtain u where u: "u \<in> event_times e" "ring_filed u s s'" by blast
    then have "u \<in> insert pts P" using more.prems(4) by (auto simp: times_def)
    from window_filed_step [OF more.prems(2,3) u(2) this more.prems(5-7)] show ?thesis .
  qed
  then obtain ts' where "window pts D ts' s'" "set ts' \<subseteq> P" by blast
  moreover have "times es \<subseteq> insert pts P" using more.prems(4) by (auto simp: times_def)
  ultimately show ?case using more.IH [OF step_inv [OF more.hyps(1) more.prems(1)]] more.prems(5-7) by blast
qed blast

lemma filed_grows: "list_all2 grows xs ys \<Longrightarrow> filed u ys \<Longrightarrow> filed u xs"
proof (induction rule: list_all2_induct)
  case (Cons x xs y ys)
  then show ?case by (cases x) auto
qed simp

lemma window_begins:
  assumes "state_inv s" "ring_filed pts s s'"
  shows "window pts {} [] s'"
proof -
  from assms(2) obtain r d where r: "list_all2 grows (st_received s) r"
    "st_received s' = r[st_receivedHead s := Some \<lparr>re_pts = pts, re_descs = [d]\<rparr>]"
    "st_receivedHead s' = (st_receivedHead s + 1) mod 10" by (auto simp: ring_filed_def receivedRingLen_def)
  have "length r = 10" "st_receivedHead s < 10"
    using list_all2_lengthD [OF r(1)] assms(1) by (simp_all add: state_inv_def receivedRingLen_def)
  then show ?thesis using r(2,3) unfolding window_def by (intro exI [of _ "st_receivedHead s"]) simp
qed

text \<open>As long as the time is not filed there is nothing to keep; once it is, the window is open.\<close>

lemma unfiled_steps:
  "steps s es s' \<Longrightarrow> state_inv s \<Longrightarrow> \<not> filed pts (st_received s) \<Longrightarrow> times es \<subseteq> insert pts P \<Longrightarrow>
   finite P \<Longrightarrow> pts \<notin> P \<Longrightarrow> card P \<le> 9 \<Longrightarrow>
   \<not> filed pts (st_received s') \<or> (\<exists>ts. window pts {} ts s' \<and> set ts \<subseteq> P)"
proof (induction rule: steps.induct)
  case (more s e s' es s'')
  note inv' = step_inv [OF more.hyps(1) more.prems(1)]
  have t: "times es \<subseteq> insert pts P" using more.prems(3) by (auto simp: times_def)
  have "\<not> filed pts (st_received s') \<or> window pts {} [] s'"
    using step_ring [OF more.prems(1) more.hyps(1)]
  proof
    assume "ring_kept s s'"
    then show ?thesis using filed_grows more.prems(2) by (auto simp: ring_kept_def)
  next
    assume "\<exists>u \<in> event_times e. ring_filed u s s'"
    then obtain u where u: "ring_filed u s s'" by blast
    show ?thesis
    proof (cases "u = pts")
      case True
      then show ?thesis using window_begins [OF more.prems(1)] u by simp
    next
      case False
      from u obtain r d where r: "list_all2 grows (st_received s) r"
        "st_received s' = r[st_receivedHead s := Some \<lparr>re_pts = u, re_descs = [d]\<rparr>]" by (auto simp: ring_filed_def)
      have "\<not> filed pts r" using filed_grows [OF r(1)] more.prems(2) by blast
      then have "\<not> filed pts (st_received s')"
        using set_update_subset_insert [of r "st_receivedHead s" "Some \<lparr>re_pts = u, re_descs = [d]\<rparr>"] False
        by (auto simp: filed_def r(2))
      then show ?thesis ..
    qed
  qed
  then show ?case
  proof
    assume "\<not> filed pts (st_received s')"
    from more.IH [OF inv' this t more.prems(4-6)] show ?thesis .
  next
    assume "window pts {} [] s'"
    from window_steps [OF more.hyps(2) inv' this _ t more.prems(4-6)] show ?thesis by simp
  qed
qed blast

lemma accepted_in_window:
  assumes inv: "state_inv s" and h: "has_pts desc" "sig_PTS desc = Ok pts" "sig_type desc \<noteq> SegDescUnscheduledEventStart"
    and p: "ProcessDescriptor s desc = Ok (s', closed, err)" "err \<noteq> Some ErrSCTE35DuplicateDescriptor"
    and w: "\<not> filed pts (st_received s) \<or> (\<exists>ts. window pts {} ts s \<and> set ts \<subseteq> P)"
  shows "\<exists>ts. window pts {desc} ts s' \<and> set ts \<subseteq> P"
proof -
  let ?r = "map (map_option (doubled desc pts)) (st_received s)"
  let ?t = "if filed pts (st_received s) then s\<lparr>st_received := ?r\<rparr> else add_received (s\<lparr>st_received := ?r\<rparr>) desc pts"
  have cv: "close_and_validate ?t desc = Ok (s', closed, err)"
    using ProcessDescriptor_cases [OF inv h] p by (auto simp: Let_def split: if_splits)
  have e: "st_received s' = st_received ?t" "st_receivedHead s' = st_receivedHead ?t"
    using close_and_validate_received [OF cv] close_and_validate_head [OF cv] by simp_all
  show ?thesis
  proof (cases "filed pts (st_received s)")
    case False
    have "length (st_received s) = 10" "st_receivedHead s < 10" using inv by (simp_all add: state_inv_def receivedRingLen_def)
    then have "window pts {desc} [] s'" using e False unfolding window_def
      by (intro exI [of _ "st_receivedHead s"]) (simp add: add_received_def receivedRingLen_def)
    then show ?thesis by (intro exI [of _ "[]"]) simp
  next
    case True
    with w obtain ts where ts: "window pts {} ts s" "set ts \<subseteq> P" by blast
    from ts(1) obtain q where q: "q < 10" "length (st_received s) = 10" "st_receivedHead s = (q + 1 + length ts) mod 10"
      "length ts \<le> 9" "distinct (pts # ts)"
      "\<forall>j \<le> length ts. \<exists>e. st_received s ! ((q + j) mod 10) = Some e \<and> re_pts e = (pts # ts) ! j"
      by (auto simp: window_def)
    from q(6) have "\<exists>e. st_received s ! ((q + 0) mod 10) = Some e \<and> re_pts e = (pts # ts) ! 0" by blast
    then obtain x where x: "st_received s ! q = Some x" "re_pts x = pts" using q(1) by auto
    then have "re_descs x \<noteq> []" using inv q(1,2) unfolding state_inv_def elem_ok_def by (metis nth_mem)
    then have "\<exists>e. ?r ! q = Some e \<and> {desc} \<subseteq> set (re_descs e)" using x q(1,2) by (simp add: doubled_def)
    moreover have "\<exists>e. ?r ! ((q + j) mod 10) = Some e \<and> re_pts e = (pts # ts) ! j" if "j \<le> length ts" for j
    proof -
      from q(6) that obtain y where "st_received s ! ((q + j) mod 10) = Some y" "re_pts y = (pts # ts) ! j" by blast
      then show ?thesis using q(2) by (simp add: doubled_def)
    qed
    ultimately have "window pts {desc} ts s'" using q e True unfolding window_def by auto
    then show ?thesis using ts(2) by blast
  qed
qed

section \<open>Properties\<close>

text \<open>C14: a descriptor with a time that was processed without being refused is refused as a duplicate when it
  comes again, and then neither the open descriptors nor the blackout change. That holds at once, whatever came
  before; and if its time was not among those in the ring when the calls \<open>es\<close> began, it holds after any
  further calls \<open>es'\<close> of \<open>ProcessDescriptor\<close> and \<open>Close\<close>, as long as the
  descriptors processed in both sequences have at most nine other times. (The ring keeps ten times. The starts of
  unscheduled events are left out as the descriptor that comes again: they may fail on their signal id first; they
  may be among the calls.)\<close>

theorem duplicate_refused:
  assumes s0: "reachable s0" and es: "steps s0 es s" and p: "ProcessDescriptor s desc = Ok (s1, closed, err)"
    and err: "err \<notin> {Some ErrSCTE35UnsupportedSpliceCommand, Some ErrSCTE35DuplicateDescriptor}"
    and ty: "sig_type desc \<noteq> SegDescUnscheduledEventStart" and es': "steps s1 es' s2"
    and few: "es' = [] \<or> (\<forall>pts. sig_PTS desc = Ok pts \<longrightarrow>
      \<not> filed pts (st_received s0) \<and> card (times (es @ es') - {pts}) \<le> 9)"
  shows "\<exists>s3. ProcessDescriptor s2 desc = Ok (s3, [], Some ErrSCTE35DuplicateDescriptor) \<and>
    st_open s3 = st_open s2 \<and> st_inBlackout s3 = st_inBlackout s2 \<and> st_blackoutIdx s3 = st_blackoutIdx s2"
proof (cases "es' = []")
  case True
  then have "s2 = s1" using es' by (auto elim: steps_NilE)
  moreover have "reachable s" using es s0 by (induction rule: steps.induct) (auto intro: reachable.step)
  ultimately show ?thesis using refused_at_once [OF _ p err ty] by blast
next
  case False
  note i0 = reachable_state_inv [OF s0]
  note i = steps_inv [OF es i0]
  note i2 = steps_inv [OF es' ProcessDescriptor_inv [OF i p]]
  have h: "has_pts desc" using p err by (auto simp: ProcessDescriptor_def has_pts_def split: if_splits)
  then obtain pts where pts: "sig_PTS desc = Ok pts" by (auto elim: has_ptsE)
  define P where "P = times (es @ es') - {pts}"
  have P: "finite P" "pts \<notin> P" "card P \<le> 9" "\<not> filed pts (st_received s0)"
    using few False pts finite_times by (auto simp: P_def)
  have t: "times es \<subseteq> insert pts P" "times es' \<subseteq> insert pts P" by (auto simp: P_def times_def)
  from unfiled_steps [OF es i0 P(4) t(1) P(1-3)]
  have "\<not> filed pts (st_received s) \<or> (\<exists>ts. window pts {} ts s \<and> set ts \<subseteq> P)" .
  from accepted_in_window [OF i h pts ty p _ this] err obtain ts where "window pts {desc} ts s1" "set ts \<subseteq> P" by auto
  from window_steps [OF es' ProcessDescriptor_inv [OF i p] this t(2) P(1-3)] obtain ts' where w: "window pts {desc} ts' s2" by blast
  then obtain q where q: "q < 10" "length (st_received s2) = 10"
    "\<exists>e. st_received s2 ! ((q + 0) mod 10) = Some e \<and> re_pts e = (pts # ts') ! 0"
    "\<exists>e. st_received s2 ! q = Some e \<and> {desc} \<subseteq> set (re_descs e)" unfolding window_def by blast
  then obtain x where x: "st_received s2 ! q = Some x" "re_pts x = pts" "desc \<in> set (re_descs x)" by auto
  then have "Some x \<in> set (st_received s2)" using q(1,2) by (metis nth_mem)
  moreover have "duplicate_in desc pts x" using x(2,3) seg_Equal_refl [OF h] by (auto simp: duplicate_in_def)
  ultimately have "ring_duplicate desc pts (st_received s2)" by (auto simp: ring_duplicate_def)
  with ProcessDescriptor_cases [OF i2 h pts ty] show ?thesis by auto
qed

theorem duplicate_refused_witness:
  "\<exists>s2 s3. steps after_program [Process (example_signal 180000 SegDescChapterStart 1)] s2 \<and>
     ProcessDescriptor s2 program = Ok (s3, [], Some ErrSCTE35DuplicateDescriptor) \<and> st_open s3 = st_open s2"
proof -
  let ?c = "example_signal 180000 SegDescChapterStart 1"
  have "run_inv NewState" by (simp add: run_inv_def NewState_def all_timed_def blackout_ok_def)
  from run_run_inv [OF _ reachable_state_inv [OF reachable.init] this, of "[program, ?c]"]
  obtain s2 cl e where "ProcessDescriptor after_program ?c = Ok (s2, cl, e)"
    using process_program by (auto simp: breakaway_closers_def seg_desc_types)
  then have st: "steps after_program [Process ?c] s2" by (rule steps.more [OF step.process steps.none])
  have "times ([] @ [Process ?c]) = {180000}" by (simp add: times_def event_times_def)
  moreover have "\<not> filed 90000 (st_received NewState)" by (simp add: NewState_def)
  ultimately show ?thesis
    using duplicate_refused [OF reachable.init steps.none process_program _ _ st] st by (auto simp: seg_desc_types)
qed

end
