(* ===== verification/Scte_Typing.thy ===== *)
theory Scte_Typing
  imports Scte_Message
begin

text \<open>
  The type invariant of SCTE-35 messages: what every value that the parsers return satisfies, whatever
  the bytes.  The fields keep their widths, and the fields that a flag switches off have their zero values.
\<close>

section \<open>Widths\<close>

lemma unat_less_bits:
  fixes w :: "'a::len word"
  assumes "\<And>n. k \<le> n \<Longrightarrow> \<not> bit w n"
  shows "unat w < 2 ^ k"
proof -
  have "take_bit k w = w" by (rule bit_word_eqI) (use assms in \<open>auto simp: bit_take_bit_iff not_le [symmetric]\<close>)
  then have "unat w = take_bit k (unat w)" by (metis unsigned_take_bit_eq)
  also have "\<dots> < 2 ^ k" by (rule take_bit_nat_less_exp)
  finally show ?thesis .
qed

section \<open>Commands\<close>

lemma parseSpliceTime_typed:
  "parseSpliceTime buf = Ok ((has, pts, err), rest) \<Longrightarrow> time_ok (has, pts)"
  by (auto simp: parseSpliceTime_def time_ok_def unat_and_33 [simplified] Let_def split: list.splits if_splits prod.splits)

lemma read_splice_time_typed: "read_splice_time buf = Ok (t, rest) \<Longrightarrow> time_ok t"
  by (auto simp: read_splice_time_def dest: parseSpliceTime_typed split: option.splits prod.splits)

lemma read_n_all:
  "(\<And>b x r. f b = Ok (x, r) \<Longrightarrow> P x) \<Longrightarrow> read_n n f buf = Ok (xs, rest) \<Longrightarrow> length xs = n \<and> (\<forall>x \<in> set xs. P x)"
  by (induction n arbitrary: buf xs) fastforce+

lemma parse_component_typed: "parse_component imm buf = Ok (c, rest) \<Longrightarrow> component_ok imm c"
  by (auto simp: parse_component_def component_ok_def CreateComponent_def Let_def time_ok_def
      dest: read_splice_time_typed split: if_splits)

definition si_typed :: "spliceInsert \<Rightarrow> bool" where
  "si_typed c \<longleftrightarrow>
     (if si_eventCancelIndicator c
      then c = zero_spliceInsert\<lparr>si_eventID := si_eventID c, si_eventCancelIndicator := True\<rparr>
      else si_ok (si_spliceImmediate c) c)"

lemma unat_byte_256: "unat (b :: byte) < 256"
  using unsigned_less [where w = b and 'a = nat] by simp

lemma parseSpliceInsert_typed:
  assumes "parseSpliceInsert buf = Ok (c, rest)"
  shows "si_typed c"
proof -
  from assms obtain c1 b1 where 1: "parse_base zero_spliceInsert buf = Ok (c1, b1)"
    and r: "if si_eventCancelIndicator c1 then c = c1 else \<exists>c2 b2 c3 b3 c4 b4 c5 b5. parse_flags c1 b1 = Ok (c2, b2) \<and>
      parse_program_time c2 b2 = Ok (c3, b3) \<and> parse_components c3 b3 = Ok (c4, b4) \<and>
      parse_break_duration c4 b4 = Ok (c5, b5) \<and> parse_prog_info c5 b5 = Ok (c, rest)"
    by (auto simp: parseSpliceInsert_def si_parse_def split: if_splits)
  from 1 have c1: "c1 = zero_spliceInsert\<lparr>si_eventID := si_eventID c1, si_eventCancelIndicator := si_eventCancelIndicator c1\<rparr>"
    by (auto simp: parse_base_def zero_spliceInsert_def split: prod.splits if_splits)
  show ?thesis
  proof (cases "si_eventCancelIndicator c1")
    case True
    with r c1 show ?thesis by (simp add: si_typed_def)
  next
    case False
    with r obtain c2 b2 c3 b3 c4 b4 c5 b5 where st: "parse_flags c1 b1 = Ok (c2, b2)"
      "parse_program_time c2 b2 = Ok (c3, b3)" "parse_components c3 b3 = Ok (c4, b4)"
      "parse_break_duration c4 b4 = Ok (c5, b5)" "parse_prog_info c5 b5 = Ok (c, rest)" by auto
    from st(1) c1 False have 2: "\<not> si_eventCancelIndicator c2 \<and> \<not> si_hasPTS c2 \<and> si_pts c2 = 0 \<and> si_components c2 = [] \<and>
        si_duration c2 = 0 \<and> \<not> si_autoReturn c2"
      by (cases c1) (auto simp: parse_flags_def zero_spliceInsert_def)
    from st(2) 2 have 3: "\<not> si_eventCancelIndicator c3 \<and> si_hasPTS c3 = (si_isProgramSplice c3 \<and> \<not> si_spliceImmediate c3) \<and>
        time_ok (si_hasPTS c3, si_pts c3) \<and> si_components c3 = [] \<and> si_duration c3 = 0 \<and> \<not> si_autoReturn c3"
      by (auto simp: parse_program_time_def time_ok_def dest: read_splice_time_typed split: if_splits)
    have "\<exists>cs. c4 = c3\<lparr>si_components := cs\<rparr> \<and> (si_isProgramSplice c3 \<longrightarrow> cs = []) \<and>
        length cs < 256 \<and> (\<forall>x \<in> set cs. component_ok (si_spliceImmediate c3) x)"
    proof -
      consider (skip) "si_isProgramSplice c3" "c4 = c3"
        | (read) cc b cs where "\<not> si_isProgramSplice c3" "c4 = c3\<lparr>si_components := cs\<rparr>"
          "read_n (unat (cc :: byte)) (parse_component (si_spliceImmediate c3)) b = Ok (cs, b4)"
        using st(3) 3 by (auto simp: parse_components_def split: if_splits)
      then show ?thesis
      proof cases
        case skip
        with 3 show ?thesis by (intro exI [of _ "[]"]) (cases c3, simp)
      next
        case read
        from read_n_all [where P = "component_ok (si_spliceImmediate c3)", OF parse_component_typed read(3)] read(1,2)
          unat_byte_256 [of cc] show ?thesis by (intro exI [of _ cs]) simp
      qed
    qed
    then obtain cs where 4: "c4 = c3\<lparr>si_components := cs\<rparr>" "si_isProgramSplice c3 \<longrightarrow> cs = []"
      "length cs < 256" "\<forall>x \<in> set cs. component_ok (si_spliceImmediate c3) x" by blast
    have "\<exists>a v. c5 = c4\<lparr>si_autoReturn := a, si_duration := v\<rparr> \<and> unat v < 2 ^ 33 \<and>
        (\<not> si_hasDuration c4 \<longrightarrow> v = 0 \<and> \<not> a)"
    proof (cases "si_hasDuration c4")
      case True
      with st(4) obtain a x where "c5 = c4\<lparr>si_autoReturn := a, si_duration := x AND 0x01ffffffff\<rparr>"
        by (auto simp: parse_break_duration_def Let_def split: prod.splits if_splits)
      with True unat_and_33 [of x] show ?thesis by blast
    next
      case False
      with st(4) have e: "c5 = c4" by (simp add: parse_break_duration_def)
      show ?thesis using 3 False
        by (intro exI [of _ "si_autoReturn c4"] exI [of _ "si_duration c4"]) (simp add: e 4(1))
    qed
    then have 5: "si_ok (si_spliceImmediate c5) c5 \<and> \<not> si_eventCancelIndicator c5" using 3 4 by (auto simp: si_ok_def)
    from st(5) have "c = c5\<lparr>si_uniqueProgramId := si_uniqueProgramId c, si_availNum := si_availNum c,
        si_availsExpected := si_availsExpected c\<rparr>"
      by (cases c5) (auto simp: parse_prog_info_def Let_def split: prod.splits if_splits)
    then obtain u a e where "c = c5\<lparr>si_uniqueProgramId := u, si_availNum := a, si_availsExpected := e\<rparr>" by blast
    moreover from this have "si_ok imm c = si_ok imm c5" for imm by (simp add: si_ok_def)
    ultimately show ?thesis using 5 by (simp add: si_typed_def)
  qed
qed

section \<open>Descriptors\<close>

lemma uint40_less:
  assumes "uint40 buf = Ok v"
  shows "unat v < 2 ^ 33"
proof -
  obtain b0 b1 b2 b3 b4 where v: "v = push_bit 32 (ucast (b0 AND 0x1 :: byte)) OR push_bit 24 (ucast (b1 :: byte)) OR
      push_bit 16 (ucast (b2 :: byte)) OR push_bit 8 (ucast (b3 :: byte)) OR ucast (b4 :: byte)"
    using assms by (auto simp: uint40_def)
  show ?thesis unfolding v by (rule unat_less_bits) (auto simp: bit_simps and_one_eq)
qed

lemma componentFromBytes_typed:
  assumes "componentFromBytes buf = Ok c"
  shows "offset_ok c"
proof -
  obtain b1 b2 b3 b4 b5 where v: "cf_ptsOffset c = (push_bit 32 (ucast (b1 :: byte)) AND 0x01) OR push_bit 24 (ucast (b2 :: byte)) OR
      push_bit 16 (ucast (b3 :: byte)) OR push_bit 8 (ucast (b4 :: byte)) OR ucast (b5 :: byte)"
    using assms by (auto simp: componentFromBytes_def)
  have "unat (cf_ptsOffset c) < 2 ^ 32"
    unfolding v by (rule unat_less_bits) (auto simp: bit_simps)
  then show ?thesis by (simp add: offset_ok_def)
qed

definition seg_typed :: "segmentationDescriptor \<Rightarrow> bool" where
  "seg_typed d \<longleftrightarrow>
     (if sd_eventCancelIndicator d
      then d = CreateSegmentationDescriptor\<lparr>sd_eventID := sd_eventID d, sd_eventCancelIndicator := True\<rparr>
      else seg_fields_ok d \<and> seg_tail_ok d \<and>
        (if sd_upidType d = SegUPIDMID then sd_upid d = [] else sd_mid d = [] \<and> length (sd_upid d) < 256))"

lemma seg_flags_typed:
  assumes "d = seg_flags (CreateSegmentationDescriptor\<lparr>sd_eventID := v\<rparr>) b"
  shows "seg_fields_ok d \<and> \<not> sd_hasSubSegments d \<and> sd_subSegNum d = 0 \<and> sd_subSegsExpected d = 0 \<and>
    sd_components d = [] \<and> sd_duration d = 0 \<and> \<not> sd_eventCancelIndicator d"
  by (simp add: assms seg_flags_def seg_fields_ok_def CreateSegmentationDescriptor_def Let_def and.assoc)

lemma seg_components_typed:
  assumes "seg_components d buf = Ok (d', rest)" "seg_fields_ok d" "sd_components d = []"
  shows "\<exists>cs. d' = d\<lparr>sd_components := cs\<rparr> \<and> seg_fields_ok d'"
proof (cases "sd_programSegmentationFlag d")
  case True
  with assms show ?thesis by (intro exI [of _ "sd_components d"]) (simp add: seg_components_def)
next
  case False
  with assms obtain ct b cs where r: "read_n (unat (ct :: byte)) read_offset b = Ok (cs, rest)" "d' = d\<lparr>sd_components := cs\<rparr>"
    by (auto simp: seg_components_def Let_def split: if_splits)
  have "length cs = unat ct \<and> (\<forall>c \<in> set cs. offset_ok c)"
    by (rule read_n_all [OF _ r(1)]) (auto simp: read_offset_def dest: componentFromBytes_typed)
  then show ?thesis using r(2) False assms(2) unat_byte_256 [of ct] by (auto simp: seg_fields_ok_def)
qed

lemma seg_duration_typed:
  assumes "seg_duration d buf = Ok (d', rest)" "seg_fields_ok d" "sd_duration d = 0"
  shows "\<exists>v. d' = d\<lparr>sd_duration := v\<rparr> \<and> seg_fields_ok d'"
proof (cases "sd_hasDuration d")
  case True
  with assms obtain v b where "d' = d\<lparr>sd_duration := v\<rparr>" "uint40 b = Ok v"
    by (auto simp: seg_duration_def split: if_splits)
  with True assms(2) uint40_less show ?thesis by (auto simp: seg_fields_ok_def)
next
  case False
  with assms show ?thesis by (intro exI [of _ "sd_duration d"]) (simp add: seg_duration_def)
qed

lemma seg_upid_typed:
  assumes "seg_upid d buf = Some (Ok (d', rest))"
  shows "\<exists>t u m. d' = d\<lparr>sd_upidType := t, sd_upid := u, sd_mid := m\<rparr> \<and>
    (if t = SegUPIDMID then u = [] else m = [] \<and> length u < 256)"
proof (cases "fst (readByte buf) = SegUPIDMID")
  case True
  with assms obtain m where "d' = d\<lparr>sd_upidType := SegUPIDMID, sd_upid := [], sd_mid := m\<rparr>"
    by (cases d) (auto simp: seg_upid_def Let_def split: prod.splits)
  then show ?thesis by (intro exI [of _ SegUPIDMID] exI [of _ "[]"] exI [of _ m]) simp
next
  case False
  let ?n = "unat (fst (readByte (snd (readByte buf))))" and ?b = "snd (readByte (snd (readByte buf)))"
  from assms False have "d' = d\<lparr>sd_upidType := fst (readByte buf), sd_upid := fst (Next ?n ?b), sd_mid := []\<rparr>"
    by (cases d) (auto simp: seg_upid_def Let_def split: if_splits)
  moreover have "length (fst (Next ?n ?b)) < 256" using unat_byte_256 [of "fst (readByte (snd (readByte buf)))"] by (simp add: Next_def)
  ultimately show ?thesis using False
    by (intro exI [of _ "fst (readByte buf)"] exI [of _ "fst (Next ?n ?b)"] exI [of _ "[]"]) simp
qed

lemma parse_event_typed:
  assumes "parse_event (CreateSegmentationDescriptor\<lparr>sd_eventID := v\<rparr>) buf = Some (Ok d)"
  shows "seg_typed d"
proof -
  define d0 where d0: "d0 = seg_flags (CreateSegmentationDescriptor\<lparr>sd_eventID := v\<rparr>) (fst (readByte buf))"
  note f = seg_flags_typed [OF d0]
  from assms obtain d1 b1 d2 b2 d3 b3 where st: "seg_components d0 (snd (readByte buf)) = Ok (d1, b1)"
    "seg_duration d1 b1 = Ok (d2, b2)" "seg_upid d2 b2 = Some (Ok (d3, b3))" "d = seg_tail d3 b3"
    by (auto simp: parse_event_def Let_def d0 split: res.splits prod.splits)
  from seg_components_typed [OF st(1)] f obtain cs where d1: "d1 = d0\<lparr>sd_components := cs\<rparr>" "seg_fields_ok d1" by blast
  with seg_duration_typed [OF st(2)] f obtain w where d2: "d2 = d1\<lparr>sd_duration := w\<rparr>" "seg_fields_ok d2" by auto
  from seg_upid_typed [OF st(3)] obtain t u m where d3: "d3 = d2\<lparr>sd_upidType := t, sd_upid := u, sd_mid := m\<rparr>"
    "if t = SegUPIDMID then u = [] else m = [] \<and> length u < 256" by blast
  have "seg_fields_ok d" "seg_tail_ok d" "\<not> sd_eventCancelIndicator d" "sd_upidType d = t" "sd_upid d = u" "sd_mid d = m"
    using f d1 d2 d3(1) by (auto simp: st(4) seg_tail_def seg_tail_ok_def seg_fields_ok_def Let_def)
  with d3(2) show ?thesis by (simp add: seg_typed_def)
qed

lemma parseDescriptor_typed:
  assumes "parseDescriptor CreateSegmentationDescriptor data = Some (Ok d)"
  shows "seg_typed d"
proof -
  have z: "CreateSegmentationDescriptor\<lparr>sd_eventID := v, sd_eventCancelIndicator := False\<rparr> =
      CreateSegmentationDescriptor\<lparr>sd_eventID := v\<rparr>" for v by (simp add: CreateSegmentationDescriptor_def)
  from assms obtain v b where "d = CreateSegmentationDescriptor\<lparr>sd_eventID := v, sd_eventCancelIndicator := True\<rparr> \<or>
      parse_event (CreateSegmentationDescriptor\<lparr>sd_eventID := v\<rparr>) b = Some (Ok d)"
    by (auto simp: parseDescriptor_def Let_def z split: res.splits if_splits)
  then show ?thesis using parse_event_typed by (auto simp: seg_typed_def)
qed

section \<open>Messages\<close>

lemma desc_loop_typed:
  assumes "desc_loop n k buf others descs = Some (Ok (others', descs'))" "\<forall>d \<in> set descs. seg_typed d"
  shows "\<forall>d \<in> set descs'. seg_typed d"
proof -
  let ?P = "\<lambda>descs r. \<forall>o' ds'. r = Ok (o', ds') \<longrightarrow> (\<forall>d \<in> set descs. seg_typed d) \<longrightarrow> (\<forall>d \<in> set ds'. seg_typed d)"
  have "?P descs (Ok (others', descs'))"
  proof (rule desc_loop.raw_induct [OF _ assms(1), where P = "\<lambda>n k buf others descs r. ?P descs r"])
    fix loop :: "u16 \<Rightarrow> u16 \<Rightarrow> byte list \<Rightarrow> byte list \<Rightarrow> segmentationDescriptor list \<Rightarrow>
      (byte list \<times> segmentationDescriptor list) res option"
    fix l br :: u16 and buf others descs r
    let ?tag = "fst (readByte buf)" and ?len = "fst (readByte (snd (readByte buf)))"
    let ?b = "snd (readByte (snd (readByte buf)))"
    let ?body = "fst (Next (unat ?len) ?b)" and ?rest = "snd (Next (unat ?len) ?b)" and ?br = "br + (2 + ucast ?len)"
    assume ih: "\<And>l br buf others descs r. loop l br buf others descs = Some r \<Longrightarrow> ?P descs r"
      and body: "(if br < l then
        let descTag = fst (readByte buf); buf = snd (readByte buf);
            descLen = fst (readByte buf); buf = snd (readByte buf);
            body = fst (Next (unat descLen) buf); buf = snd (Next (unat descLen) buf)
        in if l - br - 2 < ucast descLen then Some (Err ErrInvalidSCTE35Length)
           else if descTag \<noteq> segDescTag then
             loop l (br + (2 + ucast descLen)) buf (others @ [descTag, descLen] @ body) descs
           else Option.bind (parseDescriptor CreateSegmentationDescriptor body) (\<lambda>r.
             case r of
               Ok d \<Rightarrow> loop l (br + (2 + ucast descLen)) buf others (descs @ [d])
             | Err e \<Rightarrow> Some (Err e)
             | Panic \<Rightarrow> Some Panic)
      else Some (Ok (others, descs))) = Some r"
    consider (stop) "r = Ok (others, descs)" | (bad) "r = Err ErrInvalidSCTE35Length"
      | (other) "loop l ?br ?rest (others @ [?tag, ?len] @ ?body) descs = Some r"
      | (seg) "Option.bind (parseDescriptor CreateSegmentationDescriptor ?body) (\<lambda>r. case r of
          Ok d \<Rightarrow> loop l ?br ?rest others (descs @ [d]) | Err e \<Rightarrow> Some (Err e) | Panic \<Rightarrow> Some Panic) = Some r"
      using body unfolding Let_def by (metis option.inject)
    then show "?P descs r"
    proof cases
      case other
      from ih [OF this] show ?thesis .
    next
      case seg
      then obtain q where q: "parseDescriptor CreateSegmentationDescriptor ?body = Some q"
        "(case q of Ok d \<Rightarrow> loop l ?br ?rest others (descs @ [d]) | Err e \<Rightarrow> Some (Err e) | Panic \<Rightarrow> Some Panic) = Some r"
        by (auto simp: bind_eq_Some_conv)
      show ?thesis
      proof (cases q)
        case (Ok d)
        with q ih [of l ?br ?rest others "descs @ [d]" r] parseDescriptor_typed [of ?body d] show ?thesis by simp
      qed (use q in auto)
    qed simp_all
  qed
  with assms(2) show ?thesis by blast
qed

definition cmd_typed :: "spliceCommand \<Rightarrow> bool" where
  "cmd_typed c \<longleftrightarrow>
     (case c of NullCommand \<Rightarrow> True
      | TimeSignalCommand t \<Rightarrow> ts_hasPTS t \<and> unat (ts_pts t) < 2 ^ 33
      | SpliceInsertCommand i \<Rightarrow> si_typed i)"

lemma parseTimeSignal_typed: "parseTimeSignal buf = Ok (t, rest) \<Longrightarrow> cmd_typed (TimeSignalCommand t)"
  by (auto simp: parseTimeSignal_def cmd_typed_def CreateTimeSignalCommand_def time_ok_def
      dest: parseSpliceTime_typed split: if_splits)

lemma unat_PTS_Add_less: "unat (PTS_Add p x) < 2 ^ 33"
  using unat_and_33 [of "p + x"] by (simp add: PTS_Add_def MaxPtsValue_def)

lemma parse_command_typed:
  assumes "parse_command s adj buf = Ok (s', rest)" "sc_pts s = 0"
  shows "\<exists>p c. s' = s\<lparr>sc_pts := p, sc_commandInfo := c\<rparr> \<and> cmd_typed c \<and> CommandType c = sc_commandType s \<and> unat p < 2 ^ 33 \<and>
    (c = NullCommand \<longrightarrow> p = 0)"
proof -
  consider (time) t b where "sc_commandType s = TimeSignal" "parseTimeSignal buf = Ok (t, b)"
      "s' = s\<lparr>sc_pts := PTS_Add (cmd_PTS (TimeSignalCommand t)) adj, sc_commandInfo := TimeSignalCommand t\<rparr>"
    | (insert) i b where "sc_commandType s = SpliceInsert" "parseSpliceInsert buf = Ok (i, b)"
      "s' = s\<lparr>sc_pts := PTS_Add (cmd_PTS (SpliceInsertCommand i)) adj, sc_commandInfo := SpliceInsertCommand i\<rparr>"
    | (null) "sc_commandType s = SpliceNull" "s' = s\<lparr>sc_commandInfo := NullCommand\<rparr>"
    using assms(1) by (auto simp: parse_command_def splice_command_types split: if_splits)
  then show ?thesis
  proof cases
    case time
    with parseTimeSignal_typed [OF time(2)] unat_PTS_Add_less show ?thesis
      by (intro exI [of _ "PTS_Add (cmd_PTS (TimeSignalCommand t)) adj"] exI [of _ "TimeSignalCommand t"]) simp
  next
    case insert
    with parseSpliceInsert_typed [OF insert(2)] unat_PTS_Add_less show ?thesis
      by (intro exI [of _ "PTS_Add (cmd_PTS (SpliceInsertCommand i)) adj"] exI [of _ "SpliceInsertCommand i"])
        (simp add: cmd_typed_def)
  next
    case null
    with assms(2) show ?thesis
      by (intro exI [of _ "sc_pts s"] exI [of _ NullCommand]) (simp add: cmd_typed_def)
  qed
qed

lemma parse_fixed_typed:
  assumes "parse_fixed s buf = Ok (s', adj, rest)"
  shows "unat (sc_encryptionAlgorithm s') < 64 \<and> unat (sc_tier s') < 4096 \<and> unat (sc_spliceCommandLength s') < 4096 \<and>
    sc_pts s' = sc_pts s \<and> sc_encryptedPacket s' = sc_encryptedPacket s \<and> sc_tableHeader s' = sc_tableHeader s \<and>
    sc_descriptors s' = sc_descriptors s \<and> sc_crc32 s' = sc_crc32 s \<and> sc_alignmentStuffing s' = sc_alignmentStuffing s"
proof -
  from assms obtain v e cw b0 b1 b2 ty where s': "s' = s\<lparr>sc_protocolVersion := v, sc_encryptionAlgorithm := e AND 0x3F,
      sc_cwIndex := cw, sc_tier := push_bit 4 (ucast (b0 :: byte)) OR drop_bit 4 (ucast (b1 AND 0xF0 :: byte)),
      sc_spliceCommandLength := push_bit 8 (ucast (b1 AND 0x0F)) OR ucast (b2 :: byte), sc_commandType := ty\<rparr>"
    by (auto simp: parse_fixed_def Let_def case_prod_beta split: if_splits)
  have "unat (e AND 0x3F) < 2 ^ 6" unfolding and_numeral_mask by (rule unat_less_bits) (auto simp: bit_simps)
  moreover have "unat (push_bit 4 (ucast b0) OR drop_bit 4 (ucast (b1 AND 0xF0)) :: u16) < 2 ^ 12"
    by (rule unat_less_bits) (auto simp: bit_simps)
  moreover have "unat (push_bit 8 (ucast (b1 AND 0x0F)) OR ucast b2 :: u16) < 2 ^ 12"
    unfolding and_numeral_mask by (rule unat_less_bits) (auto simp: bit_simps)
  ultimately show ?thesis by (simp add: s')
qed

definition sc_typed :: "scte35 \<Rightarrow> bool" where
  "sc_typed s \<longleftrightarrow> th_TableID (sc_tableHeader s) = 0xFC \<and> \<not> sc_encryptedPacket s \<and> unat (sc_encryptionAlgorithm s) < 64 \<and>
     unat (sc_pts s) < 2 ^ 33 \<and> unat (sc_tier s) < 4096 \<and> unat (sc_spliceCommandLength s) < 4096 \<and>
     sc_commandType s = CommandType (sc_commandInfo s) \<and> cmd_typed (sc_commandInfo s) \<and>
     (sc_commandInfo s = NullCommand \<longrightarrow> sc_pts s = 0) \<and> sc_crc32 s = 0 \<and> sc_alignmentStuffing s = 0 \<and>
     (\<forall>d \<in> set (sc_descriptors s). seg_typed d)"

lemma parsed_typed:
  assumes "NewSCTE35 data = Some (Ok s)"
  shows "sc_typed s"
proof -
  from assms obtain th b0 z adj b1 s1 b2 others descs d where
    1: "th_TableID th = 0xFC" "parse_fixed (zero_scte35\<lparr>sc_tableHeader := th\<rparr>) b0 = Ok (z, adj, b1)"
      "parse_command z adj b1 = Ok (s1, b2)" "parse_descriptors b2 = Some (Ok (others, descs))"
    and s: "s = s1\<lparr>sc_otherDescriptorBytes := sc_otherDescriptorBytes s1 @ others,
      sc_descriptors := sc_descriptors s1 @ descs, sc_data := d\<rparr>"
    by (auto simp: NewSCTE35_def parseTable_def split: res.splits if_splits)
  note f = parse_fixed_typed [OF 1(2)]
  from parse_command_typed [OF 1(3)] f obtain p c where c: "s1 = z\<lparr>sc_pts := p, sc_commandInfo := c\<rparr>" "cmd_typed c"
    "CommandType c = sc_commandType z" "unat p < 2 ^ 33" "c = NullCommand \<longrightarrow> p = 0" by (auto simp: zero_scte35_def)
  have "\<forall>d \<in> set descs. seg_typed d"
    using desc_loop_typed 1(4) by (fastforce simp: parse_descriptors_def Let_def split: if_splits)
  then show ?thesis using f c 1(1) by (simp add: sc_typed_def s zero_scte35_def)
qed

text \<open>C18: whatever bytes it is given, a message that \<open>NewSCTE35\<close> returns is well typed: every
  field is within its width, the command is the one that its type announces, times and durations are within the
  clock, and the fields that a flag switches off have their zero values, in the command and in every
  descriptor.\<close>

theorem parsed_well_typed:
  assumes "NewSCTE35 data = Some (Ok s)"
  shows "sc_typed s"
  by (rule parsed_typed [OF assms])

lemma example_parsed:
  "NewSCTE35 (0 # unsigned_bytes example_message @ [0, 0, 0, 0]) =
    Some (Ok ((with_lengths example_message)\<lparr>sc_alignmentStuffing := 0,
      sc_data := unsigned_bytes example_message @ [0, 0, 0, 0]\<rparr>))"
  using message_parse [OF example_message_ok, of "[]" "[0, 0, 0, 0]"] by simp

theorem parsed_well_typed_witness:
  "sc_typed ((with_lengths example_message)\<lparr>sc_alignmentStuffing := 0,
     sc_data := unsigned_bytes example_message @ [0, 0, 0, 0]\<rparr>)"
  by (rule parsed_well_typed [OF example_parsed])

section \<open>Writing back what was read\<close>

text \<open>The messages that can be written back: what is lost otherwise is listed with the parser and the writer.\<close>

definition simple_cmd :: "spliceCommand \<Rightarrow> bool" where
  "simple_cmd c \<longleftrightarrow> (case c of SpliceInsertCommand i \<Rightarrow> \<not> si_eventCancelIndicator i \<and> si_components i = [] | _ \<Rightarrow> True)"

definition rewritable :: "scte35 \<Rightarrow> bool" where
  "rewritable s \<longleftrightarrow> simple_cmd (sc_commandInfo s) \<and> sc_otherDescriptorBytes s = [] \<and>
     (\<forall>d \<in> set (sc_descriptors s). (sd_upidType d = SegUPIDMID \<longrightarrow> seg_upid_ok d) \<and> length (seg_Data d) < 258) \<and> section_size s \<le> 1023"

lemma rewritable_ok:
  assumes "sc_typed s" "rewritable s"
  shows "message_ok s []"
proof -
  have "encryption AND 0x3F = encryption" if "unat encryption < 64" for encryption :: byte
    unfolding and_numeral_mask by (rule take_bit_word_small) (use that in simp)
  moreover have "seg_ok d" if "d \<in> set (sc_descriptors s)" for d
    using assms that by (auto simp: sc_typed_def rewritable_def seg_typed_def seg_ok_def seg_upid_ok_def)
  moreover have "cmd_ok (sc_commandInfo s)"
    using assms by (cases "sc_commandInfo s") (auto simp: sc_typed_def rewritable_def simple_cmd_def cmd_typed_def si_typed_def)
  moreover have "unat (cmd_PTS (sc_commandInfo s)) < 2 ^ 33"
    using assms(1) by (cases "sc_commandInfo s")
      (auto simp: sc_typed_def cmd_typed_def ts_PTS_def si_PTS_def si_typed_def si_ok_def time_ok_def zero_spliceInsert_def
        split: if_splits dest: arg_cong [where f = si_pts])
  ultimately show ?thesis using assms unfolding message_ok_def fixed_ok_def sc_typed_def rewritable_def by auto
qed

text \<open>C19: for a message that \<open>NewSCTE35\<close> returned, \<open>UpdateData\<close> succeeds, and its
  bytes are read again as a message with the same command, times, tier and descriptors, provided the message has
  none of the following (\<open>rewritable\<close>): unknown descriptors, a cancelled splice insert (its missing
  fields would be written), a splice insert with components, a descriptor with multiple UPIDs whose recorded lengths
  are not their true ones or that is too long, a descriptor that is written with more than 257 bytes, and a section
  of more than 1023 bytes.\<close>

theorem rewrite_stable:
  assumes "NewSCTE35 data = Some (Ok s)" "rewritable s"
  shows "\<exists>bytes s'. UpdateData s = Ok (bytes, s') \<and> NewSCTE35 (0 # bytes) = Some (Ok s') \<and>
    sc_PTS s' = sc_PTS s \<and> sc_Tier s' = sc_Tier s \<and> sc_CommandInfo s' = sc_CommandInfo s \<and>
    sc_Descriptors s' = sc_Descriptors s"
proof -
  note t = parsed_typed [OF assms(1)]
  note ok = rewritable_ok [OF t assms(2)]
  let ?u = "unsigned_bytes s" let ?s = "(with_lengths s)\<lparr>sc_data := ?u @ ComputeCRC ?u\<rparr>"
  have "UpdateData s = Ok (?u @ ComputeCRC ?u, ?s)"
    by (rule UpdateData_layout) (use ok in \<open>simp add: message_ok_def\<close>)
  moreover have "length (ComputeCRC ?u) = 4" by (simp add: ComputeCRC_residue)
  then have "NewSCTE35 (0 # ?u @ ComputeCRC ?u) = Some (Ok (?s\<lparr>sc_alignmentStuffing := 0\<rparr>))"
    using message_parse [OF ok, of "[]" "ComputeCRC ?u"] by simp
  moreover have "?s\<lparr>sc_alignmentStuffing := 0\<rparr> = ?s" using t by (cases s) (simp add: sc_typed_def with_lengths_def)
  ultimately show ?thesis
    by (intro exI [of _ "?u @ ComputeCRC ?u"] exI [of _ ?s])
      (simp add: sc_PTS_def sc_Tier_def sc_CommandInfo_def sc_Descriptors_def with_lengths_def)
qed

abbreviation simple_message :: scte35 where
  "simple_message \<equiv> example_message\<lparr>sc_otherDescriptorBytes := []\<rparr>"

lemma simple_message_ok: "message_ok simple_message []" "rewritable simple_message"
proof -
  have i: "si_components example_insert = []" "\<not> si_eventCancelIndicator example_insert"
    by (simp_all add: CreateSpliceInsertCommand_def zero_spliceInsert_def)
  have "length (si_Data example_insert) = 20"
    by (simp add: si_Data_def spliceTimeBytes_def duration_bytes_def CreateSpliceInsertCommand_def zero_spliceInsert_def)
  then have size: "section_size simple_message = 77"
    using example_segment_ok(2) by (simp add: section_size_def loop_bytes_def)
  then show "message_ok simple_message []"
    using example_insert_ok example_segment_ok i
    by (simp add: message_ok_def fixed_ok_def CreateSCTE35_def zero_scte35_def si_PTS_def)
  have "seg_upid_ok example_segment" using example_segment_ok(1) by (simp add: seg_ok_def CreateSegmentationDescriptor_def)
  then show "rewritable simple_message"
    using size example_segment_ok(2) i by (simp add: rewritable_def simple_cmd_def)
qed

theorem rewrite_stable_witness:
  "\<exists>data s bytes s'. NewSCTE35 data = Some (Ok s) \<and> sc_Descriptors s = [example_segment] \<and>
    UpdateData s = Ok (bytes, s') \<and> NewSCTE35 (0 # bytes) = Some (Ok s') \<and> sc_Descriptors s' = sc_Descriptors s"
proof -
  let ?s = "(with_lengths simple_message)\<lparr>sc_alignmentStuffing := 0, sc_data := unsigned_bytes simple_message @ [0, 0, 0, 0]\<rparr>"
  have p: "NewSCTE35 (0 # unsigned_bytes simple_message @ [0, 0, 0, 0]) = Some (Ok ?s)"
    using message_parse [OF simple_message_ok(1), of "[]" "[0, 0, 0, 0]"] by simp
  have d: "sc_Descriptors ?s = [example_segment]" by (simp add: sc_Descriptors_def with_lengths_def)
  have "section_size ?s \<le> section_size simple_message" by (simp add: section_size_def with_lengths_def loop_bytes_def)
  then have "rewritable ?s" using simple_message_ok(2) by (simp add: rewritable_def with_lengths_def)
  from rewrite_stable [OF p this] p d show ?thesis by metis
qed

end
