(* ===== verification/Scte_String.thy ===== *)
theory Scte_String
  imports Scte_Message
begin

text \<open>
  \<^verbatim>\<open>String\<close> of \<^verbatim>\<open>gots/scte35/scte35.go\<close>: the text of a message.  It calls \<^verbatim>\<open>UpdateData\<close> first, so that it
  returns a changed message.  A Go string is a list of bytes, here of their characters; every line is
  printed behind three spaces for each level of indentation.
\<close>

section \<open>Lines\<close>

text \<open>\<^verbatim>\<open>indentPrintf\<close> at a level, with the newline that ends all formats but one.\<close>

definition indent :: "nat \<Rightarrow> string" where
  "indent n = concat (replicate n ''   '')"

definition indent_line :: "nat \<Rightarrow> string \<Rightarrow> string" where
  "indent_line n s = indent n @ s @ [CHR 0x0A]"

definition show_bool :: "bool \<Rightarrow> string" where
  "show_bool b = (if b then ''true'' else ''false'')"

definition show_word :: "'a::len word \<Rightarrow> string" where "show_word w = show_nat (unat w)"
definition hex_word :: "'a::len word \<Rightarrow> string" where "hex_word w = show_HEX (unat w)"

text \<open>\<^verbatim>\<open>%X\<close> of a byte slice has two digits for each byte.\<close>

definition HEX_bytes :: "byte list \<Rightarrow> string" where
  "HEX_bytes bs = concat (map (\<lambda>b. [upper_digit (unat b div 16), upper_digit (unat b mod 16)]) bs)"

definition name_of :: "('k \<times> string) list \<Rightarrow> 'k \<Rightarrow> string" where
  "name_of names k = (case map_of names k of Some s \<Rightarrow> s | None \<Rightarrow> '''')"

section \<open>The command\<close>

text \<open>The time of a component is printed as the time of the command.  The fields behind the components are printed
  with every component, and not at all without one.\<close>

definition component_string :: "spliceInsert \<Rightarrow> component \<Rightarrow> string" where
  "component_string cmd cpt =
     indent_line 1 ''component:'' @
     indent_line 2 (''component_tag: 0x'' @ hex_word (co_ComponentTag cpt)) @
     indent_line 2 (''component_has_pts: '' @ show_bool (co_HasPTS cpt)) @
     (if co_HasPTS cpt then indent_line 2 (''component_pts: '' @ show_word (si_PTS cmd)) else []) @
     (if si_HasDuration cmd then
        indent_line 1 (''auto_return: '' @ show_bool (si_IsAutoReturn cmd)) @
        indent_line 1 (''duration: '' @ show_word (si_Duration cmd))
      else []) @
     indent_line 1 (''unique_program_id: %!t(uint16='' @ show_word (si_UniqueProgramId cmd) @ '')'') @
     indent_line 1 (''avail_num: '' @ show_word (si_AvailNum cmd)) @
     indent_line 1 (''avails_expected: '' @ show_word (si_AvailsExpected cmd))"

text \<open>\<^verbatim>\<open>unique_program_id\<close> is printed with \<^verbatim>\<open>%t\<close>, which of a number gives \<^verbatim>\<open>%!t(uint16=n)\<close>.\<close>

definition insert_string :: "spliceInsert \<Rightarrow> string" where
  "insert_string cmd =
     indent_line 1 (''splice_event_id: 0x'' @ hex_word (si_EventID cmd)) @
     indent_line 1 (''splice_event_cancel_indicator: '' @ show_bool (si_IsEventCanceled cmd)) @
     (if \<not> si_IsEventCanceled cmd then
        indent_line 1 (''out_of_network_indicator: '' @ show_bool (si_IsOut cmd)) @
        indent_line 1 (''program_splice_flag: '' @ show_bool (si_IsProgramSplice cmd)) @
        indent_line 1 (''duration_flag: '' @ show_bool (si_HasDuration cmd)) @
        indent_line 1 (''splice_immediate_flag: '' @ show_bool (si_SpliceImmediate cmd)) @
        indent_line 1 (''splice_time_has_pts: '' @ show_bool (si_HasPTS cmd)) @
        (if si_HasPTS cmd then indent_line 1 (''splice_time_pts: '' @ show_word (si_PTS cmd)) else []) @
        indent_line 1 (''component_count: '' @ show_nat (length (si_Components cmd))) @
        concat (map (component_string cmd) (si_Components cmd))
      else [])"

text \<open>The interface \<^verbatim>\<open>TimeSignalCommand\<close> asks for no more than \<^verbatim>\<open>SpliceCommand\<close>: every command passes for one.\<close>

definition command_string :: "spliceCommand \<Rightarrow> string" where
  "command_string c =
     (case c of SpliceInsertCommand cmd \<Rightarrow> insert_string cmd | _ \<Rightarrow> []) @
     indent_line 1 (''time_specified_flag: '' @ show_bool (cmd_HasPTS c)) @
     (if cmd_HasPTS c then indent_line 1 (''pts_time: '' @ show_word (cmd_PTS c)) else [])"

section \<open>The descriptors\<close>

definition offset_string :: "componentOffset \<Rightarrow> string" where
  "offset_string cpt =
     indent_line 1 ''component:'' @
     indent_line 2 (''component_tag: 0x'' @ hex_word (cf_ComponentTag cpt)) @
     indent_line 2 (''pts_offset: '' @ show_word (cf_PTSOffset cpt))"

definition mid_string :: "upidSt \<Rightarrow> string" where
  "mid_string upid =
     indent_line 2 ''upid:'' @
     indent_line 3 (''segmentation_mid_upid_type: '' @ name_of SegUPIDTypeNames (up_UPIDType upid)) @
     indent_line 3 (''segmentation_mid_upid: '' @ string_of_bytes (up_UPID upid))"

definition restrictions_string :: "segmentationDescriptor \<Rightarrow> string" where
  "restrictions_string desc =
     indent_line 1 (''web_delivery_allowed_flag: '' @ show_bool (seg_IsWebDeliveryAllowed desc)) @
     indent_line 1 (''no_regional_blackout_flag: '' @ show_bool (seg_HasNoRegionalBlackout desc)) @
     indent_line 1 (''archive_allowed_flag: '' @ show_bool (seg_IsArchiveAllowed desc)) @
     indent_line 1 (''device_restrictions: '' @ name_of DeviceRestrictionsNames (seg_GetDeviceRestrictions desc))"

definition event_string :: "segmentationDescriptor \<Rightarrow> string" where
  "event_string desc =
     indent_line 1 (''program_segmentation_flag: '' @ show_bool (seg_HasProgramSegmentation desc)) @
     indent_line 1 (''segmentation_duration_flag: '' @ show_bool (seg_HasDuration desc)) @
     indent_line 1 (''delivery_not_restricted_flag: '' @ show_bool (seg_IsDeliveryNotRestricted desc)) @
     (if \<not> seg_IsDeliveryNotRestricted desc then restrictions_string desc else []) @
     (if \<not> seg_HasProgramSegmentation desc then
        indent_line 1 (''component_count: '' @ show_nat (length (seg_Components desc))) @
        concat (map offset_string (seg_Components desc))
      else []) @
     (if seg_HasDuration desc then indent_line 1 (''segmentation_duration: '' @ show_word (seg_Duration desc)) else []) @
     indent_line 1 (''segmentation_upid_type: '' @ name_of SegUPIDTypeNames (seg_UPIDType desc)) @
     (if seg_UPIDType desc \<noteq> SegUPIDMID then
        indent_line 1 (''segmentation_upid: '' @ string_of_bytes (seg_UPID desc))
      else indent_line 1 ''segmentation_mid: '' @ concat (map mid_string (seg_MID desc))) @
     indent_line 1 (''segmentation_type_id: '' @ name_of SegDescTypeNames (seg_TypeID desc)) @
     indent_line 1 (''segment_num: 0x'' @ hex_word (seg_SegmentNumber desc)) @
     indent_line 1 (''segments_expected: 0x'' @ hex_word (seg_SegmentsExpected desc)) @
     (if seg_HasSubSegments desc then
        indent_line 1 (''sub_segment_num: 0x'' @ hex_word (seg_SubSegmentNumber desc)) @
        indent_line 1 (''sub_segments_expected: 0x'' @ hex_word (seg_SubSegmentsExpected desc))
      else [])"

text \<open>The marks of in and out descriptors are formatted and dropped.\<close>

definition segment_string :: "segmentationDescriptor \<Rightarrow> string" where
  "segment_string desc =
     indent_line 0 ''descriptor:'' @
     indent_line 1 (''segmentation_event_id: 0x'' @ hex_word (seg_EventID desc)) @
     indent_line 1 (''segmentation_event_cancel_indicator: '' @ show_bool (seg_IsEventCanceled desc)) @
     (if \<not> seg_IsEventCanceled desc then event_string desc else [])"

section \<open>The message\<close>

definition fields_string :: "scte35 \<Rightarrow> string" where
  "fields_string s =
     indent_line 0 (''table_id: 0x'' @ hex_word (th_TableID (sc_tableHeader s))) @
     indent_line 0 (''section_syntax_indicator: '' @ show_bool (th_SectionSyntaxIndicator (sc_tableHeader s))) @
     indent_line 0 (''private_indicator: '' @ show_bool (th_PrivateIndicator (sc_tableHeader s))) @
     indent_line 0 (''section_length: '' @ show_word (th_SectionLength (sc_tableHeader s))) @
     indent_line 0 (''protocol_version: 0x'' @ hex_word (sc_protocolVersion s)) @
     indent_line 0 (''encrypted_packet: '' @ show_bool (sc_encryptedPacket s)) @
     indent_line 0 (''encryption_algorithm: 0x'' @ hex_word (sc_encryptionAlgorithm s)) @
     indent_line 0 (''has_pts: '' @ show_bool (sc_HasPTS s)) @
     indent_line 0 (''adjusted_pts: '' @ show_word (sc_PTS s)) @
     indent_line 0 (''cw_index: 0x'' @ hex_word (sc_cwIndex s)) @
     indent_line 0 (''tier: 0x'' @ hex_word (sc_tier s)) @
     indent_line 0 (''splice_command_type: '' @ name_of SpliceCommandTypeNames (sc_commandType s))"

definition message_string :: "scte35 \<Rightarrow> string" where
  "message_string s =
     fields_string s @ command_string (sc_commandInfo s) @
     indent_line 0 (''descriptor_count: '' @ show_nat (length (sc_Descriptors s))) @
     concat (map segment_string (sc_descriptors s)) @
     indent_line 0 (''alignment_stuffing_byte_count: '' @ show_word (sc_alignmentStuffing s)) @
     ''CRC_32: 0x'' @ HEX_bytes (drop (length (sc_data s) - 4) (sc_data s))"

definition sc_String :: "scte35 \<Rightarrow> (string \<times> scte35) res" where
  "sc_String s = res_bind (UpdateData s) (\<lambda>(_, s).
     if length (sc_data s) < 4 then Panic else Ok (message_string s, s))"

section \<open>Printing changes the message once\<close>

text \<open>\<open>UpdateData\<close> in three parts: the size, the message with its lengths set, and the bytes.\<close>

definition section_length :: "scte35 \<Rightarrow> u64" where
  "section_length s = 13 + of_nat (length (cmd_Data (sc_commandInfo s))) + of_nat (length (descriptor_bytes s) - 2) +
     of_nat CrcLen + sc_alignmentStuffing s"

definition measured :: "scte35 \<Rightarrow> scte35" where
  "measured s = s\<lparr>sc_spliceCommandLength := of_nat (length (cmd_Data (sc_commandInfo s))),
     sc_tableHeader := (sc_tableHeader s)\<lparr>th_SectionLength := ucast (section_length s)\<rparr>\<rparr>"

definition written :: "scte35 \<Rightarrow> byte list" where
  "written s =
     (let header = TableHeader_Data (sc_tableHeader s); command = cmd_Data (sc_commandInfo s);
          data = replicate (nat (int (length header) + sint (section_length s))) 0;
          data = go_copy data (length header) (section_fields s);
          data = go_copy data 0 header;
          data = go_copy data (length header + 11) command;
          data = go_copy data (length header + 11 + length command) (descriptor_bytes s)
      in go_copy data (length data - CrcLen) (ComputeCRC (take (length data - CrcLen) data)))"

lemma descriptor_bytes_fields [simp]:
  "descriptor_bytes (s\<lparr>sc_spliceCommandLength := l\<rparr>) = descriptor_bytes s"
  "descriptor_bytes (s\<lparr>sc_tableHeader := th\<rparr>) = descriptor_bytes s"
  "descriptor_bytes (s\<lparr>sc_data := d\<rparr>) = descriptor_bytes s"
  by (simp_all add: descriptor_bytes_def)

lemma section_fields_data [simp]: "section_fields (s\<lparr>sc_data := d\<rparr>) = section_fields s"
  by (simp add: section_fields_def)

lemma UpdateData_parts:
  "UpdateData s =
     (if int (length (TableHeader_Data (sc_tableHeader (measured s)))) + sint (section_length s) <
         int (length (TableHeader_Data (sc_tableHeader (measured s))) + 11 + length (cmd_Data (sc_commandInfo s))) then Panic
      else Ok (written (measured s), (measured s)\<lparr>sc_data := written (measured s)\<rparr>))"
  unfolding UpdateData_def written_def measured_def section_length_def Let_def
  by (simp del: length_header)

lemma measured_again:
  "section_length ((measured s)\<lparr>sc_data := d\<rparr>) = section_length s"
  "measured ((measured s)\<lparr>sc_data := d\<rparr>) = (measured s)\<lparr>sc_data := d\<rparr>"
  "written ((measured s)\<lparr>sc_data := d\<rparr>) = written (measured s)"
  by (simp_all add: measured_def section_length_def written_def)

lemma UpdateData_again:
  assumes "UpdateData s = Ok (bytes, s')"
  shows "UpdateData s' = Ok (bytes, s')" "sc_data s' = bytes" "14 \<le> length bytes"
proof -
  have ok: "\<not> int 3 + sint (section_length s) < int (3 + 11 + length (cmd_Data (sc_commandInfo s)))"
    and s': "s' = (measured s)\<lparr>sc_data := written (measured s)\<rparr>" "bytes = written (measured s)"
    using assms unfolding UpdateData_parts length_header by (auto split: if_splits)
  show "sc_data s' = bytes" by (simp add: s')
  have "sc_commandInfo s' = sc_commandInfo s" by (simp add: s' measured_def)
  moreover have "section_length s' = section_length s" by (simp only: s' measured_again)
  moreover have "measured s' = s'" "written s' = bytes" by (simp_all only: s' measured_again)
  moreover have "s'\<lparr>sc_data := bytes\<rparr> = s'" by (simp add: s')
  ultimately show "UpdateData s' = Ok (bytes, s')"
    using ok unfolding UpdateData_parts length_header by (simp only: if_False)
  have m: "section_length (measured s) = section_length s" "sc_commandInfo (measured s) = sc_commandInfo s"
    by (simp_all add: measured_def section_length_def)
  have "length (written (measured s)) = nat (3 + sint (section_length s))"
    using ok by (simp add: written_def Let_def m le_nat_iff)
  then show "14 \<le> length bytes" using ok s'(2) by simp
qed

text \<open>Printing a message leaves it as \<open>UpdateData\<close> would, with new bytes and lengths, panics only if that does, and
  from then on prints the same text and changes nothing.\<close>

theorem String_settles:
  "(sc_String s = Panic) = (UpdateData s = Panic) \<and>
   (sc_String s = Ok (str, s') \<longrightarrow> UpdateData s = Ok (sc_data s', s') \<and> sc_String s' = Ok (str, s'))"
proof (cases "UpdateData s")
  case (Ok r)
  then obtain bytes t where u: "UpdateData s = Ok (bytes, t)" by (cases r) auto
  note again = UpdateData_again [OF u]
  have "sc_String s = Ok (message_string t, t)" "sc_String t = Ok (message_string t, t)"
    using u again by (simp_all add: sc_String_def)
  with u again(2) show ?thesis by auto
qed (simp_all add: sc_String_def)

theorem String_settles_witness:
  "\<exists>str s'. sc_String example_message = Ok (str, s') \<and> sc_String s' = Ok (str, s')"
proof -
  have "section_size example_message \<le> 1023" using example_message_ok by (simp only: message_ok_def)
  from UpdateData_layout [OF this] obtain bytes t where u: "UpdateData example_message = Ok (bytes, t)" by blast
  then have "sc_String example_message = Ok (message_string t, t)"
    using UpdateData_again [OF u] by (simp add: sc_String_def)
  with String_settles [of example_message "message_string t" t] show ?thesis by blast
qed

end
