(* ===== verification/Section_Carriage.thy ===== *)
theory Section_Carriage
  imports Psi_Filter Scte_Message PacketIO Packet_Create
begin

text \<open>
  Sections in packets: what the accumulator (\<^verbatim>\<open>gots/packet/accumulator.go\<close>), the completion functions
  (\<^verbatim>\<open>gots/psi/pmt.go\<close>, \<^verbatim>\<open>gots/scte35/doc.go\<close>), the reader \<^verbatim>\<open>ReadPMT\<close> and the parsers do together on a section
  that is spread over several packets.  All code is in the theories of these components; here are the lemmas and
  properties about their composition.
\<close>

section \<open>Sections and the packets that carry them\<close>

text \<open>A section announces its own length.\<close>

definition section_bytes :: "byte list \<Rightarrow> bool" where
  "section_bytes s \<longleftrightarrow> 3 \<le> length s \<and> length s < 65536 \<and> s ! 0 \<noteq> 0xFF \<and>
     sectionLength s = Ok (of_nat (length s - 3))"

text \<open>
  Packets carry a section when the first and only the first starts a payload unit, their payloads together are a
  pointer field of zero, the section and something that the completion function accepts, the last packet is
  needed, and the first holds the header of the section.
\<close>

definition carries :: "packet list \<Rightarrow> byte list \<Rightarrow> byte list \<Rightarrow> bool" where
  "carries ps s rest \<longleftrightarrow> ps \<noteq> [] \<and> (\<forall>p \<in> set ps. wf_packet p) \<and> PayloadUnitStartIndicator (hd ps) \<and>
     (\<forall>p \<in> set (tl ps). \<not> PayloadUnitStartIndicator p) \<and> gather_payloads ps = Ok (0 # s @ rest) \<and>
     4 \<le> length (payload_of (hd ps)) \<and> length (concat (map payload_of (butlast ps))) < 1 + length s"

lemma unat_section:
  assumes "section_bytes s"
  shows "unat (of_nat (length s - 3) :: u16) = length s - 3"
  using assms unfolding section_bytes_def by (simp only: unat_of_nat) (rule mod_less, auto)

lemma done_prefix:
  assumes s: "section_bytes s" and n: "3 \<le> n" "n < length s"
  shows "done_loop (take n s) = Ok False"
proof -
  from s have l: "3 \<le> length s" "s ! 0 \<noteq> 0xFF" "sectionLength s = Ok (of_nat (length s - 3))"
    by (simp_all add: section_bytes_def)
  have "sectionLength (take n s) = Ok (of_nat (length s - 3))"
    using sectionLength_take [OF n(1) l(1)] l(3) by simp
  moreover have "length (take n s) < unat (of_nat (length s - 3) :: u16) + 3"
    using n l(1) unfolding unat_section [OF s] by simp
  moreover have "2 < length (take n s)" "take n s ! 0 \<noteq> 0xFF" using n l(2) by auto
  ultimately show ?thesis by (subst done_loop.simps) simp
qed

lemma done_whole:
  assumes s: "section_bytes s" and r: "done_loop rest = Ok True"
  shows "done_loop (s @ rest) = Ok True"
proof -
  from s have l: "3 \<le> length s" "s ! 0 \<noteq> 0xFF" "sectionLength s = Ok (of_nat (length s - 3))"
    by (simp_all add: section_bytes_def)
  have sl: "sectionLength (s @ rest) = Ok (of_nat (length s - 3))"
    using sectionLength_take [of "length s" "s @ rest"] l by simp
  have "unat (3 + of_nat (length s - 3) :: u16) = length s"
    using unat_3_plus [OF sl] l(1) unfolding unat_section [OF s] by simp
  then have "slice_from (s @ rest) (unat (3 + of_nat (length s - 3) :: u16)) = Ok rest"
    by (simp only: slice_def) simp
  moreover have "2 < length (s @ rest)" "(s @ rest) ! 0 \<noteq> 0xFF" using l by (cases s; simp)+
  moreover have "\<not> length (s @ rest) < unat (of_nat (length s - 3) :: u16) + 3"
    using l(1) unfolding unat_section [OF s] by simp
  ultimately show ?thesis using sl r by (subst done_loop.simps) simp
qed

lemma done_zeros: "done_loop (replicate k 0) = Ok True"
proof (induction k rule: less_induct)
  case (less k)
  show ?case
  proof (cases "k < 3")
    case False
    then have "sectionLength (replicate k 0) = Ok 0" by (simp add: sectionLength_def)
    moreover have "slice_from (replicate k (0 :: byte)) (unat (3 :: u16)) = Ok (replicate (k - 3) 0)"
      using False by (simp add: slice_def)
    ultimately show ?thesis using False less [of "k - 3"] by (subst done_loop.simps) simp
  qed (subst done_loop.simps, simp)
qed

lemma done_stuffing: "stuffing rest \<Longrightarrow> done_loop rest = Ok True"
  by (subst done_loop.simps) (auto simp: stuffing_def)

section \<open>Completion functions of sections\<close>

text \<open>
  What the users of the accumulator promise about sections: a section that is cut behind its header is not
  complete, a whole one is.
\<close>

locale section_done = done_function +
  assumes more: "section_bytes s \<Longrightarrow> 4 \<le> n \<Longrightarrow> n < 1 + length s \<Longrightarrow> f (take n (0 # s)) = Ok False"
    and enough: "section_bytes s \<Longrightarrow> done_loop rest = Ok True \<Longrightarrow> f (0 # s @ rest) = Ok True"
begin

text \<open>The accumulator when the packets \<open>qs\<close> of a unit have been written and more are missing.\<close>

definition held :: "packet list \<Rightarrow> accumulator" where
  "held qs = (if qs = [] then NewAccumulator
     else \<lparr>acc_buf = concat (map payload_of qs), acc_packets = qs, acc_state = stateAccumulating\<rparr>)"

lemma write_held:
  assumes "wf_packet p" "PayloadUnitStartIndicator p \<longleftrightarrow> qs = []" "Payload p = Ok b"
    and "f (concat (map payload_of (qs @ [p]))) = Ok d"
  shows "acc_WritePacket f (held qs) p =
    (if d then Ok ((held (qs @ [p]))\<lparr>acc_state := stateDone\<rparr>, 188, Some ErrAccumulatorDone)
     else Ok (held (qs @ [p]), 188, None))"
  using assms PacketSize_def
  by (cases "qs = []") (auto simp: acc_WritePacket_cases acc_add_def held_def NewAccumulator_def payload_of_def Let_def)

end

section \<open>Gathering\<close>

lemma gather_payloads_map:
  "gather_payloads ps = Ok pay \<longleftrightarrow> (\<forall>p \<in> set ps. \<exists>b. Payload p = Ok b) \<and> pay = concat (map payload_of ps)"
proof (induction ps arbitrary: pay)
  case (Cons p ps)
  show ?case unfolding gather_payloads_Cons_Ok by (auto simp: Cons.IH payload_of_def)
qed auto

text \<open>The prefixes of packets that carry a section.\<close>

lemma carries_split:
  assumes "carries (qs @ p # rs) s rest"
  shows "wf_packet p" "PayloadUnitStartIndicator p \<longleftrightarrow> qs = []" "\<exists>b. Payload p = Ok b"
    and "rs \<noteq> [] \<Longrightarrow> \<exists>n. 4 \<le> n \<and> n < 1 + length s \<and> concat (map payload_of (qs @ [p])) = take n (0 # s)"
    and "rs = [] \<Longrightarrow> concat (map payload_of (qs @ [p])) = 0 # s @ rest"
proof -
  let ?ps = "qs @ p # rs"
  from assms have c: "\<forall>p \<in> set ?ps. wf_packet p" "PayloadUnitStartIndicator (hd ?ps)"
    "\<forall>p \<in> set (tl ?ps). \<not> PayloadUnitStartIndicator p" "gather_payloads ?ps = Ok (0 # s @ rest)"
    "4 \<le> length (payload_of (hd ?ps))" "length (concat (map payload_of (butlast ?ps))) < 1 + length s"
    by (simp_all add: carries_def)
  from c(4) have g: "\<forall>p \<in> set ?ps. \<exists>b. Payload p = Ok b" "0 # s @ rest = concat (map payload_of ?ps)"
    by (simp_all add: gather_payloads_map)
  show "wf_packet p" "\<exists>b. Payload p = Ok b" using c(1) g(1) by simp_all
  show "PayloadUnitStartIndicator p \<longleftrightarrow> qs = []" using c(2,3) by (cases qs) auto
  show "concat (map payload_of (qs @ [p])) = 0 # s @ rest" if "rs = []" using that g(2) by simp
  show "\<exists>n. 4 \<le> n \<and> n < 1 + length s \<and> concat (map payload_of (qs @ [p])) = take n (0 # s)" if "rs \<noteq> []"
  proof (intro exI conjI)
    let ?n = "length (concat (map payload_of (qs @ [p])))"
    show "4 \<le> ?n" using c(5) by (cases qs) auto
    have "butlast ?ps = (qs @ [p]) @ butlast rs" using that by (simp add: butlast_append)
    then show n: "?n < 1 + length s" using c(6) by simp
    have "concat (map payload_of (qs @ [p])) = take ?n (concat (map payload_of ?ps))" by simp
    also have "\<dots> = take ?n (0 # s)" using n unfolding g(2) [symmetric] by (simp add: take_Cons')
    finally show "concat (map payload_of (qs @ [p])) = take ?n (0 # s)" .
  qed
qed

context section_done begin

lemma write_carried:
  assumes c: "carries (qs @ p # rs) s rest" and s: "section_bytes s" and r: "done_loop rest = Ok True"
  shows "acc_WritePacket f (held qs) p =
    (if rs = [] then Ok ((held (qs @ [p]))\<lparr>acc_state := stateDone\<rparr>, 188, Some ErrAccumulatorDone)
     else Ok (held (qs @ [p]), 188, None))"
proof -
  note cs = carries_split [OF c]
  from cs(3) obtain b where b: "Payload p = Ok b" by blast
  show ?thesis
  proof (cases "rs = []")
    case True
    with write_held [OF cs(1,2) b, of True] enough [OF s r] cs(5) [OF True] show ?thesis by simp
  next
    case False
    from cs(4) [OF False] obtain n where "4 \<le> n" "n < 1 + length s"
      "concat (map payload_of (qs @ [p])) = take n (0 # s)" by blast
    with write_held [OF cs(1,2) b, of False] more [OF s] False show ?thesis by simp
  qed
qed

lemma feed_carried:
  assumes "carries (qs @ rs) s rest" "section_bytes s" "done_loop rest = Ok True" "rs \<noteq> []"
  shows "\<exists>a. feed (acc_WritePacket f) (held qs) rs = Ok (a, 188 * length rs, Some ErrAccumulatorDone) \<and>
    acc_Bytes a = 0 # s @ rest \<and> acc_Packets a = qs @ rs \<and> acc_state a = stateDone"
  using assms
proof (induction rs arbitrary: qs)
  case (Cons p rs)
  note w = write_carried [OF Cons.prems(1-3)]
  show ?case
  proof (cases "rs = []")
    case True
    have "acc_Bytes (held (qs @ [p])\<lparr>acc_state := stateDone\<rparr>) = 0 # s @ rest"
      using carries_split(5) [OF Cons.prems(1) True] by (simp add: acc_Bytes_eq held_def)
    moreover have "acc_Packets (held (qs @ [p])\<lparr>acc_state := stateDone\<rparr>) = qs @ [p]"
      by (simp add: acc_Packets_eq held_def)
    ultimately show ?thesis using w True by simp
  next
    case False
    have "carries ((qs @ [p]) @ rs) s rest" using Cons.prems(1) by simp
    from Cons.IH [OF this Cons.prems(2,3) False] w False show ?thesis by auto
  qed
qed simp

lemma gathered:
  assumes "carries ps s rest" "section_bytes s" "done_loop rest = Ok True"
  shows "\<exists>a. feed (acc_WritePacket f) NewAccumulator ps = Ok (a, 188 * length ps, Some ErrAccumulatorDone) \<and>
    acc_Bytes a = 0 # s @ rest \<and> acc_Packets a = ps \<and> acc_state a = stateDone"
  using feed_carried [of "[]" ps s rest] assms by (simp add: held_def carries_def)

end

text \<open>Both completion functions of the library keep the promise.\<close>

interpretation pmt_section_done: section_done PmtAccumulatorDoneFunc
proof unfold_locales
  fix s rest :: "byte list" and n
  assume s: "section_bytes s"
  show "PmtAccumulatorDoneFunc (take n (0 # s)) = Ok False" if "4 \<le> n" "n < 1 + length s"
    using done_prefix [OF s, of "n - 1"] that
    by (cases n) (simp_all add: PmtAccumulatorDoneFunc_def PointerField_def slice_def)
  show "PmtAccumulatorDoneFunc (0 # s @ rest) = Ok True" if "done_loop rest = Ok True"
    using done_whole [OF s that] by (simp add: PmtAccumulatorDoneFunc_def PointerField_def slice_def)
qed

interpretation scte_section_done: section_done SCTE35AccumulatorDoneFunc
  by unfold_locales
    (simp_all only: SCTE35AccumulatorDoneFunc_def pmt_section_done.more pmt_section_done.enough)

section \<open>Reading a table from packets\<close>

lemma section_bytes_pmt:
  assumes "pmt_ok mid pinfo ss"
  shows "section_bytes (pmt_section mid pinfo ss)"
proof -
  from assms have ok: "length mid = 7" "pmt_length pinfo ss \<le> 1021" by (simp_all add: pmt_ok_def)
  have l: "length (pmt_section mid pinfo ss) = 3 + pmt_length pinfo ss" by (rule length_pmt_section [OF ok(1)])
  show ?thesis
    using sectionLength_section [OF ok(2), of mid "[]"] section_nth(1) [OF ok(1), of pinfo ss "[]"] ok(2)
    by (simp add: section_bytes_def l)
qed

lemma ReadFull_packet:
  "wf_packet p \<Longrightarrow> ReadFull \<lparr>br_left = p @ bs, br_end = e\<rparr> PacketSize = (\<lparr>br_left = bs, br_end = e\<rparr>, Ok p)"
  by (simp add: ReadFull_def wf_packet_def)

lemma ReadPMT_loop_carried:
  assumes "pmt_ok mid pinfo ss" "ss \<noteq> []" "stuffing rest"
    and "carries (qs @ filter (\<lambda>p. PID p = pid) pkts) (pmt_section mid pinfo ss) rest"
    and "\<forall>p \<in> set pkts. wf_packet p" "pkts \<noteq> []" "PID (last pkts) = pid"
  shows "ReadPMT_loop (pmt_section_done.held qs) \<lparr>br_left = concat pkts @ bs, br_end = e\<rparr> pid =
    (\<lparr>br_left = bs, br_end = e\<rparr>, Ok (pmt_parsed mid ss))"
  using assms(4-7)
proof (induction pkts arbitrary: qs)
  case (Cons p pkts)
  let ?s = "pmt_section mid pinfo ss"
  let ?f = "filter (\<lambda>p. PID p = pid) pkts"
  note sec = section_bytes_pmt [OF assms(1)] and dn = done_stuffing [OF assms(3)]
  have rf: "ReadFull \<lparr>br_left = concat (p # pkts) @ bs, br_end = e\<rparr> PacketSize =
      (\<lparr>br_left = concat pkts @ bs, br_end = e\<rparr>, Ok p)"
    using ReadFull_packet [of p "concat pkts @ bs" e] Cons.prems(2) by simp
  show ?case
  proof (cases "PID p = pid")
    case False
    with Cons.prems have "pkts \<noteq> []" by auto
    with Cons.IH [of qs] Cons.prems False rf show ?thesis by (subst ReadPMT_loop.simps) simp
  next
    case True
    have c: "carries (qs @ p # ?f) ?s rest" using Cons.prems(1) True by simp
    note w = pmt_section_done.write_carried [OF c sec dn]
    show ?thesis
    proof (cases "?f = []")
      case last: True
      have "last pkts \<in> set pkts" if "pkts \<noteq> []" using that by simp
      with last Cons.prems(4) have nil: "pkts = []" by (auto simp: filter_empty_conv split: if_splits)
      have "acc_Bytes (pmt_section_done.held (qs @ [p])\<lparr>acc_state := stateDone\<rparr>) = 0 # ?s @ rest"
        using carries_split(5) [OF c last] by (simp add: acc_Bytes_eq pmt_section_done.held_def)
      then show ?thesis
        using w last rf True nil built_is_parsed(1) [OF assms(1,3)] assms(2)
        by (subst ReadPMT_loop.simps) (simp add: Pids_def pmt_parsed_def)
    next
      case more: False
      then have ne: "pkts \<noteq> []" by auto
      have "carries ((qs @ [p]) @ ?f) ?s rest" using c by simp
      from Cons.IH [OF this] Cons.prems ne more w rf True show ?thesis
        by (subst ReadPMT_loop.simps) simp
    qed
  qed
qed simp

lemma ReadPMT_carried:
  assumes "pmt_ok mid pinfo ss" "ss \<noteq> []" "stuffing rest"
    and "carries (filter (\<lambda>p. PID p = pid) pkts) (pmt_section mid pinfo ss) rest"
    and "\<forall>p \<in> set pkts. wf_packet p" "pkts \<noteq> []" "PID (last pkts) = pid"
  shows "ReadPMT \<lparr>br_left = concat pkts @ bs, br_end = e\<rparr> pid =
    (\<lparr>br_left = bs, br_end = e\<rparr>, Ok (pmt_parsed mid ss))"
proof -
  have "carries ([] @ filter (\<lambda>p. PID p = pid) pkts) (pmt_section mid pinfo ss) rest" using assms(4) by simp
  from ReadPMT_loop_carried [OF assms(1-3) this assms(5-7)] show ?thesis
    by (simp add: ReadPMT_def pmt_section_done.held_def)
qed

section \<open>Packets made for a section\<close>

text \<open>A unit of \<^verbatim>\<open>CreatePacketWithPayload\<close> packets with increasing counters, the first with the start indicator.\<close>

function section_packets :: "int \<Rightarrow> byte \<Rightarrow> byte list \<Rightarrow> packet list" where
  "section_packets pid cc d =
     (if d = [] then []
      else CreatePacketWithPayload pid cc (take 184 d) # section_packets pid (increment4BitInt cc) (drop 184 d))"
  by pat_completeness auto
termination
  by (relation "measure (\<lambda>(pid, cc, d). length d)") auto

declare section_packets.simps [simp del]

definition unit_packets :: "int \<Rightarrow> byte \<Rightarrow> byte list \<Rightarrow> packet list" where
  "unit_packets pid cc d =
     (case section_packets pid cc d of [] \<Rightarrow> [] | p # ps \<Rightarrow> SetPayloadUnitStartIndicator p True # ps)"

lemma increment_small: "increment4BitInt cc < 16"
proof -
  have "increment4BitInt cc = take_bit 4 (cc + 1)" by (simp add: increment4BitInt_def and_numeral_mask)
  moreover have "unat (take_bit 4 (cc + 1)) < 2 ^ 4" by (simp only: unsigned_take_bit_eq take_bit_nat_less_exp)
  ultimately show ?thesis by (simp add: word_less_nat_alt)
qed

lemma done_padding: "done_loop (x # replicate k 0) = Ok True"
proof (cases "k < 2 \<or> x = 0xFF")
  case False
  then have "sectionLength (x # replicate k 0) = Ok 0" by (simp add: sectionLength_def)
  moreover have "slice_from (x # replicate k (0 :: byte)) (unat (3 :: u16)) = Ok (replicate (k - 2) 0)"
    using False by (cases k; cases "k - 1") (simp_all add: slice_def)
  ultimately show ?thesis using False done_zeros by (subst done_loop.simps) simp
qed (subst done_loop.simps, auto)

lemma Payload_pusi:
  assumes "wf_packet p"
  shows "Payload (SetPayloadUnitStartIndicator p b) = Payload p" "wf_packet (SetPayloadUnitStartIndicator p b)"
    "PID (SetPayloadUnitStartIndicator p b) = PID p"
    "PayloadUnitStartIndicator (SetPayloadUnitStartIndicator p b) = b"
proof -
  let ?q = "SetPayloadUnitStartIndicator p b"
  have n: "?q ! 3 = p ! 3" "?q ! 4 = p ! 4" by (simp_all add: SetPayloadUnitStartIndicator_def nth_setBit_other)
  have ps: "payloadStart ?q = payloadStart p" by (simp add: payloadStart_def ContainsAdaptationField_def n)
  have "drop (payloadStart p) ?q = drop (payloadStart p) p"
    by (simp add: SetPayloadUnitStartIndicator_def payloadStart_def)
  moreover have l: "length ?q = length p" by (simp add: SetPayloadUnitStartIndicator_def Packet_setBit_def)
  ultimately show "Payload ?q = Payload p" by (simp add: Payload_def ContainsPayload_def n ps slice_def Let_def)
  show "wf_packet ?q" using assms l by (simp add: wf_packet_def)
  show "PID ?q = PID p" by (rule pid_pusi.get_other(1) [OF assms])
  show "PayloadUnitStartIndicator ?q = b" using pusi.get_set [OF assms, of b] by (simp add: accessors_agree)
qed

lemma section_packets_payloads:
  assumes "cc < 16" "d \<noteq> []"
  shows "\<exists>pad p ps. section_packets pid cc d = p # ps \<and> gather_payloads (p # ps) = Ok (d @ pad) \<and>
    done_loop pad = Ok True \<and>
    (\<forall>q \<in> set (p # ps). wf_packet q \<and> PID q = pid mod 8192 \<and> \<not> PayloadUnitStartIndicator q) \<and>
    length (concat (map payload_of (butlast (p # ps)))) < length d \<and> length (payload_of p) = 184"
  using assms
proof (induction d arbitrary: cc rule: length_induct)
  case (1 d)
  let ?p = "CreatePacketWithPayload pid cc (take 184 d)"
  note 1 = 1(2,3) 1(1) [rule_format, of "drop 184 d" "increment4BitInt cc"]
  from created_packet [OF 1(1), of pid "take 184 d"] obtain pad where
    p: "wf_packet ?p" "PID ?p = pid mod 8192" "\<not> PayloadUnitStartIndicator ?p"
      "Payload ?p = Ok (take 184 d @ pad)" "length pad = 184 - length (take 184 d)"
    and z: "1 \<le> length (take 184 d) \<longrightarrow> drop 1 pad = replicate (183 - length (take 184 d)) 0"
    by (auto simp: Let_def)
  have po: "payload_of ?p = take 184 d @ pad" using p(4) by (simp add: payload_of_def)
  have l: "length (payload_of ?p) = 184" using p(5) by (simp add: po)
  show ?case
  proof (cases "length d \<le> 184")
    case True
    have "done_loop pad = Ok True"
    proof (cases pad)
      case (Cons x xs)
      then have "xs = replicate (183 - length d) 0" using z True 1(2) by (cases d) auto
      then show ?thesis using done_padding by (simp add: Cons)
    qed (use done_zeros [of 0] in simp)
    then show ?thesis
      using True 1(2) p l by (subst section_packets.simps) (simp add: section_packets.simps)
  next
    case False
    then have ne: "drop 184 d \<noteq> []" "length (drop 184 d) < length d" by auto
    from 1(3) [OF ne(2) increment_small ne(1)] obtain pad' q qs where
      q: "section_packets pid (increment4BitInt cc) (drop 184 d) = q # qs"
        "gather_payloads (q # qs) = Ok (drop 184 d @ pad')" "done_loop pad' = Ok True"
        "\<forall>r \<in> set (q # qs). wf_packet r \<and> PID r = pid mod 8192 \<and> \<not> PayloadUnitStartIndicator r"
        "length (concat (map payload_of (butlast (q # qs)))) < length (drop 184 d)" by blast
    have s: "section_packets pid cc d = ?p # q # qs" using 1(2) q(1) by (subst section_packets.simps) simp
    have "Payload ?p = Ok (take 184 d)" using p(4,5) False by simp
    then have "gather_payloads (?p # q # qs) = Ok (d @ pad')"
      using q(2) unfolding gather_payloads_Cons_Ok [of ?p] by (metis append_assoc append_take_drop_id)
    moreover have "length (concat (map payload_of (butlast (?p # q # qs)))) < length d" using q(5) l False by simp
    ultimately show ?thesis using s q(3,4) p(1-3) l by auto
  qed
qed

lemma unit_packets_carry:
  assumes "cc < 16" "section_bytes s"
  shows "\<exists>pad. carries (unit_packets pid cc (0 # s)) s pad \<and> done_loop pad = Ok True"
proof -
  from section_packets_payloads [OF assms(1), of "0 # s" pid] obtain pad p ps where
    s: "section_packets pid cc (0 # s) = p # ps" "gather_payloads (p # ps) = Ok ((0 # s) @ pad)"
      "done_loop pad = Ok True" "\<forall>q \<in> set (p # ps). wf_packet q \<and> PID q = pid mod 8192 \<and> \<not> PayloadUnitStartIndicator q"
      "length (concat (map payload_of (butlast (p # ps)))) < length (0 # s)" "length (payload_of p) = 184" by blast
  let ?q = "SetPayloadUnitStartIndicator p True"
  note u = Payload_pusi [of p True]
  have pq: "payload_of ?q = payload_of p" using u(1) s(4) by (simp add: payload_of_def)
  then have "map payload_of (butlast (?q # ps)) = map payload_of (butlast (p # ps))" by simp
  moreover have "gather_payloads (?q # ps) = Ok (0 # s @ pad)" using u(1) s(2,4) by simp
  ultimately have "carries (?q # ps) s pad" using u s(4-6) pq by (auto simp: carries_def)
  with s(1,3) show ?thesis by (auto simp: unit_packets_def)
qed

section \<open>Messages in packets\<close>

lemma section_bytes_message:
  assumes "message_ok s others"
  shows "section_bytes (unsigned_bytes s @ ComputeCRC (unsigned_bytes s))"
proof -
  let ?th = "sc_tableHeader (with_lengths s)" let ?b = "unsigned_bytes s @ ComputeCRC (unsigned_bytes s)"
  have size: "section_size s \<le> 1023" and id: "th_TableID (sc_tableHeader s) = 0xFC"
    using assms by (simp_all only: message_ok_def)
  obtain r where b: "?b = TableHeader_Data ?th @ r" by (simp add: unsigned_bytes_def)
  have l: "length ?b = section_size s + 3"
    by (simp add: unsigned_bytes_def section_size_def descriptor_bytes_loop)
  have "unat (of_nat (section_size s) :: u16) = section_size s"
    using size by (simp only: unat_of_nat) simp
  then have "take_bit 10 (of_nat (section_size s) :: u16) = of_nat (section_size s)"
    using size by (intro take_bit_word_small) simp
  then have "sectionLength ?b = Ok (of_nat (section_size s))"
    unfolding b sectionLength_Data by (simp add: with_lengths_def)
  moreover have "?b ! 0 = 0xFC" unfolding b using id by (simp add: TableHeader_Data_def with_lengths_def)
  ultimately show ?thesis using l size by (simp add: section_bytes_def)
qed

lemma message_gathered:
  assumes "message_ok s others" "UpdateData s = Ok (bytes, s')" "carries ps bytes rest" "done_loop rest = Ok True"
  shows "\<exists>a m. feed (acc_WritePacket SCTE35AccumulatorDoneFunc) NewAccumulator ps =
      Ok (a, 188 * length ps, Some ErrAccumulatorDone) \<and> NewSCTE35 (acc_Bytes a) = Some (Ok m) \<and>
    sc_PTS m = sc_PTS s \<and> sc_CommandInfo m = sc_CommandInfo s \<and> sc_Descriptors m = sc_Descriptors s \<and>
    sc_Data m = bytes @ rest"
proof -
  let ?u = "unsigned_bytes s"
  let ?m = "(with_lengths s)\<lparr>sc_alignmentStuffing := 0, sc_data := ?u @ ComputeCRC ?u @ rest\<rparr>"
  have "section_size s \<le> 1023" using assms(1) by (simp only: message_ok_def)
  from UpdateData_layout [OF this] assms(2) have b: "bytes = ?u @ ComputeCRC ?u" by simp
  from scte_section_done.gathered [OF assms(3) section_bytes_message [OF assms(1), folded b] assms(4)] obtain a where
    a: "feed (acc_WritePacket SCTE35AccumulatorDoneFunc) NewAccumulator ps =
      Ok (a, 188 * length ps, Some ErrAccumulatorDone)" "acc_Bytes a = 0 # bytes @ rest" by blast
  have "NewSCTE35 (acc_Bytes a) = Some (Ok ?m)"
    using message_parse [OF assms(1), of "[]" "ComputeCRC ?u @ rest"] by (simp add: a(2) b)
  moreover have "sc_PTS ?m = sc_PTS s" "sc_CommandInfo ?m = sc_CommandInfo s" "sc_Descriptors ?m = sc_Descriptors s"
    "sc_Data ?m = bytes @ rest"
    by (simp_all add: sc_Data_def sc_PTS_def sc_CommandInfo_def sc_Descriptors_def with_lengths_def b)
  ultimately show ?thesis using a(1) by blast
qed

section \<open>Properties\<close>

text \<open>C11: a message within the limits of C10 (\<open>message_ok\<close>: a section of at most 1023 bytes, not
  encrypted, all times and durations below \<open>2\<^sup>3\<^sup>3\<close>; a null command, a time signal with a
  time, or a splice insert that is neither cancelled nor a component splice and holds no field that is not written;
  segmentation descriptors that satisfy \<open>seg_ok\<close>) survives the way through the library: the bytes of
  \<open>UpdateData\<close> behind a zero pointer field, cut into packets by \<open>CreatePacketWithPayload\<close>
  with increasing counters and the start indicator set on the first, are accepted one by one by the accumulator,
  which is done at the last packet and not before, and \<open>NewSCTE35\<close> on what it gathered gives back the
  adjusted time, the command and the descriptors; \<open>Data\<close> keeps the padding of the last packet behind
  the section. Messages outside those limits - component splices, cancelled inserts, wider offsets or durations -
  are not covered: their bytes are not read back as they were even without packets.\<close>

theorem scte35_through_packets:
  assumes "message_ok s others" "UpdateData s = Ok (bytes, s')" "cc < 16"
  shows "\<exists>a m pad. feed (acc_WritePacket SCTE35AccumulatorDoneFunc) NewAccumulator (unit_packets pid cc (0 # bytes)) =
      Ok (a, 188 * length (unit_packets pid cc (0 # bytes)), Some ErrAccumulatorDone) \<and>
    NewSCTE35 (acc_Bytes a) = Some (Ok m) \<and>
    sc_PTS m = sc_PTS s \<and> sc_CommandInfo m = sc_CommandInfo s \<and> sc_Descriptors m = sc_Descriptors s \<and>
    sc_Data m = bytes @ pad"
proof -
  have "section_size s \<le> 1023" using assms(1) by (simp only: message_ok_def)
  from UpdateData_layout [OF this] assms(2) have "section_bytes bytes"
    using section_bytes_message [OF assms(1)] by simp
  from unit_packets_carry [OF assms(3) this, of pid] obtain pad where
    "carries (unit_packets pid cc (0 # bytes)) bytes pad" "done_loop pad = Ok True" by blast
  from message_gathered [OF assms(1,2) this] show ?thesis by blast
qed

theorem scte35_through_packets_witness:
  "\<exists>bytes s' a m. UpdateData example_message = Ok (bytes, s') \<and>
    feed (acc_WritePacket SCTE35AccumulatorDoneFunc) NewAccumulator (unit_packets 500 7 (0 # bytes)) =
      Ok (a, 188 * length (unit_packets 500 7 (0 # bytes)), Some ErrAccumulatorDone) \<and>
    NewSCTE35 (acc_Bytes a) = Some (Ok m) \<and> sc_PTS m = 90000"
proof -
  have "section_size example_message \<le> 1023" using example_message_ok by (simp only: message_ok_def)
  from UpdateData_layout [OF this] obtain bytes s' where u: "UpdateData example_message = Ok (bytes, s')" by blast
  have "sc_PTS example_message = 90000" by (simp add: sc_PTS_def)
  with scte35_through_packets [OF example_message_ok u, of 7 500] u show ?thesis by auto
qed

text \<open>C7: \<open>ReadPMT\<close> finds a table whatever packets lie between those of its PID. The table has at
  least one stream, stream PIDs of 13 bits, a section of at most 1021 bytes behind its header, and descriptor
  lengths that fit their fields (\<open>pmt_ok\<close>). The packets of its PID among those read carry it
  (\<open>carries\<close>): the first and only the first has the start indicator, their payloads together are a
  pointer field of zero, the section, and padding that is at most two bytes or begins with 0xFF; the first payload
  has at least four bytes, so that it holds the pointer field and the section's header; and the section is not
  complete before the last of them, which is also the last packet read. All packets have 188 bytes and a sync byte.
  Then \<open>ReadPMT\<close> returns exactly that table and leaves the reader behind this packet. The four bytes
  are needed: \<open>ReadPMT_short_start\<close> proves that a first payload of at most three bytes loses the table.
  A pointer field other than zero is not covered.\<close>

theorem ReadPMT_interleaved:
  assumes "pmt_ok mid pinfo ss" "ss \<noteq> []" "stuffing rest"
    and "carries (filter (\<lambda>p. PID p = pid) pkts) (pmt_section mid pinfo ss) rest"
    and "\<forall>p \<in> set pkts. wf_packet p" "pkts \<noteq> []" "PID (last pkts) = pid"
  shows "ReadPMT \<lparr>br_left = concat pkts @ bs, br_end = e\<rparr> pid =
    (\<lparr>br_left = bs, br_end = e\<rparr>, Ok (pmt_parsed mid ss))"
  by (rule ReadPMT_carried [OF assms])

text \<open>A packet that carries the example table.\<close>

definition example_pmt_packet :: "byte \<Rightarrow> packet" where
  "example_pmt_packet x =
     [0x47, 0x41, x, 0x10, 0] @ example_section @ replicate (183 - length example_section) 0xFF"

lemma example_pmt_packet:
  "wf_packet (example_pmt_packet x)" "PID (example_pmt_packet 0) = 256" "PID (example_pmt_packet 1) = 257"
  "PayloadUnitStartIndicator (example_pmt_packet x)"
  "Payload (example_pmt_packet x) = Ok (0 # example_section @ replicate (183 - length example_section) 0xFF)"
proof -
  have l: "length example_section \<le> 183"
    using length_pmt_section [of "[0, 1, 0xC1, 0, 0, 0xE0, 101]" "[]" example_streams]
    by (simp add: pmt_length_def es_bytes_def len12_bytes_def es_info_def desc_bytes_def)
  then show "wf_packet (example_pmt_packet x)" by (simp add: example_pmt_packet_def wf_packet_def PacketSize_def)
  show "PID (example_pmt_packet 0) = 256" "PID (example_pmt_packet 1) = 257"
    by (simp_all add: example_pmt_packet_def PID_def)
  show "PayloadUnitStartIndicator (example_pmt_packet x)"
    by (simp add: example_pmt_packet_def PayloadUnitStartIndicator_def)
  show "Payload (example_pmt_packet x) = Ok (0 # example_section @ replicate (183 - length example_section) 0xFF)"
    by (simp add: example_pmt_packet_def Payload_def ContainsPayload_def payloadStart_def ContainsAdaptationField_def
        Let_def slice_def)
qed

lemma example_stuffing: "stuffing (replicate (183 - length example_section) 0xFF)"
  by (cases "183 - length example_section") (simp_all add: stuffing_def)

lemma example_carries:
  "carries [example_pmt_packet x] example_section (replicate (183 - length example_section) 0xFF)"
  using example_pmt_packet
    length_pmt_section [of "[0, 1, 0xC1, 0, 0, 0xE0, 101]" "[]" example_streams]
  by (simp add: carries_def payload_of_def)

theorem ReadPMT_interleaved_witness:
  "ReadPMT \<lparr>br_left = concat [New, example_pmt_packet 0] @ [1], br_end = IoEOF\<rparr> 256 =
    (\<lparr>br_left = [1], br_end = IoEOF\<rparr>, Ok (pmt_parsed [0, 1, 0xC1, 0, 0, 0xE0, 101] example_streams))"
proof (rule ReadPMT_interleaved [OF example_ok _ example_stuffing])
  have "PID New = 8191" by (simp add: PID_def New_def PacketSize_def)
  then show "carries (filter (\<lambda>p. PID p = 256) [New, example_pmt_packet 0]) example_section
      (replicate (183 - length example_section) 0xFF)"
    using example_carries by (simp add: example_pmt_packet(2))
qed (use example_pmt_packet in auto)

text \<open>A table is lost when its first packet holds, behind the pointer field, at most two bytes of it:
  \<open>PmtAccumulatorDoneFunc\<close> calls such a start complete, \<open>ReadPMT\<close> takes it for a table without streams, starts
  again and refuses the next packet of the table, which does not start a unit.\<close>

theorem ReadPMT_short_start:
  assumes "wf_packet p" "PID p = pid" "PayloadUnitStartIndicator p" "Payload p = Ok (0 # b)" "length b \<le> 2"
    and "wf_packet q" "PID q = pid" "\<not> PayloadUnitStartIndicator q"
  shows "PmtAccumulatorDoneFunc (0 # b) = Ok True \<and>
    ReadPMT \<lparr>br_left = p @ q @ bs, br_end = e\<rparr> pid =
      (\<lparr>br_left = bs, br_end = e\<rparr>, Err ErrNoPayloadUnitStartIndicator)"
proof -
  have sb: "done_loop b = Ok True" "section_loop r b = Ok r" for r
    using assms(5) by (subst done_loop.simps section_loop.simps, simp)+
  have d: "PmtAccumulatorDoneFunc (0 # b) = Ok True"
    using sb(1) by (simp add: PmtAccumulatorDoneFunc_def PointerField_def slice_def)
  obtain r where n: "NewPMT (0 # b) = Ok r" "Pids r = []"
    using sb(2) by (simp add: NewPMT_def parseTables_def PointerField_def slice_def Pids_def)
  let ?a = "\<lparr>acc_buf = 0 # b, acc_packets = [p], acc_state = stateDone\<rparr>"
  have w: "acc_WritePacket PmtAccumulatorDoneFunc NewAccumulator p = Ok (?a, PacketSize, Some ErrAccumulatorDone)"
    using assms(1,3,4) d by (simp add: acc_WritePacket_cases acc_add_def NewAccumulator_def)
  have w2: "acc_WritePacket PmtAccumulatorDoneFunc NewAccumulator q =
      Ok (NewAccumulator, PacketSize, Some ErrNoPayloadUnitStartIndicator)"
    using assms(8) by (simp add: acc_WritePacket_cases NewAccumulator_def)
  have "ReadPMT_loop NewAccumulator \<lparr>br_left = q @ bs, br_end = e\<rparr> pid =
      (\<lparr>br_left = bs, br_end = e\<rparr>, Err ErrNoPayloadUnitStartIndicator)"
    using ReadFull_packet [OF assms(6)] w2 assms(7) by (subst ReadPMT_loop.simps) simp
  then have "ReadPMT \<lparr>br_left = p @ q @ bs, br_end = e\<rparr> pid =
      (\<lparr>br_left = bs, br_end = e\<rparr>, Err ErrNoPayloadUnitStartIndicator)"
    unfolding ReadPMT_def using ReadFull_packet [OF assms(1)] w n assms(2)
    by (subst ReadPMT_loop.simps) (simp add: acc_Bytes_eq)
  with d show ?thesis by blast
qed

theorem ReadPMT_short_start_witness:
  "ReadPMT \<lparr>br_left = ([0x47, 0x41, 0, 0x30, 180] @ replicate 180 0 @ [0, 2, 0xB0]) @ ([0x47, 0x01, 0, 0x10] @ replicate 184 0) @ [],
       br_end = IoEOF\<rparr> 256 = (\<lparr>br_left = [], br_end = IoEOF\<rparr>, Err ErrNoPayloadUnitStartIndicator)"
proof -
  let ?p = "[0x47, 0x41, 0, 0x30, 180] @ replicate 180 0 @ [0, 2, 0xB0] :: packet"
  let ?q = "[0x47, 0x01, 0, 0x10] @ replicate 184 0 :: packet"
  have "wf_packet ?p" "wf_packet ?q" "PID ?p = 256" "PID ?q = 256" "PayloadUnitStartIndicator ?p"
    "\<not> PayloadUnitStartIndicator ?q"
    by (simp_all add: wf_packet_def PacketSize_def PID_def PayloadUnitStartIndicator_def)
  moreover have "Payload ?p = Ok (0 # [2, 0xB0])"
    by (simp add: Payload_def ContainsPayload_def payloadStart_def ContainsAdaptationField_def Let_def slice_def)
  ultimately show ?thesis using ReadPMT_short_start [of ?p 256 "[2, 0xB0]" ?q "[]" IoEOF] by simp
qed

end
