(* ===== verification/Cli.thy ===== *)
theory Cli
  imports Section_Carriage Scte_String AF_Readers Ebp Scte_State
begin

text \<open>
  The command line tool \<^verbatim>\<open>gots/cli/parsefile.go\<close>: it finds the first packet, the program association table and
  one program map table for each program, and then prints what the remaining packets hold.  The model gives the
  text on the standard output and whether the program ends or panics.

  The parts of the system around it are fields of a record: the files, the error of closing one, the order in which
  \<^verbatim>\<open>range\<close> visits a map, the clock and the text that \<^verbatim>\<open>%+v\<close> gives for an encoder boundary point (which shows the
  clock).  The usage text and the text of a panic go to the standard error and are not in the output.
\<close>

section \<open>The world and the flags\<close>

record world =
  os_Open :: "string \<Rightarrow> (byte list \<times> gots_error) option"
  close_error :: "string \<Rightarrow> string option"
  map_range :: "(int \<times> int) list \<Rightarrow> (int \<times> int) list"
  time_Now :: "u64 \<Rightarrow> time"
  ebp_text :: "encoderBoundaryPoint \<Rightarrow> string"

record cli_flags =
  fl_fileName :: string
  fl_showPmt :: bool
  fl_showEbp :: bool
  fl_dumpSCTE35 :: bool
  fl_showPacketNumberOfPID :: int

section \<open>Text\<close>

abbreviation newline :: string where "newline \<equiv> [CHR 0x0A]"
abbreviation tab :: string where "tab \<equiv> [CHR 0x09]"

fun spaced :: "string list \<Rightarrow> string" where
  "spaced [] = []"
| "spaced [x] = x"
| "spaced (x # xs) = x @ '' '' @ spaced xs"

text \<open>\<^verbatim>\<open>%v\<close> of a slice of numbers, and of a map, whose keys it sorts.\<close>

definition show_ints :: "int list \<Rightarrow> string" where
  "show_ints xs = ''['' @ spaced (map show_int xs) @ '']''"

definition show_map :: "(int \<times> int) list \<Rightarrow> string" where
  "show_map m = ''map['' @ spaced (map (\<lambda>(k, v). show_int k @ '':'' @ show_int v) (sort_key fst m)) @ '']''"

text \<open>The texts of the errors (\<^verbatim>\<open>gots/errors.go\<close> and package \<^verbatim>\<open>io\<close>).\<close>

primrec Error :: "gots_error \<Rightarrow> string" where
  "Error ErrBadSyncByte = ''sync byte is not valid''"
| "Error ErrUnrecognizedEbpType = ''unrecognized EBP''"
| "Error ErrNoEBP = ''packet does not contain EBP''"
| "Error ErrNoEBPData = ''empty data provided to EBP parser''"
| "Error ErrInvalidEBPLength = ''invalid EBP data length''"
| "Error ErrInvalidPacketLength = ''invalid packet length''"
| "Error ErrInvalidTSCFlag = ''invalid transport scrambling control option.''"
| "Error ErrInvalidAFCFlag = ''invalid packet length''"
| "Error ErrNoPayload = ''packet does not contain payload''"
| "Error ErrNoAdaptationField = ''packet does not contain an adaptation field''"
| "Error ErrAdaptationFieldTooLarge = ''adaptation field is too large and cannot shrink''"
| "Error ErrAdaptationFieldCannotGrow = ''adaptation field cannot cannot grow beyond its allocated length''"
| "Error ErrAdaptationFieldZeroLength = ''adaptation field is empty''"
| "Error ErrNoPrivateTransportData = ''adaptation field has no private transport data''"
| "Error ErrNoSplicePoint = ''adaptation field has no splice point''"
| "Error ErrNoPCR = ''adaptation field has no Program Clock Reference''"
| "Error ErrNoOPCR = ''adaptation field has no Original Program Clock Reference''"
| "Error ErrNoAdaptationFieldExtension = ''adaptation field has no Adaptation Field Extension''"
| "Error ErrPATNotFound = ''No PAT was found while reading TS''"
| "Error ErrPMTNotFound = ''No PMT was found while reading TS''"
| "Error ErrPMTParse = ''PMT malformed.''"
| "Error ErrParsePMTDescriptor = ''unable to parse PMT descriptor''"
| "Error ErrInvalidPATLength = ''too few bytes to parse PAT''"
| "Error ErrNoPayloadUnitStartIndicator = ''packet does not have payload unit start indicator''"
| "Error ErrUnknownTableID = ''Unknown table id received''"
| "Error ErrShortPayload = ''provided data is too short to parse''"
| "Error ErrInvalidSCTE35Length = ''too few bytes to parse SCTE35''"
| "Error ErrSCTE35EncryptionUnsupported = ''SCTE35 is encrypted, which is not supported''"
| "Error ErrSCTE35UnsupportedSpliceCommand = ''SCTE35 cue can'' @ [CHR 0x27] @
     ''t be parsed because only time_signal with a pts value and splice_null commands are supported''"
| "Error ErrSCTE35InvalidDescriptorID = ''SCTE35 segmentation descriptor has a id that is not '' @
     [CHR 0x22] @ ''CUEI'' @ [CHR 0x22]"
| "Error ErrSCTE35DuplicateDescriptor = ''Duplicate or equivalent descriptor received by scte35.State''"
| "Error ErrSCTE35InvalidDescriptor = ''Invalid descriptor given the current state''"
| "Error ErrSCTE35MissingOut = ''In descriptor received with no matching out''"
| "Error ErrSCTE35DescriptorNotFound = ''Cannot close descriptor that'' @ [CHR 0x27] @ ''s not in the open list''"
| "Error ErrNilPAT = ''Nil PAT not allowed here.''"
| "Error ErrSyncByteNotFound = ''Sync-byte not found.''"
| "Error ErrVSSSignalIdNotFound = ''VSS Signal ID not found in the VSS signal received.''"
| "Error (ErrPIDNotInPMT pids) = ''PID(s) '' @ show_ints pids @ '' not found in PMT.''"
| "Error ErrAccumulatorDone = ''Accumulation is complete.''"
| "Error ErrAccumulatorInvalidState = ''Accumulator is in an invalid state.''"
| "Error IoEOF = ''EOF''"
| "Error IoErrUnexpectedEOF = ''unexpected EOF''"
| "Error IoErrShortWrite = ''short write''"
| "Error (ErrorsNew s) = s"

definition Println :: "string \<Rightarrow> string" where "Println s = s @ newline"

section \<open>The printing functions\<close>

text \<open>Text printed before a call that panics stays printed.\<close>

type_synonym 'a out = "string \<times> 'a res"

fun out_bind :: "'a out \<Rightarrow> ('a \<Rightarrow> 'b out) \<Rightarrow> 'b out" where
  "out_bind (s, Ok x) f = (let (t, r) = f x in (s @ t, r))"
| "out_bind (s, Err e) f = (s, Err e)"
| "out_bind (s, Panic) f = (s, Panic)"

definition printPat :: "pat \<Rightarrow> unit out" where
  "printPat pat =
     out_bind (Println ''Pat'', ProgramMap pat) (\<lambda>m.
     out_bind (tab @ ''PMT PIDs '' @ show_map m @ newline, NumPrograms pat) (\<lambda>n.
       (tab @ ''Number of Programs '' @ show_int n @ newline, Ok ())))"

definition stream_text :: "pmtElementaryStream \<Rightarrow> string" where
  "stream_text es =
     tab @ tab @ ''Pid '' @ show_int (ElementaryPid es) @ '': StreamType '' @ show_byte (StreamType (es_type es)) @
     '': '' @ StreamTypeDescription (es_type es) @ newline @
     concat (map (\<lambda>d. tab @ tab @ tab @ fmt_Descriptor d @ newline) (es_Descriptors es))"

definition printPmt :: "int \<Rightarrow> pmt \<Rightarrow> string" where
  "printPmt pn pmt =
     ''Program #'' @ show_int pn @ '' PMT'' @ newline @
     tab @ ''PIDs '' @ show_ints (Pids pmt) @ newline @
     Println (tab @ ''Elementary Streams'') @
     concat (map stream_text (ElementaryStreams pmt))"

definition printSpliceInsertCommand :: "spliceInsert \<Rightarrow> string" where
  "printSpliceInsertCommand ins =
     Println (tab @ ''Splice Insert Command'') @
     tab @ tab @ ''Event ID '' @ show_word (si_EventID ins) @ newline @
     (if si_HasDuration ins then tab @ tab @ ''Duration '' @ show_word (si_Duration ins) @ newline else [])"

definition printSegDesc :: "segmentationDescriptor \<Rightarrow> string" where
  "printSegDesc segdesc =
     (if seg_IsIn segdesc then tab @ ''<--- IN Segmentation Descriptor'' @ newline else []) @
     (if seg_IsOut segdesc then tab @ ''---> OUT Segmentation Descriptor'' @ newline else []) @
     tab @ tab @ ''Event ID '' @ show_word (seg_EventID segdesc) @ newline @
     tab @ tab @ ''Type '' @ name_of SegDescTypeNames (seg_TypeID segdesc) @ newline @
     (if seg_HasDuration segdesc then tab @ tab @ '' Duration '' @ show_word (seg_Duration segdesc) @ newline else [])"

definition printSpliceCommand :: "spliceCommand \<Rightarrow> string" where
  "printSpliceCommand spliceCommand =
     tab @ ''Command Type '' @ name_of SpliceCommandTypeNames (CommandType spliceCommand) @ newline @
     (if cmd_HasPTS spliceCommand then tab @ ''PTS '' @ show_word (cmd_PTS spliceCommand) @ newline else [])"

definition printSCTE35 :: "int \<Rightarrow> scte35 \<Rightarrow> string" where
  "printSCTE35 pid msg =
     ''SCTE35 Message on PID '' @ show_int pid @ newline @
     printSpliceCommand (sc_CommandInfo msg) @
     (case sc_CommandInfo msg of SpliceInsertCommand ins \<Rightarrow> printSpliceInsertCommand ins | _ \<Rightarrow> []) @
     concat (map printSegDesc (sc_Descriptors msg))"

section \<open>The tables\<close>

text \<open>An error of \<open>ReadPMT\<close> is a panic.\<close>

fun pmt_loop :: "cli_flags \<Rightarrow> (int \<times> int) list \<Rightarrow> byte_reader \<Rightarrow> pmt list \<Rightarrow> (byte_reader \<times> pmt list) out" where
  "pmt_loop fl [] reader pmts = ([], Ok (reader, pmts))"
| "pmt_loop fl ((pn, pid) # pm) reader pmts =
     (case ReadPMT reader pid of
        (reader, Ok pmt) \<Rightarrow>
          out_bind (if fl_showPmt fl then printPmt pn pmt else [], Ok ()) (\<lambda>_.
            pmt_loop fl pm reader (pmts @ [pmt]))
      | (reader, _) \<Rightarrow> ([], Panic))"

text \<open>Of every program only the first stream of SCTE-35 messages.\<close>

fun scte_stream :: "pmtElementaryStream list \<Rightarrow> int list" where
  "scte_stream [] = []"
| "scte_stream (es # ess) =
     (if StreamType (es_type es) = PmtStreamTypeScte35 then [ElementaryPid es] else scte_stream ess)"

definition scte35PIDs :: "cli_flags \<Rightarrow> pmt list \<Rightarrow> int set" where
  "scte35PIDs fl pmts =
     (if fl_dumpSCTE35 fl then \<Union>pmt \<in> set pmts. set (scte_stream (ElementaryStreams pmt)) else {})"

section \<open>The packets\<close>

text \<open>What a part of the loop body does next; \<open>None\<close> is a parser that does not return.\<close>

datatype flow = Next | Continue | Break

definition scte_step :: "cli_flags \<Rightarrow> int set \<Rightarrow> u64 \<Rightarrow> packet \<Rightarrow> flow out option" where
  "scte_step fl pids numPackets pkt =
     (let currPID = Pid pkt
      in if fl_dumpSCTE35 fl \<and> currPID \<in> pids then
           (case Payload pkt of
              Panic \<Rightarrow> Some ([], Panic)
            | Err err \<Rightarrow> Some (''Cannot get payload for packet number '' @ show_word numPackets @ '' on PID '' @
                show_int currPID @ '' Error='' @ Error err @ newline, Ok Continue)
            | Ok pay \<Rightarrow>
                map_option (\<lambda>r. case r of
                    Panic \<Rightarrow> ([], Panic)
                  | Err err \<Rightarrow> (''Cannot parse SCTE35 Error='' @ Error err @ newline, Ok Continue)
                  | Ok msg \<Rightarrow> (printSCTE35 currPID msg, Ok Next)) (NewSCTE35 pay))
         else Some ([], Ok Next))"

definition ebp_step :: "world \<Rightarrow> cli_flags \<Rightarrow> u64 \<Rightarrow> packet \<Rightarrow> flow out option" where
  "ebp_step w fl numPackets pkt =
     (if fl_showEbp fl then
        (case AFR_EncoderBoundaryPoint pkt of
           Panic \<Rightarrow> Some ([], Panic)
         | Err err \<Rightarrow> Some ([], Ok Continue)
         | Ok ebpBytes \<Rightarrow>
             map_option (\<lambda>r. case r of
                 Panic \<Rightarrow> ([], Panic)
               | Err err \<Rightarrow> (''EBP construction error '' @ Error err, Ok Continue)
               | Ok boundaryPoint \<Rightarrow>
                   (''Packet '' @ show_word numPackets @ '' contains EBP '' @ ebp_text w boundaryPoint @ newline @
                    newline, Ok Next)) (ReadEncoderBoundaryPoint (time_Now w numPackets) ebpBytes))
      else Some ([], Ok Next))"

definition dump_step :: "cli_flags \<Rightarrow> packet \<Rightarrow> flow out" where
  "dump_step fl pkt =
     (let pid = fl_showPacketNumberOfPID fl
      in if pid \<noteq> 0 \<and> Pid pkt = pid
         then (''First Packet of PID '' @ show_int pid @ '' contents: '' @ concat (map hex_byte pkt) @ newline, Ok Break)
         else ([], Ok Next))"

fun and_then :: "flow out option \<Rightarrow> flow out option \<Rightarrow> flow out option" where
  "and_then (Some (s, Ok Next)) m = map_option (\<lambda>(t, r). (s @ t, r)) m"
| "and_then a m = a"

definition packet_step :: "world \<Rightarrow> cli_flags \<Rightarrow> int set \<Rightarrow> u64 \<Rightarrow> packet \<Rightarrow> flow out option" where
  "packet_step w fl pids numPackets pkt =
     and_then (scte_step fl pids numPackets pkt)
       (and_then (ebp_step w fl numPackets pkt) (Some (dump_step fl pkt)))"

function packet_loop :: "world \<Rightarrow> cli_flags \<Rightarrow> int set \<Rightarrow> byte_reader \<Rightarrow> u64 \<Rightarrow> unit out option" where
  "packet_loop w fl pids reader numPackets =
     (case ReadFull reader PacketSize of
        (reader', Err err) \<Rightarrow>
          if err = IoEOF \<or> err = IoErrUnexpectedEOF then Some (newline, Ok ()) else Some (Println (Error err), Ok ())
      | (reader', Panic) \<Rightarrow> Some ([], Panic)
      | (reader', Ok pkt) \<Rightarrow>
          (case packet_step w fl pids (numPackets + 1) pkt of
             None \<Rightarrow> None
           | Some (s, Panic) \<Rightarrow> Some (s, Panic)
           | Some (s, Err e) \<Rightarrow> Some (s, Err e)
           | Some (s, Ok fw) \<Rightarrow>
               if fw = Break then Some (s @ newline, Ok ())
               else map_option (\<lambda>(t, r). (s @ t, r)) (packet_loop w fl pids reader' (numPackets + 1))))"
  by pat_completeness auto
termination
  by (relation "measure (\<lambda>(w, fl, pids, reader, n). length (br_left reader))") (auto dest: ReadFull_shorter [OF sym])

declare packet_loop.simps [simp del]

section \<open>main\<close>

definition read_file :: "world \<Rightarrow> cli_flags \<Rightarrow> byte list \<Rightarrow> gots_error \<Rightarrow> unit out option" where
  "read_file w fl bytes e =
     (case Sync \<lparr>sc_left = bytes, sc_last = None, sc_end = e\<rparr> of
        (r, off, Some err) \<Rightarrow> Some (Println (Error err), Ok ())
      | (r, off, None) \<Rightarrow>
          (case ReadPAT \<lparr>br_left = sc_left r, br_end = sc_end r\<rparr> of
             (reader, Err err) \<Rightarrow> Some (Println (Error err), Ok ())
           | (reader, Panic) \<Rightarrow> Some ([], Panic)
           | (reader, Ok pat) \<Rightarrow>
               (case out_bind (printPat pat) (\<lambda>_. out_bind ([], ProgramMap pat) (\<lambda>pm.
                       pmt_loop fl (map_range w pm) reader [])) of
                  (s, Ok (reader, pmts)) \<Rightarrow>
                    map_option (\<lambda>(t, r). (s @ t, r)) (packet_loop w fl (scte35PIDs fl pmts) reader 0)
                | (s, Err err) \<Rightarrow> Some (s, Err err)
                | (s, Panic) \<Rightarrow> Some (s, Panic))))"

text \<open>The deferred function closes the file and prints the error of that, after a panic as well.\<close>

definition closed :: "world \<Rightarrow> string \<Rightarrow> string" where
  "closed w name =
     (case close_error w name of None \<Rightarrow> [] | Some err \<Rightarrow> Println (''Cannot close File '' @ name @ '' '' @ err))"

definition main :: "world \<Rightarrow> cli_flags \<Rightarrow> unit out option" where
  "main w fl =
     (let name = fl_fileName fl
      in if name = [] then Some ([], Ok ())
         else (case os_Open w name of
                 None \<Rightarrow> Some (''Cannot access test asset '' @ name @ ''.'' @ newline, Ok ())
               | Some (bytes, e) \<Rightarrow> map_option (\<lambda>(s, r). (s @ closed w name, r)) (read_file w fl bytes e)))"

section \<open>Lemmas\<close>

lemma sync_turn_end:
  "sync_turn r off = Inl (r', res) \<Longrightarrow> sc_end r' = sc_end r" "sync_turn r off = Inr (r', o') \<Longrightarrow> sc_end r' = sc_end r"
  by (auto simp: sync_turn_def ReadByte_def UnreadByte_def split: list.splits option.splits res.splits if_splits)

lemma Sync_loop_end: "Sync_loop r off = (r', res) \<Longrightarrow> sc_end r' = sc_end r"
proof (induction r off rule: Sync_loop.induct)
  case (1 r off)
  show ?case
  proof (cases "sync_turn r off")
    case (Inl a)
    with "1.prems" show ?thesis by (cases a) (auto simp: Sync_loop.simps [of r off] dest: sync_turn_end(1))
  next
    case (Inr a)
    obtain r1 o1 where a: "a = (r1, o1)" by (cases a)
    have "Sync_loop r1 o1 = (r', res)" using "1.prems" Inr a by (simp add: Sync_loop.simps [of r off])
    with "1.IH" [OF Inr a [symmetric]] have "sc_end r' = sc_end r1" by simp
    with sync_turn_end(2) [of r off r1 o1] Inr a show ?thesis by simp
  qed
qed

lemma Sync_at:
  assumes "synced_at (junk @ bs) (length junk)" "\<forall>j < length junk. \<not> synced_at (junk @ bs) j"
  shows "\<exists>r off. Sync \<lparr>sc_left = junk @ bs, sc_last = None, sc_end = e\<rparr> = (r, off, None) \<and>
    sc_left r = bs \<and> sc_end r = e"
proof -
  let ?r = "\<lparr>sc_left = junk @ bs, sc_last = None, sc_end = e\<rparr>"
  obtain r off err where s: "Sync ?r = (r, off, err)" by (cases "Sync ?r")
  then have l: "Sync_loop ?r 0 = (r, off, err)" by (simp add: Sync_def)
  note sp = Sync_loop_spec [of ?r 0, unfolded l sync_spec_def]
  show ?thesis
  proof (cases err)
    case None
    with sp obtain k where k: "synced_at (junk @ bs) k" "\<forall>j < k. \<not> synced_at (junk @ bs) j"
      "sc_left r = drop k (junk @ bs)" by auto
    then have "k = length junk" using assms by (metis linorder_neqE_nat)
    then show ?thesis using k(3) s None Sync_loop_end [OF l] by simp
  next
    case (Some e')
    with sp assms(1) show ?thesis by auto
  qed
qed

lemma ReadPAT_at:
  assumes "\<forall>p \<in> set front. wf_packet p \<and> \<not> IsPat p" "wf_packet p" "IsPat p" "Payload p = Ok pay" "NewPAT pay = Ok pat"
  shows "ReadPAT \<lparr>br_left = concat front @ p @ bs, br_end = e\<rparr> = (\<lparr>br_left = bs, br_end = e\<rparr>, Ok pat)"
  using assms(1)
proof (induction front)
  case Nil
  have "go_copy (replicate (length pay) 0) 0 pay = pay" by (simp add: go_copy_def)
  then show ?case using ReadFull_packet [OF assms(2), of bs e] assms(3-5) by (subst ReadPAT.simps) simp
next
  case (Cons q qs)
  then show ?case using ReadFull_packet [of q "concat qs @ p @ bs" e] by (subst ReadPAT.simps) simp
qed

text \<open>Programs with distinct numbers are the map, in the order of the table.\<close>

lemma fold_update_distinct:
  "distinct (map fst (m @ progs)) \<Longrightarrow> fold (\<lambda>(pn, pid) m. AList.update pn pid m) progs m = m @ progs"
proof (induction progs arbitrary: m)
  case (Cons e progs)
  obtain k v where e: "e = (k, v)" by (cases e)
  have u: "k \<notin> fst ` set m \<Longrightarrow> AList.update k v m = m @ [(k, v)]" for m :: "('a \<times> 'b) list"
    by (induction m) auto
  have "k \<notin> fst ` set m" using Cons.prems e by auto
  with Cons.IH [of "m @ [(k, v)]"] Cons.prems u e show ?case by simp
qed simp

definition programs_ok :: "(int \<times> int) list \<Rightarrow> bool" where
  "programs_ok progs \<longleftrightarrow> (\<forall>e \<in> set progs. prog_ok e) \<and> distinct (map fst progs) \<and> length progs \<le> 253"

lemma ProgramMap_built:
  assumes "programs_ok progs" "length ver = 3"
  shows "ProgramMap (pat_bytes tsid ver progs @ rest) = Ok progs"
    "NumPrograms (pat_bytes tsid ver progs @ rest) = Ok (int (length progs))"
proof -
  let ?p = "pat_bytes tsid ver progs @ rest"
  from assms have ok: "\<forall>e \<in> set progs. prog_ok e" "distinct (map fst ([] @ progs))" "length progs \<le> 253"
    by (simp_all add: programs_ok_def)
  show n: "NumPrograms ?p = Ok (int (length progs))" by (rule pat_bytes_NumPrograms [OF assms(2) ok(3)])
  obtain th where p: "?p = (0 # TableHeader_Data th @ u16_bytes tsid @ ver) @ concat (map pat_entry progs) @
      (ComputeCRC (pat_body tsid ver progs) @ rest)"
    by (simp add: pat_bytes_def pat_body_def)
  have "ProgramMap_loop ?p (length progs) 8 [] = Ok (fold (\<lambda>(pn, pid) m. AList.update pn pid m) progs [])"
    by (rule ProgramMap_loop_entries [OF ok(1) p]) (simp add: u16_bytes_def assms(2))
  then show "ProgramMap ?p = Ok progs" using n fold_update_distinct [OF ok(2)] by (simp add: ProgramMap_def)
qed

definition pat_text :: "(int \<times> int) list \<Rightarrow> string" where
  "pat_text progs = Println ''Pat'' @ tab @ ''PMT PIDs '' @ show_map progs @ newline @
     tab @ ''Number of Programs '' @ show_int (int (length progs)) @ newline"

lemma printPat_built:
  assumes "programs_ok progs" "length ver = 3"
  shows "printPat (pat_bytes tsid ver progs @ rest) = (pat_text progs, Ok ())"
  using ProgramMap_built [OF assms] by (simp add: printPat_def pat_text_def)

text \<open>The packets behind the tables, when nothing of them is asked for.\<close>

definition tables_only :: "cli_flags \<Rightarrow> bool" where
  "tables_only fl \<longleftrightarrow> fl_fileName fl \<noteq> [] \<and> \<not> fl_showEbp fl \<and> \<not> fl_dumpSCTE35 fl \<and> fl_showPacketNumberOfPID fl = 0"

lemma quiet_step: "tables_only fl \<Longrightarrow> packet_step w fl pids n pkt = Some ([], Ok Next)"
  by (simp add: tables_only_def packet_step_def scte_step_def ebp_step_def dump_step_def Let_def)

lemma ReadFull_end: "ReadFull r n = (r', Ok p) \<Longrightarrow> br_end r' = br_end r"
  by (auto simp: ReadFull_def split: if_splits)

lemma quiet_loop: "tables_only fl \<Longrightarrow> br_end r = IoEOF \<Longrightarrow> packet_loop w fl pids r n = Some (newline, Ok ())"
proof (induction w fl pids r n rule: packet_loop.induct)
  case (1 w fl pids r n)
  show ?case
  proof (cases "ReadFull r PacketSize")
    case (Pair r' x)
    show ?thesis
    proof (cases x)
      case (Ok p)
      have "packet_loop w fl pids r' (n + 1) = Some (newline, Ok ())"
        by (rule "1.IH" [OF Pair [symmetric] Ok quiet_step [OF "1.prems"(1)] refl refl])
          (use "1.prems" ReadFull_end [of r PacketSize r' p] Pair Ok in simp_all)
      then show ?thesis using Pair Ok quiet_step [OF "1.prems"(1)] by (subst packet_loop.simps) simp
    next
      case (Err e)
      then have "e = IoEOF \<or> e = IoErrUnexpectedEOF" using Pair "1.prems"(2) by (auto simp: ReadFull_def split: if_splits)
      then show ?thesis using Pair Err by (subst packet_loop.simps) auto
    next
      case Panic
      then show ?thesis using Pair ReadFull_not_Panic by metis
    qed
  qed
qed

section \<open>Tables in a file\<close>

text \<open>A program with the packets read for its table.\<close>

record table =
  tb_program :: int
  tb_pid :: int
  tb_packets :: "packet list"
  tb_mid :: "byte list"
  tb_info :: "byte list"
  tb_streams :: "stream list"
  tb_rest :: "byte list"

definition table_ok :: "table \<Rightarrow> bool" where
  "table_ok t \<longleftrightarrow> pmt_ok (tb_mid t) (tb_info t) (tb_streams t) \<and> tb_streams t \<noteq> [] \<and> stuffing (tb_rest t) \<and>
     carries (filter (\<lambda>p. PID p = tb_pid t) (tb_packets t)) (pmt_section (tb_mid t) (tb_info t) (tb_streams t)) (tb_rest t) \<and>
     (\<forall>p \<in> set (tb_packets t). wf_packet p) \<and> tb_packets t \<noteq> [] \<and> PID (last (tb_packets t)) = tb_pid t"

definition table_key :: "table \<Rightarrow> int \<times> int" where "table_key t = (tb_program t, tb_pid t)"
definition table_pmt :: "table \<Rightarrow> pmt" where "table_pmt t = pmt_parsed (tb_mid t) (tb_streams t)"
definition table_bytes :: "table \<Rightarrow> byte list" where "table_bytes t = concat (tb_packets t)"

definition table_text :: "cli_flags \<Rightarrow> table \<Rightarrow> string" where
  "table_text fl t = (if fl_showPmt fl then printPmt (tb_program t) (table_pmt t) else [])"

lemma ReadPMT_table:
  assumes "table_ok t"
  shows "ReadPMT \<lparr>br_left = table_bytes t @ bs, br_end = e\<rparr> (tb_pid t) = (\<lparr>br_left = bs, br_end = e\<rparr>, Ok (table_pmt t))"
  unfolding table_bytes_def table_pmt_def
  by (rule ReadPMT_carried [where rest = "tb_rest t"]) (use assms in \<open>auto simp: table_ok_def\<close>)

lemma pmt_loop_step:
  assumes "ReadPMT r (snd k) = (r', Ok pmt)"
  shows "pmt_loop fl (k # pm) r pmts =
    out_bind (if fl_showPmt fl then printPmt (fst k) pmt else [], Ok ()) (\<lambda>_. pmt_loop fl pm r' (pmts @ [pmt]))"
  using assms by (cases k) simp

lemma pmt_loop_tables:
  "\<forall>t \<in> set ts. table_ok t \<Longrightarrow>
    pmt_loop fl (map table_key ts) \<lparr>br_left = concat (map table_bytes ts) @ bs, br_end = e\<rparr> pmts =
      (concat (map (table_text fl) ts), Ok (\<lparr>br_left = bs, br_end = e\<rparr>, pmts @ map table_pmt ts))"
proof (induction ts arbitrary: pmts)
  case (Cons t ts)
  have "ReadPMT \<lparr>br_left = concat (map table_bytes (t # ts)) @ bs, br_end = e\<rparr> (snd (table_key t)) =
      (\<lparr>br_left = concat (map table_bytes ts) @ bs, br_end = e\<rparr>, Ok (table_pmt t))"
    using ReadPMT_table [of t "concat (map table_bytes ts) @ bs"] Cons.prems by (simp add: table_key_def)
  from pmt_loop_step [OF this] Cons show ?case by (simp add: table_text_def table_key_def)
qed simp

text \<open>A file: bytes in which no packet starts, packets of other streams, the packet of the association table, the rest.\<close>

definition starts_with :: "byte list \<Rightarrow> (int \<times> int) list \<Rightarrow> byte list \<Rightarrow> bool" where
  "starts_with bytes progs rest \<longleftrightarrow> (\<exists>junk front p tsid ver pad.
     bytes = junk @ concat front @ p @ rest \<and> synced_at bytes (length junk) \<and>
     (\<forall>j < length junk. \<not> synced_at bytes j) \<and> (\<forall>q \<in> set front. wf_packet q \<and> \<not> IsPat q) \<and>
     wf_packet p \<and> IsPat p \<and> Payload p = Ok (pat_bytes tsid ver progs @ pad) \<and> length ver = 3)"

lemma Payload_short: "Payload p = Ok pay \<Longrightarrow> wf_packet p \<Longrightarrow> length pay \<le> 184"
  by (auto simp: Payload_def payloadStart_def wf_packet_def PacketSize_def slice_def Let_def split: if_splits)

lemma read_file_start:
  assumes "starts_with bytes progs rest" "programs_ok progs"
  shows "read_file w fl bytes e =
    (case pmt_loop fl (map_range w progs) \<lparr>br_left = rest, br_end = e\<rparr> [] of
       (s, Ok (reader, pmts)) \<Rightarrow>
         map_option (\<lambda>(t, r). (pat_text progs @ s @ t, r)) (packet_loop w fl (scte35PIDs fl pmts) reader 0)
     | (s, Err err) \<Rightarrow> Some (pat_text progs @ s, Err err)
     | (s, Panic) \<Rightarrow> Some (pat_text progs @ s, Panic))"
proof -
  from assms(1) obtain junk front p tsid ver pad where f: "bytes = junk @ concat front @ p @ rest"
    "synced_at bytes (length junk)" "\<forall>j < length junk. \<not> synced_at bytes j"
    "\<forall>q \<in> set front. wf_packet q \<and> \<not> IsPat q" "wf_packet p" "IsPat p"
    "Payload p = Ok (pat_bytes tsid ver progs @ pad)" "length ver = 3"
    unfolding starts_with_def by blast
  let ?pat = "pat_bytes tsid ver progs @ pad"
  have "13 \<le> length ?pat" using length_pat_bytes [OF f(8), of tsid progs] by simp
  moreover have "length ?pat \<le> 184" by (rule Payload_short [OF f(7,5)])
  ultimately have "NewPAT ?pat = Ok ?pat" by (simp add: NewPAT_def)
  from ReadPAT_at [OF f(4-7) this, of rest e] have
    rp: "ReadPAT \<lparr>br_left = concat front @ p @ rest, br_end = e\<rparr> = (\<lparr>br_left = rest, br_end = e\<rparr>, Ok ?pat)" .
  from Sync_at [of junk "concat front @ p @ rest" e] f(1-3) obtain r off where
    s: "Sync \<lparr>sc_left = bytes, sc_last = None, sc_end = e\<rparr> = (r, off, None)"
      "sc_left r = concat front @ p @ rest" "sc_end r = e" by auto
  show ?thesis
    unfolding read_file_def using s rp printPat_built [OF assms(2) f(8)] ProgramMap_built [OF assms(2) f(8)]
    by (cases "pmt_loop fl (map_range w progs) \<lparr>br_left = rest, br_end = e\<rparr> []")
      (auto simp: option.map_comp comp_def split: res.splits prod.splits intro!: option.map_cong0)
qed

section \<open>An example file\<close>

definition example_table :: "int \<Rightarrow> int \<Rightarrow> byte \<Rightarrow> table" where
  "example_table pn pid x = \<lparr>tb_program = pn, tb_pid = pid, tb_packets = [example_pmt_packet x],
     tb_mid = [0, 1, 0xC1, 0, 0, 0xE0, 101], tb_info = [], tb_streams = example_streams,
     tb_rest = replicate (183 - length example_section) 0xFF\<rparr>"

abbreviation first_table :: table where "first_table \<equiv> example_table 1 256 0"
abbreviation second_table :: table where "second_table \<equiv> example_table 2 257 1"

lemma example_tables_ok: "table_ok first_table" "table_ok second_table"
  using example_carries example_ok example_stuffing example_pmt_packet
  by (simp_all add: table_ok_def example_table_def)

abbreviation example_programs :: "(int \<times> int) list" where "example_programs \<equiv> [(1, 256), (2, 257)]"

definition example_pat_packet :: packet where
  "example_pat_packet = [0x47, 0x40, 0, 0x10] @ pat_bytes 1 [0xcb, 0, 0] example_programs @ replicate 163 0xFF"

definition example_file :: "byte list" where
  "example_file = [9, 9] @ example_pat_packet @ table_bytes first_table @ table_bytes second_table"

lemma example_file_starts:
  "starts_with example_file example_programs (table_bytes first_table @ table_bytes second_table)"
proof -
  have l: "length (pat_bytes 1 [0xcb, 0, 0] example_programs) = 21"
    using length_pat_bytes [of "[0xcb, 0, 0]" 1 example_programs] by simp
  have p: "wf_packet example_pat_packet" "IsPat example_pat_packet"
    "Payload example_pat_packet = Ok (pat_bytes 1 [0xcb, 0, 0] example_programs @ replicate 163 0xFF)"
    using l by (simp_all add: example_pat_packet_def wf_packet_def PacketSize_def IsPat_def Pid_def Payload_def
        ContainsPayload_def payloadStart_def ContainsAdaptationField_def Let_def slice_def)
  have "synced_at example_file 2"
    using l by (simp add: synced_at_def example_file_def example_pat_packet_def SyncByte_def AFC_alt PID_alt)
  moreover have "\<not> synced_at example_file 0" "\<not> synced_at example_file 1"
    by (simp_all add: synced_at_def example_file_def SyncByte_def)
  ultimately show ?thesis
    unfolding starts_with_def using p
    by (intro exI [of _ "[9, 9]"] exI [of _ "[]"] exI [of _ example_pat_packet] exI [of _ 1] exI [of _ "[0xcb, 0, 0]"]
        exI [of _ "replicate 163 0xFF"]) (auto simp: example_file_def less_2_cases_iff numeral_2_eq_2 less_Suc_eq)
qed

lemma example_programs_ok: "programs_ok example_programs"
  by (simp add: programs_ok_def prog_ok_def)

definition example_world :: world where
  "example_world = \<lparr>os_Open = \<lambda>_. Some (example_file, IoEOF), close_error = \<lambda>_. None, map_range = id,
     time_Now = \<lambda>_. 0, ebp_text = \<lambda>_. []\<rparr>"

definition example_flags :: cli_flags where
  "example_flags = \<lparr>fl_fileName = ''a.ts'', fl_showPmt = True, fl_showEbp = False, fl_dumpSCTE35 = False,
     fl_showPacketNumberOfPID = 0\<rparr>"

lemma example_run:
  "tables_only example_flags" "os_Open example_world (fl_fileName example_flags) = Some (example_file, IoEOF)"
  "closed example_world x = []"
  by (simp_all add: tables_only_def example_flags_def example_world_def closed_def)

section \<open>Properties\<close>



lemma ReadPMT_absent:
  assumes "\<forall>p \<in> set pkts. wf_packet p \<and> PID p \<noteq> pid" "length tail < 188"
  shows "\<exists>r. ReadPMT_loop a \<lparr>br_left = concat pkts @ tail, br_end = IoEOF\<rparr> pid = (r, Err ErrPMTNotFound)"
  using assms(1)
proof (induction pkts)
  case Nil
  then show ?case using assms(2) by (subst ReadPMT_loop.simps) (simp add: ReadFull_def PacketSize_def)
next
  case (Cons p ps)
  then show ?case using ReadFull_packet [of p "concat ps @ tail" IoEOF] by (subst ReadPMT_loop.simps) simp
qed

text \<open>The same file may print its tables or crash from one run to the next: the order of \<^verbatim>\<open>range\<close> over the map of
  programs is not defined, and a table that was passed while another was looked for is not found again.  With two
  programs on PIDs of their own whose tables come once, the tool ends normally when it asks for the first one first,
  and panics after the second table when it asks for that one first.\<close>

theorem cli_order_matters:
  assumes "tables_only fl" "os_Open w (fl_fileName fl) = Some (bytes, IoEOF)" "programs_ok progs"
    and "starts_with bytes progs (table_bytes t1 @ table_bytes t2 @ concat pkts @ tail)" "length tail < 188"
    and "table_ok t1" "table_ok t2" "\<forall>p \<in> set (tb_packets t1). PID p \<noteq> tb_pid t2"
    and "\<forall>p \<in> set pkts. wf_packet p \<and> PID p \<noteq> tb_pid t1"
  shows "main (w\<lparr>map_range := \<lambda>_. [table_key t1, table_key t2]\<rparr>) fl =
      Some (pat_text progs @ table_text fl t1 @ table_text fl t2 @ newline @ closed w (fl_fileName fl), Ok ()) \<and>
    main (w\<lparr>map_range := \<lambda>_. [table_key t2, table_key t1]\<rparr>) fl =
      Some (pat_text progs @ table_text fl t2 @ closed w (fl_fileName fl), Panic)"
proof -
  let ?w1 = "w\<lparr>map_range := \<lambda>_. [table_key t1, table_key t2]\<rparr>"
  let ?w2 = "w\<lparr>map_range := \<lambda>_. [table_key t2, table_key t1]\<rparr>"
  let ?rest = "table_bytes t1 @ table_bytes t2 @ concat pkts @ tail"
  have n: "fl_fileName fl \<noteq> []" using assms(1) by (simp add: tables_only_def)
  have cl: "closed (w\<lparr>map_range := f\<rparr>) x = closed w x" for f x by (simp add: closed_def)
  have tt: "\<forall>t \<in> set [t1, t2]. table_ok t" using assms(6,7) by simp
  have 1: "main ?w1 fl =
      Some (pat_text progs @ table_text fl t1 @ table_text fl t2 @ newline @ closed w (fl_fileName fl), Ok ())"
    using n assms(2) read_file_start [OF assms(4,3), of ?w1 fl IoEOF] cl
      pmt_loop_tables [OF tt, of fl "concat pkts @ tail" IoEOF "[]"]
      quiet_loop [OF assms(1), of "\<lparr>br_left = concat pkts @ tail, br_end = IoEOF\<rparr>" ?w1 "scte35PIDs fl (map table_pmt [t1, t2])" 0]
    by (simp add: main_def)
  let ?t = "t2\<lparr>tb_packets := tb_packets t1 @ tb_packets t2\<rparr>"
  have "filter (\<lambda>p. PID p = tb_pid t2) (tb_packets t1) = []" using assms(8) by (simp add: filter_empty_conv)
  then have "table_ok ?t" using assms(6,7) by (auto simp: table_ok_def)
  from ReadPMT_table [OF this, of "concat pkts @ tail" IoEOF] have
    r2: "ReadPMT \<lparr>br_left = ?rest, br_end = IoEOF\<rparr> (snd (table_key t2)) =
      (\<lparr>br_left = concat pkts @ tail, br_end = IoEOF\<rparr>, Ok (table_pmt t2))"
    by (simp add: table_bytes_def table_pmt_def table_key_def)
  obtain r where "ReadPMT \<lparr>br_left = concat pkts @ tail, br_end = IoEOF\<rparr> (tb_pid t1) = (r, Err ErrPMTNotFound)"
    using ReadPMT_absent [OF assms(9,5)] unfolding ReadPMT_def by blast
  then have "pmt_loop fl [table_key t2, table_key t1] \<lparr>br_left = ?rest, br_end = IoEOF\<rparr> [] = (table_text fl t2, Panic)"
    unfolding pmt_loop_step [OF r2] by (simp add: table_key_def table_text_def)
  then have "main ?w2 fl = Some (pat_text progs @ table_text fl t2 @ closed w (fl_fileName fl), Panic)"
    using n assms(2) read_file_start [OF assms(4,3), of ?w2 fl IoEOF] cl by (simp add: main_def)
  with 1 show ?thesis by blast
qed

theorem cli_order_matters_witness:
  "main (example_world\<lparr>map_range := \<lambda>_. [table_key second_table, table_key first_table]\<rparr>) example_flags =
    Some (pat_text example_programs @ table_text example_flags second_table, Panic)"
proof -
  have s: "starts_with example_file example_programs
      (table_bytes first_table @ table_bytes second_table @ concat [] @ [])"
    using example_file_starts by simp
  have d: "\<forall>p \<in> set (tb_packets first_table). PID p \<noteq> tb_pid second_table"
    using example_pmt_packet by (simp add: example_table_def)
  have e: "length ([] :: byte list) < 188" "\<forall>p \<in> set []. wf_packet p \<and> PID p \<noteq> tb_pid first_table" by simp_all
  from cli_order_matters [OF example_run(1,2) example_programs_ok s e(1) example_tables_ok d e(2)] example_run(3)
  show ?thesis by simp
qed

text \<open>A message that fits into one packet is printed with its command and its descriptors when the tool is asked
  for messages and reads the packet that carries it on the PID of a message stream.\<close>

theorem cli_prints_message:
  assumes "fl_dumpSCTE35 fl" "pid mod 8192 \<in> pids" "cc < 16" "message_ok s others"
    and "UpdateData s = Ok (bytes, s')" "length bytes \<le> 183"
  shows "\<exists>p. unit_packets pid cc (0 # bytes) = [p] \<and>
    scte_step fl pids n p = Some (printSCTE35 (pid mod 8192) s, Ok Next)"
proof -
  have "section_size s \<le> 1023" using assms(4) by (simp only: message_ok_def)
  from UpdateData_layout [OF this] assms(5) have b: "bytes = unsigned_bytes s @ ComputeCRC (unsigned_bytes s)" by simp
  let ?q = "CreatePacketWithPayload pid cc (0 # bytes)"
  let ?p = "SetPayloadUnitStartIndicator ?q True"
  have u: "unit_packets pid cc (0 # bytes) = [?p]"
    using assms(6) by (simp add: unit_packets_def section_packets.simps)
  from created_packet [OF assms(3), of pid "0 # bytes"] assms(6) obtain pad where
    q: "wf_packet ?q" "PID ?q = pid mod 8192" "Payload ?q = Ok (0 # bytes @ pad)"
    by (auto simp: Let_def)
  have p: "Payload ?p = Ok (0 # bytes @ pad)" "Pid ?p = pid mod 8192"
    using Payload_pusi [OF q(1), of True] q(2,3) by (simp_all add: accessors_agree)
  let ?m = "(with_lengths s)\<lparr>sc_alignmentStuffing := 0, sc_data := bytes @ pad\<rparr>"
  have m: "NewSCTE35 (0 # bytes @ pad) = Some (Ok ?m)"
    using message_parse [OF assms(4), of "[]" "ComputeCRC (unsigned_bytes s) @ pad"] by (simp add: b)
  have "printSCTE35 pd ?m = printSCTE35 pd s" for pd
    by (simp add: printSCTE35_def sc_CommandInfo_def sc_Descriptors_def with_lengths_def)
  with u p m assms(1,2) show ?thesis by (simp add: scte_step_def)
qed

theorem cli_prints_message_witness:
  "\<exists>bytes s' p. UpdateData example_message = Ok (bytes, s') \<and> unit_packets 500 7 (0 # bytes) = [p] \<and>
    scte_step (example_flags\<lparr>fl_dumpSCTE35 := True\<rparr>) {500} 1 p = Some (printSCTE35 500 example_message, Ok Next)"
proof -
  have z: "section_size example_message \<le> 1023" using example_message_ok by (simp only: message_ok_def)
  from UpdateData_layout [OF z] obtain bytes s' where
    u: "UpdateData example_message = Ok (bytes, s')" "length bytes = section_size example_message + 3"
    by (simp add: unsigned_bytes_def section_size_def descriptor_bytes_loop)
  have "section_size example_message = 81" by (rule example_message_size)
  with u have "length bytes \<le> 183" by simp
  from cli_prints_message [OF _ _ _ example_message_ok u(1) this, of "example_flags\<lparr>fl_dumpSCTE35 := True\<rparr>" 500 "{500}" 7 1]
    u(1) show ?thesis by auto
qed

lemma loop_ends:
  "\<not> fl_dumpSCTE35 fl \<Longrightarrow> \<not> fl_showEbp fl \<Longrightarrow> \<exists>s. packet_loop w fl pids r n = Some (s, Ok ())"
proof (induction w fl pids r n rule: packet_loop.induct)
  case (1 w fl pids r n)
  have st: "packet_step w fl pids m p = Some (dump_step fl p)" for m p
    using "1.prems" by (cases "dump_step fl p") (simp add: packet_step_def scte_step_def ebp_step_def Let_def)
  have dump: "\<exists>s f. dump_step fl p = (s, Ok f)" for p by (simp add: dump_step_def Let_def)
  show ?case
  proof (cases "ReadFull r PacketSize")
    case (Pair r' x)
    show ?thesis
    proof (cases x)
      case (Ok p)
      obtain s f where d: "dump_step fl p = (s, Ok f)" using dump by blast
      show ?thesis
      proof (cases "f = Break")
        case False
        have "\<exists>s. packet_loop w fl pids r' (n + 1) = Some (s, Ok ())"
          by (rule "1.IH" [OF Pair [symmetric] Ok st d [symmetric] refl False "1.prems"])
        then show ?thesis using Pair Ok st d False by (subst packet_loop.simps) auto
      qed (use Pair Ok st d in \<open>subst packet_loop.simps, simp\<close>)
    next
      case Panic
      then show ?thesis using Pair ReadFull_not_Panic by metis
    qed (use Pair in \<open>subst packet_loop.simps, simp\<close>)
  qed
qed

lemma pmt_loop_ends:
  "snd (pmt_loop fl pm r pmts) = Panic \<longrightarrow> (\<exists>(pn, pid) \<in> set pm. \<exists>r e. snd (ReadPMT r pid) = Err e)"
  "snd (pmt_loop fl pm r pmts) \<noteq> Err e"
proof (induction fl pm r pmts rule: pmt_loop.induct)
  case (2 fl pn pid pm r pmts)
  have np: "snd (ReadPMT r pid) \<noteq> Panic"
    unfolding ReadPMT_def by (rule ReadPMT_loop_safe) (simp add: NewAccumulator_def)
  obtain r' x where rp: "ReadPMT r pid = (r', x)" by (cases "ReadPMT r pid")
  show "snd (pmt_loop fl ((pn, pid) # pm) r pmts) = Panic \<longrightarrow>
      (\<exists>(pn, pid) \<in> set ((pn, pid) # pm). \<exists>r e. snd (ReadPMT r pid) = Err e)"
    using "2.IH"(1) [OF rp [symmetric]] rp np by (cases x) (auto split: prod.splits, (metis snd_conv)+)
  show "snd (pmt_loop fl ((pn, pid) # pm) r pmts) \<noteq> Err e"
    using "2.IH"(2) [OF rp [symmetric]] rp by (cases x) (auto split: prod.splits)
qed simp_all

lemma ReadPAT_not_Panic: "snd (ReadPAT r) \<noteq> Panic"
proof (induction r rule: ReadPAT.induct)
  case (1 r)
  have np: "NewPAT pay \<noteq> Panic" for pay
    using Payload_not_Panic [of "go_copy (replicate PacketSize 0) 0 pay"]
    by (simp add: NewPAT_def wf_packet_def PacketSize_def Let_def)
  show ?case
  proof (cases "ReadFull r PacketSize")
    case (Pair r' x)
    show ?thesis
    proof (cases x)
      case (Ok p)
      have "Payload p \<noteq> Panic" using Payload_not_Panic ReadFull_wf Pair Ok by blast
      then show ?thesis using "1.IH" [OF Pair [symmetric] Ok] Pair Ok np
        by (subst ReadPAT.simps) (auto simp: Let_def res_bind_Panic_iff)
    next
      case Panic
      then show ?thesis using Pair ReadFull_not_Panic by metis
    qed (use Pair in \<open>subst ReadPAT.simps, simp\<close>)
  qed
qed

lemma printPat_ends:
  "(\<exists>s m. printPat pat = (s, Ok ()) \<and> ProgramMap pat = Ok m) \<or> (\<exists>s. printPat pat = (s, Panic) \<and> ProgramMap pat = Panic)"
proof (cases "NumPrograms pat")
  case (Ok n)
  then show ?thesis using ProgramMap_returns [of pat n] by (auto simp: printPat_def)
next
  case (Err e)
  then show ?thesis using NumPrograms_cases(2) by metis
qed (use ProgramMap_Panic [of pat] in \<open>simp add: printPat_def\<close>)

text \<open>Without the messages and the boundary points the tool always ends; it panics only when the association table
  is cut short or \<open>ReadPMT\<close> returns an error for one of its PIDs.\<close>

theorem cli_ends:
  assumes "\<not> fl_dumpSCTE35 fl" "\<not> fl_showEbp fl"
  shows "\<exists>s r. main w fl = Some (s, r) \<and> (\<forall>e. r \<noteq> Err e) \<and>
    (r = Panic \<longrightarrow> (\<exists>reader pat. snd (ReadPAT reader) = Ok pat \<and>
      (ProgramMap pat = Panic \<or> (\<exists>pm. ProgramMap pat = Ok pm \<and>
        (\<exists>(pn, pid) \<in> set (map_range w pm). \<exists>r e. snd (ReadPMT r pid) = Err e)))))"
proof (cases "fl_fileName fl = [] \<or> os_Open w (fl_fileName fl) = None")
  case False
  then obtain bytes e where o: "fl_fileName fl \<noteq> []" "os_Open w (fl_fileName fl) = Some (bytes, e)" by auto
  obtain r off err where sy: "Sync \<lparr>sc_left = bytes, sc_last = None, sc_end = e\<rparr> = (r, off, err)"
    by (cases "Sync \<lparr>sc_left = bytes, sc_last = None, sc_end = e\<rparr>")
  let ?R = "\<lparr>br_left = sc_left r, br_end = sc_end r\<rparr>"
  obtain reader x where rp: "ReadPAT ?R = (reader, x)" by (cases "ReadPAT ?R")
  note main = main_def read_file_def Let_def o sy rp
  show ?thesis
  proof (cases "err = None \<and> (\<exists>pat. x = Ok pat)")
    case False
    then show ?thesis using ReadPAT_not_Panic [of ?R] by (cases err; cases x) (simp_all add: main)
  next
    case True
    then obtain pat where t: "err = None" "x = Ok pat" by blast
    then have pat: "snd (ReadPAT ?R) = Ok pat" using rp by simp
    from printPat_ends [of pat] show ?thesis
    proof (elim disjE exE conjE)
      fix s assume "printPat pat = (s, Panic)" "ProgramMap pat = Panic"
      with t show ?thesis by (simp add: main) (intro exI [of _ ?R] exI [of _ pat], simp add: rp)
    next
      fix s pm assume p: "printPat pat = (s, Ok ())" "ProgramMap pat = Ok pm"
      obtain s2 y where l: "pmt_loop fl (map_range w pm) reader [] = (s2, y)"
        by (cases "pmt_loop fl (map_range w pm) reader []")
      note pe = pmt_loop_ends [of fl "map_range w pm" reader "[]"]
      show ?thesis
      proof (cases y)
        case (Ok z)
        then obtain rd pmts where z: "y = Ok (rd, pmts)" by (cases z) auto
        from loop_ends [OF assms, of w "scte35PIDs fl pmts" rd 0] obtain s3 where
          "packet_loop w fl (scte35PIDs fl pmts) rd 0 = Some (s3, Ok ())" by blast
        with p t l z show ?thesis by (simp add: main)
      next
        case (Err er)
        with pe(2) [of er] l show ?thesis by simp
      next
        case Panic
        with pe(1) l have "\<exists>(pn, pid) \<in> set (map_range w pm). \<exists>r e. snd (ReadPMT r pid) = Err e" by simp
        with p t l Panic show ?thesis by (simp add: main) (intro exI [of _ ?R] exI [of _ pat], simp add: rp)
      qed
    qed
  qed
qed (auto simp: main_def Let_def)

theorem cli_ends_witness:
  "\<exists>s r. main (example_world\<lparr>map_range := rev\<rparr>) (example_flags\<lparr>fl_showPacketNumberOfPID := 256\<rparr>) = Some (s, r)"
  using cli_ends [of "example_flags\<lparr>fl_showPacketNumberOfPID := 256\<rparr>" "example_world\<lparr>map_range := rev\<rparr>"]
  by (auto simp: example_flags_def)

end
