(* ===== verification/Mc_Bits.thy ===== *)
theory Mc_Bits
  imports Gots_Fmt "HOL-Library.Signed_Division"
begin

text \<open>
  \<^verbatim>\<open>mediacommon/pkg/bits\<close>: reading and writing fields of any number of bits, and Exp-Golomb numbers.  The position is
  a number of bits; the functions that take a pointer to it return the new one.  The functions whose name ends in
  \<^verbatim>\<open>Unsafe\<close> panic past the end.
\<close>

section \<open>The code\<close>

abbreviation Errorf :: "string \<Rightarrow> 'a res" where "Errorf s \<equiv> Err (ErrorsNew s)"

definition HasSpace :: "byte list \<Rightarrow> nat \<Rightarrow> int \<Rightarrow> unit res" where
  "HasSpace buf pos n = (if n > int (length buf * 8) - int pos then Errorf ''not enough bits'' else Ok ())"

text \<open>The two loops of \<open>ReadBitsUnsafe\<close> and \<open>WriteBitsUnsafe\<close> run over whole bytes; the last branch takes what is left.\<close>

fun read_rest :: "byte list \<Rightarrow> nat \<Rightarrow> nat \<Rightarrow> u64 \<Rightarrow> (u64 \<times> nat) res" where
  "read_rest buf pos n v =
     (if n \<ge> 8 then res_bind (rd buf (drop_bit 3 pos)) (\<lambda>b.
        read_rest buf (pos + 8) (n - 8) (push_bit 8 v OR ucast b))
      else if n > 0 then res_bind (rd buf (drop_bit 3 pos)) (\<lambda>b.
        Ok (push_bit n v OR ucast (drop_bit (8 - n) b), pos + n))
      else Ok (v, pos))"

declare read_rest.simps [simp del]

definition ReadBitsUnsafe :: "byte list \<Rightarrow> nat \<Rightarrow> nat \<Rightarrow> (u64 \<times> nat) res" where
  "ReadBitsUnsafe buf pos n =
     (let res = 8 - (pos AND 0x07)
      in res_bind (rd buf (drop_bit 3 pos)) (\<lambda>b.
           if n < res then Ok (ucast (drop_bit (res - n) b AND (push_bit n 1 - 1)), pos + n)
           else read_rest buf (pos + res) (n - res) (ucast (b AND (push_bit res 1 - 1)))))"

definition ReadBits :: "byte list \<Rightarrow> nat \<Rightarrow> nat \<Rightarrow> (u64 \<times> nat) res" where
  "ReadBits buf pos n = res_bind (HasSpace buf pos (int n)) (\<lambda>_. ReadBitsUnsafe buf pos n)"

definition ReadFlagUnsafe :: "byte list \<Rightarrow> nat \<Rightarrow> (bool \<times> nat) res" where
  "ReadFlagUnsafe buf pos = res_bind (rd buf (drop_bit 3 pos)) (\<lambda>b.
     Ok (drop_bit (7 - (pos AND 0x07)) b AND 0x01 = 1, pos + 1))"

definition ReadFlag :: "byte list \<Rightarrow> nat \<Rightarrow> (bool \<times> nat) res" where
  "ReadFlag buf pos = res_bind (HasSpace buf pos 1) (\<lambda>_. ReadFlagUnsafe buf pos)"

text \<open>The loop over the leading zeros.\<close>

function golomb_zeros :: "byte list \<Rightarrow> nat \<Rightarrow> nat \<Rightarrow> (nat \<times> nat) res" where
  "golomb_zeros buf pos leadingZeros =
     (if int (length buf * 8) - int pos = 0 then Errorf ''not enough bits''
      else res_bind (rd buf (drop_bit 3 pos)) (\<lambda>b.
        if drop_bit (7 - (pos AND 0x07)) b AND 0x01 \<noteq> 0 then Ok (leadingZeros, pos + 1)
        else if leadingZeros + 1 > 32 then Errorf ''invalid value''
        else golomb_zeros buf (pos + 1) (leadingZeros + 1)))"
  by pat_completeness auto
termination
  by (relation "measure (\<lambda>(buf, pos, z). 33 - z)") auto

declare golomb_zeros.simps [simp del]

fun golomb_code :: "byte list \<Rightarrow> nat \<Rightarrow> nat \<Rightarrow> u32 \<Rightarrow> (u32 \<times> nat) res" where
  "golomb_code buf pos 0 codeNum = Ok (codeNum, pos)"
| "golomb_code buf pos (Suc n) codeNum =
     res_bind (rd buf (drop_bit 3 pos)) (\<lambda>b.
       golomb_code buf (pos + 1) n (codeNum OR push_bit n (ucast (drop_bit (7 - (pos AND 0x07)) b AND 0x01))))"

definition ReadGolombUnsigned :: "byte list \<Rightarrow> nat \<Rightarrow> (u32 \<times> nat) res" where
  "ReadGolombUnsigned buf pos =
     res_bind (golomb_zeros buf pos 0) (\<lambda>(leadingZeros, pos).
       if int (length buf * 8) - int pos < int leadingZeros then Errorf ''not enough bits''
       else res_bind (golomb_code buf pos leadingZeros 0) (\<lambda>(codeNum, pos).
         Ok (push_bit leadingZeros 1 - 1 + codeNum, pos)))"

text \<open>Numbers of type \<^verbatim>\<open>int32\<close> are words read with \<open>sint\<close>; the division rounds towards zero.\<close>

definition ReadGolombSigned :: "byte list \<Rightarrow> nat \<Rightarrow> (32 word \<times> nat) res" where
  "ReadGolombSigned buf pos =
     res_bind (ReadGolombUnsigned buf pos) (\<lambda>(v, pos).
       Ok (word_of_int (if v AND 0x01 \<noteq> 0 then sint (v + 1) sdiv 2 else sint (- v) sdiv 2), pos))"

fun write_rest :: "byte list \<Rightarrow> nat \<Rightarrow> u64 \<Rightarrow> nat \<Rightarrow> (byte list \<times> nat) res" where
  "write_rest buf pos v n =
     (if n \<ge> 8 then res_bind (wr buf (drop_bit 3 pos) (ucast (drop_bit (n - 8) v))) (\<lambda>buf.
        write_rest buf (pos + 8) v (n - 8))
      else if n > 0 then res_bind (wr buf (drop_bit 3 pos) (ucast (push_bit (8 - n) (v AND (push_bit n 1 - 1))))) (\<lambda>buf.
        Ok (buf, pos + n))
      else Ok (buf, pos))"

declare write_rest.simps [simp del]

definition WriteBitsUnsafe :: "byte list \<Rightarrow> nat \<Rightarrow> u64 \<Rightarrow> nat \<Rightarrow> (byte list \<times> nat) res" where
  "WriteBitsUnsafe buf pos v n =
     (let res = 8 - (pos AND 0x07); i = drop_bit 3 pos
      in res_bind (rd buf i) (\<lambda>b.
           if n < res then Ok (buf[i := b OR ucast (push_bit (res - n) v)], pos + n)
           else write_rest (buf[i := b OR ucast (drop_bit (n - res) v)]) (pos + res) v (n - res)))"

definition WriteFlagUnsafe :: "byte list \<Rightarrow> nat \<Rightarrow> bool \<Rightarrow> (byte list \<times> nat) res" where
  "WriteFlagUnsafe buf pos v = WriteBitsUnsafe buf pos (if v then 1 else 0) 1"

section \<open>Bits and their value\<close>

text \<open>The bits of a byte string, the highest of each byte first, and the number that a list of bits denotes.\<close>

definition bits_of_byte :: "byte \<Rightarrow> bool list" where
  "bits_of_byte b = map (\<lambda>i. bit b (7 - i)) [0..<8]"

definition bits_of :: "byte list \<Rightarrow> bool list" where
  "bits_of buf = concat (map bits_of_byte buf)"

definition bits_val :: "bool list \<Rightarrow> nat" where
  "bits_val bs = foldl (\<lambda>v b. 2 * v + of_bool b) 0 bs"

lemma length_of_byte_bits [simp]: "length (bits_of_byte b) = 8" by (simp add: bits_of_byte_def)

lemma length_bits_of [simp]: "length (bits_of buf) = 8 * length buf"
  by (induction buf) (simp_all add: bits_of_def)

lemma nth_bits_of: "p < 8 * length buf \<Longrightarrow> bits_of buf ! p = bit (buf ! (p div 8)) (7 - p mod 8)"
proof (induction buf arbitrary: p)
  case (Cons b buf)
  show ?case
  proof (cases "p < 8")
    case True
    then have "p div 8 = 0" "p mod 8 = p" by simp_all
    moreover have "bits_of (b # buf) ! p = bits_of_byte b ! p" using True by (simp add: bits_of_def nth_append)
    moreover have "bits_of_byte b ! p = bit b (7 - p)" using True by (simp only: bits_of_byte_def) (simp add: nth_map)
    ultimately show ?thesis by simp
  next
    case False
    then have "bits_of (b # buf) ! p = bits_of buf ! (p - 8)" by (simp add: bits_of_def nth_append)
    also have "\<dots> = bit (buf ! ((p - 8) div 8)) (7 - (p - 8) mod 8)" using Cons.prems False by (intro Cons.IH) simp
    also have "(p - 8) mod 8 = p mod 8" using False by (simp add: le_mod_geq)
    also have "(p - 8) div 8 = p div 8 - 1" using False by (simp add: le_div_geq)
    finally show ?thesis using False by (simp add: nth_Cons' le_div_geq)
  qed
qed simp

lemma bits_val_snoc: "bits_val (bs @ [b]) = 2 * bits_val bs + of_bool b" by (simp add: bits_val_def)
lemma bits_val_Nil [simp]: "bits_val [] = 0" by (simp add: bits_val_def)

lemma bits_val_append: "bits_val (xs @ ys) = bits_val xs * 2 ^ length ys + bits_val ys"
  by (induction ys rule: rev_induct) (simp_all add: bits_val_snoc append_assoc [symmetric] del: append_assoc)

lemma bits_val_less: "bits_val bs < 2 ^ length bs"
  by (induction bs rule: rev_induct) (auto simp: bits_val_snoc of_bool_def)

lemma bit_bits_val: "bit (bits_val bs) n \<longleftrightarrow> n < length bs \<and> bs ! (length bs - 1 - n)"
proof (induction bs arbitrary: n rule: rev_induct)
  case (snoc b bs)
  show ?case
  proof (cases n)
    case 0
    then show ?thesis by (simp add: bits_val_snoc bit_0)
  next
    case (Suc m)
    have "bit (bits_val (bs @ [b])) (Suc m) = bit (bits_val bs) m" by (simp add: bits_val_snoc bit_Suc)
    then show ?thesis using Suc snoc [of m] by (auto simp: nth_append)
  qed
qed simp

lemma pos_simps: "drop_bit 3 (pos :: nat) = pos div 8" "pos AND 7 = pos mod 8"
proof -
  show "drop_bit 3 pos = pos div 8" by (simp add: drop_bit_eq_div)
  have "pos AND mask 3 = pos mod 8" by (simp only: take_bit_eq_mask [symmetric] take_bit_eq_mod) simp
  then show "pos AND 7 = pos mod 8" by (simp add: mask_eq_exp_minus_1)
qed

lemma mask_byte: "b AND (2 ^ k - 1) = take_bit k (b :: byte)"
  by (simp add: take_bit_eq_mask mask_eq_exp_minus_1)

abbreviation bits_at :: "byte list \<Rightarrow> nat \<Rightarrow> nat \<Rightarrow> bool list" where
  "bits_at buf pos n \<equiv> take n (drop pos (bits_of buf))"

lemma same_byte:
  fixes pos :: nat
  assumes "pos mod 8 + j < 8"
  shows "(pos + j) div 8 = pos div 8" "(pos + j) mod 8 = pos mod 8 + j"
proof -
  have e: "pos + j = (pos mod 8 + j) + pos div 8 * 8" by simp
  have "(m + j + q * 8) div 8 = q" "(m + j + q * 8) mod 8 = m + j" if "m + j < 8" for m q using that by simp_all
  from this [OF assms] show "(pos + j) div 8 = pos div 8" "(pos + j) mod 8 = pos mod 8 + j"
    by (subst e, simp only:)+
qed

lemma byte_room:
  fixes pos m L :: nat
  assumes "pos div 8 < L" "pos mod 8 + k \<le> 8"
  shows "pos + k \<le> 8 * L"
proof -
  have "pos = 8 * (pos div 8) + pos mod 8" by simp
  moreover have "8 * (pos div 8) + 8 \<le> 8 * L" using assms(1) by simp
  ultimately show ?thesis using assms(2) by linarith
qed

lemma next_byte: "(pos + (8 - pos mod 8)) mod 8 = (0 :: nat)"
proof -
  have "pos mod 8 < 8" by simp
  then have "pos mod 8 + (8 - pos mod 8) = 8" by linarith
  then have "(pos mod 8 + (8 - pos mod 8)) mod 8 = 0" by (simp only: mod_self)
  then show ?thesis by (simp only: mod_add_left_eq)
qed

text \<open>A field inside one byte.\<close>

lemma bits_val_byte:
  assumes "pos mod 8 + k \<le> 8" "pos + k \<le> 8 * length buf"
  shows "bits_val (bits_at buf pos k) = unat (take_bit k (drop_bit (8 - pos mod 8 - k) (buf ! (pos div 8))))"
proof (rule bit_eqI)
  fix n
  have l: "length (bits_at buf pos k) = k" using assms(2) by simp
  show "bit (bits_val (bits_at buf pos k)) n =
      bit (unat (take_bit k (drop_bit (8 - pos mod 8 - k) (buf ! (pos div 8))))) n"
  proof (cases "n < k")
    case True
    let ?j = "k - 1 - n"
    have q: "(pos + ?j) div 8 = pos div 8" "(pos + ?j) mod 8 = pos mod 8 + ?j"
      using same_byte [of pos ?j] assms(1) True by simp_all
    have "bits_at buf pos k ! ?j = bit (buf ! (pos div 8)) (7 - (pos mod 8 + ?j))"
      using True assms(2) nth_bits_of [of "pos + ?j" buf] unfolding q by simp
    moreover have "7 - (pos mod 8 + ?j) = 8 - pos mod 8 - k + n" using True assms(1) by linarith
    ultimately show ?thesis using True l by (simp add: bit_bits_val bit_simps)
  next
    case False
    then show ?thesis unfolding bit_bits_val l by (simp add: bit_simps)
  qed
qed

lemma of_nat_append:
  "(of_nat (bits_val (xs @ ys)) :: 'a::len word) = push_bit (length ys) (of_nat (bits_val xs)) OR of_nat (bits_val ys)"
  by (rule bit_word_eqI) (auto simp: bit_simps bit_bits_val nth_append)

lemma bits_at_split: "k \<le> n \<Longrightarrow> bits_at buf pos n = bits_at buf pos k @ bits_at buf (pos + k) (n - k)"
  using take_add [of k "n - k" "drop pos (bits_of buf)"] by (simp add: add.commute)

lemma byte_at:
  assumes "pos mod 8 = 0" "pos + 8 \<le> 8 * length buf"
  shows "(of_nat (bits_val (bits_at buf pos 8)) :: 'a::len word) = ucast (buf ! (pos div 8))"
proof -
  have "take_bit 8 (buf ! (pos div 8)) = buf ! (pos div 8)" by (rule byte_eqI) (simp_all add: bit_simps)
  then show ?thesis using bits_val_byte [of pos 8 buf] assms by simp
qed

lemma read_rest_spec:
  "pos mod 8 = 0 \<Longrightarrow> pos + n \<le> 8 * length buf \<Longrightarrow>
    read_rest buf pos n v = Ok (push_bit n v OR of_nat (bits_val (bits_at buf pos n)), pos + n)"
proof (induction buf pos n v rule: read_rest.induct)
  case (1 buf pos n v)
  consider "8 \<le> n" | "0 < n" "n < 8" | "n = 0" by linarith
  then show ?case
  proof cases
    case 1
    then have i: "pos div 8 < length buf" using "1.prems" by linarith
    let ?b = "buf ! (pos div 8)"
    have r: "rd buf (drop_bit 3 pos) = Ok ?b" using i by (simp add: pos_simps)
    have "(pos + 8) mod 8 = 0" "pos + 8 + (n - 8) \<le> 8 * length buf" using 1 "1.prems" by simp_all
    note ih = "1.IH" [OF 1 r this]
    have "(of_nat (bits_val (bits_at buf pos n)) :: u64) =
        push_bit (n - 8) (ucast ?b) OR of_nat (bits_val (bits_at buf (pos + 8) (n - 8)))"
      using byte_at [of pos buf, where 'a = 64] 1 "1.prems"
      unfolding bits_at_split [OF 1] of_nat_append by simp
    moreover have "push_bit n v = push_bit (n - 8) (push_bit 8 v)" using 1 by simp
    ultimately have "push_bit (n - 8) (push_bit 8 v OR ucast ?b) OR of_nat (bits_val (bits_at buf (pos + 8) (n - 8))) =
        push_bit n v OR of_nat (bits_val (bits_at buf pos n))"
      by (simp only: push_bit_or or.assoc)
    then show ?thesis using 1 r ih by (subst read_rest.simps) simp
  next
    case 2
    then have i: "pos div 8 < length buf" using "1.prems" by linarith
    let ?b = "buf ! (pos div 8)"
    have r: "rd buf (drop_bit 3 pos) = Ok ?b" using i by (simp add: pos_simps)
    have "bits_val (bits_at buf pos n) = unat (take_bit n (drop_bit (8 - n) ?b))"
      using bits_val_byte [of pos n buf] 2 "1.prems" by simp
    moreover have "take_bit n (drop_bit (8 - n) ?b) = drop_bit (8 - n) ?b"
      by (rule bit_word_eqI) (use 2 in \<open>auto simp: bit_simps dest: bit_imp_le_length\<close>)
    ultimately have "(of_nat (bits_val (bits_at buf pos n)) :: u64) = ucast (drop_bit (8 - n) ?b)" by simp
    then show ?thesis using 2 r by (subst read_rest.simps) simp
  next
    case 3
    then show ?thesis by (subst read_rest.simps) simp
  qed
qed

text \<open>Reading a field gives the number of its bits, kept to 64 bits.  A field of no bits at the very end panics.\<close>

lemma ReadBitsUnsafe_spec:
  assumes "pos + n \<le> 8 * length buf"
  shows "ReadBitsUnsafe buf pos n =
    (if pos = 8 * length buf then Panic else Ok (of_nat (bits_val (bits_at buf pos n)), pos + n))"
proof (cases "pos = 8 * length buf")
  case True
  then show ?thesis by (simp add: ReadBitsUnsafe_def pos_simps rd_def)
next
  case False
  then have i: "pos div 8 < length buf" using assms by linarith
  let ?b = "buf ! (pos div 8)" and ?m = "pos mod 8"
  have r: "rd buf (pos div 8) = Ok ?b" using i by simp
  show ?thesis
  proof (cases "n < 8 - ?m")
    case True
    then have "bits_val (bits_at buf pos n) = unat (take_bit n (drop_bit (8 - ?m - n) ?b))"
      using bits_val_byte [of pos n buf] assms by simp
    then show ?thesis using True False r by (simp add: ReadBitsUnsafe_def pos_simps mask_byte Let_def)
  next
    case long: False
    let ?k = "8 - ?m"
    have k: "?k \<le> n" "?m + ?k = 8" using long by simp_all
    have p: "(pos + ?k) mod 8 = 0" by (rule next_byte)
    have "bits_val (bits_at buf pos ?k) = unat (take_bit ?k ?b)"
      using bits_val_byte [of pos ?k buf] assms k by simp
    then have "(of_nat (bits_val (bits_at buf pos ?k)) :: u64) = ucast (take_bit ?k ?b)" by simp
    then have "(of_nat (bits_val (bits_at buf pos n)) :: u64) =
        push_bit (n - ?k) (ucast (take_bit ?k ?b)) OR of_nat (bits_val (bits_at buf (pos + ?k) (n - ?k)))"
      using assms unfolding bits_at_split [OF k(1)] of_nat_append by simp
    then show ?thesis using long False r read_rest_spec [OF p, of "n - ?k" buf] assms k
      by (simp add: ReadBitsUnsafe_def pos_simps mask_byte Let_def)
  qed
qed

lemma ReadBits_spec:
  "ReadBits buf pos n =
    (if 8 * length buf < pos + n then Errorf ''not enough bits''
     else if pos = 8 * length buf then Panic
     else Ok (of_nat (bits_val (bits_at buf pos n)), pos + n))"
  using ReadBitsUnsafe_spec [of pos n buf] by (auto simp: ReadBits_def HasSpace_def)

lemma flag_bit: "drop_bit (7 - k) b AND 1 = (if bit b (7 - k) then 1 else (0 :: byte))"
  by (rule byte_eqI) (auto simp: bit_simps)

lemma ReadFlag_spec:
  "ReadFlag buf pos = (if 8 * length buf \<le> pos then Errorf ''not enough bits'' else Ok (bits_of buf ! pos, pos + 1))"
proof (cases "8 * length buf \<le> pos")
  case False
  then have "pos div 8 < length buf" "bits_of buf ! pos = bit (buf ! (pos div 8)) (7 - pos mod 8)"
    by (simp_all add: nth_bits_of)
  then show ?thesis using False by (simp add: ReadFlag_def HasSpace_def ReadFlagUnsafe_def pos_simps flag_bit)
qed (auto simp: ReadFlag_def HasSpace_def)

section \<open>Writing\<close>

definition word_bits :: "nat \<Rightarrow> 'a::len word \<Rightarrow> bool list" where
  "word_bits n v = map (\<lambda>i. bit v (n - 1 - i)) [0..<n]"

lemma length_word_bits [simp]: "length (word_bits n v) = n" by (simp add: word_bits_def)

lemma nth_word_bits: "i < n \<Longrightarrow> word_bits n v ! i = bit v (n - 1 - i)"
  by (simp add: word_bits_def)

lemma bits_val_word_bits: "bits_val (word_bits n v) = unat (take_bit n v)"
  by (rule bit_eqI) (auto simp: bit_bits_val nth_word_bits bit_simps)

lemma word_bits_split: "k \<le> n \<Longrightarrow> word_bits n v = word_bits k (drop_bit (n - k) v) @ word_bits (n - k) v"
  by (rule nth_equalityI) (auto simp: nth_append nth_word_bits bit_simps intro!: arg_cong [where f = "bit v"])

text \<open>A buffer whose bits from a position on are zero.\<close>

definition zeros_from :: "byte list \<Rightarrow> nat \<Rightarrow> bool" where
  "zeros_from buf pos \<longleftrightarrow> (\<forall>p. pos \<le> p \<and> p < 8 * length buf \<longrightarrow> \<not> bits_of buf ! p)"

lemma put_arith:
  fixes P Q q r a b k :: nat
  assumes "P = 8 * q + a" "Q = 8 * r + b" "b < 8" "a + k \<le> 8"
  shows "r = q \<Longrightarrow> Q < P \<longleftrightarrow> b < a" "r = q \<Longrightarrow> Q < P + k \<longleftrightarrow> b < a + k" "r = q \<Longrightarrow> Q - P = b - a"
    "r \<noteq> q \<Longrightarrow> P + k \<le> Q \<or> Q < P"
    "b < a \<Longrightarrow> \<not> 7 - b < 8 - a" "a \<le> b \<Longrightarrow> b < a + k \<Longrightarrow> 8 - a - k \<le> 7 - b \<and> 7 - b < 8 - a \<and> 7 - a - (7 - b) = b - a"
    "a + k \<le> b \<Longrightarrow> \<not> 8 - a - k \<le> 7 - b"
proof -
  show "r = q \<Longrightarrow> Q < P \<longleftrightarrow> b < a" "r = q \<Longrightarrow> Q < P + k \<longleftrightarrow> b < a + k" "r = q \<Longrightarrow> Q - P = b - a"
    using assms(1,2) by simp_all
  show "P + k \<le> Q \<or> Q < P" if "r \<noteq> q"
  proof (cases "r < q")
    case True
    then have "8 * r + 8 \<le> 8 * q" by simp
    then show ?thesis using assms by linarith
  next
    case False
    then have "8 * q + 8 \<le> 8 * r" using that by simp
    then show ?thesis using assms by linarith
  qed
  show "b < a \<Longrightarrow> \<not> 7 - b < 8 - a" "a + k \<le> b \<Longrightarrow> \<not> 8 - a - k \<le> 7 - b" using assms(3,4) by simp_all
  show "8 - a - k \<le> 7 - b \<and> 7 - b < 8 - a \<and> 7 - a - (7 - b) = b - a" if "a \<le> b" "b < a + k"
    using that assms(3,4) by (intro conjI) simp_all
qed

lemma put_byte:
  assumes z: "zeros_from buf pos" and i: "pos div 8 < length buf" and k: "pos mod 8 + k \<le> 8" "length bs = k"
    and x: "\<And>j. bit x j \<longleftrightarrow> 8 - pos mod 8 - k \<le> j \<and> j < 8 - pos mod 8 \<and> bs ! (7 - pos mod 8 - j)"
  shows "bits_of (buf[pos div 8 := buf ! (pos div 8) OR x]) =
    take pos (bits_of buf) @ bs @ replicate (8 * length buf - pos - k) False"
proof (rule nth_equalityI)
  let ?i = "pos div 8" and ?m = "pos mod 8"
  have pk: "pos + k \<le> 8 * length buf" using byte_room [OF i k(1)] .
  then show "length (bits_of (buf[?i := buf ! ?i OR x])) =
      length (take pos (bits_of buf) @ bs @ replicate (8 * length buf - pos - k) False)"
    using k(2) by simp
  fix p
  assume "p < length (bits_of (buf[?i := buf ! ?i OR x]))"
  then have p: "p < 8 * length buf" by simp
  let ?r = "(take pos (bits_of buf) @ bs @ replicate (8 * length buf - pos - k) False) ! p"
  have r: "?r = (if p < pos then bits_of buf ! p else if p < pos + k then bs ! (p - pos) else False)"
    using pk p k(2) by (auto simp: nth_append)
  have l: "bits_of (buf[?i := buf ! ?i OR x]) ! p =
      (bits_of buf ! p \<or> p div 8 = ?i \<and> bit x (7 - p mod 8))"
    using p i nth_bits_of [of p buf] nth_bits_of [of p "buf[?i := buf ! ?i OR x]"]
    by (auto simp: nth_list_update bit_simps)
  have zp: "pos \<le> p \<Longrightarrow> \<not> bits_of buf ! p" using z p by (simp add: zeros_from_def)
  have d: "pos = 8 * ?i + ?m" "p = 8 * (p div 8) + p mod 8" "?m < 8" "p mod 8 < 8" by simp_all
  note pa = put_arith [OF d(1,2,4) k(1)]
  show "bits_of (buf[?i := buf ! ?i OR x]) ! p = ?r"
  proof (cases "p div 8 = ?i")
    case True
    consider "p < pos" | "pos \<le> p" "p < pos + k" | "pos + k \<le> p" by linarith
    then show ?thesis
    proof cases
      case 1
      then have "\<not> bit x (7 - p mod 8)" using pa(1) [OF True] pa(5) by (simp add: x)
      then show ?thesis using l r 1 by simp
    next
      case 2
      then have "8 - ?m - k \<le> 7 - p mod 8 \<and> 7 - p mod 8 < 8 - ?m \<and> 7 - ?m - (7 - p mod 8) = p mod 8 - ?m"
        using pa(1,2) [OF True] by (intro pa(6)) simp_all
      then have "bit x (7 - p mod 8) = bs ! (p - pos)" unfolding pa(3) [OF True] x by simp
      then show ?thesis using l r 2 zp True by simp
    next
      case 3
      then have "\<not> bit x (7 - p mod 8)" using pa(2) [OF True] pa(7) by (simp add: x)
      then show ?thesis using l r 3 zp by simp
    qed
  next
    case False
    then show ?thesis using l r zp pa(4) [OF False] by auto
  qed
qed

lemma zeros_byte:
  assumes "zeros_from buf pos" "pos mod 8 = 0" "pos div 8 < length buf"
  shows "buf ! (pos div 8) = 0"
proof (rule bit_word_eqI)
  fix j assume j: "j < LENGTH(8)"
  have p: "(pos + (7 - j)) div 8 = pos div 8" "(pos + (7 - j)) mod 8 = 7 - j"
    using same_byte [of pos "7 - j"] assms(2) by simp_all
  have "pos + (7 - j) < 8 * length buf" using byte_room [OF assms(3), of 8] assms(2) j by simp
  then have "\<not> bit (buf ! (pos div 8)) (7 - (7 - j))"
    using assms(1) nth_bits_of [of "pos + (7 - j)" buf] unfolding p by (simp add: zeros_from_def)
  moreover have "7 - (7 - j) = j" using j by simp
  ultimately show "bit (buf ! (pos div 8)) j = bit 0 j" by simp
qed

lemma zeros_after:
  assumes "bits_of buf' = take pos (bits_of buf) @ bs @ replicate k False" "pos \<le> 8 * length buf"
  shows "zeros_from buf' (pos + length bs)"
proof -
  have l: "8 * length buf' = pos + length bs + k"
    using arg_cong [OF assms(1), where f = length] assms(2) by simp
  show ?thesis unfolding zeros_from_def assms(1) using assms(2) l by (auto simp: nth_append)
qed

lemma put_word:
  assumes "zeros_from buf pos" "pos div 8 < length buf" "pos mod 8 + k \<le> 8"
    and "\<And>j. bit x j \<longleftrightarrow> 8 - pos mod 8 - k \<le> j \<and> j < 8 - pos mod 8 \<and> bit v (j - (8 - pos mod 8 - k))"
  shows "bits_of (buf[pos div 8 := buf ! (pos div 8) OR x]) =
    take pos (bits_of buf) @ word_bits k v @ replicate (8 * length buf - pos - k) False"
proof (rule put_byte [OF assms(1-3)])
  fix j
  have "word_bits k v ! (7 - pos mod 8 - j) = bit v (j - (8 - pos mod 8 - k))"
    if "8 - pos mod 8 - k \<le> j" "j < 8 - pos mod 8"
  proof -
    have "7 - pos mod 8 - j < k" "k - 1 - (7 - pos mod 8 - j) = j - (8 - pos mod 8 - k)"
      using that assms(3) by auto
    then show ?thesis by (simp add: nth_word_bits)
  qed
  then show "bit x j \<longleftrightarrow> 8 - pos mod 8 - k \<le> j \<and> j < 8 - pos mod 8 \<and> word_bits k v ! (7 - pos mod 8 - j)"
    unfolding assms(4) by blast
qed simp

lemma write_rest_spec:
  "pos mod 8 = 0 \<Longrightarrow> pos + n \<le> 8 * length buf \<Longrightarrow> zeros_from buf pos \<Longrightarrow>
    \<exists>buf'. write_rest buf pos v n = Ok (buf', pos + n) \<and>
      bits_of buf' = take pos (bits_of buf) @ word_bits n v @ replicate (8 * length buf - pos - n) False"
proof (induction buf pos v n rule: write_rest.induct)
  case (1 buf pos v n)
  have tk: "bits_of buf = take pos (bits_of buf) @ replicate (8 * length buf - pos) False"
    using "1.prems" by (intro nth_equalityI) (auto simp: nth_append zeros_from_def)
  consider "8 \<le> n" | "0 < n" "n < 8" | "n = 0" by linarith
  then show ?case
  proof cases
    case 1
    then have i: "pos div 8 < length buf" using "1.prems" by linarith
    let ?x = "ucast (drop_bit (n - 8) v) :: byte"
    let ?b = "buf[pos div 8 := ?x]"
    have w: "wr buf (drop_bit 3 pos) ?x = Ok ?b" using i by (simp add: pos_simps wr_def)
    have z: "buf ! (pos div 8) OR ?x = ?x" using zeros_byte [OF "1.prems"(3,1) i] by simp
    have b: "bits_of ?b = take pos (bits_of buf) @ word_bits 8 (drop_bit (n - 8) v) @ replicate (8 * length buf - pos - 8) False"
      using put_word [OF "1.prems"(3) i, of 8 ?x "drop_bit (n - 8) v"] "1.prems"(1) unfolding z
      by (simp add: bit_simps)
    have zf: "zeros_from ?b (pos + 8)" using zeros_after [OF b] "1.prems"(2) by simp
    have le: "(pos + 8) mod 8 = 0" "pos + 8 + (n - 8) \<le> 8 * length ?b" using 1 "1.prems" by simp_all
    from "1.IH" [OF 1 w le zf] obtain buf' where buf': "write_rest ?b (pos + 8) v (n - 8) = Ok (buf', pos + 8 + (n - 8))"
      "bits_of buf' = take (pos + 8) (bits_of ?b) @ word_bits (n - 8) v @ replicate (8 * length ?b - (pos + 8) - (n - 8)) False"
      by blast
    have "take (pos + 8) (bits_of ?b) = take pos (bits_of buf) @ word_bits 8 (drop_bit (n - 8) v)"
      unfolding b using "1.prems"(2) 1 by simp
    then have "bits_of buf' = take pos (bits_of buf) @ word_bits n v @ replicate (8 * length buf - pos - n) False"
      using buf'(2) word_bits_split [OF 1, of v] 1 by simp
    moreover have "write_rest buf pos v n = Ok (buf', pos + n)"
      using 1 w buf'(1) by (subst write_rest.simps) simp
    ultimately show ?thesis by blast
  next
    case 2
    then have i: "pos div 8 < length buf" using "1.prems" by linarith
    let ?x = "ucast (push_bit (8 - n) (v AND (push_bit n 1 - 1))) :: byte"
    let ?b = "buf[pos div 8 := ?x]"
    have z: "buf ! (pos div 8) OR ?x = ?x" using zeros_byte [OF "1.prems"(3,1) i] by simp
    have "v AND (push_bit n 1 - 1) = take_bit n v" by (simp add: take_bit_eq_mask mask_eq_exp_minus_1)
    then have x: "bit ?x j \<longleftrightarrow> 8 - pos mod 8 - n \<le> j \<and> j < 8 - pos mod 8 \<and> bit v (j - (8 - pos mod 8 - n))" for j
      using 2 "1.prems"(1) by (auto simp: bit_simps)
    have "bits_of ?b = take pos (bits_of buf) @ word_bits n v @ replicate (8 * length buf - pos - n) False"
      using put_word [OF "1.prems"(3) i _ x] "1.prems"(1) 2 unfolding z by simp
    then show ?thesis using 2 i by (subst write_rest.simps) (simp add: pos_simps wr_def)
  next
    case 3
    then show ?thesis using tk by (subst write_rest.simps) (simp add: word_bits_def)
  qed
qed

lemma small_word_bit: "unat v < 2 ^ n \<Longrightarrow> bit v i \<Longrightarrow> i < n" for v :: "'a::len word"
proof (rule ccontr)
  assume v: "unat v < 2 ^ n" "bit v i" "\<not> i < n"
  have t: "take_bit n (unat v) = unat v" using v(1) by (rule take_bit_nat_eq_self)
  have "bit (unat v) i" using v(2) by (simp add: bit_unsigned_iff bit_imp_le_length)
  then have "bit (take_bit n (unat v)) i" by (simp only: t)
  then show False using v(3) unfolding bit_take_bit_iff by blast
qed

lemma WriteBitsUnsafe_spec:
  assumes "zeros_from buf pos" "pos + n \<le> 8 * length buf" "pos < 8 * length buf" "unat v < 2 ^ n"
  shows "\<exists>buf'. WriteBitsUnsafe buf pos v n = Ok (buf', pos + n) \<and>
    bits_of buf' = take pos (bits_of buf) @ word_bits n v @ replicate (8 * length buf - pos - n) False"
proof -
  let ?m = "pos mod 8" and ?i = "pos div 8"
  have i: "?i < length buf" using assms(3) by linarith
  have m: "?m < 8" by simp
  note sv = small_word_bit [OF assms(4)]
  show ?thesis
  proof (cases "n < 8 - ?m")
    case True
    let ?x = "ucast (push_bit (8 - ?m - n) v) :: byte"
    have "bit ?x j \<longleftrightarrow> 8 - ?m - n \<le> j \<and> j < 8 - ?m \<and> bit v (j - (8 - ?m - n))" for j
      using sv [of "j - (8 - ?m - n)"] True by (auto simp: bit_simps)
    from put_word [OF assms(1) i _ this] True
    have "bits_of (buf[?i := buf ! ?i OR ?x]) = take pos (bits_of buf) @ word_bits n v @ replicate (8 * length buf - pos - n) False"
      by simp
    then show ?thesis using True i by (auto simp: WriteBitsUnsafe_def pos_simps Let_def)
  next
    case False
    let ?k = "8 - ?m"
    let ?x = "ucast (drop_bit (n - ?k) v) :: byte"
    let ?b = "buf[?i := buf ! ?i OR ?x]"
    have k: "?k \<le> n" "?m + ?k = 8" "(pos + ?k) mod 8 = 0" using False m next_byte [of pos] by simp_all
    have x: "bit ?x j \<longleftrightarrow> 8 - ?m - ?k \<le> j \<and> j < 8 - ?m \<and> bit (drop_bit (n - ?k) v) (j - (8 - ?m - ?k))" for j
      using sv [of "n - ?k + j"] k(1) by (auto simp: bit_simps)
    from put_word [OF assms(1) i _ this] k(2)
    have b: "bits_of ?b = take pos (bits_of buf) @ word_bits ?k (drop_bit (n - ?k) v) @ replicate (8 * length buf - pos - ?k) False"
      by simp
    have zf: "zeros_from ?b (pos + ?k)" using zeros_after [OF b] assms(3) by simp
    have le: "pos + ?k + (n - ?k) \<le> 8 * length ?b" using k(1) assms(2) by simp
    from write_rest_spec [OF k(3) le zf, of v] obtain buf' where
      buf': "write_rest ?b (pos + ?k) v (n - ?k) = Ok (buf', pos + ?k + (n - ?k))"
      "bits_of buf' = take (pos + ?k) (bits_of ?b) @ word_bits (n - ?k) v @ replicate (8 * length ?b - (pos + ?k) - (n - ?k)) False"
      by blast
    have "take (pos + ?k) (bits_of ?b) = take pos (bits_of buf) @ word_bits ?k (drop_bit (n - ?k) v)"
      unfolding b using assms(3) by simp
    then have "bits_of buf' = take pos (bits_of buf) @ word_bits n v @ replicate (8 * length buf - pos - n) False"
      using buf'(2) word_bits_split [OF k(1), of v] k(1) by simp
    moreover have "WriteBitsUnsafe buf pos v n = Ok (buf', pos + n)"
      using False i buf'(1) k(1) by (simp add: WriteBitsUnsafe_def pos_simps Let_def)
    ultimately show ?thesis by blast
  qed
qed

section \<open>Sequences of fields\<close>

fun WriteAll :: "byte list \<Rightarrow> nat \<Rightarrow> (u64 \<times> nat) list \<Rightarrow> (byte list \<times> nat) res" where
  "WriteAll buf pos [] = Ok (buf, pos)"
| "WriteAll buf pos ((v, n) # fs) = res_bind (WriteBitsUnsafe buf pos v n) (\<lambda>(buf, pos). WriteAll buf pos fs)"

fun ReadAll :: "byte list \<Rightarrow> nat \<Rightarrow> nat list \<Rightarrow> (u64 list \<times> nat) res" where
  "ReadAll buf pos [] = Ok ([], pos)"
| "ReadAll buf pos (n # ns) = res_bind (ReadBits buf pos n) (\<lambda>(v, pos).
     res_bind (ReadAll buf pos ns) (\<lambda>(vs, pos). Ok (v # vs, pos)))"

definition fields_bits :: "(u64 \<times> nat) list \<Rightarrow> bool list" where
  "fields_bits fs = concat (map (\<lambda>(v, n). word_bits n v) fs)"

definition field_ok :: "u64 \<times> nat \<Rightarrow> bool" where
  "field_ok f \<longleftrightarrow> 0 < snd f \<and> unat (fst f) < 2 ^ snd f"

lemma length_fields_bits: "length (fields_bits fs) = sum_list (map snd fs)"
  by (induction fs) (auto simp: fields_bits_def)

lemma WriteAll_spec:
  "zeros_from buf pos \<Longrightarrow> pos + length (fields_bits fs) \<le> 8 * length buf \<Longrightarrow> \<forall>f \<in> set fs. field_ok f \<Longrightarrow>
    \<exists>buf' k. WriteAll buf pos fs = Ok (buf', pos + length (fields_bits fs)) \<and> length buf' = length buf \<and>
      bits_of buf' = take pos (bits_of buf) @ fields_bits fs @ replicate k False"
proof (induction fs arbitrary: buf pos)
  case Nil
  have "bits_of buf = take pos (bits_of buf) @ replicate (8 * length buf - pos) False"
    using Nil by (intro nth_equalityI) (auto simp: nth_append zeros_from_def)
  then show ?case by (auto simp: fields_bits_def)
next
  case (Cons f fs)
  obtain v n where f: "f = (v, n)" by (cases f)
  have fb: "fields_bits (f # fs) = word_bits n v @ fields_bits fs" by (simp add: fields_bits_def f)
  have ok: "0 < n" "unat v < 2 ^ n" using Cons.prems(3) by (simp_all add: f field_ok_def)
  have le: "pos + n \<le> 8 * length buf" "pos < 8 * length buf" using Cons.prems(2) ok(1) unfolding fb by simp_all
  from WriteBitsUnsafe_spec [OF Cons.prems(1) le ok(2)] obtain b where
    b: "WriteBitsUnsafe buf pos v n = Ok (b, pos + n)"
      "bits_of b = take pos (bits_of buf) @ word_bits n v @ replicate (8 * length buf - pos - n) False" by blast
  have lb: "length b = length buf" using arg_cong [OF b(2), where f = length] le by simp
  have "zeros_from b (pos + n)" using zeros_after [OF b(2)] le by simp
  moreover have "pos + n + length (fields_bits fs) \<le> 8 * length b" using Cons.prems(2) lb unfolding fb by simp
  ultimately obtain b' k where b': "WriteAll b (pos + n) fs = Ok (b', pos + n + length (fields_bits fs))"
    "length b' = length b" "bits_of b' = take (pos + n) (bits_of b) @ fields_bits fs @ replicate k False"
    using Cons.IH [of b "pos + n"] Cons.prems(3) by auto
  have "take (pos + n) (bits_of b) = take pos (bits_of buf) @ word_bits n v" unfolding b(2) using le by simp
  with b' b(1) lb show ?case by (auto simp: f fb [unfolded f])
qed

lemma ReadAll_spec:
  "bits_of buf = pre @ fields_bits fs @ post \<Longrightarrow> \<forall>f \<in> set fs. field_ok f \<Longrightarrow>
    ReadAll buf (length pre) (map snd fs) = Ok (map fst fs, length pre + length (fields_bits fs))"
proof (induction fs arbitrary: pre)
  case (Cons f fs)
  obtain v n where f: "f = (v, n)" by (cases f)
  have fb: "fields_bits (f # fs) = word_bits n v @ fields_bits fs" by (simp add: fields_bits_def f)
  have ok: "0 < n" "unat v < 2 ^ n" using Cons.prems(2) by (simp_all add: f field_ok_def)
  have l: "length pre + n + length (fields_bits fs) + length post = 8 * length buf"
    using arg_cong [OF Cons.prems(1), where f = length] unfolding fb by simp
  have "bits_at buf (length pre) n = word_bits n v" unfolding Cons.prems(1) fb by simp
  moreover have "take_bit n v = v"
    by (rule bit_word_eqI) (use small_word_bit [OF ok(2)] in \<open>auto simp: bit_simps\<close>)
  ultimately have "ReadBits buf (length pre) n = Ok (v, length pre + n)"
    using l ok(1) by (simp add: ReadBits_spec bits_val_word_bits)
  moreover have "ReadAll buf (length (pre @ word_bits n v)) (map snd fs) =
      Ok (map fst fs, length (pre @ word_bits n v) + length (fields_bits fs))"
    by (rule Cons.IH) (use Cons.prems fb in simp_all)
  ultimately show ?case by (simp add: f fb [unfolded f])
qed (simp add: fields_bits_def)

section \<open>Exp-Golomb numbers\<close>

lemma bit_read: "p < 8 * length buf \<Longrightarrow> rd buf (p div 8) = Ok (buf ! (p div 8))"
  "p < 8 * length buf \<Longrightarrow> bit (buf ! (p div 8)) (7 - p mod 8) = bits_of buf ! p"
  by (simp_all add: pos_simps nth_bits_of)

lemma golomb_zeros_step:
  assumes "pos < 8 * length buf"
  shows "golomb_zeros buf pos z =
    (if bits_of buf ! pos then Ok (z, pos + 1)
     else if z + 1 > 32 then Errorf ''invalid value'' else golomb_zeros buf (pos + 1) (z + 1))"
proof -
  have "\<not> int (length buf * 8) - int pos = 0" using assms by linarith
  then show ?thesis
    by (subst golomb_zeros.simps) (simp add: bit_read [OF assms] pos_simps flag_bit)
qed

lemma golomb_zeros_spec:
  "bits_at buf pos (k + 1) = replicate k False @ [True] \<Longrightarrow> z + k \<le> 32 \<Longrightarrow>
    golomb_zeros buf pos z = Ok (z + k, pos + k + 1)"
proof (induction k arbitrary: pos z)
  case 0
  have "pos < 8 * length buf" using arg_cong [OF 0(1), where f = length] by simp
  moreover from this have "bits_of buf ! pos"
    using 0 by (simp add: take_Suc_conv_app_nth hd_drop_conv_nth take_Suc)
  ultimately show ?case by (simp add: golomb_zeros_step)
next
  case (Suc k)
  have p: "pos < 8 * length buf" using arg_cong [OF Suc.prems(1), where f = length] by simp
  have s: "bits_at buf pos (Suc k + 1) = bits_of buf ! pos # bits_at buf (pos + 1) (k + 1)"
    using p by (simp add: Cons_nth_drop_Suc [symmetric])
  then have "\<not> bits_of buf ! pos" "bits_at buf (pos + 1) (k + 1) = replicate k False @ [True]" using Suc.prems(1) by simp_all
  with Suc.IH [of "pos + 1" "z + 1"] Suc.prems(2) p show ?case by (simp add: golomb_zeros_step)
qed

lemma golomb_code_spec:
  "pos + n \<le> 8 * length buf \<Longrightarrow> golomb_code buf pos n c = Ok (c OR of_nat (bits_val (bits_at buf pos n)), pos + n)"
proof (induction n arbitrary: pos c)
  case (Suc n)
  then have p: "pos < 8 * length buf" by simp
  have b: "bits_at buf pos 1 = [bits_of buf ! pos]" using p by (simp add: take_Suc hd_drop_conv_nth)
  have "bits_at buf pos (Suc n) = bits_at buf pos 1 @ bits_at buf (pos + 1) n"
    using bits_at_split [of 1 "Suc n" pos buf] by simp
  moreover have "length (bits_at buf (pos + 1) n) = n" using Suc.prems by simp
  ultimately have "(of_nat (bits_val (bits_at buf pos (Suc n))) :: u32) =
      push_bit n (of_bool (bits_of buf ! pos)) OR of_nat (bits_val (bits_at buf (pos + 1) n))"
    by (simp only: of_nat_append b) (simp add: bits_val_def)
  then show ?case using Suc by (simp add: bit_read [OF p] pos_simps flag_bit or.assoc of_bool_def)
qed simp

lemma ReadGolombUnsigned_spec:
  assumes "bits_at buf pos (2 * k + 1) = replicate k False @ True # ys" "length ys = k" "k \<le> 32"
  shows "ReadGolombUnsigned buf pos = Ok (push_bit k 1 - 1 + of_nat (bits_val ys), pos + 2 * k + 1)"
proof -
  have l: "pos + 2 * k + 1 \<le> 8 * length buf"
    using arg_cong [OF assms(1), where f = length] assms(2) by simp
  have s: "bits_at buf pos (2 * k + 1) = bits_at buf pos (k + 1) @ bits_at buf (pos + (k + 1)) k"
    using bits_at_split [of "k + 1" "2 * k + 1" pos buf] by simp
  have la: "length (bits_at buf pos (k + 1)) = k + 1" using l by simp
  have e: "bits_at buf pos (k + 1) @ bits_at buf (pos + (k + 1)) k = (replicate k False @ [True]) @ ys"
    using assms(1) unfolding s by simp
  have "length (bits_at buf pos (k + 1)) = length (replicate k False @ [True])" using la by simp
  with e have b: "bits_at buf pos (k + 1) = replicate k False @ [True]" "bits_at buf (pos + (k + 1)) k = ys"
    by (metis append_eq_append_conv)+
  have "golomb_zeros buf pos 0 = Ok (k, pos + k + 1)" using golomb_zeros_spec [OF b(1), of 0] assms(3) by simp
  moreover have "golomb_code buf (pos + k + 1) k 0 = Ok (of_nat (bits_val ys), pos + k + 1 + k)"
    using golomb_code_spec [of "pos + k + 1" k buf 0] l b(2) by simp
  ultimately show ?thesis using l by (simp add: ReadGolombUnsigned_def)
qed

text \<open>Reading always ends with a number or an error, inside the buffer.\<close>

lemma golomb_zeros_bound:
  "pos \<le> 8 * length buf \<Longrightarrow> golomb_zeros buf pos z \<noteq> Panic \<and>
    (\<forall>z' p. golomb_zeros buf pos z = Ok (z', p) \<longrightarrow> pos < p \<and> p \<le> 8 * length buf)"
proof (induction buf pos z rule: golomb_zeros.induct)
  case (1 buf pos z)
  show ?case
  proof (cases "pos = 8 * length buf")
    case True
    then have "golomb_zeros buf pos z = Errorf ''not enough bits''" by (subst golomb_zeros.simps) simp
    then show ?thesis by simp
  next
    case False
    then have p: "pos < 8 * length buf" using "1.prems" by simp
    have "\<not> int (length buf * 8) - int pos = 0" using p by linarith
    moreover have "rd buf (drop_bit 3 pos) = Ok (buf ! (pos div 8))" using bit_read(1) [OF p] by (simp add: pos_simps)
    ultimately have ih: "\<not> bits_of buf ! pos \<Longrightarrow> \<not> z + 1 > 32 \<Longrightarrow> golomb_zeros buf (pos + 1) (z + 1) \<noteq> Panic \<and>
        (\<forall>z' p. golomb_zeros buf (pos + 1) (z + 1) = Ok (z', p) \<longrightarrow> pos + 1 < p \<and> p \<le> 8 * length buf)"
      using "1.IH" [of "buf ! (pos div 8)"] p by (simp add: pos_simps flag_bit bit_read(2) [OF p])
    show ?thesis using ih p unfolding golomb_zeros_step [OF p] by (auto dest!: spec)
  qed
qed

lemma ReadGolombUnsigned_bound:
  assumes "pos \<le> 8 * length buf"
  shows "ReadGolombUnsigned buf pos \<noteq> Panic"
    and "ReadGolombUnsigned buf pos = Ok (v, p) \<Longrightarrow> pos < p \<and> p \<le> 8 * length buf"
proof -
  note b = golomb_zeros_bound [OF assms, of 0]
  show "ReadGolombUnsigned buf pos \<noteq> Panic"
  proof (cases "golomb_zeros buf pos 0")
    case (Ok zp)
    obtain z q where "golomb_zeros buf pos 0 = Ok (z, q)" using Ok by (cases zp) auto
    moreover from this have "q \<le> 8 * length buf" using b by blast
    ultimately show ?thesis
      using golomb_code_spec [of q z buf 0] by (auto simp: ReadGolombUnsigned_def)
  qed (use b in \<open>simp_all add: ReadGolombUnsigned_def\<close>)
  show "pos < p \<and> p \<le> 8 * length buf" if r: "ReadGolombUnsigned buf pos = Ok (v, p)"
  proof -
    obtain z q where zq: "golomb_zeros buf pos 0 = Ok (z, q)" "\<not> int (length buf * 8) - int q < int z"
      using r by (auto simp: ReadGolombUnsigned_def split: if_splits)
    then have "pos < q" "q \<le> 8 * length buf" using b by blast+
    moreover have "golomb_code buf q z 0 = Ok (of_nat (bits_val (bits_at buf q z)), q + z)"
      using golomb_code_spec [of q z buf 0] zq(2) by simp
    ultimately show ?thesis using r zq by (auto simp: ReadGolombUnsigned_def)
  qed
qed

lemma ReadGolombSigned_bound:
  assumes "pos \<le> 8 * length buf"
  shows "ReadGolombSigned buf pos \<noteq> Panic"
    and "ReadGolombSigned buf pos = Ok (v, p) \<Longrightarrow> pos < p \<and> p \<le> 8 * length buf"
proof -
  show "ReadGolombSigned buf pos \<noteq> Panic"
    unfolding ReadGolombSigned_def using ReadGolombUnsigned_bound(1) [OF assms]
    by (intro res_bind_not_Panic) (auto split: prod.splits)
  show "pos < p \<and> p \<le> 8 * length buf" if "ReadGolombSigned buf pos = Ok (v, p)"
    using that ReadGolombUnsigned_bound(2) [OF assms] by (auto simp: ReadGolombSigned_def)
qed

section \<open>Properties\<close>

text \<open>Fields written one after the other into a buffer that is zero behind the position, each of at least one bit
  and with a value of that many bits, are read back in the same order with the same sizes; the bits before them
  keep their values, and both positions move by the sizes.\<close>

theorem bits_roundtrip:
  assumes "zeros_from buf pos" "pos + sum_list (map snd fs) \<le> 8 * length buf" "\<forall>f \<in> set fs. field_ok f"
  shows "\<exists>buf'. WriteAll buf pos fs = Ok (buf', pos + sum_list (map snd fs)) \<and> length buf' = length buf \<and>
    take pos (bits_of buf') = take pos (bits_of buf) \<and>
    ReadAll buf' pos (map snd fs) = Ok (map fst fs, pos + sum_list (map snd fs))"
proof -
  have l: "pos \<le> 8 * length buf" using assms(2) by simp
  have "pos + length (fields_bits fs) \<le> 8 * length buf" using assms(2) by (simp add: length_fields_bits)
  from WriteAll_spec [OF assms(1) this assms(3)] obtain buf' k where
    b: "WriteAll buf pos fs = Ok (buf', pos + sum_list (map snd fs))" "length buf' = length buf"
      "bits_of buf' = take pos (bits_of buf) @ fields_bits fs @ replicate k False"
    unfolding length_fields_bits by blast
  have "length (take pos (bits_of buf)) = pos" using l by simp
  with ReadAll_spec [OF b(3) assms(3)] l have "ReadAll buf' pos (map snd fs) = Ok (map fst fs, pos + sum_list (map snd fs))"
    by (simp add: length_fields_bits)
  with b l show ?thesis by simp
qed

theorem bits_roundtrip_witness:
  "\<exists>buf'. WriteAll [0xA0, 0, 0] 3 [(5, 3), (0x1FF, 12)] = Ok (buf', 18) \<and> ReadAll buf' 3 [3, 12] = Ok ([5, 0x1FF], 18)"
proof -
  have "zeros_from [0xA0, 0, 0] 3"
    unfolding zeros_from_def
  proof (intro allI impI)
    fix p :: nat assume p: "3 \<le> p \<and> p < 8 * length [0xA0, 0, 0 :: byte]"
    have "\<not> bit (0xA0 :: byte) j" if "j < 5" for j
    proof -
      have "(0xA0 :: byte) = push_bit 5 5" by simp
      then show ?thesis using that by (simp only: bit_push_bit_iff) simp
    qed
    moreover have "[0xA0, 0, 0 :: byte] ! (p div 8) = (if p div 8 = 0 then 0xA0 else 0)"
      using p by (auto simp: nth_Cons' less_Suc_eq)
    moreover have "p div 8 = 0 \<Longrightarrow> 7 - p mod 8 < 5" using p by (simp add: div_eq_0_iff)
    ultimately show "\<not> bits_of [0xA0, 0, 0 :: byte] ! p" using p by (subst nth_bits_of) auto
  qed
  from bits_roundtrip [OF this, of "[(5, 3), (0x1FF, 12)]"] show ?thesis by (auto simp: field_ok_def)
qed

text \<open>A number coded as up to 32 zeros, a one and as many bits again is read as a 32-bit word: the number itself as
  long as there are at most 31 zeros, and with 32 zeros, where the number does not fit, one less than the bits
  behind the one, so that two codes give the same number; \<open>ReadGolombUnsigned\<close> never panics and never leaves the
  buffer.\<close>

theorem golomb_decodes:
  assumes "bits_at buf pos (2 * k + 1) = replicate k False @ True # ys" "length ys = k" "k \<le> 32"
  shows "\<exists>v. ReadGolombUnsigned buf pos = Ok (v, pos + 2 * k + 1) \<and>
    (k < 32 \<longrightarrow> unat v = 2 ^ k - 1 + bits_val ys) \<and> (k = 32 \<longrightarrow> v = of_nat (bits_val ys) - 1)"
proof -
  let ?v = "push_bit k 1 - 1 + of_nat (bits_val ys) :: u32"
  have "?v = of_nat (bits_val ys) - 1" if "k = 32" using that by simp
  moreover have "unat ?v = 2 ^ k - 1 + bits_val ys" if k: "k < 32"
  proof -
    have "?v = of_nat (2 ^ k - 1 + bits_val ys)" by (simp only: of_nat_add) (simp add: of_nat_diff)
    moreover have "2 ^ k - 1 + bits_val ys < 2 ^ LENGTH(32)"
    proof -
      have "2 ^ k - 1 + bits_val ys < 2 ^ Suc k" using bits_val_less [of ys] assms(2) by simp
      also have "\<dots> \<le> 2 ^ LENGTH(32)" using k by (intro power_increasing) simp_all
      finally show ?thesis .
    qed
    ultimately show ?thesis by (simp only: unat_of_nat mod_less)
  qed
  ultimately show ?thesis using ReadGolombUnsigned_spec [OF assms] by blast
qed

theorem golomb_decodes_witness:
  "\<exists>v. ReadGolombUnsigned [0x28] 0 = Ok (v, 5) \<and> unat v = 4"
proof -
  have "bits_of [0x28] = [False, False, True, False, True, False, False, False]"
    by (simp add: bits_of_def bits_of_byte_def upt_rec bit_numeral_rec)
  then have "bits_at [0x28] 0 (2 * 2 + 1) = replicate 2 False @ True # [False, True]" by (simp add: numeral_2_eq_2)
  from golomb_decodes [OF this] show ?thesis by (simp add: bits_val_def)
qed

end
