(* ===== verification/Mc_H264.thy ===== *)
theory Mc_H264
  imports Mc_Bits
begin

text \<open>
  \<^verbatim>\<open>mediacommon/pkg/codecs/h264\<close>, the formats of access units: emulation prevention
  (\<^verbatim>\<open>emulation_prevention.go\<close>), length-prefixed units (\<^verbatim>\<open>avcc.go\<close>), units behind start codes (\<^verbatim>\<open>annexb.go\<close>), the unit
  types (\<^verbatim>\<open>nalu_type.go\<close>) and random access (\<^verbatim>\<open>is_random_access.go\<close>).  An \<^verbatim>\<open>int\<close> of 64 bits does not overflow on the
  sizes here and is a natural number.
\<close>

section \<open>Limits and types\<close>

definition MaxAccessUnitSize :: nat where "MaxAccessUnitSize = 8 * 1024 * 1024"
definition MaxNALUsPerAccessUnit :: nat where "MaxNALUsPerAccessUnit = 50"

type_synonym NALUType = byte

definition NALUTypeNonIDR :: NALUType where "NALUTypeNonIDR = 1"
definition NALUTypeIDR :: NALUType where "NALUTypeIDR = 5"
definition NALUTypeSPS :: NALUType where "NALUTypeSPS = 7"

definition naluTypeLabels :: "(NALUType \<times> string) list" where
  "naluTypeLabels =
     [(1, ''NonIDR''), (2, ''DataPartitionA''), (3, ''DataPartitionB''), (4, ''DataPartitionC''), (5, ''IDR''),
      (6, ''SEI''), (7, ''SPS''), (8, ''PPS''), (9, ''AccessUnitDelimiter''), (10, ''EndOfSequence''),
      (11, ''EndOfStream''), (12, ''FillerData''), (13, ''SPSExtension''), (14, ''Prefix''), (15, ''SubsetSPS''),
      (16, ''Reserved16''), (17, ''Reserved17''), (18, ''Reserved18''), (19, ''SliceLayerWithoutPartitioning''),
      (20, ''SliceExtension''), (21, ''SliceExtensionDepth''), (22, ''Reserved22''), (23, ''Reserved23''),
      (24, ''STAP-A''), (25, ''STAP-B''), (26, ''MTAP-16''), (27, ''MTAP-24''), (28, ''FU-A''), (29, ''FU-B'')]"

definition NALUType_String :: "NALUType \<Rightarrow> string" where
  "NALUType_String nt =
     (case map_of naluTypeLabels nt of Some l \<Rightarrow> l | None \<Rightarrow> ''unknown ('' @ show_byte nt @ '')'')"

fun IsRandomAccess :: "byte list list \<Rightarrow> bool res" where
  "IsRandomAccess [] = Ok False"
| "IsRandomAccess (nalu # au) =
     res_bind (rd nalu 0) (\<lambda>b. if b AND 0x1F = NALUTypeIDR then Ok True else IsRandomAccess au)"

section \<open>Emulation prevention\<close>

definition prevention_at :: "byte list \<Rightarrow> nat \<Rightarrow> bool" where
  "prevention_at nalu i \<longleftrightarrow> nalu ! (i - 2) = 0 \<and> nalu ! (i - 1) = 0 \<and> nalu ! i = 3"

function ep_count :: "byte list \<Rightarrow> nat \<Rightarrow> nat \<Rightarrow> nat" where
  "ep_count nalu i n =
     (if i < length nalu then
        if prevention_at nalu i then ep_count nalu (i + 3) (n - 1) else ep_count nalu (i + 1) n
      else n)"
  by pat_completeness auto
termination
  by (relation "measure (\<lambda>(nalu, i, n). length nalu - i)") auto

declare ep_count.simps [simp del]

function ep_copy :: "byte list \<Rightarrow> nat \<Rightarrow> byte list \<Rightarrow> nat \<Rightarrow> nat \<Rightarrow> byte list" where
  "ep_copy nalu i ret pos start =
     (if i < length nalu then
        if prevention_at nalu i then
          let src = take (i - start) (drop start nalu)
          in ep_copy nalu (i + 3) (go_copy ret pos src) (pos + min (length ret - pos) (length src)) (i + 1)
        else ep_copy nalu (i + 1) ret pos start
      else go_copy ret pos (drop start nalu))"
  by pat_completeness auto
termination
  by (relation "measure (\<lambda>(nalu, i, ret, pos, start). length nalu - i)") auto

declare ep_copy.simps [simp del]

definition EmulationPreventionRemove :: "byte list \<Rightarrow> byte list" where
  "EmulationPreventionRemove nalu =
     (let n = ep_count nalu 2 (length nalu) in ep_copy nalu 2 (replicate n 0) 0 0)"

section \<open>AVCC\<close>

definition be32 :: "byte list \<Rightarrow> nat \<Rightarrow> nat res" where
  "be32 buf pos = res_bind (slice buf pos (pos + 4)) (\<lambda>b.
     Ok (unat (push_bit 24 (ucast (b ! 0)) OR push_bit 16 (ucast (b ! 1)) OR push_bit 8 (ucast (b ! 2)) OR ucast (b ! 3) :: u32)))"

definition too_big :: "nat \<Rightarrow> 'a res" where
  "too_big size' = Errorf (''access unit size ('' @ show_nat size' @ '') is too big, maximum is '' @ show_nat MaxAccessUnitSize)"

definition too_many :: "nat \<Rightarrow> 'a res" where
  "too_many n = Errorf (''NALU count ('' @ show_nat n @ '') exceeds maximum allowed ('' @ show_nat MaxNALUsPerAccessUnit @ '')'')"

function avcc_scan :: "byte list \<Rightarrow> nat \<Rightarrow> nat \<Rightarrow> nat \<Rightarrow> nat res" where
  "avcc_scan buf pos n auSize =
     (if length buf - pos < 4 then Errorf ''invalid length''
      else res_bind (be32 buf pos) (\<lambda>l.
        let pos = pos + 4
        in if l \<noteq> 0 then
             if auSize + l > MaxAccessUnitSize then too_big (auSize + l)
             else if length buf - pos < l then Errorf ''invalid length''
             else if length buf - (pos + l) = 0 then Ok (n + 1)
             else avcc_scan buf (pos + l) (n + 1) (auSize + l)
           else if length buf - pos = 0 then Ok n
           else avcc_scan buf pos n auSize))"
  by pat_completeness auto
termination
  by (relation "measure (\<lambda>(buf, pos, n, auSize). length buf - pos)") auto

declare avcc_scan.simps [simp del]

text \<open>The second pass takes \<open>n\<close> units; it is run on what the first has accepted.\<close>

function avcc_take :: "byte list \<Rightarrow> nat \<Rightarrow> nat \<Rightarrow> byte list list res" where
  "avcc_take buf pos n =
     (if n = 0 then Ok []
      else res_bind (be32 buf pos) (\<lambda>l.
        let pos = pos + 4
        in if l \<noteq> 0 then res_bind (slice buf pos (pos + l)) (\<lambda>u.
             res_bind (avcc_take buf (pos + l) (n - 1)) (\<lambda>us. Ok (u # us)))
           else avcc_take buf pos n))"
  by pat_completeness auto
termination
  by (relation "measure (\<lambda>(buf, pos, n). length buf - pos)") (auto simp: be32_def slice_def split: if_splits)

declare avcc_take.simps [simp del]

definition AVCC_Unmarshal :: "byte list \<Rightarrow> byte list list res" where
  "AVCC_Unmarshal buf =
     res_bind (avcc_scan buf 0 0 0) (\<lambda>n.
       if n = 0 then Errorf (''AVCC unit doesn'' @ [CHR 0x27] @ ''t contain any NALU'')
       else if n > MaxNALUsPerAccessUnit then too_many n
       else avcc_take buf 0 n)"

definition marshalSize :: "byte list list \<Rightarrow> nat" where
  "marshalSize a = fold (\<lambda>nalu n. n + (4 + length nalu)) a 0"

primrec avcc_put :: "byte list list \<Rightarrow> byte list \<Rightarrow> nat \<Rightarrow> byte list" where
  "avcc_put [] buf pos = buf"
| "avcc_put (nalu # a) buf pos =
     (let naluLen = length nalu;
          buf = buf[pos := of_nat (drop_bit 24 naluLen), pos + 1 := of_nat (drop_bit 16 naluLen),
                    pos + 2 := of_nat (drop_bit 8 naluLen), pos + 3 := of_nat naluLen];
          pos = pos + 4
      in avcc_put a (go_copy buf pos nalu) (pos + min (length buf - pos) (length nalu)))"

definition AVCC_Marshal :: "byte list list \<Rightarrow> byte list" where
  "AVCC_Marshal a = avcc_put a (replicate (marshalSize a) 0) 0"

section \<open>Annex B\<close>

text \<open>\<^verbatim>\<open>bytes.Index\<close> of the start code.\<close>

fun bytes_Index :: "byte list \<Rightarrow> nat option" where
  "bytes_Index [] = None"
| "bytes_Index (b # bs) = (if take 3 (b # bs) = [0, 0, 1] then Some 0 else map_option Suc (bytes_Index bs))"

lemma bytes_Index_less: "bytes_Index bs = Some i \<Longrightarrow> i + 3 \<le> length bs"
proof (induction bs arbitrary: i)
  case (Cons b bs)
  then show ?case by (cases "take 3 (b # bs) = [0, 0, 1]") (auto dest: arg_cong [where f = length])
qed simp

function annexb_loop :: "byte list \<Rightarrow> nat \<Rightarrow> nat \<Rightarrow> (nat \<times> nat) list \<Rightarrow> (nat \<times> nat) list res" where
  "annexb_loop buf pos auSize positions =
     (if pos < length buf then
        (case bytes_Index (drop pos buf) of
           None \<Rightarrow>
             let remaining = length buf - pos
             in if remaining > 0 then
                  if auSize + remaining > MaxAccessUnitSize then too_big (auSize + remaining)
                  else Ok (positions @ [(pos, length buf)])
                else Ok positions
         | Some i \<Rightarrow>
             let naluEnd = (if i > 0 \<and> buf ! (pos + i - 1) = 0x00 then pos + i - 1 else pos + i);
                 naluSize = naluEnd - pos
             in if naluSize > 0 then
                  if auSize + naluSize > MaxAccessUnitSize then too_big (auSize + naluSize)
                  else annexb_loop buf (pos + (i + 3)) (auSize + naluSize) (positions @ [(pos, naluEnd)])
                else annexb_loop buf (pos + (i + 3)) auSize positions)
      else Ok positions)"
  by pat_completeness auto
termination
  by (relation "measure (\<lambda>(buf, pos, auSize, positions). length buf - pos)") (auto dest: bytes_Index_less)

declare annexb_loop.simps [simp del]

definition AnnexB_Unmarshal :: "byte list \<Rightarrow> byte list list res" where
  "AnnexB_Unmarshal buf =
     (let start = (if length buf \<ge> 4 \<and> buf ! 0 = 0x00 \<and> buf ! 1 = 0x00 \<and> buf ! 2 = 0x00 \<and> buf ! 3 = 0x01 then Some 4
                   else if length buf \<ge> 3 \<and> buf ! 0 = 0x00 \<and> buf ! 1 = 0x00 \<and> buf ! 2 = 0x01 then Some 3
                   else None)
      in case start of
           None \<Rightarrow> Errorf ''initial delimiter not found''
         | Some pos \<Rightarrow>
             if length buf = pos then Errorf (''Annex-B unit doesn'' @ [CHR 0x27] @ ''t contain any NALU'')
             else res_bind (annexb_loop buf pos 0 []) (\<lambda>positions.
               if length positions = 0 then Errorf (''Annex-B unit doesn'' @ [CHR 0x27] @ ''t contain any NALU'')
               else if length positions > MaxNALUsPerAccessUnit then too_many (length positions)
               else Ok (map (\<lambda>(s, e). take (e - s) (drop s buf)) positions)))"

primrec annexb_put :: "byte list list \<Rightarrow> byte list \<Rightarrow> nat \<Rightarrow> byte list" where
  "annexb_put [] buf pos = buf"
| "annexb_put (nalu # a) buf pos =
     (let start = [0x00, 0x00, 0x00, 0x01];
          pos' = pos + min (length buf - pos) (length start);
          buf = go_copy buf pos start
      in annexb_put a (go_copy buf pos' nalu) (pos' + min (length buf - pos') (length nalu)))"

definition AnnexB_Marshal :: "byte list list \<Rightarrow> byte list" where
  "AnnexB_Marshal a = annexb_put a (replicate (marshalSize a) 0) 0"

section \<open>Emulation prevention: the reference\<close>

text \<open>What the standard prescribes: of two zeros and a three, the three is dropped.\<close>

function unescape :: "byte list \<Rightarrow> byte list" where
  "unescape xs =
     (if 3 \<le> length xs \<and> xs ! 0 = 0 \<and> xs ! 1 = 0 \<and> xs ! 2 = 3 then 0 # 0 # unescape (drop 3 xs)
      else case xs of [] \<Rightarrow> [] | x # xs \<Rightarrow> x # unescape xs)"
  by pat_completeness auto
termination
  by (relation "measure length") auto

declare unescape.simps [simp del]

text \<open>The encoder of the standard, with the number of zeros just written.\<close>

fun escape :: "nat \<Rightarrow> byte list \<Rightarrow> byte list" where
  "escape z [] = []"
| "escape z (b # bs) =
     (if 2 \<le> z \<and> b \<le> 3 then 3 # b # escape (if b = 0 then 1 else 0) bs
      else b # escape (if b = 0 then z + 1 else 0) bs)"

lemma unescape_Nil [simp]: "unescape [] = []"
  by (subst unescape.simps) simp

lemma unescape_hit: "unescape (0 # 0 # 3 # xs) = 0 # 0 # unescape xs"
  by (subst unescape.simps) simp

lemma unescape_miss: "\<not> (3 \<le> length (x # xs) \<and> x = 0 \<and> xs ! 0 = 0 \<and> xs ! 1 = 3) \<Longrightarrow> unescape (x # xs) = x # unescape xs"
  by (subst unescape.simps) auto

lemma unescape_short: "length xs \<le> 2 \<Longrightarrow> unescape xs = xs"
  by (induction xs) (simp_all add: unescape_miss)

lemma length_unescape: "length (unescape xs) \<le> length xs"
proof (induction xs rule: unescape.induct)
  case (1 xs)
  show ?case
  proof (cases "3 \<le> length xs \<and> xs ! 0 = 0 \<and> xs ! 1 = 0 \<and> xs ! 2 = 3")
    case True
    then show ?thesis using "1.IH"(1) by (subst unescape.simps) auto
  next
    case False
    show ?thesis
    proof (cases xs)
      case (Cons y ys)
      then show ?thesis using False "1.IH"(2) [OF False Cons] by (subst unescape.simps) auto
    qed (simp add: unescape.simps)
  qed
qed

text \<open>One position of the loops of the code: \<open>i - 2\<close> is where the reference stands.\<close>

lemma unescape_step:
  assumes "2 \<le> i" "i < length nalu"
  shows "unescape (drop (i - 2) nalu) =
    (if prevention_at nalu i then 0 # 0 # unescape (drop (i + 1) nalu)
     else nalu ! (i - 2) # unescape (drop (i - 1) nalu))"
proof -
  obtain k where k: "i = k + 2" using assms(1) by (metis add.commute le_Suc_ex)
  have d: "drop k nalu = nalu ! k # nalu ! (k + 1) # nalu ! (k + 2) # drop (k + 3) nalu"
    using assms(2) k by (simp add: Cons_nth_drop_Suc numeral_3_eq_3)
  have m: "drop (Suc k) nalu = nalu ! (k + 1) # nalu ! (k + 2) # drop (k + 3) nalu"
    using assms(2) k by (simp add: Cons_nth_drop_Suc numeral_3_eq_3)
  show ?thesis
  proof (cases "prevention_at nalu i")
    case True
    then show ?thesis using k unescape_hit by (simp add: d prevention_at_def numeral_3_eq_3)
  next
    case False
    then have "unescape (nalu ! k # drop (Suc k) nalu) = nalu ! k # unescape (drop (Suc k) nalu)"
      unfolding m by (intro unescape_miss) (use k in \<open>auto simp: prevention_at_def\<close>)
    moreover have "drop k nalu = nalu ! k # drop (Suc k) nalu" using assms(2) k by (simp add: Cons_nth_drop_Suc)
    ultimately show ?thesis using False k by simp
  qed
qed

lemma ep_count_unescape:
  "2 \<le> i \<Longrightarrow> length (drop (i - 2) nalu) \<le> n \<Longrightarrow>
    ep_count nalu i n = n - (length (drop (i - 2) nalu) - length (unescape (drop (i - 2) nalu)))"
proof (induction nalu i n rule: ep_count.induct)
  case (1 nalu i n)
  show ?case
  proof (cases "i < length nalu")
    case True
    note st = unescape_step [OF "1.prems"(1) True]
    have lu: "length (unescape (drop (i + 1) nalu)) \<le> length nalu - (i + 1)"
      using length_unescape [of "drop (i + 1) nalu"] by simp
    show ?thesis
    proof (cases "prevention_at nalu i")
      case hit: True
      have "ep_count nalu (i + 3) (n - 1) =
          n - 1 - (length (drop (i + 1) nalu) - length (unescape (drop (i + 1) nalu)))"
        using "1.IH"(1) [OF True hit] "1.prems" by simp
      then show ?thesis using True hit st lu "1.prems" by (subst ep_count.simps) simp
    next
      case miss: False
      have "ep_count nalu (i + 1) n = n - (length (drop (i - 1) nalu) - length (unescape (drop (i - 1) nalu)))"
        using "1.IH"(2) [OF True miss] "1.prems" by (simp add: Suc_diff_Suc numeral_2_eq_2)
      moreover have "length (drop (i - 2) nalu) = Suc (length (drop (i - 1) nalu))" using True "1.prems"(1) by simp
      ultimately show ?thesis using True miss st by (subst ep_count.simps) simp
    qed
  next
    case False
    then have "unescape (drop (i - 2) nalu) = drop (i - 2) nalu" by (intro unescape_short) simp
    then show ?thesis using False by (subst ep_count.simps) simp
  qed
qed

lemma ep_copy_unescape:
  assumes "start + 2 \<le> i" "start \<le> length nalu" "length ret = pos + length (unescape (drop start nalu))"
    and "unescape (drop start nalu) = take (i - 2 - start) (drop start nalu) @ unescape (drop (i - 2) nalu)"
  shows "ep_copy nalu i ret pos start = take pos ret @ unescape (drop start nalu)"
  using assms
proof (induction nalu i ret pos start rule: ep_copy.induct)
  case (1 nalu i ret pos start)
  note p = "1.prems"
  let ?u = "unescape (drop start nalu)"
  show ?case
  proof (cases "i < length nalu")
    case True
    have i2: "2 \<le> i" using p(1) by simp
    note st = unescape_step [OF i2 True]
    show ?thesis
    proof (cases "prevention_at nalu i")
      case hit: True
      let ?src = "take (i - start) (drop start nalu)"
      have z: "nalu ! (i - 2) = 0" "nalu ! (i - 1) = 0" using hit by (simp_all add: prevention_at_def)
      have s2: "?src = take (i - 2 - start) (drop start nalu) @ [0, 0]"
      proof -
        have "drop start nalu ! (i - 2 - start) = 0" "drop start nalu ! (Suc (i - 2 - start)) = 0"
          using z p(1) True by (simp_all add: Suc_diff_Suc numeral_2_eq_2)
        moreover have "i - start = Suc (Suc (i - 2 - start))" "Suc (i - 2 - start) < length (drop start nalu)"
          using p(1) True by simp_all
        ultimately show ?thesis by (simp only: take_Suc_conv_app_nth Suc_lessD) simp
      qed
      have u: "?u = ?src @ unescape (drop (i + 1) nalu)" using p(4) st hit by (simp add: s2)
      have ls: "length ?src = i - start" using True p(1) by simp
      let ?ret = "go_copy ret pos ?src"
      have lr: "length ret = pos + (i - start) + length (unescape (drop (i + 1) nalu))" using p(3) u ls by simp
      have tr: "take (pos + (i - start)) ?ret = take pos ret @ ?src"
        using lr ls by (simp add: go_copy_def)
      have ps: "pos + min (length ret - pos) (length ?src) = pos + (i - start)" using lr ls by simp
      have "ep_copy nalu (i + 3) ?ret (pos + min (length ret - pos) (length ?src)) (i + 1) =
          take (pos + min (length ret - pos) (length ?src)) ?ret @ unescape (drop (i + 1) nalu)"
        by (rule "1.IH"(1) [OF True hit refl]) (use True lr ps in simp_all)
      then have "ep_copy nalu (i + 3) ?ret (pos + min (length ret - pos) (length ?src)) (i + 1) = take pos ret @ ?u"
        unfolding ps tr u by simp
      then show ?thesis by (subst ep_copy.simps) (simp only: True hit if_True Let_def)
    next
      case miss: False
      have nth: "take (i - 1 - start) (drop start nalu) = take (i - 2 - start) (drop start nalu) @ [nalu ! (i - 2)]"
      proof -
        have "i - 1 - start = Suc (i - 2 - start)" "i - 2 - start < length (drop start nalu)"
          "drop start nalu ! (i - 2 - start) = nalu ! (i - 2)" using p(1) True by simp_all
        then show ?thesis by (simp only: take_Suc_conv_app_nth)
      qed
      have "ep_copy nalu (i + 1) ret pos start = take pos ret @ ?u"
        by (rule "1.IH"(2) [OF True miss]) (use p st miss nth in simp_all)
      then show ?thesis using True miss by (subst ep_copy.simps) simp
    qed
  next
    case False
    then have "unescape (drop (i - 2) nalu) = drop (i - 2) nalu" by (intro unescape_short) simp
    then have u: "?u = drop start nalu"
      using p(4) p(1) append_take_drop_id [of "i - 2 - start" "drop start nalu"] by simp
    then show ?thesis using False p(3) by (subst ep_copy.simps) (simp add: go_copy_def)
  qed
qed

lemma EmulationPreventionRemove_unescape: "EmulationPreventionRemove nalu = unescape nalu"
proof -
  have "ep_count nalu 2 (length nalu) = length nalu - (length nalu - length (unescape nalu))"
    using ep_count_unescape [of 2 nalu "length nalu"] by simp
  then have c: "ep_count nalu 2 (length nalu) = length (unescape nalu)" using length_unescape [of nalu] by simp
  have "ep_copy nalu 2 (replicate (length (unescape nalu)) 0) 0 0 = unescape nalu"
    using ep_copy_unescape [of 0 2 nalu "replicate (length (unescape nalu)) 0" 0] by simp
  then show ?thesis by (simp add: EmulationPreventionRemove_def c)
qed

lemma unescape_escape: "z \<le> 2 \<Longrightarrow> unescape (replicate z 0 @ escape z bs) = replicate z 0 @ bs"
proof (induction bs arbitrary: z)
  case Nil
  then show ?case by (simp add: unescape_short)
next
  case (Cons b bs)
  have zero: "unescape (0 # escape 1 bs) = 0 # bs" using Cons.IH [of 1] by simp
  have two: "unescape (0 # 0 # escape 2 bs) = 0 # 0 # bs" using Cons.IH [of 2] by (simp add: numeral_2_eq_2)
  have other: "unescape (b # escape 0 bs) = b # bs" if "b \<noteq> 0" using Cons.IH [of 0] that by (simp add: unescape_miss)
  consider "z = 0" | "z = 1" | "z = 2" using Cons.prems by linarith
  then show ?case
  proof cases
    case 1
    then show ?thesis using zero other by (cases "b = 0") simp_all
  next
    case 2
    then show ?thesis using two other by (cases "b = 0") (simp_all add: unescape_miss numeral_2_eq_2)
  next
    case 3
    have r: "replicate 2 (0 :: byte) = [0, 0]" by (simp add: numeral_2_eq_2)
    show ?thesis
    proof (cases "b \<le> 3")
      case True
      then show ?thesis using 3 zero other by (cases "b = 0") (simp_all add: r unescape_hit)
    next
      case False
      then have "b \<noteq> 3" "b \<noteq> 0" by auto
      then show ?thesis using 3 False other by (simp add: r unescape_miss)
    qed
  qed
qed

section \<open>AVCC: lemmas\<close>

definition len32 :: "nat \<Rightarrow> byte list" where
  "len32 n = [of_nat (drop_bit 24 n), of_nat (drop_bit 16 n), of_nat (drop_bit 8 n), of_nat n]"

definition avcc_frame :: "byte list \<Rightarrow> byte list" where
  "avcc_frame u = len32 (length u) @ u"

lemma length_len32 [simp]: "length (len32 n) = 4" by (simp add: len32_def)
lemma length_avcc_frame [simp]: "length (avcc_frame u) = 4 + length u" by (simp add: avcc_frame_def)

lemma be32_len32:
  assumes "n < 2 ^ 32"
  shows "be32 (pre @ len32 n @ rest) (length pre) = Ok n"
proof -
  let ?w = "push_bit 24 (ucast (of_nat (drop_bit 24 n) :: byte)) OR push_bit 16 (ucast (of_nat (drop_bit 16 n) :: byte)) OR
    push_bit 8 (ucast (of_nat (drop_bit 8 n) :: byte)) OR ucast (of_nat n :: byte) :: u32"
  have "?w = of_nat n"
  proof (rule bit_word_eqI)
    fix i assume "i < LENGTH(32)"
    then consider "i < 8" | "8 \<le> i" "i < 16" | "16 \<le> i" "i < 24" | "24 \<le> i" "i < 32" by force
    then show "bit ?w i \<longleftrightarrow> bit (of_nat n :: u32) i" by cases (auto simp: bit_simps)
  qed
  moreover have "unat (of_nat n :: u32) = n" using assms by (simp add: unat_of_nat)
  ultimately have "unat ?w = n" by simp
  then show ?thesis by (simp add: be32_def slice_def len32_def)
qed

lemma be32_total: "pos + 4 \<le> length buf \<Longrightarrow> \<exists>l. be32 buf pos = Ok l"
  by (simp add: be32_def slice_def)

lemma marshalSize_sum: "marshalSize a = sum_list (map (\<lambda>u. 4 + length u) a)"
proof -
  have "fold (\<lambda>nalu n. n + (4 + length nalu)) a k = k + sum_list (map (\<lambda>u. 4 + length u) a)" for k
    by (induction a arbitrary: k) simp_all
  then show ?thesis by (simp add: marshalSize_def)
qed

lemma go_copy_at: "length mid = length src \<Longrightarrow> go_copy (pre @ mid @ post) (length pre) src = pre @ src @ post"
  by (simp add: go_copy_def)

lemma avcc_put_frames:
  "length pre = pos \<Longrightarrow> avcc_put a (pre @ replicate (marshalSize a) 0) pos = pre @ concat (map avcc_frame a)"
proof (induction a arbitrary: pre pos)
  case (Cons u a)
  let ?z = "\<lambda>n. replicate n (0 :: byte)"
  have z: "?z (marshalSize (u # a)) = ?z 4 @ ?z (length u) @ ?z (marshalSize a)"
    by (simp add: marshalSize_sum replicate_add [symmetric])
  have h: "(pre @ ?z 4 @ r)[pos := b0, pos + 1 := b1, pos + 2 := b2, pos + 3 := b3] = pre @ [b0, b1, b2, b3] @ r" for r b0 b1 b2 b3
    using Cons.prems by (simp add: list_update_append numeral_eq_Suc)
  let ?b = "pre @ len32 (length u) @ ?z (length u) @ ?z (marshalSize a)"
  have 1: "(pre @ ?z (marshalSize (u # a)))[pos := of_nat (drop_bit 24 (length u)), pos + 1 := of_nat (drop_bit 16 (length u)),
      pos + 2 := of_nat (drop_bit 8 (length u)), pos + 3 := of_nat (length u)] = ?b"
    unfolding z h by (simp add: len32_def)
  have 2: "go_copy ?b (pos + 4) u = (pre @ len32 (length u) @ u) @ ?z (marshalSize a)"
    using go_copy_at [of "?z (length u)" u "pre @ len32 (length u)" "?z (marshalSize a)"] Cons.prems by simp
  have 3: "pos + 4 + min (length ?b - (pos + 4)) (length u) = pos + 4 + length u" using Cons.prems by simp
  have "avcc_put (u # a) (pre @ ?z (marshalSize (u # a))) pos =
      avcc_put a ((pre @ len32 (length u) @ u) @ ?z (marshalSize a)) (pos + 4 + length u)"
    by (simp only: avcc_put.simps Let_def 1 2 3)
  also have "\<dots> = (pre @ len32 (length u) @ u) @ concat (map avcc_frame a)"
    by (rule Cons.IH) (use Cons.prems in simp)
  finally show ?case by (simp only: append_assoc list.map concat.simps avcc_frame_def [of u])
qed (simp add: marshalSize_def)

lemma AVCC_Marshal_frames: "AVCC_Marshal a = concat (map avcc_frame a)"
  using avcc_put_frames [of "[]" 0 a] by (simp add: AVCC_Marshal_def)

abbreviation units_size :: "byte list list \<Rightarrow> nat" where
  "units_size a \<equiv> sum_list (map length a)"

lemma avcc_scan_frames:
  "a \<noteq> [] \<Longrightarrow> length pre = pos \<Longrightarrow> s + units_size a \<le> MaxAccessUnitSize \<Longrightarrow>
    avcc_scan (pre @ concat (map avcc_frame a)) pos n s = Ok (n + length (filter (\<lambda>u. u \<noteq> []) a))"
proof (induction a arbitrary: pre pos n s)
  case (Cons u a)
  let ?buf = "pre @ concat (map avcc_frame (u # a))"
  have small: "length u < 2 ^ 32" using Cons.prems(3) by (simp add: MaxAccessUnitSize_def)
  have buf: "?buf = pre @ len32 (length u) @ u @ concat (map avcc_frame a)" by (simp add: avcc_frame_def)
  have be: "be32 ?buf pos = Ok (length u)"
    unfolding buf using be32_len32 [OF small, of pre] Cons.prems(2) by simp
  have l: "length ?buf = pos + 4 + length u + length (concat (map avcc_frame a))" using Cons.prems(2) buf by simp
  have e: "length (concat (map avcc_frame a)) = 0 \<longleftrightarrow> a = []"
    by (cases a) (simp_all add: avcc_frame_def len32_def)
  have ih: "avcc_scan ?buf (pos + 4 + length u) n' s' = Ok (n' + length (filter (\<lambda>u. u \<noteq> []) a))"
    if "a \<noteq> []" "s' + units_size a \<le> MaxAccessUnitSize" for n' s'
    using Cons.IH [OF that(1), of "pre @ avcc_frame u" "pos + 4 + length u" s' n'] that(2) Cons.prems(2)
    by simp
  show ?case
    using Cons.prems(3) l e be ih [of "s + length u" "n + 1"] ih [of s n]
    by (subst avcc_scan.simps) (auto simp: Let_def)
qed simp

lemma avcc_take_0 [simp]: "avcc_take buf pos 0 = Ok []" by (subst avcc_take.simps) simp

lemma avcc_take_skip: "be32 buf pos = Ok 0 \<Longrightarrow> avcc_take buf pos n = avcc_take buf (pos + 4) n"
  by (cases "n = 0") (simp, subst avcc_take.simps, simp add: Let_def)

lemma avcc_take_frames:
  "length pre = pos \<Longrightarrow> \<forall>u \<in> set a. length u < 2 ^ 32 \<Longrightarrow>
    avcc_take (pre @ concat (map avcc_frame a)) pos (length (filter (\<lambda>u. u \<noteq> []) a)) = Ok (filter (\<lambda>u. u \<noteq> []) a)"
proof (induction a arbitrary: pre pos)
  case (Cons u a)
  let ?n = "length (filter (\<lambda>u. u \<noteq> []) a)"
  let ?buf = "pre @ concat (map avcc_frame (u # a))"
  have buf: "?buf = pre @ len32 (length u) @ u @ concat (map avcc_frame a)" by (simp add: avcc_frame_def)
  have be: "be32 ?buf pos = Ok (length u)"
    unfolding buf using be32_len32 [of "length u" pre] Cons.prems by simp
  have sl: "slice ?buf (pos + 4) (pos + 4 + length u) = Ok u"
    unfolding buf using Cons.prems(1) by (simp add: slice_def)
  have ih: "avcc_take ?buf (pos + 4 + length u) ?n = Ok (filter (\<lambda>u. u \<noteq> []) a)"
    using Cons.IH [of "pre @ avcc_frame u" "pos + 4 + length u"] Cons.prems by simp
  show ?case
  proof (cases "u = []")
    case True
    have "avcc_take ?buf pos ?n = avcc_take ?buf (pos + 4) ?n"
      using be True by (intro avcc_take_skip) simp
    then show ?thesis using ih True by simp
  next
    case False
    then show ?thesis using be sl ih by (subst avcc_take.simps) (simp add: Let_def)
  qed
qed (simp add: avcc_take.simps)

text \<open>What the first pass accepts, the second takes.\<close>

lemma avcc_scan_take:
  "avcc_scan buf pos n s = Ok m \<Longrightarrow> n \<le> m \<and> (\<exists>us. avcc_take buf pos (m - n) = Ok us \<and> length us = m - n \<and>
    [] \<notin> set us \<and> (us = [] \<or> s + units_size us \<le> MaxAccessUnitSize))"
proof (induction buf pos n s arbitrary: m rule: avcc_scan.induct)
  case (1 buf pos n s)
  have l4: "\<not> length buf - pos < 4" using "1.prems" by (subst (asm) avcc_scan.simps) (auto split: if_splits)
  then have "pos + 4 \<le> length buf" by linarith
  then obtain l where l: "be32 buf pos = Ok l" using be32_total by blast
  show ?case
  proof (cases "l = 0")
    case True
    show ?thesis
    proof (cases "length buf - (pos + 4) = 0")
      case last: True
      then have "m = n" using "1.prems" l4 l True by (subst (asm) avcc_scan.simps) (simp add: Let_def)
      then show ?thesis by (simp add: avcc_take.simps)
    next
      case False
      then have "avcc_scan buf (pos + 4) n s = Ok m"
        using "1.prems" l4 l True by (subst (asm) avcc_scan.simps) (simp add: Let_def)
      with "1.IH"(2) [OF l4 l refl _ False] True obtain us where
        us: "n \<le> m" "avcc_take buf (pos + 4) (m - n) = Ok us" "length us = m - n" "[] \<notin> set us"
          "us = [] \<or> s + units_size us \<le> MaxAccessUnitSize" by auto
      have "avcc_take buf pos (m - n) = Ok us"
        using us(2) l True by (simp add: avcc_take_skip)
      with us show ?thesis by blast
    qed
  next
    case False
    have g: "\<not> s + l > MaxAccessUnitSize" "\<not> length buf - (pos + 4) < l"
      using "1.prems" l4 l False by (subst (asm) avcc_scan.simps; auto simp: Let_def too_big_def split: if_splits)+
    let ?u = "take l (drop (pos + 4) buf)"
    have sl: "slice buf (pos + 4) (pos + 4 + l) = Ok ?u" "length ?u = l" "?u \<noteq> []"
      using g(2) False by (auto simp: slice_def)
    have tk: "avcc_take buf pos (Suc k) = res_bind (avcc_take buf (pos + 4 + l) k) (\<lambda>us. Ok (?u # us))" for k
      using l sl(1) False by (subst avcc_take.simps) (simp add: Let_def)
    show ?thesis
    proof (cases "length buf - (pos + 4 + l) = 0")
      case last: True
      then have m: "m = Suc n" using "1.prems" l4 l False g by (subst (asm) avcc_scan.simps) (simp add: Let_def)
      have "avcc_take buf pos (m - n) = Ok [?u]" using tk [of 0] m by simp
      then show ?thesis using m sl g(1) by auto
    next
      case more: False
      then have "avcc_scan buf (pos + 4 + l) (n + 1) (s + l) = Ok m"
        using "1.prems" l4 l False g by (subst (asm) avcc_scan.simps) (simp add: Let_def)
      with "1.IH"(1) [OF l4 l refl _ g more] False obtain us where
        us: "n + 1 \<le> m" "avcc_take buf (pos + 4 + l) (m - (n + 1)) = Ok us" "length us = m - (n + 1)" "[] \<notin> set us"
          "us = [] \<or> s + l + units_size us \<le> MaxAccessUnitSize" by auto
      have "m - n = Suc (m - (n + 1))" using us(1) by simp
      then have "avcc_take buf pos (m - n) = Ok (?u # us)" "length (?u # us) = m - n" using tk us by simp_all
      moreover have "s + units_size (?u # us) \<le> MaxAccessUnitSize" using us(5) sl(2) g(1) by auto
      moreover have "[] \<notin> set (?u # us)" using us(4) sl(3) by auto
      ultimately show ?thesis using us(1) by (intro conjI exI [of _ "?u # us"]) simp_all
    qed
  qed
qed

lemma avcc_scan_no_Panic: "avcc_scan buf pos n s \<noteq> Panic"
proof (induction buf pos n s rule: avcc_scan.induct)
  case (1 buf pos n s)
  show ?case
  proof (cases "length buf - pos < 4")
    case False
    then have "pos + 4 \<le> length buf" by linarith
    then obtain l where l: "be32 buf pos = Ok l" using be32_total by blast
    show ?thesis
      using False l "1.IH" [OF False l refl]
      by (subst avcc_scan.simps) (auto simp: Let_def too_big_def)
  qed (simp add: avcc_scan.simps)
qed

section \<open>Annex B: lemmas\<close>

definition annexb_frame :: "byte list \<Rightarrow> byte list" where
  "annexb_frame u = [0, 0, 0, 1] @ u"

text \<open>A unit that start codes delimit: it holds none and does not end with a zero.\<close>

definition delimited :: "byte list \<Rightarrow> bool" where
  "delimited u \<longleftrightarrow> bytes_Index u = None \<and> u \<noteq> [] \<and> last u \<noteq> 0"

lemma length_annexb_frame [simp]: "length (annexb_frame u) = 4 + length u" by (simp add: annexb_frame_def)

lemma annexb_put_frames:
  "length pre = pos \<Longrightarrow> annexb_put a (pre @ replicate (marshalSize a) 0) pos = pre @ concat (map annexb_frame a)"
proof (induction a arbitrary: pre pos)
  case (Cons u a)
  let ?z = "\<lambda>n. replicate n (0 :: byte)"
  let ?c = "[0, 0, 0, 1] :: byte list"
  have z: "?z (marshalSize (u # a)) = ?z 4 @ ?z (length u) @ ?z (marshalSize a)"
    by (simp add: marshalSize_sum replicate_add [symmetric])
  let ?b = "pre @ ?c @ ?z (length u) @ ?z (marshalSize a)"
  have 1: "go_copy (pre @ ?z (marshalSize (u # a))) pos ?c = ?b"
    unfolding z using go_copy_at [of "?z 4" ?c pre "?z (length u) @ ?z (marshalSize a)"] Cons.prems by simp
  have 2: "go_copy ?b (pos + 4) u = (pre @ annexb_frame u) @ ?z (marshalSize a)"
    using go_copy_at [of "?z (length u)" u "pre @ ?c" "?z (marshalSize a)"] Cons.prems by (simp add: annexb_frame_def eval_nat_numeral)
  have 3: "pos + min (length (pre @ ?z (marshalSize (u # a))) - pos) (length ?c) = pos + 4"
    unfolding z using Cons.prems by simp
  have 4: "pos + 4 + min (length ?b - (pos + 4)) (length u) = pos + 4 + length u" using Cons.prems by simp
  have "annexb_put (u # a) (pre @ ?z (marshalSize (u # a))) pos =
      annexb_put a ((pre @ annexb_frame u) @ ?z (marshalSize a)) (pos + 4 + length u)"
    by (simp only: annexb_put.simps Let_def 1 2 3 4)
  also have "\<dots> = (pre @ annexb_frame u) @ concat (map annexb_frame a)"
    by (rule Cons.IH) (use Cons.prems in simp)
  finally show ?case by (simp only: append_assoc list.map concat.simps)
qed (simp add: marshalSize_def)

lemma AnnexB_Marshal_frames: "AnnexB_Marshal a = concat (map annexb_frame a)"
  using annexb_put_frames [of "[]" 0 a] by (simp add: AnnexB_Marshal_def)

lemma bytes_Index_delimited:
  "bytes_Index u = None \<Longrightarrow> u \<noteq> [] \<Longrightarrow> last u \<noteq> 0 \<Longrightarrow> bytes_Index (u @ 0 # 0 # 0 # 1 # r) = Some (length u + 1)"
proof (induction u)
  case (Cons b u)
  have n: "take 3 (b # u) \<noteq> [0, 0, 1]" "bytes_Index u = None" using Cons.prems(1) by (simp_all split: if_splits)
  have t: "take 3 (b # u @ 0 # 0 # 0 # 1 # r) \<noteq> [0, 0, 1]"
    using n(1) Cons.prems(3) by (cases u; cases "tl u") (auto simp: numeral_3_eq_3)
  show ?case
  proof (cases "u = []")
    case True
    then show ?thesis using t by simp
  next
    case False
    then have "bytes_Index (u @ 0 # 0 # 0 # 1 # r) = Some (length u + 1)" using Cons n(2) by simp
    then show ?thesis using t by simp
  qed
qed simp

lemma slice_of: "take (length u) (drop (length pre) (pre @ u @ post)) = u" by simp

lemma annexb_loop_frames:
  "delimited u \<Longrightarrow> \<forall>v \<in> set a. delimited v \<Longrightarrow> length pre = pos \<Longrightarrow> s + units_size (u # a) \<le> MaxAccessUnitSize \<Longrightarrow>
    \<exists>q. annexb_loop (pre @ u @ concat (map annexb_frame a)) pos s ps = Ok (ps @ q) \<and>
      map (\<lambda>(s, e). take (e - s) (drop s (pre @ u @ concat (map annexb_frame a)))) q = u # a"
proof (induction a arbitrary: u pre pos s ps)
  case Nil
  have d: "bytes_Index u = None" "u \<noteq> []" using Nil.prems(1) by (simp_all add: delimited_def)
  have "annexb_loop (pre @ u) pos s ps = Ok (ps @ [(pos, pos + length u)])"
    using d Nil.prems(3,4) by (subst annexb_loop.simps) (simp add: Let_def)
  then show ?case using Nil.prems(3) by (intro exI [of _ "[(pos, pos + length u)]"]) simp
next
  case (Cons v a)
  let ?r = "v @ concat (map annexb_frame a)"
  let ?buf = "pre @ u @ concat (map annexb_frame (v # a))"
  have buf: "?buf = pre @ u @ 0 # 0 # 0 # 1 # ?r" by (simp add: annexb_frame_def)
  have buf': "?buf = (pre @ u @ [0, 0, 0, 1]) @ ?r" by (simp add: annexb_frame_def)
  have d: "bytes_Index u = None" "u \<noteq> []" "last u \<noteq> 0" using Cons.prems(1) by (simp_all add: delimited_def)
  have i: "bytes_Index (drop pos ?buf) = Some (length u + 1)"
    unfolding buf using bytes_Index_delimited [OF d] Cons.prems(3) by simp
  have b: "?buf ! (pos + (length u + 1) - 1) = 0" "pos < length ?buf"
    unfolding buf using Cons.prems(3) by (simp_all add: nth_append)
  have "annexb_loop ?buf pos s ps = annexb_loop ?buf (pos + length u + 4) (s + length u) (ps @ [(pos, pos + length u)])"
    using i b d(2) Cons.prems(4) by (subst annexb_loop.simps) (simp add: Let_def add.commute [of 4] add.assoc [symmetric])
  moreover obtain q where
    q: "annexb_loop ?buf (pos + length u + 4) (s + length u) (ps @ [(pos, pos + length u)]) = Ok ((ps @ [(pos, pos + length u)]) @ q)"
      "map (\<lambda>(s, e). take (e - s) (drop s ?buf)) q = v # a"
    using Cons.IH [of v "pre @ u @ [0, 0, 0, 1]" "pos + length u + 4" "s + length u" "ps @ [(pos, pos + length u)]"] Cons.prems
    unfolding buf' by auto
  moreover have "take (length u) (drop pos ?buf) = u" using Cons.prems(3) slice_of [of u pre] by simp
  ultimately show ?case by (intro exI [of _ "(pos, pos + length u) # q"]) (simp del: concat.simps list.map add: list.map [of "\<lambda>(s, e). _ s e"])
qed

text \<open>The encoder of the standard writes no start code, and keeps the last byte.\<close>

lemma bytes_Index_escape: "z \<le> 2 \<Longrightarrow> bytes_Index (replicate z 0 @ escape z bs) = None"
proof (induction bs arbitrary: z)
  case Nil
  then have "z = 0 \<or> z = 1 \<or> z = 2" by linarith
  then show ?case by (auto simp: numeral_2_eq_2)
next
  case (Cons b bs)
  have zero: "bytes_Index (0 # escape 1 bs) = None" using Cons.IH [of 1] by simp
  have two: "bytes_Index (0 # 0 # escape 2 bs) = None" using Cons.IH [of 2] by (simp add: numeral_2_eq_2)
  have none: "bytes_Index (escape 0 bs) = None" using Cons.IH [of 0] by simp
  have skip: "bytes_Index (x # y # xs) = None" if "bytes_Index (y # xs) = None" "y \<noteq> 0 \<or> x \<noteq> 0" for x y xs
    using that by (auto simp: numeral_3_eq_3)
  have other: "bytes_Index (b # escape 0 bs) = None" if "b \<noteq> 0"
    using none that by (auto simp: numeral_3_eq_3)
  consider "z = 0" | "z = 1" | "z = 2" using Cons.prems by linarith
  then show ?case
  proof cases
    case 1
    then show ?thesis using zero other by (cases "b = 0") simp_all
  next
    case 2
    then show ?thesis using two other skip [of b "escape 0 bs" 0] by (cases "b = 0") (simp_all add: numeral_2_eq_2 del: bytes_Index.simps(2))
  next
    case 3
    have r: "replicate 2 (0 :: byte) = [0, 0]" by (simp add: numeral_2_eq_2)
    show ?thesis
    proof (cases "b \<le> 3")
      case True
      have "bytes_Index (3 # b # escape (if b = 0 then 1 else 0) bs) = None"
        using zero other skip [of b "escape (if b = 0 then 1 else 0) bs" 3] by (cases "b = 0") simp_all
      then show ?thesis using 3 True by (simp add: r numeral_3_eq_3)
    next
      case False
      then have "b \<noteq> 1" "b \<noteq> 0" by auto
      then show ?thesis using 3 False other by (simp add: r numeral_3_eq_3)
    qed
  qed
qed

lemma escape_Nil_iff [simp]: "escape z bs = [] \<longleftrightarrow> bs = []" by (cases bs) auto

lemma last_escape: "bs \<noteq> [] \<Longrightarrow> last (escape z bs) = last bs"
  by (induction z bs rule: escape.induct) auto

lemma delimited_escape: "bs \<noteq> [] \<Longrightarrow> last bs \<noteq> 0 \<Longrightarrow> delimited (escape 0 bs)"
  using bytes_Index_escape [of 0 bs] by (simp add: delimited_def last_escape)

lemma AnnexB_delimited:
  assumes "a \<noteq> []" "length a \<le> MaxNALUsPerAccessUnit" "\<forall>u \<in> set a. delimited u" "units_size a \<le> MaxAccessUnitSize"
  shows "AnnexB_Unmarshal (AnnexB_Marshal a) = Ok a"
proof -
  obtain u a' where a: "a = u # a'" using assms(1) by (cases a) auto
  let ?buf = "[0, 0, 0, 1] @ u @ concat (map annexb_frame a')"
  have buf: "AnnexB_Marshal a = ?buf" by (simp add: AnnexB_Marshal_frames a annexb_frame_def [of u])
  have d: "delimited u" "\<forall>v \<in> set a'. delimited v" using assms(3) by (simp_all add: a)
  then have u: "u \<noteq> []" by (simp add: delimited_def)
  have sz: "0 + units_size (u # a') \<le> MaxAccessUnitSize" using assms(4) by (simp add: a)
  have l4: "length [0, 0, 0, 1 :: byte] = 4" by simp
  from annexb_loop_frames [OF d l4 sz, of "[]"] obtain q where
    "annexb_loop ?buf 4 0 [] = Ok ([] @ q) \<and> map (\<lambda>(s, e). take (e - s) (drop s ?buf)) q = u # a'" ..
  then have q: "annexb_loop ?buf 4 0 [] = Ok ([] @ q)" "map (\<lambda>(s, e). take (e - s) (drop s ?buf)) q = u # a'" by simp_all
  have l: "length q = length a" using arg_cong [OF q(2), of length] by (simp add: a)
  define buf where "buf = ?buf"
  have st: "length buf \<ge> 4 \<and> buf ! 0 = 0x00 \<and> buf ! 1 = 0x00 \<and> buf ! 2 = 0x00 \<and> buf ! 3 = 0x01" "length buf \<noteq> 4"
    using u by (simp_all add: buf_def)
  have n: "length q \<noteq> 0" "\<not> length q > MaxNALUsPerAccessUnit" using l assms(1,2) by simp_all
  have "AnnexB_Unmarshal buf = Ok (map (\<lambda>(s, e). take (e - s) (drop s buf)) q)"
    using q(1) [folded buf_def] by (simp only: AnnexB_Unmarshal_def Let_def st n if_True if_False option.case res_bind.simps append_Nil simp_thms)
  then have "AnnexB_Unmarshal ?buf = Ok (map (\<lambda>(s, e). take (e - s) (drop s ?buf)) q)" by (simp only: buf_def)
  then show ?thesis unfolding buf q(2) by (simp only: a)
qed

text \<open>What the loop of Annex B leaves: slices of the buffer, none of them empty, of the size counted.\<close>

definition slices_ok :: "byte list \<Rightarrow> nat \<Rightarrow> (nat \<times> nat) list \<Rightarrow> bool" where
  "slices_ok buf s ps \<longleftrightarrow> (\<forall>(i, j) \<in> set ps. i < j \<and> j \<le> length buf) \<and> sum_list (map (\<lambda>(i, j). j - i) ps) = s \<and> s \<le> MaxAccessUnitSize"

lemma slices_ok_snoc: "slices_ok buf s ps \<Longrightarrow> i < j \<Longrightarrow> j \<le> length buf \<Longrightarrow> s + (j - i) \<le> MaxAccessUnitSize \<Longrightarrow>
    slices_ok buf (s + (j - i)) (ps @ [(i, j)])"
  by (auto simp: slices_ok_def)

lemma annexb_loop_safe:
  "slices_ok buf s ps \<Longrightarrow> case annexb_loop buf pos s ps of Ok q \<Rightarrow> \<exists>s'. slices_ok buf s' q | Err e \<Rightarrow> True | Panic \<Rightarrow> False"
proof (induction buf pos s ps rule: annexb_loop.induct)
  case (1 buf pos s ps)
  show ?case
  proof (cases "pos < length buf")
    case pos: True
    show ?thesis
    proof (cases "bytes_Index (drop pos buf)")
      case None
      have "slices_ok buf (s + (length buf - pos)) (ps @ [(pos, length buf)])" if "s + (length buf - pos) \<le> MaxAccessUnitSize"
        using slices_ok_snoc [OF "1.prems" pos le_refl that] .
      then show ?thesis using pos None by (subst annexb_loop.simps) (auto simp: Let_def too_big_def)
    next
      case (Some i)
      have i: "pos + i + 3 \<le> length buf" using bytes_Index_less [OF Some] pos by simp
      let ?e = "if i > 0 \<and> buf ! (pos + i - 1) = 0x00 then pos + i - 1 else pos + i"
      have e: "?e \<le> length buf" using i by (simp only: split: if_split) linarith
      show ?thesis
      proof (cases "?e - pos > 0")
        case True
        show ?thesis
        proof (cases "s + (?e - pos) > MaxAccessUnitSize")
          case False
          have n: "slices_ok buf (s + (?e - pos)) (ps @ [(pos, ?e)])"
            using slices_ok_snoc [OF "1.prems" _ e, of pos] True False by simp
          have "annexb_loop buf pos s ps = annexb_loop buf (pos + (i + 3)) (s + (?e - pos)) (ps @ [(pos, ?e)])"
            using pos Some True False by (subst annexb_loop.simps) (simp only: Let_def option.case if_True if_False)
          then show ?thesis using "1.IH"(1) [OF pos Some refl refl True False n] by (simp only:)
        next
          case big: True
          have "annexb_loop buf pos s ps = too_big (s + (?e - pos))"
            using pos Some True big by (subst annexb_loop.simps) (simp only: Let_def option.case if_True if_False)
          then show ?thesis by (simp only: too_big_def res.case)
        qed
      next
        case False
        have "annexb_loop buf pos s ps = annexb_loop buf (pos + (i + 3)) s ps"
          using pos Some False by (subst annexb_loop.simps) (simp only: Let_def option.case if_True if_False)
        then show ?thesis using "1.IH"(2) [OF pos Some refl refl False "1.prems"] by (simp only:)
      qed
    qed
  next
    case False
    then show ?thesis using "1.prems" by (subst annexb_loop.simps) auto
  qed
qed

lemma sum_slices:
  "\<forall>(i, j) \<in> set ps. i < j \<and> j \<le> length buf \<Longrightarrow>
    units_size (map (\<lambda>(i, j). take (j - i) (drop i buf)) ps) = sum_list (map (\<lambda>(i, j). j - i) ps)"
  by (induction ps) auto

section \<open>Access units: properties\<close>

text \<open>EmulationPreventionRemove undoes the escaping of the standard, for every payload, and what has been escaped holds
  no start code.\<close>

theorem emulation_prevention: "EmulationPreventionRemove (escape 0 bs) = bs \<and> bytes_Index (escape 0 bs) = None"
  using unescape_escape [of 0 bs] bytes_Index_escape [of 0 bs] by (simp add: EmulationPreventionRemove_unescape)

text \<open>C27: any access unit with at least one non-empty unit, at most 50 of them and 8 MiB in all is written in the AVCC
  format and read back as it was; empty units are written, and skipped by the reader.\<close>

theorem avcc_roundtrip:
  assumes "\<exists>u \<in> set a. u \<noteq> []" "length (filter (\<lambda>u. u \<noteq> []) a) \<le> MaxNALUsPerAccessUnit" "units_size a \<le> MaxAccessUnitSize"
  shows "AVCC_Unmarshal (AVCC_Marshal a) = Ok (filter (\<lambda>u. u \<noteq> []) a)"
proof -
  have "length u < 2 ^ 32" if "u \<in> set a" for u
    using member_le_sum_list [of "length u" "map length a"] that assms(3) by (simp add: MaxAccessUnitSize_def)
  then have t: "avcc_take (concat (map avcc_frame a)) 0 (length (filter (\<lambda>u. u \<noteq> []) a)) = Ok (filter (\<lambda>u. u \<noteq> []) a)"
    using avcc_take_frames [of "[]" 0 a] by simp
  have "a \<noteq> []" using assms(1) by auto
  then have s: "avcc_scan (concat (map avcc_frame a)) 0 0 0 = Ok (length (filter (\<lambda>u. u \<noteq> []) a))"
    using avcc_scan_frames [of a "[]" 0 0 0] assms(3) by simp
  have n: "filter (\<lambda>u. u \<noteq> []) a \<noteq> []" using assms(1) by (simp add: filter_empty_conv)
  show ?thesis using s t n assms(2) by (simp add: AVCC_Unmarshal_def AVCC_Marshal_frames)
qed

theorem avcc_roundtrip_witness:
  "AVCC_Unmarshal (AVCC_Marshal [[0x67, 0x42], [], [0x65]]) = Ok [[0x67, 0x42], [0x65]]"
  using avcc_roundtrip [of "[[0x67, 0x42], [], [0x65]]"] by (simp add: MaxAccessUnitSize_def MaxNALUsPerAccessUnit_def)

text \<open>C28: one to 50 payloads that are not empty and do not end with a zero, escaped as the standard
  prescribes to at most 8 MiB in all and written behind start codes, are found again by AnnexB_Unmarshal, and
  EmulationPreventionRemove gives the payloads back.\<close>

theorem annexb_roundtrip:
  assumes "a \<noteq> []" "length a \<le> MaxNALUsPerAccessUnit" "\<forall>bs \<in> set a. bs \<noteq> [] \<and> last bs \<noteq> 0"
    "units_size (map (escape 0) a) \<le> MaxAccessUnitSize"
  shows "\<exists>us. AnnexB_Unmarshal (AnnexB_Marshal (map (escape 0) a)) = Ok us \<and> map EmulationPreventionRemove us = a"
proof (intro exI conjI)
  show "AnnexB_Unmarshal (AnnexB_Marshal (map (escape 0) a)) = Ok (map (escape 0) a)"
    using assms by (intro AnnexB_delimited) (auto intro: delimited_escape)
  show "map EmulationPreventionRemove (map (escape 0) a) = a"
    using unescape_escape [of 0] by (simp add: EmulationPreventionRemove_unescape map_idI)
qed

theorem annexb_roundtrip_witness:
  "\<exists>us. AnnexB_Unmarshal (AnnexB_Marshal (map (escape 0) [[0x67, 0, 0, 1], [0x65, 0, 0, 0, 3]])) = Ok us \<and>
    map EmulationPreventionRemove us = [[0x67, 0, 0, 1], [0x65, 0, 0, 0, 3]]"
  by (rule annexb_roundtrip) (simp_all add: MaxAccessUnitSize_def MaxNALUsPerAccessUnit_def)

definition access_unit_ok :: "byte list list \<Rightarrow> bool" where
  "access_unit_ok us \<longleftrightarrow> us \<noteq> [] \<and> length us \<le> MaxNALUsPerAccessUnit \<and> [] \<notin> set us \<and> units_size us \<le> MaxAccessUnitSize"

text \<open>On any bytes, the readers of AVCC and of Annex B return an error or between 1 and 50 units of at most 8 MiB in all,
  none of them empty; they never run past the end.\<close>

theorem access_units_bounded:
  "(case AVCC_Unmarshal buf of Ok us \<Rightarrow> access_unit_ok us | Err e \<Rightarrow> True | Panic \<Rightarrow> False) \<and>
   (case AnnexB_Unmarshal buf of Ok us \<Rightarrow> access_unit_ok us | Err e \<Rightarrow> True | Panic \<Rightarrow> False)"
proof
  show "case AVCC_Unmarshal buf of Ok us \<Rightarrow> access_unit_ok us | Err e \<Rightarrow> True | Panic \<Rightarrow> False"
  proof (cases "avcc_scan buf 0 0 0")
    case (Ok m)
    with avcc_scan_take [OF Ok] obtain us where "avcc_take buf 0 m = Ok us" "length us = m" "[] \<notin> set us"
      "us = [] \<or> units_size us \<le> MaxAccessUnitSize" by auto
    with Ok show ?thesis by (cases "us = []") (auto simp: AVCC_Unmarshal_def access_unit_ok_def too_many_def)
  qed (use avcc_scan_no_Panic in \<open>auto simp: AVCC_Unmarshal_def\<close>)
  have "slices_ok buf 0 []" by (simp add: slices_ok_def)
  note safe = annexb_loop_safe [OF this]
  have "access_unit_ok (map (\<lambda>(i, j). take (j - i) (drop i buf)) ps)"
    if "slices_ok buf s' ps" "ps \<noteq> []" "length ps \<le> MaxNALUsPerAccessUnit" for s' ps
    using that sum_slices [of ps buf] by (auto simp: access_unit_ok_def slices_ok_def)
  note ok = this
  have "case res_bind (annexb_loop buf pos 0 []) (\<lambda>positions.
      if length positions = 0 then Errorf e else if length positions > MaxNALUsPerAccessUnit then too_many (length positions)
      else Ok (map (\<lambda>(s, e). take (e - s) (drop s buf)) positions)) of
      Ok us \<Rightarrow> access_unit_ok us | Err e \<Rightarrow> True | Panic \<Rightarrow> False" for pos e
    using safe [of pos] ok by (cases "annexb_loop buf pos 0 []") (auto simp: too_many_def)
  then show "case AnnexB_Unmarshal buf of Ok us \<Rightarrow> access_unit_ok us | Err e \<Rightarrow> True | Panic \<Rightarrow> False"
    unfolding AnnexB_Unmarshal_def Let_def by (simp del: length_0_conv split: option.split)
qed

end
