(* ===== verification/Mc_SPS.thy ===== *)
theory Mc_SPS
  imports Mc_H264
begin

text \<open>
  \<^verbatim>\<open>mediacommon/pkg/codecs/h264/sps.go\<close>: the sequence parameter set.  A receiver is passed and returned; on an error
  its contents, which the callers drop, are not modelled.  Numbers of type \<^verbatim>\<open>int32\<close> are words read with \<open>sint\<close>.
\<close>

section \<open>Data\<close>

type_synonym i32 = "32 word"

record SPS_HRD =
  CpbCntMinus1 :: u32
  BitRateScale :: byte
  CpbSizeScale :: byte
  BitRateValueMinus1 :: "u32 list"
  CpbSizeValueMinus1 :: "u32 list"
  CbrFlag :: "bool list"
  InitialCpbRemovalDelayLengthMinus1 :: byte
  CpbRemovalDelayLengthMinus1 :: byte
  DpbOutputDelayLengthMinus1 :: byte
  TimeOffsetLength :: byte

record SPS_TimingInfo =
  NumUnitsInTick :: u32
  TimeScale :: u32
  FixedFrameRateFlag :: bool

record SPS_BitstreamRestriction =
  MotionVectorsOverPicBoundariesFlag :: bool
  MaxBytesPerPicDenom :: u32
  MaxBitsPerMbDenom :: u32
  Log2MaxMvLengthHorizontal :: u32
  Log2MaxMvLengthVertical :: u32
  MaxNumReorderFrames :: u32
  MaxDecFrameBuffering :: u32

record SPS_VUI =
  AspectRatioInfoPresentFlag :: bool
  AspectRatioIdc :: byte
  SarWidth :: u16
  SarHeight :: u16
  OverscanInfoPresentFlag :: bool
  OverscanAppropriateFlag :: bool
  VideoSignalTypePresentFlag :: bool
  VideoFormat :: byte
  VideoFullRangeFlag :: bool
  ColourDescriptionPresentFlag :: bool
  ColourPrimaries :: byte
  TransferCharacteristics :: byte
  MatrixCoefficients :: byte
  ChromaLocInfoPresentFlag :: bool
  ChromaSampleLocTypeTopField :: u32
  ChromaSampleLocTypeBottomField :: u32
  TimingInfo :: "SPS_TimingInfo option"
  NalHRD :: "SPS_HRD option"
  VclHRD :: "SPS_HRD option"
  LowDelayHrdFlag :: bool
  PicStructPresentFlag :: bool
  BitstreamRestriction :: "SPS_BitstreamRestriction option"

record SPS_FrameCropping =
  LeftOffset :: u32
  RightOffset :: u32
  TopOffset :: u32
  BottomOffset :: u32

record SPS =
  ProfileIdc :: byte
  ConstraintSet0Flag :: bool
  ConstraintSet1Flag :: bool
  ConstraintSet2Flag :: bool
  ConstraintSet3Flag :: bool
  ConstraintSet4Flag :: bool
  ConstraintSet5Flag :: bool
  LevelIdc :: byte
  ID :: u32
  ChromaFormatIdc :: u32
  SeparateColourPlaneFlag :: bool
  BitDepthLumaMinus8 :: u32
  BitDepthChromaMinus8 :: u32
  QpprimeYZeroTransformBypassFlag :: bool
  ScalingList4x4 :: "i32 list list"
  UseDefaultScalingMatrix4x4Flag :: "bool list"
  ScalingList8x8 :: "i32 list list"
  UseDefaultScalingMatrix8x8Flag :: "bool list"
  Log2MaxFrameNumMinus4 :: u32
  PicOrderCntType :: u32
  Log2MaxPicOrderCntLsbMinus4 :: u32
  DeltaPicOrderAlwaysZeroFlag :: bool
  OffsetForNonRefPic :: i32
  OffsetForTopToBottomField :: i32
  OffsetForRefFrames :: "i32 list"
  MaxNumRefFrames :: u32
  GapsInFrameNumValueAllowedFlag :: bool
  PicWidthInMbsMinus1 :: u32
  PicHeightInMapUnitsMinus1 :: u32
  FrameMbsOnlyFlag :: bool
  MbAdaptiveFrameFieldFlag :: bool
  Direct8x8InferenceFlag :: bool
  FrameCropping :: "SPS_FrameCropping option"
  VUI :: "SPS_VUI option"

section \<open>Scaling lists\<close>

text \<open>The loop over \<open>size'\<close> entries, \<open>j\<close> of them read; the remainder has the sign of the dividend.\<close>

fun scaling_loop :: "byte list \<Rightarrow> nat \<Rightarrow> nat \<Rightarrow> nat \<Rightarrow> i32 \<Rightarrow> i32 \<Rightarrow> i32 list \<Rightarrow> bool \<Rightarrow> ((i32 list \<times> bool) \<times> nat) res" where
  "scaling_loop buf pos j 0 lastScale nextScale scalingList useDefault = Ok ((scalingList, useDefault), pos)"
| "scaling_loop buf pos j (Suc n) lastScale nextScale scalingList useDefault =
     res_bind (if nextScale \<noteq> 0 then
                 res_bind (ReadGolombSigned buf pos) (\<lambda>(deltaScale, pos).
                   let nextScale = word_of_int (sint (lastScale + deltaScale + 256) smod 256)
                   in Ok ((nextScale, j = 0 \<and> nextScale = 0), pos))
               else Ok ((nextScale, useDefault), pos))
       (\<lambda>((nextScale, useDefault), pos).
         let v = (if nextScale = 0 then lastScale else nextScale)
         in scaling_loop buf pos (j + 1) n v nextScale (scalingList @ [v]) useDefault)"

definition readScalingList :: "byte list \<Rightarrow> nat \<Rightarrow> nat \<Rightarrow> ((i32 list \<times> bool) \<times> nat) res" where
  "readScalingList buf pos size' = scaling_loop buf pos 0 size' 8 8 [] False"

section \<open>The parts of the VUI\<close>

fun hrd_loop :: "byte list \<Rightarrow> nat \<Rightarrow> nat \<Rightarrow> ((u32 list \<times> u32 list \<times> bool list) \<times> nat) res" where
  "hrd_loop buf pos 0 = Ok (([], [], []), pos)"
| "hrd_loop buf pos (Suc n) =
     res_bind (ReadGolombUnsigned buf pos) (\<lambda>(b, pos).
     res_bind (ReadGolombUnsigned buf pos) (\<lambda>(c, pos).
     res_bind (ReadFlag buf pos) (\<lambda>(f, pos).
     res_bind (hrd_loop buf pos n) (\<lambda>((bs, cs, fs), pos). Ok ((b # bs, c # cs, f # fs), pos)))))"

definition SPS_HRD_unmarshal :: "byte list \<Rightarrow> nat \<Rightarrow> (SPS_HRD \<times> nat) res" where
  "SPS_HRD_unmarshal buf pos =
     res_bind (ReadGolombUnsigned buf pos) (\<lambda>(cnt, pos).
     res_bind (HasSpace buf pos 8) (\<lambda>_.
     if cnt > 31 then Errorf ''invalid cpb_cnt_minus1''
     else
       res_bind (ReadBitsUnsafe buf pos 4) (\<lambda>(rate, pos).
       res_bind (ReadBitsUnsafe buf pos 4) (\<lambda>(size', pos).
       res_bind (hrd_loop buf pos (unat cnt + 1)) (\<lambda>((bs, cs, fs), pos).
       res_bind (HasSpace buf pos (5 + 5 + 5 + 5)) (\<lambda>_.
       res_bind (ReadBitsUnsafe buf pos 5) (\<lambda>(i, pos).
       res_bind (ReadBitsUnsafe buf pos 5) (\<lambda>(c, pos).
       res_bind (ReadBitsUnsafe buf pos 5) (\<lambda>(d, pos).
       res_bind (ReadBitsUnsafe buf pos 5) (\<lambda>(t, pos).
         Ok (\<lparr> CpbCntMinus1 = cnt, BitRateScale = ucast rate, CpbSizeScale = ucast size',
               BitRateValueMinus1 = bs, CpbSizeValueMinus1 = cs, CbrFlag = fs,
               InitialCpbRemovalDelayLengthMinus1 = ucast i, CpbRemovalDelayLengthMinus1 = ucast c,
               DpbOutputDelayLengthMinus1 = ucast d, TimeOffsetLength = ucast t \<rparr>, pos)))))))))))"

definition SPS_TimingInfo_unmarshal :: "byte list \<Rightarrow> nat \<Rightarrow> (SPS_TimingInfo \<times> nat) res" where
  "SPS_TimingInfo_unmarshal buf pos =
     res_bind (HasSpace buf pos (32 + 32 + 1)) (\<lambda>_.
     res_bind (ReadBitsUnsafe buf pos 32) (\<lambda>(n, pos).
     res_bind (ReadBitsUnsafe buf pos 32) (\<lambda>(t, pos).
     res_bind (ReadFlagUnsafe buf pos) (\<lambda>(f, pos).
       Ok (\<lparr> NumUnitsInTick = ucast n, TimeScale = ucast t, FixedFrameRateFlag = f \<rparr>, pos)))))"

definition SPS_BitstreamRestriction_unmarshal :: "byte list \<Rightarrow> nat \<Rightarrow> (SPS_BitstreamRestriction \<times> nat) res" where
  "SPS_BitstreamRestriction_unmarshal buf pos =
     res_bind (ReadFlag buf pos) (\<lambda>(m, pos).
     res_bind (ReadGolombUnsigned buf pos) (\<lambda>(by, pos).
     res_bind (ReadGolombUnsigned buf pos) (\<lambda>(bi, pos).
     res_bind (ReadGolombUnsigned buf pos) (\<lambda>(h, pos).
     res_bind (ReadGolombUnsigned buf pos) (\<lambda>(v, pos).
     res_bind (ReadGolombUnsigned buf pos) (\<lambda>(r, pos).
     res_bind (ReadGolombUnsigned buf pos) (\<lambda>(d, pos).
       Ok (\<lparr> MotionVectorsOverPicBoundariesFlag = m, MaxBytesPerPicDenom = by, MaxBitsPerMbDenom = bi,
             Log2MaxMvLengthHorizontal = h, Log2MaxMvLengthVertical = v, MaxNumReorderFrames = r,
             MaxDecFrameBuffering = d \<rparr>, pos))))))))"

definition SPS_FrameCropping_unmarshal :: "byte list \<Rightarrow> nat \<Rightarrow> (SPS_FrameCropping \<times> nat) res" where
  "SPS_FrameCropping_unmarshal buf pos =
     res_bind (ReadGolombUnsigned buf pos) (\<lambda>(l, pos).
     res_bind (ReadGolombUnsigned buf pos) (\<lambda>(r, pos).
     res_bind (ReadGolombUnsigned buf pos) (\<lambda>(t, pos).
     res_bind (ReadGolombUnsigned buf pos) (\<lambda>(b, pos).
       Ok (\<lparr> LeftOffset = l, RightOffset = r, TopOffset = t, BottomOffset = b \<rparr>, pos)))))"

section \<open>The VUI\<close>

definition SPS_VUI_zero :: SPS_VUI where
  "SPS_VUI_zero =
     \<lparr> AspectRatioInfoPresentFlag = False, AspectRatioIdc = 0, SarWidth = 0, SarHeight = 0,
       OverscanInfoPresentFlag = False, OverscanAppropriateFlag = False, VideoSignalTypePresentFlag = False,
       VideoFormat = 0, VideoFullRangeFlag = False, ColourDescriptionPresentFlag = False, ColourPrimaries = 0,
       TransferCharacteristics = 0, MatrixCoefficients = 0, ChromaLocInfoPresentFlag = False,
       ChromaSampleLocTypeTopField = 0, ChromaSampleLocTypeBottomField = 0, TimingInfo = None, NalHRD = None,
       VclHRD = None, LowDelayHrdFlag = False, PicStructPresentFlag = False, BitstreamRestriction = None \<rparr>"

definition vui_aspect :: "byte list \<Rightarrow> SPS_VUI \<Rightarrow> nat \<Rightarrow> (SPS_VUI \<times> nat) res" where
  "vui_aspect buf v pos =
     res_bind (ReadFlag buf pos) (\<lambda>(f, pos).
     let v = v\<lparr>AspectRatioInfoPresentFlag := f\<rparr>
     in if f then
          res_bind (ReadBits buf pos 8) (\<lambda>(tmp, pos).
          let v = v\<lparr>AspectRatioIdc := ucast tmp\<rparr>
          in if AspectRatioIdc v = 255 then
               res_bind (HasSpace buf pos 32) (\<lambda>_.
               res_bind (ReadBitsUnsafe buf pos 16) (\<lambda>(w, pos).
               res_bind (ReadBitsUnsafe buf pos 16) (\<lambda>(h, pos).
                 Ok (v\<lparr>SarWidth := ucast w, SarHeight := ucast h\<rparr>, pos))))
             else Ok (v, pos))
        else Ok (v, pos))"

definition vui_overscan :: "byte list \<Rightarrow> SPS_VUI \<Rightarrow> nat \<Rightarrow> (SPS_VUI \<times> nat) res" where
  "vui_overscan buf v pos =
     res_bind (ReadFlag buf pos) (\<lambda>(f, pos).
     let v = v\<lparr>OverscanInfoPresentFlag := f\<rparr>
     in if f then res_bind (ReadFlag buf pos) (\<lambda>(a, pos). Ok (v\<lparr>OverscanAppropriateFlag := a\<rparr>, pos))
        else Ok (v, pos))"

definition vui_signal :: "byte list \<Rightarrow> SPS_VUI \<Rightarrow> nat \<Rightarrow> (SPS_VUI \<times> nat) res" where
  "vui_signal buf v pos =
     res_bind (ReadFlag buf pos) (\<lambda>(f, pos).
     let v = v\<lparr>VideoSignalTypePresentFlag := f\<rparr>
     in if f then
          res_bind (HasSpace buf pos 5) (\<lambda>_.
          res_bind (ReadBitsUnsafe buf pos 3) (\<lambda>(fmt, pos).
          res_bind (ReadFlagUnsafe buf pos) (\<lambda>(r, pos).
          res_bind (ReadFlagUnsafe buf pos) (\<lambda>(c, pos).
          let v = v\<lparr>VideoFormat := ucast fmt, VideoFullRangeFlag := r, ColourDescriptionPresentFlag := c\<rparr>
          in if c then
               res_bind (HasSpace buf pos 24) (\<lambda>_.
               res_bind (ReadBitsUnsafe buf pos 8) (\<lambda>(p, pos).
               res_bind (ReadBitsUnsafe buf pos 8) (\<lambda>(t, pos).
               res_bind (ReadBitsUnsafe buf pos 8) (\<lambda>(m, pos).
                 Ok (v\<lparr>ColourPrimaries := ucast p, TransferCharacteristics := ucast t, MatrixCoefficients := ucast m\<rparr>, pos)))))
             else Ok (v, pos)))))
        else Ok (v, pos))"

definition vui_chroma :: "byte list \<Rightarrow> SPS_VUI \<Rightarrow> nat \<Rightarrow> (SPS_VUI \<times> nat) res" where
  "vui_chroma buf v pos =
     res_bind (ReadFlag buf pos) (\<lambda>(f, pos).
     let v = v\<lparr>ChromaLocInfoPresentFlag := f\<rparr>
     in if f then
          res_bind (ReadGolombUnsigned buf pos) (\<lambda>(t, pos).
          res_bind (ReadGolombUnsigned buf pos) (\<lambda>(b, pos).
            Ok (v\<lparr>ChromaSampleLocTypeTopField := t, ChromaSampleLocTypeBottomField := b\<rparr>, pos)))
        else Ok (v, pos))"

text \<open>A flag, and behind it what it announces.\<close>

definition optional :: "(byte list \<Rightarrow> nat \<Rightarrow> ('a \<times> nat) res) \<Rightarrow> byte list \<Rightarrow> nat \<Rightarrow> ('a option \<times> nat) res" where
  "optional m buf pos =
     res_bind (ReadFlag buf pos) (\<lambda>(f, pos).
       if f then res_bind (m buf pos) (\<lambda>(x, pos). Ok (Some x, pos)) else Ok (None, pos))"

definition SPS_VUI_unmarshal :: "byte list \<Rightarrow> nat \<Rightarrow> (SPS_VUI \<times> nat) res" where
  "SPS_VUI_unmarshal buf pos =
     res_bind (vui_aspect buf SPS_VUI_zero pos) (\<lambda>(v, pos).
     res_bind (vui_overscan buf v pos) (\<lambda>(v, pos).
     res_bind (vui_signal buf v pos) (\<lambda>(v, pos).
     res_bind (vui_chroma buf v pos) (\<lambda>(v, pos).
     res_bind (optional SPS_TimingInfo_unmarshal buf pos) (\<lambda>(t, pos).
     res_bind (optional SPS_HRD_unmarshal buf pos) (\<lambda>(n, pos).
     res_bind (optional SPS_HRD_unmarshal buf pos) (\<lambda>(c, pos).
     res_bind (if n \<noteq> None \<or> c \<noteq> None then ReadFlag buf pos else Ok (LowDelayHrdFlag v, pos)) (\<lambda>(l, pos).
     res_bind (ReadFlag buf pos) (\<lambda>(p, pos).
     res_bind (optional SPS_BitstreamRestriction_unmarshal buf pos) (\<lambda>(r, pos).
       Ok (v\<lparr>TimingInfo := t, NalHRD := n, VclHRD := c, LowDelayHrdFlag := l, PicStructPresentFlag := p,
             BitstreamRestriction := r\<rparr>, pos)))))))))))"

section \<open>The parameter set\<close>

definition high_profiles :: "byte list" where
  "high_profiles = [100, 110, 122, 244, 44, 83, 86, 118, 128, 138, 139, 134, 135]"

fun sps_scaling :: "byte list \<Rightarrow> SPS \<Rightarrow> nat \<Rightarrow> nat \<Rightarrow> nat \<Rightarrow> (SPS \<times> nat) res" where
  "sps_scaling buf s pos i 0 = Ok (s, pos)"
| "sps_scaling buf s pos i (Suc n) =
     res_bind (ReadFlag buf pos) (\<lambda>(present, pos).
     res_bind (if present then
                 if i < 6 then
                   res_bind (readScalingList buf pos 16) (\<lambda>((l, d), pos).
                     Ok (s\<lparr>ScalingList4x4 := ScalingList4x4 s @ [l],
                           UseDefaultScalingMatrix4x4Flag := UseDefaultScalingMatrix4x4Flag s @ [d]\<rparr>, pos))
                 else
                   res_bind (readScalingList buf pos 64) (\<lambda>((l, d), pos).
                     Ok (s\<lparr>ScalingList8x8 := ScalingList8x8 s @ [l],
                           UseDefaultScalingMatrix8x8Flag := UseDefaultScalingMatrix8x8Flag s @ [d]\<rparr>, pos))
               else Ok (s, pos)) (\<lambda>(s, pos).
       sps_scaling buf s pos (i + 1) n))"

definition sps_chroma :: "byte list \<Rightarrow> SPS \<Rightarrow> nat \<Rightarrow> (SPS \<times> nat) res" where
  "sps_chroma buf s pos =
     (if ProfileIdc s \<in> set high_profiles then
        res_bind (ReadGolombUnsigned buf pos) (\<lambda>(fmt, pos).
        res_bind (if fmt = 3 then ReadFlag buf pos else Ok (False, pos)) (\<lambda>(sep, pos).
        res_bind (ReadGolombUnsigned buf pos) (\<lambda>(l, pos).
        res_bind (ReadGolombUnsigned buf pos) (\<lambda>(c, pos).
        res_bind (ReadFlag buf pos) (\<lambda>(q, pos).
        res_bind (ReadFlag buf pos) (\<lambda>(seqScalingMatrixPresentFlag, pos).
        let s = s\<lparr>ChromaFormatIdc := fmt, SeparateColourPlaneFlag := sep, BitDepthLumaMinus8 := l,
                  BitDepthChromaMinus8 := c, QpprimeYZeroTransformBypassFlag := q\<rparr>
        in if seqScalingMatrixPresentFlag then sps_scaling buf s pos 0 (if fmt \<noteq> 3 then 8 else 12)
           else Ok (s, pos)))))))
      else Ok (s\<lparr>ChromaFormatIdc := 1, SeparateColourPlaneFlag := False, BitDepthLumaMinus8 := 0,
                 BitDepthChromaMinus8 := 0, QpprimeYZeroTransformBypassFlag := False\<rparr>, pos))"

fun offsets_loop :: "byte list \<Rightarrow> nat \<Rightarrow> nat \<Rightarrow> (i32 list \<times> nat) res" where
  "offsets_loop buf pos 0 = Ok ([], pos)"
| "offsets_loop buf pos (Suc n) =
     res_bind (ReadGolombSigned buf pos) (\<lambda>(v, pos).
     res_bind (offsets_loop buf pos n) (\<lambda>(vs, pos). Ok (v # vs, pos)))"

definition maxRefFrames :: nat where "maxRefFrames = 255"

definition sps_poc :: "byte list \<Rightarrow> SPS \<Rightarrow> nat \<Rightarrow> (SPS \<times> nat) res" where
  "sps_poc buf s pos =
     res_bind (ReadGolombUnsigned buf pos) (\<lambda>(t, pos).
     let s = s\<lparr>PicOrderCntType := t\<rparr>
     in if t = 0 then
          res_bind (ReadGolombUnsigned buf pos) (\<lambda>(l, pos).
            Ok (s\<lparr>Log2MaxPicOrderCntLsbMinus4 := l, DeltaPicOrderAlwaysZeroFlag := False, OffsetForNonRefPic := 0,
                  OffsetForTopToBottomField := 0, OffsetForRefFrames := []\<rparr>, pos))
        else if t = 1 then
          res_bind (ReadFlag buf pos) (\<lambda>(z, pos).
          res_bind (ReadGolombSigned buf pos) (\<lambda>(n, pos).
          res_bind (ReadGolombSigned buf pos) (\<lambda>(b, pos).
          res_bind (ReadGolombUnsigned buf pos) (\<lambda>(cycle, pos).
          if unat cycle > maxRefFrames then
            Errorf (''num_ref_frames_in_pic_order_cnt_cycle exceeds '' @ show_nat maxRefFrames)
          else
            res_bind (offsets_loop buf pos (unat cycle)) (\<lambda>(os, pos).
              Ok (s\<lparr>Log2MaxPicOrderCntLsbMinus4 := 0, DeltaPicOrderAlwaysZeroFlag := z, OffsetForNonRefPic := n,
                    OffsetForTopToBottomField := b, OffsetForRefFrames := os\<rparr>, pos))))))
        else if t = 2 then
          Ok (s\<lparr>Log2MaxPicOrderCntLsbMinus4 := 0, DeltaPicOrderAlwaysZeroFlag := False, OffsetForNonRefPic := 0,
                OffsetForTopToBottomField := 0, OffsetForRefFrames := []\<rparr>, pos)
        else Errorf (''invalid pic_order_cnt_type: '' @ show_nat (unat t)))"

definition sps_frame :: "byte list \<Rightarrow> SPS \<Rightarrow> nat \<Rightarrow> (SPS \<times> nat) res" where
  "sps_frame buf s pos =
     res_bind (ReadGolombUnsigned buf pos) (\<lambda>(n, pos).
     res_bind (ReadFlag buf pos) (\<lambda>(g, pos).
     res_bind (ReadGolombUnsigned buf pos) (\<lambda>(w, pos).
     res_bind (ReadGolombUnsigned buf pos) (\<lambda>(h, pos).
     res_bind (ReadFlag buf pos) (\<lambda>(f, pos).
     res_bind (if \<not> f then ReadFlag buf pos else Ok (False, pos)) (\<lambda>(a, pos).
     res_bind (ReadFlag buf pos) (\<lambda>(d, pos).
     res_bind (optional SPS_FrameCropping_unmarshal buf pos) (\<lambda>(c, pos).
     res_bind (optional SPS_VUI_unmarshal buf pos) (\<lambda>(v, pos).
       Ok (s\<lparr>MaxNumRefFrames := n, GapsInFrameNumValueAllowedFlag := g, PicWidthInMbsMinus1 := w,
             PicHeightInMapUnitsMinus1 := h, FrameMbsOnlyFlag := f, MbAdaptiveFrameFieldFlag := a,
             Direct8x8InferenceFlag := d, FrameCropping := c, VUI := v\<rparr>, pos))))))))))"

definition sps_body :: "byte list \<Rightarrow> SPS \<Rightarrow> nat \<Rightarrow> (SPS \<times> nat) res" where
  "sps_body buf s pos =
     res_bind (ReadGolombUnsigned buf pos) (\<lambda>(i, pos).
     res_bind (sps_chroma buf (s\<lparr>ID := i\<rparr>) pos) (\<lambda>(s, pos).
     res_bind (ReadGolombUnsigned buf pos) (\<lambda>(n, pos).
     res_bind (sps_poc buf (s\<lparr>Log2MaxFrameNumMinus4 := n\<rparr>) pos) (\<lambda>(s, pos).
       sps_frame buf s pos))))"

definition SPS_Unmarshal :: "SPS \<Rightarrow> byte list \<Rightarrow> SPS res" where
  "SPS_Unmarshal s buf =
     (if length buf < 1 then Errorf ''not enough bits''
      else if hd buf AND 0x1F \<noteq> NALUTypeSPS then Errorf ''not a SPS''
      else
        let buf = EmulationPreventionRemove (tl buf)
        in if length buf < 3 then Errorf ''not enough bits''
           else
             let s = s\<lparr>ProfileIdc := buf ! 0, ConstraintSet0Flag := drop_bit 7 (buf ! 1) = 1,
                       ConstraintSet1Flag := drop_bit 6 (buf ! 1) AND 0x01 = 1,
                       ConstraintSet2Flag := drop_bit 5 (buf ! 1) AND 0x01 = 1,
                       ConstraintSet3Flag := drop_bit 4 (buf ! 1) AND 0x01 = 1,
                       ConstraintSet4Flag := drop_bit 3 (buf ! 1) AND 0x01 = 1,
                       ConstraintSet5Flag := drop_bit 2 (buf ! 1) AND 0x01 = 1, LevelIdc := buf ! 2\<rparr>
             in res_bind (sps_body (drop 3 buf) s 0) (\<lambda>(s, pos). Ok s))"

text \<open>The zero value, what a variable declared without a value holds.\<close>

definition SPS_zero :: SPS where
  "SPS_zero =
     \<lparr> ProfileIdc = 0, ConstraintSet0Flag = False, ConstraintSet1Flag = False, ConstraintSet2Flag = False,
       ConstraintSet3Flag = False, ConstraintSet4Flag = False, ConstraintSet5Flag = False, LevelIdc = 0, ID = 0,
       ChromaFormatIdc = 0, SeparateColourPlaneFlag = False, BitDepthLumaMinus8 = 0, BitDepthChromaMinus8 = 0,
       QpprimeYZeroTransformBypassFlag = False, ScalingList4x4 = [], UseDefaultScalingMatrix4x4Flag = [],
       ScalingList8x8 = [], UseDefaultScalingMatrix8x8Flag = [], Log2MaxFrameNumMinus4 = 0, PicOrderCntType = 0,
       Log2MaxPicOrderCntLsbMinus4 = 0, DeltaPicOrderAlwaysZeroFlag = False, OffsetForNonRefPic = 0,
       OffsetForTopToBottomField = 0, OffsetForRefFrames = [], MaxNumRefFrames = 0,
       GapsInFrameNumValueAllowedFlag = False, PicWidthInMbsMinus1 = 0, PicHeightInMapUnitsMinus1 = 0,
       FrameMbsOnlyFlag = False, MbAdaptiveFrameFieldFlag = False, Direct8x8InferenceFlag = False,
       FrameCropping = None, VUI = None \<rparr>"

section \<open>The size of the picture\<close>

definition chromaArrayType :: "SPS \<Rightarrow> u32" where
  "chromaArrayType s = (if \<not> SeparateColourPlaneFlag s then ChromaFormatIdc s else 0)"

definition SPS_Width :: "SPS \<Rightarrow> nat" where
  "SPS_Width s =
     (let subWidthC = (if ChromaFormatIdc s = 1 \<and> \<not> SeparateColourPlaneFlag s then 2
                       else if ChromaFormatIdc s = 2 \<and> \<not> SeparateColourPlaneFlag s then 2
                       else if ChromaFormatIdc s = 3 \<and> \<not> SeparateColourPlaneFlag s then 1
                       else 0 :: u32);
          cropUnitX = (if chromaArrayType s = 0 then 0 else subWidthC);
          picWidthInSamplesL = (PicWidthInMbsMinus1 s + 1) * 16
      in case FrameCropping s of
           Some c \<Rightarrow> unat (picWidthInSamplesL - cropUnitX * (LeftOffset c + RightOffset c))
         | None \<Rightarrow> unat picWidthInSamplesL)"

definition SPS_Height :: "SPS \<Rightarrow> nat" where
  "SPS_Height s =
     (let subHeightC = (if ChromaFormatIdc s = 1 \<and> \<not> SeparateColourPlaneFlag s then 2
                        else if ChromaFormatIdc s = 2 \<and> \<not> SeparateColourPlaneFlag s then 1
                        else if ChromaFormatIdc s = 3 \<and> \<not> SeparateColourPlaneFlag s then 1
                        else 0 :: u32);
          frameMbsOnlyFlagUint32 = (if FrameMbsOnlyFlag s then 1 else 0 :: u32);
          cropUnitY = (if chromaArrayType s = 0 then 2 - frameMbsOnlyFlagUint32
                       else subHeightC * (2 - frameMbsOnlyFlagUint32));
          frameHeightInMbs = (2 - frameMbsOnlyFlagUint32) * (PicHeightInMapUnitsMinus1 s + 1)
      in case FrameCropping s of
           Some c \<Rightarrow> unat (16 * frameHeightInMbs - cropUnitY * (TopOffset c + BottomOffset c))
         | None \<Rightarrow> unat (frameHeightInMbs * 16))"

section \<open>Readers stay inside the buffer\<close>

text \<open>A result that stands between two positions; with \<open>n\<close> bits left, the reader gives one.\<close>

definition inside :: "nat \<Rightarrow> nat \<Rightarrow> ('a \<times> nat) res \<Rightarrow> bool" where
  "inside a b r = (case r of Ok (x, p) \<Rightarrow> a \<le> p \<and> p \<le> b | Err e \<Rightarrow> True | Panic \<Rightarrow> False)"

definition needs :: "nat \<Rightarrow> byte list \<Rightarrow> (nat \<Rightarrow> ('a \<times> nat) res) \<Rightarrow> bool" where
  "needs n buf m \<longleftrightarrow> (\<forall>pos. pos + n \<le> 8 * length buf \<longrightarrow> inside pos (8 * length buf) (m pos))"

named_theorems needs

lemma inside_simps [simp]: "inside a b (Ok (x, p)) \<longleftrightarrow> a \<le> p \<and> p \<le> b" "inside a b (Err e)" "\<not> inside a b Panic"
  by (simp_all add: inside_def)

lemma insideI: "r \<noteq> Panic \<Longrightarrow> (\<And>x p. r = Ok (x, p) \<Longrightarrow> a \<le> p \<and> p \<le> b) \<Longrightarrow> inside a b r"
  by (cases r) auto

lemma inside_bind:
  "inside a b r \<Longrightarrow> (\<And>x p. r = Ok (x, p) \<Longrightarrow> a \<le> p \<Longrightarrow> p \<le> b \<Longrightarrow> inside p b (f x p)) \<Longrightarrow> inside a b (res_bind r (\<lambda>(x, p). f x p))"
proof (cases r)
  case (Ok y)
  assume a: "inside a b r" "\<And>x p. r = Ok (x, p) \<Longrightarrow> a \<le> p \<Longrightarrow> p \<le> b \<Longrightarrow> inside p b (f x p)"
  obtain x p where y: "y = (x, p)" by (cases y)
  have p: "a \<le> p" "p \<le> b" using a(1) by (simp_all add: Ok y)
  have "inside p b (f x p)" using a(2) [OF _ p] by (simp add: Ok y)
  then have "inside a b (f x p)" using p(1) by (cases "f x p") auto
  then show ?thesis by (simp add: Ok y)
qed auto

lemma needsD: "needs n buf m \<Longrightarrow> pos + n \<le> 8 * length buf \<Longrightarrow> inside pos (8 * length buf) (m pos)"
  by (simp add: needs_def)

lemma needsI: "(\<And>pos. pos + n \<le> 8 * length buf \<Longrightarrow> inside pos (8 * length buf) (m pos)) \<Longrightarrow> needs n buf m"
  by (simp add: needs_def)

lemma needs_Ok [needs]: "needs n buf (\<lambda>pos. Ok (x, pos))" by (rule needsI) simp
lemma needs_Err [needs]: "needs n buf (\<lambda>pos. Err e)" by (rule needsI) simp

lemma needs_bind [needs]:
  assumes "needs 0 buf m" "\<And>x. needs 0 buf (f x)"
  shows "needs n buf (\<lambda>pos. res_bind (m pos) (\<lambda>(x, pos). f x pos))"
proof (rule needsI, rule inside_bind)
  fix pos assume "pos + n \<le> 8 * length buf"
  then show "inside pos (8 * length buf) (m pos)" by (intro needsD [OF assms(1)]) simp
  fix x p assume "p \<le> 8 * length buf"
  then show "inside p (8 * length buf) (f x p)" by (intro needsD [OF assms(2)]) simp
qed

lemma needs_if [needs]:
  "(c \<Longrightarrow> needs n buf a) \<Longrightarrow> (\<not> c \<Longrightarrow> needs n buf b) \<Longrightarrow> needs n buf (\<lambda>pos. if c then a pos else b pos)"
  by (cases c) simp_all

lemma needs_HasSpace:
  "needs k buf m \<Longrightarrow> needs n buf (\<lambda>pos. res_bind (HasSpace buf pos (int k)) (\<lambda>_. m pos))"
  by (rule needsI) (auto simp: HasSpace_def intro: needsD)

text \<open>A reader that takes exactly \<open>k\<close> bits, which are there.\<close>

lemma needs_step:
  assumes "\<And>pos. pos + n \<le> 8 * length buf \<Longrightarrow> \<exists>v. m pos = Ok (v, pos + k)" "k \<le> n" "\<And>x. needs (n - k) buf (f x)"
  shows "needs n buf (\<lambda>pos. res_bind (m pos) (\<lambda>(x, pos). f x pos))"
proof (rule needsI, rule inside_bind)
  fix pos assume p: "pos + n \<le> 8 * length buf"
  from assms(1) [OF p] obtain v where v: "m pos = Ok (v, pos + k)" ..
  show "inside pos (8 * length buf) (m pos)" unfolding v using p assms(2) by simp
  fix x q assume "m pos = Ok (x, q)"
  then have "q = pos + k" by (simp add: v)
  then have "q + (n - k) \<le> 8 * length buf" using p assms(2) by simp
  then show "inside q (8 * length buf) (f x q)" by (rule needsD [OF assms(3)])
qed

lemma ReadBitsUnsafe_ex: "0 < k \<Longrightarrow> pos + k \<le> 8 * length buf \<Longrightarrow> \<exists>v. ReadBitsUnsafe buf pos k = Ok (v, pos + k)"
  using ReadBitsUnsafe_spec [of pos k buf] by simp

lemma needs_ReadBitsUnsafe:
  "0 < k \<Longrightarrow> k \<le> n \<Longrightarrow> (\<And>x. needs (n - k) buf (f x)) \<Longrightarrow>
    needs n buf (\<lambda>pos. res_bind (ReadBitsUnsafe buf pos k) (\<lambda>(x, pos). f x pos))"
  by (rule needs_step [OF ReadBitsUnsafe_ex]) simp_all

lemma ReadFlagUnsafe_ex: "pos + 1 \<le> 8 * length buf \<Longrightarrow> \<exists>v. ReadFlagUnsafe buf pos = Ok (v, pos + 1)"
  by (simp add: ReadFlagUnsafe_def pos_simps bit_read(1))

lemma needs_ReadFlagUnsafe:
  "1 \<le> n \<Longrightarrow> (\<And>x. needs (n - 1) buf (f x)) \<Longrightarrow>
    needs n buf (\<lambda>pos. res_bind (ReadFlagUnsafe buf pos) (\<lambda>(x, pos). f x pos))"
  by (rule needs_step [OF ReadFlagUnsafe_ex]) simp_all

lemma needs_golomb [needs]: "needs n buf (ReadGolombUnsigned buf)" "needs n buf (ReadGolombSigned buf)"
proof -
  have "inside pos (8 * length buf) (ReadGolombUnsigned buf pos)" "inside pos (8 * length buf) (ReadGolombSigned buf pos)"
    if "pos + n \<le> 8 * length buf" for pos
    using ReadGolombUnsigned_bound [OF add_leD1 [OF that]] ReadGolombSigned_bound [OF add_leD1 [OF that]]
    by (intro insideI; blast intro: less_imp_le)+
  then show "needs n buf (ReadGolombUnsigned buf)" "needs n buf (ReadGolombSigned buf)" by (simp_all add: needs_def)
qed

lemma needs_ReadFlag [needs]: "needs n buf (ReadFlag buf)" by (rule needsI) (simp add: ReadFlag_spec)

lemma needs_ReadBits: "0 < k \<Longrightarrow> needs n buf (\<lambda>pos. ReadBits buf pos k)" by (rule needsI) (simp add: ReadBits_spec)

lemma needs_case [needs]:
  "(\<And>a b. x = (a, b) \<Longrightarrow> needs n buf (f a b)) \<Longrightarrow> needs n buf (case x of (a, b) \<Rightarrow> f a b)"
  "(\<And>a b. x = (a, b) \<Longrightarrow> needs n buf (g a b)) \<Longrightarrow> needs n buf (\<lambda>pos. case x of (a, b) \<Rightarrow> g a b pos)"
  by (cases x; simp)+

lemma needs_HasSpace_numeral [needs]:
  "needs (numeral k) buf m \<Longrightarrow> needs n buf (\<lambda>pos. res_bind (HasSpace buf pos (numeral k)) (\<lambda>_. m pos))"
  using needs_HasSpace [of "numeral k"] by simp

lemma needs_scaling [needs]: "needs 0 buf (\<lambda>pos. scaling_loop buf pos j n l x xs d)"
proof (induction n arbitrary: j l x xs d)
  case (Suc n)
  show ?case unfolding scaling_loop.simps Let_def by (rule needs Suc.IH)+
qed (simp add: needs)

lemma needs_hrd_loop [needs]: "needs 0 buf (\<lambda>pos. hrd_loop buf pos n)"
proof (induction n)
  case (Suc n)
  show ?case unfolding hrd_loop.simps by (rule needs Suc.IH)+
qed (simp add: needs)

lemma needs_hrd [needs]: "needs 0 buf (SPS_HRD_unmarshal buf)"
  unfolding SPS_HRD_unmarshal_def arith_simps
  by ((rule needs_ReadBitsUnsafe, simp, simp) | rule needs)+

lemma numeral_eqs: "32 + 32 + 1 = (65 :: int)" by simp

lemma needs_timing [needs]: "needs 0 buf (SPS_TimingInfo_unmarshal buf)"
  unfolding SPS_TimingInfo_unmarshal_def numeral_eqs
  by ((rule needs_ReadBitsUnsafe, simp, simp) | (rule needs_ReadFlagUnsafe, simp) | rule needs)+

lemma needs_restriction [needs]: "needs 0 buf (SPS_BitstreamRestriction_unmarshal buf)"
  unfolding SPS_BitstreamRestriction_unmarshal_def by (rule needs)+

lemma needs_cropping [needs]: "needs 0 buf (SPS_FrameCropping_unmarshal buf)"
  unfolding SPS_FrameCropping_unmarshal_def by (rule needs)+

lemma needs_optional [needs]: "needs 0 buf (m buf) \<Longrightarrow> needs n buf (optional m buf)"
  unfolding optional_def by (rule needs | assumption)+

lemma needs_aspect [needs]: "needs 0 buf (vui_aspect buf v)"
  unfolding vui_aspect_def Let_def
  by ((rule needs_ReadBitsUnsafe, simp, simp) | (rule needs_ReadBits, simp) | rule needs)+

lemma needs_overscan [needs]: "needs 0 buf (vui_overscan buf v)"
  unfolding vui_overscan_def Let_def by (rule needs)+

lemma needs_signal [needs]: "needs 0 buf (vui_signal buf v)"
  unfolding vui_signal_def Let_def
  by ((rule needs_ReadBitsUnsafe, simp, simp) | (rule needs_ReadFlagUnsafe, simp) | rule needs)+

lemma needs_chroma [needs]: "needs 0 buf (vui_chroma buf v)"
  unfolding vui_chroma_def Let_def by (rule needs)+

lemma needs_vui [needs]: "needs 0 buf (SPS_VUI_unmarshal buf)"
  unfolding SPS_VUI_unmarshal_def by (rule needs)+

lemma needs_list [needs]: "needs 0 buf (\<lambda>pos. readScalingList buf pos n)"
  unfolding readScalingList_def by (rule needs)

lemma needs_sps_scaling [needs]: "needs 0 buf (\<lambda>pos. sps_scaling buf s pos i n)"
proof (induction n arbitrary: s i)
  case (Suc n)
  show ?case unfolding sps_scaling.simps by (rule needs Suc.IH)+
qed (simp add: needs)

lemma needs_sps_chroma [needs]: "needs 0 buf (sps_chroma buf s)"
  unfolding sps_chroma_def Let_def by (rule needs)+

lemma needs_offsets [needs]: "needs 0 buf (\<lambda>pos. offsets_loop buf pos n)"
proof (induction n)
  case (Suc n)
  show ?case unfolding offsets_loop.simps by (rule needs Suc.IH)+
qed (simp add: needs)

lemma needs_sps_poc [needs]: "needs 0 buf (sps_poc buf s)"
  unfolding sps_poc_def Let_def by (rule needs)+

lemma needs_sps_frame [needs]: "needs 0 buf (sps_frame buf s)"
  unfolding sps_frame_def by (rule needs)+

lemma needs_sps_body: "needs 0 buf (sps_body buf s)"
  unfolding sps_body_def by (rule needs)+

lemma SPS_Unmarshal_total: "SPS_Unmarshal s buf \<noteq> Panic"
proof -
  have "res_bind (sps_body b s' 0) (\<lambda>(s, pos). Ok s) \<noteq> Panic" for b s'
    using needsD [OF needs_sps_body, of 0 b s'] by (intro res_bind_not_Panic) auto
  then show ?thesis unfolding SPS_Unmarshal_def Let_def by (simp del: res_bind_Ok_iff)
qed

text \<open>No byte string makes the parser of the parameter sets panic.\<close>

theorem SPS_Unmarshal_safe: "SPS_Unmarshal s buf \<noteq> Panic"
  by (rule SPS_Unmarshal_total)

end
