(* ===== verification/Mc_Code.thy ===== *)
theory Mc_Code
  imports Mc_Bits
begin

text \<open>
  The codes of the standards that \<^verbatim>\<open>mediacommon\<close> reads, as lists of bits: flags, fields of fixed size and Exp-Golomb
  numbers.  A code of a larger structure is the codes of its parts one after the other, and a reader written in the
  same order reads it; the rules \<open>codes\<close> follow the text of a reader.
\<close>

section \<open>Readers and codes\<close>

definition at_pos :: "byte list \<Rightarrow> nat \<Rightarrow> bool list \<Rightarrow> bool" where
  "at_pos buf pos bs \<longleftrightarrow> bits_at buf pos (length bs) = bs"

lemma at_pos_append: "at_pos buf pos (xs @ ys) \<longleftrightarrow> at_pos buf pos xs \<and> at_pos buf (pos + length xs) ys"
proof -
  have "bits_at buf pos (length (xs @ ys)) = bits_at buf pos (length xs) @ bits_at buf (pos + length xs) (length ys)"
    using bits_at_split [of "length xs" "length (xs @ ys)" pos buf] by simp
  moreover have "length (bits_at buf pos (length xs)) = length xs"
    if "bits_at buf pos (length xs) @ bits_at buf (pos + length xs) (length ys) = xs @ ys"
    using arg_cong [OF that, of length] by simp
  ultimately show ?thesis unfolding at_pos_def by (metis append_eq_append_conv)
qed

lemma at_pos_le:
  assumes "at_pos buf pos bs" "bs \<noteq> []"
  shows "pos + length bs \<le> 8 * length buf"
proof -
  have "length (bits_at buf pos (length bs)) = length bs" using assms(1) by (simp add: at_pos_def)
  then have "min (8 * length buf - pos) (length bs) = length bs" by simp
  moreover have "0 < length bs" using assms(2) by simp
  ultimately show ?thesis by linarith
qed

lemma at_pos_self: "bits_of buf = bs @ t \<Longrightarrow> at_pos buf 0 bs" by (simp add: at_pos_def)

text \<open>The reader takes the bits \<open>bs\<close>, wherever they are, for \<open>x\<close>.\<close>

definition codes :: "(byte list \<Rightarrow> nat \<Rightarrow> ('a \<times> nat) res) \<Rightarrow> 'a \<Rightarrow> bool list \<Rightarrow> bool" where
  "codes rd' x bs \<longleftrightarrow> (\<forall>buf pos. at_pos buf pos bs \<longrightarrow> rd' buf pos = Ok (x, pos + length bs))"

named_theorems codes

lemma codesD: "codes r x bs \<Longrightarrow> at_pos buf pos bs \<Longrightarrow> r buf pos = Ok (x, pos + length bs)"
  by (simp add: codes_def)

lemma codesI: "(\<And>buf pos. at_pos buf pos bs \<Longrightarrow> r buf pos = Ok (x, pos + length bs)) \<Longrightarrow> codes r x bs"
  by (simp add: codes_def)

lemma codes_Ok [codes]: "codes (\<lambda>buf pos. Ok (x, pos)) x []"
  by (rule codesI) simp

lemma codes_eq: "x = y \<Longrightarrow> codes (\<lambda>buf pos. Ok (x, pos)) y []"
  by (simp add: codes_Ok)

lemma codes_bind [codes]:
  "codes m x bs \<Longrightarrow> codes (f x) y cs \<Longrightarrow> codes (\<lambda>buf pos. res_bind (m buf pos) (\<lambda>(x, pos). f x buf pos)) y (bs @ cs)"
  by (rule codesI) (simp add: at_pos_append codesD add.assoc)

lemma codes_if [codes]:
  "(c \<Longrightarrow> codes a x bs) \<Longrightarrow> (\<not> c \<Longrightarrow> codes b x cs) \<Longrightarrow>
    codes (\<lambda>buf pos. if c then a buf pos else b buf pos) x (if c then bs else cs)"
  by simp

lemma codes_HasSpace:
  assumes "codes m x bs" "bs \<noteq> []" "n \<le> int (length bs)"
  shows "codes (\<lambda>buf pos. res_bind (HasSpace buf pos n) (\<lambda>_. m buf pos)) x bs"
proof (rule codesI)
  fix buf pos assume a: "at_pos buf pos bs"
  have "int pos + int (length bs) \<le> 8 * int (length buf)" using at_pos_le [OF a assms(2)] by linarith
  then have "HasSpace buf pos n = Ok ()" using assms(3) by (simp add: HasSpace_def)
  then show "res_bind (HasSpace buf pos n) (\<lambda>_. m buf pos) = Ok (x, pos + length bs)" using codesD [OF assms(1) a] by simp
qed

section \<open>Flags and fields\<close>

lemma codes_flag [codes]: "codes ReadFlag b [b]" "codes ReadFlagUnsafe b [b]"
proof -
  have "ReadFlag buf pos = Ok (b, pos + 1) \<and> ReadFlagUnsafe buf pos = Ok (b, pos + 1)" if a: "at_pos buf pos [b]" for buf pos
  proof -
    have p: "pos < 8 * length buf" using at_pos_le [OF a] by simp
    have "bits_of buf ! pos = b" using a p by (simp add: at_pos_def take_Suc hd_drop_conv_nth)
    then show ?thesis using p
      by (simp add: ReadFlag_spec ReadFlagUnsafe_def pos_simps bit_read flag_bit)
  qed
  then show "codes ReadFlag b [b]" "codes ReadFlagUnsafe b [b]" by (simp_all add: codes_def)
qed

lemma of_nat_word_bits:
  fixes x :: "'a::len word"
  assumes "unat x < 2 ^ n"
  shows "(of_nat (bits_val (word_bits n x)) :: 'b::len word) = ucast x"
proof -
  have "take_bit n x = x"
    by (rule bit_word_eqI) (use small_word_bit [OF assms] in \<open>auto simp: bit_simps\<close>)
  then show ?thesis by (simp add: bits_val_word_bits)
qed

lemma codes_bits:
  fixes x :: "'a::len word"
  assumes "0 < n" "unat x < 2 ^ n"
  shows "codes (\<lambda>buf pos. ReadBitsUnsafe buf pos n) (ucast x) (word_bits n x)" (is ?unsafe)
    and "codes (\<lambda>buf pos. ReadBits buf pos n) (ucast x) (word_bits n x)" (is ?safe)
proof -
  have "ReadBitsUnsafe buf pos n = Ok (ucast x, pos + n) \<and> ReadBits buf pos n = Ok (ucast x, pos + n)"
    if a: "at_pos buf pos (word_bits n x)" for buf pos
  proof -
    have p: "pos + n \<le> 8 * length buf" "pos \<noteq> 8 * length buf"
      using at_pos_le [OF a] assms(1) by (cases "word_bits n x"; simp add: word_bits_def)+
    have "bits_at buf pos n = word_bits n x" using a by (simp add: at_pos_def)
    then show ?thesis using p by (simp add: ReadBitsUnsafe_spec ReadBits_spec of_nat_word_bits [OF assms(2)])
  qed
  then show ?unsafe ?safe by (simp_all add: codes_def)
qed

section \<open>Exp-Golomb numbers\<close>

text \<open>The binary digits of a number, the highest first, and the code of the standard.\<close>

fun nat_bits :: "nat \<Rightarrow> bool list" where
  "nat_bits n = (if n = 0 then [] else nat_bits (n div 2) @ [odd n])"

declare nat_bits.simps [simp del]

lemma nat_bits_0 [simp]: "nat_bits 0 = []" by (subst nat_bits.simps) simp
lemma nat_bits_1 [simp]: "nat_bits (Suc 0) = [True]" by (subst nat_bits.simps) simp

definition ue :: "u32 \<Rightarrow> bool list" where
  "ue v = (let bs = nat_bits (unat v + 1) in replicate (length bs - 1) False @ bs)"

definition se :: "32 word \<Rightarrow> bool list" where
  "se v = ue (if 0 < sint v then 2 * v - 1 else - (2 * v))"

definition se_ok :: "32 word \<Rightarrow> bool" where
  "se_ok v \<longleftrightarrow> \<bar>sint v\<bar> < 2 ^ 30"

lemma bits_val_nat_bits: "bits_val (nat_bits n) = n"
proof (induction n rule: nat_bits.induct)
  case (1 n)
  then show ?case by (cases "n = 0") (simp_all add: nat_bits.simps [of n] bits_val_snoc)
qed

lemma nat_bits_Cons: "0 < n \<Longrightarrow> \<exists>ys. nat_bits n = True # ys"
proof (induction n rule: nat_bits.induct)
  case (1 n)
  show ?case
  proof (cases "n = 1")
    case True
    then show ?thesis by simp
  next
    case False
    then obtain ys where "nat_bits (n div 2) = True # ys" using 1 by fastforce
    then show ?thesis using 1(2) by (simp add: nat_bits.simps [of n])
  qed
qed

lemma length_nat_bits: "n < 2 ^ k \<Longrightarrow> length (nat_bits n) \<le> k"
proof (induction k arbitrary: n)
  case 0
  then show ?case by (simp add: nat_bits.simps)
next
  case (Suc k)
  then have "length (nat_bits (n div 2)) \<le> k" by simp
  then show ?case by (simp add: nat_bits.simps [of n])
qed

lemma codes_ue [codes]: "codes ReadGolombUnsigned v (ue v)"
proof (rule codesI)
  fix buf pos assume a: "at_pos buf pos (ue v)"
  obtain ys where ys: "nat_bits (unat v + 1) = True # ys" using nat_bits_Cons [of "unat v + 1"] by auto
  let ?k = "length ys"
  have v: "unat v + 1 = 2 ^ ?k + bits_val ys"
  proof -
    have "bits_val (True # ys) = bits_val [True] * 2 ^ ?k + bits_val ys" using bits_val_append [of "[True]" ys] by simp
    also have "bits_val [True] = 1" by (simp add: bits_val_def)
    finally show ?thesis using bits_val_nat_bits [of "unat v + 1", unfolded ys] by simp
  qed
  have "unat v + 1 < 2 ^ 33" using unsigned_less [of v, where 'a = nat] by simp
  then have k: "?k \<le> 32" using length_nat_bits [of "unat v + 1" 33, unfolded ys] by simp
  have u: "ue v = replicate ?k False @ True # ys" by (simp only: ue_def ys Let_def) simp
  have b: "bits_at buf pos (2 * ?k + 1) = replicate ?k False @ True # ys"
    using a by (simp add: at_pos_def u mult_2)
  have "(of_nat (unat v + 1) :: u32) = push_bit ?k 1 + of_nat (bits_val ys)" unfolding v by simp
  then have "push_bit ?k 1 - 1 + of_nat (bits_val ys) = v" by (simp add: algebra_simps)
  then show "ReadGolombUnsigned buf pos = Ok (v, pos + length (ue v))"
    using ReadGolombUnsigned_spec [OF b refl k] by (simp add: u)
qed

lemma and_1_odd: "u AND 1 \<noteq> 0 \<longleftrightarrow> odd (u :: u32)"
  by (simp add: and_one_eq mod2_eq_if)

lemma codes_se [codes]:
  assumes "se_ok v"
  shows "codes ReadGolombSigned v (se v)"
proof -
  let ?u = "if 0 < sint v then 2 * v - 1 else - (2 * v) :: u32"
  have b: "- (2 ^ 30) < sint v" "sint v < 2 ^ 30" using assms by (auto simp: se_ok_def)
  have s2: "sint (2 * v) = 2 * sint v"
    using b by (simp add: sint_word_ariths signed_take_bit_int_eq_self)
  have "(if ?u AND 1 \<noteq> 0 then sint (?u + 1) sdiv 2 else sint (- ?u) sdiv 2) = sint v"
  proof (cases "0 < sint v")
    case True
    have "odd ?u" using True by simp
    then show ?thesis using True b s2 unfolding and_1_odd by (simp add: signed_divide_int_def)
  next
    case False
    have even: "even ?u" using False by simp
    have "- (- (2 * x) div 2) = x" for x :: int by simp
    then show ?thesis using False b s2 even unfolding and_1_odd by (simp add: signed_divide_int_def sgn_if)
  qed
  then have "word_of_int (if ?u AND 1 \<noteq> 0 then sint (?u + 1) sdiv 2 else sint (- ?u) sdiv 2) = v" by simp
  then show ?thesis
    by (intro codesI) (simp add: ReadGolombSigned_def codesD [OF codes_ue] se_def)
qed

section \<open>Bits into bytes\<close>

function pack :: "bool list \<Rightarrow> byte list" where
  "pack bs = (if bs = [] then [] else of_nat (bits_val (take 8 (bs @ replicate 7 False))) # pack (drop 8 bs))"
  by pat_completeness auto
termination
  by (relation "measure length") auto

declare pack.simps [simp del]

lemma bits_of_Cons: "bits_of (b # bs) = bits_of_byte b @ bits_of bs" by (simp add: bits_of_def)

lemma bits_of_byte_val: "length bs = 8 \<Longrightarrow> bits_of_byte (of_nat (bits_val bs)) = bs"
  by (rule nth_equalityI) (auto simp: bits_of_byte_def bit_simps bit_bits_val simp del: upt_Suc)

lemma bits_of_pack: "\<exists>k. bits_of (pack bs) = bs @ replicate k False"
proof (induction bs rule: pack.induct)
  case (1 bs)
  show ?case
  proof (cases "bs = []")
    case True
    then show ?thesis by (simp add: pack.simps bits_of_def)
  next
    case False
    then obtain k where k: "bits_of (pack (drop 8 bs)) = drop 8 bs @ replicate k False" using 1 by blast
    let ?b = "take 8 (bs @ replicate 7 False)"
    have "1 \<le> length bs" using False by (cases bs) simp_all
    then have "length ?b = 8" by simp
    then have b: "bits_of (pack bs) = ?b @ drop 8 bs @ replicate k False"
      using False k by (subst pack.simps) (simp only: if_False bits_of_Cons bits_of_byte_val)
    have "?b = take 8 bs @ replicate (min (8 - length bs) 7) False" by (simp add: min_def)
    then have "bits_of (pack bs) = bs @ replicate (min (8 - length bs) 7 + k) False" if "length bs \<le> 8"
      using b that by (simp add: replicate_add)
    moreover have "bits_of (pack bs) = bs @ replicate k False" if "8 \<le> length bs"
      using b that append_take_drop_id [of 8 bs] by (simp del: append_take_drop_id)
    ultimately show ?thesis by (meson nat_le_linear)
  qed
qed

section \<open>The contract of a reader\<close>

text \<open>What a reader and its code promise each other; every reader of a parameter set keeps it.\<close>

locale field_code =
  fixes ok :: "'a \<Rightarrow> bool" and enc :: "'a \<Rightarrow> bool list" and rd' :: "byte list \<Rightarrow> nat \<Rightarrow> ('a \<times> nat) res"
  assumes reads: "ok x \<Longrightarrow> codes rd' x (enc x)"
begin

lemma packed: "ok x \<Longrightarrow> rd' (pack (enc x @ t)) 0 = Ok (x, length (enc x))"
proof -
  assume x: "ok x"
  obtain k where "bits_of (pack (enc x @ t)) = (enc x @ t) @ replicate k False" using bits_of_pack by blast
  then have "at_pos (pack (enc x @ t)) 0 (enc x)" by (intro at_pos_self [where t = "t @ replicate k False"]) simp
  from codesD [OF reads [OF x] this] show ?thesis by simp
qed

text \<open>No code is the beginning of another.\<close>

lemma prefix_free: "ok x \<Longrightarrow> ok y \<Longrightarrow> enc x @ t = enc y @ t' \<Longrightarrow> x = y \<and> t = t'"
  using packed [of x t] packed [of y t'] by simp

lemma inj: "ok x \<Longrightarrow> ok y \<Longrightarrow> enc x = enc y \<Longrightarrow> x = y"
  using prefix_free [of x y "[]" "[]"] by simp

end

interpretation ue: field_code "\<lambda>_. True" ue ReadGolombUnsigned
  by unfold_locales (rule codes_ue)

interpretation se: field_code se_ok se ReadGolombSigned
  by unfold_locales (rule codes_se)

interpretation flag: field_code "\<lambda>_. True" "\<lambda>b. [b]" ReadFlag
  by unfold_locales (rule codes_flag)

end
