(* ===== verification/Mc_SPS_Code.thy ===== *)
theory Mc_SPS_Code
  imports Mc_SPS Mc_Code
begin

text \<open>
  The code of the sequence parameter set as the standard lists it (ITU-T H.264, 7.3.2.1.1 and annex E), and the
  theorem that \<^verbatim>\<open>sps.go\<close> reads every well-formed set from its code.
\<close>

section \<open>The parts of the VUI\<close>

lemma cast_back [simp]: "ucast (ucast (x :: byte) :: u64) = x" "ucast (ucast (y :: u16) :: u64) = y" "ucast (ucast (z :: u32) :: u64) = z"
  by (rule bit_word_eqI, auto simp: bit_simps)+

lemma word_bits_Nil [simp]: "word_bits n v = [] \<longleftrightarrow> n = 0" by (simp add: word_bits_def)

lemmas codes_unsafe = codes_bits(1) [where 'a = 8] codes_bits(1) [where 'a = 16] codes_bits(1) [where 'a = 32]

fun hrd_items :: "u32 list \<Rightarrow> u32 list \<Rightarrow> bool list \<Rightarrow> bool list" where
  "hrd_items (b # bs) (c # cs) (f # fs) = ue b @ ue c @ [f] @ hrd_items bs cs fs @ []"
| "hrd_items bs cs fs = []"

definition hrd_ok :: "SPS_HRD \<Rightarrow> bool" where
  "hrd_ok h \<longleftrightarrow> \<not> CpbCntMinus1 h > 31 \<and> unat (BitRateScale h) < 2 ^ 4 \<and> unat (CpbSizeScale h) < 2 ^ 4 \<and>
     length (BitRateValueMinus1 h) = unat (CpbCntMinus1 h) + 1 \<and> length (CpbSizeValueMinus1 h) = unat (CpbCntMinus1 h) + 1 \<and>
     length (CbrFlag h) = unat (CpbCntMinus1 h) + 1 \<and> unat (InitialCpbRemovalDelayLengthMinus1 h) < 2 ^ 5 \<and>
     unat (CpbRemovalDelayLengthMinus1 h) < 2 ^ 5 \<and> unat (DpbOutputDelayLengthMinus1 h) < 2 ^ 5 \<and>
     unat (TimeOffsetLength h) < 2 ^ 5"

definition hrd_code :: "SPS_HRD \<Rightarrow> bool list" where
  "hrd_code h = ue (CpbCntMinus1 h) @ word_bits 4 (BitRateScale h) @ word_bits 4 (CpbSizeScale h) @
     hrd_items (BitRateValueMinus1 h) (CpbSizeValueMinus1 h) (CbrFlag h) @
     word_bits 5 (InitialCpbRemovalDelayLengthMinus1 h) @ word_bits 5 (CpbRemovalDelayLengthMinus1 h) @
     word_bits 5 (DpbOutputDelayLengthMinus1 h) @ word_bits 5 (TimeOffsetLength h) @ []"

definition timing_code :: "SPS_TimingInfo \<Rightarrow> bool list" where
  "timing_code t = word_bits 32 (NumUnitsInTick t) @ word_bits 32 (TimeScale t) @ [FixedFrameRateFlag t] @ []"

definition restriction_code :: "SPS_BitstreamRestriction \<Rightarrow> bool list" where
  "restriction_code r = [MotionVectorsOverPicBoundariesFlag r] @ ue (MaxBytesPerPicDenom r) @ ue (MaxBitsPerMbDenom r) @
     ue (Log2MaxMvLengthHorizontal r) @ ue (Log2MaxMvLengthVertical r) @ ue (MaxNumReorderFrames r) @
     ue (MaxDecFrameBuffering r) @ []"

definition cropping_code :: "SPS_FrameCropping \<Rightarrow> bool list" where
  "cropping_code c = ue (LeftOffset c) @ ue (RightOffset c) @ ue (TopOffset c) @ ue (BottomOffset c) @ []"

lemma codes_hrd_loop:
  "length bs = n \<Longrightarrow> length cs = n \<Longrightarrow> length fs = n \<Longrightarrow> codes (\<lambda>buf pos. hrd_loop buf pos n) (bs, cs, fs) (hrd_items bs cs fs)"
proof (induction n arbitrary: bs cs fs)
  case 0
  then show ?case by (simp add: codes_Ok)
next
  case (Suc n)
  then obtain b bs' c cs' f fs' where e: "bs = b # bs'" "cs = c # cs'" "fs = f # fs'" by (metis length_Suc_conv)
  have ih: "codes (\<lambda>buf pos. hrd_loop buf pos n) (bs', cs', fs') (hrd_items bs' cs' fs')" using Suc e by simp
  show ?case unfolding e hrd_items.simps hrd_loop.simps
    by (rule codes ih codes_eq | simp only: prod.case)+
qed

lemma codes_hrd: "hrd_ok h \<Longrightarrow> codes SPS_HRD_unmarshal h (hrd_code h)"
proof -
  assume ok: "hrd_ok h"
  then have f: "unat (BitRateScale h) < 2 ^ 4" "unat (CpbSizeScale h) < 2 ^ 4" "unat (InitialCpbRemovalDelayLengthMinus1 h) < 2 ^ 5"
     "unat (CpbRemovalDelayLengthMinus1 h) < 2 ^ 5" "unat (DpbOutputDelayLengthMinus1 h) < 2 ^ 5"
     "unat (TimeOffsetLength h) < 2 ^ 5" "\<not> CpbCntMinus1 h > 31"
    by (auto simp only: hrd_ok_def)
  have l: "codes (\<lambda>buf pos. hrd_loop buf pos (unat (CpbCntMinus1 h) + 1))
      (BitRateValueMinus1 h, CpbSizeValueMinus1 h, CbrFlag h) (hrd_items (BitRateValueMinus1 h) (CpbSizeValueMinus1 h) (CbrFlag h))"
    by (rule codes_hrd_loop) (use ok in \<open>simp_all only: hrd_ok_def\<close>)
  show ?thesis unfolding SPS_HRD_unmarshal_def hrd_code_def
    by (rule codes_HasSpace codes codes_unsafe f l codes_eq zero_less_numeral | simp only: prod.case f if_False | simp; fail)+
qed

lemma codes_timing: "codes SPS_TimingInfo_unmarshal t (timing_code t)"
proof -
  have f: "unat (NumUnitsInTick t) < 2 ^ 32" "unat (TimeScale t) < 2 ^ 32"
    using unsigned_less [of "NumUnitsInTick t", where 'a = nat] unsigned_less [of "TimeScale t", where 'a = nat] by simp_all
  show ?thesis unfolding SPS_TimingInfo_unmarshal_def timing_code_def
    by (rule codes_HasSpace codes codes_unsafe f codes_eq zero_less_numeral | simp; fail)+
qed

lemma codes_restriction: "codes SPS_BitstreamRestriction_unmarshal r (restriction_code r)"
  unfolding SPS_BitstreamRestriction_unmarshal_def restriction_code_def
  by (rule codes codes_eq | simp; fail)+

lemma codes_cropping: "codes SPS_FrameCropping_unmarshal c (cropping_code c)"
  unfolding SPS_FrameCropping_unmarshal_def cropping_code_def
  by (rule codes codes_eq | simp; fail)+

section \<open>The VUI\<close>

definition optional_code :: "('a \<Rightarrow> bool list) \<Rightarrow> 'a option \<Rightarrow> bool list" where
  "optional_code enc x = [x \<noteq> None] @ (case x of Some y \<Rightarrow> enc y | None \<Rightarrow> [])"

lemma codes_optional: "(\<And>y. x = Some y \<Longrightarrow> codes m y (enc y)) \<Longrightarrow> codes (optional m) x (optional_code enc x)"
proof (cases x)
  case None
  have "codes (optional m) None ([False] @ [])" unfolding optional_def
    by (rule codes_bind, rule codes_flag, simp only: if_False, rule codes)
  then show ?thesis by (simp add: None optional_code_def)
next
  case (Some y)
  assume "\<And>y. x = Some y \<Longrightarrow> codes m y (enc y)"
  then have y: "codes m y (enc y)" using Some by simp
  have "codes (optional m) (Some y) ([True] @ enc y @ [])" unfolding optional_def
    by (intro codes_bind [OF codes_flag(1)]) (simp only: if_True, rule codes_bind, rule y, rule codes)
  then show ?thesis by (simp add: Some optional_code_def)
qed

definition aspect_code :: "SPS_VUI \<Rightarrow> bool list" where
  "aspect_code v = [AspectRatioInfoPresentFlag v] @
     (if AspectRatioInfoPresentFlag v then
        word_bits 8 (AspectRatioIdc v) @
          (if AspectRatioIdc v = 255 then word_bits 16 (SarWidth v) @ word_bits 16 (SarHeight v) @ [] else [])
      else [])"

definition overscan_code :: "SPS_VUI \<Rightarrow> bool list" where
  "overscan_code v = [OverscanInfoPresentFlag v] @ (if OverscanInfoPresentFlag v then [OverscanAppropriateFlag v] @ [] else [])"

definition signal_code :: "SPS_VUI \<Rightarrow> bool list" where
  "signal_code v = [VideoSignalTypePresentFlag v] @
     (if VideoSignalTypePresentFlag v then
        word_bits 3 (VideoFormat v) @ [VideoFullRangeFlag v] @ [ColourDescriptionPresentFlag v] @
          (if ColourDescriptionPresentFlag v then
             word_bits 8 (ColourPrimaries v) @ word_bits 8 (TransferCharacteristics v) @ word_bits 8 (MatrixCoefficients v) @ []
           else [])
      else [])"

definition chroma_code :: "SPS_VUI \<Rightarrow> bool list" where
  "chroma_code v = [ChromaLocInfoPresentFlag v] @
     (if ChromaLocInfoPresentFlag v then ue (ChromaSampleLocTypeTopField v) @ ue (ChromaSampleLocTypeBottomField v) @ [] else [])"

text \<open>What is not announced is zero.\<close>

definition vui_ok :: "SPS_VUI \<Rightarrow> bool" where
  "vui_ok v \<longleftrightarrow>
     (\<not> AspectRatioInfoPresentFlag v \<longrightarrow> AspectRatioIdc v = 0) \<and>
     (\<not> (AspectRatioInfoPresentFlag v \<and> AspectRatioIdc v = 255) \<longrightarrow> SarWidth v = 0 \<and> SarHeight v = 0) \<and>
     (\<not> OverscanInfoPresentFlag v \<longrightarrow> \<not> OverscanAppropriateFlag v) \<and> unat (VideoFormat v) < 2 ^ 3 \<and>
     (\<not> VideoSignalTypePresentFlag v \<longrightarrow> VideoFormat v = 0 \<and> \<not> VideoFullRangeFlag v \<and> \<not> ColourDescriptionPresentFlag v) \<and>
     (\<not> ColourDescriptionPresentFlag v \<longrightarrow> ColourPrimaries v = 0 \<and> TransferCharacteristics v = 0 \<and> MatrixCoefficients v = 0) \<and>
     (\<not> ChromaLocInfoPresentFlag v \<longrightarrow> ChromaSampleLocTypeTopField v = 0 \<and> ChromaSampleLocTypeBottomField v = 0) \<and>
     (\<forall>h. NalHRD v = Some h \<longrightarrow> hrd_ok h) \<and> (\<forall>h. VclHRD v = Some h \<longrightarrow> hrd_ok h) \<and>
     (NalHRD v = None \<and> VclHRD v = None \<longrightarrow> \<not> LowDelayHrdFlag v)"

definition vui_code :: "SPS_VUI \<Rightarrow> bool list" where
  "vui_code v = aspect_code v @ overscan_code v @ signal_code v @ chroma_code v @
     optional_code timing_code (TimingInfo v) @ optional_code hrd_code (NalHRD v) @ optional_code hrd_code (VclHRD v) @
     (if NalHRD v \<noteq> None \<or> VclHRD v \<noteq> None then [LowDelayHrdFlag v] else []) @ [PicStructPresentFlag v] @
     optional_code restriction_code (BitstreamRestriction v) @ []"

lemma word_small: "unat (b :: byte) < 2 ^ 8" "unat (w :: u16) < 2 ^ 16"
  using unsigned_less [of b, where 'a = nat] unsigned_less [of w, where 'a = nat] by simp_all

lemma codes_if_true: "b \<Longrightarrow> codes m x bs \<Longrightarrow> codes m x (if b then bs else cs)" by simp
lemma codes_if_false: "\<not> b \<Longrightarrow> codes m x cs \<Longrightarrow> codes m x (if b then bs else cs)" by simp

lemma codes_aspect:
  assumes "vui_ok x" "v = SPS_VUI_zero"
  shows "codes (\<lambda>buf. vui_aspect buf v) (v\<lparr>AspectRatioInfoPresentFlag := AspectRatioInfoPresentFlag x,
    AspectRatioIdc := AspectRatioIdc x, SarWidth := SarWidth x, SarHeight := SarHeight x\<rparr>) (aspect_code x)"
proof -
  have idc: "AspectRatioIdc (v\<lparr>AspectRatioInfoPresentFlag := f, AspectRatioIdc := b\<rparr>) = b" for f b by simp
  show ?thesis unfolding vui_aspect_def aspect_code_def Let_def
    by (rule codes_HasSpace codes codes_bits(2) codes_unsafe word_small codes_eq zero_less_numeral
      | simp only: cast_back idc
      | use assms in \<open>simp add: vui_ok_def SPS_VUI_zero_def; fail\<close>)+
qed

lemma codes_overscan:
  assumes "vui_ok x" "\<not> OverscanAppropriateFlag v"
  shows "codes (\<lambda>buf. vui_overscan buf v) (v\<lparr>OverscanInfoPresentFlag := OverscanInfoPresentFlag x,
    OverscanAppropriateFlag := OverscanAppropriateFlag x\<rparr>) (overscan_code x)"
  unfolding vui_overscan_def overscan_code_def Let_def
  by (rule codes codes_eq | use assms in \<open>cases v; simp add: vui_ok_def; fail\<close>)+

lemma codes_signal:
  assumes "vui_ok x" "VideoFormat v = 0" "\<not> VideoFullRangeFlag v" "\<not> ColourDescriptionPresentFlag v"
    "ColourPrimaries v = 0" "TransferCharacteristics v = 0" "MatrixCoefficients v = 0"
  shows "codes (\<lambda>buf. vui_signal buf v) (v\<lparr>VideoSignalTypePresentFlag := VideoSignalTypePresentFlag x,
    VideoFormat := VideoFormat x, VideoFullRangeFlag := VideoFullRangeFlag x,
    ColourDescriptionPresentFlag := ColourDescriptionPresentFlag x, ColourPrimaries := ColourPrimaries x,
    TransferCharacteristics := TransferCharacteristics x, MatrixCoefficients := MatrixCoefficients x\<rparr>) (signal_code x)"
proof -
  have f: "unat (VideoFormat x) < 2 ^ 3" using assms(1) by (simp only: vui_ok_def)
  show ?thesis unfolding vui_signal_def signal_code_def Let_def
    by (rule codes_HasSpace codes codes_unsafe f word_small codes_eq zero_less_numeral
      | simp only: cast_back
      | use assms in \<open>cases v; simp add: vui_ok_def; fail\<close>)+
qed

lemma codes_chroma:
  assumes "vui_ok x" "ChromaSampleLocTypeTopField v = 0" "ChromaSampleLocTypeBottomField v = 0"
  shows "codes (\<lambda>buf. vui_chroma buf v) (v\<lparr>ChromaLocInfoPresentFlag := ChromaLocInfoPresentFlag x,
    ChromaSampleLocTypeTopField := ChromaSampleLocTypeTopField x,
    ChromaSampleLocTypeBottomField := ChromaSampleLocTypeBottomField x\<rparr>) (chroma_code x)"
  unfolding vui_chroma_def chroma_code_def Let_def
  by (rule codes codes_eq | use assms in \<open>cases v; simp add: vui_ok_def; fail\<close>)+

lemma codes_vui:
  assumes ok: "vui_ok x"
  shows "codes SPS_VUI_unmarshal x (vui_code x)"
proof -
  have h: "NalHRD x = Some h \<Longrightarrow> hrd_ok h" "VclHRD x = Some h \<Longrightarrow> hrd_ok h" for h using ok by (simp_all add: vui_ok_def)
  have l: "\<not> (NalHRD x \<noteq> None \<or> VclHRD x \<noteq> None) \<Longrightarrow> False = LowDelayHrdFlag x" using ok by (simp add: vui_ok_def)
  show ?thesis unfolding SPS_VUI_unmarshal_def vui_code_def
    by (rule codes_bind codes_aspect [OF ok] codes_overscan [OF ok] codes_signal [OF ok] codes_chroma [OF ok]
        codes_optional codes_timing codes_hrd codes_restriction h codes_flag codes_if codes_eq refl
      | assumption | use l in \<open>simp add: SPS_VUI_zero_def; fail\<close>)+
qed

section \<open>Scaling lists\<close>

text \<open>An entry is coded as the difference from the one before it, modulo 256; a first difference that leads to zero
  stands for the default list.\<close>

definition scale_delta :: "i32 \<Rightarrow> i32 \<Rightarrow> i32" where
  "scale_delta l x = word_of_int ((sint x - sint l + 128) mod 256 - 128)"

fun deltas :: "i32 \<Rightarrow> i32 list \<Rightarrow> bool list" where
  "deltas l [] = []"
| "deltas l (x # xs) = (se (scale_delta l x) @ []) @ deltas x xs"

definition scale_ok :: "i32 \<Rightarrow> bool" where "scale_ok x \<longleftrightarrow> 0 < sint x \<and> sint x < 256"

definition scaling_ok :: "nat \<Rightarrow> i32 list \<times> bool \<Rightarrow> bool" where
  "scaling_ok n m \<longleftrightarrow> length (fst m) = n \<and> (if snd m then fst m = replicate n 8 else \<forall>x \<in> set (fst m). scale_ok x)"

definition scaling_code :: "i32 list \<times> bool \<Rightarrow> bool list" where
  "scaling_code m = (if snd m then (se (- 8) @ []) @ [] else deltas 8 (fst m))"

lemma sint_word_of_int_small: "- (2 ^ 31) \<le> k \<Longrightarrow> k < 2 ^ 31 \<Longrightarrow> sint (word_of_int k :: i32) = k"
  by (simp add: sint_sbintrunc' signed_take_bit_int_eq_self)

lemma scale_delta:
  assumes "scale_ok l" "scale_ok x"
  shows "se_ok (scale_delta l x)" "word_of_int (sint (l + scale_delta l x + 256) smod 256) = x" "x \<noteq> 0"
proof -
  let ?d = "(sint x - sint l + 128) mod 256 - 128"
  have b: "0 < sint l" "sint l < 256" "0 < sint x" "sint x < 256" using assms by (simp_all add: scale_ok_def)
  have d: "- 128 \<le> ?d" "?d < 128" by simp_all
  have sd: "sint (scale_delta l x) = ?d" unfolding scale_delta_def using d by (intro sint_word_of_int_small) simp_all
  show "se_ok (scale_delta l x)" using d by (simp add: se_ok_def sd)
  have "l + scale_delta l x + 256 = word_of_int (sint l + ?d + 256)" by (simp add: scale_delta_def)
  moreover have "sint (word_of_int (sint l + ?d + 256) :: i32) = sint l + ?d + 256"
    using add_mono [OF add_mono [OF less_imp_le [OF b(1)] d(1)], of 256 256]
      add_strict_mono [OF add_strict_mono [OF b(2) d(2)], of 256 257]
    by (intro sint_word_of_int_small) simp_all
  ultimately have s: "sint (l + scale_delta l x + 256) = sint l + ?d + 256" by (simp only:)
  let ?q = "(sint x - sint l + 128) div 256"
  have "?d = sint x - sint l - 256 * ?q" using minus_mult_div_eq_mod [of "sint x - sint l + 128" 256] by linarith
  then have "sint l + ?d + 256 = sint x + 256 * (1 - ?q)" by (simp add: algebra_simps)
  then have "(sint l + ?d + 256) mod 256 = sint x mod 256" by (simp only: mod_mult_self2)
  then have "(sint l + ?d + 256) mod 256 = sint x" using b by simp
  moreover have "(sint l + ?d + 256) smod 256 = (sint l + ?d + 256) mod 256"
    using b d by (simp add: signed_modulo_int_def signed_divide_int_def minus_div_mult_eq_mod)
  ultimately show "word_of_int (sint (l + scale_delta l x + 256) smod 256) = x" by (simp add: s)
  show "x \<noteq> 0" using b by auto
qed

lemma scaling_rest: "scaling_loop buf pos j n l 0 acc d = Ok ((acc @ replicate n l, d), pos)"
  by (induction n arbitrary: j acc) (simp_all add: replicate_append_same [symmetric] del: replicate_append_same)

lemma codes_scaling_loop:
  "scale_ok l \<Longrightarrow> \<forall>x \<in> set xs. scale_ok x \<Longrightarrow> next' \<noteq> 0 \<Longrightarrow>
    codes (\<lambda>buf pos. scaling_loop buf pos j (length xs) l next' acc False) (acc @ xs, False) (deltas l xs)"
proof (induction xs arbitrary: j l next' acc)
  case Nil
  show ?case by (simp add: codes_Ok)
next
  case (Cons x xs)
  have ok: "scale_ok x" using Cons.prems(2) by simp
  note d = scale_delta [OF Cons.prems(1) ok]
  have 1: "codes (\<lambda>buf pos. res_bind (ReadGolombSigned buf pos) (\<lambda>(deltaScale, pos).
        Ok ((word_of_int (sint (l + deltaScale + 256) smod 256),
          j = 0 \<and> word_of_int (sint (l + deltaScale + 256) smod 256) = (0 :: i32)), pos)))
      (x, False) (se (scale_delta l x) @ [])"
    by (rule codes_bind, rule codes_se, rule d(1), rule codes_eq) (simp add: d(2,3))
  have ih: "codes (\<lambda>buf pos. scaling_loop buf pos (j + 1) (length xs) x x (acc @ [x]) False) ((acc @ [x]) @ xs, False) (deltas x xs)"
    by (rule Cons.IH) (use ok Cons.prems(2) d(3) in auto)
  have 2: "codes (\<lambda>buf pos. case (x, False) of (nextScale, useDefault) \<Rightarrow>
      scaling_loop buf pos (j + 1) (length xs) (if nextScale = 0 then l else nextScale) nextScale
        (acc @ [if nextScale = 0 then l else nextScale]) useDefault) (acc @ x # xs, False) (deltas x xs)"
    using ih d(3) by simp
  from codes_bind [OF 1, of "\<lambda>x buf pos. case x of (nextScale, useDefault) \<Rightarrow>
      scaling_loop buf pos (j + 1) (length xs) (if nextScale = 0 then l else nextScale) nextScale
        (acc @ [if nextScale = 0 then l else nextScale]) useDefault", OF 2]
  show ?case using Cons.prems(3) by (simp add: Let_def case_prod_unfold)
qed

lemma codes_scaling: "scaling_ok n m \<Longrightarrow> 0 < n \<Longrightarrow> codes (\<lambda>buf pos. readScalingList buf pos n) m (scaling_code m)"
proof -
  assume ok: "scaling_ok n m" and n: "0 < n"
  obtain xs d where m: "m = (xs, d)" by (cases m)
  show ?thesis
  proof (cases d)
    case False
    have l: "length xs = n" "\<forall>x \<in> set xs. scale_ok x" using ok by (simp_all add: m scaling_ok_def False)
    have "codes (\<lambda>buf pos. scaling_loop buf pos 0 (length xs) 8 8 [] False) ([] @ xs, False) (deltas 8 xs)"
      by (rule codes_scaling_loop) (use l in \<open>simp_all add: scale_ok_def\<close>)
    then show ?thesis using False l(1) by (simp add: m readScalingList_def scaling_code_def)
  next
    case True
    have xs: "xs = replicate n 8" using ok by (simp add: m scaling_ok_def True)
    obtain k where k: "n = Suc k" using n by (cases n) auto
    have s: "se_ok (- 8)" by (simp add: se_ok_def)
    show ?thesis
    proof (rule codesI)
      fix buf pos assume "at_pos buf pos (scaling_code m)"
      then have "at_pos buf pos (se (- 8))" by (simp add: m True scaling_code_def)
      from codesD [OF codes_se [OF s] this]
      show "readScalingList buf pos n = Ok (m, pos + length (scaling_code m))"
        by (simp add: readScalingList_def k Let_def scaling_rest m True scaling_code_def xs)
    qed
  qed
qed

section \<open>The parameter set\<close>

text \<open>The set keeps the scaling lists that are present and not their numbers: the code takes, beside the set, the lists
  with their gaps.\<close>

type_synonym matrices = "(i32 list \<times> bool) option list option"

definition present :: "'a option list \<Rightarrow> 'a list" where
  "present ms = map the (filter (\<lambda>m. m \<noteq> None) ms)"

fun matrices_code :: "(i32 list \<times> bool) option list \<Rightarrow> bool list" where
  "matrices_code [] = []"
| "matrices_code (m # ms) = [m \<noteq> None] @ (if m \<noteq> None then scaling_code (the m) @ [] else []) @ matrices_code ms"

definition with_scaling :: "SPS \<Rightarrow> (i32 list \<times> bool) list \<Rightarrow> (i32 list \<times> bool) list \<Rightarrow> SPS" where
  "with_scaling s a b = s\<lparr>ScalingList4x4 := ScalingList4x4 s @ map fst a,
     UseDefaultScalingMatrix4x4Flag := UseDefaultScalingMatrix4x4Flag s @ map snd a,
     ScalingList8x8 := ScalingList8x8 s @ map fst b, UseDefaultScalingMatrix8x8Flag := UseDefaultScalingMatrix8x8Flag s @ map snd b\<rparr>"

definition matrices_ok :: "nat \<Rightarrow> (i32 list \<times> bool) option list \<Rightarrow> bool" where
  "matrices_ok i ms \<longleftrightarrow> (\<forall>k < length ms. \<forall>m. ms ! k = Some m \<longrightarrow> scaling_ok (if i + k < 6 then 16 else 64) m)"

definition chroma_sps_ok :: "matrices \<Rightarrow> SPS \<Rightarrow> bool" where
  "chroma_sps_ok ms s \<longleftrightarrow>
     (if ProfileIdc s \<in> set high_profiles then
        (ChromaFormatIdc s \<noteq> 3 \<longrightarrow> \<not> SeparateColourPlaneFlag s) \<and>
        (\<forall>l. ms = Some l \<longrightarrow> length l = (if ChromaFormatIdc s \<noteq> 3 then 8 else 12) \<and> matrices_ok 0 l)
      else ms = None \<and> ChromaFormatIdc s = 1 \<and> \<not> SeparateColourPlaneFlag s \<and> BitDepthLumaMinus8 s = 0 \<and>
        BitDepthChromaMinus8 s = 0 \<and> \<not> QpprimeYZeroTransformBypassFlag s) \<and>
     (let l = (case ms of Some l \<Rightarrow> l | None \<Rightarrow> []) in
        ScalingList4x4 s = map fst (present (take 6 l)) \<and> UseDefaultScalingMatrix4x4Flag s = map snd (present (take 6 l)) \<and>
        ScalingList8x8 s = map fst (present (drop 6 l)) \<and> UseDefaultScalingMatrix8x8Flag s = map snd (present (drop 6 l)))"

definition chroma_sps_code :: "matrices \<Rightarrow> SPS \<Rightarrow> bool list" where
  "chroma_sps_code ms s =
     (if ProfileIdc s \<in> set high_profiles then
        ue (ChromaFormatIdc s) @ (if ChromaFormatIdc s = 3 then [SeparateColourPlaneFlag s] else []) @
        ue (BitDepthLumaMinus8 s) @ ue (BitDepthChromaMinus8 s) @ [QpprimeYZeroTransformBypassFlag s] @ [ms \<noteq> None] @
        (if ms \<noteq> None then matrices_code (the ms) else [])
      else [])"

definition poc_ok :: "SPS \<Rightarrow> bool" where
  "poc_ok s \<longleftrightarrow> PicOrderCntType s \<in> {0, 1, 2} \<and>
     (PicOrderCntType s \<noteq> 0 \<longrightarrow> Log2MaxPicOrderCntLsbMinus4 s = 0) \<and>
     (if PicOrderCntType s = 1 then
        se_ok (OffsetForNonRefPic s) \<and> se_ok (OffsetForTopToBottomField s) \<and>
        length (OffsetForRefFrames s) \<le> maxRefFrames \<and> (\<forall>v \<in> set (OffsetForRefFrames s). se_ok v)
      else \<not> DeltaPicOrderAlwaysZeroFlag s \<and> OffsetForNonRefPic s = 0 \<and> OffsetForTopToBottomField s = 0 \<and>
        OffsetForRefFrames s = [])"

fun offsets_code :: "i32 list \<Rightarrow> bool list" where
  "offsets_code [] = []"
| "offsets_code (v # vs) = se v @ offsets_code vs @ []"

definition poc_code :: "SPS \<Rightarrow> bool list" where
  "poc_code s = ue (PicOrderCntType s) @
     (if PicOrderCntType s = 0 then ue (Log2MaxPicOrderCntLsbMinus4 s) @ []
      else if PicOrderCntType s = 1 then
        [DeltaPicOrderAlwaysZeroFlag s] @ se (OffsetForNonRefPic s) @ se (OffsetForTopToBottomField s) @
        ue (of_nat (length (OffsetForRefFrames s))) @ offsets_code (OffsetForRefFrames s) @ []
      else [])"

definition frame_ok :: "SPS \<Rightarrow> bool" where
  "frame_ok s \<longleftrightarrow> (FrameMbsOnlyFlag s \<longrightarrow> \<not> MbAdaptiveFrameFieldFlag s) \<and> (\<forall>v. VUI s = Some v \<longrightarrow> vui_ok v)"

definition frame_code :: "SPS \<Rightarrow> bool list" where
  "frame_code s = ue (MaxNumRefFrames s) @ [GapsInFrameNumValueAllowedFlag s] @ ue (PicWidthInMbsMinus1 s) @
     ue (PicHeightInMapUnitsMinus1 s) @ [FrameMbsOnlyFlag s] @ (if \<not> FrameMbsOnlyFlag s then [MbAdaptiveFrameFieldFlag s] else []) @
     [Direct8x8InferenceFlag s] @ optional_code cropping_code (FrameCropping s) @ optional_code vui_code (VUI s) @ []"

definition body_code :: "matrices \<Rightarrow> SPS \<Rightarrow> bool list" where
  "body_code ms s = ue (ID s) @ chroma_sps_code ms s @ ue (Log2MaxFrameNumMinus4 s) @ poc_code s @ frame_code s"

lemma present_simps [simp]: "present [] = []" "present (None # ms) = present ms" "present (Some m # ms) = m # present ms"
  by (simp_all add: present_def)

lemma matrices_ok_Cons:
  "matrices_ok i (m # ms) \<longleftrightarrow> (\<forall>x. m = Some x \<longrightarrow> scaling_ok (if i < 6 then 16 else 64) x) \<and> matrices_ok (i + 1) ms"
  by (simp add: matrices_ok_def All_less_Suc2)

lemma codes_sps_scaling:
  "matrices_ok i ms \<Longrightarrow> length ms = n \<Longrightarrow> codes (\<lambda>buf pos. sps_scaling buf s pos i n)
    (with_scaling s (present (take (6 - i) ms)) (present (drop (6 - i) ms))) (matrices_code ms)"
proof (induction ms arbitrary: i n s)
  case Nil
  then show ?case by (simp add: codes_Ok with_scaling_def)
next
  case (Cons m ms)
  obtain k where k: "n = Suc k" "length ms = k" using Cons.prems(2) by (cases n) auto
  have ok: "\<And>x. m = Some x \<Longrightarrow> scaling_ok (if i < 6 then 16 else 64) x" "matrices_ok (i + 1) ms"
    using Cons.prems(1) by (simp_all add: matrices_ok_Cons)
  let ?s = "case m of None \<Rightarrow> s | Some x \<Rightarrow> if i < 6 then with_scaling s [x] [] else with_scaling s [] [x]"
  have step: "codes (\<lambda>buf pos. if m \<noteq> None then
                 if i < 6 then
                   res_bind (readScalingList buf pos 16) (\<lambda>((l, d), pos).
                     Ok (s\<lparr>ScalingList4x4 := ScalingList4x4 s @ [l],
                           UseDefaultScalingMatrix4x4Flag := UseDefaultScalingMatrix4x4Flag s @ [d]\<rparr>, pos))
                 else
                   res_bind (readScalingList buf pos 64) (\<lambda>((l, d), pos).
                     Ok (s\<lparr>ScalingList8x8 := ScalingList8x8 s @ [l],
                           UseDefaultScalingMatrix8x8Flag := UseDefaultScalingMatrix8x8Flag s @ [d]\<rparr>, pos))
               else Ok (s, pos)) ?s (if m \<noteq> None then scaling_code (the m) @ [] else [])"
  proof (cases m)
    case None
    then show ?thesis by (simp add: codes_Ok)
  next
    case (Some x)
    obtain l d where x: "x = (l, d)" by (cases x)
    have "codes (\<lambda>buf pos. readScalingList buf pos (if i < 6 then 16 else 64)) (l, d) (scaling_code (l, d))"
      by (rule codes_scaling) (use ok(1) Some x in auto)
    then have r: "i < 6 \<Longrightarrow> codes (\<lambda>buf pos. readScalingList buf pos 16) (l, d) (scaling_code (l, d))"
      "\<not> i < 6 \<Longrightarrow> codes (\<lambda>buf pos. readScalingList buf pos 64) (l, d) (scaling_code (l, d))" by simp_all
    show ?thesis unfolding Some x
      by (cases "i < 6"; simp only: option.distinct option.sel if_True if_False simp_thms option.case;
          rule codes_bind, erule r; simp only: prod.case; rule codes_eq; simp add: with_scaling_def)
  qed
  have ih: "codes (\<lambda>buf pos. sps_scaling buf ?s pos (i + 1) k)
      (with_scaling ?s (present (take (6 - (i + 1)) ms)) (present (drop (6 - (i + 1)) ms))) (matrices_code ms)"
    by (rule Cons.IH [OF ok(2) k(2)])
  have e: "with_scaling ?s (present (take (6 - (i + 1)) ms)) (present (drop (6 - (i + 1)) ms)) =
      with_scaling s (present (take (6 - i) (m # ms))) (present (drop (6 - i) (m # ms)))"
  proof (cases "i < 6")
    case True
    then have "6 - i = Suc (6 - (i + 1))" by simp
    then show ?thesis using True by (cases m) (simp_all add: with_scaling_def del: diff_Suc_Suc)
  next
    case False
    then have "6 - i = 0" "6 - (i + 1) = 0" by simp_all
    then show ?thesis using False by (cases m) (simp_all add: with_scaling_def)
  qed
  show ?case unfolding k(1) sps_scaling.simps matrices_code.simps
    by (rule codes_bind, rule codes_flag, rule codes_bind, rule step, rule ih [unfolded e])
qed

lemma codes_offsets: "\<forall>v \<in> set vs. se_ok v \<Longrightarrow> length vs = n \<Longrightarrow> codes (\<lambda>buf pos. offsets_loop buf pos n) vs (offsets_code vs)"
proof (induction vs arbitrary: n)
  case (Cons v vs)
  then obtain k where k: "n = Suc k" by (cases n) auto
  have ih: "codes (\<lambda>buf pos. offsets_loop buf pos k) vs (offsets_code vs)" "se_ok v" using Cons k by simp_all
  show ?case unfolding k offsets_loop.simps offsets_code.simps
    by (rule codes_bind, rule codes_se, rule ih(2), rule codes_bind, rule ih(1), rule codes_eq, rule refl)
qed (simp add: codes_Ok)

definition with_chroma :: "SPS \<Rightarrow> SPS \<Rightarrow> SPS" where
  "with_chroma s x = s\<lparr>ChromaFormatIdc := ChromaFormatIdc x, SeparateColourPlaneFlag := SeparateColourPlaneFlag x,
     BitDepthLumaMinus8 := BitDepthLumaMinus8 x, BitDepthChromaMinus8 := BitDepthChromaMinus8 x,
     QpprimeYZeroTransformBypassFlag := QpprimeYZeroTransformBypassFlag x\<rparr>"

definition no_lists :: "SPS \<Rightarrow> bool" where
  "no_lists s \<longleftrightarrow> ScalingList4x4 s = [] \<and> UseDefaultScalingMatrix4x4Flag s = [] \<and> ScalingList8x8 s = [] \<and>
     UseDefaultScalingMatrix8x8Flag s = []"

definition with_lists :: "SPS \<Rightarrow> SPS \<Rightarrow> SPS" where
  "with_lists s x = s\<lparr>ScalingList4x4 := ScalingList4x4 x, UseDefaultScalingMatrix4x4Flag := UseDefaultScalingMatrix4x4Flag x,
     ScalingList8x8 := ScalingList8x8 x, UseDefaultScalingMatrix8x8Flag := UseDefaultScalingMatrix8x8Flag x\<rparr>"

lemma codes_scaling_part:
  assumes "chroma_sps_ok ms x" "ProfileIdc x \<in> set high_profiles" "no_lists s"
  shows "codes (\<lambda>buf pos. if ms \<noteq> None then sps_scaling buf s pos 0 (if ChromaFormatIdc x \<noteq> 3 then 8 else 12) else Ok (s, pos))
    (with_lists s x) (if ms \<noteq> None then matrices_code (the ms) else [])"
proof (cases ms)
  case None
  have "with_lists s x = s" using assms by (simp add: chroma_sps_ok_def with_lists_def no_lists_def None)
  then show ?thesis by (simp add: None codes_Ok)
next
  case (Some l)
  have l: "length l = (if ChromaFormatIdc x \<noteq> 3 then 8 else 12)" "matrices_ok 0 l"
    using assms(1,2) by (simp_all add: chroma_sps_ok_def Some split: if_splits)
  have "with_scaling s (present (take 6 l)) (present (drop 6 l)) = with_lists s x"
    using assms by (simp add: chroma_sps_ok_def with_lists_def no_lists_def with_scaling_def Some)
  then show ?thesis using codes_sps_scaling [OF l(2,1), of s] by (simp add: Some)
qed

lemma codes_sps_chroma:
  assumes ok: "chroma_sps_ok ms x" and v: "ProfileIdc v = ProfileIdc x" "no_lists v"
  shows "codes (\<lambda>buf. sps_chroma buf v) (with_lists (with_chroma v x) x) (chroma_sps_code ms x)"
proof (cases "ProfileIdc x \<in> set high_profiles")
  case True
  have s: "\<not> ChromaFormatIdc x = 3 \<Longrightarrow> False = SeparateColourPlaneFlag x" using ok True by (simp add: chroma_sps_ok_def)
  have "no_lists (with_chroma v x)" using v(2) by (simp add: no_lists_def with_chroma_def)
  note part = codes_scaling_part [OF ok True this]
  show ?thesis unfolding sps_chroma_def chroma_sps_code_def Let_def v(1) if_P [OF True] with_chroma_def
    by (rule part [unfolded with_chroma_def] | rule codes_bind codes_ue codes_flag codes_if codes_eq s | assumption)+
next
  case False
  then have ms: "ms = None" using ok by (simp add: chroma_sps_ok_def)
  have "with_lists (with_chroma v x) x = v\<lparr>ChromaFormatIdc := 1, SeparateColourPlaneFlag := False, BitDepthLumaMinus8 := 0,
      BitDepthChromaMinus8 := 0, QpprimeYZeroTransformBypassFlag := False\<rparr>"
    using ok v(2) False by (cases v) (simp add: ms chroma_sps_ok_def with_lists_def no_lists_def with_chroma_def)
  then show ?thesis by (intro codesI) (simp add: sps_chroma_def chroma_sps_code_def v(1) False)
qed

definition with_poc :: "SPS \<Rightarrow> SPS \<Rightarrow> SPS" where
  "with_poc s x = s\<lparr>PicOrderCntType := PicOrderCntType x, Log2MaxPicOrderCntLsbMinus4 := Log2MaxPicOrderCntLsbMinus4 x,
     DeltaPicOrderAlwaysZeroFlag := DeltaPicOrderAlwaysZeroFlag x, OffsetForNonRefPic := OffsetForNonRefPic x,
     OffsetForTopToBottomField := OffsetForTopToBottomField x, OffsetForRefFrames := OffsetForRefFrames x\<rparr>"

lemma codes_sps_poc:
  assumes ok: "poc_ok x"
  shows "codes (\<lambda>buf. sps_poc buf v) (with_poc v x) (poc_code x)"
proof -
  let ?n = "length (OffsetForRefFrames x)"
  have n: "PicOrderCntType x = 1 \<Longrightarrow> unat (of_nat ?n :: u32) = ?n"
    using ok by (simp add: poc_ok_def maxRefFrames_def unat_of_nat)
  have se: "PicOrderCntType x = 1 \<Longrightarrow> se_ok (OffsetForNonRefPic x)" "PicOrderCntType x = 1 \<Longrightarrow> se_ok (OffsetForTopToBottomField x)"
    using ok by (simp_all add: poc_ok_def)
  have os: "PicOrderCntType x = 1 \<Longrightarrow> codes (\<lambda>buf pos. offsets_loop buf pos (unat (of_nat ?n :: u32)))
      (OffsetForRefFrames x) (offsets_code (OffsetForRefFrames x))"
    using ok n by (intro codes_offsets) (simp_all add: poc_ok_def)
  have c: "PicOrderCntType x = 1 \<Longrightarrow> \<not> maxRefFrames < unat (of_nat ?n :: u32)" using ok n by (simp add: poc_ok_def)
  have ne: "(1 :: u32) \<noteq> 0" "(2 :: u32) \<noteq> 0" "(2 :: u32) \<noteq> 1" by simp_all
  consider "PicOrderCntType x = 0" | "PicOrderCntType x = 1" | "PicOrderCntType x = 2" using ok by (auto simp: poc_ok_def)
  then show ?thesis
  proof cases
    case 1
    have e: "v\<lparr>PicOrderCntType := 0, Log2MaxPicOrderCntLsbMinus4 := Log2MaxPicOrderCntLsbMinus4 x,
        DeltaPicOrderAlwaysZeroFlag := False, OffsetForNonRefPic := 0, OffsetForTopToBottomField := 0,
        OffsetForRefFrames := []\<rparr> = with_poc v x" using ok 1 by (simp add: with_poc_def poc_ok_def)
    show ?thesis unfolding sps_poc_def poc_code_def Let_def
      by (intro codes_bind [OF codes_ue]) (simp only: 1 simp_thms if_True, rule codes_bind, rule codes_ue, rule codes_eq, rule e)
  next
    case 2
    have e: "v\<lparr>PicOrderCntType := 1, Log2MaxPicOrderCntLsbMinus4 := 0,
        DeltaPicOrderAlwaysZeroFlag := DeltaPicOrderAlwaysZeroFlag x, OffsetForNonRefPic := OffsetForNonRefPic x,
        OffsetForTopToBottomField := OffsetForTopToBottomField x, OffsetForRefFrames := OffsetForRefFrames x\<rparr> = with_poc v x"
      using ok 2 by (simp add: with_poc_def poc_ok_def)
    show ?thesis unfolding sps_poc_def poc_code_def Let_def
      by (intro codes_bind [OF codes_ue])
        (simp only: 2 ne simp_thms if_True if_False, (rule codes_bind codes_flag codes_ue codes_se se 2 os codes_eq e | simp only: c [OF 2] if_False)+)
  next
    case 3
    have e: "v\<lparr>PicOrderCntType := 2, Log2MaxPicOrderCntLsbMinus4 := 0, DeltaPicOrderAlwaysZeroFlag := False,
        OffsetForNonRefPic := 0, OffsetForTopToBottomField := 0, OffsetForRefFrames := []\<rparr> = with_poc v x"
      using ok 3 by (simp add: with_poc_def poc_ok_def)
    show ?thesis unfolding sps_poc_def poc_code_def Let_def
      by (intro codes_bind [OF codes_ue]) (simp only: 3 ne simp_thms if_True if_False, rule codes_eq, rule e)
  qed
qed

definition with_frame :: "SPS \<Rightarrow> SPS \<Rightarrow> SPS" where
  "with_frame s x = s\<lparr>MaxNumRefFrames := MaxNumRefFrames x, GapsInFrameNumValueAllowedFlag := GapsInFrameNumValueAllowedFlag x,
     PicWidthInMbsMinus1 := PicWidthInMbsMinus1 x, PicHeightInMapUnitsMinus1 := PicHeightInMapUnitsMinus1 x,
     FrameMbsOnlyFlag := FrameMbsOnlyFlag x, MbAdaptiveFrameFieldFlag := MbAdaptiveFrameFieldFlag x,
     Direct8x8InferenceFlag := Direct8x8InferenceFlag x, FrameCropping := FrameCropping x, VUI := VUI x\<rparr>"

lemma codes_sps_frame:
  assumes ok: "frame_ok x"
  shows "codes (\<lambda>buf. sps_frame buf v) (with_frame v x) (frame_code x)"
proof -
  have f: "\<not> \<not> FrameMbsOnlyFlag x \<Longrightarrow> False = MbAdaptiveFrameFieldFlag x" using ok by (simp add: frame_ok_def)
  have u: "VUI x = Some u \<Longrightarrow> vui_ok u" for u using ok by (simp add: frame_ok_def)
  show ?thesis unfolding sps_frame_def frame_code_def with_frame_def
    by (rule codes_bind codes_ue codes_flag codes_if codes_optional codes_cropping codes_vui u f codes_eq refl | assumption)+
qed

definition same_header :: "SPS \<Rightarrow> SPS \<Rightarrow> bool" where
  "same_header v x \<longleftrightarrow> ProfileIdc v = ProfileIdc x \<and> ConstraintSet0Flag v = ConstraintSet0Flag x \<and>
     ConstraintSet1Flag v = ConstraintSet1Flag x \<and> ConstraintSet2Flag v = ConstraintSet2Flag x \<and>
     ConstraintSet3Flag v = ConstraintSet3Flag x \<and> ConstraintSet4Flag v = ConstraintSet4Flag x \<and>
     ConstraintSet5Flag v = ConstraintSet5Flag x \<and> LevelIdc v = LevelIdc x"

definition sps_ok :: "matrices \<Rightarrow> SPS \<Rightarrow> bool" where
  "sps_ok ms s \<longleftrightarrow> chroma_sps_ok ms s \<and> poc_ok s \<and> frame_ok s"

lemma codes_sps_body:
  assumes ok: "sps_ok ms x" and v: "same_header v x" "no_lists v"
  shows "codes (\<lambda>buf. sps_body buf v) x (body_code ms x)"
proof -
  note parts = ok [unfolded sps_ok_def]
  let ?c = "with_lists (with_chroma (v\<lparr>ID := ID x\<rparr>) x) x"
  have i: "ProfileIdc (v\<lparr>ID := ID x\<rparr>) = ProfileIdc x" "no_lists (v\<lparr>ID := ID x\<rparr>)"
    using v by (simp_all add: same_header_def no_lists_def)
  have "with_frame (with_poc (?c\<lparr>Log2MaxFrameNumMinus4 := Log2MaxFrameNumMinus4 x\<rparr>) x) x = x"
    using v(1) by (intro SPS.equality) (simp_all add: with_frame_def with_poc_def with_lists_def with_chroma_def same_header_def)
  then have f: "codes (\<lambda>buf. sps_frame buf (with_poc (?c\<lparr>Log2MaxFrameNumMinus4 := Log2MaxFrameNumMinus4 x\<rparr>) x)) x (frame_code x)"
    using codes_sps_frame [of x "with_poc (?c\<lparr>Log2MaxFrameNumMinus4 := Log2MaxFrameNumMinus4 x\<rparr>) x"] parts by simp
  show ?thesis unfolding sps_body_def body_code_def
    by (rule codes_bind, rule codes_ue, rule codes_bind, rule codes_sps_chroma [OF conjunct1 [OF parts] i],
        rule codes_bind, rule codes_ue, rule codes_bind, rule codes_sps_poc [OF conjunct1 [OF conjunct2 [OF parts]]], rule f)
qed

text \<open>The bytes of a set: the type, what is in whole bytes, the code with the stop bit, all of it escaped.\<close>

definition flags_byte :: "SPS \<Rightarrow> byte" where
  "flags_byte s = (if ConstraintSet0Flag s then 0x80 else 0) OR (if ConstraintSet1Flag s then 0x40 else 0) OR
     (if ConstraintSet2Flag s then 0x20 else 0) OR (if ConstraintSet3Flag s then 0x10 else 0) OR
     (if ConstraintSet4Flag s then 0x08 else 0) OR (if ConstraintSet5Flag s then 0x04 else 0)"

definition sps_bytes :: "byte \<Rightarrow> matrices \<Rightarrow> SPS \<Rightarrow> byte list" where
  "sps_bytes h ms s = h # escape 0 ([ProfileIdc s, flags_byte s, LevelIdc s] @ pack (body_code ms s @ [True]))"

lemma flags_back:
  "drop_bit 7 (flags_byte s) = 1 \<longleftrightarrow> ConstraintSet0Flag s" "drop_bit 6 (flags_byte s) AND 1 = 1 \<longleftrightarrow> ConstraintSet1Flag s"
  "drop_bit 5 (flags_byte s) AND 1 = 1 \<longleftrightarrow> ConstraintSet2Flag s" "drop_bit 4 (flags_byte s) AND 1 = 1 \<longleftrightarrow> ConstraintSet3Flag s"
  "drop_bit 3 (flags_byte s) AND 1 = 1 \<longleftrightarrow> ConstraintSet4Flag s" "drop_bit 2 (flags_byte s) AND 1 = 1 \<longleftrightarrow> ConstraintSet5Flag s"
  unfolding flags_byte_def
  by (cases "ConstraintSet0Flag s"; cases "ConstraintSet1Flag s"; cases "ConstraintSet2Flag s"; cases "ConstraintSet3Flag s";
      cases "ConstraintSet4Flag s"; cases "ConstraintSet5Flag s"; simp)+

interpretation hrd: field_code hrd_ok hrd_code SPS_HRD_unmarshal by unfold_locales (rule codes_hrd)
interpretation timing: field_code "\<lambda>_. True" timing_code SPS_TimingInfo_unmarshal by unfold_locales (rule codes_timing)
interpretation restriction: field_code "\<lambda>_. True" restriction_code SPS_BitstreamRestriction_unmarshal
  by unfold_locales (rule codes_restriction)
interpretation cropping: field_code "\<lambda>_. True" cropping_code SPS_FrameCropping_unmarshal by unfold_locales (rule codes_cropping)
interpretation vui: field_code vui_ok vui_code SPS_VUI_unmarshal by unfold_locales (rule codes_vui)

lemma body_packed:
  assumes "sps_ok ms x" "same_header v x" "no_lists v"
  shows "sps_body (pack (body_code ms x @ t)) v 0 = Ok (x, length (body_code ms x))"
proof -
  obtain k where "bits_of (pack (body_code ms x @ t)) = (body_code ms x @ t) @ replicate k False" using bits_of_pack by blast
  then have "at_pos (pack (body_code ms x @ t)) 0 (body_code ms x)" by (intro at_pos_self [where t = "t @ replicate k False"]) simp
  from codesD [OF codes_sps_body [OF assms] this] show ?thesis by simp
qed

section \<open>Properties\<close>

text \<open>C30: a sequence parameter set within the limits of \<open>sps_ok\<close> is read back by
  \<open>SPS.Unmarshal\<close> from the bytes that the standard gives it, escaping included, when the receiver holds
  no scaling lists before (the code appends to those it holds). The limits: the signed picture order count offsets
  are smaller than \<open>2\<^sup>3\<^sup>0\<close> in magnitude, although the field and the standard allow twice
  that, because the code misreads larger ones; at most \<open>maxRefFrames\<close> of them, and a picture order
  count of type 0, 1 or 2; scaling lists only for the high profiles, one slot for each list of the chroma format, of
  16 or 64 entries from 1 to 255, or the list of eights where the default matrix is asked for; the chroma fields of
  other profiles as the standard infers them; separate planes only for 4:4:4; a decoder model with at most 32
  buffers and fields within their 3, 4 and 5 bits; and zero in every field whose presence flag is off. The set may
  have cropping and the whole of the VUI with its decoder models. Scaling lists are kept in the order in which they
  are present, so the list of gaps is a parameter.\<close>

theorem SPS_roundtrip:
  assumes "sps_ok ms s" "no_lists s0" "h AND 0x1F = NALUTypeSPS"
  shows "SPS_Unmarshal s0 (sps_bytes h ms s) = Ok s"
proof -
  let ?p = "[ProfileIdc s, flags_byte s, LevelIdc s] @ pack (body_code ms s @ [True])"
  let ?v = "s0\<lparr>ProfileIdc := ProfileIdc s, ConstraintSet0Flag := ConstraintSet0Flag s, ConstraintSet1Flag := ConstraintSet1Flag s,
    ConstraintSet2Flag := ConstraintSet2Flag s, ConstraintSet3Flag := ConstraintSet3Flag s,
    ConstraintSet4Flag := ConstraintSet4Flag s, ConstraintSet5Flag := ConstraintSet5Flag s, LevelIdc := LevelIdc s\<rparr>"
  have e: "EmulationPreventionRemove (escape 0 ?p) = ?p"
    using unescape_escape [of 0 ?p] by (simp add: EmulationPreventionRemove_unescape)
  have "sps_body (pack (body_code ms s @ [True])) ?v 0 = Ok (s, length (body_code ms s))"
    by (rule body_packed) (use assms in \<open>simp_all add: same_header_def no_lists_def\<close>)
  then show ?thesis using assms(3) e
    by (simp add: SPS_Unmarshal_def sps_bytes_def Let_def flags_back del: escape.simps)
qed

definition example_vui :: SPS_VUI where
  "example_vui = SPS_VUI_zero\<lparr>AspectRatioInfoPresentFlag := True, AspectRatioIdc := 255, SarWidth := 4, SarHeight := 3,
     TimingInfo := Some \<lparr>NumUnitsInTick = 1, TimeScale = 50, FixedFrameRateFlag = True\<rparr>,
     NalHRD := Some \<lparr>CpbCntMinus1 = 0, BitRateScale = 3, CpbSizeScale = 5, BitRateValueMinus1 = [1000], CpbSizeValueMinus1 = [70],
       CbrFlag = [True], InitialCpbRemovalDelayLengthMinus1 = 23, CpbRemovalDelayLengthMinus1 = 23,
       DpbOutputDelayLengthMinus1 = 23, TimeOffsetLength = 24\<rparr>, LowDelayHrdFlag := True\<rparr>"

definition example_sps :: SPS where
  "example_sps = SPS_zero\<lparr>ProfileIdc := 100, LevelIdc := 40, ChromaFormatIdc := 1, ScalingList4x4 := [replicate 16 8],
     UseDefaultScalingMatrix4x4Flag := [True], ScalingList8x8 := [replicate 64 16], UseDefaultScalingMatrix8x8Flag := [False],
     Log2MaxPicOrderCntLsbMinus4 := 2, MaxNumRefFrames := 4, PicWidthInMbsMinus1 := 119, PicHeightInMapUnitsMinus1 := 67,
     FrameMbsOnlyFlag := True, Direct8x8InferenceFlag := True,
     FrameCropping := Some \<lparr>LeftOffset = 0, RightOffset = 0, TopOffset = 0, BottomOffset = 4\<rparr>, VUI := Some example_vui\<rparr>"

definition example_matrices :: matrices where
  "example_matrices = Some [None, Some (replicate 16 8, True), None, None, None, None, Some (replicate 64 16, False), None]"

lemma example_sps_ok: "sps_ok example_matrices example_sps"
proof -
  have "matrices_ok 0 [None, Some (replicate 16 8, True), None, None, None, None, Some (replicate 64 16, False), None]"
    by (simp add: matrices_ok_Cons scaling_ok_def scale_ok_def) (simp add: matrices_ok_def)
  then have "chroma_sps_ok example_matrices example_sps"
    by (simp add: chroma_sps_ok_def example_matrices_def example_sps_def SPS_zero_def high_profiles_def)
  moreover have "poc_ok example_sps" by (simp add: poc_ok_def example_sps_def SPS_zero_def)
  moreover have "frame_ok example_sps"
    by (simp add: frame_ok_def example_sps_def SPS_zero_def vui_ok_def example_vui_def SPS_VUI_zero_def hrd_ok_def)
  ultimately show ?thesis by (simp add: sps_ok_def)
qed

theorem SPS_roundtrip_witness:
  "SPS_Unmarshal SPS_zero (sps_bytes 0x67 example_matrices example_sps) = Ok example_sps"
  by (rule SPS_roundtrip [OF example_sps_ok]) (simp_all add: no_lists_def SPS_zero_def NALUTypeSPS_def)

definition crop_unit_x :: "SPS \<Rightarrow> nat" where
  "crop_unit_x s = (if ChromaFormatIdc s = 3 then 1 else 2)"

definition crop_unit_y :: "SPS \<Rightarrow> nat" where
  "crop_unit_y s = (if ChromaFormatIdc s = 1 then 2 else 1) * (if FrameMbsOnlyFlag s then 1 else 2)"

definition full_width :: "SPS \<Rightarrow> nat" where "full_width s = 16 * (unat (PicWidthInMbsMinus1 s) + 1)"

definition full_height :: "SPS \<Rightarrow> nat" where
  "full_height s = 16 * ((if FrameMbsOnlyFlag s then 1 else 2) * (unat (PicHeightInMapUnitsMinus1 s) + 1))"

definition crop_x :: "SPS \<Rightarrow> nat" where
  "crop_x s = (case FrameCropping s of Some c \<Rightarrow> crop_unit_x s * (unat (LeftOffset c) + unat (RightOffset c)) | None \<Rightarrow> 0)"

definition crop_y :: "SPS \<Rightarrow> nat" where
  "crop_y s = (case FrameCropping s of Some c \<Rightarrow> crop_unit_y s * (unat (TopOffset c) + unat (BottomOffset c)) | None \<Rightarrow> 0)"

lemma size_word: "a < 2 ^ 32 \<Longrightarrow> b \<le> a \<Longrightarrow> unat (of_nat a - of_nat b :: u32) = a - b"
  by (simp add: of_nat_diff [symmetric] unat_of_nat del: of_nat_diff)

text \<open>Width and Height are what the standard derives, as long as the picture has fewer than 2^32 samples in each
  direction and the cropping leaves something of it, for every chroma format except monochrome and separate planes.\<close>

theorem SPS_size:
  assumes "ChromaFormatIdc s \<in> {1, 2, 3}" "\<not> SeparateColourPlaneFlag s" "full_width s < 2 ^ 32" "full_height s < 2 ^ 32"
    "crop_x s \<le> full_width s" "crop_y s \<le> full_height s"
  shows "SPS_Width s = full_width s - crop_x s \<and> SPS_Height s = full_height s - crop_y s"
proof
  have ne: "chromaArrayType s \<noteq> 0" using assms(1,2) by (auto simp: chromaArrayType_def)
  have "SPS_Width s = unat (of_nat (full_width s) - of_nat (crop_x s) :: u32)"
    using assms(1,2) ne by (auto simp: SPS_Width_def full_width_def crop_x_def crop_unit_x_def Let_def algebra_simps split: option.split)
  then show "SPS_Width s = full_width s - crop_x s" using size_word assms(3,5) by simp
  have "SPS_Height s = unat (of_nat (full_height s) - of_nat (crop_y s) :: u32)"
    using assms(1,2) ne by (auto simp: SPS_Height_def full_height_def crop_y_def crop_unit_y_def Let_def algebra_simps split: option.split)
  then show "SPS_Height s = full_height s - crop_y s" using size_word assms(4,6) by simp
qed

theorem SPS_size_witness: "SPS_Width example_sps = 1920 \<and> SPS_Height example_sps = 1080"
  using SPS_size [of example_sps]
  by (simp add: example_sps_def SPS_zero_def full_width_def full_height_def crop_x_def crop_y_def crop_unit_x_def crop_unit_y_def)

text \<open>The cropping of a monochrome picture is left out of the width, and counted in the height; the standard counts one
  sample for each unit.\<close>

theorem monochrome_width:
  "ChromaFormatIdc s = 0 \<Longrightarrow> SPS_Width s = unat ((PicWidthInMbsMinus1 s + 1) * 16)"
  by (simp add: SPS_Width_def chromaArrayType_def Let_def split: option.split)

theorem monochrome_width_witness:
  "SPS_Width (example_sps\<lparr>ChromaFormatIdc := 0, FrameCropping := Some \<lparr>LeftOffset = 1, RightOffset = 1, TopOffset = 0, BottomOffset = 0\<rparr>\<rparr>) = 1920"
  by (subst monochrome_width) (simp_all add: example_sps_def SPS_zero_def)

end
