(* ===== verification/Mc_DTS.thy ===== *)
theory Mc_DTS
  imports Mc_SPS_Code
begin

text \<open>
  \<^verbatim>\<open>mediacommon/pkg/codecs/h264/dts_extractor.go\<close>: decoding times from presentation times.  Times are of type
  \<^verbatim>\<open>int64\<close>, words of 64 bits read with \<open>sint\<close>; the counters of type \<^verbatim>\<open>int\<close>, which the invariant below bounds, are
  integers.  The state is returned with every result, since an error leaves what was written before it.
\<close>

section \<open>The picture order count\<close>

type_synonym i64 = "64 word"

definition maxReorderedFrames :: int where "maxReorderedFrames = 10"
definition maxBytesToGetPOC :: nat where "maxBytesToGetPOC = 22"

definition poc_fields :: "byte list \<Rightarrow> SPS \<Rightarrow> bool \<Rightarrow> nat \<Rightarrow> (u32 \<times> nat) res" where
  "poc_fields buf sps idr pos =
     res_bind (ReadGolombUnsigned buf pos) (\<lambda>(first_mb_in_slice, pos).
     res_bind (ReadGolombUnsigned buf pos) (\<lambda>(slice_type, pos).
     res_bind (ReadGolombUnsigned buf pos) (\<lambda>(pic_parameter_set_id, pos).
     res_bind (ReadBits buf pos (unat (Log2MaxFrameNumMinus4 sps + 4))) (\<lambda>(frame_num, pos).
     res_bind (if idr then ReadGolombUnsigned buf pos else Ok (0, pos)) (\<lambda>(idr_pic_id, pos).
     res_bind (ReadBits buf pos (unat (Log2MaxPicOrderCntLsbMinus4 sps + 4))) (\<lambda>(picOrderCntLsb, pos).
       Ok (ucast picOrderCntLsb, pos)))))))"

definition getPictureOrderCount :: "byte list \<Rightarrow> SPS \<Rightarrow> bool \<Rightarrow> u32 res" where
  "getPictureOrderCount buf sps idr =
     res_bind (slice_from buf 1) (\<lambda>buf.
       let lb = min (length buf) maxBytesToGetPOC;
           buf = EmulationPreventionRemove (take lb buf)
       in res_bind (poc_fields buf sps idr 0) (\<lambda>(poc, pos). Ok poc))"

text \<open>\<^verbatim>\<open>1 << n\<close> in 32 bits; it is zero when \<open>n\<close> is 32 or more.\<close>

definition poc_range :: "SPS \<Rightarrow> u32" where
  "poc_range sps = push_bit (unat (Log2MaxPicOrderCntLsbMinus4 sps + 4)) 1"

definition pictureOrderCountDiff :: "u32 \<Rightarrow> u32 \<Rightarrow> SPS \<Rightarrow> i32" where
  "pictureOrderCountDiff a b sps =
     (let maxVal = poc_range sps;
          d = (a - b) AND (maxVal - 1)
      in if d > maxVal div 2 then d - maxVal else d)"

section \<open>The extractor\<close>

record DTSExtractor =
  dx_sps :: "byte list"
  dx_spsp :: "SPS option"
  prevDTSFilled :: bool
  prevDTS :: i64
  randomReceived :: bool
  expectedPOC :: u32
  reorderedFrames :: int
  dx_pause :: int
  auCount :: int
  pocIncrement :: int
  prevPOC :: u32
  prevPrevPOC :: u32

definition DTSExtractor_Initialize :: DTSExtractor where
  "DTSExtractor_Initialize =
     \<lparr> dx_sps = [], dx_spsp = None, prevDTSFilled = False, prevDTS = 0, randomReceived = False, expectedPOC = 0,
       reorderedFrames = 0, dx_pause = 0, auCount = 0, pocIncrement = 2, prevPOC = 0, prevPrevPOC = 0 \<rparr>"

text \<open>\<^verbatim>\<open>fmt.Errorf\<close> with a wrapped error, all of which are texts here.\<close>

definition wrapped :: "string \<Rightarrow> gots_error \<Rightarrow> gots_error" where
  "wrapped s e = (case e of ErrorsNew t \<Rightarrow> ErrorsNew (s @ t) | _ \<Rightarrow> ErrorsNew s)"

definition reset_state :: "DTSExtractor \<Rightarrow> byte list \<Rightarrow> SPS \<Rightarrow> DTSExtractor" where
  "reset_state d nalu spsp =
     d\<lparr>dx_sps := nalu, dx_spsp := Some spsp, randomReceived := False, expectedPOC := 0, reorderedFrames := 0,
       dx_pause := 0, auCount := 0, pocIncrement := 2, prevPOC := 0, prevPrevPOC := 0\<rparr>"

text \<open>The loop over the units: the slice it stops at, and whether a unit is used for reference.\<close>

primrec scan_au :: "byte list list \<Rightarrow> DTSExtractor \<Rightarrow> bool \<Rightarrow>
    DTSExtractor \<times> (byte list option \<times> byte list option \<times> bool) res" where
  "scan_au [] d nz = (d, Ok (None, None, nz))"
| "scan_au (nalu # au) d nz =
     (case rd nalu 0 of
        Ok b \<Rightarrow>
          let typ = b AND 0x1F;
              nz = nz \<or> b AND 0x60 > 0
          in if typ = NALUTypeSPS then
               if dx_sps d \<noteq> nalu then
                 (case SPS_Unmarshal SPS_zero nalu of
                    Ok spsp \<Rightarrow> scan_au au (reset_state d nalu spsp) nz
                  | Err e \<Rightarrow> (d, Err (wrapped ''invalid SPS: '' e))
                  | Panic \<Rightarrow> (d, Panic))
               else scan_au au d nz
             else if typ = NALUTypeIDR then (d, Ok (Some nalu, None, nz))
             else if typ = NALUTypeNonIDR then (d, Ok (None, Some nalu, nz))
             else scan_au au d nz
      | Err e \<Rightarrow> (d, Err e)
      | Panic \<Rightarrow> (d, Panic))"

definition too_many_frames :: "int \<Rightarrow> 'a res" where
  "too_many_frames n = Errorf (''too many reordered frames ('' @ show_int n @ '')'')"

text \<open>The two branches of the switch that look at a slice give \<^verbatim>\<open>ptsDTSDiff\<close>.\<close>

definition idr_diff :: "DTSExtractor \<Rightarrow> SPS \<Rightarrow> byte list \<Rightarrow> DTSExtractor \<times> int res" where
  "idr_diff d spsp idr =
     (case getPictureOrderCount idr spsp True of
        Ok poc \<Rightarrow>
          let d = d\<lparr>expectedPOC := poc\<rparr>
          in if pocIncrement d = 2 then
               let d = (if expectedPOC d mod 2 \<noteq> 0 then d\<lparr>pocIncrement := 1\<rparr> else d)
               in (d\<lparr>auCount := 1, prevPrevPOC := 0, prevPOC := expectedPOC d\<rparr>, Ok 0)
             else (d, Ok 0)
      | Err e \<Rightarrow> (d\<lparr>expectedPOC := 0\<rparr>, Err e)
      | Panic \<Rightarrow> (d, Panic))"

definition adapt_increment :: "DTSExtractor \<Rightarrow> u32 \<Rightarrow> DTSExtractor \<times> unit res" where
  "adapt_increment d poc =
     (if poc mod 2 \<noteq> 0 then
        let d = d\<lparr>pocIncrement := 1, expectedPOC := expectedPOC d div 2\<rparr>
        in if reorderedFrames d \<noteq> 0 then
             let increase = reorderedFrames d
             in if reorderedFrames d + increase > maxReorderedFrames then (d, too_many_frames (reorderedFrames d + increase))
                else (d\<lparr>reorderedFrames := reorderedFrames d + increase, dx_pause := dx_pause d + increase\<rparr>, Ok ())
           else (d, Ok ())
      else if auCount d \<ge> 2 \<and> poc mod 4 = 0 \<and> poc = prevPOC d + 4 \<and> prevPOC d = prevPrevPOC d + 4 then
        (d\<lparr>pocIncrement := 4, expectedPOC := expectedPOC d * 2\<rparr>, Ok ())
      else (d, Ok ()))"

text \<open>Division rounds to zero, and panics on zero.\<close>

definition go_div :: "int \<Rightarrow> int \<Rightarrow> int res" where
  "go_div a b = (if b = 0 then Panic else Ok (a sdiv b))"

definition advance_poc :: "DTSExtractor \<Rightarrow> SPS \<Rightarrow> u32 \<Rightarrow> DTSExtractor \<times> int res" where
  "advance_poc d spsp poc =
     (let d = d\<lparr>expectedPOC := (expectedPOC d + word_of_int (pocIncrement d)) AND (poc_range spsp - 1)\<rparr>
      in (d, go_div (sint (pictureOrderCountDiff poc (expectedPOC d) spsp)) (pocIncrement d)))"

definition non_idr_diff :: "DTSExtractor \<Rightarrow> SPS \<Rightarrow> byte list \<Rightarrow> DTSExtractor \<times> int res" where
  "non_idr_diff d spsp nonIDR =
     (case getPictureOrderCount nonIDR spsp False of
        Ok poc \<Rightarrow>
          if auCount d < 5 \<and> pocIncrement d = 2 then
            (case adapt_increment d poc of
               (d, Ok _) \<Rightarrow> advance_poc (d\<lparr>auCount := auCount d + 1, prevPrevPOC := prevPOC d, prevPOC := poc\<rparr>) spsp poc
             | (d, Err e) \<Rightarrow> (d, Err e)
             | (d, Panic) \<Rightarrow> (d, Panic))
          else advance_poc d spsp poc
      | Err e \<Rightarrow> (d, Err e)
      | Panic \<Rightarrow> (d, Panic))"

text \<open>More frames are held back when the difference asks for it; then the time.\<close>

definition hold_back :: "DTSExtractor \<Rightarrow> int \<Rightarrow> DTSExtractor \<times> int res" where
  "hold_back d ptsDTSDiff =
     (let ptsDTSDiff = ptsDTSDiff + reorderedFrames d;
          increase = (if ptsDTSDiff > 2 * reorderedFrames d + 1 then Some (ptsDTSDiff - (2 * reorderedFrames d + 1))
                      else if ptsDTSDiff < 0 then Some (- ptsDTSDiff)
                      else None)
      in case increase of
           Some increase \<Rightarrow>
             if reorderedFrames d + increase > maxReorderedFrames then (d, too_many_frames (reorderedFrames d + increase))
             else (d\<lparr>reorderedFrames := reorderedFrames d + increase, dx_pause := dx_pause d + increase\<rparr>, Ok (ptsDTSDiff + increase))
         | None \<Rightarrow> (d, Ok ptsDTSDiff))"

definition next_dts :: "DTSExtractor \<Rightarrow> i64 \<Rightarrow> int \<Rightarrow> DTSExtractor \<times> (i64 \<times> bool) res" where
  "next_dts d pts ptsDTSDiff =
     (if dx_pause d > 0 then
        let d = d\<lparr>dx_pause := dx_pause d - 1\<rparr>
        in if \<not> prevDTSFilled d then (d, Ok (pts, True)) else (d, Ok (prevDTS d + 90, True))
      else if \<not> prevDTSFilled d then (d, Ok (pts, True))
      else (d, res_bind (go_div (sint (pts - prevDTS d)) (ptsDTSDiff + 1)) (\<lambda>q. Ok (prevDTS d + word_of_int q, False))))"

definition dts_of_diff :: "i64 \<Rightarrow> DTSExtractor \<times> int res \<Rightarrow> DTSExtractor \<times> (i64 \<times> bool) res" where
  "dts_of_diff pts r =
     (case r of
        (d, Ok ptsDTSDiff) \<Rightarrow>
          (case hold_back d ptsDTSDiff of
             (d, Ok ptsDTSDiff) \<Rightarrow> next_dts d pts ptsDTSDiff
           | (d, Err e) \<Rightarrow> (d, Err e)
           | (d, Panic) \<Rightarrow> (d, Panic))
      | (d, Err e) \<Rightarrow> (d, Err e)
      | (d, Panic) \<Rightarrow> (d, Panic))"

definition extract_slice :: "DTSExtractor \<Rightarrow> i64 \<Rightarrow> byte list option \<Rightarrow> byte list option \<Rightarrow> bool \<Rightarrow>
    DTSExtractor \<times> (i64 \<times> bool) res" where
  "extract_slice d pts idr nonIDR nz =
     (case dx_spsp d of
        None \<Rightarrow> (d, Errorf ''SPS not received yet'')
      | Some spsp \<Rightarrow>
          if PicOrderCntType spsp = 2 \<or> \<not> FrameMbsOnlyFlag spsp then (d, Ok (pts, False))
          else if PicOrderCntType spsp = 1 then (d, Errorf ''pic_order_cnt_type = 1 is not supported yet'')
          else if \<not> randomReceived d \<and> idr = None then (d, Errorf ''random access frame not received yet'')
          else
            let d = d\<lparr>randomReceived := True\<rparr>
            in case (idr, nonIDR) of
                 (Some idr, _) \<Rightarrow> dts_of_diff pts (idr_diff d spsp idr)
               | (None, Some nonIDR) \<Rightarrow> dts_of_diff pts (non_idr_diff d spsp nonIDR)
               | (None, None) \<Rightarrow>
                   if \<not> nz then
                     if \<not> prevDTSFilled d then (d, Ok (pts, True)) else (d, Ok (prevDTS d, False))
                   else (d, Errorf (''access unit doesn'' @ [CHR 0x27] @ ''t contain an IDR or non-IDR NALU'')))"

definition extractInner :: "DTSExtractor \<Rightarrow> byte list list \<Rightarrow> i64 \<Rightarrow> DTSExtractor \<times> (i64 \<times> bool) res" where
  "extractInner d au pts =
     (case scan_au au d False of
        (d, Ok (idr, nonIDR, nz)) \<Rightarrow> extract_slice d pts idr nonIDR nz
      | (d, Err e) \<Rightarrow> (d, Err e)
      | (d, Panic) \<Rightarrow> (d, Panic))"

definition Extract :: "DTSExtractor \<Rightarrow> byte list list \<Rightarrow> i64 \<Rightarrow> DTSExtractor \<times> i64 res" where
  "Extract d au pts =
     (case extractInner d au pts of
        (d, Ok (dts, skipChecks)) \<Rightarrow>
          if \<not> skipChecks \<and> sint dts > sint pts then (d, Errorf ''DTS is greater than PTS'')
          else if prevDTSFilled d \<and> sint dts < sint (prevDTS d) then
            (d, Errorf (''DTS is not monotonically increasing, was '' @ show_int (sint (prevDTS d)) @ '', now is '' @ show_int (sint dts)))
          else (d\<lparr>prevDTSFilled := True, prevDTS := dts\<rparr>, Ok dts)
      | (d, Err e) \<Rightarrow> (d, Err e)
      | (d, Panic) \<Rightarrow> (d, Panic))"

section \<open>The invariant\<close>

definition sps_kept :: "byte list \<Rightarrow> SPS option \<Rightarrow> bool" where
  "sps_kept bs s \<longleftrightarrow> (case s of None \<Rightarrow> bs = [] | Some s \<Rightarrow> SPS_Unmarshal SPS_zero bs = Ok s)"

definition dx_inv :: "DTSExtractor \<Rightarrow> bool" where
  "dx_inv d \<longleftrightarrow> 0 \<le> dx_pause d \<and> dx_pause d \<le> reorderedFrames d \<and> reorderedFrames d \<le> maxReorderedFrames \<and>
     pocIncrement d \<in> {1, 2, 4} \<and> 0 \<le> auCount d \<and> auCount d \<le> 5 \<and>
     sps_kept (dx_sps d) (dx_spsp d)"

inductive dts_reachable :: "DTSExtractor \<Rightarrow> bool" where
  initialized: "dts_reachable DTSExtractor_Initialize"
| extracted: "dts_reachable d \<Longrightarrow> Extract d au pts = (d', r) \<Longrightarrow> dts_reachable d'"

lemma inv_Initialize: "dx_inv DTSExtractor_Initialize"
  by (simp add: dx_inv_def sps_kept_def DTSExtractor_Initialize_def maxReorderedFrames_def)

lemma inv_reset: "SPS_Unmarshal SPS_zero nalu = Ok s \<Longrightarrow> dx_inv (reset_state d nalu s)"
  by (simp add: dx_inv_def sps_kept_def reset_state_def maxReorderedFrames_def)

lemma inv_scan_au: "dx_inv d \<Longrightarrow> dx_inv (fst (scan_au au d nz))"
proof (induction au arbitrary: d nz)
  case (Cons nalu au)
  show ?case
  proof (cases "rd nalu 0")
    case (Ok b)
    have "dx_inv (fst (scan_au au d z))" for z using Cons by simp
    moreover have "dx_inv (fst (scan_au au (reset_state d nalu s) z))" if "SPS_Unmarshal SPS_zero nalu = Ok s" for s z
      using Cons.IH [OF inv_reset [OF that]] .
    ultimately show ?thesis using Ok Cons.prems by (simp add: Let_def split: res.split)
  qed (use Cons.prems in simp_all)
qed simp

lemma inv_idr_diff: "dx_inv d \<Longrightarrow> dx_inv (fst (idr_diff d s idr))"
  by (cases "getPictureOrderCount idr s True") (auto simp: idr_diff_def dx_inv_def Let_def)

lemma inv_adapt: "dx_inv d \<Longrightarrow> dx_inv (fst (adapt_increment d poc))"
  by (auto simp: adapt_increment_def dx_inv_def Let_def too_many_frames_def split: option.splits)

lemma adapt_auCount [simp]: "auCount (fst (adapt_increment d poc)) = auCount d"
  by (simp add: adapt_increment_def Let_def)

lemma inv_advance: "dx_inv d \<Longrightarrow> dx_inv (fst (advance_poc d s poc))"
  by (simp add: advance_poc_def dx_inv_def Let_def)

lemma inv_non_idr_diff: "dx_inv d \<Longrightarrow> dx_inv (fst (non_idr_diff d s nalu))"
proof (cases "getPictureOrderCount nalu s False")
  case (Ok poc)
  assume d: "dx_inv d"
  show ?thesis
  proof (cases "auCount d < 5 \<and> pocIncrement d = 2")
    case True
    obtain d' r where a: "adapt_increment d poc = (d', r)" by (cases "adapt_increment d poc")
    have "dx_inv d'" "auCount d' = auCount d" using inv_adapt [OF d, of poc] adapt_auCount [of d poc] by (simp_all add: a)
    moreover from this have "dx_inv (d'\<lparr>auCount := auCount d' + 1, prevPrevPOC := prevPOC d', prevPOC := poc\<rparr>)"
      using True by (simp add: dx_inv_def)
    ultimately show ?thesis using Ok True a inv_advance by (cases r) (simp_all add: non_idr_diff_def)
  next
    case False
    then have "non_idr_diff d s nalu = advance_poc d s poc" using Ok by (auto simp: non_idr_diff_def)
    then show ?thesis using inv_advance [OF d] by simp
  qed
qed (simp_all add: non_idr_diff_def)

lemma hold_back_inv:
  assumes "dx_inv d" "hold_back d k = (d', r)"
  shows "dx_inv d'" "r = Ok k' \<Longrightarrow> 0 \<le> k'" "r \<noteq> Panic"
  using assms by (auto simp: hold_back_def dx_inv_def Let_def too_many_frames_def split: if_splits option.splits)

lemma inv_dts_of_diff: "dx_inv (fst r) \<Longrightarrow> dx_inv (fst (dts_of_diff pts r))"
proof (cases r)
  case (Pair d q)
  assume "dx_inv (fst r)"
  then have d: "dx_inv d" by (simp add: Pair)
  show ?thesis
  proof (cases q)
    case (Ok k)
    obtain d' q' where h: "hold_back d k = (d', q')" by (cases "hold_back d k")
    have d': "dx_inv d'" by (rule hold_back_inv [OF d h])
    then have "dx_inv (fst (next_dts d' pts j))" for j by (auto simp: next_dts_def dx_inv_def Let_def)
    then show ?thesis using d' h
      by (cases q') (simp_all add: Pair Ok dts_of_diff_def case_prod_unfold)
  qed (use d in \<open>simp_all add: Pair dts_of_diff_def\<close>)
qed

lemma inv_extractInner: "dx_inv d \<Longrightarrow> dx_inv (fst (extractInner d au pts))"
proof -
  assume d: "dx_inv d"
  obtain d' q where s: "scan_au au d False = (d', q)" by (cases "scan_au au d False")
  have d': "dx_inv d'" using inv_scan_au [OF d, of au False] by (simp add: s)
  then have "dx_inv (d'\<lparr>randomReceived := True\<rparr>)" by (simp add: dx_inv_def)
  then have "dx_inv (fst (extract_slice d' pts idr nonIDR nz))" for idr nonIDR nz
    using d' inv_dts_of_diff inv_idr_diff inv_non_idr_diff
    by (auto simp: extract_slice_def Let_def split: option.split)
  then show ?thesis using d' by (cases q) (auto simp: extractInner_def s split: prod.split)
qed

lemma inv_Extract: "dx_inv d \<Longrightarrow> dx_inv (fst (Extract d au pts))"
proof -
  assume d: "dx_inv d"
  obtain d' q where s: "extractInner d au pts = (d', q)" by (cases "extractInner d au pts")
  have d': "dx_inv d'" using inv_extractInner [OF d, of au pts] by (simp add: s)
  then have "dx_inv (d'\<lparr>prevDTSFilled := True, prevDTS := x\<rparr>)" for x by (simp add: dx_inv_def)
  then show ?thesis using d' by (cases q) (auto simp: Extract_def s split: prod.split)
qed

lemma reachable_inv: "dts_reachable d \<Longrightarrow> dx_inv d"
proof (induction rule: dts_reachable.induct)
  case (extracted d au pts d' r)
  then show ?case using inv_Extract [of d au pts] by simp
qed (rule inv_Initialize)

section \<open>The difference of two counts\<close>

definition poc_bits :: "SPS \<Rightarrow> nat" where
  "poc_bits sps = unat (Log2MaxPicOrderCntLsbMinus4 sps + 4)"

lemma poc_mask: "w AND (poc_range s - 1) = take_bit (poc_bits s) w"
  by (simp add: poc_range_def poc_bits_def take_bit_eq_mask mask_eq_exp_minus_1)

lemma take_bit_word_of_int_eq:
  "n \<le> 32 \<Longrightarrow> take_bit n (word_of_int k :: u32) = word_of_int (k mod 2 ^ n)"
  by (rule bit_word_eqI) (auto simp: bit_simps take_bit_eq_mod [symmetric])

lemma take_bit_minus_left: "n \<le> 32 \<Longrightarrow> take_bit n (take_bit n x - y) = take_bit n (x - y :: u32)"
proof -
  assume n: "n \<le> 32"
  have "take_bit n x = word_of_int (uint x mod 2 ^ n)" using take_bit_word_of_int_eq [OF n, of "uint x"] by simp
  then have "take_bit n (take_bit n x - y) = take_bit n (word_of_int (uint x mod 2 ^ n - uint y))" by simp
  also have "\<dots> = word_of_int ((uint x - uint y) mod 2 ^ n)"
    unfolding take_bit_word_of_int_eq [OF n] by (simp only: mod_diff_left_eq)
  also have "\<dots> = take_bit n (x - y)" using take_bit_word_of_int_eq [OF n, of "uint x - uint y"] by simp
  finally show ?thesis .
qed

text \<open>A count that is \<open>k\<close> ahead of the expected one, modulo the range, is found to be \<open>k\<close> ahead.\<close>

lemma pictureOrderCountDiff_ahead:
  assumes n: "0 < poc_bits s" "poc_bits s \<le> 30" and k: "- (2 ^ (poc_bits s - 1)) < k" "k \<le> 2 ^ (poc_bits s - 1)"
    and a: "a = take_bit (poc_bits s) (b + word_of_int k)"
  shows "sint (pictureOrderCountDiff a b s) = k"
proof -
  let ?n = "poc_bits s"
  have h: "(2 :: int) ^ ?n = 2 * 2 ^ (?n - 1)" using n(1) by (cases ?n) simp_all
  have big: "(2 :: int) ^ ?n \<le> 2 ^ 30" using n(2) by (intro power_increasing) simp_all
  have p: "(0 :: int) < 2 ^ (?n - 1)" by simp
  let ?d = "take_bit ?n (a - b)"
  have "?d = take_bit ?n (word_of_int k)" using n(2) by (simp add: a take_bit_minus_left)
  then have "?d = word_of_int (k mod 2 ^ ?n)" using n(2) by (simp only: take_bit_word_of_int_eq)
  moreover have "0 \<le> k mod 2 ^ ?n" by simp
  moreover have "k mod 2 ^ ?n < 2 ^ 32"
  proof -
    have "k mod 2 ^ ?n < 2 ^ ?n" by (rule pos_mod_bound) simp
    also have "\<dots> < (2 :: int) ^ 32" using n(2) by (intro power_strict_increasing) simp_all
    finally show ?thesis .
  qed
  ultimately have d: "uint ?d = k mod 2 ^ ?n" by (simp add: uint_word_of_int)
  have r: "uint (poc_range s) = 2 ^ ?n"
  proof -
    have "poc_range s = word_of_int (2 ^ ?n)" by (simp add: poc_range_def poc_bits_def)
    moreover have "(2 :: int) ^ ?n < 2 ^ 32" using n(2) by (intro power_strict_increasing) simp_all
    ultimately show ?thesis by (simp only: uint_word_of_int) simp
  qed
  have rh: "uint (poc_range s div 2) = 2 ^ (?n - 1)" using r h by (simp add: uint_div)
  show ?thesis
  proof (cases "0 \<le> k")
    case True
    moreover have "k < 2 ^ ?n" using k(2) p unfolding h by linarith
    ultimately have "k mod 2 ^ ?n = k" by (rule mod_pos_pos_trivial)
    then have e: "uint ?d = k" by (simp add: d)
    then have "\<not> poc_range s div 2 < ?d" using k(2) rh by (simp add: word_less_def)
    then have "pictureOrderCountDiff a b s = word_of_int k" using e [symmetric] by (simp add: pictureOrderCountDiff_def Let_def poc_mask)
    then show ?thesis using True k(2) h big by (simp add: sint_word_of_int_small)
  next
    case False
    have "k mod 2 ^ ?n = (k + 2 ^ ?n) mod 2 ^ ?n" by simp
    also have "\<dots> = k + 2 ^ ?n" using False k(1) h by (intro mod_pos_pos_trivial) linarith+
    finally have "k mod 2 ^ ?n = k + 2 ^ ?n" .
    then have e: "uint ?d = k + 2 ^ ?n" by (simp add: d)
    then have "poc_range s div 2 < ?d" using k(1) rh h by (simp add: word_less_def)
    then have "pictureOrderCountDiff a b s = word_of_int (uint ?d) - word_of_int (uint (poc_range s))"
      by (simp add: pictureOrderCountDiff_def Let_def poc_mask)
    then have "pictureOrderCountDiff a b s = word_of_int k" unfolding e r by simp
    then show ?thesis using False k(1) h big by (simp add: sint_word_of_int_small)
  qed
qed

section \<open>The steady state\<close>

text \<open>An access unit whose first parameter set or slice is a slice that is not IDR.\<close>

definition other_unit :: "byte list \<Rightarrow> bool" where
  "other_unit u \<longleftrightarrow> u \<noteq> [] \<and> u ! 0 AND 0x1F \<noteq> NALUTypeSPS \<and> u ! 0 AND 0x1F \<noteq> NALUTypeIDR \<and> u ! 0 AND 0x1F \<noteq> NALUTypeNonIDR"

fun slice_au :: "byte list list \<Rightarrow> byte list \<Rightarrow> bool" where
  "slice_au [] nalu = False"
| "slice_au (u # au) nalu = (if other_unit u then slice_au au nalu else u = nalu \<and> u \<noteq> [] \<and> u ! 0 AND 0x1F = NALUTypeNonIDR)"

lemma scan_slice: "slice_au au nalu \<Longrightarrow> \<exists>nz'. scan_au au d nz = (d, Ok (None, Some nalu, nz'))"
proof (induction au arbitrary: nz)
  case (Cons u au)
  have ne: "NALUTypeNonIDR \<noteq> NALUTypeSPS" "NALUTypeNonIDR \<noteq> NALUTypeIDR"
    by (simp_all add: NALUTypeNonIDR_def NALUTypeSPS_def NALUTypeIDR_def)
  show ?case
  proof (cases "other_unit u")
    case True
    then show ?thesis using Cons by (simp add: other_unit_def Let_def)
  next
    case False
    then have u: "u = nalu" "nalu \<noteq> []" "nalu ! 0 AND 0x1F = NALUTypeNonIDR" using Cons.prems by auto
    show ?thesis using u(2,3) ne unfolding u(1) by (auto simp: Let_def)
  qed
qed simp

definition steady :: "DTSExtractor \<Rightarrow> SPS \<Rightarrow> int \<Rightarrow> int \<Rightarrow> bool" where
  "steady d s inc R \<longleftrightarrow> dx_spsp d = Some s \<and> PicOrderCntType s = 0 \<and> FrameMbsOnlyFlag s \<and> randomReceived d \<and>
     dx_pause d = 0 \<and> reorderedFrames d = R \<and> 0 \<le> R \<and> pocIncrement d = inc \<and> inc \<in> {1, 2, 4} \<and>
     \<not> (auCount d < 5 \<and> inc = 2) \<and> prevDTSFilled d"

lemma sint_i64: "- (2 ^ 63) \<le> k \<Longrightarrow> k < 2 ^ 63 \<Longrightarrow> sint (word_of_int k :: i64) = k"
  by (simp add: sint_sbintrunc' signed_take_bit_int_eq_self)

lemma extract_steady:
  assumes "dx_spsp d = Some s" "PicOrderCntType s = 0" "FrameMbsOnlyFlag s" "randomReceived d"
  shows "extract_slice d pts None (Some nalu) nz = dts_of_diff pts (non_idr_diff d s nalu)"
proof -
  have e: "d\<lparr>randomReceived := True\<rparr> = d" using assms(4) by (cases d) simp
  show ?thesis using assms unfolding extract_slice_def Let_def e by simp
qed

lemma steady_step:
  assumes d: "steady d s inc R" and au: "slice_au au nalu"
    and n: "0 < poc_bits s" "poc_bits s \<le> 30" "inc * (R + 1) \<le> 2 ^ (poc_bits s - 1)"
    and poc: "getPictureOrderCount nalu s False =
      Ok (take_bit (poc_bits s) (take_bit (poc_bits s) (expectedPOC d + word_of_int inc) + word_of_int (inc * k)))"
    and k: "- R \<le> k" "k \<le> R + 1" and T: "0 \<le> T" "0 \<le> t" "t + T * (k + R + 1) < 2 ^ 63" and t: "prevDTS d = word_of_int t"
  shows "Extract d au (word_of_int (t + T * (k + R + 1))) =
    (d\<lparr>expectedPOC := take_bit (poc_bits s) (expectedPOC d + word_of_int inc), prevDTSFilled := True,
       prevDTS := word_of_int (t + T)\<rparr>, Ok (word_of_int (t + T)))"
proof -
  let ?n = "poc_bits s" and ?P = "t + T * (k + R + 1)"
  let ?d = "d\<lparr>expectedPOC := take_bit ?n (expectedPOC d + word_of_int inc)\<rparr>"
  have f: "dx_spsp d = Some s" "PicOrderCntType s = 0" "FrameMbsOnlyFlag s" "randomReceived d" "dx_pause d = 0"
    "reorderedFrames d = R" "0 \<le> R" "pocIncrement d = inc" "inc \<in> {1, 2, 4}" "\<not> (auCount d < 5 \<and> inc = 2)"
    "prevDTSFilled d" using d unfolding steady_def by blast+
  have inc: "0 < inc" using f(9) by auto
  have lo: "inc * (- R) \<le> inc * k" and hi: "inc * k \<le> inc * (R + 1)" using k inc by (intro mult_left_mono; simp)+
  have "- (2 ^ (?n - 1)) < inc * k" using lo n(3) inc by (simp add: algebra_simps)
  moreover have "inc * k \<le> 2 ^ (?n - 1)" using hi n(3) by linarith
  ultimately have diff: "sint (pictureOrderCountDiff (take_bit ?n (expectedPOC ?d + word_of_int (inc * k))) (expectedPOC ?d) s) = inc * k"
    by (intro pictureOrderCountDiff_ahead [OF n(1,2)]) simp_all
  have "inc * k sdiv inc = k" using inc by (simp add: signed_divide_int_def sgn_mult) (cases "k = 0"; simp add: sgn_if abs_mult)
  then have nd: "non_idr_diff d s nalu = (?d, Ok k)"
    using poc f(8,10) diff inc by (auto simp: non_idr_diff_def advance_poc_def go_div_def poc_mask Let_def)
  have hb: "hold_back ?d k = (?d, Ok (k + R))" using f(6) k by (simp add: hold_back_def Let_def)
  have m: "0 < k + R + 1" "0 \<le> T * (k + R + 1)" using k T(1) by simp_all
  have "word_of_int ?P - prevDTS d = word_of_int (T * (k + R + 1))" by (simp add: t)
  then have "sint (word_of_int ?P - prevDTS d) = T * (k + R + 1)" using m(2) T by (simp add: sint_i64 del: of_int_mult of_int_add)
  then have q: "sint (word_of_int ?P - prevDTS d) sdiv (k + R + 1) = T"
    using m(1) T(1) by (simp add: signed_divide_int_def sgn_mult) (cases "T = 0"; simp add: abs_mult)
  have nx: "next_dts ?d (word_of_int ?P) (k + R) = (?d, Ok (word_of_int (t + T), False))"
    using f(5,11) q m(1) by (simp add: next_dts_def go_div_def t)
  have "extractInner d au (word_of_int ?P) = (?d, Ok (word_of_int (t + T), False))"
    using scan_slice [OF au, of d False] f(1-4) nd hb nx
    by (auto simp: extractInner_def extract_steady dts_of_diff_def)
  moreover have "T * 1 \<le> T * (k + R + 1)" using m(1) T(1) by (intro mult_left_mono) simp_all
  then have "sint (word_of_int (t + T) :: i64) = t + T" "sint (word_of_int ?P :: i64) = ?P" "sint (prevDTS d) = t" "t + T \<le> ?P"
    using T m(2) by (simp_all add: sint_i64 t del: of_int_mult of_int_add)
  ultimately show ?thesis using T(1) by (simp add: Extract_def)
qed

section \<open>Runs\<close>

fun Extract_all :: "DTSExtractor \<Rightarrow> (byte list list \<times> i64) list \<Rightarrow> i64 res list" where
  "Extract_all d [] = []"
| "Extract_all d ((au, pts) # xs) = (case Extract d au pts of (d', r) \<Rightarrow> r # Extract_all d' xs)"

text \<open>Frames in decoding order, the first of them number \<open>j\<close>: the unit, its slice, and its place \<open>q\<close> in display order,
  which its count gives; no frame is displayed more than \<open>R\<close> places early or \<open>R + 1\<close> late.\<close>

fun frames_ok :: "SPS \<Rightarrow> u32 \<Rightarrow> int \<Rightarrow> int \<Rightarrow> nat \<Rightarrow> (byte list list \<times> byte list \<times> int) list \<Rightarrow> bool" where
  "frames_ok s E inc R j [] = True"
| "frames_ok s E inc R j ((au, nalu, q) # fs) \<longleftrightarrow>
     slice_au au nalu \<and> getPictureOrderCount nalu s False = Ok (take_bit (poc_bits s) (E + word_of_int (inc * q))) \<and>
     int j + 1 - R \<le> q \<and> q \<le> int j + 1 + (R + 1) \<and> frames_ok s E inc R (j + 1) fs"

lemma take_bit_plus_left: "n \<le> 32 \<Longrightarrow> take_bit n (take_bit n x + y) = take_bit n (x + y :: u32)"
  using take_bit_minus_left [of n x "- y"] by simp

lemma steady_next:
  "steady d s inc R \<Longrightarrow> steady (d\<lparr>expectedPOC := e, prevDTSFilled := True, prevDTS := t\<rparr>) s inc R"
  by (simp add: steady_def)

lemma steady_run:
  assumes n: "0 < poc_bits s" "poc_bits s \<le> 30" "inc * (R + 1) \<le> 2 ^ (poc_bits s - 1)" and T: "0 \<le> T" "0 \<le> t0"
  shows "steady d s inc R \<Longrightarrow> frames_ok s E inc R j fs \<Longrightarrow>
    take_bit (poc_bits s) (expectedPOC d) = take_bit (poc_bits s) (E + word_of_int (inc * int j)) \<Longrightarrow>
    prevDTS d = word_of_int (t0 + T * int j) \<Longrightarrow> t0 + T * (int (j + length fs) + 2 * R + 2) < 2 ^ 63 \<Longrightarrow>
    Extract_all d (map (\<lambda>(au, nalu, q). (au, word_of_int (t0 + T * (q + R)))) fs) =
    map (\<lambda>i. Ok (word_of_int (t0 + T * (int i + 1)))) [j..<j + length fs]"
proof (induction fs arbitrary: d j)
  case (Cons f fs)
  obtain au nalu q where f: "f = (au, nalu, q)" by (cases f)
  let ?n = "poc_bits s" and ?k = "q - (int j + 1)" and ?t = "t0 + T * int j"
  have o: "slice_au au nalu" "getPictureOrderCount nalu s False = Ok (take_bit ?n (E + word_of_int (inc * q)))"
    "- R \<le> ?k" "?k \<le> R + 1" "frames_ok s E inc R (j + 1) fs" using Cons.prems(2) by (simp_all add: f)
  have n32: "?n \<le> 32" using n(2) by simp
  have e: "take_bit ?n (expectedPOC d + word_of_int inc) = take_bit ?n (E + word_of_int (inc * int (j + 1)))"
    using take_bit_plus_left [OF n32, of "expectedPOC d" "word_of_int inc"]
      take_bit_plus_left [OF n32, of "E + word_of_int (inc * int j)" "word_of_int inc"] Cons.prems(3)
    by (simp add: algebra_simps)
  then have "take_bit ?n (take_bit ?n (expectedPOC d + word_of_int inc) + word_of_int (inc * ?k)) =
      take_bit ?n (E + word_of_int (inc * int (j + 1)) + word_of_int (inc * ?k))"
    using take_bit_plus_left [OF n32, of "E + word_of_int (inc * int (j + 1))" "word_of_int (inc * ?k)"] by (simp only:)
  also have "E + word_of_int (inc * int (j + 1)) + word_of_int (inc * ?k) = E + word_of_int (inc * q)"
    by (simp add: algebra_simps)
  finally have poc: "getPictureOrderCount nalu s False =
      Ok (take_bit ?n (take_bit ?n (expectedPOC d + word_of_int inc) + word_of_int (inc * ?k)))" using o(2) by simp
  have P: "?t + T * (?k + R + 1) = t0 + T * (q + R)" by (simp add: algebra_simps)
  have "T * (q + R) \<le> T * (int (j + length (f # fs)) + 2 * R + 2)"
    using o(4) T(1) by (intro mult_left_mono) simp_all
  then have b: "?t + T * (?k + R + 1) < 2 ^ 63" using Cons.prems(5) unfolding P by linarith
  have t0: "0 \<le> ?t" using T by simp
  let ?d = "d\<lparr>expectedPOC := take_bit ?n (expectedPOC d + word_of_int inc), prevDTSFilled := True, prevDTS := word_of_int (?t + T)\<rparr>"
  have x: "Extract d au (word_of_int (t0 + T * (q + R))) = (?d, Ok (word_of_int (?t + T)))"
    using steady_step [OF Cons.prems(1) o(1) n poc o(3,4) T(1) t0 b Cons.prems(4)] unfolding P .
  have ih: "Extract_all ?d (map (\<lambda>(au, nalu, q). (au, word_of_int (t0 + T * (q + R)))) fs) =
      map (\<lambda>i. Ok (word_of_int (t0 + T * (int i + 1)))) [j + 1..<j + 1 + length fs]"
  proof (rule Cons.IH [OF steady_next [OF Cons.prems(1)] o(5)])
    show "take_bit ?n (expectedPOC ?d) = take_bit ?n (E + word_of_int (inc * int (j + 1)))" using e by simp
    show "prevDTS ?d = word_of_int (t0 + T * int (j + 1))" by (simp add: algebra_simps)
    show "t0 + T * (int (j + 1 + length fs) + 2 * R + 2) < 2 ^ 63" using Cons.prems(5) by (simp add: add.commute add.left_commute)
  qed
  have u: "[j..<j + length (f # fs)] = j # [j + 1..<j + 1 + length fs]" by (subst upt_conv_Cons) (simp_all del: upt_Suc)
  have h: "?t + T = t0 + T * (int j + 1)" by (simp add: algebra_simps)
  show ?case unfolding u by (simp only: f list.map prod.case Extract_all.simps x h ih [unfolded h])
qed simp

text \<open>The times that come out.\<close>

fun oks :: "'a res list \<Rightarrow> 'a list" where
  "oks [] = []"
| "oks (Ok x # rs) = x # oks rs"
| "oks (r # rs) = oks rs"

text \<open>Only \<open>Extract\<close> itself writes the last time.\<close>

definition last_time :: "DTSExtractor \<Rightarrow> i64 option" where
  "last_time d = (if prevDTSFilled d then Some (prevDTS d) else None)"

lemma last_time_scan: "last_time (fst (scan_au au d nz)) = last_time d"
proof (induction au arbitrary: d nz)
  case (Cons u au)
  have "last_time (reset_state d u s) = last_time d" for s by (simp add: reset_state_def last_time_def)
  then show ?case using Cons by (simp add: Let_def split: res.split)
qed simp

lemma last_time_idr: "last_time (fst (idr_diff d s u)) = last_time d"
  by (simp add: idr_diff_def last_time_def Let_def split: res.split)

lemma last_time_adapt: "last_time (fst (adapt_increment d poc)) = last_time d"
  by (simp add: adapt_increment_def last_time_def Let_def)

lemma last_time_advance: "last_time (fst (advance_poc d s poc)) = last_time d"
  by (simp add: advance_poc_def last_time_def Let_def)

lemma last_time_non_idr: "last_time (fst (non_idr_diff d s u)) = last_time d"
proof (cases "getPictureOrderCount u s False")
  case (Ok poc)
  obtain d' r where a: "adapt_increment d poc = (d', r)" by (cases "adapt_increment d poc")
  have "last_time d' = last_time d" using last_time_adapt [of d poc] by (simp add: a)
  moreover have "last_time (d'\<lparr>auCount := x, prevPrevPOC := y, prevPOC := z\<rparr>) = last_time d'" for x y z
    by (simp add: last_time_def)
  ultimately show ?thesis by (simp add: non_idr_diff_def Ok a last_time_advance split: res.split)
qed (simp_all add: non_idr_diff_def)

lemma last_time_hold: "last_time (fst (hold_back d k)) = last_time d"
  by (simp add: hold_back_def last_time_def Let_def split: option.split)

lemma last_time_next: "last_time (fst (next_dts d pts k)) = last_time d"
  by (simp add: next_dts_def last_time_def Let_def)

lemma last_time_of_diff: "last_time (fst (dts_of_diff pts r)) = last_time (fst r)"
proof (cases r)
  case (Pair d q)
  have "last_time (fst (dts_of_diff pts (d, Ok k))) = last_time d" for k
    using last_time_hold [of d k] last_time_next [of "fst (hold_back d k)" pts]
    by (cases "hold_back d k"; cases "snd (hold_back d k)") (simp_all add: dts_of_diff_def case_prod_unfold)
  then show ?thesis by (cases q) (simp_all add: Pair dts_of_diff_def)
qed

lemma last_time_slice: "last_time (fst (extract_slice d pts idr nonIDR nz)) = last_time d"
proof -
  have "last_time (d\<lparr>randomReceived := True\<rparr>) = last_time d" by (simp add: last_time_def)
  then show ?thesis
    by (auto simp: extract_slice_def Let_def last_time_of_diff last_time_idr last_time_non_idr split: option.split)
qed

lemma last_time_inner: "last_time (fst (extractInner d au pts)) = last_time d"
proof -
  obtain d' r where s: "scan_au au d False = (d', r)" by (cases "scan_au au d False")
  have "last_time d' = last_time d" using last_time_scan [of au d False] by (simp add: s)
  then show ?thesis by (cases r) (auto simp: extractInner_def s last_time_slice split: prod.split)
qed

lemma Extract_time:
  assumes "Extract d au pts = (d', r)"
  shows "r = Ok x \<Longrightarrow> last_time d' = Some x \<and> (\<forall>t. last_time d = Some t \<longrightarrow> sint t \<le> sint x)"
    and "r \<noteq> Ok x \<Longrightarrow> \<forall>x. r \<noteq> Ok x \<Longrightarrow> last_time d' = last_time d"
proof -
  obtain e q where e: "extractInner d au pts = (e, q)" by (cases "extractInner d au pts")
  have l: "last_time e = last_time d" using last_time_inner [of d au pts] by (simp add: e)
  show "r = Ok x \<Longrightarrow> last_time d' = Some x \<and> (\<forall>t. last_time d = Some t \<longrightarrow> sint t \<le> sint x)"
    using assms l by (cases q) (auto simp: Extract_def e last_time_def split: if_splits prod.splits)
  show "r \<noteq> Ok x \<Longrightarrow> \<forall>x. r \<noteq> Ok x \<Longrightarrow> last_time d' = last_time d"
    using assms l by (cases q) (auto simp: Extract_def e last_time_def split: if_splits prod.splits)
qed

lemma Extract_all_sorted:
  "sorted (map sint (oks (Extract_all d xs))) \<and>
    (\<forall>t x. last_time d = Some t \<longrightarrow> x \<in> set (oks (Extract_all d xs)) \<longrightarrow> sint t \<le> sint x)"
proof (induction xs arbitrary: d)
  case (Cons a xs)
  obtain au pts where a: "a = (au, pts)" by (cases a)
  obtain d' r where e: "Extract d au pts = (d', r)" by (cases "Extract d au pts")
  show ?case
  proof (cases r)
    case (Ok x)
    have "last_time d' = Some x" "\<And>t. last_time d = Some t \<Longrightarrow> sint t \<le> sint x" using Extract_time(1) [OF e Ok] by simp_all
    moreover from this(1) have "\<And>y. y \<in> set (oks (Extract_all d' xs)) \<Longrightarrow> sint x \<le> sint y" using Cons.IH [of d'] by blast
    moreover have "sorted (map sint (oks (Extract_all d' xs)))" using Cons.IH by blast
    ultimately show ?thesis by (auto simp: a e Ok intro: order_trans)
  next
    case (Err m)
    then have "last_time d' = last_time d" using Extract_time(2) [OF e] by auto
    then show ?thesis using Cons.IH [of d'] by (simp add: a e Err)
  next
    case Panic
    then have "last_time d' = last_time d" using Extract_time(2) [OF e] by auto
    then show ?thesis using Cons.IH [of d'] by (simp add: a e Panic)
  qed
qed simp

section \<open>The code of a slice header\<close>

text \<open>What the standard lists up to \<open>pic_order_cnt_lsb\<close> (7.3.3), and the part of it that the code knows: without the
  plane of a stream with separate colour planes, and without the field flags of a stream that is not made of frames only.\<close>

record slice =
  sl_first_mb :: u32
  sl_type :: u32
  sl_pps :: u32
  sl_plane :: u32
  sl_frame_num :: u32
  sl_field :: bool
  sl_bottom :: bool
  sl_idr_pic_id :: u32
  sl_poc_lsb :: u32

definition slice_header :: "SPS \<Rightarrow> bool \<Rightarrow> slice \<Rightarrow> bool list" where
  "slice_header s idr h =
     ue (sl_first_mb h) @ ue (sl_type h) @ ue (sl_pps h) @
     (if SeparateColourPlaneFlag s then word_bits 2 (sl_plane h) else []) @
     word_bits (unat (Log2MaxFrameNumMinus4 s + 4)) (sl_frame_num h) @
     (if FrameMbsOnlyFlag s then [] else if sl_field h then [True, sl_bottom h] else [False]) @
     (if idr then ue (sl_idr_pic_id h) else []) @
     (if PicOrderCntType s = 0 then word_bits (poc_bits s) (sl_poc_lsb h) else [])"

definition slice_code :: "SPS \<Rightarrow> bool \<Rightarrow> u32 \<Rightarrow> u32 \<Rightarrow> u32 \<Rightarrow> u32 \<Rightarrow> u32 \<Rightarrow> u32 \<Rightarrow> bool list" where
  "slice_code s idr first slice_type pps frame_num idr_pic_id lsb =
     ue first @ ue slice_type @ ue pps @ word_bits (unat (Log2MaxFrameNumMinus4 s + 4)) frame_num @
     (if idr then ue idr_pic_id else []) @ word_bits (poc_bits s) lsb @ []"

lemma codes_poc_fields:
  assumes "unat (frame_num :: u32) < 2 ^ unat (Log2MaxFrameNumMinus4 s + 4)" "unat (lsb :: u32) < 2 ^ poc_bits s"
    "0 < unat (Log2MaxFrameNumMinus4 s + 4)" "0 < poc_bits s"
  shows "codes (\<lambda>buf. poc_fields buf s idr) lsb (slice_code s idr first slice_type pps frame_num idr_pic_id lsb)"
proof -
  have i: "codes (\<lambda>buf pos. if idr then ReadGolombUnsigned buf pos else Ok (0, pos)) (if idr then idr_pic_id else 0)
      (if idr then ue idr_pic_id else [])"
    by (cases idr) (simp_all add: codes)
  have l: "(ucast (ucast lsb :: u64) :: u32) = lsb" by simp
  show ?thesis unfolding poc_fields_def slice_code_def poc_bits_def [symmetric]
    by (rule codes_bind i codes codes_bits assms codes_eq l)+
qed

text \<open>The first \<open>k\<close> escaped bytes hold at least two thirds of \<open>k\<close> bytes of the payload.\<close>

lemma unescape_take:
  "z \<le> 2 \<Longrightarrow> \<exists>m. unescape (replicate z 0 @ take k (escape z bs)) = replicate z 0 @ take m bs \<and> (length bs \<le> m \<or> 2 * k \<le> 3 * m + z)"
proof (induction bs arbitrary: z k)
  case Nil
  then show ?case by (simp add: unescape_short)
next
  case (Cons b bs)
  show ?case
  proof (cases k)
    case 0
    then show ?thesis using Cons.prems by (intro exI [of _ 0]) (simp add: unescape_short)
  next
    case (Suc j)
    have r2: "replicate 2 (0 :: byte) = [0, 0]" by (simp add: numeral_2_eq_2)
    have step: "\<exists>m. unescape (b # take i (escape (if b = 0 then 1 else 0) bs)) = b # take m bs \<and>
        (length bs \<le> m \<or> 2 * i \<le> 3 * m + (if b = 0 then 1 else 0))" for i
      using Cons.IH [of "if b = 0 then 1 else 0" i] by (cases "b = 0") (simp_all add: unescape_miss)
    have two: "\<exists>m. unescape (0 # 0 # take i (escape 2 bs)) = 0 # 0 # take m bs \<and> (length bs \<le> m \<or> 2 * i \<le> 3 * m + 2)" for i
      using Cons.IH [of 2 i] by (simp add: r2)
    consider "z = 0" | "z = 1" "b = 0" | "z = 1" "b \<noteq> 0" | "z = 2" "b \<le> 3" | "z = 2" "\<not> b \<le> 3" using Cons.prems by linarith
    then show ?thesis
    proof cases
      case 1
      obtain m where "unescape (b # take j (escape (if b = 0 then 1 else 0) bs)) = b # take m bs"
        "length bs \<le> m \<or> 2 * j \<le> 3 * m + (if b = 0 then 1 else 0)" using step by blast
      then show ?thesis using 1 by (intro exI [of _ "Suc m"]) (auto simp: Suc split: if_splits)
    next
      case 2
      obtain m where "unescape (0 # 0 # take j (escape 2 bs)) = 0 # 0 # take m bs" "length bs \<le> m \<or> 2 * j \<le> 3 * m + 2"
        using two by blast
      then show ?thesis using 2 by (intro exI [of _ "Suc m"]) (auto simp: Suc numeral_2_eq_2)
    next
      case 3
      obtain m where "unescape (b # take j (escape 0 bs)) = b # take m bs" "length bs \<le> m \<or> 2 * j \<le> 3 * m" using step [of j] 3 by auto
      then show ?thesis using 3 by (intro exI [of _ "Suc m"]) (auto simp: Suc unescape_miss)
    next
      case 4
      show ?thesis
      proof (cases j)
        case 0
        then show ?thesis using 4 by (intro exI [of _ 0]) (simp add: Suc r2 unescape_hit)
      next
        case (Suc i)
        obtain m where "unescape (b # take i (escape (if b = 0 then 1 else 0) bs)) = b # take m bs"
          "length bs \<le> m \<or> 2 * i \<le> 3 * m + (if b = 0 then 1 else 0)" using step by blast
        then show ?thesis using 4 by (intro exI [of _ "Suc m"]) (auto simp: \<open>k = Suc j\<close> Suc r2 unescape_hit split: if_splits)
      qed
    next
      case 5
      then have b: "b \<noteq> 3" "b \<noteq> 0" by auto
      obtain m where "unescape (b # take j (escape 0 bs)) = b # take m bs" "length bs \<le> m \<or> 2 * j \<le> 3 * m" using step [of j] b by auto
      then show ?thesis using 5 b by (intro exI [of _ "Suc m"]) (auto simp: Suc r2 unescape_miss)
    qed
  qed
qed

lemma bits_of_take: "bits_of (take m bs) = take (8 * m) (bits_of bs)"
proof (induction bs arbitrary: m)
  case (Cons b bs)
  then show ?case by (cases m) (simp_all add: bits_of_Cons bits_of_def)
qed (simp add: bits_of_def)

lemma getPictureOrderCount_code:
  assumes "0 < unat (Log2MaxFrameNumMinus4 s + 4)" "unat (frame_num :: u32) < 2 ^ unat (Log2MaxFrameNumMinus4 s + 4)"
    "0 < poc_bits s" "unat (lsb :: u32) < 2 ^ poc_bits s"
    "bits_of payload = slice_code s idr first slice_type pps frame_num idr_pic_id lsb @ t"
    "length (slice_code s idr first slice_type pps frame_num idr_pic_id lsb) \<le> 120"
  shows "getPictureOrderCount (h # escape 0 payload) s idr = Ok lsb"
proof -
  let ?c = "slice_code s idr first slice_type pps frame_num idr_pic_id lsb" and ?b = "escape 0 payload"
  obtain m where m: "unescape (take 22 ?b) = take m payload" "length payload \<le> m \<or> 2 * 22 \<le> 3 * m"
    using unescape_take [of 0 22 payload] by auto
  have "length ?c \<le> 8 * length payload" using arg_cong [OF assms(5), of length] by simp
  then have l: "length ?c \<le> 8 * m" using m(2)
  proof (elim disjE)
    assume "2 * 22 \<le> 3 * m"
    then have "15 \<le> m" by linarith
    then show ?thesis using assms(6) by linarith
  qed linarith
  have "take (length ?c) (bits_of (take m payload)) = ?c" using l by (simp add: bits_of_take assms(5))
  then have "bits_of (take m payload) = ?c @ drop (length ?c) (bits_of (take m payload))"
    using append_take_drop_id [of "length ?c" "bits_of (take m payload)"] by simp
  then have "poc_fields (take m payload) s idr 0 = Ok (lsb, length ?c)"
    using codesD [OF codes_poc_fields [OF assms(2,4,1,3)] at_pos_self] by simp
  moreover have "take (min (length ?b) 22) ?b = take 22 ?b" by (simp add: min_def)
  ultimately show ?thesis
    by (simp add: getPictureOrderCount_def slice_def Let_def maxBytesToGetPOC_def EmulationPreventionRemove_unescape m(1))
qed

lemma getPictureOrderCount_packed:
  assumes "0 < unat (Log2MaxFrameNumMinus4 s + 4)" "unat (frame_num :: u32) < 2 ^ unat (Log2MaxFrameNumMinus4 s + 4)"
    "0 < poc_bits s" "unat (lsb :: u32) < 2 ^ poc_bits s"
    "length (slice_code s idr first slice_type pps frame_num idr_pic_id lsb) \<le> 120"
  shows "getPictureOrderCount (h # escape 0 (pack (slice_code s idr first slice_type pps frame_num idr_pic_id lsb @ t))) s idr = Ok lsb"
proof -
  obtain k where "bits_of (pack (slice_code s idr first slice_type pps frame_num idr_pic_id lsb @ t)) =
      (slice_code s idr first slice_type pps frame_num idr_pic_id lsb @ t) @ replicate k False" using bits_of_pack by blast
  then show ?thesis using getPictureOrderCount_code [OF assms(1-4) _ assms(5)] by simp
qed

section \<open>An example\<close>

text \<open>The extractor with the parameter set of the example: one frame is reordered, and the count steps by two.\<close>

definition example_settled :: DTSExtractor where
  "example_settled = DTSExtractor_Initialize\<lparr>dx_spsp := Some example_sps, prevDTSFilled := True, prevDTS := 9000,
     randomReceived := True, reorderedFrames := 1, auCount := 5, expectedPOC := 60\<rparr>"

text \<open>The count goes round at 64: 60 is followed by 62, 0, 2 and 4.\<close>

lemma example_sps_bits: "unat (Log2MaxFrameNumMinus4 example_sps + 4) = 4" "poc_bits example_sps = 6"
  by (simp_all add: example_sps_def SPS_zero_def poc_bits_def)

lemma example_poc:
  assumes "bits_of bs = slice_code example_sps False 0 0 0 1 0 lsb @ [False, False, False]" "unat lsb < 64" "escape 0 bs = bs"
  shows "getPictureOrderCount (0x41 # bs) example_sps False = Ok lsb"
proof -
  have "getPictureOrderCount (0x41 # escape 0 bs) example_sps False = Ok lsb"
    by (rule getPictureOrderCount_code [OF _ _ _ _ assms(1)])
      (use assms(2) in \<open>simp_all add: example_sps_bits slice_code_def ue_def word_bits_def\<close>)
  then show ?thesis by (simp only: assms(3))
qed

definition example_frames :: "(byte list list \<times> byte list \<times> int) list" where
  "example_frames = map (\<lambda>(b, c, q). ([[0x09, 0x10], [0x41, b, c]], [0x41, b, c], q))
     [(0xE2, 0x00, 2), (0xE3, 0xF0, 1), (0xE2, 0x20, 4), (0xE2, 0x10, 3)]"

lemma example_frames_ok: "frames_ok example_sps 60 2 1 0 example_frames"
proof -
  have p: "getPictureOrderCount [0x41, 0xE2, 0x00] example_sps False = Ok 0"
    "getPictureOrderCount [0x41, 0xE3, 0xF0] example_sps False = Ok 62"
    "getPictureOrderCount [0x41, 0xE2, 0x20] example_sps False = Ok 4"
    "getPictureOrderCount [0x41, 0xE2, 0x10] example_sps False = Ok 2"
    by (rule example_poc;
      simp add: bits_of_def bits_of_byte_def slice_code_def ue_def word_bits_def example_sps_bits bit_numeral_rec upt_rec)+
  show ?thesis
    by (simp add: example_frames_def p example_sps_bits other_unit_def NALUTypeSPS_def NALUTypeIDR_def NALUTypeNonIDR_def)
qed

section \<open>No panic\<close>

definition poc_sized :: "SPS \<Rightarrow> bool" where
  "poc_sized s \<longleftrightarrow> Log2MaxFrameNumMinus4 s \<noteq> - 4 \<and> Log2MaxPicOrderCntLsbMinus4 s \<noteq> - 4"

lemma poc_sized: "poc_sized s \<Longrightarrow> 0 < unat (Log2MaxFrameNumMinus4 s + 4) \<and> 0 < unat (Log2MaxPicOrderCntLsbMinus4 s + 4)"
proof -
  have "unat (x + 4) \<noteq> 0" if "x \<noteq> - 4" for x :: u32
  proof
    assume "unat (x + 4) = 0"
    then have "x + 4 = 0" by (simp add: unat_eq_zero)
    then show False using that by (simp add: eq_neg_iff_add_eq_0)
  qed
  then show "poc_sized s \<Longrightarrow> ?thesis" by (simp add: poc_sized_def)
qed

lemma needs_poc_fields: "poc_sized s \<Longrightarrow> needs 0 buf (poc_fields buf s idr)"
  unfolding poc_fields_def by ((rule needs_ReadBits, use poc_sized in blast) | rule needs)+

lemma getPictureOrderCount_safe:
  assumes "poc_sized s" "nalu \<noteq> []"
  shows "getPictureOrderCount nalu s idr \<noteq> Panic"
proof -
  have "poc_fields buf s idr 0 \<noteq> Panic" for buf using needsD [OF needs_poc_fields [OF assms(1)], of 0 buf idr] by auto
  then have "res_bind (poc_fields buf s idr 0) (\<lambda>(poc, pos). Ok poc) \<noteq> Panic" for buf by (intro res_bind_not_Panic) auto
  then show ?thesis using assms(2)
    by (cases nalu) (simp_all add: getPictureOrderCount_def slice_def Let_def del: res_bind_Ok_iff)
qed

lemma advance_safe: "pocIncrement d \<noteq> 0 \<Longrightarrow> snd (advance_poc d s poc) \<noteq> Panic"
  by (simp add: advance_poc_def go_div_def Let_def)

lemma non_idr_safe:
  assumes "poc_sized s" "nalu \<noteq> []" "dx_inv d"
  shows "snd (non_idr_diff d s nalu) \<noteq> Panic"
proof (cases "getPictureOrderCount nalu s False")
  case (Ok poc)
  obtain d' r where a: "adapt_increment d poc = (d', r)" by (cases "adapt_increment d poc")
  have "r \<noteq> Panic" using a by (auto simp: adapt_increment_def too_many_frames_def Let_def split: if_splits)
  moreover have "pocIncrement d' \<noteq> 0" "pocIncrement d \<noteq> 0"
    using inv_adapt [OF assms(3), of poc] assms(3) by (auto simp: a dx_inv_def)
  ultimately show ?thesis using Ok by (cases r) (simp_all add: non_idr_diff_def a advance_safe)
qed (simp_all add: non_idr_diff_def getPictureOrderCount_safe assms)

lemma idr_safe: "poc_sized s \<Longrightarrow> nalu \<noteq> [] \<Longrightarrow> snd (idr_diff d s nalu) \<noteq> Panic"
  using getPictureOrderCount_safe [of s nalu True] by (simp add: idr_diff_def Let_def split: res.split)

lemma of_diff_safe:
  assumes "dx_inv (fst r)" "snd r \<noteq> Panic"
  shows "snd (dts_of_diff pts r) \<noteq> Panic"
proof (cases r)
  case (Pair d q)
  have "snd (dts_of_diff pts (d, Ok k)) \<noteq> Panic" for k
  proof -
    obtain d' h where h: "hold_back d k = (d', h)" by (cases "hold_back d k")
    have d: "dx_inv d" using assms(1) by (simp add: Pair)
    have "snd (next_dts d' pts k') \<noteq> Panic" if "0 \<le> k'" for k' using that by (simp add: next_dts_def go_div_def Let_def)
    then show ?thesis using hold_back_inv(2,3) [OF d h] by (cases h) (simp_all add: dts_of_diff_def h)
  qed
  then show ?thesis using assms(2) by (cases q) (simp_all add: Pair dts_of_diff_def)
qed

text \<open>The parameter sets that a call can meet.\<close>

definition sets_sized :: "DTSExtractor \<Rightarrow> byte list list \<Rightarrow> bool" where
  "sets_sized d au \<longleftrightarrow> (\<forall>s. dx_spsp d = Some s \<longrightarrow> poc_sized s) \<and> (\<forall>u s. u \<in> set au \<longrightarrow> SPS_Unmarshal SPS_zero u = Ok s \<longrightarrow> poc_sized s)"

lemma scan_safe:
  "[] \<notin> set au \<Longrightarrow> sets_sized d au \<Longrightarrow> scan_au au d nz = (d', r) \<Longrightarrow>
    r \<noteq> Panic \<and> sets_sized d' [] \<and> (\<forall>i n z. r = Ok (i, n, z) \<longrightarrow> i \<noteq> Some [] \<and> n \<noteq> Some [])"
proof (induction au arbitrary: d nz)
  case Nil
  then show ?case by auto
next
  case (Cons u au)
  then have u: "rd u 0 = Ok (u ! 0)" "u \<noteq> []" by (auto simp: rd_def)
  have d: "sets_sized d au" "sets_sized d []" using Cons.prems(2) by (auto simp: sets_sized_def)
  have s: "SPS_Unmarshal SPS_zero u = Ok s \<Longrightarrow> sets_sized (reset_state d u s) au" for s
    using Cons.prems(2) by (auto simp: sets_sized_def reset_state_def)
  have ih: "scan_au au e z = (d', r) \<Longrightarrow> sets_sized e au \<Longrightarrow> ?case" for e z using Cons.IH [of e z] Cons.prems(1) by simp
  show ?case using Cons.prems(3) d u ih s SPS_Unmarshal_total [of SPS_zero u]
    by (simp add: Let_def split: if_splits res.splits; fastforce)
qed

lemma slice_safe:
  assumes "dx_inv d" "sets_sized d []" "idr \<noteq> Some []" "nonIDR \<noteq> Some []"
  shows "snd (extract_slice d pts idr nonIDR nz) \<noteq> Panic"
proof (cases "dx_spsp d")
  case (Some s)
  let ?d = "d\<lparr>randomReceived := True\<rparr>"
  have s: "poc_sized s" and d: "dx_inv ?d" using assms(1,2) Some by (simp_all add: sets_sized_def dx_inv_def)
  have "u \<noteq> [] \<Longrightarrow> snd (dts_of_diff pts (idr_diff ?d s u)) \<noteq> Panic \<and> snd (dts_of_diff pts (non_idr_diff ?d s u)) \<noteq> Panic" for u
    using s d by (simp add: of_diff_safe idr_safe non_idr_safe inv_idr_diff inv_non_idr_diff)
  then show ?thesis using assms(3,4) Some by (auto simp: extract_slice_def Let_def split: option.split)
qed (simp add: extract_slice_def)

lemma Extract_total:
  assumes "dx_inv d" "[] \<notin> set au" "sets_sized d au"
  shows "snd (Extract d au pts) \<noteq> Panic"
proof -
  obtain d' r where s: "scan_au au d False = (d', r)" by (cases "scan_au au d False")
  have d': "dx_inv d'" using inv_scan_au [OF assms(1), of au False] by (simp add: s)
  have i: "snd (extractInner d au pts) \<noteq> Panic"
    using scan_safe [OF assms(2,3) s] slice_safe [OF d'] by (cases r) (auto simp: extractInner_def s)
  obtain e q where e: "extractInner d au pts = (e, q)" by (cases "extractInner d au pts")
  show ?thesis using i by (cases q) (auto simp: Extract_def e split: if_splits)
qed

section \<open>Properties\<close>

text \<open>C32: getPictureOrderCount finds the count of a slice header of the standard, whatever follows it and
  however many bytes of emulation prevention the first 22 bytes hold, in a stream of frames only, without separate
  colour planes, and with a picture order count of type 0, when the header is of at most 120 bits up to the count
  and the frame number and the count fit the widths, not zero, that the parameter set gives them. Extract itself
  asks only for frames-only streams of type 0. It does not look at separate colour planes, where the header has two
  bits more: there the count that the code returns is wrong (\<open>POC_separate_planes\<close>).\<close>

theorem POC_reads:
  assumes "\<not> SeparateColourPlaneFlag s" "FrameMbsOnlyFlag s" "PicOrderCntType s = 0"
    and "0 < unat (Log2MaxFrameNumMinus4 s + 4)" "unat (sl_frame_num h) < 2 ^ unat (Log2MaxFrameNumMinus4 s + 4)"
    and "0 < poc_bits s" "unat (sl_poc_lsb h) < 2 ^ poc_bits s" "length (slice_header s idr h) \<le> 120"
  shows "getPictureOrderCount (b # escape 0 (pack (slice_header s idr h @ t))) s idr = Ok (sl_poc_lsb h)"
proof -
  have e: "slice_header s idr h =
      slice_code s idr (sl_first_mb h) (sl_type h) (sl_pps h) (sl_frame_num h) (sl_idr_pic_id h) (sl_poc_lsb h)"
    using assms(1-3) by (simp add: slice_header_def slice_code_def)
  show ?thesis using getPictureOrderCount_packed [OF assms(4-7)] assms(8) unfolding e by blast
qed

definition example_slice :: slice where
  "example_slice = \<lparr>sl_first_mb = 0, sl_type = 7, sl_pps = 0, sl_plane = 0, sl_frame_num = 5, sl_field = False,
     sl_bottom = False, sl_idr_pic_id = 1, sl_poc_lsb = 22\<rparr>"

lemma example_header: "length (slice_header example_sps idr example_slice) \<le> 120"
  by (simp add: slice_header_def example_slice_def ue_def nat_bits.simps example_sps_bits Let_def)

theorem POC_reads_witness:
  "getPictureOrderCount (0x65 # escape 0 (pack (slice_header example_sps True example_slice @ [True, False]))) example_sps True = Ok 22"
  using POC_reads [where s = example_sps and h = example_slice and idr = True and b = "0x65" and t = "[True, False]"] example_header [where idr = True]
  by (simp add: example_sps_bits) (simp add: example_sps_def SPS_zero_def example_slice_def)

text \<open>With separate colour planes the code reads two bits too early: the count it returns is made of the last two bits
  of the frame number and all but the last two of the count.\<close>

theorem POC_separate_planes:
  assumes "SeparateColourPlaneFlag s" "FrameMbsOnlyFlag s" "PicOrderCntType s = 0"
    and "k = unat (Log2MaxFrameNumMinus4 s + 4)" "2 \<le> k" "k \<le> 32" "n = poc_bits s" "2 \<le> n" "n \<le> 32"
    and "unat (sl_plane h) < 4" "unat (sl_frame_num h) < 2 ^ k" "unat (sl_poc_lsb h) < 2 ^ n"
    and "length (slice_header s False h) \<le> 120"
  shows "getPictureOrderCount (b # escape 0 (pack (slice_header s False h @ t))) s False =
    Ok (push_bit (n - 2) (sl_frame_num h AND 3) OR drop_bit 2 (sl_poc_lsb h))"
proof -
  let ?f = "push_bit (k - 2) (sl_plane h) OR drop_bit 2 (sl_frame_num h)"
  let ?p = "push_bit (n - 2) (sl_frame_num h AND 3) OR drop_bit 2 (sl_poc_lsb h)"
  let ?c = "slice_code s False (sl_first_mb h) (sl_type h) (sl_pps h) ?f (sl_idr_pic_id h) ?p"
  have hi: "m \<le> i \<Longrightarrow> \<not> bit x i" if "unat x < 2 ^ m" for x :: u32 and m i
    using take_bit_word_small [OF that] by (metis bit_take_bit_iff not_less)
  have hp: "2 \<le> i \<Longrightarrow> \<not> bit (sl_plane h) i" for i using hi [of "sl_plane h" 2] assms(10) by simp
  have f: "word_bits k ?f = word_bits 2 (sl_plane h) @ word_bits (k - 2) (drop_bit 2 (sl_frame_num h))"
    using assms(5,6,11) by (intro nth_equalityI) (auto simp: nth_append nth_word_bits bit_simps hi)
  have p: "word_bits n ?p = word_bits 2 (sl_frame_num h) @ word_bits (n - 2) (drop_bit 2 (sl_poc_lsb h))"
    using assms(8,9,12) by (intro nth_equalityI) (auto simp: nth_append nth_word_bits bit_simps hi and_numeral_mask)
  have c: "slice_header s False h @ t = ?c @ word_bits 2 (sl_poc_lsb h) @ t"
  proof -
    have "word_bits k (sl_frame_num h) = word_bits (k - 2) (drop_bit 2 (sl_frame_num h)) @ word_bits 2 (sl_frame_num h)"
      "word_bits n (sl_poc_lsb h) = word_bits (n - 2) (drop_bit 2 (sl_poc_lsb h)) @ word_bits 2 (sl_poc_lsb h)"
      using word_bits_split [of "k - 2" k "sl_frame_num h"] word_bits_split [of "n - 2" n "sl_poc_lsb h"] assms(5,8)
      by simp_all
    then show ?thesis using assms(1-4,7) f p by (simp add: slice_header_def slice_code_def)
  qed
  have w: "unat x < 2 ^ m" if "\<And>i. m \<le> i \<Longrightarrow> \<not> bit x i" for x :: u32 and m
  proof -
    have "take_bit m x = x" by (rule bit_word_eqI) (use that in \<open>auto simp: bit_take_bit_iff not_le [symmetric]\<close>)
    then have "unat x = take_bit m (unat x)" by (metis unsigned_take_bit_eq)
    then show ?thesis by (metis take_bit_nat_less_exp)
  qed
  have b: "unat ?f < 2 ^ k" "unat ?p < 2 ^ n"
    using assms(5,8,10-12) by (auto intro!: w simp: bit_simps hi hp and_numeral_mask)
  have l: "length ?c \<le> 120" using assms(13) arg_cong [OF c, of length] by simp
  show ?thesis
    unfolding c by (rule getPictureOrderCount_packed) (use assms(4-9) b l in simp_all)
qed

theorem POC_separate_planes_witness:
  "getPictureOrderCount (0x41 # escape 0 (pack (slice_header (example_sps\<lparr>SeparateColourPlaneFlag := True\<rparr>) False example_slice @ [True])))
     (example_sps\<lparr>SeparateColourPlaneFlag := True\<rparr>) False = Ok 21"
proof -
  let ?s = "example_sps\<lparr>SeparateColourPlaneFlag := True\<rparr>"
  have n: "unat (Log2MaxFrameNumMinus4 ?s + 4) = 4" "poc_bits ?s = 6"
    by (simp_all add: example_sps_def SPS_zero_def poc_bits_def)
  have "length (slice_header ?s False example_slice) \<le> 120"
    by (simp add: slice_header_def example_slice_def ue_def nat_bits.simps example_sps_bits n Let_def)
  then have "getPictureOrderCount (0x41 # escape 0 (pack (slice_header ?s False example_slice @ [True]))) ?s False =
      Ok (push_bit (6 - 2) (sl_frame_num example_slice AND 3) OR drop_bit 2 (sl_poc_lsb example_slice))"
    by (intro POC_separate_planes [where k = 4]) (simp_all add: n, simp_all add: example_sps_def SPS_zero_def example_slice_def)
  then show ?thesis by (simp add: example_slice_def)
qed

text \<open>C34: after any sequence of access units, valid or not, the extractor holds back at most ten frames,
  waits for no more than it holds back, steps the count by one, two or four, and keeps the parameter set that its
  bytes give.\<close>

theorem DTS_invariant:
  assumes "dts_reachable d"
  shows "0 \<le> dx_pause d \<and> dx_pause d \<le> reorderedFrames d \<and> reorderedFrames d \<le> 10 \<and> pocIncrement d \<in> {1, 2, 4} \<and>
    auCount d \<le> 5 \<and> (\<forall>s. dx_spsp d = Some s \<longrightarrow> SPS_Unmarshal SPS_zero (dx_sps d) = Ok s)"
proof -
  have "dx_inv d" by (rule reachable_inv [OF assms])
  then show ?thesis unfolding dx_inv_def sps_kept_def maxReorderedFrames_def by (auto split: option.splits)
qed

theorem DTS_invariant_witness:
  "reorderedFrames (fst (Extract DTSExtractor_Initialize [[0x67]] 0)) \<le> 10"
proof -
  have "dts_reachable (fst (Extract DTSExtractor_Initialize [[0x67]] 0))"
    by (rule dts_reachable.extracted [OF dts_reachable.initialized]) (rule prod.collapse [symmetric])
  from DTS_invariant [OF this] show ?thesis by blast
qed

text \<open>C35: whatever the access units and their times, the decoding times that Extract returns never go back.\<close>

theorem DTS_monotone: "sorted (map sint (oks (Extract_all d xs)))"
  using Extract_all_sorted by blast

text \<open>C31: once the extractor has settled - it knows how far frames are reordered and how the count steps -
  frames of equal duration \<open>T\<close>, in any display order within that distance, get decoding times that are
  \<open>T\<close> apart: the picture order counts, which wrap, give back the places in display order.\<close>

theorem DTS_steady:
  assumes "steady d s inc R" "0 < poc_bits s" "poc_bits s \<le> 30" "inc * (R + 1) \<le> 2 ^ (poc_bits s - 1)"
    "frames_ok s (expectedPOC d) inc R 0 fs" "prevDTS d = word_of_int t0" "0 \<le> T" "0 \<le> t0"
    "t0 + T * (int (length fs) + 2 * R + 2) < 2 ^ 63"
  shows "Extract_all d (map (\<lambda>(au, nalu, q). (au, word_of_int (t0 + T * (q + R)))) fs) =
    map (\<lambda>i. Ok (word_of_int (t0 + T * (int i + 1)))) [0..<length fs]"
  using steady_run [OF assms(2-4,7,8,1,5)] assms(6,9) by simp

theorem DTS_steady_witness:
  "Extract_all example_settled (map (\<lambda>(au, nalu, q). (au, word_of_int (9000 + 3000 * (q + 1)))) example_frames) =
    [Ok 12000, Ok 15000, Ok 18000, Ok 21000]"
proof -
  have "Extract_all example_settled (map (\<lambda>(au, nalu, q). (au, word_of_int (9000 + 3000 * (q + 1)))) example_frames) =
    map (\<lambda>i. Ok (word_of_int (9000 + 3000 * (int i + 1)))) [0..<length example_frames]"
  proof (rule DTS_steady)
    show "steady example_settled example_sps 2 1"
      by (simp add: steady_def example_settled_def example_sps_def SPS_zero_def DTSExtractor_Initialize_def)
    show "frames_ok example_sps (expectedPOC example_settled) 2 1 0 example_frames"
      using example_frames_ok by (simp add: example_settled_def)
  qed (simp_all add: example_sps_bits example_settled_def DTSExtractor_Initialize_def example_frames_def)
  also have "\<dots> = [Ok 12000, Ok 15000, Ok 18000, Ok 21000]" by (simp add: example_frames_def upt_rec)
  finally show ?thesis .
qed

text \<open>C33: Extract never panics, whatever came before, on an access unit without empty units, unless a
  parameter set announces counts or frame numbers of no bits, which 0xFFFFFFFC for their size minus four
  does.\<close>

theorem Extract_safe:
  assumes "dts_reachable d" "[] \<notin> set au" "sets_sized d au"
  shows "snd (Extract d au pts) \<noteq> Panic"
  by (rule Extract_total [OF reachable_inv [OF assms(1)] assms(2,3)])

theorem Extract_safe_witness: "snd (Extract DTSExtractor_Initialize [[0x09, 0x10], [0x41, 0xE2]] 0) \<noteq> Panic"
proof (rule Extract_safe [OF dts_reachable.initialized])
  show "sets_sized DTSExtractor_Initialize [[0x09, 0x10], [0x41, 0xE2]]"
    by (auto simp: sets_sized_def DTSExtractor_Initialize_def SPS_Unmarshal_def NALUTypeSPS_def Let_def)
qed simp

end
