(* ===== verification/Mc_Time.thy ===== *)
theory Mc_Time
  imports Gots_Prelude
begin

text \<open>
  \<^verbatim>\<open>mediacommon/pkg/formats/mpegts/time_decoder.go\<close>: the time stamps of a transport stream have 33 bits and go round;
  the decoder gives the time since the first one.  Stamps and times are \<^verbatim>\<open>int64\<close>.
\<close>

section \<open>The decoder\<close>

type_synonym time64 = "64 word"

definition td_maximum :: time64 where "td_maximum = 0x1FFFFFFFF"
definition td_negativeThreshold :: time64 where "td_negativeThreshold = 0x1FFFFFFFF div 2"

record TimeDecoder =
  td_initialized :: bool
  td_overall :: time64
  td_prev :: time64

definition TimeDecoder_zero :: TimeDecoder where
  "TimeDecoder_zero = \<lparr>td_initialized = False, td_overall = 0, td_prev = 0\<rparr>"

definition TimeDecoder_Decode :: "TimeDecoder \<Rightarrow> time64 \<Rightarrow> TimeDecoder \<times> time64" where
  "TimeDecoder_Decode d ts =
     (let d = (if \<not> td_initialized d then d\<lparr>td_initialized := True, td_prev := ts\<rparr> else d);
          diff = (ts - td_prev d) AND td_maximum;
          d = (if sint diff > sint td_negativeThreshold then
                 let diff = (td_prev d - ts) AND td_maximum
                 in d\<lparr>td_prev := ts, td_overall := td_overall d - diff\<rparr>
               else d\<lparr>td_prev := ts, td_overall := td_overall d + diff\<rparr>)
      in (d, td_overall d))"

fun Decode_all :: "TimeDecoder \<Rightarrow> time64 list \<Rightarrow> time64 list" where
  "Decode_all d [] = []"
| "Decode_all d (ts # tss) = (case TimeDecoder_Decode d ts of (d, t) \<Rightarrow> t # Decode_all d tss)"

section \<open>Differences modulo 2^33\<close>

text \<open>The stamp of the time \<open>x\<close>.\<close>

definition stamp :: "int \<Rightarrow> time64" where
  "stamp x = word_of_int (x mod 2 ^ 33)"

lemma take_bit_word_of_int64: "n \<le> 64 \<Longrightarrow> take_bit n (word_of_int k :: time64) = word_of_int (k mod 2 ^ n)"
  by (rule bit_word_eqI) (auto simp: bit_simps take_bit_eq_mod [symmetric])

lemma stamp_diff: "(stamp y - stamp x) AND td_maximum = word_of_int ((y - x) mod 2 ^ 33)"
proof -
  have "(stamp y - stamp x) AND td_maximum = take_bit 33 (word_of_int (y mod 2 ^ 33 - x mod 2 ^ 33))"
    by (simp add: stamp_def td_maximum_def take_bit_eq_mask mask_eq_exp_minus_1)
  also have "\<dots> = word_of_int ((y mod 2 ^ 33 - x mod 2 ^ 33) mod 2 ^ 33)" by (rule take_bit_word_of_int64) simp
  finally show ?thesis by (simp only: mod_diff_eq)
qed

lemma sint_small64: "0 \<le> k \<Longrightarrow> k < 2 ^ 33 \<Longrightarrow> sint (word_of_int k :: time64) = k"
  by (simp add: sint_sbintrunc' signed_take_bit_int_eq_self)

lemma Decode_step:
  assumes "td_initialized d" "td_prev d = stamp x" "- (2 ^ 32) \<le> y - x" "y - x < 2 ^ 32"
  shows "TimeDecoder_Decode d (stamp y) =
    (d\<lparr>td_prev := stamp y, td_overall := td_overall d + word_of_int (y - x)\<rparr>, td_overall d + word_of_int (y - x))"
proof (cases "0 \<le> y - x")
  case True
  then have "(y - x) mod 2 ^ 33 = y - x" using assms(4) by (intro mod_pos_pos_trivial) simp_all
  then have "(stamp y - stamp x) AND td_maximum = word_of_int (y - x)" "sint (word_of_int (y - x) :: time64) = y - x"
    using True assms(4) by (simp_all add: stamp_diff sint_small64 del: of_int_diff)
  then show ?thesis using assms True
    by (simp add: TimeDecoder_Decode_def td_negativeThreshold_def Let_def del: of_int_diff)
next
  case False
  have "(y - x) mod 2 ^ 33 = y - x + 2 ^ 33"
    using mod_add_self2 [of "y - x" "2 ^ 33"] mod_pos_pos_trivial [of "y - x + 2 ^ 33" "2 ^ 33"] False assms(3) by simp
  moreover have "(x - y) mod 2 ^ 33 = x - y" using False assms(3) by (intro mod_pos_pos_trivial) simp_all
  ultimately have "(stamp y - stamp x) AND td_maximum = word_of_int (y - x + 2 ^ 33)"
    "(stamp x - stamp y) AND td_maximum = word_of_int (x - y)" by (simp_all only: stamp_diff)
  moreover have "sint (word_of_int (y - x + 2 ^ 33) :: time64) = y - x + 2 ^ 33" using False assms(3) by (intro sint_small64) simp_all
  ultimately show ?thesis using assms False
    by (simp add: TimeDecoder_Decode_def td_negativeThreshold_def Let_def del: of_int_add of_int_power)
qed

text \<open>Neighbours are less than half a turn apart.\<close>

fun near :: "int list \<Rightarrow> bool" where
  "near (x # y # ys) \<longleftrightarrow> - (2 ^ 32) \<le> y - x \<and> y - x < 2 ^ 32 \<and> near (y # ys)"
| "near xs = True"

lemma Decode_all_from:
  "near (x # xs) \<Longrightarrow> td_initialized d \<Longrightarrow> td_prev d = stamp x \<Longrightarrow> td_overall d = word_of_int (x - x0) \<Longrightarrow>
    Decode_all d (map stamp xs) = map (\<lambda>y. word_of_int (y - x0)) xs"
proof (induction xs arbitrary: x d)
  case (Cons y ys)
  have s: "td_overall d + word_of_int (y - x) = word_of_int (y - x0)" using Cons.prems(4) by simp
  show ?case using Decode_step [OF Cons.prems(2,3), of y] Cons.prems(1) Cons.IH [of y] by (simp add: s Cons.prems(2) del: of_int_diff)
qed simp

section \<open>Properties\<close>

text \<open>C38: TimeDecoder gives the time since the first stamp for every sequence of times whose neighbours are
  less than half a turn of the 33-bit clock apart, in either direction, however often the clock goes round.\<close>

theorem Decode_unwraps:
  assumes "near xs"
  shows "Decode_all TimeDecoder_zero (map stamp xs) = map (\<lambda>x. word_of_int (x - hd xs)) xs"
proof (cases xs)
  case (Cons x ys)
  let ?d = "\<lparr>td_initialized = True, td_overall = 0, td_prev = stamp x\<rparr>"
  have "TimeDecoder_Decode TimeDecoder_zero (stamp x) = (?d, 0)"
    by (simp add: TimeDecoder_Decode_def TimeDecoder_zero_def td_negativeThreshold_def Let_def)
  then show ?thesis using Decode_all_from [of x ys ?d x] assms by (simp add: Cons)
qed simp

theorem Decode_unwraps_witness:
  "Decode_all TimeDecoder_zero (map stamp [2 ^ 33 - 90, 2 ^ 33, 2 ^ 33 + 90, 2 ^ 33 - 10]) = [0, 90, 180, 80]"
  using Decode_unwraps [of "[2 ^ 33 - 90, 2 ^ 33, 2 ^ 33 + 90, 2 ^ 33 - 10]"] by simp

end
