(* ===== verification/Mc_AV1.thy ===== *)
theory Mc_AV1
  imports Gots_Prelude Gots_Fmt
begin

text \<open>
  \<^verbatim>\<open>mediacommon/pkg/codecs/av1\<close>: the numbers of variable length (\<^verbatim>\<open>leb128.go\<close>), the headers of the units
  (\<^verbatim>\<open>obu_header.go\<close>), the stream of units with their sizes (\<^verbatim>\<open>bitstream.go\<close>) and \<^verbatim>\<open>is_random_access.go\<close>.
\<close>

section \<open>LEB128\<close>

type_synonym leb128 = "32 word"

text \<open>The loop over at most eight bytes: \<open>k\<close> are left, and \<open>i\<close> have been read.\<close>

primrec leb_read :: "nat \<Rightarrow> nat \<Rightarrow> byte list \<Rightarrow> leb128 \<Rightarrow> (leb128 \<times> nat) res" where
  "leb_read 0 i buf l = Ok (l, i)"
| "leb_read (Suc k) i buf l =
     (case buf of
        [] \<Rightarrow> Err (ErrorsNew ''not enough bytes'')
      | b # buf \<Rightarrow>
          let l = l OR push_bit (i * 7) (ucast (b AND 0x7F))
          in if b AND 0x80 = 0 then Ok (l, i + 1) else leb_read k (i + 1) buf l)"

definition LEB128_Unmarshal :: "byte list \<Rightarrow> (leb128 \<times> nat) res" where
  "LEB128_Unmarshal buf = leb_read 8 0 buf 0"

lemma unat_drop7: "unat (drop_bit 7 (l :: leb128)) = unat l div 128"
  by (simp add: drop_bit_eq_div unat_div)

lemma leb_smaller: "drop_bit 7 l \<noteq> (0 :: leb128) \<Longrightarrow> unat (drop_bit 7 l) < unat l"
proof -
  assume "drop_bit 7 l \<noteq> 0"
  then have "unat (drop_bit 7 l) \<noteq> 0" by (metis unat_eq_zero)
  then show ?thesis unfolding unat_drop7 by simp
qed

function leb_size :: "leb128 \<Rightarrow> nat \<Rightarrow> nat" where
  "leb_size l n = (let l = drop_bit 7 l; n = n + 1 in if l \<le> 0 then n else leb_size l n)"
  by pat_completeness auto
termination
  by (relation "measure (\<lambda>(l, n). unat l)") (auto simp: leb_smaller)

declare leb_size.simps [simp del]

definition LEB128_MarshalSize :: "leb128 \<Rightarrow> nat" where
  "LEB128_MarshalSize l = leb_size l 0"

text \<open>The bytes are written at \<open>pos\<close> of an array; a write past its end panics.\<close>

function leb_write :: "leb128 \<Rightarrow> byte list \<Rightarrow> nat \<Rightarrow> nat \<Rightarrow> (byte list \<times> nat) res" where
  "leb_write l buf pos n =
     (let curbyte = ucast l AND 0x7F;
          l = drop_bit 7 l
      in if l \<le> 0 then res_bind (wr buf (pos + n) curbyte) (\<lambda>buf. Ok (buf, n + 1))
         else res_bind (wr buf (pos + n) (curbyte OR 0x80)) (\<lambda>buf. leb_write l buf pos (n + 1)))"
  by pat_completeness auto
termination
  by (relation "measure (\<lambda>(l, buf, pos, n). unat l)") (auto simp: leb_smaller)

declare leb_write.simps [simp del]

definition LEB128_MarshalTo :: "leb128 \<Rightarrow> byte list \<Rightarrow> nat \<Rightarrow> (byte list \<times> nat) res" where
  "LEB128_MarshalTo l buf pos = leb_write l buf pos 0"

section \<open>Units\<close>

record OBUHeader =
  OBU_Type :: byte
  OBU_HasSize :: bool

definition OBUHeader_Unmarshal :: "byte list \<Rightarrow> OBUHeader res" where
  "OBUHeader_Unmarshal buf =
     (if length buf < 1 then Err (ErrorsNew ''not enough bytes'')
      else if drop_bit 7 (buf ! 0) \<noteq> 0 then Err (ErrorsNew ''forbidden bit is set'')
      else if drop_bit 2 (buf ! 0) AND 1 \<noteq> 0 then Err (ErrorsNew ''extension flag is not supported yet'')
      else Ok \<lparr>OBU_Type = drop_bit 3 (buf ! 0), OBU_HasSize = drop_bit 1 (buf ! 0) AND 1 \<noteq> 0\<rparr>)"

function bitstream_read :: "byte list list \<Rightarrow> byte list \<Rightarrow> byte list list res" where
  "bitstream_read bs buf =
     res_bind (OBUHeader_Unmarshal buf) (\<lambda>h.
       if \<not> OBU_HasSize h then Err (ErrorsNew ''OBU size not present'')
       else res_bind (slice_from buf 1) (\<lambda>b.
         res_bind (LEB128_Unmarshal b) (\<lambda>(size', n).
           let obuAndSizeLen = 1 + unat size' + n
           in if length buf < obuAndSizeLen then Err (ErrorsNew ''not enough bytes'')
              else
                let obu = (replicate (1 + unat size') 0)[0 := buf ! 0 AND 0xFD];
                    obu = go_copy obu 1 (drop (1 + n) buf);
                    buf = drop obuAndSizeLen buf;
                    bs = bs @ [obu]
                in if buf = [] then Ok bs else bitstream_read bs buf)))"
  by pat_completeness auto
termination
  by (relation "measure (\<lambda>(bs, buf). length buf)") (auto simp: OBUHeader_Unmarshal_def split: if_splits)

declare bitstream_read.simps [simp del]

definition Bitstream_Unmarshal :: "byte list list \<Rightarrow> byte list \<Rightarrow> byte list list res" where
  "Bitstream_Unmarshal bs buf = bitstream_read bs buf"

primrec bitstream_size :: "byte list list \<Rightarrow> nat \<Rightarrow> nat res" where
  "bitstream_size [] n = Ok n"
| "bitstream_size (obu # bs) n =
     (let n = n + length obu
      in res_bind (OBUHeader_Unmarshal obu) (\<lambda>h.
           bitstream_size bs (if \<not> OBU_HasSize h then n + LEB128_MarshalSize (of_nat (length obu - 1)) else n)))"

text \<open>The second pass does not look at the error of the header, which the first has returned.\<close>

definition has_size :: "byte list \<Rightarrow> bool" where
  "has_size obu = (case OBUHeader_Unmarshal obu of Ok h \<Rightarrow> OBU_HasSize h | _ \<Rightarrow> False)"

definition obu_write :: "byte list \<Rightarrow> byte list \<Rightarrow> nat \<Rightarrow> (byte list \<times> nat) res" where
  "obu_write obu buf n =
     (if \<not> has_size obu then
        res_bind (rd obu 0) (\<lambda>b.
        res_bind (wr buf n (b OR 0x02)) (\<lambda>buf.
          let n = n + 1;
              size' = length obu - 1
          in res_bind (LEB128_MarshalTo (of_nat size') buf n) (\<lambda>(buf, k).
               let n = n + k
               in Ok (go_copy buf n (drop 1 obu), n + min (length buf - n) (length obu - 1)))))
      else Ok (go_copy buf n obu, n + min (length buf - n) (length obu)))"

primrec bitstream_write :: "byte list list \<Rightarrow> byte list \<Rightarrow> nat \<Rightarrow> byte list res" where
  "bitstream_write [] buf n = Ok buf"
| "bitstream_write (obu # bs) buf n = res_bind (obu_write obu buf n) (\<lambda>(buf, n). bitstream_write bs buf n)"

definition Bitstream_Marshal :: "byte list list \<Rightarrow> byte list res" where
  "Bitstream_Marshal bs = res_bind (bitstream_size bs 0) (\<lambda>n. bitstream_write bs (replicate n 0) 0)"

definition OBUTypeSequenceHeader :: byte where "OBUTypeSequenceHeader = 1"
definition OBUTypeTemporalDelimiter :: byte where "OBUTypeTemporalDelimiter = 2"

primrec AV1_IsRandomAccess2 :: "byte list list \<Rightarrow> bool" where
  "AV1_IsRandomAccess2 [] = False"
| "AV1_IsRandomAccess2 (obu # tu) =
     (if length obu \<noteq> 0 \<and> drop_bit 3 (obu ! 0) AND 0xF = OBUTypeSequenceHeader then True else AV1_IsRandomAccess2 tu)"

definition AV1_IsRandomAccess :: "byte list list \<Rightarrow> bool res" where
  "AV1_IsRandomAccess tu =
     (if length tu = 0 then Err (ErrorsNew ''temporal unit is empty'')
      else res_bind (rd tu 0) (\<lambda>obu. res_bind (rd obu 0) (\<lambda>b. Ok (drop_bit 3 b AND 0xF = OBUTypeSequenceHeader))))"

section \<open>LEB128: lemmas\<close>

text \<open>The bytes of a number, seven bits in each, the lowest first.\<close>

function leb_bytes :: "leb128 \<Rightarrow> byte list" where
  "leb_bytes l =
     (if drop_bit 7 l = 0 then [ucast l AND 0x7F] else (ucast l AND 0x7F OR 0x80) # leb_bytes (drop_bit 7 l))"
  by pat_completeness auto
termination
  by (relation "measure unat") (auto simp: leb_smaller)

declare leb_bytes.simps [simp del]

lemma leb_size_bytes: "leb_size l n = n + length (leb_bytes l)"
proof (induction l n rule: leb_size.induct)
  case (1 l n)
  then show ?case by (subst leb_size.simps, subst leb_bytes.simps) (simp add: Let_def)
qed

lemma length_leb_bytes: "unat l < 2 ^ (7 * k) \<Longrightarrow> 0 < k \<Longrightarrow> length (leb_bytes l) \<le> k"
proof (induction k arbitrary: l)
  case (Suc k)
  show ?case
  proof (cases "drop_bit 7 l = 0")
    case True
    then show ?thesis by (subst leb_bytes.simps) simp
  next
    case False
    then have "unat l div 128 \<noteq> 0" unfolding unat_drop7 [symmetric] by (metis unat_eq_zero)
    then have "k \<noteq> 0" using Suc.prems(1) by (cases k) simp_all
    moreover have "unat (drop_bit 7 l) < 2 ^ (7 * k)"
      using Suc.prems(1) by (simp add: drop_bit_eq_div unat_div power_add less_mult_imp_div_less)
    ultimately have "length (leb_bytes (drop_bit 7 l)) \<le> k" using Suc.IH by simp
    then show ?thesis using False by (subst leb_bytes.simps) simp
  qed
qed simp

lemma bit_7F: "bit (0x7F :: int) n \<longleftrightarrow> n < 7"
proof -
  have "(0x7F :: int) = mask 7" by (simp add: mask_eq_exp_minus_1)
  then show ?thesis by (simp only: bit_mask_iff) auto
qed

lemma bit_80: "bit (0x80 :: int) n \<longleftrightarrow> n = 7"
proof -
  have "(0x80 :: int) = 2 ^ 7" by simp
  then show ?thesis by (simp only: bit_exp_iff) auto
qed

lemma leb_join: "push_bit i (ucast (ucast l AND 0x7F :: byte)) OR push_bit (i + 7) (drop_bit 7 l) = push_bit i (l :: leb128)"
proof (rule bit_word_eqI)
  fix n assume "n < LENGTH(32)"
  moreover have "7 + (n - (i + 7)) = n - i" if "i + 7 \<le> n" using that by simp
  ultimately show "bit (push_bit i (ucast (ucast l AND 0x7F :: byte)) OR push_bit (i + 7) (drop_bit 7 l)) n = bit (push_bit i l) n"
    by (cases "i + 7 \<le> n") (auto simp: bit_simps bit_7F)
qed

lemma leb_byte:
  "(ucast (l :: leb128) AND 0x7F OR 0x80 :: byte) AND 0x7F = ucast l AND 0x7F"
  "(ucast l AND 0x7F OR 0x80 :: byte) AND 0x80 = 0x80" "(ucast l AND 0x7F :: byte) AND 0x80 = 0"
  by (rule bit_word_eqI; auto simp: bit_simps bit_7F bit_80)+

lemma leb_read_bytes:
  "length (leb_bytes l) \<le> k \<Longrightarrow> leb_read k i (leb_bytes l @ t) v = Ok (v OR push_bit (7 * i) l, i + length (leb_bytes l))"
proof (induction k arbitrary: l i v)
  case 0
  have "leb_bytes l \<noteq> []" by (subst leb_bytes.simps) simp
  then show ?case using 0 by simp
next
  case (Suc k)
  have j: "push_bit (7 * i) (ucast (ucast l AND 0x7F :: byte)) OR push_bit (7 * i + 7) (drop_bit 7 l) = push_bit (7 * i) l"
    by (rule leb_join)
  show ?case
  proof (cases "drop_bit 7 l = 0")
    case True
    then show ?thesis using j by (subst leb_bytes.simps, subst leb_bytes.simps) (simp add: leb_byte mult.commute)
  next
    case False
    then have b: "leb_bytes l = (ucast l AND 0x7F OR 0x80) # leb_bytes (drop_bit 7 l)" by (subst leb_bytes.simps) simp
    then have "length (leb_bytes (drop_bit 7 l)) \<le> k" using Suc.prems by simp
    from Suc.IH [OF this, of "Suc i" "v OR push_bit (7 * i) (ucast (ucast l AND 0x7F :: byte))"] show ?thesis
      by (simp add: b leb_byte Let_def mult.commute [of i 7] or.assoc j [unfolded add.commute [of "7 * i"]])
  qed
qed

lemma LEB128_read_bytes: "LEB128_Unmarshal (leb_bytes l @ t) = Ok (l, length (leb_bytes l))"
proof -
  have "unat l < 2 ^ (7 * 5)" using unsigned_less [of l, where 'a = nat] by simp
  then have "length (leb_bytes l) \<le> 5" by (rule length_leb_bytes) simp
  then show ?thesis using leb_read_bytes [of l 8 0 t 0] by (simp add: LEB128_Unmarshal_def)
qed

lemma leb_write_bytes:
  "pos + n + length (leb_bytes l) \<le> length buf \<Longrightarrow>
    leb_write l buf pos n = Ok (take (pos + n) buf @ leb_bytes l @ drop (pos + n + length (leb_bytes l)) buf, n + length (leb_bytes l))"
proof (induction l buf pos n rule: leb_write.induct)
  case (1 l buf pos n)
  show ?case
  proof (cases "drop_bit 7 l = 0")
    case True
    then have b: "leb_bytes l = [ucast l AND 0x7F]" by (subst leb_bytes.simps) simp
    have "pos + n < length buf" using "1.prems" by (simp add: b)
    then show ?thesis using True by (subst leb_write.simps) (simp add: b wr_def upd_conv_take_nth_drop)
  next
    case False
    let ?c = "ucast l AND 0x7F OR 0x80"
    from False have b: "leb_bytes l = ?c # leb_bytes (drop_bit 7 l)" by (subst leb_bytes.simps) simp
    have p: "pos + n < length buf" using "1.prems" by (simp add: b)
    then have w: "wr buf (pos + n) ?c = Ok (buf[pos + n := ?c])" by (simp add: wr_def)
    have "leb_write (drop_bit 7 l) (buf[pos + n := ?c]) pos (n + 1) =
      Ok (take (pos + (n + 1)) (buf[pos + n := ?c]) @ leb_bytes (drop_bit 7 l) @
        drop (pos + (n + 1) + length (leb_bytes (drop_bit 7 l))) (buf[pos + n := ?c]), n + 1 + length (leb_bytes (drop_bit 7 l)))"
      using "1.IH" [OF refl refl _ w] False "1.prems" by (simp add: b)
    moreover have "take (pos + (n + 1)) (buf[pos + n := ?c]) = take (pos + n) buf @ [?c]" using p by (simp add: take_Suc_conv_app_nth)
    ultimately show ?thesis using False by (subst leb_write.simps) (simp add: b w Let_def)
  qed
qed

section \<open>Streams: lemmas\<close>

text \<open>A unit that has no size of its own, and how it is written.\<close>

definition plain_obu :: "byte list \<Rightarrow> bool" where
  "plain_obu obu \<longleftrightarrow> (\<exists>h. OBUHeader_Unmarshal obu = Ok h \<and> \<not> OBU_HasSize h) \<and> length obu \<le> 2 ^ 32"

definition obu_frame :: "byte list \<Rightarrow> byte list" where
  "obu_frame obu = (obu ! 0 OR 0x02) # leb_bytes (of_nat (length obu - 1)) @ drop 1 obu"

lemma size_bits: "drop_bit 1 (b :: byte) AND 1 \<noteq> 0 \<longleftrightarrow> bit b 1"
  by (simp add: and_one_eq mod2_eq_if bit_iff_odd_drop_bit)

lemma plain_header:
  assumes "plain_obu obu"
  obtains b bs where "obu = b # bs" "drop_bit 7 b = 0" "drop_bit 2 b AND 1 = 0" "\<not> bit b 1" "length bs < 2 ^ 32"
  using assms that size_bits
  by (cases obu) (auto simp: plain_obu_def OBUHeader_Unmarshal_def split: if_splits)

lemma plain_no_size: "plain_obu obu \<Longrightarrow> \<not> has_size obu"
  by (auto simp: plain_obu_def has_size_def)

lemma bitstream_size_frames:
  "\<forall>obu \<in> set bs. plain_obu obu \<Longrightarrow> bitstream_size bs n = Ok (n + length (concat (map obu_frame bs)))"
proof (induction bs arbitrary: n)
  case (Cons obu bs)
  then obtain h where h: "OBUHeader_Unmarshal obu = Ok h" "\<not> OBU_HasSize h" by (auto simp: plain_obu_def)
  have "obu \<noteq> []" using h(1) by (auto simp: OBUHeader_Unmarshal_def)
  then show ?case using Cons h by (cases obu) (simp_all add: LEB128_MarshalSize_def leb_size_bytes obu_frame_def Let_def del: of_nat_Suc)
qed simp

lemma obu_write_frame:
  assumes "plain_obu obu" "n + length (obu_frame obu) \<le> length buf"
  shows "obu_write obu buf n =
    Ok (take n buf @ obu_frame obu @ drop (n + length (obu_frame obu)) buf, n + length (obu_frame obu))"
proof -
  obtain b bs where o: "obu = b # bs" using plain_header [OF assms(1)] by metis
  let ?l = "leb_bytes (of_nat (length bs))"
  have f: "obu_frame obu = (b OR 0x02) # ?l @ bs" by (simp add: obu_frame_def o)
  have n: "n + 1 + length ?l + length bs \<le> length buf" using assms(2) by (simp add: f)
  have w: "wr buf n (b OR 0x02) = Ok (take n buf @ (b OR 0x02) # drop (Suc n) buf)"
    using n by (simp add: wr_def upd_conv_take_nth_drop)
  let ?buf = "take n buf @ (b OR 0x02) # drop (Suc n) buf"
  have "LEB128_MarshalTo (of_nat (length bs)) ?buf (n + 1) =
      Ok (take (n + 1) ?buf @ ?l @ drop (n + 1 + length ?l) ?buf, length ?l)"
    using leb_write_bytes [of "n + 1" 0 "of_nat (length bs)" ?buf] n by (simp add: LEB128_MarshalTo_def min_def)
  moreover have "take (n + 1) ?buf = take n buf @ [b OR 0x02]" "drop (n + 1 + length ?l) ?buf = drop (n + 1 + length ?l) buf"
    using n by (simp_all add: min_def add.commute)
  ultimately have m: "LEB128_MarshalTo (of_nat (length bs)) ?buf (n + 1) =
      Ok (take n buf @ (b OR 0x02) # ?l @ drop (n + 1 + length ?l) buf, length ?l)" by simp
  have "go_copy (take n buf @ (b OR 0x02) # ?l @ drop (n + 1 + length ?l) buf) (n + 1 + length ?l) bs =
      take n buf @ obu_frame obu @ drop (n + length (obu_frame obu)) buf"
    using n by (simp add: go_copy_def f min_def ac_simps)
  moreover have "n + 1 + length ?l + min (length buf - (n + 1 + length ?l)) (length bs) = n + length (obu_frame obu)"
    using n by (simp add: f)
  ultimately show ?thesis using w m n plain_no_size [OF assms(1)] by (simp add: obu_write_def o)
qed

lemma bitstream_write_frames:
  "\<forall>obu \<in> set bs. plain_obu obu \<Longrightarrow> n + length (concat (map obu_frame bs)) \<le> length buf \<Longrightarrow>
    bitstream_write bs buf n = Ok (take n buf @ concat (map obu_frame bs) @ drop (n + length (concat (map obu_frame bs))) buf)"
proof (induction bs arbitrary: buf n)
  case (Cons obu bs)
  let ?f = "obu_frame obu"
  have n: "n + length ?f \<le> length buf" using Cons.prems(2) by simp
  let ?buf = "take n buf @ ?f @ drop (n + length ?f) buf"
  have "bitstream_write bs ?buf (n + length ?f) = Ok (take (n + length ?f) ?buf @ concat (map obu_frame bs) @
      drop (n + length ?f + length (concat (map obu_frame bs))) ?buf)"
    using Cons.prems n by (intro Cons.IH) simp_all
  moreover have "take (n + length ?f) ?buf = take n buf @ ?f" using n by auto
  moreover have "drop (n + length ?f + k) ?buf = drop (n + length ?f + k) buf" for k using n by (simp add: min_def add.commute)
  ultimately show ?case using obu_write_frame [of obu n buf] Cons.prems(1) n by (simp add: add.assoc)
qed simp

lemma or_2_header:
  assumes "drop_bit 7 (b :: byte) = 0" "drop_bit 2 b AND 1 = 0" "\<not> bit b 1"
  shows "drop_bit 7 (b OR 2) = 0" "drop_bit 2 (b OR 2) AND 1 = 0" "bit (b OR 2) 1" "(b OR 2) AND 0xFD = b"
proof -
  show "drop_bit 7 (b OR 2) = 0" "drop_bit 2 (b OR 2) AND 1 = 0" using assms(1,2) by simp_all
  have two: "bit (2 :: byte) n \<longleftrightarrow> n = 1" for n
  proof -
    have "bit (2 ^ 1 :: byte) n \<longleftrightarrow> n = 1" by (simp only: bit_exp_iff) auto
    then show ?thesis by simp
  qed
  then show "bit (b OR 2) 1" by (simp only: bit_or_iff) simp
  have "(0xFD :: byte) = NOT 2" by simp
  then show "(b OR 2) AND 0xFD = b"
    by (simp only:) (rule bit_word_eqI, use assms(3) in \<open>auto simp only: bit_and_iff bit_or_iff bit_not_iff two possible_bit_word\<close>)
qed

lemma read_frame:
  assumes "plain_obu obu"
  shows "bitstream_read bs (obu_frame obu @ rest) = (if rest = [] then Ok (bs @ [obu]) else bitstream_read (bs @ [obu]) rest)"
proof -
  obtain b us where o: "obu = b # us" "drop_bit 7 b = 0" "drop_bit 2 b AND 1 = 0" "\<not> bit b 1" "length us < 2 ^ 32"
    using plain_header [OF assms] by metis
  note h = or_2_header [OF o(2-4)]
  let ?l = "leb_bytes (of_nat (length us))"
  have f: "obu_frame obu @ rest = (b OR 2) # ?l @ us @ rest" by (simp add: obu_frame_def o)
  have hd: "OBUHeader_Unmarshal (obu_frame obu @ rest) = Ok \<lparr>OBU_Type = drop_bit 3 (b OR 2), OBU_HasSize = True\<rparr>"
    using h(1,2) h(3) [folded size_bits] by (simp add: OBUHeader_Unmarshal_def f)
  have u: "unat (of_nat (length us) :: leb128) = length us" using o(5) by (simp add: unat_of_nat)
  have l: "LEB128_Unmarshal (?l @ us @ rest) = Ok (of_nat (length us), length ?l)" by (rule LEB128_read_bytes)
  have c: "go_copy ((replicate (1 + length us) 0)[0 := (b OR 2) AND 0xFD]) 1 (us @ r) = obu" for r
    using h(4) by (simp add: go_copy_def o(1))
  have t: "slice_from (obu_frame obu @ rest) 1 = Ok (?l @ us @ rest)" by (simp only: f) (simp add: slice_def)
  show ?thesis
    by (subst bitstream_read.simps, simp only: hd [unfolded f] t [unfolded f] res_bind.simps l prod.case Let_def f)
      (simp add: u c [simplified] c [of "[]", simplified])
qed

lemma read_frames:
  "bs \<noteq> [] \<Longrightarrow> \<forall>obu \<in> set bs. plain_obu obu \<Longrightarrow> bitstream_read us (concat (map obu_frame bs)) = Ok (us @ bs)"
proof (induction bs arbitrary: us)
  case (Cons obu bs)
  show ?case
  proof (cases bs)
    case Nil
    then show ?thesis using read_frame [of obu us "[]"] Cons.prems(2) by simp
  next
    case (Cons o' bs')
    then have "concat (map obu_frame bs) \<noteq> []" by (simp add: obu_frame_def)
    then show ?thesis using read_frame [of obu us "concat (map obu_frame bs)"] Cons.prems(2) Cons.IH [of "us @ [obu]"] Cons by simp
  qed
qed simp

section \<open>Any bytes\<close>

lemma leb_read_safe: "leb_read k i buf l \<noteq> Panic"
  by (induction k arbitrary: i buf l) (simp_all add: Let_def split: list.split)

text \<open>A unit that was read has no size of its own any more.\<close>

definition obu_read_ok :: "byte list \<Rightarrow> bool" where
  "obu_read_ok obu \<longleftrightarrow> obu \<noteq> [] \<and> \<not> has_size obu"

lemma read_obu_ok:
  assumes "OBUHeader_Unmarshal buf = Ok h"
  shows "obu_read_ok ((replicate (Suc n) 0)[0 := buf ! 0 AND 0xFD])" "obu_read_ok (go_copy ((replicate (Suc n) 0)[0 := buf ! 0 AND 0xFD]) 1 src)"
proof -
  let ?b = "buf ! 0 AND 0xFD"
  have "(0xFD :: byte) = NOT (2 ^ 1)" by simp
  then have "\<not> bit ?b 1" by (simp only: bit_and_iff bit_not_iff bit_exp_iff) simp
  then have "drop_bit 1 ?b AND 1 = 0" using size_bits [of ?b] by blast
  then have "\<not> has_size (?b # us)" for us by (simp add: has_size_def OBUHeader_Unmarshal_def)
  then show "obu_read_ok ((replicate (Suc n) 0)[0 := ?b])" "obu_read_ok (go_copy ((replicate (Suc n) 0)[0 := ?b]) 1 src)"
    by (simp_all add: obu_read_ok_def go_copy_def)
qed

lemma bitstream_read_safe:
  "\<forall>obu \<in> set bs. obu_read_ok obu \<Longrightarrow>
    (case bitstream_read bs buf of Ok us \<Rightarrow> us \<noteq> [] \<and> (\<forall>obu \<in> set us. obu_read_ok obu) | Err e \<Rightarrow> True | Panic \<Rightarrow> False)"
proof (induction bs buf rule: bitstream_read.induct)
  case (1 bs buf)
  show ?case
  proof (cases "OBUHeader_Unmarshal buf")
    case (Ok h)
    then have ne: "buf \<noteq> []" by (auto simp: OBUHeader_Unmarshal_def)
    then have sl: "slice_from buf 1 = Ok (drop 1 buf)" by (cases buf) (simp_all add: slice_def)
    show ?thesis
    proof (cases "OBU_HasSize h")
      case size: True
      show ?thesis
      proof (cases "LEB128_Unmarshal (drop 1 buf)")
        case (Ok r)
        obtain l n where r: "r = (l, n)" by (cases r)
        let ?obu = "go_copy ((replicate (1 + unat l) 0)[0 := buf ! 0 AND 0xFD]) 1 (drop (1 + n) buf)"
        have "\<forall>u \<in> set (bs @ [?obu]). obu_read_ok u"
          using "1.prems" read_obu_ok(2) [OF \<open>OBUHeader_Unmarshal buf = Ok h\<close>, of "unat l"] by simp
        then show ?thesis
          using "1.IH" [OF \<open>OBUHeader_Unmarshal buf = Ok h\<close> _ sl Ok r [symmetric] refl _ refl refl refl refl] size
          by (subst bitstream_read.simps) (simp add: \<open>OBUHeader_Unmarshal buf = Ok h\<close> sl [simplified] Ok [simplified] r Let_def)
      next
        case Panic
        then show ?thesis using leb_read_safe [of 8 0 "drop 1 buf" 0] by (simp add: LEB128_Unmarshal_def)
      qed (use size Ok sl in \<open>simp add: bitstream_read.simps\<close>)
    qed (use Ok in \<open>simp add: bitstream_read.simps\<close>)
  next
    case Panic
    then show ?thesis by (simp add: OBUHeader_Unmarshal_def split: if_splits)
  qed (simp add: bitstream_read.simps)
qed

section \<open>Properties\<close>

text \<open>C36: any units, at least one, each of at most 4 GiB with a header that the library reads (so no
  extension flag, which it refuses as unsupported) and that says that the unit has no size of its own, are written
  as a stream with their sizes, and the stream gives the units back, behind those that the receiver holds.\<close>

theorem bitstream_roundtrip:
  assumes "bs \<noteq> []" "\<forall>obu \<in> set bs. plain_obu obu"
  shows "res_bind (Bitstream_Marshal bs) (Bitstream_Unmarshal us) = Ok (us @ bs)"
proof -
  have "Bitstream_Marshal bs = Ok (concat (map obu_frame bs))"
    using bitstream_size_frames [OF assms(2), of 0] bitstream_write_frames [OF assms(2), of 0] by (simp add: Bitstream_Marshal_def)
  then show ?thesis using read_frames [OF assms, of us] by (simp add: Bitstream_Unmarshal_def del: res_bind_Ok_iff)
qed

theorem bitstream_roundtrip_witness:
  "res_bind (Bitstream_Marshal [[0x08, 1, 2], [0x10]]) (Bitstream_Unmarshal []) = Ok [[0x08, 1, 2], [0x10]]"
  using bitstream_roundtrip [of "[[0x08, 1, 2], [0x10]]" "[]"] by (simp add: plain_obu_def OBUHeader_Unmarshal_def)

text \<open>A number that is encoded by LEB128.MarshalTo, anywhere in an array, is decoded by LEB128.Unmarshal, whatever follows
  it; MarshalSize gives the number of bytes, between one and five, and bytes outside are not touched.\<close>

theorem LEB128_roundtrip:
  assumes "pos + LEB128_MarshalSize l \<le> length buf"
  shows "\<exists>bs. LEB128_MarshalTo l buf pos = Ok (take pos buf @ bs @ drop (pos + LEB128_MarshalSize l) buf, LEB128_MarshalSize l) \<and>
    length bs = LEB128_MarshalSize l \<and> 1 \<le> length bs \<and> length bs \<le> 5 \<and> LEB128_Unmarshal (bs @ rest) = Ok (l, length bs)"
proof (intro exI [of _ "leb_bytes l"] conjI)
  have s: "LEB128_MarshalSize l = length (leb_bytes l)" by (simp add: LEB128_MarshalSize_def leb_size_bytes)
  show "LEB128_MarshalTo l buf pos =
      Ok (take pos buf @ leb_bytes l @ drop (pos + LEB128_MarshalSize l) buf, LEB128_MarshalSize l)"
    using leb_write_bytes [of pos 0 l buf] assms by (simp add: LEB128_MarshalTo_def s)
  show "length (leb_bytes l) = LEB128_MarshalSize l" by (simp add: s)
  show "1 \<le> length (leb_bytes l)" by (subst leb_bytes.simps) simp
  have "unat l < 2 ^ (7 * 5)" using unsigned_less [of l, where 'a = nat] by simp
  then show "length (leb_bytes l) \<le> 5" by (rule length_leb_bytes) simp
  show "LEB128_Unmarshal (leb_bytes l @ rest) = Ok (l, length (leb_bytes l))" by (rule LEB128_read_bytes)
qed

theorem LEB128_roundtrip_witness:
  "\<exists>bs. LEB128_MarshalTo 300 [0, 0, 0] 0 = Ok (take 0 [0, 0, 0] @ bs @ drop (0 + LEB128_MarshalSize 300) [0, 0, 0], LEB128_MarshalSize 300) \<and>
    length bs = LEB128_MarshalSize 300 \<and> 1 \<le> length bs \<and> length bs \<le> 5 \<and> LEB128_Unmarshal (bs @ []) = Ok (300, length bs)"
  by (rule LEB128_roundtrip) (simp add: LEB128_MarshalSize_def leb_size.simps Let_def)

text \<open>On any bytes Bitstream.Unmarshal returns an error or at least one unit, none of which is empty or has a size of its
  own; it never runs past the end.\<close>

theorem bitstream_bounded:
  "case Bitstream_Unmarshal [] buf of Ok us \<Rightarrow> us \<noteq> [] \<and> (\<forall>obu \<in> set us. obu_read_ok obu) | Err e \<Rightarrow> True | Panic \<Rightarrow> False"
  using bitstream_read_safe [of "[]" buf] by (simp add: Bitstream_Unmarshal_def)

end
