(* ===== verification/Mc_ADTS.thy ===== *)
theory Mc_ADTS
  imports Mc_Bits
begin

text \<open>
  \<^verbatim>\<open>mediacommon/pkg/codecs/mpeg4audio/adts.go\<close> and \<^verbatim>\<open>sample_rates.go\<close>: audio packets behind headers of seven bytes.
  Marshal fills in the channel configuration of the packets it is given, which are pointers; the packets are returned
  with the bytes.  Object types, rates and channel counts are of type \<^verbatim>\<open>int\<close>.
\<close>

section \<open>Packets\<close>

definition MaxAudioUnitSize :: nat where "MaxAudioUnitSize = 5 * 1024"

definition sampleRates :: "int list" where
  "sampleRates = [96000, 88200, 64000, 48000, 44100, 32000, 24000, 22050, 16000, 12000, 11025, 8000, 7350]"

definition reverseSampleRates :: "int \<Rightarrow> nat option" where
  "reverseSampleRates = map_of
     [(96000, 0), (88200, 1), (64000, 2), (48000, 3), (44100, 4), (32000, 5), (24000, 6), (22050, 7), (16000, 8),
      (12000, 9), (11025, 10), (8000, 11), (7350, 12)]"

record ADTSPacket =
  adts_Type :: int
  adts_SampleRate :: int
  adts_ChannelConfig :: byte
  adts_ChannelCount :: int
  adts_AU :: "byte list"

definition adts_channels :: "byte \<Rightarrow> int res" where
  "adts_channels c =
     (if c \<ge> 1 \<and> c \<le> 6 then Ok (uint c)
      else if c = 7 then Ok 8
      else if c = 0 then Ok 0
      else Errorf (''unsupported channel configuration: '' @ show_nat (unat c)))"

definition adts_frameLen :: "byte list \<Rightarrow> nat \<Rightarrow> int" where
  "adts_frameLen buf pos =
     uint (push_bit 11 (ucast (buf ! (pos + 3)) AND 0x03) OR push_bit 3 (ucast (buf ! (pos + 4))) OR
       drop_bit 5 (ucast (buf ! (pos + 5))) AND 0x07 :: u16) - 7"

text \<open>One packet at \<open>pos\<close>, of at least eight bytes to the end; with it, the length of its unit.\<close>

definition adts_packet :: "byte list \<Rightarrow> nat \<Rightarrow> (ADTSPacket \<times> nat) res" where
  "adts_packet buf pos =
     (let syncWord = push_bit 4 (ucast (buf ! pos)) OR drop_bit 4 (ucast (buf ! (pos + 1))) :: u16
      in if syncWord \<noteq> 0xFFF then Errorf ''invalid syncword''
         else if buf ! (pos + 1) AND 0x01 \<noteq> 1 then Errorf ''CRC is not supported''
         else
           let typ = uint (drop_bit 6 (buf ! (pos + 2)) + 1);
               sampleRateIndex = drop_bit 2 (buf ! (pos + 2)) AND 0x0F
           in if \<not> sampleRateIndex \<le> 12 then Errorf (''invalid sample rate index: '' @ show_nat (unat sampleRateIndex))
              else
                let config = push_bit 2 (buf ! (pos + 2) AND 0x01) OR (drop_bit 6 (buf ! (pos + 3)) AND 0x03)
                in res_bind (adts_channels config) (\<lambda>count.
                     let frameLen = adts_frameLen buf pos
                     in if frameLen \<le> 0 then Errorf ''invalid FrameLen''
                        else if frameLen > int MaxAudioUnitSize then
                          Errorf (''access unit size ('' @ show_int frameLen @ '') is too big, maximum is '' @ show_nat MaxAudioUnitSize)
                        else if buf ! (pos + 6) AND 0x03 \<noteq> 0 then Errorf ''frame count greater than 1 is not supported''
                        else if int (length buf - (pos + 7)) < frameLen then Errorf ''invalid frame length''
                        else res_bind (slice buf (pos + 7) (pos + 7 + nat frameLen)) (\<lambda>au.
                          Ok (\<lparr>adts_Type = typ, adts_SampleRate = sampleRates ! unat sampleRateIndex, adts_ChannelConfig = config,
                            adts_ChannelCount = count, adts_AU = au\<rparr>, nat frameLen))))"

function adts_read :: "ADTSPacket list \<Rightarrow> byte list \<Rightarrow> nat \<Rightarrow> ADTSPacket list res" where
  "adts_read ps buf pos =
     (if length buf - pos < 8 then Errorf ''invalid length''
      else res_bind (adts_packet buf pos) (\<lambda>(pkt, frameLen).
        let pos = pos + (7 + frameLen);
            ps = ps @ [pkt]
        in if length buf - pos = 0 then Ok ps else adts_read ps buf pos))"
  by pat_completeness auto
termination
  by (relation "measure (\<lambda>(ps, buf, pos). length buf - pos)") auto

declare adts_read.simps [simp del]

definition ADTS_Unmarshal :: "ADTSPacket list \<Rightarrow> byte list \<Rightarrow> ADTSPacket list res" where
  "ADTS_Unmarshal ps buf = adts_read ps buf 0"

definition adts_marshalSize :: "ADTSPacket list \<Rightarrow> nat" where
  "adts_marshalSize ps = fold (\<lambda>pkt n. n + (7 + length (adts_AU pkt))) ps 0"

definition fill_config :: "ADTSPacket \<Rightarrow> ADTSPacket res" where
  "fill_config pkt =
     (if adts_ChannelConfig pkt = 0 then
        if adts_ChannelCount pkt = 0 then Ok (pkt\<lparr>adts_ChannelConfig := 0\<rparr>)
        else if adts_ChannelCount pkt \<ge> 1 \<and> adts_ChannelCount pkt \<le> 6 then
          Ok (pkt\<lparr>adts_ChannelConfig := word_of_int (adts_ChannelCount pkt)\<rparr>)
        else if adts_ChannelCount pkt = 8 then Ok (pkt\<lparr>adts_ChannelConfig := 7\<rparr>)
        else Errorf (''invalid channel count ('' @ show_int (adts_ChannelCount pkt) @ '')'')
      else Ok pkt)"

definition adts_header :: "ADTSPacket \<Rightarrow> nat \<Rightarrow> byte list" where
  "adts_header pkt sampleRateIndex =
     (let frameLen = length (adts_AU pkt) + 7;
          fullness = 0x07FF :: nat
      in [0xFF, 0xF1,
          push_bit 6 (word_of_int (adts_Type pkt - 1)) OR push_bit 2 (of_nat sampleRateIndex) OR drop_bit 2 (adts_ChannelConfig pkt),
          push_bit 6 (adts_ChannelConfig pkt AND 0x03) OR of_nat (drop_bit 11 frameLen),
          of_nat (drop_bit 3 frameLen),
          push_bit 5 (of_nat (frameLen AND 0x07)) OR of_nat (drop_bit 6 fullness),
          push_bit 2 (of_nat (fullness AND 0x3F))])"

text \<open>The seven assignments of the header, then the unit.\<close>

primrec adts_put :: "ADTSPacket list \<Rightarrow> byte list \<Rightarrow> nat \<Rightarrow> (byte list \<times> ADTSPacket list) res" where
  "adts_put [] buf pos = Ok (buf, [])"
| "adts_put (pkt # ps) buf pos =
     (if adts_Type pkt < 1 \<or> adts_Type pkt > 4 then
        Errorf (''ADTS only supports ObjectType 1-4, got '' @ show_int (adts_Type pkt))
      else (case reverseSampleRates (adts_SampleRate pkt) of
              None \<Rightarrow> Errorf (''invalid sample rate: '' @ show_int (adts_SampleRate pkt))
            | Some sampleRateIndex \<Rightarrow>
                res_bind (fill_config pkt) (\<lambda>pkt.
                  let buf = go_copy buf pos (adts_header pkt sampleRateIndex);
                      pos = pos + 7;
                      n = min (length buf - pos) (length (adts_AU pkt));
                      buf = go_copy buf pos (adts_AU pkt)
                  in res_bind (adts_put ps buf (pos + n)) (\<lambda>(buf, ps). Ok (buf, pkt # ps)))))"

definition ADTS_Marshal :: "ADTSPacket list \<Rightarrow> (byte list \<times> ADTSPacket list) res" where
  "ADTS_Marshal ps = adts_put ps (replicate (adts_marshalSize ps) 0) 0"

section \<open>The bits of a header\<close>

lemma small_bit: "unat (v :: 'a::len word) < 2 ^ n \<Longrightarrow> n \<le> i \<Longrightarrow> \<not> bit v i"
  using small_word_bit [of v n i] by auto

lemma small_nat_bit: "(k :: nat) < 2 ^ n \<Longrightarrow> n \<le> i \<Longrightarrow> \<not> bit k i"
proof
  assume k: "k < 2 ^ n" "n \<le> i" "bit k i"
  have "take_bit n k = k" using k(1) by (rule take_bit_nat_eq_self)
  then have "bit (take_bit n k) i" using k(3) by (simp only:)
  then show False using k(2) by (simp add: bit_take_bit_iff)
qed

lemma bit_masks:
  "bit (0x03 :: int) n \<longleftrightarrow> n < 2" "bit (0x07 :: int) n \<longleftrightarrow> n < 3" "bit (0x0F :: int) n \<longleftrightarrow> n < 4" "bit (0x1F :: int) n \<longleftrightarrow> n < 5"
  "bit (0x07 :: nat) n \<longleftrightarrow> n < 3"
proof -
  have "(0x03 :: int) = mask 2" "(0x07 :: int) = mask 3" "(0x0F :: int) = mask 4" "(0x1F :: int) = mask 5" "(0x07 :: nat) = mask 3"
    by (simp_all add: mask_eq_exp_minus_1)
  then show "bit (0x03 :: int) n \<longleftrightarrow> n < 2" "bit (0x07 :: int) n \<longleftrightarrow> n < 3" "bit (0x0F :: int) n \<longleftrightarrow> n < 4" "bit (0x1F :: int) n \<longleftrightarrow> n < 5"
    "bit (0x07 :: nat) n \<longleftrightarrow> n < 3" by (simp_all only: bit_mask_iff) simp_all
qed

lemma bit_6144: "bit (6144 :: int) n \<longleftrightarrow> 11 \<le> n \<and> n < 13"
proof -
  have "(6144 :: int) = push_bit 11 (mask 2)" by (simp add: mask_eq_exp_minus_1)
  then show ?thesis by (simp only: bit_push_bit_iff bit_mask_iff) auto
qed

lemma frame_len_bits:
  assumes "L < 2 ^ 13"
  shows "(push_bit 11 (ucast (push_bit 6 (c AND 0x03) OR of_nat (drop_bit 11 L) :: byte) AND 0x03) OR
    push_bit 3 (ucast (of_nat (drop_bit 3 L) :: byte)) OR
    drop_bit 5 (ucast (push_bit 5 (of_nat (L AND 0x07)) OR 0x1F :: byte)) AND 0x07 :: u16) = of_nat L" (is "?l = ?r")
proof (rule bit_word_eqI)
  fix j assume "j < LENGTH(16)"
  have b: "13 \<le> i \<Longrightarrow> \<not> bit L i" for i using small_nat_bit [OF assms] .
  have e: "3 \<le> j \<Longrightarrow> 3 + (j - 3) = j" "11 \<le> j \<Longrightarrow> 11 + (j - 11) = j" by simp_all
  consider "j < 3" | "3 \<le> j" "j < 11" | "11 \<le> j" "j < 13" | "13 \<le> j" by linarith
  then show "bit ?l j = bit ?r j"
    by cases (use b e \<open>j < LENGTH(16)\<close> in \<open>auto simp: bit_simps bit_masks bit_6144\<close>)
qed

lemma adts_header_bits:
  fixes t i c :: byte
  assumes "unat t < 2 ^ 2" "unat i < 2 ^ 4" "unat c < 2 ^ 3"
  shows "drop_bit 6 (push_bit 6 t OR push_bit 2 i OR drop_bit 2 c) = t"
    "drop_bit 2 (push_bit 6 t OR push_bit 2 i OR drop_bit 2 c) AND 0x0F = i"
    "(push_bit 6 t OR push_bit 2 i OR drop_bit 2 c) AND 1 = drop_bit 2 c"
proof -
  have b: "bit t n \<Longrightarrow> n < 2" "bit i n \<Longrightarrow> n < 4" "bit c n \<Longrightarrow> n < 3" for n
    using small_word_bit [OF assms(1)] small_word_bit [OF assms(2)] small_word_bit [OF assms(3)] by blast+
  show "drop_bit 6 (push_bit 6 t OR push_bit 2 i OR drop_bit 2 c) = t"
    "drop_bit 2 (push_bit 6 t OR push_bit 2 i OR drop_bit 2 c) AND 0x0F = i"
    "(push_bit 6 t OR push_bit 2 i OR drop_bit 2 c) AND 1 = drop_bit 2 c"
    by (rule bit_word_eqI; auto simp: bit_simps bit_masks dest: b)+
qed

lemma config_bits:
  fixes c :: byte
  assumes "unat c < 2 ^ 3" "n < 4"
  shows "push_bit 2 (drop_bit 2 c) OR (drop_bit 6 (push_bit 6 (c AND 0x03) OR of_nat n) AND 0x03) = c"
proof (rule bit_word_eqI)
  fix j assume j: "j < LENGTH(8)"
  have b: "2 \<le> i \<Longrightarrow> \<not> bit n i" for i using small_nat_bit [of n 2 i] assms(2) by simp
  have e: "2 \<le> j \<Longrightarrow> Suc (Suc (j - 2)) = j" by simp
  consider "j < 2" | "2 \<le> j" by linarith
  then show "bit (push_bit 2 (drop_bit 2 c) OR (drop_bit 6 (push_bit 6 (c AND 0x03) OR of_nat n) AND 0x03)) j = bit c j"
    by cases (use b j e in \<open>auto simp: bit_simps bit_masks\<close>)
qed

section \<open>Streams\<close>

definition adts_config :: "ADTSPacket \<Rightarrow> byte" where
  "adts_config pkt =
     (if adts_ChannelConfig pkt \<noteq> 0 then adts_ChannelConfig pkt
      else if adts_ChannelCount pkt = 8 then 7 else word_of_int (adts_ChannelCount pkt))"

text \<open>A packet with the configuration filled in, and the count that belongs to it.\<close>

definition adts_canon :: "ADTSPacket \<Rightarrow> ADTSPacket" where
  "adts_canon pkt = pkt\<lparr>adts_ChannelConfig := adts_config pkt,
     adts_ChannelCount := if adts_config pkt = 7 then 8 else uint (adts_config pkt)\<rparr>"

definition adts_ok :: "ADTSPacket \<Rightarrow> bool" where
  "adts_ok pkt \<longleftrightarrow> 1 \<le> adts_Type pkt \<and> adts_Type pkt \<le> 4 \<and> adts_SampleRate pkt \<in> set sampleRates \<and>
     adts_AU pkt \<noteq> [] \<and> length (adts_AU pkt) \<le> MaxAudioUnitSize \<and> adts_ChannelConfig pkt \<le> 7 \<and>
     (adts_ChannelConfig pkt = 0 \<longrightarrow> adts_ChannelCount pkt \<in> {0, 1, 2, 3, 4, 5, 6, 8})"

lemma adts_config_less: "adts_ok pkt \<Longrightarrow> unat (adts_config pkt) < 2 ^ 3"
  by (auto simp: adts_ok_def adts_config_def word_le_nat_alt)

lemma fill_ok: "adts_ok pkt \<Longrightarrow> fill_config pkt = Ok (pkt\<lparr>adts_ChannelConfig := adts_config pkt\<rparr>)"
  by (cases pkt) (auto simp: adts_ok_def fill_config_def adts_config_def)

lemma rate_index:
  assumes "r \<in> set sampleRates"
  obtains i where "reverseSampleRates r = Some i" "i \<le> 12" "sampleRates ! i = r"
  using assms that by (auto simp: sampleRates_def reverseSampleRates_def)

lemma channels_config:
  assumes "unat c < 2 ^ 3"
  shows "adts_channels c = Ok (if c = 7 then 8 else uint c)"
proof -
  have "unat c \<le> 7" using assms by simp
  then have "c \<le> 7" by (simp add: word_le_nat_alt)
  moreover have "1 \<le> c \<or> c = 0" using unat_eq_zero [of c] by (auto simp: word_le_nat_alt)
  moreover have "c \<le> 6" if "c \<noteq> 7"
  proof -
    have "unat c \<noteq> 7" using that by (simp add: word_unat_eq_iff)
    then show ?thesis using \<open>unat c \<le> 7\<close> by (simp add: word_le_nat_alt)
  qed
  ultimately show ?thesis by (auto simp: adts_channels_def)
qed

lemma nth_header:
  "(pre @ [a0, a1, a2, a3, a4, a5, a6] @ t) ! length pre = a0" "(pre @ [a0, a1, a2, a3, a4, a5, a6] @ t) ! (length pre + 1) = a1"
  "(pre @ [a0, a1, a2, a3, a4, a5, a6] @ t) ! (length pre + 2) = a2" "(pre @ [a0, a1, a2, a3, a4, a5, a6] @ t) ! (length pre + 3) = a3"
  "(pre @ [a0, a1, a2, a3, a4, a5, a6] @ t) ! (length pre + 4) = a4" "(pre @ [a0, a1, a2, a3, a4, a5, a6] @ t) ! (length pre + 5) = a5"
  "(pre @ [a0, a1, a2, a3, a4, a5, a6] @ t) ! (length pre + 6) = a6"
  by (simp_all add: nth_append)

lemma frameLen_header:
  assumes "n \<le> MaxAudioUnitSize"
  shows "adts_frameLen (pre @ [a0, a1, a2, push_bit 6 (c AND 0x03) OR of_nat (drop_bit 11 (n + 7)), of_nat (drop_bit 3 (n + 7)),
    push_bit 5 (of_nat ((n + 7) AND 0x07)) OR 0x1F, a6] @ t) (length pre) = int n"
proof -
  have l: "n + 7 < 2 ^ 13" using assms by (simp add: MaxAudioUnitSize_def)
  then have "uint (of_nat (n + 7) :: u16) = int n + 7"
    by (subst uint_nat) (simp add: unat_of_nat del: of_nat_add)
  then show ?thesis unfolding adts_frameLen_def nth_header frame_len_bits [OF l] by simp
qed

definition adts_frame :: "ADTSPacket \<Rightarrow> byte list" where
  "adts_frame pkt =
     adts_header (pkt\<lparr>adts_ChannelConfig := adts_config pkt\<rparr>) (the (reverseSampleRates (adts_SampleRate pkt))) @ adts_AU pkt"

lemma packet_frame:
  assumes "adts_ok pkt"
  shows "adts_packet (pre @ adts_frame pkt @ t) (length pre) = Ok (adts_canon pkt, length (adts_AU pkt))"
proof -
  obtain i where i: "reverseSampleRates (adts_SampleRate pkt) = Some i" "i \<le> 12" "sampleRates ! i = adts_SampleRate pkt"
    using assms rate_index [of "adts_SampleRate pkt"] by (auto simp: adts_ok_def)
  let ?c = "adts_config pkt" and ?t = "word_of_int (adts_Type pkt - 1) :: byte" and ?n = "length (adts_AU pkt)"
  have n: "?n \<le> MaxAudioUnitSize" "0 < ?n" using assms by (simp_all add: adts_ok_def)
  have ty: "adts_Type pkt \<in> {1, 2, 3, 4}" using assms by (auto simp: adts_ok_def)
  then have t: "unat ?t < 2 ^ 2" "uint (word_of_int (adts_Type pkt) :: byte) = adts_Type pkt" by auto
  have iw: "unat (of_nat i :: byte) = i" using i(2) by (simp add: unat_of_nat)
  then have i4: "unat (of_nat i :: byte) < 2 ^ 4" "(of_nat i :: byte) \<le> 12" using i(2) by (simp_all add: word_le_nat_alt)
  note c = adts_config_less [OF assms]
  have hi: "drop_bit 11 (?n + 7) < 4" using n(1) by (simp add: MaxAudioUnitSize_def drop_bit_eq_div)
  let ?b2 = "push_bit 6 ?t OR push_bit 2 (of_nat i) OR drop_bit 2 ?c" and ?b3 = "push_bit 6 (?c AND 0x03) OR of_nat (drop_bit 11 (?n + 7))"
    and ?b4 = "of_nat (drop_bit 3 (?n + 7)) :: byte" and ?b5 = "push_bit 5 (of_nat ((?n + 7) AND 0x07)) OR 0x1F :: byte"
  let ?buf = "pre @ [0xFF, 0xF1, ?b2, ?b3, ?b4, ?b5, 0xFC] @ adts_AU pkt @ t"
  have f: "pre @ adts_frame pkt @ t = ?buf" by (simp add: adts_frame_def adts_header_def i(1) Let_def)
  note h = nth_header [of pre "0xFF" "0xF1" ?b2 ?b3 ?b4 ?b5 "0xFC" "adts_AU pkt @ t"]
  have l: "adts_frameLen ?buf (length pre) = int ?n" by (rule frameLen_header [OF n(1)])
  have sl: "Gots_Prelude.slice ?buf (length pre + 7) (length pre + 7 + ?n) = Ok (adts_AU pkt)" by (simp add: slice_def)
  have cf: "push_bit 2 (?b2 AND 0x01) OR (drop_bit 6 ?b3 AND 0x03) = ?c"
    unfolding adts_header_bits(3) [OF t(1) i4(1) c] by (rule config_bits [OF c hi])
  show ?thesis unfolding f adts_packet_def h adts_header_bits(1,2) [OF t(1) i4(1) c] cf channels_config [OF c] l Let_def
    using n i4(2) sl t(2) by (cases pkt) (simp add: iw i(3) adts_canon_def)
qed

lemma length_adts_frame: "length (adts_frame pkt) = 7 + length (adts_AU pkt)"
  by (simp add: adts_frame_def adts_header_def Let_def)

lemma adts_read_frames:
  "ps \<noteq> [] \<Longrightarrow> \<forall>pkt \<in> set ps. adts_ok pkt \<Longrightarrow>
    adts_read qs (pre @ concat (map adts_frame ps)) (length pre) = Ok (qs @ map adts_canon ps)"
proof (induction ps arbitrary: qs pre)
  case (Cons pkt ps)
  let ?t = "concat (map adts_frame ps)"
  have p: "adts_packet (pre @ adts_frame pkt @ ?t) (length pre) = Ok (adts_canon pkt, length (adts_AU pkt))"
    using Cons.prems(2) by (intro packet_frame) simp
  have "adts_AU pkt \<noteq> []" using Cons.prems(2) by (simp add: adts_ok_def)
  then have "\<not> length (pre @ adts_frame pkt @ ?t) - length pre < 8" by (cases "adts_AU pkt") (simp_all add: length_adts_frame)
  then have "adts_read qs (pre @ adts_frame pkt @ ?t) (length pre) =
      (if ?t = [] then Ok (qs @ [adts_canon pkt])
       else adts_read (qs @ [adts_canon pkt]) ((pre @ adts_frame pkt) @ ?t) (length (pre @ adts_frame pkt)))"
    by (subst adts_read.simps) (simp add: p length_adts_frame Let_def)
  moreover have "?t \<noteq> []" if ne: "ps \<noteq> []"
  proof -
    obtain q qs' where "ps = q # qs'" using ne by (cases ps) auto
    moreover have "adts_frame q \<noteq> []" using length_adts_frame [of q] by auto
    ultimately show ?thesis by simp
  qed
  moreover have "adts_read (qs @ [adts_canon pkt]) ((pre @ adts_frame pkt) @ ?t) (length (pre @ adts_frame pkt)) =
      Ok ((qs @ [adts_canon pkt]) @ map adts_canon ps)" if "ps \<noteq> []"
    using that Cons.prems(2) by (intro Cons.IH) simp_all
  ultimately show ?case by (cases "ps = []") simp_all
qed simp

lemma adts_marshalSize_sum: "adts_marshalSize ps = length (concat (map adts_frame ps))"
proof -
  have "fold (\<lambda>pkt n. n + (7 + length (adts_AU pkt))) ps n = n + length (concat (map adts_frame ps))" for n
    by (induction ps arbitrary: n) (simp_all add: length_adts_frame)
  then show ?thesis by (simp add: adts_marshalSize_def)
qed

lemma adts_put_frames:
  "\<forall>pkt \<in> set ps. adts_ok pkt \<Longrightarrow> length pre = pos \<Longrightarrow>
    adts_put ps (pre @ replicate (length (concat (map adts_frame ps))) 0) pos =
    Ok (pre @ concat (map adts_frame ps), map (\<lambda>pkt. pkt\<lparr>adts_ChannelConfig := adts_config pkt\<rparr>) ps)"
proof (induction ps arbitrary: pre pos)
  case (Cons pkt ps)
  have ok: "adts_ok pkt" using Cons.prems(1) by simp
  obtain i where i: "reverseSampleRates (adts_SampleRate pkt) = Some i"
    using ok rate_index [of "adts_SampleRate pkt"] by (auto simp: adts_ok_def)
  let ?p = "pkt\<lparr>adts_ChannelConfig := adts_config pkt\<rparr>" and ?z = "\<lambda>n. replicate n (0 :: byte)"
  let ?h = "adts_header ?p i" and ?r = "?z (length (concat (map adts_frame ps)))"
  have f: "adts_frame pkt = ?h @ adts_AU pkt" by (simp add: adts_frame_def i)
  have lh: "length ?h = 7" by (simp add: adts_header_def Let_def)
  have z: "pre @ ?z (length (concat (map adts_frame (pkt # ps)))) = pre @ ?z 7 @ ?z (length (adts_AU pkt)) @ ?r"
    by (simp add: length_adts_frame replicate_add [symmetric] add.assoc)
  have g1: "go_copy (pre @ ?z 7 @ ?z (length (adts_AU pkt)) @ ?r) pos ?h = pre @ ?h @ ?z (length (adts_AU pkt)) @ ?r"
    using Cons.prems(2) lh by (simp add: go_copy_def)
  have g2: "go_copy (pre @ ?h @ ?z (length (adts_AU pkt)) @ ?r) (pos + 7) (adts_AU pkt) = (pre @ adts_frame pkt) @ ?r"
    using Cons.prems(2) lh by (simp add: go_copy_def f)
  have n: "pos + 7 + min (length (pre @ ?h @ ?z (length (adts_AU pkt)) @ ?r) - (pos + 7)) (length (adts_AU pkt)) =
      pos + (7 + length (adts_AU pkt))" using Cons.prems(2) lh by simp
  have ih: "adts_put ps ((pre @ adts_frame pkt) @ ?r) (pos + (7 + length (adts_AU pkt))) =
      Ok ((pre @ adts_frame pkt) @ concat (map adts_frame ps), map (\<lambda>pkt. pkt\<lparr>adts_ChannelConfig := adts_config pkt\<rparr>) ps)"
    using Cons.prems by (intro Cons.IH) (simp_all add: length_adts_frame)
  have au: "adts_AU ?p = adts_AU pkt" by simp
  have ty: "\<not> (adts_Type pkt < 1 \<or> 4 < adts_Type pkt)" using ok by (simp add: adts_ok_def)
  show ?case unfolding z adts_put.simps i fill_ok [OF ok] res_bind.simps option.case Let_def g1 au n g2 ih if_not_P [OF ty]
    by simp
qed simp

section \<open>Any bytes\<close>

text \<open>What a packet that was read looks like.\<close>

definition adts_read_ok :: "ADTSPacket \<Rightarrow> bool" where
  "adts_read_ok pkt \<longleftrightarrow> 1 \<le> adts_Type pkt \<and> adts_Type pkt \<le> 4 \<and> adts_SampleRate pkt \<in> set sampleRates \<and>
     adts_AU pkt \<noteq> [] \<and> length (adts_AU pkt) \<le> MaxAudioUnitSize"

lemma packet_type: "1 \<le> uint (drop_bit 6 (b :: byte) + 1)" "uint (drop_bit 6 (b :: byte) + 1) \<le> 4"
proof -
  have "uint (drop_bit 6 b) = uint b div 64" by (simp add: drop_bit_eq_div uint_div)
  moreover have "uint b < 256" using uint_lt2p [of b] by simp
  ultimately have "uint (drop_bit 6 b) \<le> 3" by linarith
  moreover have "0 \<le> uint (drop_bit 6 b)" by simp
  ultimately have "uint (drop_bit 6 b + 1) = uint (drop_bit 6 b) + 1" by (subst uint_word_ariths) (simp add: take_bit_int_eq_self)
  then show "1 \<le> uint (drop_bit 6 b + 1)" "uint (drop_bit 6 b + 1) \<le> 4" using \<open>uint (drop_bit 6 b) \<le> 3\<close> by simp_all
qed

definition packet_fine :: "(ADTSPacket \<times> nat) res \<Rightarrow> bool" where
  "packet_fine r \<longleftrightarrow> (case r of Ok (pkt, n) \<Rightarrow> adts_read_ok pkt | Err e \<Rightarrow> True | Panic \<Rightarrow> False)"

lemma fine_if: "(c \<Longrightarrow> packet_fine a) \<Longrightarrow> (\<not> c \<Longrightarrow> packet_fine b) \<Longrightarrow> packet_fine (if c then a else b)" by simp

lemma fine_Err: "packet_fine (Err e)" by (simp add: packet_fine_def)

lemma fine_channels: "(\<And>x. packet_fine (f x)) \<Longrightarrow> packet_fine (res_bind (adts_channels c) f)"
  by (simp add: adts_channels_def packet_fine_def)

lemma fine_slice: "i \<le> j \<Longrightarrow> j \<le> length xs \<Longrightarrow> packet_fine (f (take (j - i) (drop i xs))) \<Longrightarrow> packet_fine (res_bind (slice xs i j) f)"
  by simp

lemma packet_safe:
  assumes "8 \<le> length buf - pos"
  shows "packet_fine (adts_packet buf pos)"
proof -
  have rate: "sampleRates ! unat w \<in> set sampleRates" if "w \<le> (12 :: byte)" for w
    using that by (intro nth_mem) (simp add: sampleRates_def word_le_nat_alt)
  show ?thesis unfolding adts_packet_def Let_def
  proof (rule fine_if fine_Err fine_channels fine_slice)+
    fix c
    let ?L = "adts_frameLen buf pos"
    assume l: "\<not> ?L \<le> 0" "\<not> ?L > int MaxAudioUnitSize" "\<not> int (length buf - (pos + 7)) < ?L"
      and r: "\<not> \<not> drop_bit 2 (buf ! (pos + 2)) AND 0x0F \<le> 12"
    show "pos + 7 \<le> pos + 7 + nat ?L" by simp
    show e: "pos + 7 + nat ?L \<le> length buf" using l assms by linarith
    have "length (take (nat ?L) (drop (pos + 7) buf)) = nat ?L" using e by simp
    then have "take (nat ?L) (drop (pos + 7) buf) \<noteq> []" "length (take (nat ?L) (drop (pos + 7) buf)) \<le> MaxAudioUnitSize"
      using l(1,2) by auto
    then show "packet_fine (Ok (\<lparr>adts_Type = uint (drop_bit 6 (buf ! (pos + 2)) + 1),
        adts_SampleRate = sampleRates ! unat (drop_bit 2 (buf ! (pos + 2)) AND 0x0F),
        adts_ChannelConfig = push_bit 2 (buf ! (pos + 2) AND 0x01) OR (drop_bit 6 (buf ! (pos + 3)) AND 0x03),
        adts_ChannelCount = c, adts_AU = take (pos + 7 + nat ?L - (pos + 7)) (drop (pos + 7) buf)\<rparr>, nat ?L))"
      using packet_type [of "buf ! (pos + 2)"] rate [of "drop_bit 2 (buf ! (pos + 2)) AND 0x0F"] r
      by (simp add: packet_fine_def adts_read_ok_def)
  qed
qed

lemma adts_read_safe:
  "\<forall>pkt \<in> set ps. adts_read_ok pkt \<Longrightarrow>
    (case adts_read ps buf pos of Ok qs \<Rightarrow> qs \<noteq> [] \<and> (\<forall>pkt \<in> set qs. adts_read_ok pkt) | Err e \<Rightarrow> True | Panic \<Rightarrow> False)"
proof (induction ps buf pos rule: adts_read.induct)
  case (1 ps buf pos)
  show ?case
  proof (cases "length buf - pos < 8")
    case False
    then have l: "8 \<le> length buf - pos" by simp
    show ?thesis
    proof (cases "adts_packet buf pos")
      case (Ok r)
      obtain pkt n where r: "r = (pkt, n)" by (cases r)
      have "adts_read_ok pkt" using packet_safe [OF l] Ok r by (simp add: packet_fine_def)
      then have "\<forall>p \<in> set (ps @ [pkt]). adts_read_ok p" using "1.prems" by simp
      then show ?thesis using "1.IH" [OF False Ok r [symmetric] refl refl] Ok r False by (subst adts_read.simps) (simp add: Let_def)
    qed (use packet_safe [OF l] False in \<open>simp_all add: adts_read.simps packet_fine_def\<close>)
  qed (simp add: adts_read.simps)
qed

section \<open>Properties\<close>

text \<open>C37: packets with an object type, a sample rate and channels that the format has, and units of 1 to 5120
  bytes, are written as a stream that gives the packets back, with the channel configuration and the channel count
  filled in from each other; Marshal fills in the configuration of the packets it is given.\<close>

theorem adts_roundtrip:
  assumes "ps \<noteq> []" "\<forall>pkt \<in> set ps. adts_ok pkt"
  shows "\<exists>buf. ADTS_Marshal ps = Ok (buf, map (\<lambda>pkt. pkt\<lparr>adts_ChannelConfig := adts_config pkt\<rparr>) ps) \<and>
    ADTS_Unmarshal qs buf = Ok (qs @ map adts_canon ps)"
proof (intro exI conjI)
  show "ADTS_Marshal ps = Ok (concat (map adts_frame ps), map (\<lambda>pkt. pkt\<lparr>adts_ChannelConfig := adts_config pkt\<rparr>) ps)"
    using adts_put_frames [OF assms(2), of "[]" 0] by (simp add: ADTS_Marshal_def adts_marshalSize_sum)
  show "ADTS_Unmarshal qs (concat (map adts_frame ps)) = Ok (qs @ map adts_canon ps)"
    using adts_read_frames [OF assms, of qs "[]"] by (simp add: ADTS_Unmarshal_def)
qed

theorem adts_roundtrip_witness:
  "\<exists>buf. ADTS_Marshal [\<lparr>adts_Type = 2, adts_SampleRate = 44100, adts_ChannelConfig = 0, adts_ChannelCount = 8, adts_AU = [1, 2, 3]\<rparr>] =
      Ok (buf, [\<lparr>adts_Type = 2, adts_SampleRate = 44100, adts_ChannelConfig = 7, adts_ChannelCount = 8, adts_AU = [1, 2, 3]\<rparr>]) \<and>
    ADTS_Unmarshal [] buf =
      Ok [\<lparr>adts_Type = 2, adts_SampleRate = 44100, adts_ChannelConfig = 7, adts_ChannelCount = 8, adts_AU = [1, 2, 3]\<rparr>]"
  using adts_roundtrip [of "[\<lparr>adts_Type = 2, adts_SampleRate = 44100, adts_ChannelConfig = 0, adts_ChannelCount = 8, adts_AU = [1, 2, 3]\<rparr>]" "[]"]
  by (simp add: adts_ok_def sampleRates_def MaxAudioUnitSize_def adts_config_def adts_canon_def)

text \<open>On any bytes ADTSPackets.Unmarshal returns an error or at least one packet, each with an object type, a sample rate
  and a unit within the bounds; it never runs past the end.\<close>

theorem adts_bounded:
  "case ADTS_Unmarshal [] buf of Ok qs \<Rightarrow> qs \<noteq> [] \<and> (\<forall>pkt \<in> set qs. adts_read_ok pkt) | Err e \<Rightarrow> True | Panic \<Rightarrow> False"
  using adts_read_safe [of "[]" buf 0] by (simp add: ADTS_Unmarshal_def)

end
