(* ===== verification/Mc_ASC.thy ===== *)
theory Mc_ASC
  imports Mc_Code Mc_ADTS
begin

text \<open>
  \<^verbatim>\<open>mediacommon/pkg/codecs/mpeg4audio/audio_specific_config.go\<close>: the configuration of an audio decoder.  The reader
  takes the receiver and returns it changed; on an error it is left out.
\<close>

section \<open>The configuration\<close>

definition ObjectTypeAACLC :: int where "ObjectTypeAACLC = 2"
definition ObjectTypeSBR :: int where "ObjectTypeSBR = 5"
definition ObjectTypePS :: int where "ObjectTypePS = 29"

record AudioSpecificConfig =
  asc_Type :: int
  asc_SampleRate :: int
  asc_ChannelConfig :: byte
  asc_ChannelCount :: int
  asc_ExtensionType :: int
  asc_ExtensionSampleRate :: int
  asc_FrameLengthFlag :: bool
  asc_DependsOnCoreCoder :: bool
  asc_CoreCoderDelay :: u16

definition ASC_zero :: AudioSpecificConfig where
  "ASC_zero = \<lparr>asc_Type = 0, asc_SampleRate = 0, asc_ChannelConfig = 0, asc_ChannelCount = 0, asc_ExtensionType = 0,
     asc_ExtensionSampleRate = 0, asc_FrameLengthFlag = False, asc_DependsOnCoreCoder = False, asc_CoreCoderDelay = 0\<rparr>"

text \<open>The rate by its index or in 24 bits, with the text of the error.\<close>

definition asc_read_rate :: "(u64 \<Rightarrow> string) \<Rightarrow> byte list \<Rightarrow> nat \<Rightarrow> (int \<times> nat) res" where
  "asc_read_rate msg buf pos =
     res_bind (ReadBits buf pos 4) (\<lambda>(sampleRateIndex, pos).
       if sampleRateIndex \<le> 12 then Ok (sampleRates ! unat sampleRateIndex, pos)
       else if sampleRateIndex = 0x0F then res_bind (ReadBits buf pos 24) (\<lambda>(tmp, pos). Ok (uint tmp, pos))
       else Errorf (msg sampleRateIndex))"

definition asc_channels :: "byte \<Rightarrow> nat \<Rightarrow> (int \<times> nat) res" where
  "asc_channels c pos =
     (if c \<ge> 1 \<and> c \<le> 6 then Ok (uint c, pos)
      else if c = 7 then Ok (8, pos)
      else if c = 0 then Ok (0, pos)
      else Errorf (''unsupported channel configuration ('' @ show_nat (unat c) @ '')''))"

definition unsupported_type :: "int \<Rightarrow> 'a res" where
  "unsupported_type t = Errorf (''unsupported object type: '' @ show_int t)"

text \<open>The object type of an extension is followed by the rate and the type of the core.\<close>

definition asc_read_extension :: "AudioSpecificConfig \<Rightarrow> byte list \<Rightarrow> nat \<Rightarrow> (AudioSpecificConfig \<times> nat) res" where
  "asc_read_extension c buf pos =
     (if asc_Type c = ObjectTypeSBR \<or> asc_Type c = ObjectTypePS then
        res_bind (asc_read_rate (\<lambda>i. ''invalid extension sample rate index: '' @ show_nat (unat i)) buf pos) (\<lambda>(rate, pos).
        res_bind (ReadBits buf pos 5) (\<lambda>(tmp, pos).
          if uint tmp \<noteq> ObjectTypeAACLC then unsupported_type (uint tmp)
          else Ok (c\<lparr>asc_ExtensionType := asc_Type c, asc_ExtensionSampleRate := rate, asc_Type := uint tmp\<rparr>, pos)))
      else Ok (c, pos))"

definition asc_read_ga :: "AudioSpecificConfig \<Rightarrow> byte list \<Rightarrow> nat \<Rightarrow> (AudioSpecificConfig \<times> nat) res" where
  "asc_read_ga c buf pos =
     res_bind (ReadFlag buf pos) (\<lambda>(frameLengthFlag, pos).
     res_bind (ReadFlag buf pos) (\<lambda>(dependsOnCoreCoder, pos).
     res_bind (if dependsOnCoreCoder then res_bind (ReadBits buf pos 14) (\<lambda>(tmp, pos). Ok (ucast tmp, pos))
               else Ok (asc_CoreCoderDelay c, pos)) (\<lambda>(coreCoderDelay, pos).
     res_bind (ReadFlag buf pos) (\<lambda>(extensionFlag, pos).
       if extensionFlag then Errorf ''extensionFlag is unsupported''
       else Ok (c\<lparr>asc_FrameLengthFlag := frameLengthFlag, asc_DependsOnCoreCoder := dependsOnCoreCoder,
                  asc_CoreCoderDelay := coreCoderDelay\<rparr>, pos)))))"

definition ASC_unmarshalBits :: "AudioSpecificConfig \<Rightarrow> byte list \<Rightarrow> nat \<Rightarrow> (AudioSpecificConfig \<times> nat) res" where
  "ASC_unmarshalBits c buf pos =
     res_bind (ReadBits buf pos 5) (\<lambda>(tmp, pos).
       if uint tmp \<notin> {ObjectTypeAACLC, ObjectTypeSBR, ObjectTypePS} then unsupported_type (uint tmp)
       else
         res_bind (asc_read_rate (\<lambda>i. ''invalid sample rate index ('' @ show_nat (unat i) @ '')'') buf pos) (\<lambda>(rate, pos).
         res_bind (ReadBits buf pos 4) (\<lambda>(config, pos).
         res_bind (asc_channels (ucast config) pos) (\<lambda>(count, pos).
         res_bind (asc_read_extension (c\<lparr>asc_Type := uint tmp, asc_SampleRate := rate, asc_ChannelConfig := ucast config,
           asc_ChannelCount := count\<rparr>) buf pos) (\<lambda>(c, pos). asc_read_ga c buf pos)))))"

definition ASC_Unmarshal :: "AudioSpecificConfig \<Rightarrow> byte list \<Rightarrow> AudioSpecificConfig res" where
  "ASC_Unmarshal c buf = res_bind (ASC_unmarshalBits c buf 0) (\<lambda>(c, pos). Ok c)"

definition has_extension :: "AudioSpecificConfig \<Rightarrow> bool" where
  "has_extension c \<longleftrightarrow> asc_ExtensionType c = ObjectTypeSBR \<or> asc_ExtensionType c = ObjectTypePS"

definition rate_size :: "int \<Rightarrow> nat" where
  "rate_size r = (if reverseSampleRates r = None then 28 else 4)"

definition ASC_marshalSizeBits :: "AudioSpecificConfig \<Rightarrow> nat" where
  "ASC_marshalSizeBits c =
     (let n = 5 + 4 + 2 + 1 + rate_size (asc_SampleRate c);
          n = (if has_extension c then n + rate_size (asc_ExtensionSampleRate c) + 5 else n)
      in if asc_DependsOnCoreCoder c then n + 14 else n)"

definition ASC_marshalSize :: "AudioSpecificConfig \<Rightarrow> nat" where
  "ASC_marshalSize c =
     (let n = ASC_marshalSizeBits c; ret = n div 8 in if n mod 8 \<noteq> 0 then ret + 1 else ret)"

definition asc_put_rate :: "int \<Rightarrow> byte list \<Rightarrow> nat \<Rightarrow> (byte list \<times> nat) res" where
  "asc_put_rate r buf pos =
     (case reverseSampleRates r of
        None \<Rightarrow> res_bind (WriteBitsUnsafe buf pos 15 4) (\<lambda>(buf, pos). WriteBitsUnsafe buf pos (word_of_int r) 24)
      | Some i \<Rightarrow> WriteBitsUnsafe buf pos (of_nat i) 4)"

definition asc_fill_config :: "AudioSpecificConfig \<Rightarrow> byte res" where
  "asc_fill_config c =
     (if asc_ChannelCount c \<noteq> 0 then
        if asc_ChannelCount c \<ge> 1 \<and> asc_ChannelCount c \<le> 6 then Ok (word_of_int (asc_ChannelCount c))
        else if asc_ChannelCount c = 8 then Ok 7
        else Errorf (''invalid channel count ('' @ show_int (asc_ChannelCount c) @ '')'')
      else Ok (asc_ChannelConfig c))"

definition ASC_marshalToBits :: "AudioSpecificConfig \<Rightarrow> byte list \<Rightarrow> nat \<Rightarrow> (byte list \<times> nat) res" where
  "ASC_marshalToBits c buf pos =
     res_bind (WriteBitsUnsafe buf pos (word_of_int (if has_extension c then asc_ExtensionType c else asc_Type c)) 5) (\<lambda>(buf, pos).
     res_bind (asc_put_rate (asc_SampleRate c) buf pos) (\<lambda>(buf, pos).
     res_bind (asc_fill_config c) (\<lambda>config.
     res_bind (WriteBitsUnsafe buf pos (ucast config) 4) (\<lambda>(buf, pos).
     res_bind (if has_extension c then
                 res_bind (asc_put_rate (asc_ExtensionSampleRate c) buf pos) (\<lambda>(buf, pos).
                   WriteBitsUnsafe buf pos (word_of_int (asc_Type c)) 5)
               else Ok (buf, pos)) (\<lambda>(buf, pos).
     res_bind (WriteFlagUnsafe buf pos (asc_FrameLengthFlag c)) (\<lambda>(buf, pos).
     res_bind (WriteFlagUnsafe buf pos (asc_DependsOnCoreCoder c)) (\<lambda>(buf, pos).
     res_bind (if asc_DependsOnCoreCoder c then WriteBitsUnsafe buf pos (ucast (asc_CoreCoderDelay c)) 14 else Ok (buf, pos))
       (\<lambda>(buf, pos). Ok (buf, pos + 1)))))))))"

definition ASC_Marshal :: "AudioSpecificConfig \<Rightarrow> byte list res" where
  "ASC_Marshal c = res_bind (ASC_marshalToBits c (replicate (ASC_marshalSize c) 0) 0) (\<lambda>(buf, pos). Ok buf)"

section \<open>Writing\<close>

text \<open>The fields that are written, before the last flag, which is skipped.\<close>

definition rate_fields :: "int \<Rightarrow> (u64 \<times> nat) list" where
  "rate_fields r = (case reverseSampleRates r of None \<Rightarrow> [(15, 4), (word_of_int r, 24)] | Some i \<Rightarrow> [(of_nat i, 4)])"

definition asc_fields :: "AudioSpecificConfig \<Rightarrow> byte \<Rightarrow> (u64 \<times> nat) list" where
  "asc_fields c config =
     [(word_of_int (if has_extension c then asc_ExtensionType c else asc_Type c), 5)] @ rate_fields (asc_SampleRate c) @
     [(ucast config, 4)] @
     (if has_extension c then rate_fields (asc_ExtensionSampleRate c) @ [(word_of_int (asc_Type c), 5)] else []) @
     [(of_bool (asc_FrameLengthFlag c), 1)] @ [(of_bool (asc_DependsOnCoreCoder c), 1)] @
     (if asc_DependsOnCoreCoder c then [(ucast (asc_CoreCoderDelay c), 14)] else [])"

lemma WriteAll_append:
  "WriteAll buf pos (fs @ gs) = res_bind (WriteAll buf pos fs) (\<lambda>(buf, pos). WriteAll buf pos gs)"
proof (induction buf pos fs rule: WriteAll.induct)
  case (2 buf pos v n fs)
  then show ?case by (cases "WriteBitsUnsafe buf pos v n") auto
qed simp

lemma WriteAll_one: "WriteAll buf pos [(v, n)] = WriteBitsUnsafe buf pos v n"
  by (cases "WriteBitsUnsafe buf pos v n") auto

lemma put_rate_WriteAll: "asc_put_rate r buf pos = WriteAll buf pos (rate_fields r)"
proof (cases "reverseSampleRates r")
  case None
  have "WriteAll buf pos (rate_fields r) = WriteAll buf pos ([(15, 4)] @ [(word_of_int r, 24)])" by (simp add: rate_fields_def None)
  then show ?thesis unfolding WriteAll_append WriteAll_one by (simp add: asc_put_rate_def None)
next
  case (Some i)
  then show ?thesis by (simp add: asc_put_rate_def rate_fields_def WriteAll_one del: WriteAll.simps)
qed

lemma marshal_WriteAll:
  assumes "asc_fill_config c = Ok config"
  shows "ASC_marshalToBits c buf pos = res_bind (WriteAll buf pos (asc_fields c config)) (\<lambda>(buf, pos). Ok (buf, pos + 1))"
proof -
  have assoc: "res_bind (res_bind m f) g = res_bind m (\<lambda>x. res_bind (f x) g)" for m :: "('a) res" and f :: "'a \<Rightarrow> 'b res" and g :: "'b \<Rightarrow> 'c res"
    by (cases m) simp_all
  have cases: "res_bind (case x of (a, b) \<Rightarrow> f a b) g = (case x of (a, b) \<Rightarrow> res_bind (f a b) g)"
    for x :: "'a \<times> 'b" and f :: "'a \<Rightarrow> 'b \<Rightarrow> 'c res" and g :: "'c \<Rightarrow> 'd res" by (cases x) simp
  have opt: "WriteAll buf pos (if b then fs else []) = (if b then WriteAll buf pos fs else Ok (buf, pos))" for b buf pos fs by simp
  have flag: "WriteFlagUnsafe buf pos f = WriteAll buf pos [(of_bool f, 1)]" for buf pos f
    by (simp add: WriteFlagUnsafe_def WriteAll_one del: WriteAll.simps)
  show ?thesis
    unfolding ASC_marshalToBits_def asc_fields_def assms res_bind.simps put_rate_WriteAll flag WriteAll_append opt WriteAll_one assoc cases
    by (rule refl)
qed

section \<open>Reading\<close>

definition rate_ok :: "int \<Rightarrow> bool" where
  "rate_ok r \<longleftrightarrow> r \<in> set sampleRates \<or> 0 \<le> r \<and> r < 2 ^ 24"

definition rate_code :: "int \<Rightarrow> bool list" where
  "rate_code r = (case reverseSampleRates r of
     None \<Rightarrow> word_bits 4 (15 :: u64) @ word_bits 24 (word_of_int r :: u64) @ [] | Some i \<Rightarrow> word_bits 4 (of_nat i :: u64) @ [])"

lemma reverse_rates: "reverseSampleRates r = Some i \<Longrightarrow> i \<le> 12 \<and> sampleRates ! i = r"
  by (auto simp: reverseSampleRates_def sampleRates_def split: if_splits)

lemma reverse_none: "reverseSampleRates r = None \<Longrightarrow> r \<notin> set sampleRates"
  by (auto simp: reverseSampleRates_def sampleRates_def split: if_splits)

lemma ucast_id64: "ucast (x :: u64) = x" by simp

lemma codes_u64: "0 < n \<Longrightarrow> unat (x :: u64) < 2 ^ n \<Longrightarrow> codes (\<lambda>buf pos. ReadBits buf pos n) x (word_bits n x)"
  using codes_bits(2) [of n x] by (simp only: ucast_id64)

lemma small_int:
  assumes "0 \<le> k" "k < 2 ^ n" "n \<le> 63"
  shows "unat (word_of_int k :: u64) < 2 ^ n" "uint (word_of_int k :: u64) = k"
proof -
  have "(2 :: int) ^ n \<le> 2 ^ 63" using assms(3) by (intro power_increasing) simp_all
  then have k: "k < 2 ^ 64" using assms(2) by simp
  then show u: "uint (word_of_int k :: u64) = k" using assms(1) by (intro word_of_int_inverse) simp_all
  have "int (unat (word_of_int k :: u64)) < 2 ^ n" using u assms(2) by simp
  then show "unat (word_of_int k :: u64) < 2 ^ n" by (metis of_nat_less_numeral_power_cancel_iff)
qed

lemma codes_rate: "rate_ok r \<Longrightarrow> codes (asc_read_rate msg) r (rate_code r)"
proof (cases "reverseSampleRates r")
  case None
  assume "rate_ok r"
  then have r: "0 \<le> r" "r < 2 ^ 24" using reverse_none [OF None] by (auto simp: rate_ok_def)
  have f: "\<not> (15 :: u64) \<le> 12" "unat (15 :: u64) < 2 ^ 4" "unat (word_of_int r :: u64) < 2 ^ 24" "uint (word_of_int r :: u64) = r"
    using small_int [OF r] by simp_all
  show ?thesis unfolding rate_code_def None option.case asc_read_rate_def
    by (rule codes_bind codes_u64 codes_eq f zero_less_numeral | simp only: f(1) simp_thms if_False if_True)+
next
  case (Some i)
  have i: "i \<le> 12" "sampleRates ! i = r" using reverse_rates [OF Some] by blast+
  then have u: "unat (of_nat i :: u64) = i" by (simp add: unat_of_nat)
  then have f: "(of_nat i :: u64) \<le> 12" "unat (of_nat i :: u64) < 2 ^ 4" using i(1) by (simp_all add: word_le_nat_alt)
  have v: "sampleRates ! unat (of_nat i :: u64) = r" using u i(2) by simp
  show ?thesis unfolding rate_code_def Some option.case asc_read_rate_def
    by (rule codes_bind codes_u64 codes_eq f zero_less_numeral v | simp only: f(1) if_True)+
qed

interpretation rate: field_code rate_ok rate_code "asc_read_rate msg" for msg by unfold_locales (rule codes_rate)

definition asc_config :: "AudioSpecificConfig \<Rightarrow> byte" where
  "asc_config c =
     (if asc_ChannelCount c = 0 then asc_ChannelConfig c
      else if asc_ChannelCount c = 8 then 7 else word_of_int (asc_ChannelCount c))"

definition asc_code :: "AudioSpecificConfig \<Rightarrow> bool list" where
  "asc_code c =
     word_bits 5 (word_of_int (if has_extension c then asc_ExtensionType c else asc_Type c) :: u64) @
     rate_code (asc_SampleRate c) @ word_bits 4 (ucast (asc_config c) :: u64) @ [] @
     (if has_extension c then rate_code (asc_ExtensionSampleRate c) @ word_bits 5 (word_of_int (asc_Type c) :: u64) @ [] else []) @
     [asc_FrameLengthFlag c] @ [asc_DependsOnCoreCoder c] @
     (if asc_DependsOnCoreCoder c then word_bits 14 (ucast (asc_CoreCoderDelay c) :: u64) @ [] else []) @ [False] @ []"

definition asc_ok :: "AudioSpecificConfig \<Rightarrow> bool" where
  "asc_ok c \<longleftrightarrow> asc_Type c = ObjectTypeAACLC \<and> rate_ok (asc_SampleRate c) \<and>
     asc_ChannelCount c \<in> {0, 1, 2, 3, 4, 5, 6, 8} \<and> asc_ChannelConfig c \<le> 7 \<and>
     (if has_extension c then rate_ok (asc_ExtensionSampleRate c) else asc_ExtensionType c = 0 \<and> asc_ExtensionSampleRate c = 0) \<and>
     (if asc_DependsOnCoreCoder c then unat (asc_CoreCoderDelay c) < 2 ^ 14 else asc_CoreCoderDelay c = 0)"

text \<open>A configuration with the channels filled in: the count wins over the configuration when it is not zero.\<close>

definition asc_canon :: "AudioSpecificConfig \<Rightarrow> AudioSpecificConfig" where
  "asc_canon c = c\<lparr>asc_ChannelConfig := asc_config c,
     asc_ChannelCount := if asc_config c = 7 then 8 else uint (asc_config c)\<rparr>"

lemma asc_config_less: "asc_ok c \<Longrightarrow> unat (asc_config c) < 2 ^ 3"
  by (auto simp: asc_ok_def asc_config_def word_le_nat_alt)

lemma asc_fill: "asc_ok c \<Longrightarrow> asc_fill_config c = Ok (asc_config c)"
  by (auto simp: asc_ok_def asc_fill_config_def asc_config_def)

lemma codes_channels:
  assumes "unat c < 2 ^ 3"
  shows "codes (\<lambda>buf pos. asc_channels c pos) (if c = 7 then 8 else uint c) []"
proof -
  have "asc_channels c pos = Ok (if c = 7 then 8 else uint c, pos)" for pos
    using channels_config [OF assms] by (auto simp: asc_channels_def adts_channels_def split: if_splits)
  then show ?thesis by (simp add: codes_Ok)
qed

lemma unat_up64: "unat (ucast (b :: byte) :: u64) = unat b" "unat (ucast (w :: u16) :: u64) = unat w"
proof -
  have "unat b < 2 ^ 64" "unat w < 2 ^ 64"
    using unsigned_less [of b, where 'a = nat] unsigned_less [of w, where 'a = nat] by simp_all
  then show "unat (ucast b :: u64) = unat b" "unat (ucast w :: u64) = unat w"
    by (simp_all add: unsigned_ucast_eq take_bit_nat_eq_self)
qed

lemma types_5:
  "unat (word_of_int ObjectTypeAACLC :: u64) < 2 ^ 5" "unat (word_of_int ObjectTypeSBR :: u64) < 2 ^ 5"
  "unat (word_of_int ObjectTypePS :: u64) < 2 ^ 5" "uint (word_of_int ObjectTypeAACLC :: u64) = ObjectTypeAACLC"
  "uint (word_of_int ObjectTypeSBR :: u64) = ObjectTypeSBR" "uint (word_of_int ObjectTypePS :: u64) = ObjectTypePS"
  by (simp_all add: ObjectTypeAACLC_def ObjectTypeSBR_def ObjectTypePS_def)

lemma codes_extension:
  assumes "rate_ok rate"
  shows "t \<in> {ObjectTypeSBR, ObjectTypePS} \<Longrightarrow> codes (asc_read_extension (d\<lparr>asc_Type := t\<rparr>))
      (d\<lparr>asc_ExtensionType := t, asc_ExtensionSampleRate := rate, asc_Type := ObjectTypeAACLC\<rparr>)
      (rate_code rate @ word_bits 5 (word_of_int ObjectTypeAACLC :: u64) @ [])"
    and "codes (asc_read_extension (d\<lparr>asc_Type := ObjectTypeAACLC\<rparr>)) (d\<lparr>asc_Type := ObjectTypeAACLC\<rparr>) []"
proof -
  let ?d = "d\<lparr>asc_Type := t\<rparr>"
  have n: "\<not> uint (word_of_int ObjectTypeAACLC :: u64) \<noteq> ObjectTypeAACLC" by (simp only: types_5)
  assume t: "t \<in> {ObjectTypeSBR, ObjectTypePS}"
  have e: "?d\<lparr>asc_ExtensionType := asc_Type ?d, asc_ExtensionSampleRate := rate, asc_Type := uint (word_of_int ObjectTypeAACLC :: u64)\<rparr> =
      d\<lparr>asc_ExtensionType := t, asc_ExtensionSampleRate := rate, asc_Type := ObjectTypeAACLC\<rparr>"
    unfolding types_5 by simp
  have c: "asc_Type ?d = ObjectTypeSBR \<or> asc_Type ?d = ObjectTypePS" using t by simp
  show "codes (asc_read_extension ?d) (d\<lparr>asc_ExtensionType := t, asc_ExtensionSampleRate := rate, asc_Type := ObjectTypeAACLC\<rparr>)
      (rate_code rate @ word_bits 5 (word_of_int ObjectTypeAACLC :: u64) @ [])"
    unfolding asc_read_extension_def if_P [OF c]
    by (rule codes_bind codes_rate assms codes_u64 types_5 zero_less_numeral codes_eq e | simp only: n if_False)+
next
  have n: "\<not> (asc_Type (d\<lparr>asc_Type := ObjectTypeAACLC\<rparr>) = ObjectTypeSBR \<or> asc_Type (d\<lparr>asc_Type := ObjectTypeAACLC\<rparr>) = ObjectTypePS)"
    by (simp add: ObjectTypeAACLC_def ObjectTypeSBR_def ObjectTypePS_def)
  show "codes (asc_read_extension (d\<lparr>asc_Type := ObjectTypeAACLC\<rparr>)) (d\<lparr>asc_Type := ObjectTypeAACLC\<rparr>) []"
    unfolding asc_read_extension_def if_not_P [OF n] by (rule codes_Ok)
qed

lemma codes_ga:
  assumes "if g then unat w < 2 ^ 14 else w = asc_CoreCoderDelay d"
  shows "codes (asc_read_ga d) (d\<lparr>asc_FrameLengthFlag := f, asc_DependsOnCoreCoder := g, asc_CoreCoderDelay := w\<rparr>)
    ([f] @ [g] @ (if g then word_bits 14 (ucast w :: u64) @ [] else []) @ [False] @ [])"
proof -
  have c: "ucast (ucast w :: u64) = w" by (rule bit_word_eqI) (auto simp: bit_simps)
  have u: "unat (ucast w :: u64) = unat w" by (rule unat_up64)
  have delay: "codes (\<lambda>buf pos. if g then res_bind (ReadBits buf pos 14) (\<lambda>(tmp, pos). Ok (ucast tmp, pos)) else Ok (asc_CoreCoderDelay d, pos))
      w (if g then word_bits 14 (ucast w :: u64) @ [] else [])"
  proof (cases g)
    case True
    then have w: "unat (ucast w :: u64) < 2 ^ 14" using assms u by simp
    show ?thesis unfolding if_P [OF True] by (rule codes_bind codes_u64 w zero_less_numeral codes_eq c)+
  next
    case False
    then show ?thesis using assms by (simp add: codes_Ok)
  qed
  show ?thesis unfolding asc_read_ga_def
    by (rule codes_bind codes_flag delay codes_eq refl | simp only: if_False)+
qed

lemma codes_asc:
  assumes "asc_ok c"
  shows "codes (ASC_unmarshalBits ASC_zero) (asc_canon c) (asc_code c)"
proof -
  let ?t = "if has_extension c then asc_ExtensionType c else asc_Type c" and ?g = "asc_config c"
  let ?d = "ASC_zero\<lparr>asc_SampleRate := asc_SampleRate c, asc_ChannelConfig := ?g,
    asc_ChannelCount := if ?g = 7 then 8 else uint ?g\<rparr>"
  let ?e = "if has_extension c then ?d\<lparr>asc_ExtensionType := ?t, asc_ExtensionSampleRate := asc_ExtensionSampleRate c, asc_Type := ObjectTypeAACLC\<rparr>
    else ?d\<lparr>asc_Type := ObjectTypeAACLC\<rparr>"
  have ok: "asc_Type c = ObjectTypeAACLC" "rate_ok (asc_SampleRate c)" using assms by (simp_all add: asc_ok_def)
  have t: "?t \<in> {ObjectTypeAACLC, ObjectTypeSBR, ObjectTypePS}" using ok(1) by (auto simp: has_extension_def)
  then have t5: "unat (word_of_int ?t :: u64) < 2 ^ 5" "uint (word_of_int ?t :: u64) = ?t" using types_5 by auto
  have t': "\<not> ?t \<notin> {ObjectTypeAACLC, ObjectTypeSBR, ObjectTypePS}" using t by blast
  have g: "unat (ucast ?g :: u64) < 2 ^ 4" "ucast (ucast ?g :: u64) = ?g"
    using asc_config_less [OF assms] by (simp_all add: unat_up64) (rule bit_word_eqI, auto simp: bit_simps)
  have ext: "codes (asc_read_extension (?d\<lparr>asc_Type := ?t\<rparr>)) ?e
      (if has_extension c then rate_code (asc_ExtensionSampleRate c) @ word_bits 5 (word_of_int (asc_Type c) :: u64) @ [] else [])"
  proof (cases "has_extension c")
    case True
    then have "rate_ok (asc_ExtensionSampleRate c)" "?t \<in> {ObjectTypeSBR, ObjectTypePS}" using assms by (auto simp: asc_ok_def has_extension_def)
    from codes_extension(1) [OF this, of ?d] show ?thesis unfolding ok(1) if_P [OF True] .
  next
    case False
    show ?thesis unfolding if_not_P [OF False] ok(1) by (rule codes_extension(2) [OF ok(2)])
  qed
  have s: "ASC_zero\<lparr>asc_Type := ?t, asc_SampleRate := asc_SampleRate c, asc_ChannelConfig := ?g,
      asc_ChannelCount := if ?g = 7 then 8 else uint ?g\<rparr> = ?d\<lparr>asc_Type := ?t\<rparr>" by simp
  have ga: "codes (asc_read_ga ?e) (?e\<lparr>asc_FrameLengthFlag := asc_FrameLengthFlag c,
      asc_DependsOnCoreCoder := asc_DependsOnCoreCoder c, asc_CoreCoderDelay := asc_CoreCoderDelay c\<rparr>)
      ([asc_FrameLengthFlag c] @ [asc_DependsOnCoreCoder c] @
       (if asc_DependsOnCoreCoder c then word_bits 14 (ucast (asc_CoreCoderDelay c) :: u64) @ [] else []) @ [False] @ [])"
    by (rule codes_ga) (use assms in \<open>auto simp: asc_ok_def ASC_zero_def\<close>)
  have canon: "?e\<lparr>asc_FrameLengthFlag := asc_FrameLengthFlag c, asc_DependsOnCoreCoder := asc_DependsOnCoreCoder c,
      asc_CoreCoderDelay := asc_CoreCoderDelay c\<rparr> = asc_canon c"
    using assms by (cases c) (auto simp: asc_ok_def asc_canon_def ASC_zero_def has_extension_def)
  have "codes (\<lambda>buf pos. res_bind (asc_read_extension (?d\<lparr>asc_Type := ?t\<rparr>) buf pos) (\<lambda>(c, pos). asc_read_ga c buf pos)) (asc_canon c)
      ((if has_extension c then rate_code (asc_ExtensionSampleRate c) @ word_bits 5 (word_of_int (asc_Type c) :: u64) @ [] else []) @
       [asc_FrameLengthFlag c] @ [asc_DependsOnCoreCoder c] @
       (if asc_DependsOnCoreCoder c then word_bits 14 (ucast (asc_CoreCoderDelay c) :: u64) @ [] else []) @ [False] @ [])"
    by (rule codes_bind, rule ext, rule ga [unfolded canon])
  note rest = this [folded s]
  show ?thesis unfolding ASC_unmarshalBits_def asc_code_def
    by (rule codes_bind, rule codes_u64, simp, rule t5(1), simp only: t5(2) if_not_P [OF t'],
        rule codes_bind, rule codes_rate, rule ok(2), rule codes_bind, rule codes_u64, simp, rule g(1), simp only: g(2),
        rule codes_bind, rule codes_channels, rule asc_config_less, rule assms, rule rest)
qed

lemma rate_fields_code:
  assumes "rate_ok r"
  shows "fields_bits (rate_fields r) = rate_code r" "\<forall>f \<in> set (rate_fields r). field_ok f" "length (rate_code r) = rate_size r"
proof -
  show "fields_bits (rate_fields r) = rate_code r" by (simp add: fields_bits_def rate_fields_def rate_code_def split: option.split)
  show "length (rate_code r) = rate_size r" by (simp add: rate_code_def rate_size_def split: option.split)
  show "\<forall>f \<in> set (rate_fields r). field_ok f"
  proof (cases "reverseSampleRates r")
    case None
    then have "0 \<le> r" "r < 2 ^ 24" using assms reverse_none [OF None] by (auto simp: rate_ok_def)
    then have "unat (word_of_int r :: u64) < 2 ^ 24" by (intro small_int) simp_all
    then show ?thesis by (simp add: rate_fields_def None field_ok_def)
  next
    case (Some i)
    then have "i \<le> 12" using reverse_rates by blast
    then show ?thesis by (simp add: rate_fields_def Some field_ok_def unat_of_nat)
  qed
qed

lemma fields_bits_append: "fields_bits (fs @ gs) = fields_bits fs @ fields_bits gs"
  by (simp add: fields_bits_def)

lemma fields_bits_if: "fields_bits (if b then fs else []) = (if b then fields_bits fs else [])"
  by (simp add: fields_bits_def)

lemma fields_bits_one: "fields_bits [(v, n)] = word_bits n v"
  by (simp add: fields_bits_def)

lemma word_bits_flag: "word_bits (Suc 0) (1 :: u64) = [True]" "word_bits (Suc 0) (0 :: u64) = [False]"
  by (simp_all add: word_bits_def)

lemma asc_fields_code:
  assumes "asc_ok c"
  shows "fields_bits (asc_fields c (asc_config c)) @ [False] = asc_code c" "\<forall>f \<in> set (asc_fields c (asc_config c)). field_ok f"
    "length (asc_code c) = ASC_marshalSizeBits c"
proof -
  let ?t = "if has_extension c then asc_ExtensionType c else asc_Type c"
  have ok: "asc_Type c = ObjectTypeAACLC" "rate_ok (asc_SampleRate c)" "has_extension c \<Longrightarrow> rate_ok (asc_ExtensionSampleRate c)"
    "asc_DependsOnCoreCoder c \<Longrightarrow> unat (asc_CoreCoderDelay c) < 2 ^ 14" using assms by (auto simp: asc_ok_def)
  have "?t \<in> {ObjectTypeAACLC, ObjectTypeSBR, ObjectTypePS}" using ok(1) by (auto simp: has_extension_def)
  then have t: "unat (word_of_int ?t :: u64) < 2 ^ 5" using types_5(1-3) by auto
  show "fields_bits (asc_fields c (asc_config c)) @ [False] = asc_code c"
    unfolding asc_fields_def asc_code_def fields_bits_append fields_bits_if fields_bits_one rate_fields_code(1) [OF ok(2)]
    using rate_fields_code(1) [OF ok(3)] by (simp add: word_bits_flag)
  show "length (asc_code c) = ASC_marshalSizeBits c"
    using rate_fields_code(3) [OF ok(2)] rate_fields_code(3) [OF ok(3)]
    by (simp add: asc_code_def ASC_marshalSizeBits_def)
  have g: "field_ok (ucast (asc_config c), 4)" using asc_config_less [OF assms] by (simp add: field_ok_def unat_up64)
  have d: "asc_DependsOnCoreCoder c \<Longrightarrow> field_ok (ucast (asc_CoreCoderDelay c), 14)" using ok(4) by (simp add: field_ok_def unat_up64)
  have b: "field_ok (of_bool f, 1)" for f by (simp add: field_ok_def)
  have t1: "field_ok (word_of_int ?t, 5)" "field_ok (word_of_int (asc_Type c), 5)"
    unfolding ok(1) using t types_5(1) by (simp_all only: field_ok_def fst_conv snd_conv ok(1)) simp_all
  show "\<forall>f \<in> set (asc_fields c (asc_config c)). field_ok f"
    unfolding asc_fields_def using rate_fields_code(2) [OF ok(2)] rate_fields_code(2) [OF ok(3)] g d b t1
    by (auto split: if_splits)
qed

section \<open>Properties\<close>

text \<open>C40: a configuration that the format can express is written by AudioSpecificConfig.Marshal in as many
  bytes as it needs and read back as it was, with the channel configuration and the channel count filled in from
  each other.\<close>

theorem ASC_roundtrip:
  assumes "asc_ok c"
  shows "\<exists>buf. ASC_Marshal c = Ok buf \<and> length buf = ASC_marshalSize c \<and> ASC_Unmarshal ASC_zero buf = Ok (asc_canon c)"
proof -
  let ?n = "ASC_marshalSize c" and ?fs = "asc_fields c (asc_config c)"
  note f = asc_fields_code [OF assms]
  have l: "length (fields_bits ?fs) + 1 = ASC_marshalSizeBits c" using arg_cong [OF f(1), of length] f(3) by simp
  have n: "ASC_marshalSizeBits c \<le> 8 * ?n" 
  proof -
    have "m \<le> 8 * (if m mod 8 \<noteq> 0 then m div 8 + 1 else m div 8)" for m :: nat
      using div_mult_mod_eq [of m 8] mod_less_divisor [of 8 m] by (auto simp: mult.commute)
    then show ?thesis unfolding ASC_marshalSize_def Let_def .
  qed
  have z: "zeros_from (replicate ?n 0) 0" by (auto simp: zeros_from_def nth_bits_of)
  obtain buf k where w: "WriteAll (replicate ?n 0) 0 ?fs = Ok (buf, length (fields_bits ?fs))" "length buf = ?n"
    "bits_of buf = fields_bits ?fs @ replicate k False"
    using WriteAll_spec [OF z, of ?fs] f(2) l n by auto
  have "k \<noteq> 0" using arg_cong [OF w(3), of length] w(2) l n by simp
  then obtain j where "k = Suc j" by (cases k) auto
  then have "bits_of buf = asc_code c @ replicate j False" unfolding f(1) [symmetric] using w(3) by simp
  then have "ASC_unmarshalBits ASC_zero buf 0 = Ok (asc_canon c, length (asc_code c))"
    using codesD [OF codes_asc [OF assms] at_pos_self] by simp
  then have "ASC_Unmarshal ASC_zero buf = Ok (asc_canon c)" by (simp add: ASC_Unmarshal_def)
  moreover have "ASC_Marshal c = Ok buf" using marshal_WriteAll [OF asc_fill [OF assms]] w(1) by (simp add: ASC_Marshal_def)
  ultimately show ?thesis using w(2) by blast
qed

theorem ASC_roundtrip_witness:
  "\<exists>buf. ASC_Marshal (ASC_zero\<lparr>asc_Type := 2, asc_SampleRate := 44100, asc_ChannelCount := 2, asc_ExtensionType := 5,
      asc_ExtensionSampleRate := 50000\<rparr>) = Ok buf \<and> length buf = 7 \<and>
    ASC_Unmarshal ASC_zero buf = Ok (ASC_zero\<lparr>asc_Type := 2, asc_SampleRate := 44100, asc_ChannelConfig := 2, asc_ChannelCount := 2,
      asc_ExtensionType := 5, asc_ExtensionSampleRate := 50000\<rparr>)"
  using ASC_roundtrip [of "ASC_zero\<lparr>asc_Type := 2, asc_SampleRate := 44100, asc_ChannelCount := 2, asc_ExtensionType := 5,
      asc_ExtensionSampleRate := 50000\<rparr>"]
  by (simp add: asc_ok_def ASC_zero_def ObjectTypeAACLC_def ObjectTypeSBR_def ObjectTypePS_def has_extension_def rate_ok_def
      sampleRates_def reverseSampleRates_def asc_canon_def asc_config_def ASC_marshalSize_def ASC_marshalSizeBits_def rate_size_def Let_def)

end
