(* ===== verification/Mc_G711.thy ===== *)
theory Mc_G711
  imports Gots_Prelude Gots_Fmt
begin

text \<open>
  \<^verbatim>\<open>mediacommon/pkg/codecs/g711\<close>: audio samples of 16 bits in 8 bits each, by the A-law and the mu-law.  The tables for
  decoding are given by formulas, the tables for encoding are computed from them.
\<close>

section \<open>Tables\<close>

definition alaw_sample :: "nat \<Rightarrow> u16" where
  "alaw_sample i =
     (let v = int i XOR 0x55;
          mantissa = word_of_int (v AND 0x0F);
          exponent = drop_bit 4 (v AND 0x70);
          sign = v AND 0x80;
          mantissa = (if exponent \<noteq> 0 then push_bit (nat exponent + 2) (mantissa * 2 + 1 + 32) else push_bit 3 (mantissa * 2 + 1))
      in if sign \<noteq> 0 then mantissa else - mantissa)"

definition alawDecodeTable :: "u16 list" where
  "alawDecodeTable = map alaw_sample [0..<256]"

definition mulaw_sample :: "nat \<Rightarrow> u16" where
  "mulaw_sample i =
     (let v = NOT (int i);
          tmp = push_bit (nat (drop_bit 4 (v AND 0x70))) (push_bit 3 (word_of_int v AND 0x0F) + 0x84);
          sign = v AND 0x80
      in if sign \<noteq> 0 then 0x84 - tmp else tmp - 0x84)"

definition mulawDecodeTable :: "u16 list" where
  "mulawDecodeTable = map mulaw_sample [0..<256]"

lemma fill_step: "j < v \<Longrightarrow> unat (j + 1) = unat j + 1" for j v :: u16
proof -
  assume "j < v"
  moreover have "unat v < 2 ^ 16" using unsigned_less [of v, where 'a = nat] by simp
  ultimately have "unat j + 1 < 2 ^ 16" by (simp add: word_less_nat_alt)
  then show ?thesis by (simp add: unat_word_ariths)
qed

text \<open>The inner loop of \<^verbatim>\<open>invertTable\<close>: the places from \<open>j\<close> to \<open>v\<close>, on both sides of the middle.\<close>

function fill_until :: "u16 \<Rightarrow> u16 \<Rightarrow> byte \<Rightarrow> byte \<Rightarrow> byte list \<Rightarrow> u16 \<times> byte list" where
  "fill_until j v lo hi res =
     (if j < v then fill_until (j + 1) v lo hi (res[8192 - unat j := lo, 8192 + unat j := hi]) else (j, res))"
  by pat_completeness auto
termination
proof (relation "measure (\<lambda>(j, v, lo, hi, res). unat v - unat j)", simp)
  fix j v :: u16 and lo hi :: byte and res :: "byte list"
  assume j: "j < v"
  then have "unat (j + 1) = unat j + 1" by (rule fill_step)
  then show "((j + 1, v, lo, hi, res[8192 - unat j := lo, 8192 + unat j := hi]), j, v, lo, hi, res)
      \<in> measure (\<lambda>(j, v, lo, hi, res). unat v - unat j)" using j by (simp add: word_less_nat_alt)
qed

declare fill_until.simps [simp del]

definition threshold :: "u16 list \<Rightarrow> byte \<Rightarrow> nat \<Rightarrow> u16" where
  "threshold tab mask' i =
     (let v1 = tab ! unat (of_nat i XOR mask');
          v2 = tab ! unat ((of_nat i + 1) XOR mask')
      in drop_bit 3 (v1 + v2 + 4))"

definition invert_step :: "u16 list \<Rightarrow> byte \<Rightarrow> nat \<Rightarrow> u16 \<times> byte list \<Rightarrow> u16 \<times> byte list" where
  "invert_step tab mask' i s =
     fill_until (fst s) (threshold tab mask' i) (of_nat i XOR (mask' XOR 0x80)) (of_nat i XOR mask') (snd s)"

definition invertTable :: "u16 list \<Rightarrow> byte \<Rightarrow> byte list" where
  "invertTable tab mask' =
     (let s = fold (invert_step tab mask') [0..<127] (1, (replicate 16384 0)[8192 := mask']);
          res = snd (fill_until (fst s) 8192 (127 XOR (mask' XOR 0x80)) (127 XOR mask') (snd s))
      in res[0 := res ! 1])"

definition alawEncodeTable :: "byte list" where "alawEncodeTable = invertTable alawDecodeTable 0xD5"
definition mulawEncodeTable :: "byte list" where "mulawEncodeTable = invertTable mulawDecodeTable 0xFF"

section \<open>Coding\<close>

text \<open>Both laws, with their tables.\<close>

definition g711_Unmarshal :: "u16 list \<Rightarrow> byte list \<Rightarrow> byte list" where
  "g711_Unmarshal tab enc =
     concat (map (\<lambda>sample. [ucast (drop_bit 8 (tab ! unat sample)), ucast (tab ! unat sample)]) enc)"

fun g711_samples :: "byte list \<Rightarrow> u16 list" where
  "g711_samples (a # b # c) = (push_bit 8 (ucast a) OR ucast b) # g711_samples c"
| "g711_samples c = []"

definition g711_encode :: "byte list \<Rightarrow> u16 \<Rightarrow> byte" where
  "g711_encode tab sample = tab ! unat (drop_bit 2 (sample + 32768))"

definition g711_Marshal :: "byte list \<Rightarrow> byte list \<Rightarrow> byte list res" where
  "g711_Marshal tab c =
     (if length c mod 2 \<noteq> 0 then Err (ErrorsNew ''wrong sample size'')
      else Ok (map (g711_encode tab) (g711_samples c)))"

definition Alaw_Unmarshal :: "byte list \<Rightarrow> byte list" where "Alaw_Unmarshal = g711_Unmarshal alawDecodeTable"
definition Alaw_Marshal :: "byte list \<Rightarrow> byte list res" where "Alaw_Marshal = g711_Marshal alawEncodeTable"
definition Mulaw_Unmarshal :: "byte list \<Rightarrow> byte list" where "Mulaw_Unmarshal = g711_Unmarshal mulawDecodeTable"
definition Mulaw_Marshal :: "byte list \<Rightarrow> byte list res" where "Mulaw_Marshal = g711_Marshal mulawEncodeTable"

section \<open>The inverted table\<close>

lemma fill_until_spec:
  assumes "length res = 16384" "1 \<le> unat j" "unat v \<le> 8192"
  shows "fst (fill_until j v lo hi res) = max j v \<and> length (snd (fill_until j v lo hi res)) = 16384 \<and>
    (\<forall>k < 8192. snd (fill_until j v lo hi res) ! (8192 + k) = (if unat j \<le> k \<and> k < unat v then hi else res ! (8192 + k))) \<and>
    (\<forall>k < 8192. 1 \<le> k \<longrightarrow> snd (fill_until j v lo hi res) ! (8192 - k) = (if unat j \<le> k \<and> k < unat v then lo else res ! (8192 - k)))"
  using assms
proof (induction j v lo hi res rule: fill_until.induct)
  case (1 j v lo hi res)
  show ?case
  proof (cases "j < v")
    case True
    let ?res = "res[8192 - unat j := lo, 8192 + unat j := hi]"
    have j: "unat j < unat v" using True by (simp add: word_less_nat_alt)
    note s = fill_step [OF True]
    have ih: "fst (fill_until (j + 1) v lo hi ?res) = max (j + 1) v \<and> length (snd (fill_until (j + 1) v lo hi ?res)) = 16384 \<and>
      (\<forall>k < 8192. snd (fill_until (j + 1) v lo hi ?res) ! (8192 + k) = (if unat j + 1 \<le> k \<and> k < unat v then hi else ?res ! (8192 + k))) \<and>
      (\<forall>k < 8192. 1 \<le> k \<longrightarrow> snd (fill_until (j + 1) v lo hi ?res) ! (8192 - k) = (if unat j + 1 \<le> k \<and> k < unat v then lo else ?res ! (8192 - k)))"
      using "1.IH" [OF True] "1.prems" s by simp
    have m: "max (j + 1) v = max j v" using True j s by (simp add: max_def word_le_nat_alt word_less_nat_alt)
    have hi: "?res ! (8192 + k) = (if k = unat j then hi else res ! (8192 + k))" if "k < 8192" for k
      using "1.prems" j that by (auto simp: nth_list_update)
    have lo: "?res ! (8192 - k) = (if k = unat j then lo else res ! (8192 - k))" if "k < 8192" "1 \<le> k" for k
      using "1.prems" j that by (auto simp: nth_list_update)
    show ?thesis using ih j hi lo unfolding fill_until.simps [of j] if_P [OF True] m by auto
  next
    case False
    then have "unat v \<le> unat j" by (simp add: word_less_nat_alt)
    then show ?thesis using False "1.prems" unfolding fill_until.simps [of j] if_not_P [OF False] by (auto simp: max_def)
  qed
qed

text \<open>The place \<open>k\<close> belongs to the step \<open>i\<close> when it lies between the thresholds of \<open>i - 1\<close> and of \<open>i\<close>.\<close>

definition belongs :: "(nat \<Rightarrow> nat) \<Rightarrow> nat \<Rightarrow> nat \<Rightarrow> bool" where
  "belongs V i k \<longleftrightarrow> 1 \<le> k \<and> (0 < i \<longrightarrow> V (i - 1) \<le> k) \<and> (i < 127 \<longrightarrow> k < V i)"

definition placed :: "byte list \<Rightarrow> byte \<Rightarrow> nat \<Rightarrow> nat \<Rightarrow> bool" where
  "placed res m i k \<longleftrightarrow> res ! (8192 + k) = of_nat i XOR m \<and> res ! (8192 - k) = of_nat i XOR (m XOR 0x80)"

lemma threshold_less: "unat (threshold tab m i) < 8192"
proof -
  have "unat (drop_bit 3 w) < 8192" for w :: u16
    using unsigned_less [of w, where 'a = nat] by (simp add: drop_bit_eq_div unat_div)
  then show ?thesis by (simp add: threshold_def Let_def)
qed

lemma mono_steps: "\<forall>i < 126. V i \<le> V (Suc i) \<Longrightarrow> i \<le> n \<Longrightarrow> n < 127 \<Longrightarrow> V i \<le> (V n :: nat)"
proof (induction n)
  case (Suc n)
  show ?case
  proof (cases "i \<le> n")
    case True
    then have "V i \<le> V n" using Suc by simp
    also have "\<dots> \<le> V (Suc n)" using Suc.prems by simp
    finally show ?thesis .
  next
    case False
    then have "i = Suc n" using Suc.prems by simp
    then show ?thesis by simp
  qed
qed simp

lemma invert_steps:
  fixes tab :: "u16 list" and m :: byte
  defines "V \<equiv> \<lambda>i. unat (threshold tab m i)"
  assumes mono: "\<forall>i < 126. V i \<le> V (Suc i)" and V0: "1 \<le> V 0"
  shows "n \<le> 127 \<Longrightarrow> fold (invert_step tab m) [0..<n] (1, (replicate 16384 0)[8192 := m]) = (j, res) \<Longrightarrow>
    unat j = (if n = 0 then 1 else V (n - 1)) \<and> length res = 16384 \<and> res ! 8192 = m \<and>
    (\<forall>i < n. \<forall>k. belongs V i k \<longrightarrow> placed res m i k)"
proof (induction n arbitrary: j res)
  case (Suc n)
  obtain j0 res0 where f: "fold (invert_step tab m) [0..<n] (1, (replicate 16384 0)[8192 := m]) = (j0, res0)"
    by (cases "fold (invert_step tab m) [0..<n] (1, (replicate 16384 0)[8192 := m])")
  have ih: "unat j0 = (if n = 0 then 1 else V (n - 1))" "length res0 = 16384" "res0 ! 8192 = m"
    "\<forall>i < n. \<forall>k. belongs V i k \<longrightarrow> placed res0 m i k" using Suc.IH [OF _ f] Suc.prems(1) by auto
  let ?hi = "of_nat n XOR m :: byte" and ?lo = "of_nat n XOR (m XOR 0x80) :: byte" and ?v = "threshold tab m n"
  have st: "(j, res) = fill_until j0 ?v ?lo ?hi res0"
  proof -
    have "(j, res) = invert_step tab m n (j0, res0)" using Suc.prems(2) f by simp
    then show ?thesis by (simp add: invert_step_def)
  qed
  have up: "V i \<le> V n" if "i \<le> n" for i using mono_steps [OF mono that] Suc.prems(1) by simp
  have "V 0 \<le> V (n - 1)" using Suc.prems(1) by (intro mono_steps [OF mono]) simp_all
  then have j1: "1 \<le> unat j0" "unat j0 \<le> V n" using ih(1) up [of 0] up [of "n - 1"] V0 by auto
  have v: "unat ?v = V n" "V n < 8192" using threshold_less [of tab m n] by (simp_all add: V_def)
  from fill_until_spec [OF ih(2) j1(1), of ?v ?lo ?hi] v
  have sp: "j = max j0 ?v" "length res = 16384"
    "\<And>k. k < 8192 \<Longrightarrow> res ! (8192 + k) = (if unat j0 \<le> k \<and> k < V n then ?hi else res0 ! (8192 + k))"
    "\<And>k. k < 8192 \<Longrightarrow> 1 \<le> k \<Longrightarrow> res ! (8192 - k) = (if unat j0 \<le> k \<and> k < V n then ?lo else res0 ! (8192 - k))"
    by (simp_all add: st [symmetric])
  have "unat j = V n" using sp(1) j1(2) v(1) by (simp add: max_def word_le_nat_alt)
  moreover have "res ! 8192 = m" using sp(3) [of 0] j1(1) ih(3) by simp
  moreover have "placed res m i k" if i: "i < Suc n" and b: "belongs V i k" for i k
  proof (cases "i = n")
    case True
    then have "unat j0 \<le> k" "k < V n" "1 \<le> k" using b ih(1) Suc.prems(1) by (auto simp: belongs_def split: if_splits)
    then show ?thesis using sp(3,4) [of k] v(2) True by (simp add: placed_def)
  next
    case False
    then have i': "i < n" using i by simp
    then have "k < V i" "1 \<le> k" using b Suc.prems(1) by (simp_all add: belongs_def)
    moreover have "V i \<le> unat j0"
      using i' ih(1) mono_steps [OF mono, of i "n - 1"] Suc.prems(1) by auto
    ultimately have "k < unat j0" "1 \<le> k" by simp_all
    then show ?thesis using sp(3,4) [of k] ih(4) i' b j1(2) v(2) by (simp add: placed_def)
  qed
  ultimately show ?case using sp(2) by simp
qed simp

lemma invertTable_placed:
  fixes tab :: "u16 list" and m :: byte
  defines "V \<equiv> \<lambda>i. unat (threshold tab m i)"
  assumes mono: "\<forall>i < 126. V i \<le> V (Suc i)" and V0: "1 \<le> V 0"
  shows "invertTable tab m ! 8192 = m" "i < 128 \<Longrightarrow> k < 8192 \<Longrightarrow> belongs V i k \<Longrightarrow> placed (invertTable tab m) m i k"
proof -
  obtain j res where f: "fold (invert_step tab m) [0..<127] (1, (replicate 16384 0)[8192 := m]) = (j, res)"
    by (cases "fold (invert_step tab m) [0..<127] (1, (replicate 16384 0)[8192 := m])")
  note st = invert_steps [OF mono [unfolded V_def] V0 [unfolded V_def] order_refl f, folded V_def]
  let ?hi = "127 XOR m" and ?lo = "127 XOR (m XOR 0x80)"
  define r where "r = snd (fill_until j 8192 ?lo ?hi res)"
  have j: "unat j = V 126" using conjunct1 [OF st] by (simp add: V_def)
  have j1: "1 \<le> unat j" using j mono_steps [OF mono, of 0 126] V0 by simp
  have "unat (8192 :: u16) = 8192" by simp
  with fill_until_spec [of res j 8192 ?lo ?hi] st j1
  have sp: "length r = 16384" "\<And>k. k < 8192 \<Longrightarrow> r ! (8192 + k) = (if unat j \<le> k then ?hi else res ! (8192 + k))"
    "\<And>k. k < 8192 \<Longrightarrow> 1 \<le> k \<Longrightarrow> r ! (8192 - k) = (if unat j \<le> k then ?lo else res ! (8192 - k))"
    by (simp_all add: r_def)
  have t: "invertTable tab m = r[0 := r ! 1]" by (simp add: invertTable_def f r_def Let_def)
  show "invertTable tab m ! 8192 = m" using sp(1) sp(2) [of 0] j1 st by (simp add: t)
  have n: "(of_nat 127 :: byte) = 127" by simp
  show "placed (invertTable tab m) m i k" if i: "i < 128" and k: "k < 8192" and b: "belongs V i k"
  proof -
    have k1: "1 \<le> k" using b by (simp add: belongs_def)
    have "placed r m i k"
    proof (cases "i = 127")
      case True
      then have "unat j \<le> k" using b j by (simp add: belongs_def)
      then show ?thesis using sp(2,3) [of k] k k1 True by (simp add: placed_def)
    next
      case False
      then have "k < V i" using b i by (simp add: belongs_def)
      moreover have "V i \<le> V 126" using False i by (intro mono_steps [OF mono]) simp_all
      ultimately have "k < unat j" using j by simp
      moreover have "placed res m i k" using st b i False by simp
      ultimately show ?thesis using sp(2,3) [of k] k k1 by (simp add: placed_def)
    qed
    then show ?thesis using k k1 sp(1) by (simp add: placed_def t nth_list_update)
  qed
qed

section \<open>Laws\<close>

text \<open>A law gives rising samples for the codes of one sign and the negated ones for the other, so far apart that the
  thresholds between them fall between their places.\<close>

definition law_sample :: "(nat \<Rightarrow> u16) \<Rightarrow> byte \<Rightarrow> nat \<Rightarrow> u16" where
  "law_sample f m i = f (unat (of_nat i XOR m))"

fun rising :: "int list \<Rightarrow> bool" where
  "rising (a # b # ds) \<longleftrightarrow> (a + 3) div 4 < (a + b + 4) div 8 \<and> (a + b + 4) div 8 \<le> b div 4 \<and> b \<le> 32600 \<and> rising (b # ds)"
| "rising ds = True"

definition law_ok :: "(nat \<Rightarrow> u16) \<Rightarrow> byte \<Rightarrow> bool" where
  "law_ok f m \<longleftrightarrow> (uint (law_sample f m 0) = 0 \<or> 4 \<le> uint (law_sample f m 0)) \<and>
     rising (map (\<lambda>i. uint (law_sample f m i)) [0..<128]) \<and>
     list_all (\<lambda>i. law_sample f (m XOR 0x80) i = - law_sample f m i) [0..<128]"

lemma alaw_ok: "law_ok alaw_sample 0xD5" by code_simp
lemma mulaw_ok: "law_ok mulaw_sample 0xFF" by code_simp

lemma rising_nth:
  "rising ds \<Longrightarrow> Suc i < length ds \<Longrightarrow> (ds ! i + 3) div 4 < (ds ! i + ds ! Suc i + 4) div 8 \<and>
    (ds ! i + ds ! Suc i + 4) div 8 \<le> ds ! Suc i div 4 \<and> ds ! Suc i \<le> 32600"
proof (induction ds arbitrary: i rule: rising.induct)
  case (1 a b ds)
  then show ?case by (cases i) simp_all
qed simp_all

lemma law_facts:
  assumes "law_ok f m" "tab = map f [0..<256]"
  defines "d \<equiv> \<lambda>i. uint (law_sample f m i)" and "V \<equiv> \<lambda>i. unat (threshold tab m i)"
  shows "i < 127 \<Longrightarrow> int (V i) = (d i + d (i + 1) + 4) div 8" "i < 127 \<Longrightarrow> (d i + 3) div 4 < int (V i)"
    "i < 127 \<Longrightarrow> int (V i) \<le> d (i + 1) div 4" "i < 128 \<Longrightarrow> d i \<le> 32600" "i < 128 \<Longrightarrow> d i = 0 \<and> i = 0 \<or> 4 \<le> d i"
proof -
  have l: "(d i + 3) div 4 < (d i + d (i + 1) + 4) div 8 \<and> (d i + d (i + 1) + 4) div 8 \<le> d (i + 1) div 4 \<and> d (i + 1) \<le> 32600"
    if "i < 127" for i
  proof -
    have "rising (map d [0..<128])" using assms(1) by (simp add: law_ok_def d_def)
    from rising_nth [OF this, of i] that show ?thesis by simp
  qed
  have pos: "0 \<le> d i" for i by (simp add: d_def)
  have d0: "d 0 = 0 \<or> 4 \<le> d 0" using assms(1) by (simp add: law_ok_def d_def)
  have "d 0 \<le> 32600"
  proof -
    have "(d 0 + 3) div 4 < d 1 div 4" "d 1 \<le> 32600" using l [of 0] by simp_all
    then show ?thesis by linarith
  qed
  then have b: "d i \<le> 32600" if "i < 128" for i using l [of "i - 1"] that by (cases i) simp_all
  have tab: "tab ! unat w = f (unat w)" for w :: byte
    using assms(2) unsigned_less [of w, where 'a = nat] by simp
  have v: "int (V i) = (d i + d (i + 1) + 4) div 8" if i: "i < 127" for i
  proof -
    let ?a = "law_sample f m i" and ?b = "law_sample f m (i + 1)"
    have "uint (?a + ?b + 4) = uint ?a + uint ?b + 4"
      using b [of i] b [of "i + 1"] i by (simp add: uint_word_ariths d_def)
    then have "uint (drop_bit 3 (?a + ?b + 4)) = (d i + d (i + 1) + 4) div 8" by (simp add: drop_bit_eq_div uint_div d_def)
    moreover have "threshold tab m i = drop_bit 3 (?a + ?b + 4)" by (simp add: threshold_def tab law_sample_def Let_def add.commute)
    ultimately show ?thesis by (simp add: V_def)
  qed
  show "i < 127 \<Longrightarrow> int (V i) = (d i + d (i + 1) + 4) div 8" "i < 127 \<Longrightarrow> (d i + 3) div 4 < int (V i)"
    "i < 127 \<Longrightarrow> int (V i) \<le> d (i + 1) div 4" "i < 128 \<Longrightarrow> d i \<le> 32600"
    using v l b by simp_all
  show "d i = 0 \<and> i = 0 \<or> 4 \<le> d i" if "i < 128"
  proof (cases i)
    case (Suc n)
    then have "(d n + 3) div 4 < d i div 4" using l [of n] that by simp
    then have "1 \<le> d i div 4" using pos [of n] by linarith
    then show ?thesis by linarith
  qed (use d0 in simp)
qed

lemma law_places:
  assumes ok: "law_ok f m" and tab: "tab = map f [0..<256]" and i: "i < 128"
  shows "invertTable tab m ! 8192 = m"
    and "1 \<le> k \<Longrightarrow> uint (law_sample f m i) div 4 \<le> k \<Longrightarrow> k \<le> (uint (law_sample f m i) + 3) div 4 \<Longrightarrow>
      placed (invertTable tab m) m i (nat k)"
proof -
  define V where "V = (\<lambda>i. unat (threshold tab m i))"
  have fact: "i < 127 \<Longrightarrow> (uint (law_sample f m i) + 3) div 4 < int (V i)"
    "i < 127 \<Longrightarrow> int (V i) \<le> uint (law_sample f m (i + 1)) div 4"
    "i < 128 \<Longrightarrow> uint (law_sample f m i) \<le> 32600" for i
    using law_facts(2-4) [OF ok tab, of i] by (simp_all only: V_def)
  have mono: "\<forall>i < 126. V i \<le> V (Suc i)"
  proof (intro allI impI)
    fix i :: nat assume i: "i < 126"
    have "int (V i) \<le> uint (law_sample f m (i + 1)) div 4" using fact(2) [of i] i by simp
    also have "\<dots> \<le> (uint (law_sample f m (i + 1)) + 3) div 4" by (intro zdiv_mono1) simp_all
    also have "\<dots> < int (V (i + 1))" using fact(1) [of "i + 1"] i by simp
    finally show "V i \<le> V (Suc i)" by simp
  qed
  have "0 \<le> uint (law_sample f m 0)" by simp
  then have V0: "1 \<le> V 0" using fact(1) [of 0] by linarith
  note pl = invertTable_placed [OF mono [unfolded V_def] V0 [unfolded V_def], folded V_def]
  show "invertTable tab m ! 8192 = m" by (rule pl(1))
  assume k: "1 \<le> k" "uint (law_sample f m i) div 4 \<le> k" "k \<le> (uint (law_sample f m i) + 3) div 4"
  have "i < 127 \<Longrightarrow> (uint (law_sample f m i) + 3) div 4 < int (V i)" "0 < i \<Longrightarrow> int (V (i - 1)) \<le> uint (law_sample f m i) div 4"
    using fact(1) [of i] fact(2) [of "i - 1"] i by simp_all
  then have "belongs V i (nat k)" using k by (auto simp: belongs_def)
  then show "placed (invertTable tab m) m i (nat k)" using k i fact(3) [of i] by (intro pl(2)) simp_all
qed

text \<open>The places of a sample and of its negation lie on the two sides of the middle.\<close>

lemma place_up:
  assumes "uint w \<le> 32600"
  shows "unat (drop_bit 2 (w + 32768 :: u16)) = 8192 + nat (uint w div 4)"
proof -
  have "uint (w + 32768) = uint w + 32768" using assms by (simp add: uint_word_ariths)
  then have "uint (drop_bit 2 (w + 32768)) = (uint w + 32768) div 4" by (simp add: drop_bit_eq_div uint_div)
  also have "\<dots> = 8192 + uint w div 4" by simp
  finally show ?thesis by (simp add: unat_eq_nat_uint nat_add_distrib pos_imp_zdiv_nonneg_iff)
qed

lemma place_down:
  assumes "1 \<le> uint w" "uint w \<le> 32600"
  shows "unat (drop_bit 2 (- w + 32768 :: u16)) = 8192 - nat ((uint w + 3) div 4)"
proof -
  have "- w + 32768 = word_of_int (32768 - uint w)" by simp
  then have "uint (- w + 32768) = 32768 - uint w" using assms by (simp only:) (intro word_of_int_inverse [OF refl]; simp)
  then have "uint (drop_bit 2 (- w + 32768)) = (32768 - uint w) div 4" by (simp add: drop_bit_eq_div uint_div)
  also have "\<dots> = 8192 - (uint w + 3) div 4" by linarith
  finally have "int (unat (drop_bit 2 (- w + 32768))) = 8192 - (uint w + 3) div 4" by simp
  then show ?thesis using assms by linarith
qed

lemma law_encodes:
  assumes ok: "law_ok f m" and tab: "tab = map f [0..<256]" and i: "i < 128"
  shows "g711_encode (invertTable tab m) (law_sample f m i) = of_nat i XOR m"
    and "law_sample f m i \<noteq> 0 \<Longrightarrow> g711_encode (invertTable tab m) (- law_sample f m i) = of_nat i XOR (m XOR 0x80)"
proof -
  define w where "w = law_sample f m i"
  have w: "uint w \<le> 32600" "uint w = 0 \<and> i = 0 \<or> 4 \<le> uint w"
    using law_facts(4,5) [OF ok tab i] by (simp_all only: w_def)
  note pl = law_places [OF ok tab i, folded w_def]
  show "g711_encode (invertTable tab m) (law_sample f m i) = of_nat i XOR m" unfolding w_def [symmetric]
  proof (cases "uint w = 0")
    case True
    then show "g711_encode (invertTable tab m) w = of_nat i XOR m"
      using w(2) pl(1) place_up [OF w(1)] by (simp add: g711_encode_def)
  next
    case False
    then have "placed (invertTable tab m) m i (nat (uint w div 4))" using w(2) by (intro pl(2)) simp_all
    then show "g711_encode (invertTable tab m) w = of_nat i XOR m"
      using place_up [OF w(1)] by (simp add: g711_encode_def placed_def)
  qed
  assume "law_sample f m i \<noteq> 0"
  then have "uint w \<noteq> 0" by (metis w_def unsigned_eq_0_iff)
  then have "4 \<le> uint w" using w(2) by auto
  then have "placed (invertTable tab m) m i (nat ((uint w + 3) div 4))" "1 \<le> uint w" by (auto intro!: pl(2))
  with place_down [OF _ w(1)] show "g711_encode (invertTable tab m) (- law_sample f m i) = of_nat i XOR (m XOR 0x80)"
    by (simp add: g711_encode_def placed_def w_def)
qed

lemma samples_back: "g711_samples (g711_Unmarshal tab enc) = map (\<lambda>b. tab ! unat b) enc"
proof (induction enc)
  case (Cons b enc)
  have w: "push_bit 8 (ucast (ucast (drop_bit 8 w) :: byte)) OR ucast (ucast w :: byte) = w" for w :: u16
  proof (rule bit_word_eqI)
    fix n assume n: "n < LENGTH(16)"
    have e: "8 + (n - 8) = n" if "8 \<le> n" using that by simp
    show "bit (push_bit 8 (ucast (ucast (drop_bit 8 w) :: byte)) OR ucast (ucast w :: byte) :: u16) n = bit w n"
      using n e by (cases "8 \<le> n") (auto simp: bit_simps)
  qed
  show ?case using Cons by (simp add: g711_Unmarshal_def w)
qed (simp add: g711_Unmarshal_def)

lemma Marshal_Unmarshal: "g711_Marshal tab' (g711_Unmarshal tab enc) = Ok (map (\<lambda>b. g711_encode tab' (tab ! unat b)) enc)"
proof -
  have "length (g711_Unmarshal tab enc) = 2 * length enc" by (induction enc) (simp_all add: g711_Unmarshal_def)
  then show ?thesis by (simp add: g711_Marshal_def samples_back)
qed

text \<open>Every code is a place \<open>i\<close> on one of the two sides.\<close>

lemma code_side:
  fixes b m :: byte
  assumes "bit m 7"
  obtains (pos) i where "i < 128" "b = of_nat i XOR m" | (neg) i where "i < 128" "b = of_nat i XOR (m XOR 0x80)"
proof -
  have small: "unat w < 128" if "\<not> bit w 7" for w :: byte
  proof (rule ccontr)
    assume "\<not> unat w < 128"
    then have "unat w div 128 = 1" using unsigned_less [of w, where 'a = nat] by simp
    then have "bit (unat w) 7" by (simp add: bit_iff_odd)
    then show False using that by (simp add: bit_unsigned_iff)
  qed
  have b80: "bit (0x80 :: byte) 7" by (simp add: bit_numeral_rec)
  show thesis
  proof (cases "bit b 7")
    case True
    then have "\<not> bit (b XOR m) 7" using assms by (simp add: bit_xor_iff)
    then show thesis by (intro pos [of "unat (b XOR m)"]) (simp_all add: small xor.assoc)
  next
    case False
    then have "\<not> bit (b XOR (m XOR 0x80)) 7" using assms b80 by (simp only: bit_xor_iff) simp
    then show thesis by (intro neg [of "unat (b XOR (m XOR 0x80))"]) (simp_all add: small xor.assoc)
  qed
qed

lemma xor_again:
  fixes x y z :: byte
  assumes "x XOR z = y XOR z"
  shows "x = y"
proof -
  have "(x XOR z) XOR z = (y XOR z) XOR z" using assms by (simp only:)
  then show ?thesis by (simp only: xor.assoc xor_self_eq) simp
qed

lemma place_of_code:
  fixes m :: byte
  assumes "i < 128"
  shows "of_nat i XOR m \<noteq> m XOR 0x80" "of_nat i XOR (m XOR 0x80) \<noteq> m"
    and "of_nat i XOR (m XOR 0x80) = m XOR 0x80 \<Longrightarrow> i = 0"
proof -
  have u: "unat (of_nat i :: byte) = i" using assms by (simp add: unat_of_nat)
  have ne: "of_nat i \<noteq> (0x80 :: byte)"
  proof
    assume "of_nat i = (0x80 :: byte)"
    then have "unat (of_nat i :: byte) = 128" by simp
    then show False using u assms by simp
  qed
  show "of_nat i XOR m \<noteq> m XOR 0x80"
  proof
    assume "of_nat i XOR m = m XOR 0x80"
    then have "of_nat i XOR m = 0x80 XOR m" by (simp only: xor.commute [of "0x80"])
    then have "of_nat i = (0x80 :: byte)" by (rule xor_again)
    with ne show False by (rule notE)
  qed
  show "of_nat i XOR (m XOR 0x80) \<noteq> m"
  proof
    assume "of_nat i XOR (m XOR 0x80) = m"
    also have "m = 0x80 XOR (m XOR 0x80)" by (simp only: xor.left_commute [of "0x80"] xor_self_eq) simp
    finally have "of_nat i = (0x80 :: byte)" by (rule xor_again)
    with ne show False by (rule notE)
  qed
  assume "of_nat i XOR (m XOR 0x80) = m XOR 0x80"
  then have "of_nat i XOR (m XOR 0x80) = 0 XOR (m XOR 0x80)" by simp
  then have "of_nat i = (0 :: byte)" by (rule xor_again)
  then have "unat (of_nat i :: byte) = 0" by simp
  then show "i = 0" using u by simp
qed

lemma law_roundtrip:
  assumes ok: "law_ok f m" and tab: "tab = map f [0..<256]" and m: "bit m 7" and i0: "law_sample f m 0 = 0 \<longrightarrow> z = m XOR 0x80"
    and nz: "law_sample f m 0 \<noteq> 0 \<longrightarrow> z = m"
  shows "g711_encode (invertTable tab m) (tab ! unat b) = (if b = z then m else b)"
proof -
  have t: "tab ! unat w = f (unat w)" for w :: byte using unsigned_less [of w, where 'a = nat] by (simp add: tab)
  show ?thesis
  proof (rule code_side [OF m, of b])
    fix i assume pos: "i < 128" "b = of_nat i XOR m"
    have "tab ! unat b = law_sample f m i" by (simp add: t pos(2) law_sample_def)
    then have "g711_encode (invertTable tab m) (tab ! unat b) = b" using law_encodes(1) [OF ok tab pos(1)] pos(2) by simp
    moreover have "b \<noteq> m XOR 0x80" using place_of_code(1) [OF pos(1)] pos(2) by simp
    ultimately show ?thesis using i0 nz by auto
  next
    fix i assume neg: "i < 128" "b = of_nat i XOR (m XOR 0x80)"
    have s: "tab ! unat b = - law_sample f m i"
      using ok neg(1) by (simp add: t neg(2) law_sample_def law_ok_def list_all_iff)
    show ?thesis
    proof (cases "law_sample f m i = 0")
      case True
      then have "i = 0" using law_facts(5) [OF ok tab neg(1)] by auto
      then have "b = z" "law_sample f m 0 = 0" using neg(2) True i0 by simp_all
      then show ?thesis using law_encodes(1) [OF ok tab, of 0] s \<open>i = 0\<close> by simp
    next
      case False
      then have "b \<noteq> z" using place_of_code(2,3) [OF neg(1), of m] neg(2) i0 nz by metis
      then show ?thesis using False law_encodes(2) [OF ok tab neg(1)] s neg(2) by simp
    qed
  qed
qed

section \<open>Properties\<close>

text \<open>C39: decoding and encoding again gives every A-law stream back, and every mu-law stream with the code of
  minus zero, 0x7F, replaced by that of zero; the tables for encoding are those that the loops compute.\<close>

theorem g711_roundtrip:
  "Alaw_Marshal (Alaw_Unmarshal enc) = Ok enc \<and>
   Mulaw_Marshal (Mulaw_Unmarshal enc) = Ok (map (\<lambda>b. if b = 0x7F then 0xFF else b) enc)"
proof
  have "bit (0xD5 :: byte) 7" "bit (0xFF :: byte) 7" by (simp_all add: bit_numeral_rec)
  moreover have "law_sample alaw_sample 0xD5 0 \<noteq> 0" "law_sample mulaw_sample 0xFF 0 = 0" by code_simp+
  ultimately have a: "g711_encode alawEncodeTable (alawDecodeTable ! unat b) = b"
    and u: "g711_encode mulawEncodeTable (mulawDecodeTable ! unat b) = (if b = 0x7F then 0xFF else b)" for b
    using law_roundtrip [OF alaw_ok alawDecodeTable_def, of "0xD5" b] law_roundtrip [OF mulaw_ok mulawDecodeTable_def, of "0x7F" b]
    by (simp_all add: alawEncodeTable_def mulawEncodeTable_def)
  show "Alaw_Marshal (Alaw_Unmarshal enc) = Ok enc" by (simp add: Alaw_Marshal_def Alaw_Unmarshal_def Marshal_Unmarshal a)
  show "Mulaw_Marshal (Mulaw_Unmarshal enc) = Ok (map (\<lambda>b. if b = 0x7F then 0xFF else b) enc)"
    by (simp add: Mulaw_Marshal_def Mulaw_Unmarshal_def Marshal_Unmarshal u)
qed

end
