(* ===== verification/Spec2Isabelle.thy ===== *)
theory Spec2Isabelle
  imports Gots_Prelude Gots_Time Gots_CRC Packet_Core Packet_AF Packet_Modify Packet_Create
    AF_Readers Accumulator PacketIO Psi_Table Psi_PAT Psi_Stream Psi_PMT Psi_Filter Pes Ebp_Base Ebp Gots_Binary Gots_Fmt
    Scte_Types Scte_Buffer Scte_Command Scte_Descriptor Scte_Message Scte_State Scte_Ring Scte_Typing Scte_String
    Section_Carriage Cli Mc_Bits Mc_H264 Mc_SPS Mc_Code Mc_SPS_Code
    Mc_DTS Mc_Time Mc_AV1 Mc_ADTS Mc_ASC Mc_G711
begin

text \<open>
  Two Go libraries of the repository, as definitions that compute, and the theorems that make them correct.

  \<^verbatim>\<open>src/gots\<close> is a library for MPEG transport streams.  A stream is a sequence of packets of 188 bytes.  Package
  \<^verbatim>\<open>packet\<close> reads and edits packets in place: four header bytes, an adaptation field, a payload.  Its accumulator
  gathers the payloads of one stream until a function that the caller gives finds the unit complete.  Packages \<^verbatim>\<open>psi\<close>,
  \<^verbatim>\<open>pes\<close>, \<^verbatim>\<open>ebp\<close> and \<^verbatim>\<open>scte35\<close> parse what is gathered: the tables of programs, the headers of elementary streams,
  encoder boundary points, and the messages that announce splices, which \<^verbatim>\<open>scte35\<close> also writes and follows through a
  state machine.  The command line tool \<^verbatim>\<open>cli\<close> puts them together.

  \<^verbatim>\<open>src/mediacommon/pkg\<close> is a library for the codecs carried in such streams.  Package \<^verbatim>\<open>bits\<close> reads and writes fields
  that are not whole bytes; the packages below \<^verbatim>\<open>codecs\<close> are readers and writers on top of it.

  \<^bold>\<open>Correspondence.\<close>  A Go function or method is a definition of the same name; a name that occurs in more than one
  package or would clash with the library has the type or the package in front (\<open>Packet_Payload\<close>,
  \<open>LEB128_Unmarshal\<close>).  A struct is a record, an enumeration or an interface with
  several implementations a datatype.  Integers of fixed width are words wherever wrapping can be seen, and lists of
  bytes stand for slices, arrays and strings.  A method with a pointer receiver takes the receiver and returns it
  changed.  A call gives a value of type \<open>res\<close>: \<open>Ok\<close>, an \<open>Err\<close> with the error, or \<open>Panic\<close>, a run-time panic.  A
  loop is a recursive function over the variables it changes.

  \<^bold>\<open>Theories of\<close> \<^verbatim>\<open>src/gots\<close>:

    \<^item> \<open>Gots_Prelude\<close> holds the types, the errors (\<^verbatim>\<open>errors.go\<close>), slices and \<^verbatim>\<open>copy\<close>, and the rewrite rules \<open>byte_simps\<close>
      and \<open>pkt_simps\<close>; \<open>Gots_Fmt\<close> and \<open>Gots_Binary\<close> hold what is used of \<^verbatim>\<open>fmt\<close> and \<^verbatim>\<open>encoding/binary\<close>.
    \<^item> \<open>Gots_Time\<close>: \<^verbatim>\<open>pts.go\<close> and \<^verbatim>\<open>pcr.go\<close>.  \<open>Gots_CRC\<close>: \<^verbatim>\<open>tsutils.go\<close>.
    \<^item> \<open>Packet_Core\<close>: \<^verbatim>\<open>packet/packet.go\<close> and the accessors of \<^verbatim>\<open>packet/modify.go\<close>.  \<open>Packet_AF\<close>:
      \<^verbatim>\<open>packet/adaptationfield.go\<close>.  \<open>Packet_Modify\<close>: the operations of \<^verbatim>\<open>packet/modify.go\<close> that move the border
      between adaptation field and payload.  \<open>Packet_Create\<close>: \<^verbatim>\<open>packet/create.go\<close>.  \<open>AF_Readers\<close>:
      \<^verbatim>\<open>packet/adaptationfield/adaptationfield.go\<close>.  \<open>Accumulator\<close>: \<^verbatim>\<open>packet/accumulator.go\<close>.  \<open>PacketIO\<close>: \<^verbatim>\<open>packet/io.go\<close>
      and \<^verbatim>\<open>packet/packetwriter.go\<close>.
    \<^item> \<open>Psi_Table\<close>, \<open>Psi_PAT\<close>, \<open>Psi_Stream\<close>, \<open>Psi_PMT\<close>: the files of \<^verbatim>\<open>psi\<close>; \<open>Psi_Filter\<close>: theorems on the parser and the
      filter of program map tables.
    \<^item> \<open>Pes\<close>: \<^verbatim>\<open>pes\<close>.  \<open>Ebp_Base\<close> and \<open>Ebp\<close>: \<^verbatim>\<open>ebp\<close>.
    \<^item> \<open>Scte_Types\<close> (\<^verbatim>\<open>scte35/doc.go\<close>), \<open>Scte_Buffer\<close> (what is used of \<^verbatim>\<open>bytes.Buffer\<close>), \<open>Scte_Command\<close>
      (\<^verbatim>\<open>splicecommand.go\<close>, \<^verbatim>\<open>splicecommandmodify.go\<close>), \<open>Scte_Descriptor\<close> (\<^verbatim>\<open>segmentationdescriptor.go\<close>,
      \<^verbatim>\<open>descriptormodify.go\<close>), \<open>Scte_Message\<close> (\<^verbatim>\<open>scte35.go\<close>, \<^verbatim>\<open>modify.go\<close>), \<open>Scte_String\<close> (\<^verbatim>\<open>String\<close> of \<^verbatim>\<open>scte35.go\<close>),
      \<open>Scte_State\<close> (\<^verbatim>\<open>state.go\<close>); \<open>Scte_Ring\<close>: theorems on its ring of received descriptors; \<open>Scte_Typing\<close>: the type invariant of messages.
    \<^item> \<open>Section_Carriage\<close>: theorems on accumulator, completion functions, readers and parsers together.  \<open>Cli\<close>:
      \<^verbatim>\<open>cli/parsefile.go\<close>.

  \<^bold>\<open>Theories of\<close> \<^verbatim>\<open>src/mediacommon/pkg\<close>:

    \<^item> \<open>Mc_Bits\<close>: \<^verbatim>\<open>bits\<close>.  \<open>Mc_Code\<close>: codes of the standards as lists of bits, and the relation \<open>codes\<close> between a
      reader, a value and its code.
    \<^item> \<open>Mc_H264\<close>: the access units of \<^verbatim>\<open>codecs/h264\<close> (\<^verbatim>\<open>avcc.go\<close>, \<^verbatim>\<open>annexb.go\<close>, \<^verbatim>\<open>emulation_prevention.go\<close> and the unit
      types).  \<open>Mc_SPS\<close>: \<^verbatim>\<open>sps.go\<close>; \<open>Mc_SPS_Code\<close>: the code of the parameter set and its theorem.  \<open>Mc_DTS\<close>:
      \<^verbatim>\<open>dts_extractor.go\<close>.
    \<^item> \<open>Mc_AV1\<close>: \<^verbatim>\<open>codecs/av1\<close>.  \<open>Mc_ADTS\<close> and \<open>Mc_ASC\<close>: \<^verbatim>\<open>codecs/mpeg4audio\<close>.  \<open>Mc_G711\<close>: \<^verbatim>\<open>codecs/g711\<close>.  \<open>Mc_Time\<close>:
      \<^verbatim>\<open>formats/mpegts/time_decoder.go\<close>.

  \<^bold>\<open>Abstractions and refinement.\<close>  \<open>Packet_Core\<close> maps the header to a record (\<open>header_of\<close>); the setters of six fields are updates
  of one field of it and leave the other bytes alone; the seventh, of the adaptation field control, also makes or
  stuffs the field (\<open>header_setters_refine\<close> in \<open>Packet_Modify\<close>) (locale \<open>header_field\<close>, one interpretation for each field;
  \<open>two_fields\<close> for pairs of them, which commute).  \<open>Packet_AF\<close> maps the adaptation field to the record of its optional
  parts (\<open>af_view\<close>); switching a part on or off, which shifts the bytes behind it in place, is the update of that part
  (\<open>af_insertable\<close>, \<open>af_option\<close>, \<open>af_data\<close>).  How much room a field has is counted in its stuffing bytes, not by the code's own border, which
  is one byte short in a full field (\<open>full_field_refuses_clock\<close>).  \<open>Gots_CRC\<close> compares the checksum of the code, which is computed in the
  augmented form, with the one of the textbook.  \<open>Ebp_Base\<close> has the contract of the flags (\<open>ebp_flag\<close>), with the fact
  that a flag cannot be cleared.

  \<^bold>\<open>Codecs.\<close>  What is written is read back: clocks (\<open>clock_codec\<close>), program tables, headers of elementary streams,
  encoder boundary points, splice commands and their parts (\<open>timed\<close>, \<open>buf_codec\<close>), segmentation descriptors, whole
  SCTE-35 messages, also through packets; and for the second library access units in both formats, streams of AV1
  units, audio packets, audio configurations, audio samples of both laws.  Where the code only reads, the theorem
  starts from the code of the standard: parameter sets within \<open>sps_ok\<close>, and slice headers of frames without separate
  planes, are read back (\<open>field_code\<close>, interpreted for every part that has a reader of its own).  The text before a property of this kind
  names its whole domain.  Bounds in it are those of the format or those that the code needs; a finding
  of the manifest names each bound of the second kind, and where the code accepts more, the theorem or its neighbour
  says what comes of it: \<open>seg_as_read\<close>, \<open>as_read\<close>, \<open>EBP_overlong\<close>, \<open>ReadPMT_short_start\<close>, \<open>POC_separate_planes\<close>.

  \<^bold>\<open>Protocols.\<close>  \<open>Accumulator\<close> proves what an accumulator holds after any packets - those since the last start of a unit, up to the first
  that completes one - and that no packet makes it panic if the completion function does not (\<open>done_function\<close>).  \<open>Section_Carriage\<close> extends that
  contract to completion functions that recognise the end of a section (\<open>section_done\<close>, interpreted for program map
  tables and for SCTE-35); from it follow the theorems on tables and messages spread over packets with other streams
  between them.  \<open>PacketIO\<close> proves that a writer on top of a packet writer writes all or reports the error
  (\<open>packet_writer\<close>).

  \<^bold>\<open>State machines.\<close>  \<open>Scte_State\<close> has the inductive relations \<open>step\<close> and \<open>reachable\<close> for the signals processed and closed, with the
  invariant of reachable states, the effect of opening descriptors, and a sequence that
  leaves a stale index behind; \<open>Scte_Ring\<close> the refusal of duplicates, at once and after signals at up to nine other times.  \<open>Mc_DTS\<close> has \<open>dts_reachable\<close> for the extractor of decoding times: its invariant,
  the absence of panics, times that never go back, and what a steady stream gives.

  \<^bold>\<open>Safety and types.\<close>  Malformed input is part of the model: the properties on panics hold for every input, or name the
  input that panics.  \<open>Scte_Typing\<close> proves which values the parsers of messages can return.  The rules \<open>needs\<close> of
  \<open>Mc_SPS\<close> carry the proof that its reader does not panic.

  \<^bold>\<open>Loops and termination.\<close>  Loops are total functions with a measure: the bytes that are left, or a counter that moves
  towards its bound.  There is no fuel.  Four loops of the source need not end, because a counter wraps or jumps over
  its last value: \<open>group_loop\<close> of \<open>Ebp\<close>, \<open>filter_loop\<close> of \<open>Psi_PMT\<close>, \<open>mid_loop\<close> of \<open>Scte_Descriptor\<close> and \<open>desc_loop\<close> of
  \<open>Scte_Message\<close>.  They are partial functions, \<open>None\<close> is a call that does not return, and the
  round trips and functional properties state that the result is \<open>Some\<close>, so that returning is part of the claim.  \<open>ReadEBP_returns\<close> says exactly when the first of them does not end, and the theorems on hostile
  descriptors and messages name input on which \<open>mid_loop\<close> and \<open>desc_loop\<close> do not; on built tables \<open>filter_loop\<close> does.

  \<^bold>\<open>Assumptions.\<close>  The capacity of a slice is its length, except for the open descriptors of \<open>Scte_State\<close>, where the array
  behind the slice can be seen.  Slices passed in are values: the packages do not write to them unless the model
  returns them changed.  Memory is unlimited.  Counters of type \<^verbatim>\<open>int\<close> are unbounded where the input or an invariant
  bounds them.  A Go map is an association list; the order in which it is visited, the file system and the clock are
  parameters (\<open>world\<close> of \<open>Cli\<close>), and so are completion functions and packet writers.  Of \<^verbatim>\<open>fmt\<close>, \<^verbatim>\<open>io\<close>, \<^verbatim>\<open>bufio\<close>, \<^verbatim>\<open>bytes\<close> and
  \<^verbatim>\<open>encoding/binary\<close> the documented behaviour of the functions in use is modelled.  Signals do not change while the
  state machine holds them.  After an error the receiver is left out, except where callers go on with it (the decoding
  times, the header of an elementary stream, the state machine).

  \<^bold>\<open>Not modelled.\<close>  In \<^verbatim>\<open>src/gots\<close>: text made for debugging (the usage text, the diagnostic of \<^verbatim>\<open>CheckLength\<close>, the printing
  of packets).  In \<^verbatim>\<open>src/mediacommon\<close>: the frame rate, a quotient of floating point numbers; H.265, VP8, VP9, Opus, MPEG
  video and the other audio formats; the containers, which rest on third-party packages.  \<^verbatim>\<open>src/mediacommon1\<close> is a copy of
  \<^verbatim>\<open>src/mediacommon\<close>.  The remaining projects of the repository are independent of both libraries: servers and clients
  around sockets and goroutines, playlists, MP4, tags, subtitles, numeric codecs and wrappers of external programs.
\<close>

end
